(* ===== verification/Prelude.thy ===== *)
theory Prelude
  imports Main "HOL-Library.Word"
begin

text \<open>
  Shared vocabulary of the development: the machine types of the Rust sources, byte strings,
  little-endian codecs, slices of byte buffers (\<open>buf[off..off + n]\<close> and
  \<open>copy_from_slice\<close>), and the state-and-error sequencing that Rust writes with \<open>?\<close> on a
  \<open>&mut self\<close> method. The collections \<open>codec\<close>, \<open>slices\<close> and \<open>effects\<close> gather the facts the
  component theories give to the simplifier.
\<close>

unbundle bit_operations_syntax

named_theorems codec "little-endian round trips"
named_theorems slices "reads and writes of byte ranges"
named_theorems effects "state-and-error sequencing"

section \<open>Machine types\<close>

type_synonym u8 = "8 word"
type_synonym u16 = "16 word"
type_synonym u32 = "32 word"
type_synonym u64 = "64 word"
type_synonym bytes = "8 word list"

text \<open>A Rust \<open>&str\<close> is its UTF-8 bytes; \<open>lit\<close> gives the bytes of an ASCII literal.\<close>

type_synonym rstr = bytes

definition lit :: "string \<Rightarrow> bytes" where
  "lit s = map of_char s"

lemma lit_simps [simp]:
  "lit [] = []" "lit (c # cs) = of_char c # lit cs" "lit (xs @ ys) = lit xs @ lit ys"
  by (simp_all add: lit_def)

lemma length_lit [simp]: "length (lit s) = length s"
  by (simp add: lit_def)

lemma unat_u8: "unat (b :: u8) < 256"
  using unsigned_less [of b] by simp

abbreviation U64_MAX :: nat where "U64_MAX \<equiv> 18446744073709551615"

lemma unat_of_nat_u32: "n < 2 ^ 32 \<Longrightarrow> unat (of_nat n :: u32) = n"
  by (simp add: unat_of_nat)

text \<open>Seven-bit groups with a continuation bit, as LEB128 and HPACK integers use them.\<close>

lemma and_0x80_iff: "(b :: u8) AND 0x80 = 0 \<longleftrightarrow> unat b < 128"
proof -
  have eq: "(0x80 :: u8) = 2 ^ 7" by simp
  have "b AND 0x80 = 0 \<longleftrightarrow> \<not> bit b 7"
    unfolding eq by (rule and_exp_eq_0_iff_not_bit)
  also have "\<dots> \<longleftrightarrow> even (unat b div 128)"
  proof -
    have "bit b 7 = bit (unat b) 7" by (simp add: bit_unsigned_iff)
    then show ?thesis by (simp add: bit_iff_odd)
  qed
  also have "\<dots> \<longleftrightarrow> unat b < 128"
  proof -
    have "unat b div 128 < 2" using unat_u8 [of b] by simp
    then have "even (unat b div 128) \<longleftrightarrow> unat b div 128 = 0" by (auto simp: less_2_cases_iff)
    then show ?thesis by (simp add: div_eq_0_iff)
  qed
  finally show ?thesis .
qed

lemma and_0x7F_eq: "unat ((b :: u8) AND 0x7F) = unat b mod 128"
proof -
  have "b AND 0x7F = take_bit 7 b" by (simp add: take_bit_eq_mask mask_eq_exp_minus_1)
  then show ?thesis by (simp add: take_bit_eq_mod unat_mod)
qed

lemma take_drop_bit_or: "(n mod 128) OR push_bit 7 (n div 128) = (n :: nat)"
proof -
  have "take_bit 7 n OR push_bit 7 (drop_bit 7 n) = n"
    by (rule bit_eqI) (metis bit_drop_bit_eq bit_or_iff bit_push_bit_iff bit_take_bit_iff comp_apply
        le_add_diff_inverse linorder_not_less possible_bit_nat)
  then show ?thesis by (simp add: take_bit_eq_mod drop_bit_eq_div)
qed

section \<open>Little-endian integers\<close>

text \<open>
  \<open>to_le k n\<close> is \<open>n.to_le_bytes()\<close> of a \<open>k\<close>-byte unsigned integer, \<open>from_le\<close> is
  \<open>from_le_bytes\<close>.
\<close>

fun to_le :: "nat \<Rightarrow> nat \<Rightarrow> bytes" where
  "to_le 0 n = []"
| "to_le (Suc k) n = of_nat (n mod 256) # to_le k (n div 256)"

fun from_le :: "bytes \<Rightarrow> nat" where
  "from_le [] = 0"
| "from_le (b # bs) = unat b + 256 * from_le bs"

lemma to_le_numeral [simp]:
  "to_le (numeral k) n = of_nat (n mod 256) # to_le (pred_numeral k) (n div 256)"
  by (simp only: numeral_eq_Suc [of k] to_le.simps)

lemma length_to_le [simp]: "length (to_le k n) = k"
  by (induction k arbitrary: n) auto

lemma from_to_le [codec]: "from_le (to_le k n) = n mod 256 ^ k"
  by (induction k arbitrary: n) (auto simp: unat_of_nat mod_mult2_eq)

lemma to_from_le [codec]: "to_le (length bs) (from_le bs) = bs"
proof (induction bs)
  case Nil
  then show ?case by simp
next
  case (Cons b bs)
  have lt: "unat b < 256"
    by (rule unat_u8)
  then have "(unat b + 256 * from_le bs) mod 256 = unat b"
    and "(unat b + 256 * from_le bs) div 256 = from_le bs"
    by simp_all
  with Cons.IH show ?case by simp
qed

lemma from_le_bound: "from_le bs < 256 ^ length bs"
proof (induction bs)
  case Nil
  then show ?case by simp
next
  case (Cons b bs)
  have "unat b < 256" by (rule unat_u8)
  with Cons.IH show ?case by simp
qed

section \<open>Slices of byte buffers\<close>

text \<open>
  \<open>slice off n xs\<close> is \<open>&xs[off..off + n]\<close> and \<open>splice off ys xs\<close> is
  \<open>xs[off..off + ys.len()].copy_from_slice(&ys)\<close>, both for ranges inside the buffer.
\<close>

definition slice :: "nat \<Rightarrow> nat \<Rightarrow> 'a list \<Rightarrow> 'a list" where
  "slice off n xs = take n (drop off xs)"

definition splice :: "nat \<Rightarrow> 'a list \<Rightarrow> 'a list \<Rightarrow> 'a list" where
  "splice off ys xs = take off xs @ ys @ drop (off + length ys) xs"

lemma length_slice [simp]: "off + n \<le> length xs \<Longrightarrow> length (slice off n xs) = n"
  by (simp add: slice_def)

lemma length_splice [simp]: "off + length ys \<le> length xs \<Longrightarrow> length (splice off ys xs) = length xs"
  by (simp add: splice_def)

lemma slice_splice_same [slices]:
  "off + length ys \<le> length xs \<Longrightarrow> slice off (length ys) (splice off ys xs) = ys"
  by (simp add: slice_def splice_def)

lemma nth_splice:
  "off + length ys \<le> length xs \<Longrightarrow> i < length xs \<Longrightarrow>
     splice off ys xs ! i = (if off \<le> i \<and> i < off + length ys then ys ! (i - off) else xs ! i)"
  by (auto simp: splice_def nth_append min_def)

lemma nth_slice: "off + n \<le> length xs \<Longrightarrow> i < n \<Longrightarrow> slice off n xs ! i = xs ! (off + i)"
  by (simp add: slice_def)

lemma slice_splice_disjoint [slices]:
  assumes "off + length ys \<le> length xs" and "o2 + n \<le> length xs"
    and "o2 + n \<le> off \<or> off + length ys \<le> o2"
  shows "slice o2 n (splice off ys xs) = slice o2 n xs"
  using assms by (intro nth_equalityI) (auto simp: nth_slice nth_splice)

lemma slice_all [simp]: "slice 0 (length xs) xs = xs"
  by (simp add: slice_def)

section \<open>Results and sequencing\<close>

text \<open>
  A fallible method on mutable state is a function of type \<open>('s, 'e, 'a) op\<close>: it returns the
  error or the value together with the state it leaves, so that an early return by \<open>?\<close> keeps
  the changes made before it.
\<close>

type_synonym ('s, 'e, 'a) op = "'s \<Rightarrow> ('e + 'a) \<times> 's"

definition retE :: "'a \<Rightarrow> ('s, 'e, 'a) op" where
  "retE a = (\<lambda>s. (Inr a, s))"

definition throwE :: "'e \<Rightarrow> ('s, 'e, 'a) op" where
  "throwE e = (\<lambda>s. (Inl e, s))"

definition bindE :: "('s, 'e, 'a) op \<Rightarrow> ('a \<Rightarrow> ('s, 'e, 'b) op) \<Rightarrow> ('s, 'e, 'b) op" where
  "bindE m f = (\<lambda>s. case m s of (Inl e, s') \<Rightarrow> (Inl e, s') | (Inr a, s') \<Rightarrow> f a s')"

lemma retE_apply [effects]: "retE a s = (Inr a, s)"
  by (simp add: retE_def)

lemma throwE_apply [effects]: "throwE e s = (Inl e, s)"
  by (simp add: throwE_def)

lemma bindE_Inr [effects]: "m s = (Inr a, s') \<Longrightarrow> bindE m f s = f a s'"
  by (simp add: bindE_def)

lemma bindE_Inl [effects]: "m s = (Inl e, s') \<Longrightarrow> bindE m f s = (Inl e, s')"
  by (simp add: bindE_def)

lemma bindE_Inr_iff:
  "bindE m f s = (Inr b, s'') \<longleftrightarrow> (\<exists>a s'. m s = (Inr a, s') \<and> f a s' = (Inr b, s''))"
  by (auto simp: bindE_def split: sum.splits prod.splits)

lemma bindE_InrE:
  assumes "bindE m f s = (Inr b, s'')"
  obtains a s' where "m s = (Inr a, s')" and "f a s' = (Inr b, s'')"
  using assms by (auto simp: bindE_Inr_iff)

text \<open>\<open>for x in xs { f(x)?; }\<close> and a batch in which every element is tried and the first error reported.\<close>

fun forE :: "('a \<Rightarrow> ('s, 'e, unit) op) \<Rightarrow> 'a list \<Rightarrow> ('s, 'e, unit) op" where
  "forE f [] = retE ()"
| "forE f (x # xs) = bindE (f x) (\<lambda>_. forE f xs)"

fun tryE :: "('a \<Rightarrow> ('s, 'e, unit) op) \<Rightarrow> 'a list \<Rightarrow> ('s, 'e, unit) op" where
  "tryE f [] = retE ()"
| "tryE f (x # xs) = (\<lambda>s. case f x s of
     (Inr _, s') \<Rightarrow> tryE f xs s'
   | (Inl e, s') \<Rightarrow> (Inl e, snd (tryE f xs s')))"

text \<open>
  \<open>wpE m Q R s\<close>: run from \<open>s\<close>, \<open>m\<close> ends with a value and state that satisfy \<open>Q\<close> or with an error and
  state that satisfy \<open>R\<close>. The equations unfold it along the structure of an operation.
\<close>

definition wpE :: "('s, 'e, 'a) op \<Rightarrow> ('a \<Rightarrow> 's \<Rightarrow> bool) \<Rightarrow> ('e \<Rightarrow> 's \<Rightarrow> bool) \<Rightarrow> 's \<Rightarrow> bool" where
  "wpE m Q R s = (case m s of (Inr a, s') \<Rightarrow> Q a s' | (Inl e, s') \<Rightarrow> R e s')"

named_theorems wp "weakest preconditions along the structure of an operation"

lemma wpE_ret [wp]: "wpE (retE a) Q R s = Q a s"
  by (simp add: wpE_def effects)

lemma wpE_throw [wp]: "wpE (throwE e) Q R s = R e s"
  by (simp add: wpE_def effects)

lemma wpE_bind [wp]: "wpE (bindE m f) Q R s = wpE m (\<lambda>a. wpE (f a) Q R) R s"
  by (auto simp: wpE_def bindE_def split: sum.splits prod.splits)

lemma wpE_if [wp]: "wpE (if c then m else n) Q R s = (if c then wpE m Q R s else wpE n Q R s)"
  by simp

lemma wpE_mono:
  "wpE m Q R s \<Longrightarrow> (\<And>a s'. Q a s' \<Longrightarrow> Q' a s') \<Longrightarrow> (\<And>e s'. R e s' \<Longrightarrow> R' e s') \<Longrightarrow> wpE m Q' R' s"
  by (auto simp: wpE_def split: sum.splits prod.splits)

lemma wpE_conj:
  "wpE m Q R s \<Longrightarrow> wpE m Q' R' s \<Longrightarrow> wpE m (\<lambda>a s'. Q a s' \<and> Q' a s') (\<lambda>e s'. R e s' \<and> R' e s') s"
  by (auto simp: wpE_def split: sum.splits prod.splits)

lemma wpE_InrD: "wpE m Q R s \<Longrightarrow> m s = (Inr a, s') \<Longrightarrow> Q a s'"
  by (simp add: wpE_def effects)

lemma wpE_InlD: "wpE m Q R s \<Longrightarrow> m s = (Inl e, s') \<Longrightarrow> R e s'"
  by (simp add: wpE_def effects)

lemma wpE_I:
  "(\<And>a s'. m s = (Inr a, s') \<Longrightarrow> Q a s') \<Longrightarrow> (\<And>e s'. m s = (Inl e, s') \<Longrightarrow> R e s') \<Longrightarrow> wpE m Q R s"
  by (auto simp: wpE_def split: sum.splits prod.splits)

text \<open>A loop keeps an invariant indexed by the part of the list already done.\<close>

lemma wpE_forE:
  assumes "I [] s" and "\<And>ys x zs s. xs = ys @ x # zs \<Longrightarrow> I ys s \<Longrightarrow> wpE (f x) (\<lambda>_. I (ys @ [x])) R s"
  shows "wpE (forE f xs) (\<lambda>_. I xs) R s"
proof -
  have "wpE (forE f zs) (\<lambda>_. I xs) R s" if "xs = ys @ zs" "I ys s" for ys zs s
    using that
  proof (induction zs arbitrary: ys s)
    case Nil
    then show ?case by (simp add: wp)
  next
    case (Cons x zs)
    from Cons.IH [of "ys @ [x]"] Cons.prems(1)
    have "I (ys @ [x]) s' \<Longrightarrow> wpE (forE f zs) (\<lambda>_. I xs) R s'" for s' by simp
    with assms(2) [OF Cons.prems] show ?case by (auto simp: wp intro: wpE_mono)
  qed
  from this [of "[]" xs] assms(1) show ?thesis by simp
qed

lemma replicate_numeral: "replicate (numeral k) x = x # replicate (pred_numeral k) x"
  by (simp only: numeral_eq_Suc [of k] replicate_Suc)

section \<open>Searching vectors\<close>

text \<open>\<open>position p xs\<close> is \<open>xs.iter().position(p)\<close>; \<open>update_first\<close> is \<open>iter_mut().find\<close> followed
  by an update of the element found.\<close>

fun position :: "('a \<Rightarrow> bool) \<Rightarrow> 'a list \<Rightarrow> nat option" where
  "position p [] = None"
| "position p (x # xs) = (if p x then Some 0 else map_option Suc (position p xs))"

lemma position_SomeD:
  "position p xs = Some i \<Longrightarrow> i < length xs \<and> p (xs ! i) \<and> (\<forall>j < i. \<not> p (xs ! j))"
proof (induction xs arbitrary: i)
  case Nil
  then show ?case by simp
next
  case (Cons x xs)
  show ?case
  proof (cases "p x")
    case True
    with Cons.prems show ?thesis by simp
  next
    case False
    with Cons.prems obtain k where "position p xs = Some k" and "i = Suc k" by auto
    with Cons.IH [of k] False show ?thesis by (auto simp: nth_Cons split: nat.splits)
  qed
qed

lemma position_None_iff: "position p xs = None \<longleftrightarrow> (\<forall>x \<in> set xs. \<not> p x)"
  by (induction xs) auto

lemma position_find: "position p xs = Some i \<Longrightarrow> find p xs = Some (xs ! i)"
  by (induction xs arbitrary: i) (auto split: if_splits)

fun update_first :: "('a \<Rightarrow> bool) \<Rightarrow> ('a \<Rightarrow> 'a) \<Rightarrow> 'a list \<Rightarrow> 'a list" where
  "update_first p f [] = []"
| "update_first p f (x # xs) = (if p x then f x # xs else x # update_first p f xs)"

lemma length_update_first [simp]: "length (update_first p f xs) = length xs"
  by (induction xs) auto

lemma map_update_first:
  "(\<And>x. g (f x) = g x) \<Longrightarrow> map g (update_first p f xs) = map g xs"
  by (induction xs) auto

lemma filter_remove_nth:
  "i < length xs \<Longrightarrow> filter q (take i xs @ drop (Suc i) xs) =
     filter q (take i xs) @ filter q (drop (Suc i) xs)"
  by simp

end
