(* ===== verification/Rights.thy ===== *)
theory Rights
  imports Prelude
begin

text \<open>
  The rights of the capability system and the rights a WASM module declares
  (\<open>kernel/src/security/capability.rs\<close>): the \<open>Rights\<close> bit set, the two \<open>.npk.caps\<close> bytes, the
  LEB128 reader and the custom-section walk that finds the section. The lemmas bound what any
  byte string can be granted and show that the walk finds the first section of the wanted name
  in a well-formed module.
\<close>

section \<open>The bit set\<close>

type_synonym rights = u32

definition READ :: rights where "READ = 0x1"
definition WRITE :: rights where "WRITE = 0x2"
definition EXECUTE :: rights where "EXECUTE = 0x4"
definition DELEGATE :: rights where "DELEGATE = 0x8"
definition REVOKE :: rights where "REVOKE = 0x10"
definition AUDIT :: rights where "AUDIT = 0x20"
definition RENDER :: rights where "RENDER = 0x40"
definition CANVAS :: rights where "CANVAS = 0x80"
definition CAPTURE :: rights where "CAPTURE = 0x100"
definition HARDWARE :: rights where "HARDWARE = 0x200"
definition NETCTL :: rights where "NETCTL = 0x400"
definition NET :: rights where "NET = 0x800"
definition SHELL :: rights where "SHELL = 0x1000"
definition EXTERNAL :: rights where "EXTERNAL = 0x2000"
definition CAMERA :: rights where "CAMERA = 0x4000"
definition MIC :: rights where "MIC = 0x8000"
definition SETTINGS :: rights where "SETTINGS = 0x10000"
definition RIGHTS_ALL :: rights where "RIGHTS_ALL = 0x1FFFF"

lemmas rights_defs = READ_def WRITE_def EXECUTE_def DELEGATE_def REVOKE_def AUDIT_def RENDER_def
  CANVAS_def CAPTURE_def HARDWARE_def NETCTL_def NET_def SHELL_def EXTERNAL_def CAMERA_def
  MIC_def SETTINGS_def RIGHTS_ALL_def

text \<open>\<open>a.contains(b)\<close>: every bit of \<open>b\<close> is in \<open>a\<close>; \<open>from_bits_truncate\<close> drops unknown bits.\<close>

definition contains :: "rights \<Rightarrow> rights \<Rightarrow> bool" where
  "contains a b \<longleftrightarrow> a AND b = b"

definition from_bits_truncate :: "u32 \<Rightarrow> rights" where
  "from_bits_truncate b = b AND RIGHTS_ALL"

lemma contains_iff_bits: "contains a b \<longleftrightarrow> (\<forall>n. bit b n \<longrightarrow> bit a n)"
proof
  assume "contains a b"
  then have "a AND b = b" by (simp add: contains_def)
  then show "\<forall>n. bit b n \<longrightarrow> bit a n" by (metis bit_and_iff)
next
  assume "\<forall>n. bit b n \<longrightarrow> bit a n"
  then have "a AND b = b" by (intro bit_eqI) (auto simp: bit_and_iff)
  then show "contains a b" by (simp add: contains_def)
qed

lemma contains_refl [simp]: "contains a a"
  by (simp add: contains_def)

lemma contains_zero [simp]: "contains a 0"
  by (simp add: contains_def)

lemma contains_trans: "contains a b \<Longrightarrow> contains b c \<Longrightarrow> contains a c"
  by (auto simp: contains_iff_bits)

lemma contains_or [simp]: "contains a (b OR c) \<longleftrightarrow> contains a b \<and> contains a c"
  by (auto simp: contains_iff_bits bit_or_iff)

lemma contains_or_left: "contains a b \<Longrightarrow> contains (a OR c) b"
  by (auto simp: contains_iff_bits bit_or_iff)

section \<open>The declared rights of a module\<close>

definition rights_from_caps_byte :: "u8 \<Rightarrow> rights" where
  "rights_from_caps_byte b =
     (if b AND 0x01 \<noteq> 0 then READ else 0) OR
     (if b AND 0x02 \<noteq> 0 then WRITE else 0) OR
     (if b AND 0x04 \<noteq> 0 then EXECUTE else 0) OR
     (if b AND 0x08 \<noteq> 0 then RENDER else 0) OR
     (if b AND 0x10 \<noteq> 0 then CAPTURE else 0) OR
     (if b AND 0x20 \<noteq> 0 then CANVAS else 0) OR
     (if b AND 0x40 \<noteq> 0 then HARDWARE else 0) OR
     (if b AND 0x80 \<noteq> 0 then NETCTL else 0)"

definition rights_from_caps_byte2 :: "u8 \<Rightarrow> rights" where
  "rights_from_caps_byte2 b =
     (if b AND 0x01 \<noteq> 0 then NET else 0) OR
     (if b AND 0x02 \<noteq> 0 then SHELL else 0) OR
     (if b AND 0x04 \<noteq> 0 then EXTERNAL else 0) OR
     (if b AND 0x08 \<noteq> 0 then CAMERA else 0) OR
     (if b AND 0x10 \<noteq> 0 then MIC else 0) OR
     (if b AND 0x20 \<noteq> 0 then SETTINGS else 0) OR
     (if b AND 0x40 \<noteq> 0 then AUDIT else 0)"

definition default_widget_rights :: rights where
  "default_widget_rights = READ OR EXECUTE OR RENDER"

fun read_leb128_loop :: "bytes \<Rightarrow> nat \<Rightarrow> nat \<Rightarrow> u32 \<Rightarrow> (u32 \<times> nat) option" where
  "read_leb128_loop [] i shift result = None"
| "read_leb128_loop (b # bs) i shift result =
     (if shift \<ge> 32 then None
      else let result = result OR push_bit shift (ucast (b AND 0x7F))
           in if b AND 0x80 = 0 then Some (result, i + 1)
              else read_leb128_loop bs (i + 1) (shift + 7) result)"

definition read_leb128_u32 :: "bytes \<Rightarrow> (u32 \<times> nat) option" where
  "read_leb128_u32 buf = read_leb128_loop buf 0 0 0"

lemma length_drop_less [simp]: "length (drop a (drop b xs)) \<le> length xs"
  by simp

function custom_section_loop :: "bytes \<Rightarrow> bytes \<Rightarrow> bytes option" where
  "custom_section_loop [] target = None"
| "custom_section_loop (section_id # cur) target =
     (case read_leb128_u32 cur of
        None \<Rightarrow> None
      | Some (sz, consumed) \<Rightarrow>
          let body = drop consumed cur in
          if unat sz > length body then None
          else
            let payload = take (unat sz) body; rest = drop (unat sz) body in
            if section_id \<noteq> 0 then custom_section_loop rest target
            else (case read_leb128_u32 payload of
                None \<Rightarrow> None
              | Some (name_len, consumed) \<Rightarrow>
                  let name_end = consumed + unat name_len in
                  if name_end > length payload then custom_section_loop rest target
                  else if take (unat name_len) (drop consumed payload) = target
                    then Some (drop name_end payload)
                  else custom_section_loop rest target))"
  by pat_completeness auto
termination
  by (relation "measure (\<lambda>(cur, target). length cur)") (auto simp: less_Suc_eq_le)

definition wasm_magic :: bytes where
  "wasm_magic = [0, 0x61, 0x73, 0x6D, 1, 0, 0, 0]"

definition extract_wasm_custom_section :: "bytes \<Rightarrow> bytes \<Rightarrow> bytes option" where
  "extract_wasm_custom_section wasm target =
     (if length wasm < 8 \<or> take 8 wasm \<noteq> wasm_magic then None
      else custom_section_loop (drop 8 wasm) target)"

definition widget_rights_from_wasm :: "bytes \<Rightarrow> rights" where
  "widget_rights_from_wasm wasm =
     (case extract_wasm_custom_section wasm (lit ''.npk.caps'') of
        Some (b # rest) \<Rightarrow>
          rights_from_caps_byte b OR
          (case rest of [] \<Rightarrow> 0 | b2 # _ \<Rightarrow> rights_from_caps_byte2 b2)
      | _ \<Rightarrow> default_widget_rights)"

section \<open>What a declaration can grant\<close>

text \<open>No declaration reaches the rights that manage other capabilities.\<close>

lemma caps_bytes_no_manage:
  "rights_from_caps_byte b AND (DELEGATE OR REVOKE) = 0"
  "rights_from_caps_byte2 b AND (DELEGATE OR REVOKE) = 0"
  "default_widget_rights AND (DELEGATE OR REVOKE) = 0"
  by (simp_all add: rights_from_caps_byte_def rights_from_caps_byte2_def
      default_widget_rights_def rights_defs bit.conj_disj_distrib2)

lemma widget_rights_no_manage: "widget_rights_from_wasm w AND (DELEGATE OR REVOKE) = 0"
  by (auto simp: widget_rights_from_wasm_def caps_bytes_no_manage bit.conj_disj_distrib2
      split: option.splits list.splits)

section \<open>Reading a well-formed module\<close>

text \<open>The standard encoding, shortest form.\<close>

fun leb128 :: "nat \<Rightarrow> bytes" where
  "leb128 n = (if n < 128 then [of_nat n] else of_nat (n mod 128 + 128) # leb128 (n div 128))"

declare leb128.simps [simp del]

lemma leb128_step_or:
  "push_bit s (of_nat (n mod 128)) OR push_bit (s + 7) (of_nat (n div 128)) = push_bit s (of_nat n :: u32)"
proof -
  have "of_nat (n mod 128) OR push_bit 7 (of_nat (n div 128)) = (of_nat n :: u32)"
    by (metis of_nat_or_eq push_bit_of_nat take_drop_bit_or)
  then show ?thesis by (metis push_bit_or push_bit_push_bit)
qed

lemma read_leb128_loop_leb128:
  "n * 2 ^ s < 2 ^ 32 \<Longrightarrow> s < 32 \<Longrightarrow>
     read_leb128_loop (leb128 n @ rest) i s r =
       Some (r OR push_bit s (of_nat n), i + length (leb128 n))"
proof (induction n arbitrary: i s r rule: leb128.induct)
  case (1 n)
  show ?case
  proof (cases "n < 128")
    case True
    then have u: "unat (of_nat n :: u8) = n" by (simp add: unat_of_nat)
    then have "ucast ((of_nat n :: u8) AND 0x7F) = (of_nat n :: u32)"
      using True and_0x7F_eq [of "of_nat n"] by (metis mod_less of_nat_unat)
    with True u "1.prems" show ?thesis
      by (simp add: leb128.simps [of n] and_0x80_iff)
  next
    case False
    let ?b = "of_nat (n mod 128 + 128) :: u8"
    have "n mod 128 + 128 < 2 ^ 8"
      using mod_less_divisor [of 128 n] by simp
    then have u: "unat ?b = n mod 128 + 128"
      by (simp only: unat_of_nat) simp
    have "unat (?b AND 0x7F) = n mod 128"
      by (simp only: and_0x7F_eq u) simp
    then have c: "ucast (?b AND 0x7F) = (of_nat (n mod 128) :: u32)"
      by (metis of_nat_unat)
    have hi: "\<not> ?b AND 0x80 = 0" using u by (simp add: and_0x80_iff)
    have "n div 128 * 2 ^ (s + 7) \<le> n * 2 ^ s" by (simp add: power_add)
    with "1.prems" have p: "n div 128 * 2 ^ (s + 7) < 2 ^ 32" by linarith
    have "s + 7 < 32"
    proof (rule ccontr)
      assume "\<not> s + 7 < 32"
      then have "(2::nat) ^ 32 \<le> 2 ^ (s + 7)" by (intro power_increasing) auto
      moreover have "1 \<le> n div 128" using False by simp
      ultimately have "2 ^ 32 \<le> n div 128 * 2 ^ (s + 7)"
        by (metis le_trans mult_le_mono1 mult_1)
      with p show False by simp
    qed
    from "1.IH" [OF False p this, of "i + 1" "r OR push_bit s (of_nat (n mod 128))"] False c hi "1.prems"
    show ?thesis by (simp add: leb128.simps [of n] or.assoc leb128_step_or)
  qed
qed

lemma read_leb128_u32_leb128:
  "n < 2 ^ 32 \<Longrightarrow> read_leb128_u32 (leb128 n @ rest) = Some (of_nat n, length (leb128 n))"
  using read_leb128_loop_leb128 [of n 0 rest 0 0] by (simp add: read_leb128_u32_def)


text \<open>Well-formed modules: custom sections with a name, and sections of the other ids.\<close>

datatype wsec = Custom bytes bytes | Other u8 bytes

fun sec_payload :: "wsec \<Rightarrow> bytes" where
  "sec_payload (Custom name data) = leb128 (length name) @ name @ data"
| "sec_payload (Other i p) = p"

fun sec_id :: "wsec \<Rightarrow> u8" where
  "sec_id (Custom name data) = 0"
| "sec_id (Other i p) = i"

definition sec_bytes :: "wsec \<Rightarrow> bytes" where
  "sec_bytes s = sec_id s # leb128 (length (sec_payload s)) @ sec_payload s"

definition sec_ok :: "wsec \<Rightarrow> bool" where
  "sec_ok s \<longleftrightarrow> length (sec_payload s) < 2 ^ 32 \<and> (case s of Custom _ _ \<Rightarrow> True | Other i _ \<Rightarrow> i \<noteq> 0)"

fun first_custom :: "bytes \<Rightarrow> wsec list \<Rightarrow> bytes option" where
  "first_custom target [] = None"
| "first_custom target (Custom name data # ss) =
     (if name = target then Some data else first_custom target ss)"
| "first_custom target (Other i p # ss) = first_custom target ss"

lemma custom_section_loop_sec:
  assumes "sec_ok s"
  shows "custom_section_loop (sec_bytes s @ rest) target =
    (case s of Custom name data \<Rightarrow> if name = target then Some data else custom_section_loop rest target
     | Other _ _ \<Rightarrow> custom_section_loop rest target)"
proof (cases s)
  case (Other i p)
  with assms have l: "length p < 2 ^ 32" and i: "i \<noteq> 0" by (auto simp: sec_ok_def)
  show ?thesis
    using i by (simp add: Other sec_bytes_def read_leb128_u32_leb128 [OF l] unat_of_nat_u32 [OF l])
next
  case (Custom name data)
  with assms have l: "length (leb128 (length name) @ name @ data) < 2 ^ 32"
    by (simp add: sec_ok_def)
  then have n: "length name < 2 ^ 32" by simp
  show ?thesis
    by (simp add: Custom sec_bytes_def read_leb128_u32_leb128 [OF l, simplified]
        unat_of_nat_u32 [OF l, simplified] read_leb128_u32_leb128 [OF n, simplified]
        unat_of_nat_u32 [OF n, simplified])
qed

lemma custom_section_loop_secs:
  "list_all sec_ok ss \<Longrightarrow>
     custom_section_loop (concat (map sec_bytes ss)) target = first_custom target ss"
  by (induction ss) (auto simp: custom_section_loop_sec split: wsec.splits)

lemma extract_wasm_custom_section_first:
  "list_all sec_ok ss \<Longrightarrow>
     extract_wasm_custom_section (wasm_magic @ concat (map sec_bytes ss)) target =
       first_custom target ss"
  by (simp add: extract_wasm_custom_section_def wasm_magic_def custom_section_loop_secs)

end
