(* ===== verification/Audit_Journal.thy ===== *)
theory Audit_Journal
  imports Rights
begin

text \<open>
  The audit journal (\<open>kernel/src/security/audit.rs\<close>): what every holder of a token did with it.
  \<open>audit_log\<close> is the \<open>Journal\<close> behind \<open>LOG\<close>; the operations take the \<open>Stamp\<close> the code reads from the
  clocks as an argument. The lemmas state the journal's invariant (bounded length, consecutive
  sequence numbers that are never reused, counts of at least one), that every operation keeps
  it, and that a noted event is always found among the newest entries.
\<close>

section \<open>Data\<close>

type_synonym capid = bytes

definition MAX_ENTRIES :: nat where "MAX_ENTRIES = 4096"
definition FOLD_WINDOW :: nat where "FOLD_WINDOW = 64"
definition MAX_OBJECT :: nat where "MAX_OBJECT = 160"
definition MAX_HOLDER :: nat where "MAX_HOLDER = 32"

datatype kind = Launch | Exit | Denied | Grant | Read | Write | Create | Delete | Rename | Mkdir
  | Net | DeviceOn | DeviceOff | Setting | Revoke

record stamp =
  st_wall :: nat
  st_up_ms :: nat

record entry =
  seq :: u64
  wall :: nat
  up_ms :: nat
  last_up_ms :: nat
  inst :: u32
  e_holder :: rstr
  e_kind :: kind
  e_rights :: rights
  e_count :: u32
  e_object :: rstr
  e_checks :: u64
  e_denied :: u32

record holder =
  h_cap :: capid
  h_inst :: u32
  h_name :: rstr
  h_denied :: u32

record audit_log =
  entries :: "entry list"
  holders :: "holder list"
  next_seq :: u64
  next_inst :: u32

definition journal_new :: audit_log where
  "journal_new = \<lparr>entries = [], holders = [], next_seq = 0, next_inst = 1\<rparr>"

text \<open>\<open>saturating_add(1)\<close> on a \<open>u32\<close>.\<close>

definition sat_inc :: "u32 \<Rightarrow> u32" where
  "sat_inc c = (if c = - 1 then c else c + 1)"

section \<open>Operations\<close>

text \<open>\<open>kind_label\<close> is \<open>Kind::label\<close>.\<close>

fun kind_label :: "kind \<Rightarrow> rstr" where
  "kind_label Launch = lit ''launch''"
| "kind_label Exit = lit ''exit''"
| "kind_label Denied = lit ''DENIED''"
| "kind_label Grant = lit ''grant''"
| "kind_label Read = lit ''read''"
| "kind_label Write = lit ''write''"
| "kind_label Create = lit ''create''"
| "kind_label Delete = lit ''delete''"
| "kind_label Rename = lit ''rename''"
| "kind_label Mkdir = lit ''mkdir''"
| "kind_label Net = lit ''net''"
| "kind_label DeviceOn = lit ''on''"
| "kind_label DeviceOff = lit ''off''"
| "kind_label Setting = lit ''setting''"
| "kind_label Revoke = lit ''revoke''"

definition journal_holder :: "audit_log \<Rightarrow> capid \<Rightarrow> u32 \<times> rstr" where
  "journal_holder j cap =
     (case find (\<lambda>h. h_cap h = cap) (holders j) of
        Some h \<Rightarrow> (h_inst h, h_name h)
      | None \<Rightarrow> (0, lit ''kernel''))"

definition journal_push :: "entry \<Rightarrow> audit_log \<Rightarrow> audit_log" where
  "journal_push e j =
     (let old = (if length (entries j) \<ge> MAX_ENTRIES then tl (entries j) else entries j)
      in j\<lparr>entries := old @ [e\<lparr>seq := next_seq j\<rparr>], next_seq := next_seq j + 1\<rparr>)"

text \<open>
  \<open>is_char_boundary\<close>: the ends of the string, and every byte that is not a UTF-8 continuation
  byte. \<open>cut_end\<close> is the loop that steps back to one.
\<close>

definition is_char_boundary :: "rstr \<Rightarrow> nat \<Rightarrow> bool" where
  "is_char_boundary s i \<longleftrightarrow>
     i = 0 \<or> i = length s \<or> (i < length s \<and> s ! i AND 0xC0 \<noteq> 0x80)"

fun cut_end :: "rstr \<Rightarrow> nat \<Rightarrow> nat" where
  "cut_end s 0 = 0"
| "cut_end s (Suc n) = (if is_char_boundary s (Suc n) then Suc n else cut_end s n)"

definition cut :: "rstr \<Rightarrow> nat \<Rightarrow> rstr" where
  "cut s max_len = (if length s \<le> max_len then s else take (cut_end s max_len) s)"

text \<open>
  \<open>Journal::note\<close>: the newest matching entry among the last \<open>FOLD_WINDOW\<close> absorbs the repeat, else
  a new entry is pushed.
\<close>

definition same_event :: "u32 \<Rightarrow> kind \<Rightarrow> rights \<Rightarrow> rstr \<Rightarrow> rstr \<Rightarrow> entry \<Rightarrow> bool" where
  "same_event i k r h ob e \<longleftrightarrow>
     inst e = i \<and> e_kind e = k \<and> e_rights e = r \<and> e_holder e = h \<and> e_object e = ob"

definition fold_repeat :: "stamp \<Rightarrow> entry \<Rightarrow> entry" where
  "fold_repeat t e = e\<lparr>e_count := sat_inc (e_count e), last_up_ms := st_up_ms t\<rparr>"

definition new_entry :: "stamp \<Rightarrow> u32 \<Rightarrow> rstr \<Rightarrow> kind \<Rightarrow> rights \<Rightarrow> rstr \<Rightarrow> u64 \<Rightarrow> u32 \<Rightarrow> entry" where
  "new_entry t i h k r ob ch dn =
     \<lparr>seq = 0, wall = st_wall t, up_ms = st_up_ms t, last_up_ms = st_up_ms t, inst = i,
      e_holder = h, e_kind = k, e_rights = r, e_count = 1, e_object = ob, e_checks = ch,
      e_denied = dn\<rparr>"

definition journal_note ::
  "capid \<Rightarrow> kind \<Rightarrow> rights \<Rightarrow> rstr \<Rightarrow> stamp \<Rightarrow> audit_log \<Rightarrow> audit_log" where
  "journal_note cap k r object t j =
     (let (i, h) = journal_holder j cap;
          ob = cut object MAX_OBJECT;
          start = length (entries j) - FOLD_WINDOW;
          recent = drop start (entries j);
          same = same_event i k r h ob
      in if list_ex same recent
         then j\<lparr>entries := take start (entries j) @
                           rev (update_first same (fold_repeat t) (rev recent))\<rparr>
         else journal_push (new_entry t i h k r ob 0 0) j)"

definition audit_issued :: "capid \<Rightarrow> rstr \<Rightarrow> rights \<Rightarrow> stamp \<Rightarrow> audit_log \<Rightarrow> audit_log" where
  "audit_issued cap name r t j =
     (let i = next_inst j;
          nm = cut name MAX_HOLDER;
          j = j\<lparr>next_inst := max (next_inst j + 1) 1,
                holders := holders j @ [\<lparr>h_cap = cap, h_inst = i, h_name = nm, h_denied = 0\<rparr>]\<rparr>
      in journal_push (new_entry t i nm Launch r [] 0 0) j)"

text \<open>\<open>Vec::swap_remove\<close>: the last element takes the place of the removed one.\<close>

definition swap_remove :: "nat \<Rightarrow> 'a list \<Rightarrow> 'a list" where
  "swap_remove i xs = (if i = length xs - 1 then butlast xs else (butlast xs)[i := last xs])"

definition audit_released :: "capid \<Rightarrow> u64 \<Rightarrow> rights \<Rightarrow> stamp \<Rightarrow> audit_log \<Rightarrow> audit_log" where
  "audit_released cap checks used t j =
     (case position (\<lambda>h. h_cap h = cap) (holders j) of
        None \<Rightarrow> j
      | Some pos \<Rightarrow>
          let h = holders j ! pos;
              j = j\<lparr>holders := swap_remove pos (holders j)\<rparr>
          in journal_push (new_entry t (h_inst h) (h_name h) Exit used [] checks (h_denied h)) j)"

definition denial_text :: "rstr \<Rightarrow> rstr \<Rightarrow> rstr" where
  "denial_text call why = (if why = [] then call else call @ lit '' ('' @ why @ lit '')'')"

definition audit_denied :: "capid \<Rightarrow> rights \<Rightarrow> rstr \<Rightarrow> rstr \<Rightarrow> stamp \<Rightarrow> audit_log \<Rightarrow> audit_log" where
  "audit_denied cap r call why t j =
     (let j = j\<lparr>holders := update_first (\<lambda>h. h_cap h = cap)
                            (\<lambda>h. h\<lparr>h_denied := sat_inc (h_denied h)\<rparr>) (holders j)\<rparr>
      in journal_note cap Denied r (denial_text call why) t j)"

definition audit_record :: "capid \<Rightarrow> kind \<Rightarrow> rstr \<Rightarrow> stamp \<Rightarrow> audit_log \<Rightarrow> audit_log" where
  "audit_record cap k object t j = journal_note cap k 0 object t j"

definition audit_granted :: "capid \<Rightarrow> rstr \<Rightarrow> rights \<Rightarrow> stamp \<Rightarrow> audit_log \<Rightarrow> audit_log" where
  "audit_granted cap path r t j = journal_note cap Grant r path t j"

definition GUEST :: capid where "GUEST = replicate 32 0xFF"

definition guest_started :: "rstr \<Rightarrow> stamp \<Rightarrow> stamp \<Rightarrow> audit_log \<Rightarrow> audit_log" where
  "guest_started name t1 t2 j =
     audit_issued GUEST (name @ lit '' (VM)'') 0 t2 (audit_released GUEST 0 0 t1 j)"

definition guest_ended :: "stamp \<Rightarrow> audit_log \<Rightarrow> audit_log" where
  "guest_ended t j = audit_released GUEST 0 0 t j"

text \<open>The readers: \<open>since\<close>, \<open>touched_since\<close>, \<open>total_count\<close> and \<open>holders\<close>.\<close>

definition audit_since :: "u64 option \<Rightarrow> rstr \<Rightarrow> nat \<Rightarrow> audit_log \<Rightarrow> entry list" where
  "audit_since after_seq holder max_n j =
     rev (take max_n
       (filter (\<lambda>e. holder = [] \<or> e_holder e = holder)
         (filter (\<lambda>e. case after_seq of None \<Rightarrow> True | Some s \<Rightarrow> seq e > s)
           (rev (entries j)))))"

definition touched_since :: "nat \<Rightarrow> audit_log \<Rightarrow> entry list" where
  "touched_since since_ms j = filter (\<lambda>e. last_up_ms e \<ge> since_ms) (entries j)"

definition total_count :: "audit_log \<Rightarrow> u64" where
  "total_count j = next_seq j"

definition audit_holders :: "audit_log \<Rightarrow> (u32 \<times> rstr \<times> capid) list" where
  "audit_holders j = map (\<lambda>h. (h_inst h, h_name h, h_cap h)) (holders j)"

section \<open>The journal's invariant\<close>

text \<open>The sequence numbers are the last ones given out, one after the other as \<open>u64\<close> counts.\<close>

definition last_numbers :: "u64 \<Rightarrow> nat \<Rightarrow> u64 list" where
  "last_numbers next n = map (\<lambda>k. next - of_nat k) (rev [1..<Suc n])"

definition audit_inv :: "audit_log \<Rightarrow> bool" where
  "audit_inv j \<longleftrightarrow>
     length (entries j) \<le> MAX_ENTRIES \<and>
     map seq (entries j) = last_numbers (next_seq j) (length (entries j)) \<and>
     (\<forall>e \<in> set (entries j). e_count e \<noteq> 0)"

lemma last_numbers_0 [simp]: "last_numbers x 0 = []"
  by (simp add: last_numbers_def)

lemma length_last_numbers [simp]: "length (last_numbers x n) = n"
  by (simp add: last_numbers_def)

lemma last_numbers_next: "last_numbers (x + 1) (Suc n) = last_numbers x n @ [x]"
  by (induction n) (simp_all add: last_numbers_def)

lemma tl_last_numbers: "tl (last_numbers x n) = last_numbers x (n - 1)"
  by (cases n) (simp_all add: last_numbers_def)

lemma distinct_last_numbers: "n \<le> MAX_ENTRIES \<Longrightarrow> distinct (last_numbers x n)"
proof -
  assume n: "n \<le> MAX_ENTRIES"
  have "inj_on (\<lambda>k. x - of_nat k) {1..<Suc n}"
  proof (rule inj_onI)
    fix a b assume ab: "a \<in> {1..<Suc n}" "b \<in> {1..<Suc n}" and eq: "x - of_nat a = x - of_nat b"
    from eq have "unat (of_nat a :: u64) = unat (of_nat b :: u64)" by simp
    then show "a = b" using ab n by (simp add: unat_of_nat MAX_ENTRIES_def)
  qed
  then show ?thesis by (simp add: last_numbers_def distinct_map del: upt_Suc)
qed

text \<open>Unless the counter passed its end among them, they increase.\<close>

lemma sorted_last_numbers: "n \<le> unat x \<Longrightarrow> sorted_wrt (<) (last_numbers x n)"
proof -
  assume n: "n \<le> unat x"
  have less: "x - of_nat a < x - of_nat b" if "b < a" "a \<le> n" for a b
  proof -
    have "of_nat a \<le> x" "of_nat b \<le> x" using that n by (simp_all add: word_le_nat_alt unat_of_nat le_trans [OF mod_less_eq_dividend])
    moreover have "unat (of_nat a :: u64) = a" "unat (of_nat b :: u64) = b"
      using that n unsigned_less [of x, where ?'a = nat] by (simp_all add: unat_of_nat)
    ultimately show ?thesis using that n by (simp add: word_less_nat_alt unat_sub)
  qed
  have "sorted_wrt (\<lambda>a b. b < a) (rev [1..<Suc n])"
    unfolding sorted_wrt_rev by (simp del: upt_Suc)
  then show ?thesis
    unfolding last_numbers_def sorted_wrt_map by (rule sorted_wrt_mono_rel [rotated]) (auto intro: less)
qed

lemma audit_inv_new: "audit_inv journal_new"
  by (simp add: audit_inv_def journal_new_def)

lemma sat_inc_nonzero [simp]: "sat_inc c \<noteq> 0"
  by (auto simp: sat_inc_def eq_neg_iff_add_eq_0)

lemma audit_inv_push:
  assumes inv: "audit_inv j" and e: "e_count e \<noteq> 0"
  shows "audit_inv (journal_push e j)"
proof -
  define old where "old = (if length (entries j) \<ge> MAX_ENTRIES then tl (entries j) else entries j)"
  have "length old < MAX_ENTRIES" using inv by (auto simp: old_def audit_inv_def MAX_ENTRIES_def)
  moreover have "map seq old = last_numbers (next_seq j) (length old)"
    using inv by (simp add: old_def audit_inv_def map_tl tl_last_numbers)
  moreover have "set old \<subseteq> set (entries j)" by (cases "entries j") (auto simp: old_def)
  ultimately show ?thesis
    using inv e by (auto simp: journal_push_def audit_inv_def Let_def last_numbers_next simp flip: old_def)
qed

lemma map_seq_fold: "map seq (update_first p (fold_repeat t) es) = map seq es"
  by (rule map_update_first) (simp add: fold_repeat_def)

lemma update_first_counts:
  "\<forall>e \<in> set es. e_count e \<noteq> 0 \<Longrightarrow> \<forall>e \<in> set (update_first p (fold_repeat t) es). e_count e \<noteq> 0"
  by (induction es) (auto simp: fold_repeat_def)

lemma audit_inv_note: 
  assumes inv: "audit_inv j"
  shows "audit_inv (journal_note cap k r ob t j)"
proof -
  obtain i h where ih: "journal_holder j cap = (i, h)" by fastforce
  let ?same = "same_event i k r h (cut ob MAX_OBJECT)"
  let ?start = "length (entries j) - FOLD_WINDOW"
  let ?es = "take ?start (entries j) @ rev (update_first ?same (fold_repeat t) (rev (drop ?start (entries j))))"
  have "map seq ?es = map seq (entries j)"
    by (simp add: rev_map [symmetric] map_seq_fold) (simp add: rev_map flip: map_append)
  moreover have "length ?es = length (entries j)" by simp
  moreover have "\<forall>e \<in> set ?es. e_count e \<noteq> 0"
    using inv update_first_counts [of "rev (drop ?start (entries j))" ?same t]
    by (auto simp: audit_inv_def dest: in_set_takeD in_set_dropD)
  ultimately have "audit_inv (j\<lparr>entries := ?es\<rparr>)"
    using inv by (simp add: audit_inv_def)
  moreover have "audit_inv (journal_push (new_entry t i h k r (cut ob MAX_OBJECT) 0 0) j)"
    by (rule audit_inv_push [OF inv]) (simp add: new_entry_def)
  ultimately show ?thesis
    by (simp add: journal_note_def ih Let_def)
qed

lemma new_entry_count [simp]: "e_count (new_entry t i h k r ob ch dn) = 1"
  by (simp add: new_entry_def)

lemma audit_inv_holders [simp]: "audit_inv (j\<lparr>holders := hs\<rparr>) = audit_inv j"
  by (simp add: audit_inv_def)

lemma audit_inv_next_inst [simp]: "audit_inv (j\<lparr>next_inst := n\<rparr>) = audit_inv j"
  by (simp add: audit_inv_def)

lemma audit_inv_issued: "audit_inv j \<Longrightarrow> audit_inv (audit_issued cap name r t j)"
  by (simp add: audit_issued_def Let_def audit_inv_push)

lemma audit_inv_released: "audit_inv j \<Longrightarrow> audit_inv (audit_released cap checks used t j)"
  by (simp add: audit_released_def Let_def audit_inv_push split: option.splits)

lemma audit_inv_denied: "audit_inv j \<Longrightarrow> audit_inv (audit_denied cap r call why t j)"
  by (simp add: audit_denied_def Let_def audit_inv_note)

lemma audit_inv_record: "audit_inv j \<Longrightarrow> audit_inv (audit_record cap k ob t j)"
  by (simp add: audit_record_def audit_inv_note)

lemma audit_inv_guest: "audit_inv j \<Longrightarrow> audit_inv (guest_started name t1 t2 j)" "audit_inv j \<Longrightarrow> audit_inv (guest_ended t j)"
  by (simp_all add: guest_started_def guest_ended_def audit_inv_issued audit_inv_released)

lemma audit_inv_granted: "audit_inv j \<Longrightarrow> audit_inv (audit_granted cap path r t j)"
  by (simp add: audit_granted_def audit_inv_note)

section \<open>No event is lost\<close>

text \<open>The newest entry that matches absorbs the event, or a new last entry carries it.\<close>

definition noted :: "u32 \<Rightarrow> kind \<Rightarrow> rights \<Rightarrow> rstr \<Rightarrow> rstr \<Rightarrow> nat \<Rightarrow> audit_log \<Rightarrow> bool" where
  "noted i k r h ob ms j \<longleftrightarrow>
     (\<exists>e \<in> set (drop (length (entries j) - FOLD_WINDOW) (entries j)).
        same_event i k r h ob e \<and> last_up_ms e = ms)"

lemma update_first_hit:
  "list_ex p xs \<Longrightarrow> \<exists>x \<in> set xs. p x \<and> f x \<in> set (update_first p f xs)"
  by (induction xs) auto

lemma same_event_fold [simp]: "same_event i k r h ob (fold_repeat t e) = same_event i k r h ob e"
  by (simp add: same_event_def fold_repeat_def)

lemma noted_push:
  assumes "same_event i k r h ob e" and "last_up_ms e = ms"
  shows "noted i k r h ob ms (journal_push e j)"
proof -
  let ?e = "e\<lparr>seq := next_seq j\<rparr>"
  have "same_event i k r h ob ?e" and "last_up_ms ?e = ms"
    using assms by (simp_all add: same_event_def)
  then show ?thesis
    by (auto simp: noted_def journal_push_def Let_def FOLD_WINDOW_def)
qed

lemma noted_note:
  assumes "journal_holder j cap = (i, h)"
  shows "noted i k r h (cut ob MAX_OBJECT) (st_up_ms t) (journal_note cap k r ob t j)"
proof -
  let ?same = "same_event i k r h (cut ob MAX_OBJECT)"
  let ?recent = "drop (length (entries j) - FOLD_WINDOW) (entries j)"
  show ?thesis
  proof (cases "list_ex ?same ?recent")
    case True
    then have "list_ex ?same (rev ?recent)" by (simp add: list_ex_iff)
    from update_first_hit [OF this, of "fold_repeat t"]
    obtain x where x: "?same x" "fold_repeat t x \<in> set (update_first ?same (fold_repeat t) (rev ?recent))"
      by auto
    have "last_up_ms (fold_repeat t x) = st_up_ms t" by (simp add: fold_repeat_def)
    with x True assms show ?thesis
      by (auto simp: noted_def journal_note_def Let_def intro!: bexI [of _ "fold_repeat t x"])
  next
    case False
    have "same_event i k r h (cut ob MAX_OBJECT) (new_entry t i h k r (cut ob MAX_OBJECT) 0 0)"
      and "last_up_ms (new_entry t i h k r (cut ob MAX_OBJECT) 0 0) = st_up_ms t"
      by (simp_all add: same_event_def new_entry_def)
    with False assms show ?thesis
      by (simp add: journal_note_def noted_push)
  qed
qed

lemma find_update_first:
  "(\<And>x. p x \<Longrightarrow> p (f x)) \<Longrightarrow> find p (update_first p f xs) = map_option f (find p xs)"
  by (induction xs) auto

lemma journal_holder_denied [simp]:
  "journal_holder (j\<lparr>holders := update_first (\<lambda>h. h_cap h = cap)
     (\<lambda>h. h\<lparr>h_denied := sat_inc (h_denied h)\<rparr>) (holders j)\<rparr>) cap = journal_holder j cap"
  by (auto simp: journal_holder_def find_update_first split: option.splits)

lemma noted_denied:
  assumes "journal_holder j cap = (i, h)"
  shows "noted i Denied r h (cut (denial_text call why) MAX_OBJECT) (st_up_ms t)
    (audit_denied cap r call why t j)"
  using assms by (simp add: audit_denied_def Let_def noted_note)

section \<open>Readers\<close>

lemma distinct_seq: "audit_inv j \<Longrightarrow> distinct (map seq (entries j))"
  by (simp add: audit_inv_def distinct_last_numbers)

lemma seq_nth:
  assumes "audit_inv j" and "i < length (entries j)"
  shows "seq (entries j ! i) + of_nat (length (entries j) - i) = next_seq j"
proof -
  let ?n = "length (entries j)"
  have "seq (entries j ! i) = map seq (entries j) ! i" using assms(2) by simp
  also have "\<dots> = last_numbers (next_seq j) ?n ! i" using assms(1) by (simp add: audit_inv_def)
  also have "\<dots> = next_seq j - of_nat (?n - i)"
    using assms(2) by (simp add: last_numbers_def rev_nth del: upt_Suc)
  finally show ?thesis by simp
qed

lemma sorted_seq: "audit_inv j \<Longrightarrow> length (entries j) \<le> unat (next_seq j) \<Longrightarrow> sorted_wrt (<) (map seq (entries j))"
  by (simp add: audit_inv_def sorted_last_numbers)

lemma audit_since_rev_filter:
  "audit_since a h n j = (let es = filter (\<lambda>e. (h = [] \<or> e_holder e = h) \<and>
      (case a of None \<Rightarrow> True | Some s \<Rightarrow> seq e > s)) (entries j) in drop (length es - n) es)"
  by (simp add: audit_since_def Let_def rev_filter [symmetric] rev_take conj_commute filter_filter)

lemma sorted_wrt_drop: "sorted_wrt P xs \<Longrightarrow> sorted_wrt P (drop n xs)"
  by (metis append_take_drop_id sorted_wrt_append)

lemma audit_since_sorted:
  "audit_inv j \<Longrightarrow> length (entries j) \<le> unat (next_seq j) \<Longrightarrow> sorted_wrt (<) (map seq (audit_since a h n j))"
  unfolding audit_since_rev_filter Let_def
  by (simp add: sorted_wrt_map sorted_wrt_drop sorted_wrt_filter sorted_seq [simplified sorted_wrt_map])

section \<open>Cutting at a character boundary\<close>

lemma cut_end_le: "cut_end s n \<le> n"
  by (induction n) auto

lemma cut_end_boundary: "is_char_boundary s (cut_end s n)"
  by (induction n) (auto simp: is_char_boundary_def)

lemma cut_end_max: "m \<le> n \<Longrightarrow> is_char_boundary s m \<Longrightarrow> m \<le> cut_end s n"
  by (induction n) (auto simp: le_Suc_eq)

section \<open>The journal as a sink\<close>

text \<open>
  What the capability vault relies on: every journal call keeps the journal's invariant. The
  client's lemma covers the release of any number of tokens in one sweep.
\<close>

locale audit_sink =
  fixes inv :: "'j \<Rightarrow> bool"
    and issued :: "capid \<Rightarrow> rstr \<Rightarrow> rights \<Rightarrow> stamp \<Rightarrow> 'j \<Rightarrow> 'j"
    and released :: "capid \<Rightarrow> u64 \<Rightarrow> rights \<Rightarrow> stamp \<Rightarrow> 'j \<Rightarrow> 'j"
    and denied :: "capid \<Rightarrow> rights \<Rightarrow> rstr \<Rightarrow> rstr \<Rightarrow> stamp \<Rightarrow> 'j \<Rightarrow> 'j"
    and recorded :: "capid \<Rightarrow> kind \<Rightarrow> rstr \<Rightarrow> stamp \<Rightarrow> 'j \<Rightarrow> 'j"
    and granted :: "capid \<Rightarrow> rstr \<Rightarrow> rights \<Rightarrow> stamp \<Rightarrow> 'j \<Rightarrow> 'j"
  assumes issued_inv: "inv j \<Longrightarrow> inv (issued cap name r t j)"
    and released_inv: "inv j \<Longrightarrow> inv (released cap checks used t j)"
    and denied_inv: "inv j \<Longrightarrow> inv (denied cap r call why t j)"
    and recorded_inv: "inv j \<Longrightarrow> inv (recorded cap k ob t j)"
    and granted_inv: "inv j \<Longrightarrow> inv (granted cap path r t j)"
begin

lemma release_all_inv:
  "inv j \<Longrightarrow> inv (fold (\<lambda>(c, n, u). released c n u t) xs j)"
  by (induction xs arbitrary: j) (auto simp: released_inv)

lemmas journal_calls_inv = issued_inv released_inv denied_inv recorded_inv granted_inv

end

interpretation al: audit_sink audit_inv audit_issued audit_released audit_denied audit_record
  audit_granted
  by unfold_locales
    (simp_all add: audit_inv_issued audit_inv_released audit_inv_denied audit_inv_record
      audit_inv_granted)

end
