(* ===== verification/Capability.thy ===== *)
theory Capability
  imports Audit_Journal
begin

text \<open>
  The capability vault (\<open>kernel/src/security/capability.rs\<close>). The record \<open>security\<close> holds what the
  module keeps in statics: the vault's slots and count, the root id, the per-slot counters, the
  per-path grants, and the audit journal with its counter of passed checks. Every operation takes
  the clock readings, journal stamps and random ids it draws as arguments.
\<close>

section \<open>Data\<close>

definition CAP_NULL :: capid where "CAP_NULL = replicate 32 0"
definition MAX_CAPABILITIES :: nat where "MAX_CAPABILITIES = 256"
definition MAX_PATH_GRANTS :: nat where "MAX_PATH_GRANTS = 64"

datatype resource_kind = RKernel | RMemory nat nat | RSerial | RNetwork | RStore | RDisplay
  | RExecute | RPciDevice u8 u8 u8

record capability =
  c_id :: capid
  c_resource :: resource_kind
  c_rights :: rights
  c_parent :: "capid option"
  c_active :: bool
  c_expires_at :: "nat option"

datatype cap_error = NotFound | Revoked | Expired | InsufficientRights | EscalationAttempt
  | VaultFull

record path_grant =
  g_cap :: capid
  g_path :: rstr
  g_rights :: rights
  g_tree :: bool

record security =
  caps :: "capability option list"
  cap_count :: nat
  root_cap :: capid
  slot_checks :: "u64 list"
  slot_used_bits :: "u32 list"
  checks_passed :: u64
  path_grants :: "path_grant list"
  log :: audit_log

text \<open>The statics before \<open>Vault::init\<close>.\<close>

definition security_empty :: security where
  "security_empty =
     \<lparr>caps = replicate MAX_CAPABILITIES None, cap_count = 0, root_cap = CAP_NULL,
      slot_checks = replicate MAX_CAPABILITIES 0, slot_used_bits = replicate MAX_CAPABILITIES 0,
      checks_passed = 0, path_grants = [], log = journal_new\<rparr>"

text \<open>
  The readings of \<open>time::ticks()\<close> one \<open>create\<close> makes: for the parent's expiry, for the expiry of the
  capability in each slot it looks at, and for the new expiry; and its two journal stamps.
\<close>

record readings =
  t_parent :: nat
  t_slot :: "nat \<Rightarrow> nat"
  t_issue :: nat
  s_first :: stamp
  s_second :: stamp

section \<open>Queries\<close>

definition is_expired :: "nat \<Rightarrow> capability \<Rightarrow> bool" where
  "is_expired t c \<longleftrightarrow> (case c_expires_at c of None \<Rightarrow> False | Some e \<Rightarrow> t \<ge> e)"

fun error_reason :: "cap_error \<Rightarrow> rstr" where
  "error_reason NotFound = lit ''no token''"
| "error_reason Revoked = lit ''revoked''"
| "error_reason Expired = lit ''expired''"
| "error_reason InsufficientRights = []"
| "error_reason EscalationAttempt = lit ''escalation''"
| "error_reason VaultFull = lit ''vault full''"

fun error_message :: "cap_error \<Rightarrow> rstr" where
  "error_message NotFound = lit ''capability not found''"
| "error_message Revoked = lit ''capability has been revoked''"
| "error_message Expired = lit ''capability has expired''"
| "error_message InsufficientRights = lit ''insufficient rights''"
| "error_message EscalationAttempt = lit ''privilege escalation denied''"
| "error_message VaultFull = lit ''capability vault full''"

definition has_id :: "capid \<Rightarrow> capability option \<Rightarrow> bool" where
  "has_id i c \<longleftrightarrow> (case c of None \<Rightarrow> False | Some c \<Rightarrow> c_id c = i)"

definition vault_find :: "capability option list \<Rightarrow> capid \<Rightarrow> capability option" where
  "vault_find cs i =
     (case position (has_id i) cs of None \<Rightarrow> None | Some n \<Rightarrow> cs ! n)"

definition slot_used :: "security \<Rightarrow> nat \<Rightarrow> rights" where
  "slot_used s i = from_bits_truncate (slot_used_bits s ! i)"

definition vault_usage_of :: "security \<Rightarrow> capid \<Rightarrow> (rights \<times> rights \<times> u64) option" where
  "vault_usage_of s i =
     (case position (has_id i) (caps s) of
        None \<Rightarrow> None
      | Some n \<Rightarrow> (case caps s ! n of
            None \<Rightarrow> None
          | Some c \<Rightarrow> Some (c_rights c, slot_used s n, slot_checks s ! n)))"

definition vault_stats :: "(nat \<Rightarrow> nat) \<Rightarrow> security \<Rightarrow> nat \<times> nat" where
  "vault_stats t s =
     (length (filter (\<lambda>(i, c). case c of None \<Rightarrow> False | Some c \<Rightarrow> c_active c \<and> \<not> is_expired (t i) c)
        (enumerate 0 (caps s))), MAX_CAPABILITIES)"

text \<open>\<open>short_id\<close> reads the first four bytes big-endian; \<open>hex8\<close> is the format \<open>{:08x}\<close>.\<close>

definition short_id :: "capid \<Rightarrow> u32" where
  "short_id i = of_nat (from_le (rev (take 4 i)))"

definition hex_digit :: "nat \<Rightarrow> u8" where
  "hex_digit d = of_nat (if d < 10 then 48 + d else 87 + d)"

definition hex8 :: "u32 \<Rightarrow> rstr" where
  "hex8 w = map (\<lambda>i. hex_digit (unat w div 16 ^ i mod 16)) (rev [0..<8])"

section \<open>Issuing\<close>

definition refuse :: "capid \<Rightarrow> rights \<Rightarrow> rstr \<Rightarrow> stamp \<Rightarrow> cap_error \<Rightarrow> security \<Rightarrow>
    (cap_error + capid) \<times> security" where
  "refuse parent_id r holder t e s =
     (Inl e, s\<lparr>log := audit_denied parent_id r (lit ''issue '' @ holder) (error_reason e) t (log s)\<rparr>)"

definition reusable :: "capid \<Rightarrow> nat \<Rightarrow> capability option \<Rightarrow> bool" where
  "reusable root t c \<longleftrightarrow>
     (case c of None \<Rightarrow> False | Some c \<Rightarrow> c_id c \<noteq> root \<and> (\<not> c_active c \<or> is_expired t c))"

definition free_slot :: "capid \<Rightarrow> (nat \<Rightarrow> nat) \<Rightarrow> capability option list \<Rightarrow> nat option" where
  "free_slot root t cs =
     (case position (\<lambda>c. c = None) cs of
        Some n \<Rightarrow> Some n
      | None \<Rightarrow> position (\<lambda>(i, c). reusable root (t i) c) (enumerate 0 cs))"

definition child_expiry :: "nat \<Rightarrow> nat option \<Rightarrow> nat option \<Rightarrow> nat option" where
  "child_expiry now ttl parent_exp =
     (case (map_option (\<lambda>ttl. (now + ttl) mod 2 ^ 64) ttl, parent_exp) of
        (Some child, Some p) \<Rightarrow> Some (min child p)
      | (None, Some p) \<Rightarrow> Some p
      | (e, None) \<Rightarrow> e)"

definition vault_create ::
  "capid \<Rightarrow> resource_kind \<Rightarrow> rights \<Rightarrow> nat option \<Rightarrow> rstr \<Rightarrow> capid \<Rightarrow> readings \<Rightarrow> security \<Rightarrow>
     (cap_error + capid) \<times> security" where
  "vault_create parent_id resource r ttl holder next_id rd s =
     (case vault_find (caps s) parent_id of
        None \<Rightarrow> (Inl NotFound, s)
      | Some parent \<Rightarrow>
          if \<not> c_active parent then refuse parent_id r holder (s_first rd) Revoked s
          else if is_expired (t_parent rd) parent then refuse parent_id r holder (s_first rd) Expired s
          else if \<not> contains (c_rights parent) DELEGATE
            then refuse parent_id r holder (s_first rd) InsufficientRights s
          else if \<not> contains (c_rights parent) r
            then refuse parent_id r holder (s_first rd) EscalationAttempt s
          else (case free_slot (root_cap s) (t_slot rd) (caps s) of
              None \<Rightarrow> refuse parent_id r holder (s_first rd) VaultFull s
            | Some slot \<Rightarrow>
                let log1 = (case caps s ! slot of
                      None \<Rightarrow> log s
                    | Some old \<Rightarrow> audit_released (c_id old) (slot_checks s ! slot) (slot_used s slot)
                                    (s_first rd) (log s));
                    cap = \<lparr>c_id = next_id, c_resource = resource, c_rights = r,
                           c_parent = Some parent_id, c_active = True,
                           c_expires_at = child_expiry (t_issue rd) ttl (c_expires_at parent)\<rparr>
                in (Inr next_id,
                    s\<lparr>caps := (caps s)[slot := Some cap],
                      cap_count := cap_count s + 1,
                      slot_checks := (slot_checks s)[slot := 0],
                      slot_used_bits := (slot_used_bits s)[slot := 0],
                      log := audit_issued next_id holder r (s_second rd) log1\<rparr>)))"

definition vault_init :: "capid \<Rightarrow> stamp \<Rightarrow> security \<Rightarrow> security" where
  "vault_init root_id t s =
     s\<lparr>caps := (caps s)[0 := Some \<lparr>c_id = root_id, c_resource = RKernel, c_rights = RIGHTS_ALL,
          c_parent = None, c_active = True, c_expires_at = None\<rparr>],
       cap_count := 1,
       root_cap := root_id,
       log := audit_issued root_id (lit ''system'') RIGHTS_ALL t (log s)\<rparr>"

section \<open>Revoking and releasing\<close>

definition deact :: "(capability \<Rightarrow> bool) \<Rightarrow> capability \<Rightarrow> capability" where
  "deact p c = (if p c then c\<lparr>c_active := False\<rparr> else c)"

definition deactivate :: "(capability \<Rightarrow> bool) \<Rightarrow> capability option list \<Rightarrow> capability option list" where
  "deactivate p cs = map (map_option (deact p)) cs"

definition revoked_ids :: "capability option list \<Rightarrow> capid list" where
  "revoked_ids cs = map c_id (filter (\<lambda>c. \<not> c_active c) (List.map_filter id cs))"

definition orphaned :: "capability option list \<Rightarrow> capability \<Rightarrow> bool" where
  "orphaned cs c \<longleftrightarrow>
     c_active c \<and> (case c_parent c of None \<Rightarrow> False | Some p \<Rightarrow> p \<in> set (revoked_ids cs))"

definition pass_changes :: "capability option list \<Rightarrow> bool" where
  "pass_changes cs \<longleftrightarrow> list_ex (orphaned cs) (List.map_filter id cs)"

text \<open>The number of active capabilities: what each pass of the loop reduces.\<close>

definition active_count :: "capability option list \<Rightarrow> nat" where
  "active_count cs = length (filter c_active (List.map_filter id cs))"

lemma deact_sel [simp]:
  "c_id (deact p c) = c_id c" "c_parent (deact p c) = c_parent c"
  "c_rights (deact p c) = c_rights c" "c_expires_at (deact p c) = c_expires_at c"
  "c_resource (deact p c) = c_resource c"
  "c_active (deact p c) \<longleftrightarrow> c_active c \<and> \<not> p c"
  by (auto simp: deact_def)

lemma map_filter_id_deactivate:
  "List.map_filter id (deactivate p cs) = map (deact p) (List.map_filter id cs)"
  by (induction cs) (auto simp: deactivate_def List.map_filter_simps split: option.splits)

lemma active_count_deactivate_less:
  assumes "c \<in> set (List.map_filter id cs)" and "p c" and "c_active c"
  shows "active_count (deactivate p cs) < active_count cs"
proof -
  let ?xs = "List.map_filter id cs"
  have "filter c_active (map (deact p) xs) = filter (\<lambda>c. \<not> p c) (filter c_active xs)" for xs
    by (induction xs) (auto simp: deact_def)
  moreover have "length (filter (\<lambda>c. \<not> p c) (filter c_active ?xs)) < length (filter c_active ?xs)"
    using assms by (intro length_filter_less [of c]) auto
  ultimately show ?thesis by (simp add: active_count_def map_filter_id_deactivate)
qed

lemma active_count_pass:
  "pass_changes cs \<Longrightarrow> active_count (deactivate (orphaned cs) cs) < active_count cs"
  by (auto simp: pass_changes_def list_ex_iff orphaned_def intro: active_count_deactivate_less)

function revoke_loop :: "capability option list \<Rightarrow> capability option list" where
  "revoke_loop cs =
     (if pass_changes cs then revoke_loop (deactivate (orphaned cs) cs) else cs)"
  by pat_completeness auto
termination
  by (relation "measure active_count") (auto simp: active_count_pass)

declare revoke_loop.simps [simp del]

definition revoke_recursive :: "capid \<Rightarrow> capability option list \<Rightarrow> capability option list" where
  "revoke_recursive target_id cs = revoke_loop (deactivate (\<lambda>c. c_id c = target_id) cs)"

definition vault_revoke :: "capid \<Rightarrow> capid \<Rightarrow> stamp \<Rightarrow> security \<Rightarrow> (cap_error + unit) \<times> security" where
  "vault_revoke revoker_id target_id t s =
     (case vault_find (caps s) revoker_id of
        None \<Rightarrow> (Inl NotFound, s)
      | Some revoker \<Rightarrow>
          if \<not> contains (c_rights revoker) REVOKE
          then (Inl InsufficientRights,
                s\<lparr>log := audit_denied revoker_id REVOKE (lit ''revoke'') [] t (log s)\<rparr>)
          else (Inr (),
                s\<lparr>caps := revoke_recursive target_id (caps s),
                  log := audit_record revoker_id Revoke (hex8 (short_id target_id)) t (log s)\<rparr>))"

definition release_slot :: "(nat \<Rightarrow> stamp) \<Rightarrow> nat \<Rightarrow> security \<Rightarrow> security" where
  "release_slot t i s =
     (case caps s ! i of
        None \<Rightarrow> s
      | Some c \<Rightarrow>
          if c_active c then s
          else s\<lparr>log := audit_released (c_id c) (slot_checks s ! i) (slot_used s i) (t i) (log s),
                 caps := (caps s)[i := None],
                 cap_count := cap_count s - 1\<rparr>)"

definition vault_release :: "capid \<Rightarrow> (nat \<Rightarrow> stamp) \<Rightarrow> security \<Rightarrow> security" where
  "vault_release i t s =
     fold (release_slot t) [0..<length (caps s)] (s\<lparr>caps := revoke_recursive i (caps s)\<rparr>)"

section \<open>Checking\<close>

definition vault_check ::
  "capid \<Rightarrow> rights \<Rightarrow> nat \<Rightarrow> security \<Rightarrow> (cap_error + capability) \<times> security" where
  "vault_check i required now s =
     (case position (has_id i) (caps s) of
        None \<Rightarrow> (Inl NotFound, s)
      | Some slot \<Rightarrow>
          (case caps s ! slot of
             None \<Rightarrow> (Inl NotFound, s)
           | Some cap \<Rightarrow>
               if \<not> c_active cap then (Inl Revoked, s)
               else if is_expired now cap then (Inl Expired, s)
               else if \<not> contains (c_rights cap) required then (Inl InsufficientRights, s)
               else (Inr cap,
                     s\<lparr>checks_passed := checks_passed s + 1,
                       slot_checks := (slot_checks s)[slot := slot_checks s ! slot + 1],
                       slot_used_bits :=
                         (slot_used_bits s)[slot := slot_used_bits s ! slot OR required]\<rparr>)))"

definition check_global :: "capid \<Rightarrow> rights \<Rightarrow> nat \<Rightarrow> security \<Rightarrow> (cap_error + unit) \<times> security" where
  "check_global i required now s =
     (case vault_check i required now s of
        (Inl e, s') \<Rightarrow> (Inl e, s')
      | (Inr _, s') \<Rightarrow> (Inr (), s'))"

definition require :: "capid \<Rightarrow> rights \<Rightarrow> rstr \<Rightarrow> nat \<Rightarrow> stamp \<Rightarrow> security \<Rightarrow> bool \<times> security" where
  "require i required call now t s =
     (case check_global i required now s of
        (Inr _, s') \<Rightarrow> (True, s')
      | (Inl e, s') \<Rightarrow>
          (False, s'\<lparr>log := audit_denied i required call (error_reason e) t (log s')\<rparr>))"

definition holds :: "capid \<Rightarrow> rights \<Rightarrow> nat \<Rightarrow> security \<Rightarrow> bool \<times> security" where
  "holds i required now s =
     (case check_global i required now s of
        (Inr _, s') \<Rightarrow> (True, s')
      | (Inl _, s') \<Rightarrow> (False, s'))"

definition create_module_cap ::
  "rstr \<Rightarrow> rights \<Rightarrow> nat option \<Rightarrow> capid \<Rightarrow> readings \<Rightarrow> security \<Rightarrow> (cap_error + capid) \<times> security" where
  "create_module_cap name r ttl next_id rd s =
     vault_create (root_cap s) RExecute r ttl name next_id rd s"

definition release_module_cap :: "capid \<Rightarrow> (nat \<Rightarrow> stamp) \<Rightarrow> security \<Rightarrow> security" where
  "release_module_cap i t s = (if i = root_cap s then s else vault_release i t s)"

definition create_driver_cap ::
  "rstr \<Rightarrow> u8 \<Rightarrow> u8 \<Rightarrow> u8 \<Rightarrow> rights \<Rightarrow> nat option \<Rightarrow> capid \<Rightarrow> readings \<Rightarrow> security \<Rightarrow>
     (cap_error + capid) \<times> security" where
  "create_driver_cap name bus device function r ttl next_id rd s =
     vault_create (root_cap s) (RPciDevice bus device function) r ttl name next_id rd s"

definition check_pci_device ::
  "capid \<Rightarrow> rights \<Rightarrow> u8 \<Rightarrow> u8 \<Rightarrow> u8 \<Rightarrow> nat \<Rightarrow> security \<Rightarrow> (cap_error + unit) \<times> security" where
  "check_pci_device i required bus device function now s =
     (case vault_check i required now s of
        (Inl e, s') \<Rightarrow> (Inl e, s')
      | (Inr cap, s') \<Rightarrow>
          (case c_resource cap of
             RPciDevice b d f \<Rightarrow>
               if b = bus \<and> d = device \<and> f = function then (Inr (), s')
               else (Inl InsufficientRights, s')
           | RKernel \<Rightarrow> (Inr (), s')
           | _ \<Rightarrow> (Inl InsufficientRights, s')))"

section \<open>Per-path grants\<close>

text \<open>\<open>str::split\<close> on one separator byte: always at least one segment.\<close>

fun split_on :: "u8 \<Rightarrow> rstr \<Rightarrow> rstr list" where
  "split_on sep [] = [[]]"
| "split_on sep (c # cs) =
     (if c = sep then [] # split_on sep cs
      else (case split_on sep cs of [] \<Rightarrow> [[c]] | s # ss \<Rightarrow> (c # s) # ss))"

definition SLASH :: u8 where "SLASH = 0x2F"

definition plain_segment :: "rstr \<Rightarrow> bool" where
  "plain_segment seg \<longleftrightarrow> seg \<noteq> [] \<and> seg \<noteq> lit ''.'' \<and> seg \<noteq> lit ''..''"

definition canonical :: "rstr \<Rightarrow> bool" where
  "canonical path \<longleftrightarrow> path \<noteq> [] \<and> list_all plain_segment (split_on SLASH path)"

definition PRIVATE_ROOT :: rstr where "PRIVATE_ROOT = lit ''priv''"
definition EXT_ROOT :: rstr where "EXT_ROOT = lit ''ext''"

definition same_grant :: "capid \<Rightarrow> rstr \<Rightarrow> bool \<Rightarrow> path_grant \<Rightarrow> bool" where
  "same_grant i path tree e \<longleftrightarrow> g_cap e = i \<and> g_path e = path \<and> g_tree e = tree"

definition push_grant :: "capid \<Rightarrow> rstr \<Rightarrow> rights \<Rightarrow> bool \<Rightarrow> path_grant list \<Rightarrow> path_grant list" where
  "push_grant i path r tree g =
     (if list_ex (same_grant i path tree) g
      then update_first (same_grant i path tree) (\<lambda>e. e\<lparr>g_rights := g_rights e OR r\<rparr>) g
      else
        let g = (if length (filter (\<lambda>e. g_cap e = i) g) \<ge> MAX_PATH_GRANTS
                 then (case position (\<lambda>e. g_cap e = i) g of
                         None \<Rightarrow> g
                       | Some n \<Rightarrow> take n g @ drop (Suc n) g)
                 else g)
        in g @ [\<lparr>g_cap = i, g_path = path, g_rights = r, g_tree = tree\<rparr>])"

definition grant_path :: "capid \<Rightarrow> rstr \<Rightarrow> rights \<Rightarrow> stamp \<Rightarrow> security \<Rightarrow> security" where
  "grant_path i path r t s =
     s\<lparr>path_grants := push_grant i path r False (path_grants s),
       log := audit_granted i path r t (log s)\<rparr>"

definition grant_tree :: "capid \<Rightarrow> rstr \<Rightarrow> rights \<Rightarrow> stamp \<Rightarrow> security \<Rightarrow> bool \<times> security" where
  "grant_tree i dir r t s =
     (if \<not> canonical dir then (False, s)
      else
        let top = (case split_on SLASH dir of [] \<Rightarrow> [] | seg # _ \<Rightarrow> seg) in
        if top = lit ''sys'' \<or> top = lit ''.system'' \<or> top = PRIVATE_ROOT then (False, s)
        else if dir = EXT_ROOT then (False, s)
        else (True, s\<lparr>path_grants := push_grant i dir r True (path_grants s),
                     log := audit_granted i (dir @ lit ''/'') r t (log s)\<rparr>))"

definition grant_covers :: "capid \<Rightarrow> rstr \<Rightarrow> rights \<Rightarrow> path_grant \<Rightarrow> bool" where
  "grant_covers i path r e \<longleftrightarrow>
     g_cap e = i \<and> contains (g_rights e) r \<and>
     (g_path e = path \<or>
      g_tree e \<and> canonical path \<and> length path > length (g_path e) \<and>
      take (length (g_path e)) path = g_path e \<and> path ! length (g_path e) = SLASH)"

definition check_path_grant :: "capid \<Rightarrow> rstr \<Rightarrow> rights \<Rightarrow> security \<Rightarrow> bool" where
  "check_path_grant i path r s \<longleftrightarrow> list_ex (grant_covers i path r) (path_grants s)"

definition revoke_path_grants :: "capid \<Rightarrow> security \<Rightarrow> security" where
  "revoke_path_grants i s = s\<lparr>path_grants := filter (\<lambda>e. g_cap e \<noteq> i) (path_grants s)\<rparr>"

section \<open>Revocation\<close>

lemma set_map_filter_id [simp]: "set (List.map_filter id cs) = {c. Some c \<in> set cs}"
  by (induction cs) (auto simp: List.map_filter_simps split: option.splits)

lemma in_deactivate: "Some d \<in> set (deactivate p cs) \<longleftrightarrow> (\<exists>c. Some c \<in> set cs \<and> d = deact p c)"
proof -
  have "Some d = map_option (deact p) x \<longleftrightarrow> (\<exists>c. x = Some c \<and> d = deact p c)" for x
    by (cases x) auto
  then show ?thesis by (auto simp: deactivate_def image_iff)
qed

lemma length_deactivate [simp]: "length (deactivate p cs) = length cs"
  by (simp add: deactivate_def)

lemma deact_inactive [simp]: "\<not> c_active c \<Longrightarrow> deact p c = c"
  by (simp add: deact_def)

lemma deact_not [simp]: "\<not> p c \<Longrightarrow> deact p c = c"
  by (simp add: deact_def)

lemma deactivate_cong:
  "(\<And>c. Some c \<in> set cs \<Longrightarrow> deact p c = deact q c) \<Longrightarrow> deactivate p cs = deactivate q cs"
  by (auto simp: deactivate_def intro: option.map_cong)

lemma deactivate_id: 
  assumes "\<And>c. Some c \<in> set cs \<Longrightarrow> p c \<Longrightarrow> \<not> c_active c"
  shows "deactivate p cs = cs"
proof -
  have "map_option (deact p) x = x" if "x \<in> set cs" for x
  proof (cases x)
    case None
    then show ?thesis by simp
  next
    case (Some c)
    with that assms [of c] show ?thesis by (auto simp: deact_def)
  qed
  then show ?thesis by (simp add: deactivate_def map_idI)
qed

lemma deactivate_deactivate:
  "deactivate q (deactivate p cs) = deactivate (\<lambda>c. p c \<or> q (deact p c)) cs"
  by (auto simp: deactivate_def option.map_comp deact_def intro!: option.map_cong)

text \<open>
  What revocation has to reach: a capability that is inactive, or whose parent in the vault it
  reaches.
\<close>

inductive doomed :: "capability option list \<Rightarrow> capability \<Rightarrow> bool" for cs where
  inactive: "\<not> c_active c \<Longrightarrow> doomed cs c"
| child: "c_parent c = Some (c_id q) \<Longrightarrow> Some q \<in> set cs \<Longrightarrow> doomed cs q \<Longrightarrow> doomed cs c"

lemma orphaned_iff:
  "orphaned cs c \<longleftrightarrow> c_active c \<and> (\<exists>q. Some q \<in> set cs \<and> \<not> c_active q \<and> c_parent c = Some (c_id q))"
  by (auto simp: orphaned_def revoked_ids_def split: option.splits)

lemma doomed_pass:
  assumes "Some c \<in> set cs"
  shows "doomed (deactivate (orphaned cs) cs) (deact (orphaned cs) c) = doomed cs c"
proof
  assume "doomed cs c"
  then show "doomed (deactivate (orphaned cs) cs) (deact (orphaned cs) c)"
  proof induction
    case (inactive c)
    then show ?case by (intro doomed.inactive) auto
  next
    case (child c q)
    show ?case
      by (rule doomed.child [where q = "deact (orphaned cs) q"])
        (use child in \<open>auto simp: in_deactivate\<close>)
  qed
next
  let ?f = "deact (orphaned cs)"
  have "doomed (deactivate (orphaned cs) cs) d \<Longrightarrow> d = ?f c \<Longrightarrow> Some c \<in> set cs \<Longrightarrow> doomed cs c" for c d
  proof (induction arbitrary: c rule: doomed.induct)
    case (inactive d)
    then show ?case
      by (auto simp: orphaned_iff split: if_splits intro: doomed.intros)
  next
    case (child d q)
    from child.hyps(2) obtain q0 where "Some q0 \<in> set cs" and "q = ?f q0"
      by (auto simp: in_deactivate)
    moreover from this child.IH have "doomed cs q0" by auto
    moreover from child.hyps(1) child.prems(1) \<open>q = ?f q0\<close> have "c_parent c = Some (c_id q0)"
      by (auto split: if_splits)
    ultimately show ?case by (auto intro: doomed.child)
  qed
  then show "doomed (deactivate (orphaned cs) cs) (?f c) \<Longrightarrow> doomed cs c"
    using assms by blast
qed

lemma revoke_loop_eq: "revoke_loop cs = deactivate (doomed cs) cs"
proof (induction cs rule: revoke_loop.induct)
  case (1 cs)
  show ?case
  proof (cases "pass_changes cs")
    case True
    let ?cs = "deactivate (orphaned cs) cs"
    have "revoke_loop cs = deactivate (doomed ?cs) ?cs"
      using True "1" by (simp add: revoke_loop.simps [of cs])
    also have "\<dots> = deactivate (\<lambda>c. orphaned cs c \<or> doomed cs c) cs"
      unfolding deactivate_deactivate by (rule deactivate_cong) (simp add: deact_def doomed_pass [unfolded deact_def])
    also have "\<dots> = deactivate (doomed cs) cs"
      by (rule deactivate_cong) (auto simp: deact_def orphaned_iff intro: doomed.intros)
    finally show ?thesis .
  next
    case False
    have "doomed cs c \<Longrightarrow> Some c \<in> set cs \<Longrightarrow> \<not> c_active c" for c
    proof (induction rule: doomed.induct)
      case (inactive c)
      then show ?case by simp
    next
      case (child c q)
      then show ?case using False by (auto simp: pass_changes_def list_ex_iff orphaned_iff)
    qed
    then have "deactivate (doomed cs) cs = cs" by (intro deactivate_id) auto
    with False show ?thesis by (simp add: revoke_loop.simps [of cs])
  qed
qed

text \<open>\<open>descends cs t c\<close>: \<open>c\<close> is the capability \<open>t\<close> or delegated from it through capabilities in the vault.\<close>

inductive descends :: "capability option list \<Rightarrow> capid \<Rightarrow> capability \<Rightarrow> bool" for cs t where
  self: "c_id c = t \<Longrightarrow> descends cs t c"
| delegated: "c_parent c = Some (c_id q) \<Longrightarrow> Some q \<in> set cs \<Longrightarrow> descends cs t q \<Longrightarrow> descends cs t c"

definition settled :: "capability option list \<Rightarrow> bool" where
  "settled cs \<longleftrightarrow> (\<forall>c q. Some c \<in> set cs \<longrightarrow> Some q \<in> set cs \<longrightarrow> c_active c \<longrightarrow>
      c_parent c = Some (c_id q) \<longrightarrow> c_active q)"

lemma settledD:
  "settled cs \<Longrightarrow> Some c \<in> set cs \<Longrightarrow> Some q \<in> set cs \<Longrightarrow> c_active c \<Longrightarrow>
     c_parent c = Some (c_id q) \<Longrightarrow> c_active q"
  unfolding settled_def by blast

lemma descends_doomed:
  "descends cs t c \<Longrightarrow> doomed (deactivate (\<lambda>c. c_id c = t) cs) (deact (\<lambda>c. c_id c = t) c)"
proof (induction rule: descends.induct)
  case (self c)
  then show ?case by (auto intro: doomed.inactive)
next
  case (delegated c q)
  show ?case
    by (rule doomed.child [where q = "deact (\<lambda>c. c_id c = t) q"])
      (use delegated in \<open>auto simp: in_deactivate\<close>)
qed

lemma doomed_descends:
  assumes "settled cs"
  shows "doomed (deactivate (\<lambda>c. c_id c = t) cs) d \<Longrightarrow> d = deact (\<lambda>c. c_id c = t) c \<Longrightarrow>
    Some c \<in> set cs \<Longrightarrow> c_active c \<Longrightarrow> descends cs t c"
proof (induction arbitrary: c rule: doomed.induct)
  case (inactive d)
  then show ?case by (auto intro: descends.self)
next
  case (child d q)
  from child.hyps(2) obtain q0 where q0: "Some q0 \<in> set cs" "q = deact (\<lambda>c. c_id c = t) q0"
    by (auto simp: in_deactivate)
  with child.hyps(1) child.prems have par: "c_parent c = Some (c_id q0)" by simp
  with assms child.prems q0 have "c_active q0" by (auto dest: settledD)
  with child.IH q0 have "descends cs t q0" by blast
  with par q0 show ?case by (auto intro: descends.delegated)
qed

lemma revoke_recursive_eq:
  assumes "settled cs"
  shows "revoke_recursive t cs = deactivate (descends cs t) cs"
proof -
  let ?p = "\<lambda>c. c_id c = t"
  have "revoke_recursive t cs = deactivate (\<lambda>c. ?p c \<or> doomed (deactivate ?p cs) (deact ?p c)) cs"
    by (simp add: revoke_recursive_def revoke_loop_eq deactivate_deactivate)
  also have "\<dots> = deactivate (descends cs t) cs"
  proof (rule deactivate_cong)
    fix c assume c: "Some c \<in> set cs"
    show "deact (\<lambda>c. ?p c \<or> doomed (deactivate ?p cs) (deact ?p c)) c = deact (descends cs t) c"
    proof (cases "c_active c")
      case True
      with c assms have "(?p c \<or> doomed (deactivate ?p cs) (deact ?p c)) = descends cs t c"
        using descends_doomed doomed_descends by (auto intro: descends.self)
      then show ?thesis by (simp add: deact_def)
    qed simp
  qed
  finally show ?thesis .
qed

lemma settled_revoke:
  assumes "settled cs"
  shows "settled (revoke_recursive t cs)"
  unfolding settled_def revoke_recursive_eq [OF assms] in_deactivate
proof (intro allI impI, elim exE conjE)
  fix c' q' c q
  assume c: "Some c \<in> set cs" "c' = deact (descends cs t) c" "c_active c'"
    and q: "Some q \<in> set cs" "q' = deact (descends cs t) q" "c_parent c' = Some (c_id q')"
  then have "c_active q" by (auto intro: settledD [OF assms c(1) q(1)])
  moreover have "\<not> descends cs t q" using c q by (auto dest: descends.delegated)
  ultimately show "c_active q'" using q by simp
qed

section \<open>The vault's invariant\<close>

definition exp_le :: "nat option \<Rightarrow> nat option \<Rightarrow> bool" where
  "exp_le a b \<longleftrightarrow> (case b of None \<Rightarrow> True | Some y \<Rightarrow> (case a of None \<Rightarrow> False | Some x \<Rightarrow> x \<le> y))"

lemma is_expired_mono: "is_expired t c \<Longrightarrow> t \<le> t' \<Longrightarrow> is_expired t' c"
  by (auto simp: is_expired_def split: option.splits)

lemma is_expired_exp_le:
  "is_expired t q \<Longrightarrow> exp_le (c_expires_at c) (c_expires_at q) \<Longrightarrow> is_expired t c"
  by (auto simp: is_expired_def exp_le_def split: option.splits)

lemma child_expiry_le: "exp_le (child_expiry now ttl p) p"
  by (auto simp: child_expiry_def exp_le_def split: option.splits)

definition unique_ids :: "capability option list \<Rightarrow> bool" where
  "unique_ids cs \<longleftrightarrow> (\<forall>c d. Some c \<in> set cs \<longrightarrow> Some d \<in> set cs \<longrightarrow> c_id c = c_id d \<longrightarrow> c = d)"

text \<open>\<open>backer cs c q\<close>: \<open>q\<close> is in the vault and grants all of what \<open>c\<close> holds, for at least as long.\<close>

definition backer :: "capability option list \<Rightarrow> capability \<Rightarrow> capability \<Rightarrow> bool" where
  "backer cs c q \<longleftrightarrow> Some q \<in> set cs \<and> c_parent c = Some (c_id q) \<and> c_active q \<and>
     contains (c_rights q) (c_rights c) \<and> exp_le (c_expires_at c) (c_expires_at q)"

definition backed :: "nat \<Rightarrow> capability option list \<Rightarrow> bool" where
  "backed T cs \<longleftrightarrow> (\<forall>c. Some c \<in> set cs \<longrightarrow> c_active c \<longrightarrow> c_parent c \<noteq> None \<longrightarrow>
     is_expired T c \<or> (\<exists>q. backer cs c q))"

definition vault_inv :: "nat \<Rightarrow> security \<Rightarrow> bool" where
  "vault_inv T s \<longleftrightarrow> length (caps s) = MAX_CAPABILITIES \<and>
     length (slot_checks s) = MAX_CAPABILITIES \<and> length (slot_used_bits s) = MAX_CAPABILITIES \<and>
     unique_ids (caps s) \<and> settled (caps s) \<and> backed T (caps s) \<and> audit_inv (log s)"

lemma backed_mono: "backed T cs \<Longrightarrow> T \<le> T' \<Longrightarrow> backed T' cs"
  unfolding backed_def by (meson is_expired_mono)

lemma vault_inv_mono: "vault_inv T s \<Longrightarrow> T \<le> T' \<Longrightarrow> vault_inv T' s"
  by (auto simp: vault_inv_def intro: backed_mono)

lemma has_id_iff: "has_id i x \<longleftrightarrow> (\<exists>c. x = Some c \<and> c_id c = i)"
  by (auto simp: has_id_def split: option.splits)

lemma vault_find_SomeD: "vault_find cs i = Some c \<Longrightarrow> Some c \<in> set cs \<and> c_id c = i"
  by (auto simp: vault_find_def has_id_iff in_set_conv_nth split: option.splits
      dest!: position_SomeD intro!: exI)

lemma vault_find_unique: 
  "unique_ids cs \<Longrightarrow> Some c \<in> set cs \<Longrightarrow> vault_find cs (c_id c) = Some c"
proof -
  assume u: "unique_ids cs" and c: "Some c \<in> set cs"
  from c have "position (has_id (c_id c)) cs \<noteq> None"
    by (auto simp: position_None_iff has_id_iff)
  then obtain n where n: "position (has_id (c_id c)) cs = Some n" by auto
  then have "n < length cs" and "has_id (c_id c) (cs ! n)" by (auto dest: position_SomeD)
  then obtain d where d: "cs ! n = Some d" "c_id d = c_id c" "Some d \<in> set cs"
    by (metis has_id_iff nth_mem)
  with u c have "d = c" unfolding unique_ids_def by blast
  with n d show ?thesis by (simp add: vault_find_def)
qed

lemma in_update_iff:
  "n < length cs \<Longrightarrow> Some c \<in> set (cs[n := Some d]) \<longleftrightarrow>
     c = d \<or> (\<exists>j < length cs. j \<noteq> n \<and> cs ! j = Some c)"
  by (auto simp: in_set_conv_nth nth_list_update)

section \<open>Every operation keeps the invariant\<close>

lemma backer_update:
  assumes q: "backer cs c q" and n: "n < length cs"
    and gone: "cs ! n = Some q \<Longrightarrow> is_expired T q"
  shows "is_expired T c \<or> backer (cs[n := Some d]) c q"
proof -
  from q obtain j where j: "j < length cs" "cs ! j = Some q"
    by (auto simp: backer_def in_set_conv_nth)
  show ?thesis
  proof (cases "j = n")
    case True
    with gone j q have "is_expired T c" by (auto simp: backer_def intro: is_expired_exp_le)
    then show ?thesis ..
  next
    case False
    with j n have "Some q \<in> set (cs[n := Some d])" by (auto simp: in_update_iff)
    with q show ?thesis by (simp add: backer_def)
  qed
qed

lemma free_slot_SomeD:
  assumes "free_slot root t cs = Some n"
  shows "n < length cs \<and> (cs ! n = None \<or> reusable root (t n) (cs ! n))"
proof (cases "position (\<lambda>c. c = None) cs")
  case None
  with assms have "position (\<lambda>(i, c). reusable root (t i) c) (enumerate 0 cs) = Some n"
    by (simp add: free_slot_def)
  then show ?thesis by (auto dest!: position_SomeD simp: nth_enumerate_eq)
next
  case (Some m)
  with assms show ?thesis by (auto simp: free_slot_def dest!: position_SomeD)
qed

lemma caps_after_issue:
  assumes u: "unique_ids cs" and st: "settled cs" and b: "backed T cs"
    and par: "vault_find cs (c_id p) = Some p" "c_active p"
    and d: "c_parent d = Some (c_id p)" "c_active d" "contains (c_rights p) (c_rights d)"
      "exp_le (c_expires_at d) (c_expires_at p)"
    and n: "n < length cs" and fresh: "\<forall>c. Some c \<in> set cs \<longrightarrow> c_id c \<noteq> c_id d"
    and gone: "\<And>q. cs ! n = Some q \<Longrightarrow> c_active q \<Longrightarrow> is_expired T q"
  shows "unique_ids (cs[n := Some d]) \<and> settled (cs[n := Some d]) \<and> backed T (cs[n := Some d])"
proof (intro conjI)
  have old: "c = d \<or> Some c \<in> set cs" if "Some c \<in> set (cs[n := Some d])" for c
    using that by (metis insertE option.inject set_update_subset_insert subsetD)
  have p: "Some p \<in> set cs" using par vault_find_SomeD by blast
  show "unique_ids (cs[n := Some d])"
    unfolding unique_ids_def using old fresh u [unfolded unique_ids_def] by metis
  show "settled (cs[n := Some d])"
    unfolding settled_def
  proof (intro allI impI)
    fix c q assume a: "Some c \<in> set (cs[n := Some d])" "Some q \<in> set (cs[n := Some d])"
      "c_active c" "c_parent c = Some (c_id q)"
    show "c_active q"
    proof (cases "q = d")
      case False
      with old a have q: "Some q \<in> set cs" by blast
      show ?thesis
      proof (cases "c = d")
        case True
        with a d have "c_id q = c_id p" by simp
        with q p u have "q = p" unfolding unique_ids_def by blast
        with par show ?thesis by simp
      next
        case False
        with old a q st show ?thesis by (blast intro: settledD)
      qed
    qed (use d in simp)
  qed
  show "backed T (cs[n := Some d])"
    unfolding backed_def
  proof (intro allI impI)
    fix c assume a: "Some c \<in> set (cs[n := Some d])" "c_active c" "c_parent c \<noteq> None"
    have "is_expired T c \<or> (\<exists>q. backer cs c q)"
    proof (cases "c = d")
      case True
      with d p par have "backer cs c p" by (simp add: backer_def)
      then show ?thesis by blast
    next
      case False
      with old a b show ?thesis unfolding backed_def by blast
    qed
    then show "is_expired T c \<or> (\<exists>q. backer (cs[n := Some d]) c q)"
    proof
      assume "\<exists>q. backer cs c q"
      then obtain q where q: "backer cs c q" by blast
      then have "cs ! n = Some q \<Longrightarrow> is_expired T q" using gone by (auto simp: backer_def)
      with q n show ?thesis using backer_update by blast
    qed simp
  qed
qed

lemma vault_inv_log: "vault_inv T s \<Longrightarrow> audit_inv l \<Longrightarrow> vault_inv T (s\<lparr>log := l\<rparr>)"
  by (simp add: vault_inv_def)

lemma vault_inv_logD: "vault_inv T s \<Longrightarrow> audit_inv (log s)"
  by (simp add: vault_inv_def)

lemma vault_inv_refuse: "vault_inv T s \<Longrightarrow> vault_inv T (snd (refuse p r h t e s))"
  by (simp add: refuse_def vault_inv_def al.denied_inv)

lemma vault_inv_create:
  assumes inv: "vault_inv T s" and T: "T \<le> T'" and rd: "\<forall>i. t_slot rd i \<le> T'"
    and fresh: "\<forall>c. Some c \<in> set (caps s) \<longrightarrow> c_id c \<noteq> nid"
  shows "vault_inv T' (snd (vault_create pid res r ttl holder nid rd s))"
proof -
  have inv': "vault_inv T' s" by (rule vault_inv_mono [OF inv T])
  note ref = vault_inv_refuse [OF inv']
  show ?thesis
  proof (cases "vault_find (caps s) pid")
    case None
    with inv' show ?thesis by (simp add: vault_create_def)
  next
    case (Some p)
    show ?thesis
    proof (cases "c_active p \<and> \<not> is_expired (t_parent rd) p \<and> contains (c_rights p) DELEGATE \<and>
        contains (c_rights p) r")
      case False
      with Some ref show ?thesis by (auto simp: vault_create_def)
    next
      case ok: True
      show ?thesis
      proof (cases "free_slot (root_cap s) (t_slot rd) (caps s)")
        case None
        with Some ok ref show ?thesis by (simp add: vault_create_def)
      next
        case slot: (Some n)
        let ?d = "\<lparr>c_id = nid, c_resource = res, c_rights = r, c_parent = Some pid, c_active = True,
          c_expires_at = child_expiry (t_issue rd) ttl (c_expires_at p)\<rparr>"
        from slot have n: "n < length (caps s)" by (auto dest: free_slot_SomeD)
        have gone: "is_expired T' q" if "caps s ! n = Some q" "c_active q" for q
          using free_slot_SomeD [OF slot] that rd
          by (auto simp: reusable_def intro: is_expired_mono)
        have pid: "c_id p = pid" using vault_find_SomeD [OF Some] by simp
        have "unique_ids ((caps s)[n := Some ?d]) \<and> settled ((caps s)[n := Some ?d]) \<and>
            backed T' ((caps s)[n := Some ?d])"
          by (rule caps_after_issue [of "caps s" T' p])
            (use inv' Some ok n fresh gone pid in \<open>auto simp: vault_inv_def child_expiry_le\<close>)
        with Some ok slot inv' show ?thesis
          by (auto simp: vault_create_def Let_def vault_inv_def al.journal_calls_inv
              split: option.splits)
      qed
    qed
  qed
qed

lemma unique_ids_deactivate: "unique_ids cs \<Longrightarrow> unique_ids (deactivate p cs)"
  unfolding unique_ids_def in_deactivate by (metis deact_sel(1))

lemma backed_revoke:
  assumes st: "settled cs" and b: "backed T cs"
  shows "backed T (revoke_recursive t cs)"
  unfolding backed_def revoke_recursive_eq [OF st] in_deactivate
proof (intro allI impI, elim exE conjE)
  fix c' c assume c: "Some c \<in> set cs" "c' = deact (descends cs t) c" "c_active c'" "c_parent c' \<noteq> None"
  then have act: "c_active c" "\<not> descends cs t c" by auto
  then have c': "c' = c" using c by simp
  from c act b have "is_expired T c \<or> (\<exists>q. backer cs c q)" unfolding backed_def by auto
  then show "is_expired T c' \<or> (\<exists>q. backer (deactivate (descends cs t) cs) c' q)"
  proof
    assume "\<exists>q. backer cs c q"
    then obtain q where q: "backer cs c q" by blast
    then have "\<not> descends cs t q" using act by (auto simp: backer_def intro: descends.delegated)
    then have "deact (descends cs t) q = q" by simp
    then have "Some q \<in> set (deactivate (descends cs t) cs)"
      using q unfolding in_deactivate backer_def by metis
    with q c' show ?thesis by (auto simp: backer_def)
  qed (simp add: c')
qed

lemma length_revoke_recursive [simp]: "length (revoke_recursive t cs) = length cs"
  by (simp add: revoke_recursive_def revoke_loop_eq)

lemma unique_ids_revoke: "unique_ids cs \<Longrightarrow> unique_ids (revoke_recursive t cs)"
  by (simp add: revoke_recursive_def revoke_loop_eq unique_ids_deactivate)

lemma vault_inv_revoke_caps:
  "vault_inv T s \<Longrightarrow> vault_inv T (s\<lparr>caps := revoke_recursive t (caps s)\<rparr>)"
  by (simp add: vault_inv_def settled_revoke backed_revoke unique_ids_revoke)

lemma vault_inv_revoke: "vault_inv T s \<Longrightarrow> vault_inv T (snd (vault_revoke rv tg t s))"
  using vault_inv_revoke_caps [of T s tg]
  by (auto simp: vault_revoke_def vault_inv_def al.journal_calls_inv split: option.splits)

lemma vault_inv_check: "vault_inv T s \<Longrightarrow> vault_inv T (snd (vault_check i r now s))"
  by (auto simp: vault_check_def vault_inv_def split: option.splits)


text \<open>The sweep of \<open>release\<close> empties exactly the slots of inactive capabilities.\<close>

definition inactive_slot :: "capability option \<Rightarrow> bool" where
  "inactive_slot x \<longleftrightarrow> (case x of None \<Rightarrow> False | Some c \<Rightarrow> \<not> c_active c)"

lemma release_slot_caps:
  "caps (release_slot t i s) = (if inactive_slot (caps s ! i) then (caps s)[i := None] else caps s)"
  by (auto simp: release_slot_def inactive_slot_def split: option.splits)

lemma release_slot_frame [simp]:
  "slot_checks (release_slot t i s) = slot_checks s"
  "slot_used_bits (release_slot t i s) = slot_used_bits s"
  "root_cap (release_slot t i s) = root_cap s"
  "path_grants (release_slot t i s) = path_grants s"
  "checks_passed (release_slot t i s) = checks_passed s"
  "audit_inv (log s) \<Longrightarrow> audit_inv (log (release_slot t i s))"
  by (auto simp: release_slot_def al.released_inv split: option.splits)

lemma release_sweep:
  assumes "n \<le> length (caps s)"
  shows "length (caps (fold (release_slot t) [0..<n] s)) = length (caps s) \<and>
    (\<forall>i < length (caps s). caps (fold (release_slot t) [0..<n] s) ! i =
       (if i < n \<and> inactive_slot (caps s ! i) then None else caps s ! i))"
  using assms
proof (induction n)
  case (Suc n)
  then show ?case by (auto simp: release_slot_caps nth_list_update less_Suc_eq)
qed simp

lemma release_sweep_frame:
  "slot_checks (fold (release_slot t) is s) = slot_checks s \<and>
   slot_used_bits (fold (release_slot t) is s) = slot_used_bits s \<and>
   root_cap (fold (release_slot t) is s) = root_cap s \<and>
   path_grants (fold (release_slot t) is s) = path_grants s \<and>
   (audit_inv (log s) \<longrightarrow> audit_inv (log (fold (release_slot t) is s)))"
  by (induction "is" arbitrary: s) auto

definition drop_inactive :: "capability option list \<Rightarrow> capability option list" where
  "drop_inactive cs = map (\<lambda>x. if inactive_slot x then None else x) cs"

lemma vault_release_caps:
  "caps (vault_release i t s) = drop_inactive (revoke_recursive i (caps s))"
  unfolding vault_release_def drop_inactive_def
  by (rule nth_equalityI)
    (use release_sweep [of "length (caps s)" "s\<lparr>caps := revoke_recursive i (caps s)\<rparr>" t] in auto)

lemma in_drop_inactive: "Some c \<in> set (drop_inactive cs) \<longleftrightarrow> Some c \<in> set cs \<and> c_active c"
  by (auto simp: drop_inactive_def inactive_slot_def image_iff split: option.splits)

lemma unique_ids_drop: "unique_ids cs \<Longrightarrow> unique_ids (drop_inactive cs)"
  unfolding unique_ids_def in_drop_inactive by blast

lemma settled_drop: "settled (drop_inactive cs)"
  unfolding settled_def in_drop_inactive by blast

lemma backed_drop: "backed T cs \<Longrightarrow> backed T (drop_inactive cs)"
  unfolding backed_def backer_def in_drop_inactive by blast

lemma length_drop_inactive [simp]: "length (drop_inactive cs) = length cs"
  by (simp add: drop_inactive_def)

lemma vault_inv_release:
  assumes "vault_inv T s"
  shows "vault_inv T (vault_release i t s)"
proof -
  let ?s = "s\<lparr>caps := revoke_recursive i (caps s)\<rparr>"
  have "vault_inv T ?s" by (rule vault_inv_revoke_caps [OF assms])
  moreover from this have "audit_inv (log ?s)" unfolding vault_inv_def by blast
  ultimately show ?thesis
    using release_sweep_frame [of t "[0..<length (caps s)]" ?s]
    by (simp add: vault_inv_def vault_release_caps unique_ids_drop settled_drop backed_drop)
      (simp add: vault_release_def)
qed

section \<open>Runs of the security module\<close>

text \<open>
  A configuration is the latest clock reading made and the module's state. Each step is one call;
  the readings it makes lie between the clock before and after it, and a new id is not the id of
  a capability in the vault. The last four are the entries other parts of the kernel ask the journal
  for: an act of a capability, a refusal outside the vault, and the start and end of a guest.
\<close>

inductive sec_step :: "nat \<times> security \<Rightarrow> nat \<times> security \<Rightarrow> bool" where
  tick: "T \<le> T' \<Longrightarrow> sec_step (T, s) (T', s)"
| create: "T \<le> T' \<Longrightarrow> \<forall>i. t_slot rd i \<le> T' \<Longrightarrow>
     \<forall>c. Some c \<in> set (caps s) \<longrightarrow> c_id c \<noteq> nid \<Longrightarrow>
     sec_step (T, s) (T', snd (vault_create pid res r ttl holder nid rd s))"
| revoke: "sec_step (T, s) (T, snd (vault_revoke rv tg t s))"
| release: "sec_step (T, s) (T, release_module_cap i ts s)"
| check: "sec_step (T, s) (T, snd (vault_check i r now s))"
| gate: "sec_step (T, s) (T, snd (require i r call now t s))"
| grant_file: "sec_step (T, s) (T, grant_path i path r t s)"
| grant_folder: "sec_step (T, s) (T, snd (grant_tree i dir r t s))"
| ungrant: "sec_step (T, s) (T, revoke_path_grants i s)"
| note_act: "sec_step (T, s) (T, s\<lparr>log := audit_record i k ob t (log s)\<rparr>)"
| note_denial: "sec_step (T, s) (T, s\<lparr>log := audit_denied i r call why t (log s)\<rparr>)"
| guest_in: "sec_step (T, s) (T, s\<lparr>log := guest_started name t t' (log s)\<rparr>)"
| guest_out: "sec_step (T, s) (T, s\<lparr>log := guest_ended t (log s)\<rparr>)"

inductive sec_reachable :: "nat \<times> security \<Rightarrow> bool" where
  boot: "sec_reachable (T, vault_init root_id t security_empty)"
| step: "sec_reachable x \<Longrightarrow> sec_step x y \<Longrightarrow> sec_reachable y"

inductive_cases sec_stepE: "sec_step x y"

lemma in_boot_caps:
  "Some c \<in> set (caps (vault_init i t security_empty)) \<longleftrightarrow>
     c = \<lparr>c_id = i, c_resource = RKernel, c_rights = RIGHTS_ALL, c_parent = None, c_active = True,
          c_expires_at = None\<rparr>"
  by (auto simp: vault_init_def security_empty_def MAX_CAPABILITIES_def set_update_distinct
      in_set_conv_nth nth_list_update)

lemma vault_inv_boot: "vault_inv T (vault_init i t security_empty)"
  unfolding vault_inv_def unique_ids_def settled_def backed_def in_boot_caps
  by (auto simp: vault_init_def security_empty_def al.issued_inv audit_inv_new)

lemma check_global_snd: "snd (check_global i r now s) = snd (vault_check i r now s)"
  by (auto simp: check_global_def split: prod.splits sum.splits)

lemma vault_inv_require: "vault_inv T s \<Longrightarrow> vault_inv T (snd (require i r call now t s))"
  using vault_inv_check [of T s i r now] check_global_snd [of i r now s]
  by (auto simp: require_def vault_inv_def al.denied_inv split: prod.splits sum.splits)

lemma vault_inv_step: "sec_step x y \<Longrightarrow> vault_inv (fst x) (snd x) \<Longrightarrow> vault_inv (fst y) (snd y)"
proof (induction rule: sec_step.induct)
  case (tick T T' s)
  then show ?case by (auto intro: vault_inv_mono)
next
  case (create T T' rd s nid pid res r ttl holder)
  then show ?case using vault_inv_create [of T s T' rd nid] by simp
next
  case (release T s i ts)
  then show ?case by (simp add: release_module_cap_def vault_inv_release)
next
  case (grant_file T s i path r t)
  then show ?case by (simp add: grant_path_def vault_inv_def al.granted_inv)
next
  case (grant_folder T s i dir r t)
  then show ?case by (simp add: grant_tree_def vault_inv_def al.granted_inv Let_def)
next
  case (ungrant T s i)
  then show ?case by (simp add: revoke_path_grants_def vault_inv_def)
qed (simp_all add: vault_inv_revoke vault_inv_check vault_inv_require vault_inv_log vault_inv_logD al.journal_calls_inv
    audit_inv_guest)

lemma vault_inv_reachable: "sec_reachable x \<Longrightarrow> vault_inv (fst x) (snd x)"
proof (induction rule: sec_reachable.induct)
  case (boot T i t)
  then show ?case by (simp add: vault_inv_boot)
next
  case (step x y)
  then show ?case by (blast intro: vault_inv_step)
qed

section \<open>What a passed check means\<close>

definition grants :: "capability option list \<Rightarrow> nat \<Rightarrow> capid \<Rightarrow> rights \<Rightarrow> bool" where
  "grants cs now i r \<longleftrightarrow>
     (\<exists>c. Some c \<in> set cs \<and> c_id c = i \<and> c_active c \<and> \<not> is_expired now c \<and> contains (c_rights c) r)"

lemma vault_check_find:
  "fst (vault_check i r now s) =
     (case vault_find (caps s) i of
        None \<Rightarrow> Inl NotFound
      | Some c \<Rightarrow> if \<not> c_active c then Inl Revoked else if is_expired now c then Inl Expired
          else if \<not> contains (c_rights c) r then Inl InsufficientRights else Inr c)"
  by (auto simp: vault_check_def vault_find_def split: option.splits)

lemma holds_check: "fst (holds i r now s) \<longleftrightarrow> (\<exists>c. fst (vault_check i r now s) = Inr c)"
  by (auto simp: holds_def check_global_def split: prod.splits sum.splits)

lemma holds_iff_grants:
  assumes "unique_ids (caps s)"
  shows "fst (holds i r now s) \<longleftrightarrow> grants (caps s) now i r"
proof (cases "vault_find (caps s) i")
  case None
  then have "\<forall>c. Some c \<in> set (caps s) \<longrightarrow> c_id c \<noteq> i"
    using vault_find_unique [OF assms] by fastforce
  with None show ?thesis by (auto simp: holds_check vault_check_find grants_def)
next
  case (Some c)
  then have c: "Some c \<in> set (caps s)" "c_id c = i" using vault_find_SomeD by auto
  then have "grants (caps s) now i r \<longleftrightarrow> c_active c \<and> \<not> is_expired now c \<and> contains (c_rights c) r"
    using assms unfolding unique_ids_def grants_def by metis
  with Some show ?thesis by (simp add: holds_check vault_check_find)
qed

lemma grants_parent:
  assumes "backed T cs" and "T \<le> now" and "Some c \<in> set cs" and "c_active c" and "\<not> is_expired now c"
    and "contains (c_rights c) r" and "c_parent c = Some p"
  shows "\<exists>q. backer cs c q \<and> c_id q = p \<and> \<not> is_expired now q \<and> contains (c_rights q) r"
proof -
  have "\<not> is_expired T c" using assms is_expired_mono by blast
  with assms obtain q where q: "backer cs c q" unfolding backed_def by blast
  then have "\<not> is_expired now q" using assms is_expired_exp_le unfolding backer_def by blast
  moreover have "contains (c_rights q) r"
    using q assms contains_trans unfolding backer_def by blast
  ultimately show ?thesis using q assms by (auto simp: backer_def)
qed

lemma grants_ancestor:
  assumes "backed T cs" and "T \<le> now" and u: "unique_ids cs"
  shows "descends cs a c \<Longrightarrow> Some c \<in> set cs \<Longrightarrow> c_active c \<Longrightarrow> \<not> is_expired now c \<Longrightarrow>
    contains (c_rights c) r \<Longrightarrow> grants cs now a r"
proof (induction rule: descends.induct)
  case (self c)
  then show ?case by (auto simp: grants_def)
next
  case (delegated c q)
  from grants_parent [OF assms(1,2) delegated.prems delegated.hyps(1)] obtain q'
    where q': "backer cs c q'" "c_id q' = c_id q" "\<not> is_expired now q'" "contains (c_rights q') r"
    by blast
  then have "q' = q" using u delegated.hyps(2) unfolding unique_ids_def backer_def by blast
  with q' delegated show ?case by (auto simp: backer_def)
qed

lemma grants_deactivate:
  "grants (deactivate p cs) now i r \<longleftrightarrow>
     (\<exists>c. Some c \<in> set cs \<and> c_id c = i \<and> c_active c \<and> \<not> p c \<and> \<not> is_expired now c \<and> contains (c_rights c) r)"
  unfolding grants_def in_deactivate by (force simp: is_expired_def)

lemma grants_drop: "grants (drop_inactive cs) now i r \<longleftrightarrow> grants cs now i r"
  unfolding grants_def in_drop_inactive by blast

section \<open>Path grants\<close>

lemma split_on_nonempty [simp]: "split_on sep s \<noteq> []"
  by (cases s) (auto split: list.splits)

lemma split_on_append:
  "split_on sep (a @ sep # b) = split_on sep a @ split_on sep b"
proof (induction a)
  case Nil
  then show ?case by simp
next
  case (Cons x a)
  then show ?case by (cases "split_on sep a") auto
qed

lemma push_grant_others:
  "filter (\<lambda>e. g_cap e \<noteq> i) (push_grant i path r tree g) = filter (\<lambda>e. g_cap e \<noteq> i) g"
proof -
  have upd: "filter (\<lambda>e. g_cap e \<noteq> i)
      (update_first (same_grant i path tree) (\<lambda>e. e\<lparr>g_rights := g_rights e OR r\<rparr>) g) =
      filter (\<lambda>e. g_cap e \<noteq> i) g"
    by (induction g) (auto simp: same_grant_def)
  have del: "filter (\<lambda>e. g_cap e \<noteq> i) (take n g @ drop (Suc n) g) = filter (\<lambda>e. g_cap e \<noteq> i) g"
    if "position (\<lambda>e. g_cap e = i) g = Some n" for n
  proof -
    from that have "n < length g" "g_cap (g ! n) = i" by (auto dest: position_SomeD)
    then have "filter (\<lambda>e. g_cap e \<noteq> i) g =
        filter (\<lambda>e. g_cap e \<noteq> i) (take n g @ g ! n # drop (Suc n) g)"
      by (metis id_take_nth_drop)
    with \<open>g_cap (g ! n) = i\<close> show ?thesis by simp
  qed
  show ?thesis
    using upd del by (auto simp: push_grant_def Let_def split: option.splits)
qed

definition grants_of :: "capid \<Rightarrow> path_grant list \<Rightarrow> nat" where
  "grants_of i g = length (filter (\<lambda>e. g_cap e = i) g)"

lemma grants_of_update:
  "grants_of j (update_first (same_grant i path tree) (\<lambda>e. e\<lparr>g_rights := g_rights e OR r\<rparr>) g) = grants_of j g"
  by (induction g) (auto simp: grants_of_def)

lemma grants_of_remove:
  assumes "position (\<lambda>e. g_cap e = i) g = Some n"
  shows "grants_of i (take n g @ drop (Suc n) g) = grants_of i g - 1"
proof -
  from assms have n: "n < length g" "g_cap (g ! n) = i" by (auto dest: position_SomeD)
  then have "grants_of i g = grants_of i (take n g @ g ! n # drop (Suc n) g)"
    by (metis id_take_nth_drop)
  with n show ?thesis by (simp add: grants_of_def)
qed

lemma push_grant_bound:
  assumes "grants_of i g \<le> MAX_PATH_GRANTS"
  shows "grants_of i (push_grant i path r tree g) \<le> MAX_PATH_GRANTS"
proof (cases "list_ex (same_grant i path tree) g")
  case True
  with assms show ?thesis by (simp add: push_grant_def grants_of_update)
next
  case new: False
  have add: "grants_of i (h @ [\<lparr>g_cap = i, g_path = path, g_rights = r, g_tree = tree\<rparr>]) = Suc (grants_of i h)"
    for h by (simp add: grants_of_def)
  show ?thesis
  proof (cases "grants_of i g \<ge> MAX_PATH_GRANTS")
    case True
    then have "filter (\<lambda>e. g_cap e = i) g \<noteq> []"
      by (auto simp: grants_of_def MAX_PATH_GRANTS_def)
    then have "position (\<lambda>e. g_cap e = i) g \<noteq> None"
      by (auto simp: position_None_iff filter_empty_conv)
    then obtain n where n: "position (\<lambda>e. g_cap e = i) g = Some n" by auto
    have "push_grant i path r tree g =
        (take n g @ drop (Suc n) g) @ [\<lparr>g_cap = i, g_path = path, g_rights = r, g_tree = tree\<rparr>]"
      using new True n by (simp add: push_grant_def Let_def grants_of_def)
    with n True assms show ?thesis
      by (simp only: add grants_of_remove) (simp add: MAX_PATH_GRANTS_def)
  next
    case False
    have "push_grant i path r tree g = g @ [\<lparr>g_cap = i, g_path = path, g_rights = r, g_tree = tree\<rparr>]"
      using new False by (simp add: push_grant_def Let_def grants_of_def)
    with False show ?thesis by (simp add: add)
  qed
qed

lemma grants_of_other:
  assumes "j \<noteq> i"
  shows "grants_of j (push_grant i path r tree g) = grants_of j g"
proof -
  have eq: "filter (\<lambda>e. g_cap e = j) h = filter (\<lambda>e. g_cap e = j) (filter (\<lambda>e. g_cap e \<noteq> i) h)" for h
    using assms by (simp add: filter_filter) (metis (mono_tags, lifting))
  show ?thesis unfolding grants_of_def
    by (subst (1 2) eq) (simp only: push_grant_others)
qed

text \<open>Folder grants never lie in the namespaces \<open>grant_tree\<close> refuses.\<close>

definition guarded_top :: "rstr \<Rightarrow> bool" where
  "guarded_top seg \<longleftrightarrow> seg = lit ''sys'' \<or> seg = lit ''.system'' \<or> seg = PRIVATE_ROOT"

definition folder_ok :: "path_grant \<Rightarrow> bool" where
  "folder_ok e \<longleftrightarrow> (g_tree e \<longrightarrow> canonical (g_path e) \<and>
     \<not> guarded_top (hd (split_on SLASH (g_path e))) \<and> g_path e \<noteq> EXT_ROOT)"

definition grants_inv :: "path_grant list \<Rightarrow> bool" where
  "grants_inv g \<longleftrightarrow> list_all folder_ok g \<and> (\<forall>i. grants_of i g \<le> MAX_PATH_GRANTS)"

lemma set_push_grant:
  "e \<in> set (push_grant i path r tree g) \<Longrightarrow>
     \<exists>d \<in> insert \<lparr>g_cap = i, g_path = path, g_rights = r, g_tree = tree\<rparr> (set g).
       g_path e = g_path d \<and> g_tree e = g_tree d"
proof -
  have upd: "e \<in> set (update_first p (\<lambda>e. e\<lparr>g_rights := g_rights e OR r\<rparr>) g) \<Longrightarrow>
      \<exists>d \<in> set g. g_path e = g_path d \<and> g_tree e = g_tree d" for p
    by (induction g) (auto split: if_splits)
  assume "e \<in> set (push_grant i path r tree g)"
  then show ?thesis
    using upd [of "same_grant i path tree"]
    by (auto simp: push_grant_def Let_def split: if_splits option.splits
        dest: in_set_takeD in_set_dropD)
qed

lemma grants_inv_push:
  assumes "grants_inv g" and "folder_ok \<lparr>g_cap = i, g_path = path, g_rights = r, g_tree = tree\<rparr>"
  shows "grants_inv (push_grant i path r tree g)"
proof -
  have "folder_ok e" if "e \<in> set (push_grant i path r tree g)" for e
  proof -
    from set_push_grant [OF that] obtain d where
      "d \<in> insert \<lparr>g_cap = i, g_path = path, g_rights = r, g_tree = tree\<rparr> (set g)"
      and "g_path e = g_path d" and "g_tree e = g_tree d" by blast
    moreover from this assms have "folder_ok d" by (auto simp: grants_inv_def list_all_iff)
    ultimately show ?thesis by (simp add: folder_ok_def)
  qed
  moreover have "grants_of j (push_grant i path r tree g) \<le> MAX_PATH_GRANTS" for j
    using assms(1) push_grant_bound [of i g path r tree] grants_of_other [of j i path r tree g]
    unfolding grants_inv_def by metis
  ultimately show ?thesis by (simp add: grants_inv_def list_all_iff)
qed

lemma path_grants_frame [simp]:
  "path_grants (snd (vault_create pid res r ttl holder nid rd s)) = path_grants s"
  "path_grants (snd (vault_revoke rv tg t s)) = path_grants s"
  "path_grants (snd (vault_check i r now s)) = path_grants s"
  by (auto simp: vault_create_def refuse_def vault_revoke_def vault_check_def Let_def
      split: option.splits)

lemma path_grants_require [simp]: "path_grants (snd (require i r call now t s)) = path_grants s"
  using path_grants_frame(3) [of i r now s] check_global_snd [of i r now s]
  by (auto simp: require_def split: prod.splits sum.splits)

lemma path_grants_release [simp]: "path_grants (release_module_cap i ts s) = path_grants s"
  using release_sweep_frame [of ts "[0..<length (caps s)]" "s\<lparr>caps := revoke_recursive i (caps s)\<rparr>"]
  by (simp add: release_module_cap_def vault_release_def)

lemma grants_inv_step: "sec_step x y \<Longrightarrow> grants_inv (path_grants (snd x)) \<Longrightarrow> grants_inv (path_grants (snd y))"
proof (induction rule: sec_step.induct)
  case (grant_file T s i path r t)
  then show ?case by (simp add: grant_path_def grants_inv_push folder_ok_def)
next
  case (grant_folder T s i dir r t)
  then show ?case
    by (auto simp: grant_tree_def Let_def folder_ok_def guarded_top_def grants_inv_push
        split: list.splits)
next
  case (ungrant T s i)
  have "grants_of j (filter (\<lambda>e. g_cap e \<noteq> i) g) \<le> grants_of j g" for j g
    by (induction g) (auto simp: grants_of_def)
  with ungrant show ?case
    by (simp add: revoke_path_grants_def grants_inv_def list_all_iff) (meson le_trans)
qed simp_all

lemma grants_inv_reachable: "sec_reachable x \<Longrightarrow> grants_inv (path_grants (snd x))"
proof (induction rule: sec_reachable.induct)
  case (boot T i t)
  then show ?case by (simp add: vault_init_def security_empty_def grants_inv_def grants_of_def)
next
  case (step x y)
  then show ?case by (blast intro: grants_inv_step)
qed

lemma grant_covers_split:
  assumes "grant_covers i path r e" and "g_path e \<noteq> path"
  shows "g_tree e \<and> (\<exists>rest. path = g_path e @ SLASH # rest \<and>
    split_on SLASH path = split_on SLASH (g_path e) @ split_on SLASH rest \<and>
    list_all plain_segment (split_on SLASH path))"
proof -
  from assms have c: "g_tree e" "canonical path" "length path > length (g_path e)"
    "take (length (g_path e)) path = g_path e" "path ! length (g_path e) = SLASH"
    by (auto simp: grant_covers_def)
  then have eq: "path = g_path e @ SLASH # drop (Suc (length (g_path e))) path"
    by (metis id_take_nth_drop)
  then have "split_on SLASH path = split_on SLASH (g_path e) @
      split_on SLASH (drop (Suc (length (g_path e))) path)"
    using split_on_append [of SLASH "g_path e"] by metis
  with c eq show ?thesis by (auto simp: canonical_def)
qed

end
