(* ===== verification/Security_Properties.thy ===== *)
theory Security_Properties
  imports Capability
begin

text \<open>
  The properties of the capability vault, the per-path grants and the audit journal, stated over the
  operations of \<open>kernel/src/security\<close>, with a witness for each that has hypotheses. The first part
  holds the lemmas and the small concrete vault the witnesses use.
\<close>

section \<open>Shared lemmas\<close>

lemma reachable_unique: "sec_reachable (T, s) \<Longrightarrow> unique_ids (caps s)"
  and reachable_settled: "sec_reachable (T, s) \<Longrightarrow> settled (caps s)"
  and reachable_backed: "sec_reachable (T, s) \<Longrightarrow> backed T (caps s)"
  using vault_inv_reachable [of "(T, s)"] by (simp_all add: vault_inv_def)

lemma in_caps_grants:
  "unique_ids cs \<Longrightarrow> Some c \<in> set cs \<Longrightarrow> grants cs now (c_id c) r \<longleftrightarrow>
     c_active c \<and> \<not> is_expired now c \<and> contains (c_rights c) r"
  unfolding grants_def unique_ids_def by metis

lemma caps_vault_revoke:
  "vault_revoke rv tg t s = (Inr (), s') \<Longrightarrow> caps s' = revoke_recursive tg (caps s)"
  by (auto simp: vault_revoke_def split: option.splits if_splits)

lemma vault_create_InrE:
  assumes "vault_create pid res r ttl holder nid rd s = (Inr i, s')"
  obtains p n where "vault_find (caps s) pid = Some p" and "c_active p"
    and "\<not> is_expired (t_parent rd) p" and "contains (c_rights p) DELEGATE" and "contains (c_rights p) r"
    and "free_slot (root_cap s) (t_slot rd) (caps s) = Some n" and "i = nid"
    and "caps s' = (caps s)[n := Some \<lparr>c_id = nid, c_resource = res, c_rights = r, c_parent = Some pid,
       c_active = True, c_expires_at = child_expiry (t_issue rd) ttl (c_expires_at p)\<rparr>]"
    and "root_cap s' = root_cap s"
  using assms by (auto simp: vault_create_def refuse_def Let_def split: option.splits if_splits)

lemma grants_update_other:
  assumes n: "n < length cs" and "c_id d \<noteq> j"
    and gone: "\<And>c. cs ! n = Some c \<Longrightarrow> c_active c \<Longrightarrow> is_expired now c"
  shows "grants (cs[n := Some d]) now j r \<longleftrightarrow> grants cs now j r"
proof
  assume "grants (cs[n := Some d]) now j r"
  with assms(2) show "grants cs now j r"
    unfolding grants_def in_update_iff [OF n] by (metis nth_mem)
next
  assume "grants cs now j r"
  then obtain c where c: "Some c \<in> set cs" "c_id c = j" "c_active c" "\<not> is_expired now c"
      "contains (c_rights c) r" by (auto simp: grants_def)
  then obtain m where m: "m < length cs" "cs ! m = Some c" by (auto simp: in_set_conv_nth)
  with c gone have "m \<noteq> n" by auto
  with m have "Some c \<in> set (cs[n := Some d])" unfolding in_update_iff [OF n] by blast
  with c show "grants (cs[n := Some d]) now j r" by (auto simp: grants_def)
qed

lemma free_slot_gone:
  assumes "free_slot root t cs = Some n" and "\<forall>i. t i \<le> now" and "cs ! n = Some c" and "c_active c"
  shows "is_expired now c"
  using free_slot_SomeD [OF assms(1)] assms(2-4) by (auto simp: reusable_def intro: is_expired_mono)

lemma require_refused:
  assumes "fst (vault_check i r now s) = Inl e"
  shows "require i r call now t s =
    (False, s\<lparr>log := audit_denied i r call (error_reason e) t (log s)\<rparr>)"
  using assms by (auto simp: require_def check_global_def vault_check_def
      split: option.splits if_splits)

definition root_ok :: "security \<Rightarrow> bool" where
  "root_ok s \<longleftrightarrow> (\<exists>c. Some c \<in> set (caps s) \<and> c_id c = root_cap s \<and> c_active c \<and>
     c_parent c = None \<and> c_expires_at c = None \<and> c_rights c = RIGHTS_ALL)"

lemma root_not_descends:
  "descends cs t c \<Longrightarrow> c_parent c = None \<Longrightarrow> c_id c = t"
  by (induction rule: descends.induct) auto

lemma root_ok_revoke_recursive:
  assumes "settled (caps s)" and "root_ok s" and "t \<noteq> root_cap s"
  shows "\<exists>c. Some c \<in> set (revoke_recursive t (caps s)) \<and> c_id c = root_cap s \<and> c_active c \<and>
     c_parent c = None \<and> c_expires_at c = None \<and> c_rights c = RIGHTS_ALL"
proof -
  from assms(2) obtain c where c: "Some c \<in> set (caps s)" "c_id c = root_cap s" "c_active c"
    "c_parent c = None" "c_expires_at c = None" "c_rights c = RIGHTS_ALL"
    by (auto simp: root_ok_def)
  with assms(3) have "\<not> descends (caps s) t c" using root_not_descends by fastforce
  then have "deact (descends (caps s) t) c = c" by simp
  with c have "Some c \<in> set (revoke_recursive t (caps s))"
    unfolding revoke_recursive_eq [OF assms(1)] in_deactivate by metis
  with c show ?thesis by blast
qed

lemma root_ok_create:
  assumes "root_ok s"
  shows "root_ok (snd (vault_create pid res r ttl holder nid rd s))"
proof (cases "vault_create pid res r ttl holder nid rd s")
  case (Pair x s')
  show ?thesis
  proof (cases x)
    case (Inl e)
    with Pair have "caps s' = caps s" "root_cap s' = root_cap s"
      by (auto simp: vault_create_def refuse_def Let_def split: option.splits if_splits)
    with assms Pair show ?thesis by (simp add: root_ok_def)
  next
    case (Inr i)
    with Pair obtain n d where n: "free_slot (root_cap s) (t_slot rd) (caps s) = Some n"
      and caps': "caps s' = (caps s)[n := Some d]" and root': "root_cap s' = root_cap s"
      by (auto elim: vault_create_InrE)
    from assms obtain c m where c: "m < length (caps s)" "caps s ! m = Some c" "c_id c = root_cap s"
      "c_active c" "c_parent c = None" "c_expires_at c = None" "c_rights c = RIGHTS_ALL"
      by (auto simp: root_ok_def in_set_conv_nth)
    with free_slot_SomeD [OF n] have "m \<noteq> n" by (auto simp: reusable_def)
    with c free_slot_SomeD [OF n] have "Some c \<in> set (caps s')"
      unfolding caps' by (auto simp: in_update_iff)
    with c Pair root' show ?thesis by (auto simp: root_ok_def)
  qed
qed

text \<open>
  Everything that still grants something descends from the root, through ancestors that grant it too; so once
  the root is gone nothing grants anything.
\<close>

definition alive :: "nat \<Rightarrow> capability option list \<Rightarrow> capability \<Rightarrow> bool" where
  "alive T cs c \<longleftrightarrow> Some c \<in> set cs \<and> c_active c \<and> \<not> is_expired T c"

definition rooted :: "nat \<Rightarrow> security \<Rightarrow> bool" where
  "rooted T s \<longleftrightarrow> (root_ok s \<and> (\<forall>c. alive T (caps s) c \<longrightarrow> descends (caps s) (root_cap s) c)) \<or>
     (\<forall>c. \<not> alive T (caps s) c)"

lemma rooted_dead: "rooted T s \<Longrightarrow> \<not> root_ok s \<Longrightarrow> \<not> alive T (caps s) c"
  by (auto simp: rooted_def)

lemma dead_grants_nothing: "(\<And>c. \<not> alive T cs c) \<Longrightarrow> T \<le> now \<Longrightarrow> \<not> grants cs now i r"
  unfolding grants_def alive_def by (meson is_expired_mono)

lemma alive_parent:
  assumes "backed T cs" and "unique_ids cs" and "alive T cs c" and "c_parent c = Some (c_id q)" and "Some q \<in> set cs"
  shows "alive T cs q"
proof -
  from assms obtain q' where q': "backer cs c q'" unfolding backed_def alive_def by (metis option.discI)
  then have "q' = q" using assms unfolding unique_ids_def backer_def by (metis option.inject)
  with q' assms show ?thesis unfolding backer_def alive_def by (metis is_expired_exp_le)
qed

text \<open>A chain of delegations survives a change of the vault that keeps the ancestors that still grant something.\<close>

lemma chain_kept:
  assumes b: "backed T cs" and u: "unique_ids cs"
    and up: "\<And>c q. P c \<Longrightarrow> c_parent c = Some (c_id q) \<Longrightarrow> Some q \<in> set cs \<Longrightarrow> P q"
    and keep: "\<And>q. alive T cs q \<Longrightarrow> P q \<Longrightarrow> Some q \<in> set cs'"
  shows "descends cs a c \<Longrightarrow> alive T cs c \<Longrightarrow> P c \<Longrightarrow> descends cs' a c"
proof (induction rule: descends.induct)
  case (self c)
  then show ?case by (simp add: descends.self)
next
  case (delegated c q)
  have q: "alive T cs q" "P q"
    using alive_parent [OF b u delegated.prems(1) delegated.hyps(1,2)] up delegated by blast+
  with delegated keep show ?case by (blast intro: descends.delegated)
qed

lemma rooted_mono: "rooted T s \<Longrightarrow> T \<le> T' \<Longrightarrow> rooted T' s"
  unfolding rooted_def alive_def by (meson is_expired_mono)

lemma rooted_frame: "rooted T s \<Longrightarrow> caps s' = caps s \<Longrightarrow> root_cap s' = root_cap s \<Longrightarrow> rooted T s'"
  by (simp add: rooted_def root_ok_def)

lemma create_refused_frame:
  "vault_create pid res r ttl holder nid rd s = (Inl e, s') \<Longrightarrow> caps s' = caps s \<and> root_cap s' = root_cap s"
  by (auto simp: vault_create_def refuse_def Let_def split: option.splits if_splits)

lemma rooted_create:
  assumes inv: "vault_inv T s" and rooted: "rooted T s" and T: "T \<le> T'" "\<forall>i. t_slot rd i \<le> T'"
  shows "rooted T' (snd (vault_create pid res r ttl holder nid rd s))"
proof (cases "vault_create pid res r ttl holder nid rd s")
  case (Pair x s')
  note rooted' = rooted_mono [OF rooted T(1)]
  from vault_inv_mono [OF inv T(1)] have b: "backed T' (caps s)" and u: "unique_ids (caps s)" by (simp_all add: vault_inv_def)
  show ?thesis
  proof (cases x)
    case (Inl e)
    with Pair rooted' create_refused_frame show ?thesis by (metis rooted_frame snd_conv)
  next
    case (Inr i)
    with Pair obtain p n where p: "vault_find (caps s) pid = Some p" "c_active p"
      and n: "free_slot (root_cap s) (t_slot rd) (caps s) = Some n"
      and caps': "caps s' = (caps s)[n := Some \<lparr>c_id = nid, c_resource = res, c_rights = r, c_parent = Some pid,
         c_active = True, c_expires_at = child_expiry (t_issue rd) ttl (c_expires_at p)\<rparr>]" (is "_ = _[n := Some ?d]")
      and root': "root_cap s' = root_cap s"
      by (auto elim: vault_create_InrE)
    have pin: "Some p \<in> set (caps s)" "c_id p = pid" using p vault_find_SomeD by blast+
    have nl: "n < length (caps s)" using free_slot_SomeD [OF n] by simp
    have keep: "Some q \<in> set (caps s')" if "alive T' (caps s) q" for q
    proof -
      from that obtain m where m: "m < length (caps s)" "caps s ! m = Some q" by (auto simp: alive_def in_set_conv_nth)
      with that free_slot_SomeD [OF n] T(2) have "m \<noteq> n"
        by (auto simp: alive_def reusable_def intro: is_expired_mono)
      with m nl show ?thesis unfolding caps' by (auto simp: in_update_iff)
    qed
    have old: "c = ?d \<and> alive T' (caps s) p \<or> alive T' (caps s) c" if "alive T' (caps s') c" for c
    proof -
      have "is_expired T' p \<longrightarrow> is_expired T' ?d"
        using is_expired_exp_le [of T' p ?d] child_expiry_le by simp
      with that p pin nth_mem nl show ?thesis
        unfolding alive_def caps' in_update_iff [OF nl] by (metis nth_mem)
    qed
    show ?thesis
    proof (cases "root_ok s \<and> (\<forall>c. alive T' (caps s) c \<longrightarrow> descends (caps s) (root_cap s) c)")
      case True
      have chain: "descends (caps s') (root_cap s) c" if "alive T' (caps s) c" for c
        by (rule chain_kept [OF b u, where P = "\<lambda>_. True"]) (use that True keep in auto)
      have "descends (caps s') (root_cap s) c" if "alive T' (caps s') c" for c
        using old [OF that] chain keep pin descends.delegated [of ?d p "caps s'" "root_cap s"] by auto
      with True root_ok_create [of s pid res r ttl holder nid rd] Pair root' show ?thesis by (simp add: rooted_def)
    next
      case False
      with rooted' have "\<not> alive T' (caps s) c" for c by (auto simp: rooted_def)
      with old Pair show ?thesis by (auto simp: rooted_def)
    qed
  qed
qed

lemma rooted_revoke_recursive:
  assumes inv: "vault_inv T s" and rooted: "rooted T s" and root': "root_cap s' = root_cap s"
    and caps': "\<And>c. alive T (caps s') c \<longleftrightarrow> alive T (revoke_recursive tg (caps s)) c"
    and ok: "tg \<noteq> root_cap s \<Longrightarrow> root_ok s \<Longrightarrow> root_ok s'"
  shows "rooted T s'"
proof -
  from inv have st: "settled (caps s)" and b: "backed T (caps s)" and u: "unique_ids (caps s)"
    by (simp_all add: vault_inv_def)
  have iff: "alive T (caps s') c \<longleftrightarrow> alive T (caps s) c \<and> \<not> descends (caps s) tg c" for c
    unfolding caps' unfolding alive_def revoke_recursive_eq [OF st] in_deactivate
    by (force simp: is_expired_def)
  consider "root_ok s" "\<forall>c. alive T (caps s) c \<longrightarrow> descends (caps s) (root_cap s) c" "tg \<noteq> root_cap s"
    | "\<forall>c. \<not> alive T (caps s') c"
    using rooted iff unfolding rooted_def by blast
  then show ?thesis
  proof cases
    case 1
    have "descends (caps s') (root_cap s) c" if "alive T (caps s') c" for c
    proof (rule chain_kept [OF b u, where P = "\<lambda>c. \<not> descends (caps s) tg c"])
      show "Some q \<in> set (caps s')" if "alive T (caps s) q" "\<not> descends (caps s) tg q" for q
        using that iff [of q] by (simp add: alive_def)
    qed (use that iff 1 in \<open>auto intro: descends.delegated\<close>)
    with 1 ok root' show ?thesis by (simp add: rooted_def)
  qed (simp add: rooted_def)
qed

lemma root_ok_revoke:
  assumes "settled (caps s)" and "root_ok s" and "tg \<noteq> root_cap s"
  shows "root_ok (snd (vault_revoke rv tg t s))"
  using root_ok_revoke_recursive [OF assms] assms(2)
  by (auto simp: vault_revoke_def root_ok_def split: option.splits)

lemma root_cap_release: "root_cap (vault_release i ts s) = root_cap s"
  using release_sweep_frame [of ts "[0..<length (caps s)]" "s\<lparr>caps := revoke_recursive i (caps s)\<rparr>"]
  by (simp add: vault_release_def)

lemma root_ok_release:
  assumes "settled (caps s)" and "root_ok s" and "i \<noteq> root_cap s"
  shows "root_ok (vault_release i ts s)"
  unfolding root_ok_def root_cap_release vault_release_caps in_drop_inactive
  using root_ok_revoke_recursive [OF assms] by blast

lemma root_cap_frame [simp]:
  "root_cap (snd (vault_check i r now s)) = root_cap s" "caps (snd (vault_check i r now s)) = caps s"
  "root_cap (snd (require i r call now t s)) = root_cap s" "caps (snd (require i r call now t s)) = caps s"
  by (auto simp: require_def check_global_def vault_check_def split: prod.splits sum.splits option.splits if_splits)

lemma rooted_revoke:
  assumes "vault_inv T s" and "rooted T s"
  shows "rooted T (snd (vault_revoke rv tg t s))"
proof (cases "fst (vault_revoke rv tg t s)")
  case (Inl e)
  then have "caps (snd (vault_revoke rv tg t s)) = caps s" "root_cap (snd (vault_revoke rv tg t s)) = root_cap s"
    by (auto simp: vault_revoke_def split: option.splits if_splits)
  with assms show ?thesis by (blast intro: rooted_frame)
next
  case (Inr u)
  have st: "settled (caps s)" using assms(1) by (simp add: vault_inv_def)
  from Inr have eq: "caps (snd (vault_revoke rv tg t s)) = revoke_recursive tg (caps s)"
    "root_cap (snd (vault_revoke rv tg t s)) = root_cap s"
    by (auto simp: vault_revoke_def split: option.splits if_splits)
  show ?thesis by (rule rooted_revoke_recursive [OF assms, of _ tg]) (use st root_ok_revoke eq in simp_all)
qed

lemma rooted_release:
  assumes "vault_inv T s" and "rooted T s"
  shows "rooted T (release_module_cap i ts s)"
proof -
  have st: "settled (caps s)" using assms(1) by (simp add: vault_inv_def)
  have "rooted T (vault_release i ts s)"
    by (rule rooted_revoke_recursive [OF assms, of _ i])
      (use st root_ok_release in \<open>auto simp: root_cap_release vault_release_caps in_drop_inactive alive_def\<close>)
  with assms show ?thesis by (simp add: release_module_cap_def)
qed

lemma rooted_step: "sec_step x y \<Longrightarrow> vault_inv (fst x) (snd x) \<Longrightarrow> rooted (fst x) (snd x) \<Longrightarrow> rooted (fst y) (snd y)"
proof (induction rule: sec_step.induct)
  case (tick T T' s)
  then show ?case by (auto intro: rooted_mono)
next
  case (create T T' rd s nid pid res r ttl holder)
  then show ?case by (simp add: rooted_create)
next
  case (revoke T s rv tg t)
  then show ?case by (simp add: rooted_revoke)
next
  case (release T s i ts)
  then show ?case by (simp add: rooted_release)
qed (auto simp: grant_path_def grant_tree_def revoke_path_grants_def Let_def elim: rooted_frame)

lemma rooted_reachable: "sec_reachable x \<Longrightarrow> rooted (fst x) (snd x)"
proof (induction rule: sec_reachable.induct)
  case (boot T i t)
  have "root_cap (vault_init i t security_empty) = i" by (simp add: vault_init_def security_empty_def)
  then show ?case unfolding rooted_def root_ok_def alive_def by (auto simp: in_boot_caps intro: descends.self)
next
  case (step x y)
  then show ?case using rooted_step vault_inv_reachable by blast
qed

lemma root_ok_step:
  assumes "sec_step (T, s) (T', s')" and "settled (caps s)" and "root_ok s"
  shows "root_ok s' \<or> (\<exists>rv t. s' = snd (vault_revoke rv (root_cap s) t s))"
  using assms(1)
proof (cases rule: sec_step.cases)
  case (create rd nid pid res r ttl holder)
  with assms(3) show ?thesis by (simp add: root_ok_create)
next
  case (revoke rv tg t)
  with assms(2,3) root_ok_revoke show ?thesis by (cases "tg = root_cap s") auto
next
  case (release i ts)
  with assms(2,3) root_ok_release show ?thesis by (auto simp: release_module_cap_def)
qed (use assms(3) in \<open>auto simp: root_ok_def grant_path_def grant_tree_def revoke_path_grants_def Let_def\<close>)

lemma create_keeps_root_slot:
  assumes "n < length (caps s)" and "caps s ! n = Some c" and "c_id c = root_cap s"
  shows "caps (snd (vault_create pid res r ttl holder nid rd s)) ! n = Some c"
proof (cases "vault_create pid res r ttl holder nid rd s")
  case (Pair x s')
  show ?thesis
  proof (cases x)
    case (Inl e)
    with Pair assms create_refused_frame show ?thesis by (metis snd_conv)
  next
    case (Inr i)
    with Pair obtain m d where m: "free_slot (root_cap s) (t_slot rd) (caps s) = Some m"
      and caps': "caps s' = (caps s)[m := Some d]" by (auto elim: vault_create_InrE)
    from free_slot_SomeD [OF m] assms have "m \<noteq> n" by (auto simp: reusable_def)
    with caps' assms Pair show ?thesis by simp
  qed
qed

section \<open>A small vault\<close>

definition wit_root :: capid where "wit_root = replicate 32 1"
definition wit_app :: capid where "wit_app = replicate 32 2"

lemma wit_ids [simp]: "wit_root \<noteq> wit_app" "wit_app \<noteq> wit_root"
  by (simp_all add: wit_root_def wit_app_def)

definition wit_clock :: readings where
  "wit_clock = \<lparr>t_parent = 0, t_slot = (\<lambda>_. 0), t_issue = 0, s_first = \<lparr>st_wall = 0, st_up_ms = 0\<rparr>,
     s_second = \<lparr>st_wall = 0, st_up_ms = 0\<rparr>\<rparr>"

definition wit_boot :: security where
  "wit_boot = vault_init wit_root \<lparr>st_wall = 0, st_up_ms = 0\<rparr> security_empty"

definition wit_one :: security where
  "wit_one = snd (vault_create wit_root RExecute READ None (lit ''loft'') wit_app wit_clock wit_boot)"

lemma wit_boot_caps:
  "caps wit_boot = Some \<lparr>c_id = wit_root, c_resource = RKernel, c_rights = RIGHTS_ALL, c_parent = None,
     c_active = True, c_expires_at = None\<rparr> # replicate 255 None"
  by (simp add: wit_boot_def vault_init_def security_empty_def MAX_CAPABILITIES_def
      replicate_numeral [of _ "None :: capability option"])

lemma wit_one_caps:
  "caps wit_one = Some \<lparr>c_id = wit_root, c_resource = RKernel, c_rights = RIGHTS_ALL, c_parent = None,
     c_active = True, c_expires_at = None\<rparr> # Some \<lparr>c_id = wit_app, c_resource = RExecute, c_rights = READ, c_parent = Some wit_root,
     c_active = True, c_expires_at = None\<rparr> # replicate 254 None"
  by (simp add: wit_one_def vault_create_def vault_find_def wit_boot_caps has_id_def is_expired_def
     contains_def rights_defs free_slot_def child_expiry_def wit_clock_def Let_def
     replicate_numeral [of _ "None :: capability option"])

lemma wit_one_root [simp]: "root_cap wit_one = wit_root"
  by (simp add: wit_one_def wit_boot_def vault_create_def refuse_def vault_init_def Let_def
      split: option.splits)

lemma wit_one_reachable: "sec_reachable (0, wit_one)"
proof -
  have "sec_reachable (0, wit_boot)" unfolding wit_boot_def by (rule sec_reachable.boot)
  moreover have "sec_step (0, wit_boot) (0, wit_one)"
    unfolding wit_one_def by (rule sec_step.create) (auto simp: wit_clock_def wit_boot_caps)
  ultimately show ?thesis by (rule sec_reachable.step)
qed

abbreviation wit_root_cap :: capability where
  "wit_root_cap \<equiv> \<lparr>c_id = wit_root, c_resource = RKernel, c_rights = RIGHTS_ALL, c_parent = None,
     c_active = True, c_expires_at = None\<rparr>"

abbreviation wit_app_cap :: capability where
  "wit_app_cap \<equiv> \<lparr>c_id = wit_app, c_resource = RExecute, c_rights = READ, c_parent = Some wit_root,
     c_active = True, c_expires_at = None\<rparr>"

lemma wit_one_in: "Some wit_app_cap \<in> set (caps wit_one)" "Some wit_root_cap \<in> set (caps wit_one)"
  by (simp_all add: wit_one_caps)

lemma wit_app_descends: "descends (caps wit_one) wit_root wit_app_cap"
  by (rule descends.delegated [where q = wit_root_cap])
    (simp_all add: wit_one_in descends.self)

lemma wit_root_not_descends: "\<not> descends (caps wit_one) wit_app wit_root_cap"
  using root_not_descends [of "caps wit_one" wit_app wit_root_cap] by auto

lemma wit_app_holds: "fst (holds wit_app READ 0 wit_one)"
  by (simp add: holds_check vault_check_find vault_find_def wit_one_caps has_id_def is_expired_def)

lemma wit_driver:
  "create_driver_cap (lit ''wifi'') 2 0 1 (READ OR HARDWARE) None wit_app wit_clock wit_boot =
     (Inr wit_app, snd (create_driver_cap (lit ''wifi'') 2 0 1 (READ OR HARDWARE) None wit_app wit_clock wit_boot))"
  by (simp add: create_driver_cap_def vault_create_def vault_find_def wit_boot_def vault_init_def
      security_empty_def MAX_CAPABILITIES_def has_id_def is_expired_def
        contains_def rights_defs free_slot_def wit_clock_def Let_def
        replicate_numeral [of _ "None :: capability option"])

section \<open>Delegation and revocation\<close>

text \<open>C1. Authority is never wider or longer than what it was delegated from: in every reachable state,
  a right a capability holds is held, at the same moment, by every capability it descends from.\<close>

theorem check_backed_by_every_ancestor:
  assumes "sec_reachable (T, s)" and "T \<le> now"
    and "Some c \<in> set (caps s)" and "descends (caps s) a c"
    and "fst (holds (c_id c) r now s)"
  shows "fst (holds a r now s)"
proof -
  note u = reachable_unique [OF assms(1)]
  from assms(5) have "c_active c \<and> \<not> is_expired now c \<and> contains (c_rights c) r"
    by (simp add: holds_iff_grants u in_caps_grants assms(3))
  with grants_ancestor [OF reachable_backed [OF assms(1)] assms(2) u assms(4,3)]
  show ?thesis by (simp add: holds_iff_grants u)
qed

theorem check_backed_by_every_ancestor_witness:
  "fst (holds wit_root READ 0 wit_one)"
  using check_backed_by_every_ancestor [OF wit_one_reachable _ wit_one_in(1) wit_app_descends, of 0 READ]
    wit_app_holds by simp

text \<open>C4. \<open>revoke\<close> is transitive and exact: it takes every right from the target and from all that was
  delegated from it, and changes nothing for any other capability.\<close>

theorem revoke_takes_exactly_the_delegations:
  assumes "sec_reachable (T, s)" and "vault_revoke rv tg t s = (Inr (), s')"
    and "Some c \<in> set (caps s)"
  shows "fst (holds (c_id c) r now s') \<longleftrightarrow>
     fst (holds (c_id c) r now s) \<and> \<not> descends (caps s) tg c"
proof -
  note u = reachable_unique [OF assms(1)] and st = reachable_settled [OF assms(1)]
  have caps': "caps s' = deactivate (descends (caps s) tg) (caps s)"
    using caps_vault_revoke [OF assms(2)] st by (simp add: revoke_recursive_eq)
  then have "unique_ids (caps s')" by (simp add: unique_ids_deactivate u)
  then have "fst (holds (c_id c) r now s') \<longleftrightarrow> (\<exists>d. Some d \<in> set (caps s) \<and> c_id d = c_id c \<and>
      c_active d \<and> \<not> descends (caps s) tg d \<and> \<not> is_expired now d \<and> contains (c_rights d) r)"
    by (simp add: holds_iff_grants caps' grants_deactivate)
  also have "\<dots> \<longleftrightarrow> c_active c \<and> \<not> descends (caps s) tg c \<and> \<not> is_expired now c \<and> contains (c_rights c) r"
    using u assms(3) unfolding unique_ids_def by metis
  finally show ?thesis
    by (auto simp: holds_iff_grants u in_caps_grants assms(3))
qed

theorem revoke_takes_exactly_the_delegations_witness:
  "\<not> fst (holds wit_app READ 0 (snd (vault_revoke wit_root wit_root \<lparr>st_wall = 0, st_up_ms = 0\<rparr> wit_one)))"
proof -
  have "vault_revoke wit_root wit_root \<lparr>st_wall = 0, st_up_ms = 0\<rparr> wit_one =
      (Inr (), snd (vault_revoke wit_root wit_root \<lparr>st_wall = 0, st_up_ms = 0\<rparr> wit_one))"
    by (simp add: vault_revoke_def vault_find_def wit_one_caps has_id_def contains_def rights_defs)
  from revoke_takes_exactly_the_delegations [OF wit_one_reachable this wit_one_in(1), of READ 0]
  show ?thesis using wit_app_descends by simp
qed

text \<open>C14. When a module instance ends, its token and everything delegated from it stop working, and no other
  token is affected.\<close>

theorem release_ends_exactly_the_instance:
  assumes "sec_reachable (T, s)" and "i \<noteq> root_cap s" and "Some c \<in> set (caps s)"
  shows "fst (holds (c_id c) r now (release_module_cap i ts s)) \<longleftrightarrow>
     fst (holds (c_id c) r now s) \<and> \<not> descends (caps s) i c"
proof -
  note u = reachable_unique [OF assms(1)] and st = reachable_settled [OF assms(1)]
  let ?s' = "release_module_cap i ts s"
  have caps': "caps ?s' = drop_inactive (deactivate (descends (caps s) i) (caps s))"
    using assms(2) st by (simp add: release_module_cap_def vault_release_caps revoke_recursive_eq)
  then have "unique_ids (caps ?s')" by (simp add: unique_ids_deactivate unique_ids_drop u)
  then have "fst (holds (c_id c) r now ?s') \<longleftrightarrow> (\<exists>d. Some d \<in> set (caps s) \<and> c_id d = c_id c \<and>
      c_active d \<and> \<not> descends (caps s) i d \<and> \<not> is_expired now d \<and> contains (c_rights d) r)"
    by (simp add: holds_iff_grants caps' grants_drop grants_deactivate)
  also have "\<dots> \<longleftrightarrow> c_active c \<and> \<not> descends (caps s) i c \<and> \<not> is_expired now c \<and> contains (c_rights c) r"
    using u assms(3) unfolding unique_ids_def by metis
  finally show ?thesis
    by (auto simp: holds_iff_grants u in_caps_grants assms(3))
qed

theorem release_ends_exactly_the_instance_witness:
  "\<not> fst (holds wit_app READ 0 (release_module_cap wit_app (\<lambda>_. \<lparr>st_wall = 0, st_up_ms = 0\<rparr>) wit_one)) \<and>
   fst (holds wit_root READ 0 (release_module_cap wit_app (\<lambda>_. \<lparr>st_wall = 0, st_up_ms = 0\<rparr>) wit_one))"
  using release_ends_exactly_the_instance [OF wit_one_reachable _ wit_one_in(1), of wit_app READ 0]
    release_ends_exactly_the_instance [OF wit_one_reachable _ wit_one_in(2), of wit_app READ 0]
    wit_root_not_descends
  by (simp add: descends.self holds_check vault_check_find vault_find_def wit_one_caps has_id_def
      is_expired_def contains_def rights_defs)

text \<open>C7. \<open>create\<close> needs a parent that holds \<open>DELEGATE\<close> and every right it passes on, the new token holds no
  more than it was given, and reusing the slot of a dead token changes no other token's rights.\<close>

theorem create_adds_no_authority:
  assumes "sec_reachable (T, s)" and "T \<le> T'" and "\<forall>i. t_slot rd i \<le> T'"
    and "\<forall>c. Some c \<in> set (caps s) \<longrightarrow> c_id c \<noteq> nid"
    and ok: "vault_create pid res r ttl holder nid rd s = (Inr i, s')" and "T' \<le> now"
  shows "fst (holds pid (DELEGATE OR r) (t_parent rd) s) \<and>
    (fst (holds nid r' now s') \<longrightarrow> contains r r') \<and>
    (j \<noteq> nid \<longrightarrow> fst (holds j r' now s') = fst (holds j r' now s))"
proof -
  note u = reachable_unique [OF assms(1)]
  have "vault_inv T' s'"
    using vault_inv_create [OF vault_inv_reachable [OF assms(1), simplified] assms(2-4),
        of pid res r ttl holder] ok by simp
  then have u': "unique_ids (caps s')" by (simp add: vault_inv_def)
  from ok obtain p n d where p: "vault_find (caps s) pid = Some p" "c_active p"
      "\<not> is_expired (t_parent rd) p" "contains (c_rights p) DELEGATE" "contains (c_rights p) r"
    and n: "free_slot (root_cap s) (t_slot rd) (caps s) = Some n"
    and caps': "caps s' = (caps s)[n := Some d]" and d: "c_id d = nid" "c_rights d = r"
    by (rule vault_create_InrE) auto
  have nl: "n < length (caps s)" using free_slot_SomeD [OF n] by simp
  have "fst (holds pid (DELEGATE OR r) (t_parent rd) s)"
    using p vault_find_SomeD [OF p(1)] by (auto simp: holds_iff_grants u grants_def)
  moreover have "fst (holds nid r' now s') \<longrightarrow> contains r r'"
    using in_caps_grants [of "caps s'" d now r'] u' d caps' nl
    by (simp add: holds_iff_grants set_update_memI)
  moreover have "\<forall>i. t_slot rd i \<le> now" using assms(3,6) le_trans by blast
  then have "j \<noteq> nid \<longrightarrow> fst (holds j r' now s') = fst (holds j r' now s)"
    using grants_update_other [OF nl, of d j now r'] free_slot_gone [OF n] d
      holds_iff_grants [OF u'] holds_iff_grants [OF u] caps' by auto
  ultimately show ?thesis by blast
qed

theorem create_adds_no_authority_witness:
  "fst (holds wit_root (DELEGATE OR READ) 0 wit_boot) \<and>
   \<not> fst (holds wit_app WRITE 5 wit_one)"
proof -
  have ok: "vault_create wit_root RExecute READ None (lit ''loft'') wit_app wit_clock wit_boot =
      (Inr wit_app, wit_one)"
    by (simp add: wit_one_def vault_create_def vault_find_def wit_boot_caps has_id_def is_expired_def
        contains_def rights_defs free_slot_def wit_clock_def Let_def
        replicate_numeral [of _ "None :: capability option"])
  have "sec_reachable (0, wit_boot)" unfolding wit_boot_def by (rule sec_reachable.boot)
  from create_adds_no_authority [OF this _ _ _ ok, of 0 5 WRITE]
  show ?thesis by (simp add: wit_boot_caps) (simp add: wit_clock_def contains_def rights_defs)
qed

text \<open>C15. A gate that refuses leaves the vault as it was and the refusal, with the holder and the call, among
  the newest journal entries.\<close>

theorem refusal_is_journalled:
  assumes "fst (vault_check i r now s) = Inl e" and "journal_holder (log s) i = (n, h)"
  shows "fst (require i r call now t s) = False \<and>
    caps (snd (require i r call now t s)) = caps s \<and>
    noted n Denied r h (cut (denial_text call (error_reason e)) MAX_OBJECT) (st_up_ms t)
      (log (snd (require i r call now t s)))"
  by (simp add: require_refused [OF assms(1)] noted_denied assms(2))

theorem refusal_is_journalled_witness:
  "fst (require wit_app WRITE (lit ''npk_store'') 0 \<lparr>st_wall = 0, st_up_ms = 7\<rparr> wit_one) = False"
proof -
  have "fst (vault_check wit_app WRITE 0 wit_one) = Inl InsufficientRights"
    by (simp add: vault_check_find vault_find_def wit_one_caps has_id_def is_expired_def
        contains_def rights_defs)
  then show ?thesis
    using refusal_is_journalled [of wit_app WRITE 0 wit_one InsufficientRights
        "fst (journal_holder (log wit_one) wit_app)" "snd (journal_holder (log wit_one) wit_app)"] by simp
qed

text \<open>C11. The root token ends in one way only. In every state a run reaches, either the root token is in the
  vault, active, with all rights, or no token at all opens anything from then on. A step that takes it away is a
  revocation aimed at the root token itself: no delegation, no ending instance, no revocation of another token and
  no grant does. And from any state whatsoever, creating a token leaves the slot that carries the root's id as it
  is, even one that holds a revoked root, and the end of an instance that runs under the root's id changes
  nothing. (The end of another instance sweeps every inactive slot, that of a revoked root included.)\<close>

theorem root_survives:
  assumes "sec_reachable (T, s)"
  shows "(root_ok s \<or> (\<forall>i r now. T \<le> now \<longrightarrow> \<not> fst (holds i r now s))) \<and>
    (root_ok s \<and> sec_step (T, s) (T', s') \<longrightarrow>
       root_ok s' \<or> (\<exists>rv t. s' = snd (vault_revoke rv (root_cap s) t s))) \<and>
    (n < length (caps x) \<and> caps x ! n = Some c \<and> c_id c = root_cap x \<longrightarrow>
       caps (snd (vault_create pid res r ttl holder nid rd x)) ! n = Some c) \<and>
    release_module_cap (root_cap x) ts x = x"
proof (intro conjI impI)
  show "root_ok s \<or> (\<forall>i r now. T \<le> now \<longrightarrow> \<not> fst (holds i r now s))"
    using rooted_reachable [OF assms] rooted_dead dead_grants_nothing holds_iff_grants [OF reachable_unique [OF assms]]
    by (metis fst_conv snd_conv)
  show "root_ok s' \<or> (\<exists>rv t. s' = snd (vault_revoke rv (root_cap s) t s))"
    if "root_ok s \<and> sec_step (T, s) (T', s')"
    using that root_ok_step reachable_settled [OF assms] by blast
  show "caps (snd (vault_create pid res r ttl holder nid rd x)) ! n = Some c"
    if "n < length (caps x) \<and> caps x ! n = Some c \<and> c_id c = root_cap x"
    using that create_keeps_root_slot by blast
qed (simp add: release_module_cap_def)

theorem root_survives_witness:
  "fst (holds wit_app READ 0 wit_one) \<and> root_ok wit_one \<and>
   caps (snd (vault_create wit_app RKernel 0 None [] (replicate 32 3) wit_clock wit_boot)) ! 0 = caps wit_boot ! 0"
proof -
  note facts = root_survives [OF wit_one_reachable]
  have "caps wit_boot ! 0 = Some \<lparr>c_id = root_cap wit_boot, c_resource = RKernel, c_rights = RIGHTS_ALL,
      c_parent = None, c_active = True, c_expires_at = None\<rparr>" "0 < length (caps wit_boot)"
    by (simp_all add: wit_boot_def vault_init_def security_empty_def MAX_CAPABILITIES_def)
  moreover have "root_ok wit_one"
    using root_survives [OF wit_one_reachable, THEN conjunct1] wit_app_holds by blast
  ultimately show ?thesis using facts [of 0 _ 0 wit_boot] wit_app_holds by auto
qed

text \<open>C19. A driver's token opens one PCI device: a check that passes names the device it was created for,
  and asks for no right beyond it.\<close>

theorem driver_cap_bound_to_device:
  assumes "\<forall>c. Some c \<in> set (caps s) \<longrightarrow> c_id c \<noteq> nid"
    and "create_driver_cap name bus dev fn r ttl nid rd s = (Inr i, s')"
    and "check_pci_device i r' b d f now s' = (Inr (), s'')"
  shows "b = bus \<and> d = dev \<and> f = fn \<and> contains r r'"
proof -
  from assms(2) [unfolded create_driver_cap_def] obtain n e where
      n: "free_slot (root_cap s) (t_slot rd) (caps s) = Some n" and "i = nid"
    and caps': "caps s' = (caps s)[n := Some e]"
    and e: "c_id e = nid" "c_resource e = RPciDevice bus dev fn" "c_rights e = r"
    by (rule vault_create_InrE) auto
  from free_slot_SomeD [OF n] have nl: "n < length (caps s)" by simp
  have only: "c = e" if "Some c \<in> set (caps s')" "c_id c = nid" for c
    using that assms(1) unfolding caps' in_update_iff [OF nl] by (metis nth_mem)
  from assms(3) obtain c where c: "fst (vault_check i r' now s') = Inr c"
    and res: "case c_resource c of RPciDevice x y z \<Rightarrow> x = b \<and> y = d \<and> z = f | RKernel \<Rightarrow> True | _ \<Rightarrow> False"
    by (auto simp: check_pci_device_def split: prod.splits sum.splits resource_kind.splits if_splits)
  from c have find: "vault_find (caps s') nid = Some c" and "contains (c_rights c) r'"
    using \<open>i = nid\<close> by (auto simp: vault_check_find split: option.splits if_splits)
  moreover from find have "c = e" using vault_find_SomeD only by blast
  ultimately show ?thesis using res e by simp
qed

theorem driver_cap_bound_to_device_witness:
  "fst (check_pci_device wit_app READ 2 0 1 0
     (snd (create_driver_cap (lit ''wifi'') 2 0 1 (READ OR HARDWARE) None wit_app wit_clock wit_boot))) = Inr () \<and>
   contains (READ OR HARDWARE) READ"
proof -
  let ?s = "snd (create_driver_cap (lit ''wifi'') 2 0 1 (READ OR HARDWARE) None wit_app wit_clock wit_boot)"
  have ok: "check_pci_device wit_app READ 2 0 1 0 ?s = (Inr (), snd (check_pci_device wit_app READ 2 0 1 0 ?s))"
    by (simp add: create_driver_cap_def vault_create_def vault_find_def wit_boot_def vault_init_def
      security_empty_def MAX_CAPABILITIES_def has_id_def is_expired_def check_pci_device_def vault_check_def
        contains_def rights_defs free_slot_def wit_clock_def Let_def child_expiry_def
        replicate_numeral [of _ "None :: capability option"])
  have fresh: "\<forall>c. Some c \<in> set (caps wit_boot) \<longrightarrow> c_id c \<noteq> wit_app"
    by (simp add: wit_boot_caps)
  from driver_cap_bound_to_device [OF fresh wit_driver ok] ok show ?thesis
    by (metis fst_conv)
qed

section \<open>Path grants\<close>

definition wit_grants :: security where
  "wit_grants = grant_path wit_app (lit ''sys/theme'') READ \<lparr>st_wall = 0, st_up_ms = 0\<rparr>
     (snd (grant_tree wit_app (lit ''home/docs'') (READ OR WRITE) \<lparr>st_wall = 0, st_up_ms = 0\<rparr> wit_one))"

lemma wit_one_grants [simp]: "path_grants wit_one = []"
  unfolding wit_one_def by (simp add: wit_boot_def vault_init_def security_empty_def)

lemma wit_grants_list:
  "path_grants wit_grants =
     [\<lparr>g_cap = wit_app, g_path = lit ''home/docs'', g_rights = READ OR WRITE, g_tree = True\<rparr>,
      \<lparr>g_cap = wit_app, g_path = lit ''sys/theme'', g_rights = READ, g_tree = False\<rparr>]"
  by (simp add: wit_grants_def grant_path_def grant_tree_def push_grant_def same_grant_def
      canonical_def SLASH_def plain_segment_def PRIVATE_ROOT_def EXT_ROOT_def MAX_PATH_GRANTS_def)

lemma wit_grants_reachable: "sec_reachable (0, wit_grants)"
  unfolding wit_grants_def
  by (rule sec_reachable.step [OF sec_reachable.step [OF wit_one_reachable sec_step.grant_folder]
        sec_step.grant_file])

text \<open>C21. A grant covers exactly the granted path, or, for a folder, paths whose segments extend the folder's
  segments by plain names: no spelling of a path with empty, dot or dot-dot segments leaves the folder.\<close>

theorem folder_grant_stays_below:
  assumes "check_path_grant i path r s"
  shows "\<exists>e \<in> set (path_grants s). g_cap e = i \<and> contains (g_rights e) r \<and>
    (path = g_path e \<or>
     g_tree e \<and> (\<exists>rest. path = g_path e @ SLASH # rest \<and>
       split_on SLASH path = split_on SLASH (g_path e) @ split_on SLASH rest \<and>
       list_all plain_segment (split_on SLASH path)))"
proof -
  from assms obtain e where e: "e \<in> set (path_grants s)" "grant_covers i path r e"
    by (auto simp: check_path_grant_def list_ex_iff)
  moreover have "g_cap e = i \<and> contains (g_rights e) r"
    using e(2) by (simp add: grant_covers_def)
  ultimately show ?thesis using grant_covers_split [OF e(2)] by metis
qed

theorem folder_grant_stays_below_witness:
  "check_path_grant wit_app (lit ''home/docs/a'') WRITE wit_grants \<and>
   (\<exists>e \<in> set (path_grants wit_grants). g_cap e = wit_app)"
proof -
  have "check_path_grant wit_app (lit ''home/docs/a'') WRITE wit_grants"
    by (simp add: check_path_grant_def wit_grants_list grant_covers_def canonical_def SLASH_def
        plain_segment_def contains_def rights_defs)
  with folder_grant_stays_below [OF this] show ?thesis by blast
qed

text \<open>C20. Below \<open>sys\<close>, \<open>.system\<close> and \<open>priv\<close> no folder grant ever applies: a passing check rests on a grant of
  exactly that file.\<close>

theorem guarded_namespaces_need_the_exact_file:
  assumes "sec_reachable (T, s)" and "guarded_top (hd (split_on SLASH path))"
    and "check_path_grant i path r s"
  shows "\<exists>e \<in> set (path_grants s). g_cap e = i \<and> contains (g_rights e) r \<and> g_path e = path \<and> \<not> g_tree e"
proof -
  from assms(3) obtain e where e: "e \<in> set (path_grants s)" "grant_covers i path r e"
    by (auto simp: check_path_grant_def list_ex_iff)
  with grants_inv_reachable [OF assms(1)] have ok: "folder_ok e"
    by (auto simp: grants_inv_def list_all_iff)
  have "g_path e = path"
  proof (rule ccontr)
    assume "g_path e \<noteq> path"
    from grant_covers_split [OF e(2) this] have "g_tree e" and
      "hd (split_on SLASH path) = hd (split_on SLASH (g_path e))" by auto
    with ok assms(2) show False by (simp add: folder_ok_def)
  qed
  moreover have "\<not> g_tree e" using ok assms(2) \<open>g_path e = path\<close> by (auto simp: folder_ok_def)
  ultimately show ?thesis using e by (auto simp: grant_covers_def)
qed

theorem guarded_namespaces_need_the_exact_file_witness:
  "\<exists>e \<in> set (path_grants wit_grants). g_path e = lit ''sys/theme'' \<and> \<not> g_tree e"
proof -
  have "guarded_top (hd (split_on SLASH (lit ''sys/theme'')))"
    and "check_path_grant wit_app (lit ''sys/theme'') READ wit_grants"
    by (simp_all add: guarded_top_def SLASH_def check_path_grant_def wit_grants_list grant_covers_def
        contains_def)
  from guarded_namespaces_need_the_exact_file [OF wit_grants_reachable this] show ?thesis by blast
qed

text \<open>C22. No capability ever holds more than \<open>MAX_PATH_GRANTS\<close> grants, and granting to one capability never
  touches the grants of another.\<close>

theorem grants_are_bounded_per_capability:
  assumes "sec_reachable (T, s)"
  shows "grants_of i (path_grants s) \<le> MAX_PATH_GRANTS \<and>
    filter (\<lambda>e. g_cap e \<noteq> j) (path_grants (grant_path j path r t s)) =
      filter (\<lambda>e. g_cap e \<noteq> j) (path_grants s)"
  using grants_inv_reachable [OF assms] by (simp add: grants_inv_def grant_path_def push_grant_others)

theorem grants_are_bounded_per_capability_witness:
  "grants_of wit_app (path_grants wit_grants) \<le> MAX_PATH_GRANTS"
  using grants_are_bounded_per_capability [OF wit_grants_reachable] by blast

section \<open>The journal and the declared rights\<close>

text \<open>C23. Whatever the vault, the host calls and the guests write, the journal is bounded, and its entries carry
  the last sequence numbers given out, one after the other modulo \<open>2 ^ 64\<close> and up to the one before
  \<open>total_count\<close>; no two entries share a number. As long as the 64-bit counter has not wrapped among
  the entries kept, a reader gets entries in strictly increasing order of sequence number.\<close>

theorem journal_is_consecutive:
  assumes "sec_reachable (T, s)"
  shows "length (entries (log s)) \<le> MAX_ENTRIES \<and>
    (\<forall>i < length (entries (log s)).
       seq (entries (log s) ! i) + of_nat (length (entries (log s)) - i) = total_count (log s)) \<and>
    distinct (map seq (entries (log s))) \<and>
    (length (entries (log s)) \<le> unat (total_count (log s)) \<longrightarrow>
       sorted_wrt (<) (map seq (audit_since after holder n (log s))))"
proof -
  from vault_inv_reachable [OF assms] have inv: "audit_inv (log s)" by (simp add: vault_inv_def)
  then show ?thesis
    using audit_since_sorted [OF inv] distinct_seq [OF inv] seq_nth [OF inv]
    by (simp add: audit_inv_def total_count_def)
qed

theorem journal_is_consecutive_witness:
  "length (entries (log wit_one)) \<le> MAX_ENTRIES"
  using journal_is_consecutive [OF wit_one_reachable] by blast

text \<open>C24. A module whose rights come from its \<open>.npk.caps\<close> section, whatever bytes it ships, cannot issue
  tokens: the vault refuses and stays as it was.\<close>

theorem declared_modules_cannot_delegate:
  assumes "vault_find (caps s) m = Some c" and "c_rights c = widget_rights_from_wasm w"
    and "c_active c" and "\<not> is_expired (t_parent rd) c"
  shows "fst (vault_create m res r ttl holder nid rd s) = Inl InsufficientRights \<and>
    caps (snd (vault_create m res r ttl holder nid rd s)) = caps s"
proof -
  have "widget_rights_from_wasm w AND DELEGATE = 0"
    using widget_rights_no_manage [of w] unfolding bit.conj_disj_distrib by (simp only: or_eq_0_iff)
  then have "\<not> contains (c_rights c) DELEGATE"
    using assms(2) by (simp add: contains_def rights_defs)
  with assms show ?thesis by (simp add: vault_create_def refuse_def)
qed

theorem declared_modules_cannot_delegate_witness:
  "fst (vault_create wit_app RExecute READ None (lit ''x'') wit_root wit_clock
     (wit_boot\<lparr>caps := [Some \<lparr>c_id = wit_app, c_resource = RExecute, c_rights = widget_rights_from_wasm [],
        c_parent = Some wit_root, c_active = True, c_expires_at = None\<rparr>]\<rparr>)) = Inl InsufficientRights"
  using declared_modules_cannot_delegate [of
      "wit_boot\<lparr>caps := [Some \<lparr>c_id = wit_app, c_resource = RExecute,
         c_rights = widget_rights_from_wasm [], c_parent = Some wit_root, c_active = True,
         c_expires_at = None\<rparr>]\<rparr>" wit_app _ "[]" wit_clock]
  by (simp add: vault_find_def has_id_def is_expired_def)

text \<open>C25. In a well-formed module the rights are read from the first custom section named \<open>.npk.caps\<close>,
  wherever it stands among the sections.\<close>

theorem declared_rights_of_well_formed_module:
  assumes "list_all sec_ok ss"
  shows "widget_rights_from_wasm (wasm_magic @ concat (map sec_bytes ss)) =
    (case first_custom (lit ''.npk.caps'') ss of
       None \<Rightarrow> default_widget_rights
     | Some [] \<Rightarrow> default_widget_rights
     | Some [b] \<Rightarrow> rights_from_caps_byte b
     | Some (b # b2 # _) \<Rightarrow> rights_from_caps_byte b OR rights_from_caps_byte2 b2)"
  by (auto simp: widget_rights_from_wasm_def extract_wasm_custom_section_first [OF assms]
      split: option.splits list.splits)

theorem declared_rights_of_well_formed_module_witness:
  "widget_rights_from_wasm
     (wasm_magic @ concat (map sec_bytes [Other 1 [0], Custom (lit ''.npk.caps'') [0x0B]])) =
   READ OR WRITE OR RENDER"
  using declared_rights_of_well_formed_module [of "[Other 1 [0], Custom (lit ''.npk.caps'') [0x0B]]"]
  by (simp add: sec_ok_def rights_from_caps_byte_def rights_defs leb128.simps)

end
