(* ===== verification/Bit_Vector.thy ===== *)
theory Bit_Vector
  imports Prelude
begin

text \<open>
  Bit vectors held in byte vectors: bit \<open>b\<close> is \<open>data[b / 8] & (1 << (b % 8))\<close>. The block bitmap of
  npkFS and the frame bitmap of the memory manager both use this layout, one for blocks and one for
  frames, with a set bit for an allocated unit. The lemmas describe the vector by the set of its clear
  bits.
\<close>

section \<open>Single bits\<close>

definition bv_clear :: "bytes \<Rightarrow> nat \<Rightarrow> bool" where
  "bv_clear d b = (d ! (b div 8) AND push_bit (b mod 8) 1 = 0)"

definition bv_set :: "bytes \<Rightarrow> nat \<Rightarrow> bytes" where
  "bv_set d b = d[b div 8 := d ! (b div 8) OR push_bit (b mod 8) 1]"

definition bv_unset :: "bytes \<Rightarrow> nat \<Rightarrow> bytes" where
  "bv_unset d b = d[b div 8 := d ! (b div 8) AND NOT (push_bit (b mod 8) 1)]"

text \<open>The clear bits below \<open>n\<close>.\<close>

definition clear_bits :: "bytes \<Rightarrow> nat \<Rightarrow> nat set" where
  "clear_bits d n = {b. b < n \<and> bv_clear d b}"

lemma length_bv_set [simp]: "length (bv_set d b) = length d"
  by (simp add: bv_set_def)

lemma length_bv_unset [simp]: "length (bv_unset d b) = length d"
  by (simp add: bv_unset_def)

lemma bv_clear_iff: "bv_clear d b \<longleftrightarrow> \<not> bit (d ! (b div 8)) (b mod 8)"
  by (simp add: bv_clear_def push_bit_eq_mult and_exp_eq_0_iff_not_bit)

lemma bit_index_cong: "b div 8 = c div 8 \<Longrightarrow> b mod 8 = c mod 8 \<Longrightarrow> b = (c :: nat)"
  by (metis mod_mult_div_eq)

lemma bv_clear_set:
  assumes "b < 8 * length d"
  shows "bv_clear (bv_set d b) c \<longleftrightarrow> c \<noteq> b \<and> bv_clear d c"
proof (cases "c div 8 = b div 8")
  case True
  have "b div 8 < length d" using assms by (simp add: less_mult_imp_div_less mult.commute)
  moreover have "b mod 8 < 8" "c mod 8 < 8" by simp_all
  ultimately show ?thesis using True bit_index_cong [OF True]
    by (auto simp: bv_clear_iff bv_set_def bit_or_iff bit_exp_iff)
next
  case False
  then show ?thesis by (auto simp: bv_clear_iff bv_set_def)
qed

lemma bv_clear_unset:
  assumes "b < 8 * length d"
  shows "bv_clear (bv_unset d b) c \<longleftrightarrow> c = b \<or> bv_clear d c"
proof (cases "c div 8 = b div 8")
  case True
  have "b div 8 < length d" using assms by (simp add: less_mult_imp_div_less mult.commute)
  moreover have "b mod 8 < 8" "c mod 8 < 8" by simp_all
  ultimately show ?thesis using True bit_index_cong [OF True]
    by (auto simp: bv_clear_iff bv_unset_def bit_and_iff bit_not_iff bit_exp_iff)
next
  case False
  then show ?thesis by (auto simp: bv_clear_iff bv_unset_def)
qed

section \<open>The set of clear bits\<close>

lemma finite_clear_bits [simp]: "finite (clear_bits d n)"
  by (simp add: clear_bits_def)

lemma clear_bits_iff: "b \<in> clear_bits d n \<longleftrightarrow> b < n \<and> bv_clear d b"
  by (simp add: clear_bits_def)

lemma clear_bits_set:
  "b < 8 * length d \<Longrightarrow> clear_bits (bv_set d b) n = clear_bits d n - {b}"
  by (auto simp: clear_bits_def bv_clear_set)

lemma clear_bits_unset:
  "b < 8 * length d \<Longrightarrow> b < n \<Longrightarrow> clear_bits (bv_unset d b) n = insert b (clear_bits d n)"
  by (auto simp: clear_bits_def bv_clear_unset)

lemma card_clear_bits_le: "card (clear_bits d n) \<le> n"
proof -
  have "clear_bits d n \<subseteq> {..<n}" by (auto simp: clear_bits_def)
  then have "card (clear_bits d n) \<le> card {..<n}" by (intro card_mono) auto
  then show ?thesis by simp
qed

lemma filter_clear_card: "length (filter (bv_clear d) [0..<n]) = card (clear_bits d n)"
proof -
  have "card (set (filter (bv_clear d) [0..<n])) = length (filter (bv_clear d) [0..<n])"
    by (rule distinct_card) simp
  moreover have "set (filter (bv_clear d) [0..<n]) = clear_bits d n"
    by (auto simp: clear_bits_def)
  ultimately show ?thesis by simp
qed

text \<open>Runs of bits set or cleared one after the other.\<close>

definition bv_set_list :: "nat list \<Rightarrow> bytes \<Rightarrow> bytes" where
  "bv_set_list bs d = fold (\<lambda>b e. bv_set e b) bs d"

lemma bv_set_list_simps [simp]:
  "bv_set_list [] d = d" "bv_set_list (b # bs) d = bv_set_list bs (bv_set d b)"
  by (simp_all add: bv_set_list_def)

lemma length_bv_set_list [simp]: "length (bv_set_list bs d) = length d"
  by (induction bs arbitrary: d) auto

lemma bv_clear_set_list:
  "\<forall>b \<in> set bs. b < 8 * length d \<Longrightarrow>
     bv_clear (bv_set_list bs d) c \<longleftrightarrow> c \<notin> set bs \<and> bv_clear d c"
  by (induction bs arbitrary: d) (auto simp: bv_clear_set)

lemma clear_bits_set_list:
  "\<forall>b \<in> set bs. b < 8 * length d \<Longrightarrow> clear_bits (bv_set_list bs d) n = clear_bits d n - set bs"
  by (auto simp: clear_bits_def bv_clear_set_list)

lemma bv_clear_zeroes: "b < 8 * n \<Longrightarrow> bv_clear (replicate n 0) b"
  by (simp add: bv_clear_iff less_mult_imp_div_less mult.commute)

lemma bv_clear_ones: "b < 8 * n \<Longrightarrow> \<not> bv_clear (replicate n 0xFF) b"
proof -
  assume "b < 8 * n"
  then have "b div 8 < n" by (simp add: less_mult_imp_div_less mult.commute)
  moreover have "bit (0xFF :: u8) (b mod 8)"
  proof -
    have "bit (mask 8 :: u8) (b mod 8)" by (simp only: bit_mask_iff) simp
    moreover have "(mask 8 :: u8) = 0xFF" by (simp add: mask_eq_exp_minus_1)
    ultimately show ?thesis by (simp only:)
  qed
  ultimately show ?thesis by (simp add: bv_clear_iff)
qed

end
