(* ===== verification/Frames.thy ===== *)
theory Frames
  imports Bit_Vector
begin

text \<open>
  The physical memory manager of \<^verbatim>\<open>kernel/src/mm/memory.rs\<close>: the bitmap frame allocator
  (a set bit for a used frame), its set-up from the firmware memory map, the single-frame and contiguous
  searches, and the questions asked of the firmware map before a module may map a physical address.
  The allocator behind its mutex is the record \<open>frame_allocator\<close>; addresses and counts are naturals with
  the wrap-around of \<open>u64\<close> arithmetic written out as \<open>wrap64\<close> where the source adds firmware values.
\<close>

section \<open>Definitions\<close>

abbreviation wrap64 :: "nat \<Rightarrow> nat" where
  "wrap64 n \<equiv> n mod 18446744073709551616"

definition PAGE_SIZE :: nat where "PAGE_SIZE = 4096"

definition IDENTITY_MAX :: nat where "IDENTITY_MAX = 8 * 2 ^ 40"

definition MAX_FRAMES :: nat where "MAX_FRAMES = IDENTITY_MAX div PAGE_SIZE"

definition STATIC_FRAMES :: nat where "STATIC_FRAMES = (64 * 2 ^ 30) div PAGE_SIZE"

record frame_allocator =
  fa_bits :: bytes
  fa_free :: nat
  memory_top :: nat
  next_byte :: nat

definition fa_new :: frame_allocator where
  "fa_new = \<lparr>fa_bits = replicate (STATIC_FRAMES div 8) 0, fa_free = 0, memory_top = 0, next_byte = 0\<rparr>"

definition fa_frames :: "frame_allocator \<Rightarrow> nat" where
  "fa_frames fa = length (fa_bits fa) * 8"

definition mark_all_used :: "frame_allocator \<Rightarrow> frame_allocator" where
  "mark_all_used fa = fa\<lparr>fa_bits := replicate (length (fa_bits fa)) 0xFF, fa_free := 0\<rparr>"

definition fa_set_free :: "nat \<Rightarrow> frame_allocator \<Rightarrow> frame_allocator" where
  "fa_set_free frame fa =
     (if frame \<ge> fa_frames fa then fa
      else if \<not> bv_clear (fa_bits fa) frame
        then fa\<lparr>fa_bits := bv_unset (fa_bits fa) frame, fa_free := fa_free fa + 1,
                next_byte := min (next_byte fa) (frame div 8)\<rparr>
      else fa)"

definition fa_set_used :: "nat \<Rightarrow> frame_allocator \<Rightarrow> frame_allocator" where
  "fa_set_used frame fa =
     (if frame \<ge> fa_frames fa then fa
      else if bv_clear (fa_bits fa) frame
        then fa\<lparr>fa_bits := bv_set (fa_bits fa) frame,
                fa_free := (if fa_free fa > 0 then fa_free fa - 1 else fa_free fa)\<rparr>
      else fa)"

definition free_step :: "nat \<Rightarrow> frame_allocator \<Rightarrow> frame_allocator" where
  "free_step frame fa =
     (let fa' = fa_set_free frame fa
      in if frame \<ge> memory_top fa' then fa'\<lparr>memory_top := frame + 1\<rparr> else fa')"

definition mark_region_free :: "nat \<Rightarrow> nat \<Rightarrow> frame_allocator \<Rightarrow> frame_allocator" where
  "mark_region_free base len fa =
     (if len = 0 then fa
      else let start = wrap64 (base + PAGE_SIZE - 1) div PAGE_SIZE;
               end = wrap64 (base + len) div PAGE_SIZE
           in fold free_step [start..<min end (fa_frames fa)] fa)"

definition mark_region_used :: "nat \<Rightarrow> nat \<Rightarrow> frame_allocator \<Rightarrow> frame_allocator" where
  "mark_region_used base len fa =
     (if len = 0 then fa
      else let start = base div PAGE_SIZE;
               end = wrap64 (wrap64 (base + len) + PAGE_SIZE - 1) div PAGE_SIZE
           in fold fa_set_used [start..<min end (fa_frames fa)] fa)"

text \<open>\<open>u8::trailing_ones\<close>.\<close>

definition trailing_ones :: "u8 \<Rightarrow> nat" where
  "trailing_ones b = (case position (\<lambda>i. \<not> bit b i) [0..<8] of Some i \<Rightarrow> i | None \<Rightarrow> 8)"

text \<open>The scan of \<open>allocate\<close>: the first byte from \<open>next_byte\<close> that is not full.\<close>

definition first_open_byte :: "frame_allocator \<Rightarrow> nat \<Rightarrow> nat option" where
  "first_open_byte fa top_byte = find (\<lambda>i. fa_bits fa ! i \<noteq> 0xFF) [next_byte fa..<top_byte]"

definition fa_allocate :: "frame_allocator \<Rightarrow> nat option \<times> frame_allocator" where
  "fa_allocate fa =
     (let top_byte = min ((memory_top fa + 7) div 8) (length (fa_bits fa))
      in case first_open_byte fa top_byte of
           None \<Rightarrow> (None, fa\<lparr>next_byte := top_byte\<rparr>)
         | Some byte_idx \<Rightarrow>
             let frame = byte_idx * 8 + trailing_ones (fa_bits fa ! byte_idx)
             in if frame \<ge> memory_top fa then (None, fa\<lparr>next_byte := byte_idx\<rparr>)
                else (Some (frame * PAGE_SIZE),
                      fa\<lparr>next_byte := byte_idx, fa_bits := bv_set (fa_bits fa) frame,
                         fa_free := fa_free fa - 1\<rparr>))"

definition fa_deallocate :: "nat \<Rightarrow> frame_allocator \<Rightarrow> frame_allocator" where
  "fa_deallocate addr fa = fa_set_free (addr div PAGE_SIZE) fa"

text \<open>\<open>with_reclaim\<close>: the shrinkers registered at run time are the argument \<open>reclaim\<close>.\<close>

definition with_reclaim ::
    "(nat \<Rightarrow> frame_allocator \<Rightarrow> nat \<times> frame_allocator) \<Rightarrow> nat \<Rightarrow>
     (frame_allocator \<Rightarrow> nat option \<times> frame_allocator) \<Rightarrow> frame_allocator \<Rightarrow>
     nat option \<times> frame_allocator" where
  "with_reclaim reclaim want alloc fa =
     (case alloc fa of
        (Some a, fa1) \<Rightarrow> (Some a, fa1)
      | (None, fa1) \<Rightarrow>
          (case reclaim want fa1 of (freed, fa2) \<Rightarrow> if freed > 0 then alloc fa2 else (None, fa2)))"

definition allocate_frame ::
    "(nat \<Rightarrow> frame_allocator \<Rightarrow> nat \<times> frame_allocator) \<Rightarrow> frame_allocator \<Rightarrow>
     nat option \<times> frame_allocator" where
  "allocate_frame reclaim fa = with_reclaim reclaim 1 fa_allocate fa"

text \<open>\<open>use_frames start count\<close> is the loop that marks the frames of a run used.\<close>

definition use_frames :: "nat \<Rightarrow> nat \<Rightarrow> frame_allocator \<Rightarrow> frame_allocator" where
  "use_frames start count fa = fold (\<lambda>i. fa_set_used (start + i)) [0..<count] fa"

function below_loop :: "bytes \<Rightarrow> nat \<Rightarrow> nat \<Rightarrow> nat option" where
  "below_loop bits count start =
     (case find (\<lambda>i. \<not> bv_clear bits (start + i)) [0..<count] of
        None \<Rightarrow> Some start
      | Some i \<Rightarrow>
          if start = 0 then None
          else let frame = start + i;
                   skip_to = (if frame > count then frame - count else 0)
               in if skip_to \<ge> start then below_loop bits count (start - 1)
                  else below_loop bits count skip_to)"
  by pat_completeness auto
termination
  by (relation "measure (\<lambda>(_, _, start). start)") (auto simp: not_le)

definition contiguous_below :: "nat \<Rightarrow> nat \<Rightarrow> frame_allocator \<Rightarrow> nat option \<times> frame_allocator" where
  "contiguous_below count limit_bytes fa =
     (if count = 0 then (None, fa)
      else let top = (if limit_bytes > 0 then min (limit_bytes div PAGE_SIZE) (memory_top fa)
                      else memory_top fa)
           in if count > top then (None, fa)
              else case below_loop (fa_bits fa) count (top - count) of
                     None \<Rightarrow> (None, fa)
                   | Some start \<Rightarrow> (Some (start * PAGE_SIZE), use_frames start count fa))"

text \<open>\<open>x & !(align - 1)\<close> for a power of two \<open>align\<close>; \<open>is_power_of_two\<close>.\<close>

definition align_down :: "nat \<Rightarrow> nat \<Rightarrow> nat" where
  "align_down align x = x - x mod align"

definition is_power_of_two :: "nat \<Rightarrow> bool" where
  "is_power_of_two n = (\<exists>k \<in> {0..<64}. n = 2 ^ k)"

function aligned_loop :: "(nat \<Rightarrow> bool) \<Rightarrow> nat \<Rightarrow> nat \<Rightarrow> nat option" where
  "aligned_loop fits align start =
     (if fits start then Some start
      else if start < align \<or> align = 0 then None
      else aligned_loop fits align (start - align))"
  by pat_completeness auto
termination
  by (relation "measure (\<lambda>(_, _, start). start)") auto

definition contiguous_aligned_below ::
    "nat \<Rightarrow> nat \<Rightarrow> nat \<Rightarrow> frame_allocator \<Rightarrow> nat option \<times> frame_allocator" where
  "contiguous_aligned_below count align limit_bytes fa =
     (if count = 0 \<or> align = 0 \<or> \<not> is_power_of_two align then (None, fa)
      else let top = min (limit_bytes div PAGE_SIZE) (memory_top fa)
           in if count > top then (None, fa)
              else case aligned_loop (\<lambda>s. \<forall>f \<in> {s..<s + count}. bv_clear (fa_bits fa) f) align
                          (align_down align (top - count)) of
                     None \<Rightarrow> (None, fa)
                   | Some start \<Rightarrow> (Some (start * PAGE_SIZE), use_frames start count fa))"

definition contiguous_aligned :: "nat \<Rightarrow> nat \<Rightarrow> frame_allocator \<Rightarrow> nat option \<times> frame_allocator" where
  "contiguous_aligned count align fa =
     (if count = 0 \<or> count mod 8 \<noteq> 0 \<or> align < 8 \<or> \<not> is_power_of_two align then (None, fa)
      else let top = min (memory_top fa) (fa_frames fa)
           in if count > top then (None, fa)
              else case aligned_loop
                          (\<lambda>s. \<forall>b \<in> set (slice (s div 8) ((s + count) div 8 - s div 8) (fa_bits fa)). b = 0)
                          align (align_down align (top - count)) of
                     None \<Rightarrow> (None, fa)
                   | Some start \<Rightarrow> (Some (start * PAGE_SIZE), use_frames start count fa))"

definition deallocate_contiguous :: "nat \<Rightarrow> nat \<Rightarrow> frame_allocator \<Rightarrow> frame_allocator" where
  "deallocate_contiguous base count fa =
     fold (\<lambda>i. fa_set_free (base div PAGE_SIZE + i)) [0..<count] fa"

definition allocate_contiguous_below ::
    "(nat \<Rightarrow> frame_allocator \<Rightarrow> nat \<times> frame_allocator) \<Rightarrow> nat \<Rightarrow> nat \<Rightarrow> frame_allocator \<Rightarrow>
     nat option \<times> frame_allocator" where
  "allocate_contiguous_below reclaim count limit_bytes fa =
     with_reclaim reclaim count (contiguous_below count limit_bytes) fa"

definition allocate_contiguous_aligned_below ::
    "(nat \<Rightarrow> frame_allocator \<Rightarrow> nat \<times> frame_allocator) \<Rightarrow> nat \<Rightarrow> nat \<Rightarrow> nat \<Rightarrow> frame_allocator \<Rightarrow>
     nat option \<times> frame_allocator" where
  "allocate_contiguous_aligned_below reclaim count align limit_bytes fa =
     with_reclaim reclaim count (contiguous_aligned_below count align limit_bytes) fa"

definition allocate_contiguous ::
    "(nat \<Rightarrow> frame_allocator \<Rightarrow> nat \<times> frame_allocator) \<Rightarrow> nat \<Rightarrow> frame_allocator \<Rightarrow>
     nat option \<times> frame_allocator" where
  "allocate_contiguous reclaim count fa = allocate_contiguous_below reclaim count 0 fa"

definition allocate_contiguous_aligned ::
    "(nat \<Rightarrow> frame_allocator \<Rightarrow> nat \<times> frame_allocator) \<Rightarrow> nat \<Rightarrow> nat \<Rightarrow> frame_allocator \<Rightarrow>
     nat option \<times> frame_allocator" where
  "allocate_contiguous_aligned reclaim count align fa =
     with_reclaim reclaim count (contiguous_aligned count align) fa"

text \<open>\<open>reclaim\<close> over a list of shrinkers: each is asked for what is still missing until enough is freed.\<close>

fun reclaim_from ::
    "(nat \<Rightarrow> frame_allocator \<Rightarrow> nat \<times> frame_allocator) list \<Rightarrow> nat \<Rightarrow> nat \<Rightarrow> frame_allocator \<Rightarrow>
     nat \<times> frame_allocator" where
  "reclaim_from [] want freed fa = (freed, fa)"
| "reclaim_from (s # ss) want freed fa =
     (if freed \<ge> want then (freed, fa)
      else case s (want - freed) fa of (n, fa') \<Rightarrow> reclaim_from ss want (freed + n) fa')"

definition reserve_region :: "nat \<Rightarrow> nat \<Rightarrow> frame_allocator \<Rightarrow> frame_allocator" where
  "reserve_region base len fa = mark_region_used base len fa"

definition fa_stats :: "frame_allocator \<Rightarrow> nat \<times> nat" where
  "fa_stats fa = (fa_free fa, fa_free fa * PAGE_SIZE div (1024 * 1024))"

section \<open>The firmware memory map\<close>

record memory_region =
  physical_start :: nat
  page_count :: nat
  uefi_type :: nat

definition UEFI_LOADER_CODE :: nat where "UEFI_LOADER_CODE = 1"
definition UEFI_LOADER_DATA :: nat where "UEFI_LOADER_DATA = 2"
definition UEFI_BOOT_SERVICES_CODE :: nat where "UEFI_BOOT_SERVICES_CODE = 3"
definition UEFI_BOOT_SERVICES_DATA :: nat where "UEFI_BOOT_SERVICES_DATA = 4"
definition UEFI_RUNTIME_SERVICES_CODE :: nat where "UEFI_RUNTIME_SERVICES_CODE = 5"
definition UEFI_RUNTIME_SERVICES_DATA :: nat where "UEFI_RUNTIME_SERVICES_DATA = 6"
definition UEFI_CONVENTIONAL_MEMORY :: nat where "UEFI_CONVENTIONAL_MEMORY = 7"
definition UEFI_UNUSABLE_MEMORY :: nat where "UEFI_UNUSABLE_MEMORY = 8"
definition UEFI_PAL_CODE :: nat where "UEFI_PAL_CODE = 13"
definition UEFI_PERSISTENT_MEMORY :: nat where "UEFI_PERSISTENT_MEMORY = 14"

lemmas uefi_types = UEFI_LOADER_CODE_def UEFI_LOADER_DATA_def UEFI_BOOT_SERVICES_CODE_def
  UEFI_BOOT_SERVICES_DATA_def UEFI_RUNTIME_SERVICES_CODE_def UEFI_RUNTIME_SERVICES_DATA_def
  UEFI_CONVENTIONAL_MEMORY_def UEFI_UNUSABLE_MEMORY_def UEFI_PAL_CODE_def UEFI_PERSISTENT_MEMORY_def

definition is_usable :: "memory_region \<Rightarrow> bool" where
  "is_usable r = (uefi_type r \<in> {UEFI_CONVENTIONAL_MEMORY, UEFI_BOOT_SERVICES_CODE, UEFI_BOOT_SERVICES_DATA})"

definition usable_regions :: "memory_region list \<Rightarrow> memory_region list" where
  "usable_regions rs = filter (\<lambda>r. is_usable r \<and> page_count r > 0) rs"

record firmware_map =
  fw_regions :: "memory_region list"
  fw_complete :: bool

definition sat64 :: "nat \<Rightarrow> nat" where
  "sat64 n = min n U64_MAX"

definition span :: "memory_region \<Rightarrow> nat \<times> nat \<times> nat" where
  "span r = (physical_start r, sat64 (page_count r * PAGE_SIZE), uefi_type r)"

definition is_ram_type :: "nat \<Rightarrow> bool" where
  "is_ram_type t = (t \<in> {UEFI_LOADER_CODE, UEFI_LOADER_DATA, UEFI_BOOT_SERVICES_CODE, UEFI_BOOT_SERVICES_DATA,
     UEFI_RUNTIME_SERVICES_CODE, UEFI_RUNTIME_SERVICES_DATA, UEFI_CONVENTIONAL_MEMORY, UEFI_UNUSABLE_MEMORY,
     UEFI_PAL_CODE, UEFI_PERSISTENT_MEMORY})"

text \<open>\<open>image_lo\<close> and \<open>image_hi\<close> are the addresses of the linker symbols around the kernel image.\<close>

definition is_device_window :: "nat \<Rightarrow> nat \<Rightarrow> firmware_map \<Rightarrow> nat \<Rightarrow> bool" where
  "is_device_window image_lo image_hi fw addr =
     (if addr \<ge> image_lo \<and> addr < image_hi then False
      else case find (\<lambda>(b, l, _). addr \<ge> b \<and> addr < sat64 (b + l)) (map span (fw_regions fw)) of
             Some (_, _, t) \<Rightarrow> \<not> is_ram_type t
           | None \<Rightarrow> fw_complete fw)"

definition is_firmware_device_region :: "nat \<Rightarrow> nat \<Rightarrow> firmware_map \<Rightarrow> nat \<Rightarrow> nat \<Rightarrow> bool" where
  "is_firmware_device_region image_lo image_hi fw base len =
     (let end = base + len
      in if end > U64_MAX then False
         else if base < image_hi \<and> image_lo < end then False
         else list_ex (\<lambda>(b, l, t). \<not> is_ram_type t \<and> base \<ge> b \<and> end \<le> sat64 (b + l))
                (map span (fw_regions fw)))"

definition firmware_ram_in :: "firmware_map \<Rightarrow> nat \<Rightarrow> nat \<Rightarrow> bool" where
  "firmware_ram_in fw base len =
     list_ex (\<lambda>(b, l, t). is_ram_type t \<and> b < sat64 (base + len) \<and> base < sat64 (b + l))
       (map span (fw_regions fw))"

section \<open>Setting the allocator up\<close>

definition region_end :: "memory_region \<Rightarrow> nat" where
  "region_end r = wrap64 (physical_start r + wrap64 (page_count r * PAGE_SIZE))"

definition top_frame :: "memory_region list \<Rightarrow> nat" where
  "top_frame rs = min (fold max (map (\<lambda>r. region_end r div PAGE_SIZE) (usable_regions rs)) 0) MAX_FRAMES"

definition next_multiple_of :: "nat \<Rightarrow> nat \<Rightarrow> nat" where
  "next_multiple_of n m = wrap64 ((n + m - 1) div m * m)"

text \<open>Where the bitmap of a machine with more than 64 GiB goes.\<close>

definition bitmap_home :: "memory_region list \<Rightarrow> nat \<Rightarrow> (nat \<times> nat) option" where
  "bitmap_home rs len =
     find (\<lambda>(b, e). wrap64 (b + len) \<le> e \<and> wrap64 (b + len) \<le> IDENTITY_MAX)
       (map (\<lambda>r. (next_multiple_of (max (physical_start r) 0x100000) PAGE_SIZE, region_end r))
         (filter (\<lambda>r. uefi_type r = UEFI_CONVENTIONAL_MEMORY) rs))"

definition place_bitmap :: "memory_region list \<Rightarrow> frame_allocator \<Rightarrow> (nat \<times> nat) option \<times> frame_allocator" where
  "place_bitmap rs fa =
     (let need = (top_frame rs + 7) div 8
      in if need > length (fa_bits fa)
         then let len = next_multiple_of need PAGE_SIZE
              in case bitmap_home rs len of
                   Some (base, _) \<Rightarrow> (Some (base, len), fa\<lparr>fa_bits := replicate need 0\<rparr>)
                 | None \<Rightarrow> (None, fa)
         else (None, fa))"

definition free_region :: "memory_region \<Rightarrow> frame_allocator \<Rightarrow> frame_allocator" where
  "free_region r fa =
     (let len = wrap64 (page_count r * PAGE_SIZE)
      in if len = 0 then fa else mark_region_free (physical_start r) len fa)"

definition memory_init :: "memory_region list \<Rightarrow> frame_allocator \<Rightarrow> frame_allocator \<times> firmware_map \<times> nat" where
  "memory_init rs fa =
     (case place_bitmap rs fa of (carved, fa0) \<Rightarrow>
        let fa1 = mark_all_used fa0;
            fa2 = fold free_region (usable_regions rs) fa1;
            fa3 = mark_region_used 0 0x100000 fa2;
            fa4 = (case carved of Some (base, len) \<Rightarrow> mark_region_used base len fa3 | None \<Rightarrow> fa3)
        in (fa4, \<lparr>fw_regions = rs, fw_complete = (rs \<noteq> [])\<rparr>, fa_free fa4))"

definition usable_bytes :: "nat \<Rightarrow> nat" where
  "usable_bytes usable_frames = usable_frames * PAGE_SIZE"

definition memory_top_bytes :: "frame_allocator \<Rightarrow> nat" where
  "memory_top_bytes fa = memory_top fa * PAGE_SIZE"

section \<open>The set of free frames and the allocator invariant\<close>

definition free_frames :: "frame_allocator \<Rightarrow> nat set" where
  "free_frames fa = clear_bits (fa_bits fa) (fa_frames fa)"

definition fa_inv :: "frame_allocator \<Rightarrow> bool" where
  "fa_inv fa \<longleftrightarrow> memory_top fa \<le> fa_frames fa \<and> fa_free fa = card (free_frames fa) \<and>
     (\<forall>f \<in> free_frames fa. f < memory_top fa \<and> next_byte fa \<le> f div 8)"

lemma finite_free_frames [simp]: "finite (free_frames fa)"
  by (simp add: free_frames_def)

lemma free_frames_iff: "f \<in> free_frames fa \<longleftrightarrow> f < fa_frames fa \<and> bv_clear (fa_bits fa) f"
  by (simp add: free_frames_def clear_bits_iff)

lemma fa_frames_set_free [simp]: "fa_frames (fa_set_free f fa) = fa_frames fa"
  by (simp add: fa_set_free_def fa_frames_def)

lemma fa_frames_set_used [simp]: "fa_frames (fa_set_used f fa) = fa_frames fa"
  by (simp add: fa_set_used_def fa_frames_def)

lemma memory_top_set [simp]:
  "memory_top (fa_set_free f fa) = memory_top fa" "memory_top (fa_set_used f fa) = memory_top fa"
  by (simp_all add: fa_set_free_def fa_set_used_def)

lemma free_frames_set_free:
  "free_frames (fa_set_free f fa) = (if f < fa_frames fa then insert f (free_frames fa) else free_frames fa)"
  by (auto simp: free_frames_def fa_set_free_def fa_frames_def clear_bits_unset mult.commute clear_bits_iff)

lemma free_frames_set_used: "free_frames (fa_set_used f fa) = free_frames fa - {f}"
  by (auto simp: free_frames_def fa_set_used_def fa_frames_def clear_bits_set mult.commute clear_bits_iff)

lemma fa_inv_set_used: "fa_inv fa \<Longrightarrow> fa_inv (fa_set_used f fa)"
proof -
  assume inv: "fa_inv fa"
  have "fa_free (fa_set_used f fa) = card (free_frames fa - {f})"
  proof (cases "f \<in> free_frames fa")
    case True
    then have "card (free_frames fa) > 0" by (auto simp: card_gt_0_iff)
    with True inv show ?thesis
      by (simp add: fa_set_used_def free_frames_iff fa_inv_def card_Diff_singleton)
  next
    case False
    with inv show ?thesis by (auto simp: fa_set_used_def free_frames_iff fa_inv_def)
  qed
  moreover have "next_byte (fa_set_used f fa) = next_byte fa" by (simp add: fa_set_used_def)
  ultimately show ?thesis using inv by (simp add: fa_inv_def free_frames_set_used)
qed

lemma fa_inv_set_free: "fa_inv fa \<Longrightarrow> f < memory_top fa \<Longrightarrow> fa_inv (fa_set_free f fa)"
proof -
  assume inv: "fa_inv fa" and f: "f < memory_top fa"
  then have lt: "f < fa_frames fa" by (auto simp: fa_inv_def)
  have "fa_free (fa_set_free f fa) = card (insert f (free_frames fa))"
    using inv lt by (cases "f \<in> free_frames fa")
      (auto simp: fa_set_free_def free_frames_iff fa_inv_def insert_absorb)
  moreover have "\<forall>g \<in> insert f (free_frames fa). next_byte (fa_set_free f fa) \<le> g div 8"
    using inv lt by (auto simp: fa_set_free_def free_frames_iff fa_inv_def)
  ultimately show ?thesis using inv f lt by (auto simp: fa_inv_def free_frames_set_free)
qed

lemma fold_set_used:
  "free_frames (fold fa_set_used fs fa) = free_frames fa - set fs \<and>
   fa_frames (fold fa_set_used fs fa) = fa_frames fa \<and>
   memory_top (fold fa_set_used fs fa) = memory_top fa \<and>
   (fa_inv fa \<longrightarrow> fa_inv (fold fa_set_used fs fa))"
  by (induction fs arbitrary: fa) (auto simp: free_frames_set_used fa_inv_set_used)

lemma use_frames_fold: "use_frames start count fa = fold fa_set_used [start..<start + count] fa"
proof -
  have "map (\<lambda>i. start + i) [0..<count] = [start..<start + count]"
    by (induction count) (auto simp: ac_simps)
  then show ?thesis by (metis (no_types, lifting) comp_apply fold_map ext use_frames_def)
qed

lemma use_frames:
  "free_frames (use_frames start count fa) = free_frames fa - {start..<start + count}"
  "fa_frames (use_frames start count fa) = fa_frames fa"
  "memory_top (use_frames start count fa) = memory_top fa"
  "fa_inv fa \<Longrightarrow> fa_inv (use_frames start count fa)"
  using fold_set_used [of "[start..<start + count]" fa] by (simp_all add: use_frames_fold)

section \<open>One frame\<close>

lemma trailing_ones_open:
  assumes "b \<noteq> 0xFF"
  shows "trailing_ones b < 8" and "\<not> bit b (trailing_ones b)"
    and "j < trailing_ones b \<Longrightarrow> bit b j"
proof -
  have "\<exists>i < 8. \<not> bit b i"
  proof (rule ccontr)
    assume "\<not> (\<exists>i < 8. \<not> bit b i)"
    then have "b = mask 8" by (intro bit_eqI) (auto simp: bit_mask_iff)
    then show False using assms by (simp add: mask_eq_exp_minus_1)
  qed
  then have "position (\<lambda>i. \<not> bit b i) [0..<8] \<noteq> None" by (auto simp: position_None_iff)
  then obtain i where i: "position (\<lambda>i. \<not> bit b i) [0..<8] = Some i" by blast
  note p = position_SomeD [OF i]
  have l: "i < 8" using p by (simp only: length_upt) simp
  have id: "[0..<8] ! j = j" if "j \<le> i" for j
    using that l by (subst nth_upt) simp_all
  have "trailing_ones b = i" by (simp add: trailing_ones_def i)
  moreover have "\<not> bit b i" using p id [of i] by (metis order_refl)
  moreover have "bit b j" if "j < i" for j using p id [of j] that by (metis less_imp_le)
  ultimately show "trailing_ones b < 8" and "\<not> bit b (trailing_ones b)"
    and "j < trailing_ones b \<Longrightarrow> bit b j" using l by simp_all
qed

lemma full_byte_no_free: "fa_bits fa ! i = 0xFF \<Longrightarrow> f div 8 = i \<Longrightarrow> f \<notin> free_frames fa"
proof -
  assume "fa_bits fa ! i = 0xFF" and "f div 8 = i"
  moreover have "bit (0xFF :: u8) (f mod 8)"
  proof -
    have "bit (mask 8 :: u8) (f mod 8)" by (simp only: bit_mask_iff) simp
    moreover have "(mask 8 :: u8) = 0xFF" by (simp add: mask_eq_exp_minus_1)
    ultimately show ?thesis by (simp only:)
  qed
  ultimately show ?thesis by (simp add: free_frames_iff bv_clear_iff)
qed

lemma find_upt_Some:
  assumes "find P [a..<b] = Some i"
  shows "a \<le> i" "i < b" "P i" "\<And>j. a \<le> j \<Longrightarrow> j < i \<Longrightarrow> \<not> P j"
proof -
  from assms obtain k where k: "k < b - a" "P (a + k)" "i = a + k" "\<forall>j < k. \<not> P (a + j)"
    by (auto simp: find_Some_iff)
  then show "a \<le> i" "i < b" "P i" by simp_all
  fix j assume "a \<le> j" "j < i"
  then have "j - a < k" using k(3) by simp
  with k(4) have "\<not> P (a + (j - a))" by blast
  with \<open>a \<le> j\<close> show "\<not> P j" by simp
qed

lemma find_upt_None: "find P [a..<b] = None \<longleftrightarrow> (\<forall>j. a \<le> j \<and> j < b \<longrightarrow> \<not> P j)"
  by (auto simp: find_None_iff)

lemma free_frame_byte:
  assumes "fa_inv fa" and "g \<in> free_frames fa"
  shows "next_byte fa \<le> g div 8" "g div 8 < min ((memory_top fa + 7) div 8) (length (fa_bits fa))"
    "fa_bits fa ! (g div 8) \<noteq> 0xFF"
proof -
  show "next_byte fa \<le> g div 8" using assms by (simp add: fa_inv_def)
  have "g < memory_top fa" "g < length (fa_bits fa) * 8"
    using assms by (auto simp: fa_inv_def free_frames_iff fa_frames_def)
  then show "g div 8 < min ((memory_top fa + 7) div 8) (length (fa_bits fa))" by auto
  show "fa_bits fa ! (g div 8) \<noteq> 0xFF" using full_byte_no_free assms(2) by blast
qed

lemma fa_allocate_cases:
  assumes "fa_inv fa"
  shows "(free_frames fa = {} \<and> (\<exists>n. fa_allocate fa = (None, fa\<lparr>next_byte := n\<rparr>))) \<or>
    (\<exists>f. f \<in> free_frames fa \<and> (\<forall>g \<in> free_frames fa. f \<le> g) \<and>
       fa_allocate fa = (Some (f * PAGE_SIZE),
         fa\<lparr>next_byte := f div 8, fa_bits := bv_set (fa_bits fa) f, fa_free := fa_free fa - 1\<rparr>))"
proof -
  let ?top = "min ((memory_top fa + 7) div 8) (length (fa_bits fa))"
  show ?thesis
  proof (cases "first_open_byte fa ?top")
    case None
    then have "free_frames fa = {}"
      using free_frame_byte [OF assms] unfolding first_open_byte_def find_upt_None by blast
    with None show ?thesis by (auto simp: fa_allocate_def Let_def)
  next
    case (Some i)
    from find_upt_Some [OF this [unfolded first_open_byte_def]]
    have i: "next_byte fa \<le> i" "i < ?top" and open_i: "fa_bits fa ! i \<noteq> 0xFF"
      and before: "\<And>j. next_byte fa \<le> j \<Longrightarrow> j < i \<Longrightarrow> fa_bits fa ! j = 0xFF" by auto
    define t where "t = trailing_ones (fa_bits fa ! i)"
    note t = trailing_ones_open [OF open_i, folded t_def]
    let ?f = "i * 8 + t"
    have fd: "?f div 8 = i" "?f mod 8 = t" using t(1) by simp_all
    have "?f < fa_frames fa" using i(2) t(1) by (simp add: fa_frames_def)
    moreover have "bv_clear (fa_bits fa) ?f" unfolding bv_clear_iff fd using t(2) .
    ultimately have free: "?f \<in> free_frames fa" by (simp add: free_frames_iff)
    have least: "?f \<le> g" if g: "g \<in> free_frames fa" for g
    proof -
      have "\<not> g div 8 < i"
        using free_frame_byte(1,3) [OF assms g] before by blast
      moreover have "t \<le> g mod 8" if "g div 8 = i"
      proof (rule ccontr)
        assume "\<not> t \<le> g mod 8"
        then have "bit (fa_bits fa ! i) (g mod 8)" by (intro t(3)) simp
        with that g show False by (simp add: free_frames_iff bv_clear_iff)
      qed
      moreover have "g = 8 * (g div 8) + g mod 8" by simp
      ultimately show ?thesis using t(1) by (cases "g div 8 = i") linarith+
    qed
    have "?f < memory_top fa" using assms free by (simp add: fa_inv_def)
    then have "fa_allocate fa = (Some (?f * PAGE_SIZE),
         fa\<lparr>next_byte := ?f div 8, fa_bits := bv_set (fa_bits fa) ?f, fa_free := fa_free fa - 1\<rparr>)"
      using Some fd by (simp add: fa_allocate_def Let_def t_def)
    with free least show ?thesis by blast
  qed
qed

lemma fa_allocate_Some:
  assumes "fa_inv fa" and "fa_allocate fa = (Some a, fa')"
  obtains f where "a = f * PAGE_SIZE" "f \<in> free_frames fa" "\<forall>g \<in> free_frames fa. f \<le> g"
    "free_frames fa' = free_frames fa - {f}" "fa_frames fa' = fa_frames fa"
    "memory_top fa' = memory_top fa" "fa_inv fa'"
proof -
  from fa_allocate_cases [OF assms(1)] assms(2) obtain f where f: "a = f * PAGE_SIZE" "f \<in> free_frames fa"
      "\<forall>g \<in> free_frames fa. f \<le> g"
    and fa': "fa' = fa\<lparr>next_byte := f div 8, fa_bits := bv_set (fa_bits fa) f, fa_free := fa_free fa - 1\<rparr>"
    by auto
  have frames: "fa_frames fa' = fa_frames fa" by (simp add: fa' fa_frames_def)
  have lt: "f < 8 * length (fa_bits fa)" using f(2) by (simp add: free_frames_iff fa_frames_def)
  have free': "free_frames fa' = free_frames fa - {f}"
    using lt by (simp add: free_frames_def fa' fa_frames_def clear_bits_set)
  moreover have "fa_inv fa'"
    using assms(1) f(2,3) frames
    by (auto simp: fa_inv_def free' card_Diff_singleton) (simp_all add: fa' fa_inv_def div_le_mono)
  moreover have "memory_top fa' = memory_top fa" by (simp add: fa')
  ultimately show ?thesis using that [OF f] frames by blast
qed

lemma fa_allocate_None:
  assumes "fa_inv fa" and "fa_allocate fa = (None, fa')"
  shows "free_frames fa = {}" "free_frames fa' = {}" "fa_inv fa'"
proof -
  from fa_allocate_cases [OF assms(1)] assms(2) obtain n where e: "free_frames fa = {}"
    and fa': "fa' = fa\<lparr>next_byte := n\<rparr>" by auto
  show "free_frames fa = {}" by (rule e)
  then show "free_frames fa' = {}" by (simp add: fa' free_frames_def fa_frames_def)
  with e show "fa_inv fa'" using assms(1) by (simp add: fa_inv_def fa' fa_frames_def)
qed

lemma fa_allocate_ready: "fa_inv fa \<Longrightarrow> fa_free fa > 0 \<Longrightarrow> \<exists>a fa'. fa_allocate fa = (Some a, fa')"
  using fa_allocate_cases [of fa] by (auto simp: fa_inv_def)

lemma allocate_frame_ready:
  "fa_inv fa \<Longrightarrow> fa_free fa > 0 \<Longrightarrow> allocate_frame rc fa = fa_allocate fa"
  using fa_allocate_ready [of fa] by (auto simp: allocate_frame_def with_reclaim_def)

section \<open>Contiguous runs\<close>

definition clear_run :: "bytes \<Rightarrow> nat \<Rightarrow> nat \<Rightarrow> bool" where
  "clear_run bits start count \<longleftrightarrow> (\<forall>f \<in> {start..<start + count}. bv_clear bits f)"

lemma clear_run_find:
  "find (\<lambda>i. \<not> bv_clear bits (start + i)) [0..<count] = None \<longleftrightarrow> clear_run bits start count"
  unfolding find_upt_None clear_run_def
  by (metis add_diff_inverse_nat atLeastLessThan_iff le0 le_add1 nat_add_left_cancel_less not_le)

lemma run_across_used: "\<not> bv_clear bits f \<Longrightarrow> r \<le> f \<Longrightarrow> f < r + count \<Longrightarrow> \<not> clear_run bits r count"
  by (auto simp: clear_run_def)

declare below_loop.simps [simp del] and aligned_loop.simps [simp del]

text \<open>The downward search finds the highest clear run: a used frame rules out every start whose run
  covers it, so the jump below it loses nothing.\<close>

lemma below_loop_result:
  "(case below_loop bits count s of
      None \<Rightarrow> \<forall>r \<le> s. \<not> clear_run bits r count
    | Some r \<Rightarrow> r \<le> s \<and> clear_run bits r count \<and> (\<forall>r'. r < r' \<and> r' \<le> s \<longrightarrow> \<not> clear_run bits r' count))"
proof (induction bits count s rule: below_loop.induct)
  case (1 bits count s)
  show ?case
  proof (cases "find (\<lambda>i. \<not> bv_clear bits (s + i)) [0..<count]")
    case None
    then have "below_loop bits count s = Some s" by (subst below_loop.simps) simp
    with None show ?thesis by (auto simp: clear_run_find)
  next
    case (Some i)
    from find_upt_Some [OF Some] have i: "i < count" and used: "\<not> bv_clear bits (s + i)" by auto
    let ?f = "s + i" and ?skip = "if s + i > count then s + i - count else 0"
    let ?n = "if ?skip \<ge> s then s - 1 else ?skip"
    have gap: "\<not> clear_run bits r count" if "?n < r" "r \<le> s" for r
      using that i by (intro run_across_used [OF used]) (auto split: if_splits)
    show ?thesis
    proof (cases "s = 0")
      case True
      then have "below_loop bits count s = None"
        using Some by (subst below_loop.simps) simp
      moreover have "\<not> clear_run bits 0 count" using used i True by (intro run_across_used [of bits i]) auto
      ultimately show ?thesis using True by simp
    next
      case False
      then have eq: "below_loop bits count s = below_loop bits count ?n"
        by (subst below_loop.simps) (simp add: Some Let_def)
      have IH: "case below_loop bits count ?n of
          None \<Rightarrow> \<forall>r \<le> ?n. \<not> clear_run bits r count
        | Some r \<Rightarrow> r \<le> ?n \<and> clear_run bits r count \<and> (\<forall>r'. r < r' \<and> r' \<le> ?n \<longrightarrow> \<not> clear_run bits r' count)"
      proof (cases "?skip \<ge> s")
        case True
        from 1(1) [OF Some False refl refl True] show ?thesis unfolding if_P [OF True] .
      next
        case nskip: False
        from 1(2) [OF Some False refl refl nskip] show ?thesis unfolding if_not_P [OF nskip] .
      qed
      define n where "n = ?n"
      have le: "n \<le> s" by (auto simp: n_def)
      have dich: "r \<le> n \<or> n < r" for r by auto
      from le IH gap dich show ?thesis unfolding eq n_def [symmetric]
        by (cases "below_loop bits count n") (simp_all, (meson order_trans)+)
    qed
  qed
qed

lemma aligned_loop_result:
  "0 < align \<Longrightarrow>
   (case aligned_loop fits align s of
      None \<Rightarrow> \<forall>r \<le> s. r mod align = s mod align \<longrightarrow> \<not> fits r
    | Some r \<Rightarrow> r \<le> s \<and> r mod align = s mod align \<and> fits r)"
proof (induction fits align s rule: aligned_loop.induct)
  case (1 fits align s)
  consider "fits s" | "\<not> fits s" "s < align" | "\<not> fits s" "\<not> s < align" by blast
  then show ?case
  proof cases
    case 1
    then show ?thesis by (subst aligned_loop.simps) simp
  next
    case 2
    then have "r = s" if "r \<le> s" "r mod align = s mod align" for r
      using that by simp
    with 2 show ?thesis by (subst aligned_loop.simps) auto
  next
    case 3
    then have eq: "aligned_loop fits align s = aligned_loop fits align (s - align)"
      using "1.prems" by (subst aligned_loop.simps) simp
    have m: "(s - align) mod align = s mod align" using 3(2) by (metis le_mod_geq linorder_not_le)
    have low: "r \<le> s - align" if "r \<le> s" "r mod align = s mod align" "r \<noteq> s" for r
    proof -
      have "align dvd s - r" using that(1,2) by (metis mod_eq_dvd_iff_nat)
      moreover have "0 < s - r" using that by simp
      ultimately have "align \<le> s - r" by (rule dvd_imp_le)
      then show ?thesis using that(1) 3(2) by simp
    qed
    from 1 3 have "case aligned_loop fits align (s - align) of
        None \<Rightarrow> \<forall>r \<le> s - align. r mod align = (s - align) mod align \<longrightarrow> \<not> fits r
      | Some r \<Rightarrow> r \<le> s - align \<and> r mod align = (s - align) mod align \<and> fits r" by simp
    then show ?thesis using 3(1) low unfolding eq m by (auto split: option.splits)
  qed
qed

lemma clear_run_free:
  "start + count \<le> fa_frames fa \<Longrightarrow>
     clear_run (fa_bits fa) start count \<longleftrightarrow> {start..<start + count} \<subseteq> free_frames fa"
  unfolding clear_run_def by (auto simp: free_frames_iff)

lemma free_run_below_top:
  "fa_inv fa \<Longrightarrow> {s..<s + count} \<subseteq> free_frames fa \<Longrightarrow> 0 < count \<Longrightarrow> s + count \<le> memory_top fa"
proof -
  assume "fa_inv fa" "{s..<s + count} \<subseteq> free_frames fa" "0 < count"
  then have "s + count - 1 \<in> free_frames fa" by auto
  then have "s + count - 1 < memory_top fa" using \<open>fa_inv fa\<close> by (auto simp: fa_inv_def)
  then show ?thesis by simp
qed

lemma le_div_page: "(s + count \<le> limit div PAGE_SIZE) = ((s + count) * PAGE_SIZE \<le> limit)"
  by (simp add: PAGE_SIZE_def less_eq_div_iff_mult_less_eq)

lemma zero_byte_clear: "b div 8 = i \<Longrightarrow> d ! i = 0 \<Longrightarrow> bv_clear d b"
  by (simp add: bv_clear_iff)

lemma clear_byte_zero:
  assumes "\<And>j. j < 8 \<Longrightarrow> bv_clear d (8 * i + j)"
  shows "d ! i = 0"
proof (rule bit_eqI)
  fix n assume "possible_bit TYPE(u8) n"
  then have n: "n < 8" by simp
  then have "bv_clear d (8 * i + n)" by (rule assms)
  moreover have "(8 * i + n) div 8 = i" "(8 * i + n) mod 8 = n" using n by simp_all
  ultimately show "bit (d ! i) n \<longleftrightarrow> bit (0 :: u8) n" unfolding bv_clear_iff by simp
qed

lemma zero_bytes_clear_run:
  assumes "8 dvd s" and "8 dvd count" and "s + count \<le> 8 * length d"
  shows "(\<forall>b \<in> set (slice (s div 8) ((s + count) div 8 - s div 8) d). b = 0) \<longleftrightarrow> clear_run d s count"
proof -
  obtain a n where s: "s = 8 * a" and c: "count = 8 * n" using assms by (auto elim!: dvdE)
  have len: "a + n \<le> length d" using assms(3) s c by simp
  have sl: "(s + count) div 8 - s div 8 = n" "s div 8 = a" using s c by simp_all
  have "(\<forall>b \<in> set (slice a n d). b = 0) \<longleftrightarrow> (\<forall>i < n. d ! (a + i) = 0)"
    using len by (simp add: all_set_conv_all_nth nth_slice)
  also have "\<dots> \<longleftrightarrow> clear_run d s count"
  proof
    assume z: "\<forall>i < n. d ! (a + i) = 0"
    show "clear_run d s count"
      unfolding clear_run_def
    proof
      fix f assume "f \<in> {s..<s + count}"
      then have f: "a \<le> f div 8" "f div 8 < a + n" using s c by auto
      then have "d ! (a + (f div 8 - a)) = 0" using z by (metis add_diff_inverse_nat add_less_cancel_left linorder_not_less)
      then have "d ! (f div 8) = 0" using f(1) by simp
      then show "bv_clear d f" by (rule zero_byte_clear [OF refl])
    qed
  next
    assume run: "clear_run d s count"
    show "\<forall>i < n. d ! (a + i) = 0"
    proof (intro allI impI, rule clear_byte_zero)
      fix i j :: nat assume "i < n" "j < 8"
      then have "8 * (a + i) + j \<in> {s..<s + count}" using s c by auto
      then show "bv_clear d (8 * (a + i) + j)" using run by (auto simp: clear_run_def)
    qed
  qed
  finally show ?thesis unfolding sl(1) unfolding sl(2) .
qed

lemma power_of_two_dvd: "is_power_of_two align \<Longrightarrow> 8 \<le> align \<Longrightarrow> 8 dvd align"
proof -
  assume "is_power_of_two align" "8 \<le> align"
  then obtain k where k: "align = 2 ^ k" by (auto simp: is_power_of_two_def)
  have "3 \<le> k"
  proof (rule ccontr)
    assume "\<not> 3 \<le> k"
    then have "k \<le> 2" by simp
    then have "align \<le> 2 ^ 2" unfolding k by (intro power_increasing) auto
    with \<open>8 \<le> align\<close> show False by simp
  qed
  then have "(2 :: nat) ^ 3 dvd 2 ^ k" by (rule le_imp_power_dvd)
  then show ?thesis by (simp add: k)
qed

lemma align_down: "0 < align \<Longrightarrow> align_down align x mod align = 0" "align_down align x \<le> x"
    "0 < align \<Longrightarrow> r \<le> x \<Longrightarrow> r mod align = 0 \<Longrightarrow> r \<le> align_down align x"
proof -
  show "align_down align x \<le> x" by (simp add: align_down_def)
  have eq: "align_down align x = align * (x div align)"
    by (simp add: align_down_def minus_mod_eq_mult_div)
  show "align_down align x mod align = 0" by (simp add: eq)
  assume "r \<le> x" "r mod align = 0" "0 < align"
  then have "r = align * (r div align)" by auto
  moreover have "r div align \<le> x div align" using \<open>r \<le> x\<close> by (rule div_le_mono)
  ultimately show "r \<le> align_down align x" unfolding eq by (metis mult_le_mono2)
qed

lemma run_used:
  assumes "fa_inv fa" and "s + count \<le> memory_top fa" and "clear_run (fa_bits fa) s count"
  shows "{s..<s + count} \<subseteq> free_frames fa"
  using assms clear_run_free [of s count fa] by (auto simp: fa_inv_def)

lemma contiguous_below_result:
  assumes "fa_inv fa" and "contiguous_below count limit fa = (res, fa')" and "0 < count"
  shows "case res of
      Some a \<Rightarrow> \<exists>s. a = s * PAGE_SIZE \<and> {s..<s + count} \<subseteq> free_frames fa \<and>
        (limit > 0 \<longrightarrow> (s + count) * PAGE_SIZE \<le> limit) \<and>
        free_frames fa' = free_frames fa - {s..<s + count} \<and> fa_inv fa'
    | None \<Rightarrow> fa' = fa \<and>
        (\<nexists>s. {s..<s + count} \<subseteq> free_frames fa \<and> (limit > 0 \<longrightarrow> (s + count) * PAGE_SIZE \<le> limit))"
proof -
  define top where "top = (if limit > 0 then min (limit div PAGE_SIZE) (memory_top fa) else memory_top fa)"
  have within: "s + count \<le> top \<longleftrightarrow> s + count \<le> memory_top fa \<and> (limit > 0 \<longrightarrow> (s + count) * PAGE_SIZE \<le> limit)" for s
    by (simp add: top_def le_div_page) blast
  have run: "clear_run (fa_bits fa) s count \<longleftrightarrow> {s..<s + count} \<subseteq> free_frames fa" if "s + count \<le> top" for s
    using that within assms(1) by (intro clear_run_free) (auto simp: fa_inv_def)
  show ?thesis
  proof (cases "count > top")
    case True
    then have "res = None" "fa' = fa"
      using assms(2,3) by (auto simp: contiguous_below_def Let_def top_def split: if_splits)
    moreover have "\<not> ({s..<s + count} \<subseteq> free_frames fa \<and> (limit > 0 \<longrightarrow> (s + count) * PAGE_SIZE \<le> limit))" for s
      using within [of s] free_run_below_top [OF assms(1) _ assms(3)] True by (meson le_add2 leD order_trans)
    ultimately show ?thesis by simp
  next
    case False
    have eq: "contiguous_below count limit fa = (case below_loop (fa_bits fa) count (top - count) of
        None \<Rightarrow> (None, fa) | Some start \<Rightarrow> (Some (start * PAGE_SIZE), use_frames start count fa))"
      using False assms(3) by (simp add: contiguous_below_def Let_def top_def)
    note bl = below_loop_result [where bits = "fa_bits fa" and count = count and s = "top - count"]
    have fits: "s \<le> top - count \<longleftrightarrow> s + count \<le> top" for s using False by auto
    show ?thesis
    proof (cases "below_loop (fa_bits fa) count (top - count)")
      case None
      then have "\<not> ({s..<s + count} \<subseteq> free_frames fa \<and> (limit > 0 \<longrightarrow> (s + count) * PAGE_SIZE \<le> limit))" for s
        using bl within [of s] run [of s] fits [of s] free_run_below_top [OF assms(1) _ assms(3), of s] by auto
      then show ?thesis using None assms(2) eq by auto
    next
      case (Some s)
      then have "s + count \<le> top" "clear_run (fa_bits fa) s count" using bl fits by auto
      then show ?thesis using Some assms(1,2) eq run within use_frames [where start = s and count = count and fa = fa] by auto
    qed
  qed
qed

lemma contiguous_aligned_below_result:
  assumes "fa_inv fa" and "contiguous_aligned_below count align limit fa = (res, fa')"
    and "0 < count" and "is_power_of_two align"
  shows "case res of
      Some a \<Rightarrow> \<exists>s. a = s * PAGE_SIZE \<and> s mod align = 0 \<and> {s..<s + count} \<subseteq> free_frames fa \<and>
        (s + count) * PAGE_SIZE \<le> limit \<and>
        free_frames fa' = free_frames fa - {s..<s + count} \<and> fa_inv fa'
    | None \<Rightarrow> fa' = fa \<and>
        (\<nexists>s. s mod align = 0 \<and> {s..<s + count} \<subseteq> free_frames fa \<and> (s + count) * PAGE_SIZE \<le> limit)"
proof -
  define top where "top = min (limit div PAGE_SIZE) (memory_top fa)"
  have al: "0 < align" using assms(4) by (auto simp: is_power_of_two_def)
  have within: "s + count \<le> top \<longleftrightarrow> s + count \<le> memory_top fa \<and> (s + count) * PAGE_SIZE \<le> limit" for s
    by (simp add: top_def le_div_page) blast
  let ?fits = "\<lambda>s. \<forall>f \<in> {s..<s + count}. bv_clear (fa_bits fa) f"
  have run: "?fits s \<longleftrightarrow> {s..<s + count} \<subseteq> free_frames fa" if "s + count \<le> top" for s
    using clear_run_free [of s count fa] that within [of s] assms(1) unfolding clear_run_def
    by (auto simp: fa_inv_def)
  show ?thesis
  proof (cases "count > top")
    case True
    then have "res = None" "fa' = fa"
      using assms(2-4) al by (auto simp: contiguous_aligned_below_def Let_def top_def split: if_splits)
    moreover have "\<not> ({s..<s + count} \<subseteq> free_frames fa \<and> (s + count) * PAGE_SIZE \<le> limit)" for s
      using within [of s] free_run_below_top [OF assms(1) _ assms(3)] True by (meson le_add2 leD order_trans)
    ultimately show ?thesis by auto
  next
    case False
    let ?s0 = "align_down align (top - count)"
    have eq: "contiguous_aligned_below count align limit fa = (case aligned_loop ?fits align ?s0 of
        None \<Rightarrow> (None, fa) | Some start \<Rightarrow> (Some (start * PAGE_SIZE), use_frames start count fa))"
      using False assms(3,4) al by (simp add: contiguous_aligned_below_def Let_def top_def)
    note res = aligned_loop_result [OF al, where fits = ?fits and s = ?s0]
    note ad = align_down(1) [OF al, of "top - count"] align_down(2) [of align "top - count"]
      align_down(3) [OF al, of _ "top - count"]
    have fits: "s \<le> ?s0 \<longleftrightarrow> s + count \<le> top" if "s mod align = 0" for s
      using ad that False by (metis add_le_imp_le_diff le_diff_conv2 leI order_trans)
    show ?thesis
    proof (cases "aligned_loop ?fits align ?s0")
      case None
      then have "\<not> (s mod align = 0 \<and> {s..<s + count} \<subseteq> free_frames fa \<and> (s + count) * PAGE_SIZE \<le> limit)" for s
        using res within [of s] run [of s] fits [of s] ad(1)
          free_run_below_top [OF assms(1) _ assms(3), of s] by auto
      then show ?thesis using None assms(2) eq by auto
    next
      case (Some s)
      then have s: "s mod align = 0" "s + count \<le> top" "?fits s" using res fits ad(1) by auto
      then have "{s..<s + count} \<subseteq> free_frames fa" "(s + count) * PAGE_SIZE \<le> limit" using run within by blast+
      moreover have "res = Some (s * PAGE_SIZE)" "fa' = use_frames s count fa" using Some assms(2) eq by auto
      ultimately show ?thesis using s(1) use_frames [where start = s and count = count and fa = fa] assms(1)
        by (simp only: option.case) (rule exI [of _ s], simp)
    qed
  qed
qed

lemma PAGE_SIZE_pos [simp]: "0 < PAGE_SIZE" "PAGE_SIZE \<noteq> 0"
  by (simp_all add: PAGE_SIZE_def)

lemma aligned_loop_cong:
  "(\<And>r. r \<le> s \<Longrightarrow> r mod align = s mod align \<Longrightarrow> f r = g r) \<Longrightarrow>
     aligned_loop f align s = aligned_loop g align s"
proof (induction f align s rule: aligned_loop.induct)
  case (1 f align s)
  show ?case
  proof (cases "f s \<or> s < align \<or> align = 0")
    case True
    then show ?thesis using "1.prems" [of s]
      by (subst (1 2) aligned_loop.simps) auto
  next
    case False
    then have m: "(s - align) mod align = s mod align" by (metis le_mod_geq linorder_not_le)
    have "aligned_loop f align (s - align) = aligned_loop g align (s - align)"
      using False "1.prems" m by (intro "1.IH") auto
    then show ?thesis using False "1.prems" [of s] by (subst (1 2) aligned_loop.simps) auto
  qed
qed

text \<open>The byte-wise search of \<open>contiguous_aligned\<close> is the frame-wise one without a limit.\<close>

lemma contiguous_aligned_eq:
  assumes "fa_inv fa" and "8 dvd count" and "8 \<le> align" and "is_power_of_two align"
  shows "contiguous_aligned count align fa =
    contiguous_aligned_below count align (memory_top fa * PAGE_SIZE) fa"
proof (cases "count = 0 \<or> count > memory_top fa")
  case True
  then show ?thesis using assms
    by (auto simp: contiguous_aligned_def contiguous_aligned_below_def PAGE_SIZE_def fa_inv_def min_def)
next
  case False
  let ?s0 = "align_down align (memory_top fa - count)"
  have al: "0 < align" using assms(3) by simp
  have top: "min (memory_top fa) (fa_frames fa) = memory_top fa"
    "min (memory_top fa * PAGE_SIZE div PAGE_SIZE) (memory_top fa) = memory_top fa"
    using assms(1) by (simp_all add: fa_inv_def PAGE_SIZE_def)
  have "aligned_loop (\<lambda>s. \<forall>b \<in> set (slice (s div 8) ((s + count) div 8 - s div 8) (fa_bits fa)). b = 0) align ?s0
      = aligned_loop (\<lambda>s. \<forall>f \<in> {s..<s + count}. bv_clear (fa_bits fa) f) align ?s0"
  proof (rule aligned_loop_cong)
    fix r assume r: "r \<le> ?s0" "r mod align = ?s0 mod align"
    then have "align dvd r" using align_down(1) [OF al] by auto
    then have "8 dvd r" using power_of_two_dvd [OF assms(4,3)] by (rule dvd_trans [rotated])
    moreover have "r + count \<le> 8 * length (fa_bits fa)"
      using r(1) align_down(2) [of align "memory_top fa - count"] False assms(1)
      unfolding fa_inv_def fa_frames_def by linarith
    ultimately show "(\<forall>b \<in> set (slice (r div 8) ((r + count) div 8 - r div 8) (fa_bits fa)). b = 0) =
        (\<forall>f \<in> {r..<r + count}. bv_clear (fa_bits fa) f)"
      using zero_bytes_clear_run [of r count "fa_bits fa"] assms(2) by (simp add: clear_run_def)
  qed
  moreover have "count mod 8 = 0" using assms(2) by simp
  ultimately show ?thesis using False al assms(3,4)
    by (simp add: contiguous_aligned_def contiguous_aligned_below_def Let_def top)
qed

section \<open>Set-up from the firmware map\<close>

lemma fa_inv_free_step:
  assumes "fa_inv fa" and "f < fa_frames fa"
  shows "fa_inv (free_step f fa)" "free_frames (free_step f fa) = insert f (free_frames fa)"
    "fa_frames (free_step f fa) = fa_frames fa"
proof -
  show frames: "fa_frames (free_step f fa) = fa_frames fa"
    by (simp add: free_step_def Let_def) (simp add: fa_frames_def fa_set_free_def)
  show free: "free_frames (free_step f fa) = insert f (free_frames fa)"
  proof -
    have "free_frames (free_step f fa) = free_frames (fa_set_free f fa)"
      by (simp add: free_step_def Let_def free_frames_def fa_frames_def)
    then show ?thesis using assms(2) by (simp add: free_frames_set_free)
  qed
  have "fa_free (free_step f fa) = card (insert f (free_frames fa))"
    using assms by (cases "f \<in> free_frames fa")
      (auto simp: free_step_def Let_def fa_set_free_def free_frames_iff fa_inv_def insert_absorb)
  moreover have "\<forall>g \<in> insert f (free_frames fa). next_byte (free_step f fa) \<le> g div 8 \<and> g < memory_top (free_step f fa)"
    using assms by (auto simp: free_step_def Let_def fa_set_free_def free_frames_iff fa_inv_def less_Suc_eq)
  moreover have "memory_top (free_step f fa) \<le> fa_frames fa"
    using assms by (auto simp: free_step_def Let_def fa_inv_def)
  ultimately show "fa_inv (free_step f fa)" unfolding fa_inv_def free frames by blast
qed

lemma fold_free_step:
  "fa_inv fa \<Longrightarrow> \<forall>f \<in> set fs. f < fa_frames fa \<Longrightarrow>
     fa_inv (fold free_step fs fa) \<and> free_frames (fold free_step fs fa) = free_frames fa \<union> set fs \<and>
     fa_frames (fold free_step fs fa) = fa_frames fa"
  by (induction fs arbitrary: fa) (auto simp: fa_inv_free_step)

lemma mark_all_used:
  assumes "memory_top fa = 0"
  shows "fa_inv (mark_all_used fa)" "free_frames (mark_all_used fa) = {}"
proof -
  show e: "free_frames (mark_all_used fa) = {}"
    using bv_clear_ones [of _ "length (fa_bits fa)"]
    by (auto simp: free_frames_iff mark_all_used_def fa_frames_def mult.commute)
  show "fa_inv (mark_all_used fa)" unfolding fa_inv_def e using assms by (simp add: mark_all_used_def)
qed

text \<open>A page lies wholly in a region; a page touches a byte range.\<close>

definition page_in :: "memory_region \<Rightarrow> nat \<Rightarrow> bool" where
  "page_in r f \<longleftrightarrow> physical_start r \<le> f * PAGE_SIZE \<and>
     (f + 1) * PAGE_SIZE \<le> physical_start r + page_count r * PAGE_SIZE"

definition page_touches :: "nat \<Rightarrow> nat \<Rightarrow> nat \<Rightarrow> bool" where
  "page_touches base len f \<longleftrightarrow> f * PAGE_SIZE < base + len \<and> base < (f + 1) * PAGE_SIZE"

definition region_ok :: "memory_region \<Rightarrow> bool" where
  "region_ok r \<longleftrightarrow> physical_start r + page_count r * PAGE_SIZE \<le> 2 ^ 52"

lemma round_up_le: "(base + PAGE_SIZE - 1) div PAGE_SIZE \<le> f \<longleftrightarrow> base \<le> f * PAGE_SIZE"
proof -
  have "(base + PAGE_SIZE - 1) div PAGE_SIZE < Suc f \<longleftrightarrow> base + PAGE_SIZE - 1 < Suc f * PAGE_SIZE"
    by (rule div_less_iff_less_mult) simp
  then show ?thesis by (auto simp: less_Suc_eq_le)
qed

lemma less_round_down: "f < x div PAGE_SIZE \<longleftrightarrow> (f + 1) * PAGE_SIZE \<le> x"
  using less_eq_div_iff_mult_less_eq [of PAGE_SIZE "Suc f" x] by (simp add: Suc_le_eq)

lemma less_round_up: "f < (x + PAGE_SIZE - 1) div PAGE_SIZE \<longleftrightarrow> f * PAGE_SIZE < x"
  using round_up_le [of x f] by (meson linorder_not_less)

lemma round_down_le: "x div PAGE_SIZE \<le> f \<longleftrightarrow> x < (f + 1) * PAGE_SIZE"
  using less_round_down [of f x] by (meson linorder_not_less)

lemma mark_region_free:
  assumes "fa_inv fa" and "0 < len" and "base + len \<le> 2 ^ 52"
  shows "fa_inv (mark_region_free base len fa)"
    "free_frames (mark_region_free base len fa) = free_frames fa \<union>
      {f. f < fa_frames fa \<and> base \<le> f * PAGE_SIZE \<and> (f + 1) * PAGE_SIZE \<le> base + len}"
    "fa_frames (mark_region_free base len fa) = fa_frames fa"
proof -
  have w: "wrap64 (base + PAGE_SIZE - 1) = base + PAGE_SIZE - 1" "wrap64 (base + len) = base + len"
    using assms(3) by (simp_all add: PAGE_SIZE_def)
  let ?fs = "[(base + PAGE_SIZE - 1) div PAGE_SIZE..<min ((base + len) div PAGE_SIZE) (fa_frames fa)]"
  have eq: "mark_region_free base len fa = fold free_step ?fs fa"
    using assms(2) by (simp only: mark_region_free_def w Let_def) simp
  have "set ?fs = {f. f < fa_frames fa \<and> base \<le> f * PAGE_SIZE \<and> (f + 1) * PAGE_SIZE \<le> base + len}"
    by (auto simp: round_up_le less_round_down simp del: mult_Suc One_nat_def)
  moreover have "\<forall>f \<in> set ?fs. f < fa_frames fa" by auto
  ultimately show "fa_inv (mark_region_free base len fa)"
    "free_frames (mark_region_free base len fa) = free_frames fa \<union>
      {f. f < fa_frames fa \<and> base \<le> f * PAGE_SIZE \<and> (f + 1) * PAGE_SIZE \<le> base + len}"
    "fa_frames (mark_region_free base len fa) = fa_frames fa"
    using fold_free_step [OF assms(1), of ?fs] unfolding eq by blast+
qed

lemma mark_region_used:
  assumes "0 < len" and "base + len \<le> 2 ^ 53"
  shows "fa_inv fa \<Longrightarrow> fa_inv (mark_region_used base len fa)"
    "free_frames (mark_region_used base len fa) = free_frames fa - {f. page_touches base len f}"
    "fa_frames (mark_region_used base len fa) = fa_frames fa"
proof -
  have w: "wrap64 (wrap64 (base + len) + PAGE_SIZE - 1) = base + len + PAGE_SIZE - 1"
    using assms(2) by (simp add: PAGE_SIZE_def)
  let ?fs = "[base div PAGE_SIZE..<min ((base + len + PAGE_SIZE - 1) div PAGE_SIZE) (fa_frames fa)]"
  have eq: "mark_region_used base len fa = fold fa_set_used ?fs fa"
    using assms(1) by (simp only: mark_region_used_def w Let_def) simp
  have "set ?fs = {f. f < fa_frames fa \<and> page_touches base len f}"
    unfolding set_upt by (auto simp: page_touches_def round_down_le less_round_up simp del: mult_Suc One_nat_def)
  moreover have "f < fa_frames fa" if "f \<in> free_frames fa" for f using that by (simp add: free_frames_iff)
  ultimately show "free_frames (mark_region_used base len fa) = free_frames fa - {f. page_touches base len f}"
    using fold_set_used [of ?fs fa] unfolding eq by blast
  show "fa_inv fa \<Longrightarrow> fa_inv (mark_region_used base len fa)"
    "fa_frames (mark_region_used base len fa) = fa_frames fa"
    using fold_set_used [of ?fs fa] unfolding eq by blast+
qed

lemma fold_free_region:
  "fa_inv fa \<Longrightarrow> \<forall>r \<in> set rs. region_ok r \<and> 0 < page_count r \<Longrightarrow>
     fa_inv (fold free_region rs fa) \<and> fa_frames (fold free_region rs fa) = fa_frames fa \<and>
     free_frames (fold free_region rs fa) =
       free_frames fa \<union> {f. f < fa_frames fa \<and> (\<exists>r \<in> set rs. page_in r f)}"
proof (induction rs arbitrary: fa)
  case Nil
  then show ?case by simp
next
  case (Cons r rs)
  let ?len = "page_count r * PAGE_SIZE"
  have ok: "physical_start r + ?len \<le> 2 ^ 52" "0 < ?len"
    using Cons.prems(2) by (auto simp: region_ok_def)
  have "wrap64 ?len = ?len" using ok(1) by simp
  then have eq: "free_region r fa = mark_region_free (physical_start r) ?len fa"
    using ok(2) by (simp add: free_region_def)
  note step = mark_region_free [OF Cons.prems(1) ok(2,1), folded eq]
  have "\<forall>r \<in> set rs. region_ok r \<and> 0 < page_count r" using Cons.prems(2) by simp
  note IH = Cons.IH [OF step(1) this]
  then show ?case unfolding step(2,3) by (auto simp: page_in_def)
qed

lemma next_multiple_of_page:
  "n \<le> 2 ^ 53 \<Longrightarrow> next_multiple_of n PAGE_SIZE \<le> n + PAGE_SIZE \<and> n \<le> next_multiple_of n PAGE_SIZE"
proof -
  assume n: "n \<le> 2 ^ 53"
  let ?q = "(n + PAGE_SIZE - 1) div PAGE_SIZE"
  have "?q * PAGE_SIZE \<le> n + PAGE_SIZE - 1" by simp
  then have up: "?q * PAGE_SIZE \<le> n + PAGE_SIZE" by linarith
  moreover have "n \<le> ?q * PAGE_SIZE" using round_up_le [of n ?q] by simp
  moreover have "wrap64 (?q * PAGE_SIZE) = ?q * PAGE_SIZE"
    using up n by (simp add: PAGE_SIZE_def)
  ultimately show ?thesis by (simp only: next_multiple_of_def)
qed

lemma find_in_set: "find P xs = Some x \<Longrightarrow> x \<in> set xs \<and> P x"
  by (induction xs) (auto split: if_splits)

lemma place_bitmap:
  assumes "\<forall>r \<in> set rs. region_ok r" and "place_bitmap rs fa = (carved, fa0)"
  shows "memory_top fa0 = memory_top fa"
    "carved = Some (base, len) \<Longrightarrow> 0 < len \<and> base + len \<le> 2 ^ 53"
proof -
  show "memory_top fa0 = memory_top fa"
    using assms(2) by (auto simp: place_bitmap_def Let_def split: if_splits option.splits)
  assume "carved = Some (base, len)"
  with assms(2) obtain e where need: "(top_frame rs + 7) div 8 > length (fa_bits fa)"
    and len: "len = next_multiple_of ((top_frame rs + 7) div 8) PAGE_SIZE"
    and home: "bitmap_home rs len = Some (base, e)"
    by (auto simp: place_bitmap_def Let_def split: if_splits option.splits)
  have "top_frame rs \<le> 2 ^ 31" by (simp add: top_frame_def MAX_FRAMES_def IDENTITY_MAX_def PAGE_SIZE_def)
  then have small: "(top_frame rs + 7) div 8 \<le> 2 ^ 29" by simp
  then have "len \<le> 2 ^ 29 + PAGE_SIZE" "(top_frame rs + 7) div 8 \<le> len"
    using next_multiple_of_page [of "(top_frame rs + 7) div 8"] len by auto
  moreover from home obtain r where r: "r \<in> set rs"
      "base = next_multiple_of (max (physical_start r) 0x100000) PAGE_SIZE"
    using find_in_set [OF home [unfolded bitmap_home_def]] by auto
  moreover have "max (physical_start r) 0x100000 \<le> 2 ^ 52"
    using assms(1) r(1) by (auto simp: region_ok_def)
  moreover have "base \<le> 2 ^ 52 + PAGE_SIZE"
    using next_multiple_of_page [of "max (physical_start r) 0x100000"] calculation by auto
  ultimately show "0 < len \<and> base + len \<le> 2 ^ 53" using need by (simp add: PAGE_SIZE_def)
qed

lemma memory_init_free:
  assumes "\<forall>r \<in> set rs. region_ok r" and "memory_top fa = 0"
    and init: "memory_init rs fa = (fa', fw, usable)" and place: "place_bitmap rs fa = (carved, fa0)"
  shows "fa_inv fa'" "usable = card (free_frames fa')"
    "free_frames fa' = {f. f < fa_frames fa0 \<and> (\<exists>r \<in> set rs. is_usable r \<and> page_in r f) \<and>
       0x100000 \<le> f * PAGE_SIZE \<and> (\<forall>base len. carved = Some (base, len) \<longrightarrow> \<not> page_touches base len f)}"
proof -
  note pl = place_bitmap [OF assms(1) place]
  have "memory_top fa0 = 0" using pl(1) assms(2) by simp
  note all = mark_all_used [OF this]
  have ok: "\<forall>r \<in> set (usable_regions rs). region_ok r \<and> 0 < page_count r"
    using assms(1) by (auto simp: usable_regions_def)
  define fa2 where "fa2 = fold free_region (usable_regions rs) (mark_all_used fa0)"
  have two: "fa_inv fa2" "free_frames fa2 = {f. f < fa_frames fa0 \<and> (\<exists>r \<in> set (usable_regions rs). page_in r f)}"
    using fold_free_region [OF all(1) ok] all(2) by (simp_all add: fa2_def mark_all_used_def fa_frames_def)
  define fa3 where "fa3 = mark_region_used 0 0x100000 fa2"
  have three: "fa_inv fa3" "free_frames fa3 = free_frames fa2 - {f. page_touches 0 0x100000 f}"
    using mark_region_used [where len = "0x100000" and base = 0 and fa = fa2] two(1) by (simp_all add: fa3_def)
  have fa': "fa' = (case carved of Some (base, len) \<Rightarrow> mark_region_used base len fa3 | None \<Rightarrow> fa3)"
    and us: "usable = fa_free fa'"
    using init place unfolding fa2_def fa3_def by (auto simp add: memory_init_def Let_def)
  have four: "fa_inv fa' \<and> free_frames fa' = free_frames fa3 -
      {f. \<exists>base len. carved = Some (base, len) \<and> page_touches base len f}"
  proof (cases carved)
    case None
    then show ?thesis using fa' three(1) by simp
  next
    case (Some p)
    obtain base len where p: "carved = Some (base, len)" using Some by (cases p) simp
    show ?thesis using fa' p pl(2) [OF p] mark_region_used [where len = len and base = base and fa = fa3] three(1) by simp
  qed
  then show "fa_inv fa'" "usable = card (free_frames fa')" using us by (simp_all add: fa_inv_def)
  have low: "page_touches 0 0x100000 f \<longleftrightarrow> \<not> 0x100000 \<le> f * PAGE_SIZE" for f
    by (auto simp: page_touches_def PAGE_SIZE_def)
  have us: "(\<exists>r \<in> set (usable_regions rs). page_in r f) \<longleftrightarrow> (\<exists>r \<in> set rs. is_usable r \<and> page_in r f)" for f
  proof -
    have "0 < page_count r" if "page_in r f" for r
      using that by (cases "page_count r") (auto simp: page_in_def PAGE_SIZE_def)
    then show ?thesis by (auto simp: usable_regions_def)
  qed
  show "free_frames fa' = {f. f < fa_frames fa0 \<and> (\<exists>r \<in> set rs. is_usable r \<and> page_in r f) \<and>
       0x100000 \<le> f * PAGE_SIZE \<and> (\<forall>base len. carved = Some (base, len) \<longrightarrow> \<not> page_touches base len f)}"
    using four three(2) two(2) unfolding us low by blast
qed

end
