(* ===== verification/Device_Windows.thy ===== *)
theory Device_Windows
  imports Frames Capability
begin

text \<open>
  How a driver module maps device registers by physical address: the host call \<open>npk_mmio_map_phys\<close>
  of \<^verbatim>\<open>kernel/src/wasm/host_core.rs\<close> with the page check \<open>mmio_refusal\<close> it shares with the mapping of a
  BAR, the driver state it keeps (\<open>HwDriverState\<close> of \<^verbatim>\<open>kernel/src/wasm.rs\<close>), and the table of PCI
  owners and sized BARs it consults (\<^verbatim>\<open>kernel/src/drivers/pci.rs\<close>). What the machine supplies is the record
  \<open>platform\<close>: the linker symbols around the kernel image, the firmware memory map and the ACPI platform
  ranges. The page tables are a state of any type, changed by an argument \<open>ioremap\<close> that returns the
  virtual address or \<open>None\<close> for its error.
\<close>

section \<open>PCI owners and BARs\<close>

record pci_addr =
  bus :: u8
  device :: u8
  pci_function :: u8

datatype owner = Kernel rstr | Module u32

record bar =
  bar_base :: nat
  bar_size :: nat

type_synonym owners = "(pci_addr \<times> owner) list"

definition pci_owner :: "owners \<Rightarrow> pci_addr \<Rightarrow> owner option" where
  "pci_owner g addr = map_option snd (find (\<lambda>(a, _). a = addr) g)"

definition pci_claim :: "pci_addr \<Rightarrow> owner \<Rightarrow> owners \<Rightarrow> (owner + unit) \<times> owners" where
  "pci_claim addr who g =
     (case find (\<lambda>(a, _). a = addr) g of
        Some (_, o1) \<Rightarrow> if o1 = who then (Inr (), g) else (Inl o1, g)
      | None \<Rightarrow> (Inr (), g @ [(addr, who)]))"

definition pci_release :: "pci_addr \<Rightarrow> owner \<Rightarrow> owners \<Rightarrow> owners" where
  "pci_release addr who g = filter (\<lambda>(a, o1). \<not> (a = addr \<and> o1 = who)) g"

definition pci_release_module :: "pci_addr \<Rightarrow> owners \<Rightarrow> owners" where
  "pci_release_module addr g =
     filter (\<lambda>(a, o1). \<not> (a = addr \<and> (case o1 of Module _ \<Rightarrow> True | Kernel _ \<Rightarrow> False))) g"

definition in_bar :: "nat \<Rightarrow> bar \<Rightarrow> bool" where
  "in_bar phys b \<longleftrightarrow> phys \<ge> bar_base b \<and> phys < sat64 (bar_base b + bar_size b)"

definition bar_owner_of :: "(pci_addr \<times> bar option list) list \<Rightarrow> nat \<Rightarrow> pci_addr option" where
  "bar_owner_of bars phys =
     map_option fst (find (\<lambda>(_, bs). list_ex (\<lambda>b. case b of None \<Rightarrow> False | Some b \<Rightarrow> in_bar phys b) bs) bars)"

section \<open>Driver state\<close>

definition MAX_MMIO_MAPS :: nat where "MAX_MMIO_MAPS = 4"

definition MMIO_MAP_PAGES_UNDECLARED :: int where "MMIO_MAP_PAGES_UNDECLARED = 16"

definition DMA_LIMIT_DEFAULT :: nat where "DMA_LIMIT_DEFAULT = 0x100000000"

record hw_driver_state =
  is_pci :: bool
  hw_pci_addr :: pci_addr
  vendor_id :: "16 word"
  device_id :: "16 word"
  mmio_maps :: "(nat \<times> nat) list"
  dma_allocs :: "(nat \<times> nat) list"
  dma_pages :: nat
  bus_master_enabled :: bool
  registered_as_netdev :: bool
  irq_vector :: nat
  irq_seen :: nat
  dma_limit :: nat

definition unbound_driver :: hw_driver_state where
  "unbound_driver = \<lparr>is_pci = False, hw_pci_addr = \<lparr>bus = 0, device = 0, pci_function = 0\<rparr>, vendor_id = 0, device_id = 0,
     mmio_maps = [], dma_allocs = [], dma_pages = 0, bus_master_enabled = False, registered_as_netdev = False,
     irq_vector = 0, irq_seen = 0, dma_limit = DMA_LIMIT_DEFAULT\<rparr>"

definition mark_driver_core :: "nat \<Rightarrow> u64 \<Rightarrow> u64" where
  "mark_driver_core core_id cores = (if core_id > 0 \<and> core_id < 64 then cores OR push_bit core_id 1 else cores)"

text \<open>The fields of the calling module's \<open>HostState\<close> the call uses, and the kernel state it changes.\<close>

record host_ctx =
  cap_id :: capid
  pid :: u32
  hw :: "hw_driver_state option"

record 'p machine =
  m_security :: security
  m_driver_cores :: u64
  m_ctx :: host_ctx
  m_paging :: 'p

record platform =
  image_lo :: nat
  image_hi :: nat
  firmware :: firmware_map
  platform_mmio :: "(nat \<times> nat) list"
  pci_bars :: "(pci_addr \<times> bar option list) list"
  pci_owners :: owners

section \<open>Mapping by physical address\<close>

definition mmio_refusal :: "platform \<Rightarrow> nat \<Rightarrow> rstr option" where
  "mmio_refusal pl a =
     (if \<not> is_device_window (image_lo pl) (image_hi pl) (firmware pl) a then Some (lit ''RAM or the kernel image'')
      else if 0xFEE00000 \<le> a \<and> a < 0xFEF00000 \<or> 0xFEC00000 \<le> a \<and> a < 0xFED00000
      then Some (lit ''interrupt controller'')
      else if list_ex (\<lambda>(b, l). a \<ge> b \<and> a < sat64 (b + l)) (platform_mmio pl)
      then Some (lit ''platform registers (ECAM, HPET, IOMMU)'')
      else None)"

text \<open>One round of the loop over the pages: false where it returns -1.\<close>

definition page_passes :: "platform \<Rightarrow> u32 \<Rightarrow> nat \<Rightarrow> nat \<Rightarrow> bool" where
  "page_passes pl me base i =
     (let a = base + i * PAGE_SIZE
      in a \<le> U64_MAX \<and> mmio_refusal pl a = None \<and>
         (case bar_owner_of (pci_bars pl) a of
            None \<Rightarrow> True
          | Some dev \<Rightarrow> (case pci_owner (pci_owners pl) dev of None \<Rightarrow> True | Some o1 \<Rightarrow> o1 = Module me)))"

definition phys_base :: "u32 \<Rightarrow> u32 \<Rightarrow> u64" where
  "phys_base hi lo = push_bit 32 (ucast hi) OR ucast lo"

definition npk_mmio_map_phys ::
  "platform \<Rightarrow> (nat \<Rightarrow> nat \<Rightarrow> 'p \<Rightarrow> nat option \<times> 'p) \<Rightarrow> nat \<Rightarrow> stamp \<Rightarrow> nat \<Rightarrow> u32 \<Rightarrow> u32 \<Rightarrow> u32 \<Rightarrow>
     'p machine \<Rightarrow> int \<times> 'p machine" where
  "npk_mmio_map_phys pl ioremap now t core_id hi lo pages m =
     (let (allowed, sec) = require (cap_id (m_ctx m)) HARDWARE (lit ''npk_mmio_map_phys'') now t (m_security m);
          m = m\<lparr>m_security := sec\<rparr>;
          base = phys_base hi lo;
          n = nat (sint pages)
      in if \<not> allowed then (-1, m)
         else if sint pages \<le> 0 then (-1, m)
         else if base = 0 \<or> base AND 0xFFF \<noteq> 0 then (-1, m)
         else if sint pages > MMIO_MAP_PAGES_UNDECLARED \<and>
           \<not> is_firmware_device_region (image_lo pl) (image_hi pl) (firmware pl) (unat base) (n * PAGE_SIZE) then (-1, m)
         else if \<not> list_all (page_passes pl (pid (m_ctx m)) (unat base)) [0..<n] then (-1, m)
         else
           let (h, m) = (case hw (m_ctx m) of
                 Some h \<Rightarrow> (h, m)
               | None \<Rightarrow> (unbound_driver, m\<lparr>m_driver_cores := mark_driver_core core_id (m_driver_cores m),
                   m_ctx := (m_ctx m)\<lparr>hw := Some unbound_driver\<rparr>\<rparr>))
           in if length (mmio_maps h) \<ge> MAX_MMIO_MAPS then (-1, m)
              else case ioremap (unat base) (n * PAGE_SIZE) (m_paging m) of
                     (None, p) \<Rightarrow> (-1, m\<lparr>m_paging := p\<rparr>)
                   | (Some virt, p) \<Rightarrow>
                       (int (length (mmio_maps h)),
                        m\<lparr>m_paging := p,
                          m_ctx := (m_ctx m)\<lparr>hw := Some (h\<lparr>mmio_maps := mmio_maps h @ [(virt, n)]\<rparr>)\<rparr>\<rparr>))"

section \<open>PCI ownership\<close>

text \<open>Each function has at most one owner in the table, whoever claims and releases.\<close>

definition owners_inv :: "owners \<Rightarrow> bool" where
  "owners_inv g \<longleftrightarrow> distinct (map fst g)"

lemma pci_owner_iff: "owners_inv g \<Longrightarrow> pci_owner g a = Some who \<longleftrightarrow> (a, who) \<in> set g"
proof (induction g)
  case (Cons x g)
  then show ?case by (cases x) (force simp: pci_owner_def owners_inv_def image_iff)
qed (simp add: pci_owner_def)

lemma pci_owner_None: "pci_owner g a = None \<longleftrightarrow> a \<notin> fst ` set g"
  by (force simp: pci_owner_def find_None_iff)

lemma owners_inv_claim: "owners_inv g \<Longrightarrow> owners_inv (snd (pci_claim a who g))"
  by (auto simp: pci_claim_def owners_inv_def find_None_iff split: option.splits)

lemma owners_inv_release: "owners_inv g \<Longrightarrow> owners_inv (pci_release a who g)" "owners_inv g \<Longrightarrow> owners_inv (pci_release_module a g)"
  by (auto simp: pci_release_def pci_release_module_def owners_inv_def intro: distinct_map_filter)

section \<open>What a mapping reaches\<close>

text \<open>An address in the span of a region, and a firmware map as the UEFI specification has it: regions start
  at a page, are not empty and do not overlap.\<close>

definition in_region :: "memory_region \<Rightarrow> nat \<Rightarrow> bool" where
  "in_region r a \<longleftrightarrow> physical_start r \<le> a \<and> a < sat64 (physical_start r + sat64 (page_count r * PAGE_SIZE))"

definition map_ok :: "firmware_map \<Rightarrow> bool" where
  "map_ok fw \<longleftrightarrow>
     (\<forall>r \<in> set (fw_regions fw). 0 < page_count r \<and> physical_start r mod PAGE_SIZE = 0) \<and>
     (\<forall>r \<in> set (fw_regions fw). \<forall>q \<in> set (fw_regions fw). r = q \<or> (\<forall>a. \<not> (in_region r a \<and> in_region q a)))"

text \<open>A range that starts at a page and meets the pages of a mapping holds the first byte of one of them.\<close>

lemma page_in_range:
  assumes "base mod PAGE_SIZE = 0" and "c mod PAGE_SIZE = 0"
    and "c < base + n * PAGE_SIZE" and "base < e" and "c < e" and "0 < n"
  obtains i where "i < n" "c \<le> base + i * PAGE_SIZE" "base + i * PAGE_SIZE < e"
proof -
  define x where "x = base div PAGE_SIZE"
  define y where "y = c div PAGE_SIZE"
  have xy: "base = x * PAGE_SIZE" "c = y * PAGE_SIZE"
    using assms(1,2) by (simp_all add: x_def y_def mod_0_imp_dvd)
  show ?thesis
  proof (rule that [of "y - x"])
    show "y - x < n" using assms(3,6) xy by (simp add: PAGE_SIZE_def)
    show "c \<le> base + (y - x) * PAGE_SIZE" using xy by (simp add: PAGE_SIZE_def)
    show "base + (y - x) * PAGE_SIZE < e" using xy assms(4,5) by (cases "x \<le> y") (auto simp: PAGE_SIZE_def)
  qed
qed

lemma device_window_no_ram:
  assumes ok: "map_ok fw" and r: "r \<in> set (fw_regions fw)" "in_region r a" and win: "is_device_window lo hi fw a"
  shows "\<not> is_ram_type (uefi_type r)"
proof -
  have "find (\<lambda>(b, l, _). b \<le> a \<and> a < sat64 (b + l)) (map span (fw_regions fw)) \<noteq> None"
    using r by (auto simp: find_None_iff in_region_def span_def)
  then obtain x where x: "find (\<lambda>(b, l, _). b \<le> a \<and> a < sat64 (b + l)) (map span (fw_regions fw)) = Some x"
    by blast
  obtain b l t where "x = (b, l, t)" by (cases x)
  with x have f: "find (\<lambda>(b, l, _). b \<le> a \<and> a < sat64 (b + l)) (map span (fw_regions fw)) = Some (b, l, t)"
    by (simp only:)
  from find_in_set [OF f] obtain q where q: "q \<in> set (fw_regions fw)" "in_region q a" "t = uefi_type q"
    by (auto simp: span_def in_region_def)
  then have "q = r" using ok r unfolding map_ok_def by blast
  with f q win show ?thesis by (simp add: is_device_window_def split: if_splits)
qed

lemma mmio_refusal_None:
  assumes "mmio_refusal pl a = None"
  shows "is_device_window (image_lo pl) (image_hi pl) (firmware pl) a"
    and "\<not> (image_lo pl \<le> a \<and> a < image_hi pl)"
    and "\<not> (0xFEE00000 \<le> a \<and> a < 0xFEF00000)" and "\<not> (0xFEC00000 \<le> a \<and> a < 0xFED00000)"
    and "(b, l) \<in> set (platform_mmio pl) \<Longrightarrow> \<not> (b \<le> a \<and> a < sat64 (b + l))"
  using assms by (auto simp: mmio_refusal_def is_device_window_def list_ex_iff split: if_splits)

lemma passed_range:
  assumes pass: "list_all (page_passes pl me base) [0..<n]" and base: "base mod PAGE_SIZE = 0" and n: "0 < n"
    and c: "c mod PAGE_SIZE = 0" and a: "base \<le> a" "a < base + n * PAGE_SIZE" "c \<le> a" "a < e"
  obtains x where "c \<le> x" "x < e" "mmio_refusal pl x = None"
proof -
  obtain i where "i < n" "c \<le> base + i * PAGE_SIZE" "base + i * PAGE_SIZE < e"
    by (rule page_in_range [OF base c, of n e]) (use a n in auto)
  with pass that show ?thesis by (auto simp: list_all_iff page_passes_def Let_def)
qed

lemma passed_no_ram:
  assumes ok: "map_ok (firmware pl)" and pass: "list_all (page_passes pl me base) [0..<n]"
    and base: "base mod PAGE_SIZE = 0" and n: "0 < n"
  shows "\<not> firmware_ram_in (firmware pl) base (n * PAGE_SIZE)"
proof
  assume "firmware_ram_in (firmware pl) base (n * PAGE_SIZE)"
  then obtain r where r: "r \<in> set (fw_regions (firmware pl))" "is_ram_type (uefi_type r)"
      "physical_start r < sat64 (base + n * PAGE_SIZE)"
      "base < sat64 (physical_start r + sat64 (page_count r * PAGE_SIZE))"
    by (auto simp: firmware_ram_in_def list_ex_iff span_def)
  have start: "0 < page_count r" "physical_start r mod PAGE_SIZE = 0" using ok r(1) by (simp_all add: map_ok_def)
  have below: "physical_start r < base + n * PAGE_SIZE" "physical_start r < U64_MAX"
    using r(3) by (simp_all only: sat64_def min_less_iff_conj)
  have size: "0 < page_count r * PAGE_SIZE" using start(1) by (simp add: PAGE_SIZE_def)
  then have "0 < sat64 (page_count r * PAGE_SIZE)" using below(2) unfolding sat64_def by linarith
  then have "physical_start r < sat64 (physical_start r + sat64 (page_count r * PAGE_SIZE))"
    using below(2) by (simp only: sat64_def [of "_ + _"] min_less_iff_conj) simp
  from page_in_range [OF base start(2) below(1) r(4) this n] obtain i
    where i: "i < n" "in_region r (base + i * PAGE_SIZE)" unfolding in_region_def by metis
  with pass have "mmio_refusal pl (base + i * PAGE_SIZE) = None"
    by (auto simp: list_all_iff page_passes_def Let_def)
  from device_window_no_ram [OF ok r(1) i(2) mmio_refusal_None(1) [OF this]] r(2) show False by simp
qed

lemma and_page_mask: "x AND 0xFFF = (0 :: u64) \<longleftrightarrow> unat x mod PAGE_SIZE = 0"
proof -
  have "(0xFFF :: u64) = mask 12" by (simp add: mask_eq_exp_minus_1)
  then have "unat (x AND 0xFFF) = unat x mod PAGE_SIZE"
    by (simp only: take_bit_eq_mask [symmetric] unsigned_take_bit_eq) (simp add: PAGE_SIZE_def take_bit_eq_mod)
  then show ?thesis by (simp flip: unat_eq_0)
qed

text \<open>What a call that returned a handle went through.\<close>

lemma npk_mmio_map_phys_ok:
  assumes call: "npk_mmio_map_phys pl ioremap now t core_id hi lo pages m = (h, m')" and h: "0 \<le> h"
  defines "n \<equiv> nat (sint pages)" and "base \<equiv> unat (phys_base hi lo)"
    and "d \<equiv> case hw (m_ctx m) of None \<Rightarrow> unbound_driver | Some d \<Rightarrow> d"
  shows "fst (require (cap_id (m_ctx m)) HARDWARE (lit ''npk_mmio_map_phys'') now t (m_security m)) \<and>
    0 < n \<and> base mod PAGE_SIZE = 0 \<and>
    (sint pages \<le> MMIO_MAP_PAGES_UNDECLARED \<or>
      is_firmware_device_region (image_lo pl) (image_hi pl) (firmware pl) base (n * PAGE_SIZE)) \<and>
    list_all (page_passes pl (pid (m_ctx m)) base) [0..<n] \<and>
    length (mmio_maps d) < MAX_MMIO_MAPS \<and> h = int (length (mmio_maps d)) \<and>
    (\<exists>virt. fst (ioremap base (n * PAGE_SIZE) (m_paging m)) = Some virt \<and>
       m_ctx m' = (m_ctx m)\<lparr>hw := Some (d\<lparr>mmio_maps := mmio_maps d @ [(virt, n)]\<rparr>)\<rparr>)"
proof -
  obtain ok sec where req: "require (cap_id (m_ctx m)) HARDWARE (lit ''npk_mmio_map_phys'') now t (m_security m) = (ok, sec)"
    by (rule prod.exhaust)
  obtain r p where io: "ioremap base (n * PAGE_SIZE) (m_paging m) = (r, p)" by (rule prod.exhaust)
  note step = call [unfolded npk_mmio_map_phys_def Let_def req and_page_mask prod.case, folded n_def base_def]
  have guards: "ok" "0 < n" "base mod PAGE_SIZE = 0" "list_all (page_passes pl (pid (m_ctx m)) base) [0..<n]"
    using step h by (simp_all add: n_def not_le split: if_splits)
  have small: "sint pages \<le> MMIO_MAP_PAGES_UNDECLARED \<or>
      is_firmware_device_region (image_lo pl) (image_hi pl) (firmware pl) base (n * PAGE_SIZE)"
  proof (rule ccontr)
    assume "\<not> ?thesis"
    with step h show False by (simp split: if_splits)
  qed
  define m1 where "m1 = (case hw (m_ctx m) of Some _ \<Rightarrow> m\<lparr>m_security := sec\<rparr>
    | None \<Rightarrow> m\<lparr>m_security := sec, m_driver_cores := mark_driver_core core_id (m_driver_cores m),
        m_ctx := (m_ctx m)\<lparr>hw := Some unbound_driver\<rparr>\<rparr>)"
  have m1: "m_paging m1 = m_paging m" "(m_ctx m1)\<lparr>hw := x\<rparr> = (m_ctx m)\<lparr>hw := x\<rparr>" for x
    by (simp_all add: m1_def split: option.split)
  have "h = (if MAX_MMIO_MAPS \<le> length (mmio_maps d) \<or> r = None then - 1 else int (length (mmio_maps d))) \<and>
      (\<forall>virt. length (mmio_maps d) < MAX_MMIO_MAPS \<and> r = Some virt \<longrightarrow>
        m' = m1\<lparr>m_paging := p, m_ctx := (m_ctx m1)\<lparr>hw := Some (d\<lparr>mmio_maps := mmio_maps d @ [(virt, n)]\<rparr>)\<rparr>\<rparr>)"
    using step h by (cases "hw (m_ctx m)"; cases r) (simp_all add: io m1_def d_def split: if_splits)
  with h have room: "length (mmio_maps d) < MAX_MMIO_MAPS" and last: "\<exists>virt. r = Some virt \<and> h = int (length (mmio_maps d)) \<and>
      m' = m1\<lparr>m_paging := p, m_ctx := (m_ctx m1)\<lparr>hw := Some (d\<lparr>mmio_maps := mmio_maps d @ [(virt, n)]\<rparr>)\<rparr>\<rparr>"
    by (simp_all add: not_le split: if_splits)
  have "fst (require (cap_id (m_ctx m)) HARDWARE (lit ''npk_mmio_map_phys'') now t (m_security m))"
    unfolding req using guards(1) by simp
  moreover from last have "h = int (length (mmio_maps d))"
    and "\<exists>virt. fst (ioremap base (n * PAGE_SIZE) (m_paging m)) = Some virt \<and>
       m_ctx m' = (m_ctx m)\<lparr>hw := Some (d\<lparr>mmio_maps := mmio_maps d @ [(virt, n)]\<rparr>)\<rparr>"
    by (auto simp: io m1)
  ultimately show ?thesis using guards small room by blast
qed

lemma require_holds: "fst (require i r call now t s) = fst (holds i r now s)"
  by (auto simp: require_def holds_def split: prod.splits sum.splits)

end
