(* ===== verification/Memory_Properties.thy ===== *)
theory Memory_Properties
  imports Device_Windows
begin

text \<open>
  The properties of the physical memory manager: frames are handed out once, the searches for contiguous
  frames are exact, only usable RAM of the firmware map is ever free, and no window a module may map
  contains RAM.
\<close>

section \<open>A small machine\<close>

definition wit_map :: "memory_region list" where
  "wit_map = [\<lparr>physical_start = 0, page_count = 160, uefi_type = 7\<rparr>,
     \<lparr>physical_start = 0x100000, page_count = 4, uefi_type = 7\<rparr>,
     \<lparr>physical_start = 0x104000, page_count = 8, uefi_type = 11\<rparr>]"

definition wit_fa :: frame_allocator where
  "wit_fa = \<lparr>fa_bits = [0xF0, 0xFF, 0x00], fa_free = 12, memory_top = 24, next_byte = 0\<rparr>"

lemma wit_fa_frames: "free_frames wit_fa = {0, 1, 2, 3, 16, 17, 18, 19, 20, 21, 22, 23}"
proof -
  have "free_frames wit_fa = set (filter (bv_clear [0xF0, 0xFF, 0x00]) [0..<24])"
    by (auto simp: free_frames_iff wit_fa_def fa_frames_def)
  also have "\<dots> = {0, 1, 2, 3, 16, 17, 18, 19, 20, 21, 22, 23}"
    by code_simp
  finally show ?thesis .
qed

lemma wit_fa_inv: "fa_inv wit_fa"
  unfolding fa_inv_def wit_fa_frames by (simp add: wit_fa_def fa_frames_def)

section \<open>Frames\<close>

text \<open>C26. A frame is handed out only if it is free, it is the lowest free one, no other frame changes, and
  the allocator says \<open>None\<close> only when no frame is free; giving the frame back restores the free set.\<close>

theorem frame_allocation_exact:
  assumes "fa_inv fa" and "fa_allocate fa = (res, fa')"
  shows "fa_inv fa' \<and> (case res of
      None \<Rightarrow> free_frames fa = {}
    | Some a \<Rightarrow> \<exists>f \<in> free_frames fa. a = f * PAGE_SIZE \<and> (\<forall>g \<in> free_frames fa. f \<le> g) \<and>
        free_frames fa' = free_frames fa - {f} \<and> free_frames (fa_deallocate a fa') = free_frames fa)"
proof (cases res)
  case None
  then show ?thesis using fa_allocate_None [OF assms(1)] assms(2) by simp
next
  case (Some a)
  with assms obtain f where f: "a = f * PAGE_SIZE" "f \<in> free_frames fa" "\<forall>g \<in> free_frames fa. f \<le> g"
    "free_frames fa' = free_frames fa - {f}" "fa_frames fa' = fa_frames fa" "fa_inv fa'"
    by (metis fa_allocate_Some)
  then have "free_frames (fa_deallocate a fa') = free_frames fa"
    by (auto simp: fa_deallocate_def free_frames_set_free free_frames_iff)
  with f Some show ?thesis by auto
qed

theorem frame_allocation_exact_witness:
  "free_frames (snd (fa_allocate wit_fa)) = {1, 2, 3, 16, 17, 18, 19, 20, 21, 22, 23}"
proof -
  have a: "fa_allocate wit_fa = (Some 0, snd (fa_allocate wit_fa))"
    by (simp add: fa_allocate_def first_open_byte_def wit_fa_def trailing_ones_def upt_rec Let_def)
  from frame_allocation_exact [OF wit_fa_inv a] obtain f where
    "0 = f * PAGE_SIZE" "free_frames (snd (fa_allocate wit_fa)) = free_frames wit_fa - {f}" by auto
  then show ?thesis by (auto simp: wit_fa_frames)
qed

text \<open>C28. The search for contiguous frames below a limit is exact: the run it returns was wholly free and
  below the limit and is all it takes, and when it fails no such run exists.\<close>

theorem contiguous_search_exact:
  assumes "fa_inv fa" and "0 < count" and "contiguous_below count limit fa = (res, fa')"
  shows "case res of
      Some a \<Rightarrow> \<exists>s. a = s * PAGE_SIZE \<and> {s..<s + count} \<subseteq> free_frames fa \<and>
        (limit > 0 \<longrightarrow> (s + count) * PAGE_SIZE \<le> limit) \<and>
        free_frames fa' = free_frames fa - {s..<s + count} \<and> fa_inv fa'
    | None \<Rightarrow> fa' = fa \<and>
        (\<nexists>s. {s..<s + count} \<subseteq> free_frames fa \<and> (limit > 0 \<longrightarrow> (s + count) * PAGE_SIZE \<le> limit))"
  by (rule contiguous_below_result [OF assms(1,3,2)])

theorem contiguous_search_exact_witness:
  "\<exists>s. contiguous_below 3 81920 wit_fa = (Some (s * PAGE_SIZE), use_frames s 3 wit_fa) \<and>
     {s..<s + 3} \<subseteq> free_frames wit_fa"
proof -
  have "below_loop [0xF0, 0xFF, 0x00] 3 17 = Some 17"
    by (subst below_loop.simps) (simp add: upt_rec bv_clear_def)
  then have a: "contiguous_below 3 81920 wit_fa = (Some (17 * PAGE_SIZE), use_frames 17 3 wit_fa)"
    by (simp add: contiguous_below_def wit_fa_def PAGE_SIZE_def)
  from contiguous_search_exact [OF wit_fa_inv _ a] obtain s where
    "17 * PAGE_SIZE = s * PAGE_SIZE" "{s..<s + 3} \<subseteq> free_frames wit_fa" by auto
  with a show ?thesis by (metis PAGE_SIZE_pos(2) mult_cancel2)
qed

text \<open>C29. The same for runs on an alignment boundary, and the byte-wise search for large runs gives the
  same result as the frame-wise one.\<close>

theorem aligned_search_exact:
  assumes "fa_inv fa" and "is_power_of_two align" and "8 \<le> align" and "8 dvd count" and "0 < count"
    and "contiguous_aligned count align fa = (res, fa')"
  shows "contiguous_aligned_below count align (memory_top fa * PAGE_SIZE) fa = (res, fa') \<and>
    (case res of
      Some a \<Rightarrow> \<exists>s. a = s * PAGE_SIZE \<and> s mod align = 0 \<and> {s..<s + count} \<subseteq> free_frames fa \<and>
        free_frames fa' = free_frames fa - {s..<s + count} \<and> fa_inv fa'
    | None \<Rightarrow> fa' = fa \<and> (\<nexists>s. s mod align = 0 \<and> {s..<s + count} \<subseteq> free_frames fa))"
proof -
  have eq: "contiguous_aligned_below count align (memory_top fa * PAGE_SIZE) fa = (res, fa')"
    using contiguous_aligned_eq [OF assms(1,4,3,2)] assms(6) by simp
  have top: "(s + count) * PAGE_SIZE \<le> memory_top fa * PAGE_SIZE" if "{s..<s + count} \<subseteq> free_frames fa" for s
    using free_run_below_top [OF assms(1) that assms(5)] by simp
  note r = contiguous_aligned_below_result [OF assms(1) eq assms(5,2)]
  show ?thesis
  proof (cases res)
    case None
    note r' = r [unfolded None option.case]
    have "\<nexists>s. s mod align = 0 \<and> {s..<s + count} \<subseteq> free_frames fa"
      using r' [THEN conjunct2] top by metis
    with r' [THEN conjunct1] eq show ?thesis unfolding None option.case by (intro conjI)
  next
    case (Some a)
    from r [unfolded Some option.case] obtain s where "a = s * PAGE_SIZE" "s mod align = 0"
      "{s..<s + count} \<subseteq> free_frames fa" "free_frames fa' = free_frames fa - {s..<s + count}" "fa_inv fa'"
      by (elim exE conjE)
    then show ?thesis using eq unfolding Some option.case by (metis (no_types))
  qed
qed

theorem aligned_search_exact_witness:
  "contiguous_aligned_below 8 8 (24 * PAGE_SIZE) wit_fa = (Some (16 * PAGE_SIZE), use_frames 16 8 wit_fa)"
proof -
  have p: "is_power_of_two 8" by (auto simp: is_power_of_two_def intro: bexI [of _ 3])
  moreover have "contiguous_aligned 8 8 wit_fa = (Some (16 * PAGE_SIZE), use_frames 16 8 wit_fa)"
    using p by (subst contiguous_aligned_def)
      (simp add: wit_fa_def fa_frames_def align_down_def aligned_loop.simps slice_def)
  ultimately have "is_power_of_two 8"
    "contiguous_aligned 8 8 wit_fa = (Some (16 * PAGE_SIZE), use_frames 16 8 wit_fa)" by simp_all
  from aligned_search_exact [OF wit_fa_inv this(1) _ _ _ this(2)] show ?thesis
    by (simp add: wit_fa_def)
qed

section \<open>The firmware map\<close>

text \<open>C27. Deny by default: after set-up a frame is free exactly if it lies wholly in a usable region of the
  firmware map, above the first megabyte and outside the memory taken for the bitmap itself.\<close>

theorem only_usable_ram_is_free:
  assumes "\<forall>r \<in> set rs. region_ok r" and "memory_top fa = 0"
    and "memory_init rs fa = (fa', fw, usable)" and "place_bitmap rs fa = (carved, fa0)"
  shows "fa_inv fa' \<and> usable = card (free_frames fa') \<and>
    free_frames fa' = {f. f < fa_frames fa0 \<and> (\<exists>r \<in> set rs. is_usable r \<and> page_in r f) \<and>
      0x100000 \<le> f * PAGE_SIZE \<and> (\<forall>base len. carved = Some (base, len) \<longrightarrow> \<not> page_touches base len f)}"
  using memory_init_free [OF assms] by blast

theorem only_usable_ram_is_free_witness:
  "256 \<in> free_frames (fst (memory_init wit_map
     \<lparr>fa_bits = replicate 64 0, fa_free = 0, memory_top = 0, next_byte = 0\<rparr>)) \<and>
   260 \<notin> free_frames (fst (memory_init wit_map
     \<lparr>fa_bits = replicate 64 0, fa_free = 0, memory_top = 0, next_byte = 0\<rparr>))"
proof -
  let ?fa = "\<lparr>fa_bits = replicate 64 0, fa_free = 0, memory_top = 0, next_byte = 0\<rparr>"
  have ok: "\<forall>r \<in> set wit_map. region_ok r" by (simp add: wit_map_def region_ok_def PAGE_SIZE_def)
  have place: "place_bitmap wit_map ?fa = (None, ?fa)"
    by (simp add: place_bitmap_def top_frame_def wit_map_def usable_regions_def is_usable_def uefi_types
        region_end_def PAGE_SIZE_def MAX_FRAMES_def IDENTITY_MAX_def)
  obtain fa' fw us where init: "memory_init wit_map ?fa = (fa', fw, us)" by (metis prod_cases3)
  from only_usable_ram_is_free [OF ok _ init place] init show ?thesis
    by (simp add: fa_frames_def wit_map_def is_usable_def uefi_types page_in_def PAGE_SIZE_def)
qed

section \<open>Device windows\<close>

text \<open>C30. What a module may map by physical address. When \<open>npk_mmio_map_phys\<close> returns a handle, on a machine
  whose firmware map has page-aligned, non-empty regions that do not overlap and whose image starts at a page,
  the module's token passes the check for the hardware right; the range holds no byte of a region the firmware
  typed as RAM, no byte of the kernel image, no register of a local or I/O interrupt controller, and none of a
  platform range of the ACPI tables that starts at a page; no page of it starts in a BAR that is reported for a device
  another driver owns; it is at most sixteen pages or lies inside one firmware region that is not RAM; and it is
  recorded under the returned handle, one of at most four. The mapping of a BAR, which reads the device's
  configuration space, is not covered.\<close>

theorem mapped_windows_exclude_ram:
  assumes "map_ok (firmware pl)" and "image_lo pl mod PAGE_SIZE = 0"
    and "npk_mmio_map_phys pl ioremap now t core_id hi lo pages m = (h, m')" and "0 \<le> h"
    and "base = unat (phys_base hi lo)" and "n = nat (sint pages)"
  shows "fst (holds (cap_id (m_ctx m)) HARDWARE now (m_security m)) \<and>
    \<not> firmware_ram_in (firmware pl) base (n * PAGE_SIZE) \<and>
    (\<forall>a. base \<le> a \<and> a < base + n * PAGE_SIZE \<longrightarrow>
       \<not> (image_lo pl \<le> a \<and> a < image_hi pl) \<and>
       \<not> (0xFEE00000 \<le> a \<and> a < 0xFEF00000) \<and> \<not> (0xFEC00000 \<le> a \<and> a < 0xFED00000) \<and>
       (\<forall>(b, l) \<in> set (platform_mmio pl). b mod PAGE_SIZE = 0 \<longrightarrow> \<not> (b \<le> a \<and> a < sat64 (b + l)))) \<and>
    (\<forall>i < n. \<forall>dev who. bar_owner_of (pci_bars pl) (base + i * PAGE_SIZE) = Some dev \<and>
       pci_owner (pci_owners pl) dev = Some who \<longrightarrow> who = Module (pid (m_ctx m))) \<and>
    (n \<le> 16 \<or> is_firmware_device_region (image_lo pl) (image_hi pl) (firmware pl) base (n * PAGE_SIZE)) \<and>
    (\<exists>d virt. hw (m_ctx m') = Some d \<and> nat h < length (mmio_maps d) \<and> length (mmio_maps d) \<le> MAX_MMIO_MAPS \<and>
       mmio_maps d ! nat h = (virt, n) \<and> fst (ioremap base (n * PAGE_SIZE) (m_paging m)) = Some virt)"
proof -
  note ok = npk_mmio_map_phys_ok [OF assms(3,4), folded assms(5,6)]
  then have base: "base mod PAGE_SIZE = 0" and n: "0 < n"
    and pass: "list_all (page_passes pl (pid (m_ctx m)) base) [0..<n]" by blast+
  have clear: "\<not> (c \<le> a \<and> a < e)"
    if a: "base \<le> a" "a < base + n * PAGE_SIZE" and c: "c mod PAGE_SIZE = 0"
      and free: "\<And>x. mmio_refusal pl x = None \<Longrightarrow> \<not> (c \<le> x \<and> x < e)" for a c e
    using passed_range [OF pass base n c a] free by blast
  have ranges: "\<not> (image_lo pl \<le> a \<and> a < image_hi pl) \<and>
       \<not> (0xFEE00000 \<le> a \<and> a < 0xFEF00000) \<and> \<not> (0xFEC00000 \<le> a \<and> a < 0xFED00000) \<and>
       (\<forall>(b, l) \<in> set (platform_mmio pl). b mod PAGE_SIZE = 0 \<longrightarrow> \<not> (b \<le> a \<and> a < sat64 (b + l)))"
    if a: "base \<le> a" "a < base + n * PAGE_SIZE" for a
    using clear [OF a assms(2) mmio_refusal_None(2)] clear [OF a _ mmio_refusal_None(3)]
      clear [OF a _ mmio_refusal_None(4)] clear [OF a _ mmio_refusal_None(5)]
    by (auto simp: PAGE_SIZE_def)
  have bars: "who = Module (pid (m_ctx m))" if "i < n" "bar_owner_of (pci_bars pl) (base + i * PAGE_SIZE) = Some dev"
    "pci_owner (pci_owners pl) dev = Some who" for i dev who
  proof -
    have "page_passes pl (pid (m_ctx m)) base i" using pass that(1) by (simp add: list_all_iff)
    then show ?thesis using that(2,3) by (simp add: page_passes_def Let_def)
  qed
  have size: "n \<le> 16 \<or> is_firmware_device_region (image_lo pl) (image_hi pl) (firmware pl) base (n * PAGE_SIZE)"
    using ok assms(6) by (auto simp: MMIO_MAP_PAGES_UNDECLARED_def)
  have handle: "\<exists>d virt. hw (m_ctx m') = Some d \<and> nat h < length (mmio_maps d) \<and> length (mmio_maps d) \<le> MAX_MMIO_MAPS \<and>
       mmio_maps d ! nat h = (virt, n) \<and> fst (ioremap base (n * PAGE_SIZE) (m_paging m)) = Some virt"
    using ok by (elim conjE exE) simp
  have "fst (holds (cap_id (m_ctx m)) HARDWARE now (m_security m))"
    using ok [THEN conjunct1] unfolding require_holds .
  moreover have "\<forall>a. base \<le> a \<and> a < base + n * PAGE_SIZE \<longrightarrow>
       \<not> (image_lo pl \<le> a \<and> a < image_hi pl) \<and>
       \<not> (0xFEE00000 \<le> a \<and> a < 0xFEF00000) \<and> \<not> (0xFEC00000 \<le> a \<and> a < 0xFED00000) \<and>
       (\<forall>(b, l) \<in> set (platform_mmio pl). b mod PAGE_SIZE = 0 \<longrightarrow> \<not> (b \<le> a \<and> a < sat64 (b + l)))"
    using ranges by (intro allI impI, elim conjE)
  moreover have "\<forall>i < n. \<forall>dev who. bar_owner_of (pci_bars pl) (base + i * PAGE_SIZE) = Some dev \<and>
       pci_owner (pci_owners pl) dev = Some who \<longrightarrow> who = Module (pid (m_ctx m))"
    using bars by blast
  ultimately show ?thesis
    using passed_no_ram [OF assms(1) pass base n] size handle by (intro conjI)
qed

definition wit_platform :: platform where
  "wit_platform = \<lparr>image_lo = 0x200000, image_hi = 0x300000, firmware = \<lparr>fw_regions = wit_map, fw_complete = True\<rparr>,
     platform_mmio = [(0xE0000000, 0x10000000)],
     pci_bars = [(\<lparr>bus = 0, device = 2, pci_function = 0\<rparr>, [Some \<lparr>bar_base = 0x108000, bar_size = 0x1000\<rparr>])],
     pci_owners = [(\<lparr>bus = 0, device = 2, pci_function = 0\<rparr>, Kernel (lit ''gpu''))]\<rparr>"

definition wit_driver_machine :: "unit machine" where
  "wit_driver_machine = \<lparr>m_security = vault_init (replicate 32 1) \<lparr>st_wall = 0, st_up_ms = 0\<rparr> security_empty,
     m_driver_cores = 0, m_ctx = \<lparr>cap_id = replicate 32 1, pid = 7, hw = None\<rparr>, m_paging = ()\<rparr>"

lemma wit_driver_allowed:
  "fst (require (cap_id (m_ctx wit_driver_machine)) HARDWARE call 0 t (m_security wit_driver_machine))"
proof -
  have "unique_ids (caps (m_security wit_driver_machine))"
    using vault_inv_boot by (simp add: wit_driver_machine_def vault_inv_def)
  moreover have "grants (caps (m_security wit_driver_machine)) 0 (cap_id (m_ctx wit_driver_machine)) HARDWARE"
    by (simp add: wit_driver_machine_def grants_def in_boot_caps is_expired_def contains_def rights_defs)
  ultimately show ?thesis by (simp add: require_holds holds_iff_grants)
qed

theorem mapped_windows_exclude_ram_witness:
  "fst (npk_mmio_map_phys wit_platform (\<lambda>base len p. (Some base, p)) 0 \<lparr>st_wall = 0, st_up_ms = 0\<rparr> 1 0 0x105000 2
     wit_driver_machine) = 0 \<and> \<not> firmware_ram_in (firmware wit_platform) 0x105000 0x2000"
proof -
  let ?call = "npk_mmio_map_phys wit_platform (\<lambda>base len p. (Some base, p)) 0 \<lparr>st_wall = 0, st_up_ms = 0\<rparr> 1 0 0x105000 2
     wit_driver_machine"
  have base: "unat (phys_base 0 0x105000) = 0x105000" by (simp add: phys_base_def)
  then have nonzero: "phys_base 0 0x105000 \<noteq> 0" by auto
  have pass: "list_all (page_passes wit_platform 7 0x105000) [0..<2]"
    by (simp add: wit_platform_def page_passes_def mmio_refusal_def is_device_window_def wit_map_def span_def
        is_ram_type_def uefi_types sat64_def PAGE_SIZE_def bar_owner_of_def in_bar_def numeral_2_eq_2)
  have h: "fst ?call = 0"
    using wit_driver_allowed [of "lit ''npk_mmio_map_phys''" "\<lparr>st_wall = 0, st_up_ms = 0\<rparr>"] pass base nonzero
    by (simp add: npk_mmio_map_phys_def Let_def case_prod_beta and_page_mask MMIO_MAP_PAGES_UNDECLARED_def
        unbound_driver_def MAX_MMIO_MAPS_def PAGE_SIZE_def) (simp add: wit_driver_machine_def unbound_driver_def)
  have ok: "map_ok (firmware wit_platform)"
    by (auto simp: wit_platform_def map_ok_def wit_map_def in_region_def sat64_def PAGE_SIZE_def)
  obtain m' where "?call = (0, m')" using h by (cases ?call) simp
  from mapped_windows_exclude_ram [OF ok _ this _ base [symmetric]] h show ?thesis
    by (simp add: wit_platform_def PAGE_SIZE_def)
qed

end
