(* ===== verification/Aead.thy ===== *)
theory Aead
  imports Prelude
begin

text \<open>
  ChaCha20, Poly1305 and the ChaCha20-Poly1305 authenticated cipher of
  \<open>kernel/src/crypto/aead.rs\<close> (RFC 7539 and RFC 8439), at machine width: \<open>u32\<close> state words, the
  130-bit accumulator of Poly1305 as a \<open>u128\<close> and a \<open>u8\<close>, and its multiplication through 64-bit
  limbs. The lemmas show that the limb arithmetic never overflows and computes the polynomial of
  the RFC modulo \<open>2 ^ 130 - 5\<close>, that the input of the authenticator determines its two parts,
  and that a message decrypts exactly to what was encrypted.
\<close>

type_synonym u128 = "128 word"

section \<open>ChaCha20\<close>

definition quarter_round :: "nat \<Rightarrow> nat \<Rightarrow> nat \<Rightarrow> nat \<Rightarrow> u32 list \<Rightarrow> u32 list" where
  "quarter_round a b c d s =
     (let s = s[a := s ! a + s ! b]; s = s[d := s ! d XOR s ! a]; s = s[d := word_rotl 16 (s ! d)];
          s = s[c := s ! c + s ! d]; s = s[b := s ! b XOR s ! c]; s = s[b := word_rotl 12 (s ! b)];
          s = s[a := s ! a + s ! b]; s = s[d := s ! d XOR s ! a]; s = s[d := word_rotl 8 (s ! d)];
          s = s[c := s ! c + s ! d]; s = s[b := s ! b XOR s ! c]; s = s[b := word_rotl 7 (s ! b)]
      in s)"

definition double_round :: "u32 list \<Rightarrow> u32 list" where
  "double_round s =
     (let s = quarter_round 0 4 8 12 s; s = quarter_round 1 5 9 13 s;
          s = quarter_round 2 6 10 14 s; s = quarter_round 3 7 11 15 s;
          s = quarter_round 0 5 10 15 s; s = quarter_round 1 6 11 12 s;
          s = quarter_round 2 7 8 13 s; s = quarter_round 3 4 9 14 s
      in s)"

definition le_word :: "bytes \<Rightarrow> nat \<Rightarrow> u32" where
  "le_word bs o' = of_nat (from_le [bs ! o', bs ! (o' + 1), bs ! (o' + 2), bs ! (o' + 3)])"

definition chacha20_init :: "bytes \<Rightarrow> u32 \<Rightarrow> bytes \<Rightarrow> u32 list" where
  "chacha20_init key counter nonce =
     [0x61707865, 0x3320646e, 0x79622d32, 0x6b206574]
     @ map (\<lambda>i. le_word key (i * 4)) [0..<8] @ [counter] @ map (\<lambda>i. le_word nonce (i * 4)) [0..<3]"

definition chacha20_block :: "bytes \<Rightarrow> u32 \<Rightarrow> bytes \<Rightarrow> bytes" where
  "chacha20_block key counter nonce =
     (let initial = chacha20_init key counter nonce;
          s = (double_round ^^ 10) initial
      in concat (map (\<lambda>i. to_le 4 (unat (s ! i + initial ! i))) [0..<16]))"

function chacha20_xor :: "bytes \<Rightarrow> bytes \<Rightarrow> u32 \<Rightarrow> bytes \<Rightarrow> bytes" where
  "chacha20_xor key nonce ctr data =
     (if data = [] then []
      else let block = chacha20_block key ctr nonce; n = min (length data) 64
           in map2 (XOR) (take n data) (take n block) @ chacha20_xor key nonce (ctr + 1) (drop n data))"
  by pat_completeness auto
termination
  by (relation "measure (\<lambda>(key, nonce, ctr, data). length data)") auto

declare chacha20_xor.simps [simp del]

section \<open>Poly1305\<close>

definition overflowing_add :: "u128 \<Rightarrow> u128 \<Rightarrow> u128 \<times> bool" where
  "overflowing_add a b = (a + b, unat a + unat b \<ge> 2 ^ 128)"

definition poly1305_clamp :: "bytes \<Rightarrow> bytes" where
  "poly1305_clamp r =
     (let r = r[3 := r ! 3 AND 0x0f]; r = r[7 := r ! 7 AND 0x0f];
          r = r[11 := r ! 11 AND 0x0f]; r = r[15 := r ! 15 AND 0x0f];
          r = r[4 := r ! 4 AND 0xfc]; r = r[8 := r ! 8 AND 0xfc]; r = r[12 := r ! 12 AND 0xfc]
      in r)"

text \<open>\<open>poly1305_mulmod\<close> up to the split at bit 130 (the product in limbs \<open>w0\<close> to \<open>w4\<close>) and from there on.\<close>

definition poly1305_product :: "u128 \<Rightarrow> u8 \<Rightarrow> u128 \<Rightarrow> u128 \<times> u8 \<times> u128" where
  "poly1305_product acc_lo acc_hi r =
     (let a0 = ucast acc_lo :: u64; a1 = ucast (drop_bit 64 acc_lo) :: u64; a2 = ucast acc_hi :: u64;
          r0 = ucast r :: u64; r1 = ucast (drop_bit 64 r) :: u64;
          m00 = ucast a0 * ucast r0 :: u128; m01 = ucast a0 * ucast r1 :: u128;
          m10 = ucast a1 * ucast r0 :: u128; m11 = ucast a1 * ucast r1 :: u128;
          m20 = ucast a2 * ucast r0 :: u128; m21 = ucast a2 * ucast r1 :: u128;
          d0 = m00; d1 = m01 + m10; d1_carry = (if d1 < m01 then 1 else 0 :: u128);
          d2 = m11 + m20 + push_bit 64 d1_carry; d3 = m21;
          w0 = ucast d0 :: u64; w1 = ucast (drop_bit 64 d0) :: u64;
          add1 = ucast w1 + ucast (ucast d1 :: u64) :: u128;
          w1 = ucast add1 :: u64; c1 = ucast (drop_bit 64 add1) :: u64;
          add2 = ucast (ucast (drop_bit 64 d1) :: u64) + ucast (ucast d2 :: u64) + ucast c1 :: u128;
          w2 = ucast add2 :: u64; c2 = ucast (drop_bit 64 add2) :: u64;
          add3 = ucast (ucast (drop_bit 64 d2) :: u64) + ucast (ucast d3 :: u64) + ucast c2 :: u128;
          w3 = ucast add3 :: u64;
          w4 = ucast (drop_bit 64 d3) + ucast (drop_bit 64 add3) :: u64;
          lo = ucast w0 OR push_bit 64 (ucast w1) :: u128;
          bits_128_129 = ucast (w2 AND 3) :: u8;
          above = ucast (drop_bit 2 w2) OR push_bit 62 (ucast w3) OR push_bit 126 (ucast w4) :: u128
      in (lo, bits_128_129, above))"

definition poly1305_mulmod :: "u128 \<Rightarrow> u8 \<Rightarrow> u128 \<Rightarrow> u128 \<times> u8" where
  "poly1305_mulmod acc_lo acc_hi r =
     (let (lo, bits_128_129, above) = poly1305_product acc_lo acc_hi r;
          mul5 = above * 5;
          (new_lo, c) = overflowing_add lo mul5;
          new_hi = (if c then bits_128_129 + 1 else bits_128_129)
      in if 4 \<le> new_hi
         then let extra = ucast (drop_bit 2 new_hi) :: u128; new_hi = new_hi AND 3;
                  (new_lo2, c2) = overflowing_add new_lo (extra * 5)
              in (new_lo2, new_hi + (if c2 then 1 else 0))
         else (new_lo, new_hi))"

definition poly1305_reduce :: "u128 \<Rightarrow> u8 \<Rightarrow> u128 \<times> u8" where
  "poly1305_reduce acc_lo acc_hi =
     (let (test, c) = overflowing_add acc_lo 5; test_hi = acc_hi + (if c then 1 else 0)
      in if 4 \<le> test_hi
         then let hi = test_hi AND 3 in (test, if 4 \<le> hi then hi AND 3 else hi)
         else (acc_lo, acc_hi))"

definition poly1305_add :: "u128 \<Rightarrow> u8 \<Rightarrow> u128 \<Rightarrow> u8 \<Rightarrow> u128 \<times> u8" where
  "poly1305_add acc_lo acc_hi n hibit =
     (let (sum, carry1) = overflowing_add acc_lo n;
          acc_hi = (if carry1 then acc_hi + 1 else acc_hi)
      in (sum, acc_hi + hibit))"

definition poly1305_last :: "bytes \<Rightarrow> u128 \<times> u8" where
  "poly1305_last m =
     (let remaining = length m;
          block = (splice 0 m (replicate 17 0))[remaining := 1];
          copy_len = min (remaining + 1) 16;
          n = of_nat (from_le (splice 0 (take copy_len block) (replicate 16 0)));
          extra_hi = (if 16 < remaining + 1 then 1 else 0)
      in (n, extra_hi))"

function poly1305_loop :: "u128 \<Rightarrow> bytes \<Rightarrow> u128 \<Rightarrow> u8 \<Rightarrow> u128 \<times> u8" where
  "poly1305_loop r m acc_lo acc_hi =
     (if 16 \<le> length m
      then let n = of_nat (from_le (take 16 m));
               (acc_lo, acc_hi) = poly1305_add acc_lo acc_hi n 1;
               (acc_lo, acc_hi) = poly1305_mulmod acc_lo acc_hi r
           in poly1305_loop r (drop 16 m) acc_lo acc_hi
      else if m \<noteq> []
      then let (n, extra_hi) = poly1305_last m;
               (acc_lo, acc_hi) = poly1305_add acc_lo acc_hi n extra_hi
           in poly1305_mulmod acc_lo acc_hi r
      else (acc_lo, acc_hi))"
  by pat_completeness auto
termination
  by (relation "measure (\<lambda>(r, m, lo, hi). length m)") auto

declare poly1305_loop.simps [simp del]

definition poly1305_mac :: "bytes \<Rightarrow> bytes \<Rightarrow> bytes" where
  "poly1305_mac key message =
     (let r = of_nat (from_le (poly1305_clamp (take 16 key)));
          s = of_nat (from_le (slice 16 16 key)) :: u128;
          (acc_lo, acc_hi) = poly1305_loop r message 0 0;
          (acc_lo, acc_hi) = poly1305_reduce acc_lo acc_hi;
          tag = acc_lo + s
      in to_le 16 (unat tag))"

section \<open>The authenticated cipher\<close>

definition TAG_SIZE :: nat where
  "TAG_SIZE = 16"

definition pad16 :: "bytes \<Rightarrow> bytes" where
  "pad16 m = m @ replicate ((16 - length m mod 16) mod 16) 0"

definition build_mac_input :: "bytes \<Rightarrow> bytes \<Rightarrow> bytes" where
  "build_mac_input aad ciphertext =
     pad16 aad @ pad16 ciphertext @ to_le 8 (length aad) @ to_le 8 (length ciphertext)"

definition aead_encrypt_aad :: "bytes \<Rightarrow> bytes \<Rightarrow> bytes \<Rightarrow> bytes \<Rightarrow> bytes" where
  "aead_encrypt_aad key nonce aad plaintext =
     (let poly_key = take 32 (chacha20_block key 0 nonce);
          ciphertext = chacha20_xor key nonce 1 plaintext;
          tag = poly1305_mac poly_key (build_mac_input aad ciphertext)
      in ciphertext @ tag)"

definition tag_diff :: "bytes \<Rightarrow> bytes \<Rightarrow> u8" where
  "tag_diff tag expected = fold (\<lambda>i d. d OR (tag ! i XOR expected ! i)) [0..<TAG_SIZE] 0"

definition aead_decrypt_aad :: "bytes \<Rightarrow> bytes \<Rightarrow> bytes \<Rightarrow> bytes \<Rightarrow> bytes option" where
  "aead_decrypt_aad key nonce aad ct =
     (if length ct < TAG_SIZE then None
      else let ct_len = length ct - TAG_SIZE; ciphertext = take ct_len ct; tag = drop ct_len ct;
               poly_key = take 32 (chacha20_block key 0 nonce);
               expected_tag = poly1305_mac poly_key (build_mac_input aad ciphertext)
           in if tag_diff tag expected_tag \<noteq> 0 then None
              else Some (chacha20_xor key nonce 1 ciphertext))"

section \<open>Machine words as numbers\<close>

lemma unat_ucast_mod: "unat (ucast x :: 'b::len word) = unat x mod 2 ^ LENGTH('b)"
  by (metis take_bit_eq_mod unsigned_ucast_eq)

lemma unat_drop: "unat (drop_bit n w) = unat w div 2 ^ n"
  unfolding unat_drop_bit_eq by (rule drop_bit_eq_div)

lemma unat_push: "unat (push_bit n w :: 'a::len word) = unat w * 2 ^ n mod 2 ^ LENGTH('a)"
  unfolding unsigned_push_bit_eq by (simp add: push_bit_eq_mult take_bit_eq_mod)

lemma nat_bit_bound: "c < 2 ^ n \<Longrightarrow> bit (c :: nat) k \<Longrightarrow> k < n"
  by (metis bit_take_bit_iff take_bit_nat_eq_self)

lemma nat_and_bound: "(b :: nat) < 2 ^ n \<Longrightarrow> a AND b < 2 ^ n"
  by (metis take_bit_and take_bit_nat_eq_self take_bit_nat_less_exp and.right_idem and.commute
      and.left_commute take_bit_eq_mask)

lemma or_disjoint_nat: "a < 2 ^ n \<Longrightarrow> a OR b * 2 ^ n = a + b * (2 :: nat) ^ n"
proof -
  assume a: "a < 2 ^ n"
  have "a AND push_bit n b = 0"
  proof (rule bit_eqI)
    fix k
    show "bit (a AND push_bit n b) k = bit (0 :: nat) k"
      using nat_bit_bound [OF a, of k] by (auto simp: bit_and_iff bit_push_bit_iff)
  qed
  then have "a + push_bit n b = a OR push_bit n b" by (rule disjunctive_add_eq_or)
  then show ?thesis by (simp add: push_bit_eq_mult)
qed

lemma unat_or_push:
  assumes "unat a < 2 ^ n" and "unat b * 2 ^ n < 2 ^ LENGTH('a)"
  shows "unat (a OR push_bit n b) = unat (a :: 'a::len word) + unat b * 2 ^ n"
  using assms or_disjoint_nat [of "unat a" n "unat b"] by (simp add: unsigned_or_eq unat_push)

lemma unat_and_3: "unat (w AND 3 :: 'a::len word) = unat w mod 4"
proof -
  have "w AND 3 = take_bit 2 w" by (simp add: take_bit_eq_mask mask_eq_exp_minus_1)
  moreover have "unat (take_bit 2 w) = take_bit 2 (unat w)" by (rule unsigned_take_bit_eq)
  ultimately show ?thesis by (simp add: take_bit_eq_mod [of 2 "unat w"])
qed

lemmas word_nat = unat_ucast_mod unat_drop unat_word_ariths unat_push

section \<open>The limb multiplication\<close>

abbreviation p1305 :: nat where "p1305 \<equiv> 2 ^ 130 - 5"

definition acc_value :: "u128 \<times> u8 \<Rightarrow> nat" where
  "acc_value a = unat (fst a) + 2 ^ 128 * unat (snd a)"

lemma overflowing_add_value:
  "overflowing_add a b = (s, c) \<Longrightarrow> unat s + (if c then 2 ^ 128 else 0) = unat a + unat b"
proof -
  assume "overflowing_add a b = (s, c)"
  then have s: "s = a + b" and c: "c = (2 ^ 128 \<le> unat a + unat b)" by (auto simp: overflowing_add_def)
  have "unat a < 2 ^ 128" "unat b < 2 ^ 128" using unsigned_less [of a] unsigned_less [of b] by simp_all
  then have "unat a + unat b < 2 * 2 ^ 128" by simp
  then show ?thesis unfolding s c unat_word_ariths
    by (cases "unat a + unat b < 2 ^ 128") (simp_all add: mod_nat_eqI le_mod_geq)
qed

lemma unat_u64: "unat (x :: u64) < 2 ^ 64"
  using unsigned_less [of x, where 'a = nat] by simp

lemma unat_u128: "unat (x :: u128) < 2 ^ 128"
  using unsigned_less [of x, where 'a = nat] by simp

lemma limbs:
  fixes x :: u128
  shows "unat x = unat (ucast x :: u64) + 2 ^ 64 * unat (ucast (drop_bit 64 x) :: u64)"
proof -
  have "unat x div 2 ^ 64 < 2 ^ 64" using unat_u128 [of x] by (simp add: less_mult_imp_div_less)
  then show ?thesis by (simp add: word_nat)
qed

lemma widening_mult:
  fixes a b :: u64
  shows "unat (ucast a * ucast b :: u128) = unat a * unat b"
proof -
  have "unat a < 2 ^ 64" "unat b < 2 ^ 64" by (rule unat_u64)+
  then have "unat a * unat b < 2 ^ 64 * 2 ^ 64" by (intro mult_strict_mono) auto
  moreover have "unat (ucast a :: u128) = unat a" "unat (ucast b :: u128) = unat b"
    using \<open>unat a < 2 ^ 64\<close> \<open>unat b < 2 ^ 64\<close> by (simp_all add: word_nat)
  ultimately show ?thesis by (simp add: unat_word_ariths)
qed

lemma widening_add:
  fixes a b c :: u64
  shows "unat (ucast a + ucast b :: u128) = unat a + unat b"
    and "unat (ucast a + ucast b + ucast c :: u128) = unat a + unat b + unat c"
proof -
  have "unat a < 2 ^ 64" "unat b < 2 ^ 64" "unat c < 2 ^ 64" by (rule unat_u64)+
  then show "unat (ucast a + ucast b :: u128) = unat a + unat b"
    and "unat (ucast a + ucast b + ucast c :: u128) = unat a + unat b + unat c"
    by (simp_all add: word_nat)
qed

text \<open>
  The five output limbs of the schoolbook product, for a clamped multiplier (both limbs below
  \<open>2 ^ 60\<close>): no intermediate sum leaves its word, and the fifth limb is zero.
\<close>

lemma carry_chain:
  fixes d0 d1 d2 d3 :: u128
  defines "add1 \<equiv> ucast (ucast (drop_bit 64 d0) :: u64) + ucast (ucast d1 :: u64) :: u128"
  defines "add2 \<equiv> ucast (ucast (drop_bit 64 d1) :: u64) + ucast (ucast d2 :: u64)
                    + ucast (ucast (drop_bit 64 add1) :: u64) :: u128"
  defines "add3 \<equiv> ucast (ucast (drop_bit 64 d2) :: u64) + ucast (ucast d3 :: u64)
                    + ucast (ucast (drop_bit 64 add2) :: u64) :: u128"
  shows "unat d0 + 2 ^ 64 * unat d1 + 2 ^ 128 * unat d2 + 2 ^ 192 * unat d3 =
    unat (ucast d0 :: u64) + 2 ^ 64 * unat (ucast add1 :: u64) + 2 ^ 128 * unat (ucast add2 :: u64)
    + 2 ^ 192 * unat (ucast add3 :: u64)
    + 2 ^ 256 * (unat (ucast (drop_bit 64 d3) :: u64) + unat (ucast (drop_bit 64 add3) :: u64))"
proof -
  have a1: "unat add1 = unat (ucast (drop_bit 64 d0) :: u64) + unat (ucast d1 :: u64)"
    unfolding add1_def by (rule widening_add)
  have a2: "unat add2 = unat (ucast (drop_bit 64 d1) :: u64) + unat (ucast d2 :: u64)
      + unat (ucast (drop_bit 64 add1) :: u64)"
    unfolding add2_def by (rule widening_add)
  have a3: "unat add3 = unat (ucast (drop_bit 64 d2) :: u64) + unat (ucast d3 :: u64)
      + unat (ucast (drop_bit 64 add2) :: u64)"
    unfolding add3_def by (rule widening_add)
  show ?thesis
    using limbs [of d0] limbs [of d1] limbs [of d2] limbs [of d3] limbs [of add1] limbs [of add2]
      limbs [of add3] a1 a2 a3
    by simp
qed

lemma schoolbook:
  fixes a0 a1 a2 r0 r1 :: u64
  defines "m01 \<equiv> ucast a0 * ucast r1 :: u128" and "m10 \<equiv> ucast a1 * ucast r0 :: u128"
  defines "d1 \<equiv> m01 + m10"
  defines "d2 \<equiv> ucast a1 * ucast r1 + ucast a2 * ucast r0
                  + push_bit 64 (if d1 < m01 then 1 else 0) :: u128"
  assumes r: "unat r0 < 2 ^ 60" "unat r1 < 2 ^ 60" and a2: "unat a2 \<le> 7"
  shows "unat (ucast a0 * ucast r0 :: u128) + 2 ^ 64 * unat d1 + 2 ^ 128 * unat d2
      + 2 ^ 192 * unat (ucast a2 * ucast r1 :: u128) =
    (unat a0 + 2 ^ 64 * unat a1 + 2 ^ 128 * unat a2) * (unat r0 + 2 ^ 64 * unat r1)"
proof -
  have a: "unat a0 < 2 ^ 64" "unat a1 < 2 ^ 64" by (rule unat_u64)+
  have m: "unat a * unat b < 2 ^ 64 * 2 ^ 60" if "unat a < 2 ^ 64" "unat b < 2 ^ 60" for a b :: u64
    using that by (intro mult_strict_mono) auto
  have d1: "unat d1 = unat a0 * unat r1 + unat a1 * unat r0"
    unfolding d1_def m01_def m10_def
    using m [of a0 r1] m [of a1 r0] a r by (simp add: unat_word_ariths(1) widening_mult)
  then have "unat m01 \<le> unat d1" unfolding m01_def by (simp add: widening_mult)
  then have nc: "\<not> d1 < m01" by (simp add: word_less_nat_alt)
  have "unat a2 < 2 ^ 64" by (rule unat_u64)
  then have d2: "unat d2 = unat a1 * unat r1 + unat a2 * unat r0"
    unfolding d2_def using nc m [of a1 r1] m [of a2 r0] a r
    by (simp add: unat_word_ariths(1) widening_mult)
  show ?thesis by (simp add: d1 d2 widening_mult algebra_simps)
qed

text \<open>Folding the part above bit 130 back with a factor five.\<close>

lemma fold_above:
  fixes w0 w1 w2 w3 :: u64
  defines "lo \<equiv> ucast w0 OR push_bit 64 (ucast w1) :: u128"
  defines "up \<equiv> ucast (drop_bit 2 w2) OR push_bit 62 (ucast w3) OR push_bit 126 (ucast (0 :: u64)) :: u128"
  shows "unat lo = unat w0 + 2 ^ 64 * unat w1"
    and "unat up = unat w2 div 4 + 2 ^ 62 * unat w3"
    and "unat (ucast (w2 AND 3) :: u8) = unat w2 mod 4"
proof -
  have w: "unat w0 < 2 ^ 64" "unat w1 < 2 ^ 64" "unat w2 < 2 ^ 64" "unat w3 < 2 ^ 64"
    by (rule unat_u64)+
  have u: "unat (ucast w0 :: u128) = unat w0" "unat (ucast w1 :: u128) = unat w1"
    "unat (ucast w3 :: u128) = unat w3" "unat (ucast (drop_bit 2 w2) :: u128) = unat w2 div 4"
    using w by (simp_all add: word_nat)
  show "unat lo = unat w0 + 2 ^ 64 * unat w1"
    unfolding lo_def using w by (subst unat_or_push) (simp_all add: u)
  have "up = ucast (drop_bit 2 w2) OR push_bit 62 (ucast w3)" unfolding up_def by simp
  moreover have "unat w2 div 4 < 2 ^ 62" using w(3) by (simp add: less_mult_imp_div_less)
  ultimately show "unat up = unat w2 div 4 + 2 ^ 62 * unat w3"
    using w by (simp only:) (subst unat_or_push, simp_all add: u)
  show "unat (ucast (w2 AND 3) :: u8) = unat w2 mod 4"
    by (simp add: unat_ucast_mod unat_and_3 mod_less)
qed

lemma fold_p1305: "(x + 2 ^ 130 * y) mod p1305 = (x + 5 * y) mod p1305"
proof -
  have "x + 2 ^ 130 * y = (x + 5 * y) + p1305 * y" by (simp add: algebra_simps)
  then show ?thesis by (metis mod_mult_self2)
qed

lemma carry_into_hi:
  fixes b :: u8
  assumes "unat b \<le> 6"
  shows "unat (if c then b + 1 else b) = unat b + (if c then 1 else 0)"
    and "unat (b + (if c then 1 else 0)) = unat b + (if c then 1 else 0)"
  using assms by (simp_all add: unat_word_ariths)

lemma second_fold:
  fixes lo :: u128 and hi :: u8
  assumes hi: "unat hi \<le> 4" and eq: "overflowing_add lo (ucast (drop_bit 2 hi) * 5) = (lo2, c)"
    and ge: "4 \<le> hi"
  shows "acc_value (lo2, (hi AND 3) + (if c then 1 else 0)) mod p1305 = acc_value (lo, hi) mod p1305"
    and "unat ((hi AND 3) + (if c then 1 else 0)) \<le> 3"
proof -
  from ge have "4 \<le> unat hi" by (simp add: word_le_nat_alt)
  with hi have h: "unat hi = 4" by simp
  then have and3: "unat (hi AND 3) = 0" by (simp add: unat_and_3)
  have "unat (ucast (drop_bit 2 hi) * 5 :: u128) = 5" by (simp add: word_nat h)
  with overflowing_add_value [OF eq] have v: "unat lo2 + (if c then 2 ^ 128 else 0) = unat lo + 5" by simp
  have s: "unat ((hi AND 3) + (if c then 1 else 0)) = (if c then 1 else 0)"
    using carry_into_hi(2) [of "hi AND 3" c] and3 by simp
  then show "unat ((hi AND 3) + (if c then 1 else 0)) \<le> 3" by simp
  have "acc_value (lo2, (hi AND 3) + (if c then 1 else 0)) = unat lo + 5"
    using v s by (cases c) (simp_all add: acc_value_def)
  moreover have "acc_value (lo, hi) = unat lo + 2 ^ 130 * 1" by (simp add: acc_value_def h)
  ultimately show "acc_value (lo2, (hi AND 3) + (if c then 1 else 0)) mod p1305
      = acc_value (lo, hi) mod p1305"
    by (metis fold_p1305 mult.right_neutral)
qed

definition clamped :: "u128 \<Rightarrow> bool" where
  "clamped r \<longleftrightarrow> unat (ucast r :: u64) < 2 ^ 60 \<and> unat (ucast (drop_bit 64 r) :: u64) < 2 ^ 60"

lemma poly1305_product_value:
  assumes hi: "unat acc_hi \<le> 7" and cl: "clamped r"
    and eq: "poly1305_product acc_lo acc_hi r = (lo, bits, up)"
  shows "acc_value (acc_lo, acc_hi) * unat r = (unat lo + 2 ^ 128 * unat bits) + 2 ^ 130 * unat up"
    and "5 * unat up < 2 ^ 128" and "unat bits \<le> 3"
proof -
  define a0 a1 a2 where "a0 = (ucast acc_lo :: u64)" and "a1 = (ucast (drop_bit 64 acc_lo) :: u64)"
    and "a2 = (ucast acc_hi :: u64)"
  define r0 r1 where "r0 = (ucast r :: u64)" and "r1 = (ucast (drop_bit 64 r) :: u64)"
  define d0 d1 d2 d3 where "d0 = (ucast a0 * ucast r0 :: u128)"
    and "d1 = (ucast a0 * ucast r1 + ucast a1 * ucast r0 :: u128)"
    and "d2 = (ucast a1 * ucast r1 + ucast a2 * ucast r0
                 + push_bit 64 (if d1 < ucast a0 * ucast r1 then 1 else 0) :: u128)"
    and "d3 = (ucast a2 * ucast r1 :: u128)"
  define add1 where "add1 = (ucast (ucast (drop_bit 64 d0) :: u64) + ucast (ucast d1 :: u64) :: u128)"
  define add2 where "add2 = (ucast (ucast (drop_bit 64 d1) :: u64) + ucast (ucast d2 :: u64)
                    + ucast (ucast (drop_bit 64 add1) :: u64) :: u128)"
  define add3 where "add3 = (ucast (ucast (drop_bit 64 d2) :: u64) + ucast (ucast d3 :: u64)
                    + ucast (ucast (drop_bit 64 add2) :: u64) :: u128)"
  define w0 w1 w2 w3 w4 where "w0 = (ucast d0 :: u64)" and "w1 = (ucast add1 :: u64)"
    and "w2 = (ucast add2 :: u64)" and "w3 = (ucast add3 :: u64)"
    and "w4 = (ucast (drop_bit 64 d3) + ucast (drop_bit 64 add3) :: u64)"
  define V where "V = acc_value (acc_lo, acc_hi) * unat r"
  have parts: "lo = ucast w0 OR push_bit 64 (ucast w1)" "bits = ucast (w2 AND 3)"
    "up = ucast (drop_bit 2 w2) OR push_bit 62 (ucast w3) OR push_bit 126 (ucast w4)"
    using eq unfolding w4_def w3_def w2_def w1_def w0_def add3_def add2_def add1_def d3_def d2_def
      d1_def d0_def r1_def r0_def a2_def a1_def a0_def
    by (simp_all only: poly1305_product_def Let_def prod.inject)
  have acc: "acc_value (acc_lo, acc_hi) = unat a0 + 2 ^ 64 * unat a1 + 2 ^ 128 * unat a2"
    and ur: "unat r = unat r0 + 2 ^ 64 * unat r1" and a2: "unat a2 \<le> 7"
    using limbs [of acc_lo] limbs [of r] hi
    by (simp_all add: acc_value_def unat_ucast_mod a0_def a1_def a2_def r0_def r1_def)
  have rb: "unat r0 < 2 ^ 60" "unat r1 < 2 ^ 60" using cl by (simp_all add: clamped_def r0_def r1_def)
  have "V = unat d0 + 2 ^ 64 * unat d1 + 2 ^ 128 * unat d2 + 2 ^ 192 * unat d3"
    unfolding V_def acc ur d0_def d3_def d2_def d1_def by (rule schoolbook [OF rb a2, symmetric])
  also have "\<dots> = unat w0 + 2 ^ 64 * unat w1 + 2 ^ 128 * unat w2 + 2 ^ 192 * unat w3
      + 2 ^ 256 * (unat (ucast (drop_bit 64 d3) :: u64) + unat (ucast (drop_bit 64 add3) :: u64))"
    unfolding w0_def w1_def w2_def w3_def add3_def add2_def add1_def by (rule carry_chain)
  finally have V: "V = \<dots>" .
  have "acc_value (acc_lo, acc_hi) < 2 ^ 131" "unat r < 2 ^ 124"
    using hi unat_u128 [of acc_lo] rb ur by (simp_all add: acc_value_def)
  then have "V < 2 ^ 131 * 2 ^ 124" unfolding V_def by (intro mult_strict_mono) auto
  then have Vb: "V < 2 ^ 255" by simp
  with V have z: "unat (ucast (drop_bit 64 d3) :: u64) + unat (ucast (drop_bit 64 add3) :: u64) = 0" by simp
  then have w4: "w4 = 0" unfolding w4_def by (simp add: unat_eq_zero)
  have vals: "unat lo = unat w0 + 2 ^ 64 * unat w1" "unat up = unat w2 div 4 + 2 ^ 62 * unat w3"
    "unat bits = unat w2 mod 4"
    unfolding parts w4 by (rule fold_above)+
  obtain q m where qm: "unat w2 div 4 = q" "unat w2 mod 4 = m" "unat w2 = 4 * q + m"
    by (metis mult_div_mod_eq)
  have Vs: "V = (unat lo + 2 ^ 128 * unat bits) + 2 ^ 130 * unat up"
    using V z vals(1) vals(2,3) [unfolded qm(1,2)] unfolding qm(3) by simp
  then show "acc_value (acc_lo, acc_hi) * unat r = (unat lo + 2 ^ 128 * unat bits) + 2 ^ 130 * unat up"
    unfolding V_def .
  from Vs Vb show "5 * unat up < 2 ^ 128" by simp
  from vals show "unat bits \<le> 3" by simp
qed

lemma poly1305_mulmod_value:
  assumes hi: "unat acc_hi \<le> 7" and cl: "clamped r"
  shows "acc_value (poly1305_mulmod acc_lo acc_hi r) mod p1305 = acc_value (acc_lo, acc_hi) * unat r mod p1305"
    and "unat (snd (poly1305_mulmod acc_lo acc_hi r)) \<le> 3"
proof -
  obtain lo bits up where eq: "poly1305_product acc_lo acc_hi r = (lo, bits, up)" using prod_cases3 by blast
  note pv = poly1305_product_value [OF hi cl eq]
  obtain new_lo c where new: "overflowing_add lo (up * 5) = (new_lo, c)" by fastforce
  define new_hi where "new_hi = (if c then bits + 1 else bits)"
  obtain lo2 c2 where lo2: "overflowing_add new_lo (ucast (drop_bit 2 new_hi) * 5) = (lo2, c2)" by fastforce
  have result: "poly1305_mulmod acc_lo acc_hi r =
      (if 4 \<le> new_hi then (lo2, (new_hi AND 3) + (if c2 then 1 else 0)) else (new_lo, new_hi))"
    unfolding poly1305_mulmod_def eq by (simp add: Let_def new new_hi_def [symmetric] lo2)
  have up5: "unat (up * 5) = 5 * unat up" using pv(2) by (simp add: unat_word_ariths)
  have nh: "unat new_hi = unat bits + (if c then 1 else 0)"
    unfolding new_hi_def using carry_into_hi(1) [of bits c] pv(3) by simp
  have "acc_value (new_lo, new_hi) = (unat lo + 2 ^ 128 * unat bits) + 5 * unat up"
    using overflowing_add_value [OF new] nh up5 by (cases c) (simp_all add: acc_value_def)
  then have new_val: "acc_value (new_lo, new_hi) mod p1305 = acc_value (acc_lo, acc_hi) * unat r mod p1305"
    unfolding pv(1) by (simp only: fold_p1305)
  have nh4: "unat new_hi \<le> 4" using nh pv(3) by simp
  show "acc_value (poly1305_mulmod acc_lo acc_hi r) mod p1305 = acc_value (acc_lo, acc_hi) * unat r mod p1305"
    using second_fold(1) [OF nh4 lo2] new_val unfolding result by simp
  show "unat (snd (poly1305_mulmod acc_lo acc_hi r)) \<le> 3"
    using second_fold(2) [OF nh4 lo2] unfolding result by (simp add: word_le_nat_alt)
qed

section \<open>Poly1305 computes the polynomial of the RFC\<close>

text \<open>
  The reference: each 16-byte block, the last one possibly shorter, is read with a one byte
  appended; the polynomial in \<open>r\<close> is evaluated modulo \<open>2 ^ 130 - 5\<close>.
\<close>

function mac_blocks :: "bytes \<Rightarrow> nat list" where
  "mac_blocks m = (if m = [] then [] else from_le (take 16 m @ [1]) # mac_blocks (drop 16 m))"
  by pat_completeness auto
termination
  by (relation "measure length") auto

declare mac_blocks.simps [simp del]

definition mac_reference :: "nat \<Rightarrow> nat \<Rightarrow> bytes \<Rightarrow> nat" where
  "mac_reference r s m = (foldl (\<lambda>acc n. (acc + n) * r mod p1305) 0 (mac_blocks m) + s) mod 2 ^ 128"

definition clamp_mask :: nat where
  "clamp_mask = 0x0ffffffc0ffffffc0ffffffc0fffffff"

lemma from_le_append: "from_le (xs @ ys) = from_le xs + 256 ^ length xs * from_le ys"
  by (induction xs) (simp_all add: algebra_simps)

lemma from_le_zeros [simp]: "from_le (replicate n 0) = 0"
  by (induction n) simp_all

lemma and_byte:
  assumes "a < 256" and "b < 256"
  shows "(a + 256 * x) AND (b + 256 * y) = (a AND b) + 256 * (x AND y :: nat)"
proof -
  have e: "c + 256 * z = c OR push_bit 8 z" if "c < 256" for c z :: nat
    using or_disjoint_nat [of c 8 z] that by (simp add: push_bit_eq_mult mult.commute)
  have "a AND b < 256" using nat_and_bound [of b 8 a] assms by simp
  then show ?thesis unfolding e [OF assms(1)] e [OF assms(2)] e [OF \<open>a AND b < 256\<close>]
    using nat_bit_bound [of a 8] nat_bit_bound [of b 8] assms
    by (intro bit_eqI) (fastforce simp: bit_and_iff bit_or_iff bit_push_bit_iff)
qed

lemma from_le_and:
  "length xs = length ys \<Longrightarrow> from_le (map2 (AND) xs ys) = from_le xs AND from_le ys"
proof (induction xs ys rule: list_induct2)
  case Nil
  then show ?case by simp
next
  case (Cons x xs y ys)
  then show ?case by (simp add: and_byte [OF unat_u8 unat_u8] unsigned_and_eq)
qed

lemma list16:
  assumes "length (r :: 'a list) = 16"
  obtains r0 r1 r2 r3 r4 r5 r6 r7 r8 r9 r10 r11 r12 r13 r14 r15
  where "r = [r0, r1, r2, r3, r4, r5, r6, r7, r8, r9, r10, r11, r12, r13, r14, r15]"
  using assms by (auto simp: numeral_eq_Suc length_Suc_conv)

lemma and_0xff: "(b :: u8) AND 0xff = b"
proof -
  have "(0xff :: u8) = - 1" by simp
  then show ?thesis by (simp only: and.right_neutral)
qed

lemma clamp_value:
  assumes "length r = 16"
  shows "from_le (poly1305_clamp r) = from_le r AND clamp_mask"
proof -
  define ms :: bytes where "ms = [0xff, 0xff, 0xff, 0x0f, 0xfc, 0xff, 0xff, 0x0f, 0xfc, 0xff, 0xff, 0x0f,
    0xfc, 0xff, 0xff, 0x0f]"
  have "poly1305_clamp r = map2 (AND) r ms"
    using assms by (rule list16) (simp add: poly1305_clamp_def ms_def and_0xff)
  moreover have "from_le ms = clamp_mask" by (simp add: ms_def clamp_mask_def)
  ultimately show ?thesis using assms by (simp add: from_le_and ms_def)
qed

lemma clamped_mask: "clamped (of_nat (x AND clamp_mask))"
proof -
  define n where "n = x AND clamp_mask"
  have "take_bit 64 n = take_bit 64 x AND 0x0ffffffc0fffffff"
    unfolding n_def take_bit_and clamp_mask_def by (simp add: take_bit_eq_mod [of 64 "_ :: nat"])
  then have lo: "n mod 2 ^ 64 < 2 ^ 60"
    using nat_and_bound [of "0x0ffffffc0fffffff" 60 "take_bit 64 x"] by (simp add: take_bit_eq_mod)
  have "drop_bit 64 n = drop_bit 64 x AND 0x0ffffffc0ffffffc"
    unfolding n_def drop_bit_and clamp_mask_def by (simp add: drop_bit_eq_div [of 64 "_ :: nat"])
  then have hi: "n div 2 ^ 64 < 2 ^ 60"
    using nat_and_bound [of "0x0ffffffc0ffffffc" 60 "drop_bit 64 x"] by (simp add: drop_bit_eq_div)
  have "n < 2 ^ 128" unfolding n_def by (rule nat_and_bound) (simp add: clamp_mask_def)
  then have "unat (of_nat n :: u128) = n" by (simp add: unat_of_nat)
  with lo hi show ?thesis unfolding n_def [symmetric] clamped_def by (simp add: word_nat)
qed

lemma poly1305_add_value:
  assumes "unat hi \<le> 3" and "unat hibit \<le> 1"
  shows "acc_value (poly1305_add lo hi n hibit) = acc_value (lo, hi) + unat n + 2 ^ 128 * unat hibit"
    and "unat (snd (poly1305_add lo hi n hibit)) \<le> 7"
proof -
  obtain s c where eq: "overflowing_add lo n = (s, c)" by fastforce
  have c: "unat (if c then hi + 1 else hi) = unat hi + (if c then 1 else 0)"
    using carry_into_hi(1) [of hi c] assms by simp
  then have h: "unat ((if c then hi + 1 else hi) + hibit) = unat hi + (if c then 1 else 0) + unat hibit"
    using assms by (simp add: unat_word_ariths(1))
  show "acc_value (poly1305_add lo hi n hibit) = acc_value (lo, hi) + unat n + 2 ^ 128 * unat hibit"
    using overflowing_add_value [OF eq] h
    by (cases c) (simp_all add: poly1305_add_def eq acc_value_def)
  show "unat (snd (poly1305_add lo hi n hibit)) \<le> 7"
    using h assms by (cases c) (simp_all add: poly1305_add_def eq)
qed

lemma poly1305_last_value:
  assumes "length m < 16"
  shows "poly1305_last m = (of_nat (from_le (m @ [1])), 0)" and "from_le (m @ [1]) < 2 ^ 128"
proof -
  define k where "k = 16 - length m"
  have k: "17 - length m = Suc k" "min (length m + 1) 16 = length m + 1"
    using assms by (simp_all add: k_def)
  have block: "(splice 0 m (replicate 17 0))[length m := 1] = m @ 1 # replicate k (0 :: u8)"
    using k(1) by (simp add: splice_def list_update_append drop_replicate)
  have "splice 0 (m @ [1]) (replicate 16 (0 :: u8)) = m @ [1] @ replicate (k - 1) 0"
    using k by (simp add: splice_def drop_replicate k_def)
  then have "from_le (splice 0 (m @ [1]) (replicate 16 0)) = from_le (m @ [1])"
    by (simp add: from_le_append)
  then show "poly1305_last m = (of_nat (from_le (m @ [1])), 0)"
    using assms by (simp add: poly1305_last_def Let_def block k(2))
  have "from_le (m @ [1]) < 256 ^ length (m @ [1])" by (rule from_le_bound)
  also have "\<dots> \<le> 256 ^ 16" using assms by (intro power_increasing) auto
  finally show "from_le (m @ [1]) < 2 ^ 128" by simp
qed

lemma foldl_mac_mod:
  "foldl (\<lambda>acc n. (acc + n) * r mod p) (acc mod p) ns mod p = foldl (\<lambda>acc n. (acc + n) * r mod p) acc ns mod (p :: nat)"
proof -
  have "(acc mod p + n) * r mod p = (acc + n) * r mod p" for n by (metis mod_add_left_eq mod_mult_left_eq)
  then show ?thesis by (cases ns) simp_all
qed

lemma poly1305_step:
  assumes hi: "unat hi \<le> 3" and hb: "unat hibit \<le> 1" and cl: "clamped r"
    and eq: "poly1305_add lo hi n hibit = (lo1, hi1)" "poly1305_mulmod lo1 hi1 r = (lo2, hi2)"
  shows "acc_value (lo2, hi2) mod p1305
      = (acc_value (lo, hi) + (unat n + 2 ^ 128 * unat hibit)) * unat r mod p1305" and "unat hi2 \<le> 3"
proof -
  from poly1305_add_value [OF hi hb, of lo n] eq(1)
  have a: "acc_value (lo1, hi1) = acc_value (lo, hi) + (unat n + 2 ^ 128 * unat hibit)"
    and h: "unat hi1 \<le> 7" by simp_all
  from poly1305_mulmod_value [OF h cl, of lo1] eq(2) a
  show "acc_value (lo2, hi2) mod p1305
      = (acc_value (lo, hi) + (unat n + 2 ^ 128 * unat hibit)) * unat r mod p1305" and "unat hi2 \<le> 3"
    by simp_all
qed

lemma poly1305_loop_value:
  assumes "clamped r" and "unat hi \<le> 3"
  shows "acc_value (poly1305_loop r m lo hi) mod p1305
      = foldl (\<lambda>acc n. (acc + n) * unat r mod p1305) (acc_value (lo, hi)) (mac_blocks m) mod p1305
    \<and> unat (snd (poly1305_loop r m lo hi)) \<le> 3"
  using assms
proof (induction r m lo hi rule: poly1305_loop.induct)
  case (1 r m lo hi)
  let ?f = "\<lambda>acc n. (acc + n) * unat r mod p1305"
  consider "m = []" | "m \<noteq> []" "length m < 16" | "16 \<le> length m" by linarith
  then show ?case
  proof cases
    case 1
    then show ?thesis using \<open>unat hi \<le> 3\<close> by (simp add: poly1305_loop.simps mac_blocks.simps)
  next
    case 2
    obtain lo1 hi1 where a: "poly1305_add lo hi (of_nat (from_le (m @ [1]))) 0 = (lo1, hi1)" by fastforce
    obtain lo2 hi2 where b: "poly1305_mulmod lo1 hi1 r = (lo2, hi2)" by fastforce
    have l: "poly1305_loop r m lo hi = (lo2, hi2)" "mac_blocks m = [from_le (m @ [1])]"
      using 2 by (simp_all add: poly1305_loop.simps [of r m] poly1305_last_value a b
          mac_blocks.simps [of m] mac_blocks.simps [of "[]"])
    have "unat (of_nat (from_le (m @ [1])) :: u128) = from_le (m @ [1])"
      using poly1305_last_value(2) [OF 2(2)] by (simp add: unat_of_nat)
    with poly1305_step [OF \<open>unat hi \<le> 3\<close> _ \<open>clamped r\<close> a b] show ?thesis unfolding l by simp
  next
    case 3
    define n where "n = from_le (take 16 m)"
    obtain lo1 hi1 where a: "poly1305_add lo hi (of_nat n) 1 = (lo1, hi1)" by fastforce
    obtain lo2 hi2 where b: "poly1305_mulmod lo1 hi1 r = (lo2, hi2)" by fastforce
    have ne: "m \<noteq> []" using 3 by auto
    have l: "poly1305_loop r m lo hi = poly1305_loop r (drop 16 m) lo2 hi2"
      using 3 by (simp add: poly1305_loop.simps [of r m] a b flip: n_def)
    have bl: "mac_blocks m = (n + 2 ^ 128) # mac_blocks (drop 16 m)"
      using 3 ne by (simp add: mac_blocks.simps [of m] n_def from_le_append)
    have "n < 2 ^ 128" using from_le_bound [of "take 16 m"] 3 by (simp add: n_def)
    then have "unat (of_nat n :: u128) = n" by (simp add: unat_of_nat)
    with poly1305_step [OF \<open>unat hi \<le> 3\<close> _ \<open>clamped r\<close> a b]
    have s: "acc_value (lo2, hi2) mod p1305 = ?f (acc_value (lo, hi)) (n + 2 ^ 128)" "unat hi2 \<le> 3"
      by simp_all
    have "acc_value (poly1305_loop r (drop 16 m) lo2 hi2) mod p1305
        = foldl ?f (acc_value (lo2, hi2)) (mac_blocks (drop 16 m)) mod p1305
      \<and> unat (snd (poly1305_loop r (drop 16 m) lo2 hi2)) \<le> 3"
      using "1.IH" [of "of_nat n" "(lo1, hi1)" lo1 hi1 "(lo2, hi2)" lo2 hi2] 3 a b s(2) \<open>clamped r\<close>
      by (simp add: n_def)
    moreover have "foldl ?f (acc_value (lo2, hi2)) (mac_blocks (drop 16 m)) mod p1305
        = foldl ?f (acc_value (lo, hi)) (mac_blocks m) mod p1305"
      unfolding bl foldl.simps s(1) [symmetric] by (rule foldl_mac_mod [symmetric])
    ultimately show ?thesis unfolding l by simp
  qed
qed

lemma poly1305_reduce_value:
  assumes "unat hi \<le> 3"
  shows "unat (fst (poly1305_reduce lo hi)) = acc_value (lo, hi) mod p1305 mod 2 ^ 128"
proof -
  obtain t c where eq: "overflowing_add lo 5 = (t, c)" by fastforce
  have th: "unat (hi + (if c then 1 else 0)) = unat hi + (if c then 1 else 0)"
    using carry_into_hi(2) [of hi c] assms by simp
  have v: "unat t + (if c then 2 ^ 128 else 0) = unat lo + 5"
    using overflowing_add_value [OF eq] by simp
  have lo: "unat lo < 2 ^ 128" and t: "unat t < 2 ^ 128" by (rule unat_u128)+
  show ?thesis
  proof (cases "4 \<le> hi + (if c then 1 else 0)")
    case True
    then have "4 \<le> unat hi + (if c then 1 else 0)" using th by (simp add: word_le_nat_alt)
    then have c: "c" "unat hi = 3" using assms by (auto split: if_splits)
    then have "acc_value (lo, hi) = unat t + p1305" "unat t < p1305"
      using v t lo by (simp_all add: acc_value_def)
    then show ?thesis using True t by (simp add: poly1305_reduce_def eq Let_def)
  next
    case False
    then have "\<not> 4 \<le> unat hi + (if c then 1 else 0)" using th by (simp add: word_le_nat_alt)
    then have "acc_value (lo, hi) < p1305"
      using v t lo assms by (cases c) (simp_all add: acc_value_def)
    then show ?thesis using False lo by (simp add: poly1305_reduce_def eq acc_value_def)
  qed
qed

lemma poly1305_mac_reference:
  assumes "length key = 32"
  shows "poly1305_mac key m
    = to_le 16 (mac_reference (from_le (take 16 key) AND clamp_mask) (from_le (drop 16 key)) m)"
proof -
  define R where "R = from_le (take 16 key) AND clamp_mask"
  define S where "S = from_le (drop 16 key)"
  obtain lo hi where l: "poly1305_loop (of_nat R) m 0 0 = (lo, hi)" by fastforce
  have "R < 2 ^ 128" unfolding R_def by (rule nat_and_bound) (simp add: clamp_mask_def)
  then have uR: "unat (of_nat R :: u128) = R" by (simp add: unat_of_nat)
  have "S < 2 ^ 128" using from_le_bound [of "drop 16 key"] assms by (simp add: S_def)
  then have uS: "unat (of_nat S :: u128) = S" by (simp add: unat_of_nat)
  have "clamped (of_nat R)" unfolding R_def by (rule clamped_mask)
  from poly1305_loop_value [OF this, of 0 m 0] l uR
  have v: "acc_value (lo, hi) mod p1305
      = foldl (\<lambda>acc n. (acc + n) * R mod p1305) 0 (mac_blocks m) mod p1305" and h: "unat hi \<le> 3"
    by (simp_all add: acc_value_def)
  have fm: "foldl (\<lambda>acc n. (acc + n) * R mod p1305) 0 ns mod p1305 = foldl (\<lambda>acc n. (acc + n) * R mod p1305) 0 ns" for ns
    by (induction ns rule: rev_induct) simp_all
  have r: "from_le (poly1305_clamp (take 16 key)) = R" unfolding R_def using assms by (intro clamp_value) simp
  have s: "slice 16 16 key = drop 16 key" using assms by (simp add: slice_def)
  have "poly1305_mac key m = to_le 16 (unat (fst (poly1305_reduce lo hi) + of_nat S))"
    unfolding poly1305_mac_def r s S_def [symmetric] by (simp add: l split_beta Let_def del: to_le_numeral)
  also have "unat (fst (poly1305_reduce lo hi) + of_nat S) = mac_reference R S m"
    unfolding mac_reference_def unat_word_ariths(1) uS poly1305_reduce_value [OF h] v fm
    by (simp add: mod_simps)
  finally show ?thesis unfolding R_def S_def .
qed

section \<open>Encryption and decryption\<close>

lemma length_chacha20_block [simp]: "length (chacha20_block key ctr nonce) = 64"
  by (simp add: chacha20_block_def Let_def length_concat comp_def sum_list_triv del: to_le_numeral)

lemma length_chacha20_xor [simp]: "length (chacha20_xor key nonce ctr data) = length data"
proof (induction key nonce ctr data rule: chacha20_xor.induct)
  case (1 key nonce ctr data)
  then show ?case by (subst chacha20_xor.simps) (simp add: Let_def)
qed

lemma map2_xor_involution:
  "length ks = length xs \<Longrightarrow> map2 (XOR) (map2 (XOR) xs ks) ks = (xs :: bytes)"
  by (induction ks xs rule: list_induct2) (simp_all add: xor.assoc)

lemma chacha20_xor_involution [simp]:
  "chacha20_xor key nonce ctr (chacha20_xor key nonce ctr data) = data"
proof (induction key nonce ctr data rule: chacha20_xor.induct)
  case (1 key nonce ctr data)
  show ?case
  proof (cases "data = []")
    case True
    then show ?thesis by (simp add: chacha20_xor.simps)
  next
    case False
    define n where "n = min (length data) 64"
    define ks where "ks = take n (chacha20_block key ctr nonce)"
    define hd' where "hd' = map2 (XOR) (take n data) ks"
    have len: "length ks = n" "length hd' = n" "length (take n data) = n"
      by (simp_all add: ks_def hd'_def n_def)
    have enc: "chacha20_xor key nonce ctr data = hd' @ chacha20_xor key nonce (ctr + 1) (drop n data)"
      using False by (subst chacha20_xor.simps) (simp add: Let_def n_def ks_def hd'_def)
    have n': "n = min (length (chacha20_xor key nonce ctr data)) 64" by (simp add: n_def)
    have "chacha20_xor key nonce ctr data \<noteq> []" using False by (metis length_0_conv length_chacha20_xor)
    then have "chacha20_xor key nonce ctr (chacha20_xor key nonce ctr data) =
        map2 (XOR) (take n (chacha20_xor key nonce ctr data)) ks
        @ chacha20_xor key nonce (ctr + 1) (drop n (chacha20_xor key nonce ctr data))"
      by (subst chacha20_xor.simps) (simp only: Let_def n' [symmetric] ks_def if_False)
    also have "\<dots> = map2 (XOR) hd' ks
        @ chacha20_xor key nonce (ctr + 1) (chacha20_xor key nonce (ctr + 1) (drop n data))"
      unfolding enc using len by simp
    also have "\<dots> = take n data @ drop n data"
      using "1.IH" [OF False refl refl] map2_xor_involution [of ks "take n data"] len
      by (simp add: hd'_def n_def)
    finally show ?thesis by simp
  qed
qed

lemma length_poly1305_mac [simp]: "length (poly1305_mac key m) = 16"
  unfolding poly1305_mac_def by (simp only: Let_def split_beta length_to_le)

lemma fold_or_zero: "fold (\<lambda>i d. d OR f i) xs d = (0 :: u8) \<longleftrightarrow> d = 0 \<and> (\<forall>i \<in> set xs. f i = 0)"
  by (induction xs arbitrary: d) (auto simp: or_eq_0_iff)

lemma xor_zero_iff: "(a :: u8) XOR b = 0 \<longleftrightarrow> a = b"
proof
  assume "a XOR b = 0"
  then have "(a XOR b) XOR b = b" by simp
  then show "a = b" by (simp add: xor.assoc)
qed simp

lemma tag_diff_zero:
  assumes "length s = 16" and "length t = 16"
  shows "tag_diff s t = 0 \<longleftrightarrow> s = t"
  using assms by (auto simp: tag_diff_def fold_or_zero TAG_SIZE_def xor_zero_iff list_eq_iff_nth_eq)

lemma aead_decrypt_iff:
  "aead_decrypt_aad key nonce aad c = Some p \<longleftrightarrow> c = aead_encrypt_aad key nonce aad p"
proof (cases "length c < 16")
  case True
  then show ?thesis by (auto simp: aead_decrypt_aad_def aead_encrypt_aad_def TAG_SIZE_def Let_def)
next
  case False
  define body where "body = take (length c - 16) c"
  define tag where "tag = drop (length c - 16) c"
  define t where "t = (\<lambda>b. poly1305_mac (take 32 (chacha20_block key 0 nonce)) (build_mac_input aad b))"
  have c: "c = body @ tag" "length tag = 16" using False by (simp_all add: body_def tag_def)
  have dec: "aead_decrypt_aad key nonce aad c = Some p
      \<longleftrightarrow> tag = t body \<and> chacha20_xor key nonce 1 body = p"
    using False c(2) unfolding aead_decrypt_aad_def TAG_SIZE_def
    by (simp add: Let_def tag_diff_zero t_def flip: body_def tag_def)
  have enc: "aead_encrypt_aad key nonce aad p = chacha20_xor key nonce 1 p @ t (chacha20_xor key nonce 1 p)"
    by (simp add: aead_encrypt_aad_def Let_def t_def)
  have "c = aead_encrypt_aad key nonce aad p
      \<longleftrightarrow> body = chacha20_xor key nonce 1 p \<and> tag = t (chacha20_xor key nonce 1 p)"
    unfolding enc c(1) using c(2) by (simp add: t_def)
  moreover have "chacha20_xor key nonce 1 body = p \<longleftrightarrow> body = chacha20_xor key nonce 1 p"
    by (metis chacha20_xor_involution)
  ultimately show ?thesis using dec by auto
qed

text \<open>
  The contract an authenticated cipher gives to its callers: opening succeeds exactly on what sealing
  produces for the same key, nonce and associated data.
\<close>

locale authenticated_cipher =
  fixes seal :: "bytes \<Rightarrow> bytes \<Rightarrow> bytes \<Rightarrow> bytes \<Rightarrow> bytes"
    and unseal :: "bytes \<Rightarrow> bytes \<Rightarrow> bytes \<Rightarrow> bytes \<Rightarrow> bytes option"
  assumes unseal_iff: "unseal k n a c = Some p \<longleftrightarrow> c = seal k n a p"
begin

lemma unseal_seal: "unseal k n a (seal k n a p) = Some p"
  by (simp add: unseal_iff)

lemma unseal_reject: "(\<And>p. c \<noteq> seal k n a p) \<Longrightarrow> unseal k n a c = None"
  by (metis not_None_eq unseal_iff)

lemma seal_inject: "seal k n a p = seal k n a q \<Longrightarrow> p = q"
  by (metis option.inject unseal_seal)

end

interpretation chacha: authenticated_cipher aead_encrypt_aad aead_decrypt_aad
  by unfold_locales (rule aead_decrypt_iff)

lemma pad16_inject: "pad16 a = pad16 b \<Longrightarrow> length a = length b \<Longrightarrow> a = b"
  by (simp add: pad16_def)

lemma build_mac_input_inject:
  assumes eq: "build_mac_input a c = build_mac_input a' c'"
    and len: "length a < 2 ^ 64" "length c < 2 ^ 64" "length a' < 2 ^ 64" "length c' < 2 ^ 64"
  shows "a = a' \<and> c = c'"
proof -
  have "length (pad16 a @ pad16 c) = length (pad16 a' @ pad16 c')"
    using arg_cong [OF eq, of length] by (simp add: build_mac_input_def del: to_le_numeral)
  with eq have pre: "pad16 a @ pad16 c = pad16 a' @ pad16 c'"
    and lens: "to_le 8 (length a) = to_le 8 (length a')" "to_le 8 (length c) = to_le 8 (length c')"
    by (simp_all add: build_mac_input_def del: to_le_numeral flip: append_assoc)
  have l: "length a = length a'" "length c = length c'"
    using arg_cong [OF lens(1), of from_le] arg_cong [OF lens(2), of from_le] len
    by (simp_all add: codec del: to_le_numeral)
  then have "length (pad16 a) = length (pad16 a')" by (simp add: pad16_def)
  with pre have "pad16 a = pad16 a'" "pad16 c = pad16 c'" by simp_all
  with l show ?thesis by (simp add: pad16_inject)
qed

end
