(* ===== verification/Csprng.thy ===== *)
theory Csprng
  imports Aead
begin

text \<open>
  The random generator of \<open>kernel/src/security/csprng.rs\<close>: the ChaCha20 output stream with its re-keying,
  the draws taken from it, and the seed built from the hardware generator, timing jitter and the clock.
  The processor's answers (RDSEED, RDRAND, the time-stamp counter, the clock) are the fields of the
  record \<open>entropy\<close>, and BLAKE3's key derivation is the argument \<open>derive\<close>. A draw before \<open>init\<close> panics; a
  draw that rejects zero and never sees anything else does not return.
\<close>

section \<open>Definitions\<close>

record rng =
  rng_key :: bytes
  rng_counter :: u32
  rng_buffer :: bytes
  rng_pos :: nat

text \<open>The generator's own copy of the ChaCha20 block function, which fills the state word by word.\<close>

definition rng_init_state :: "bytes \<Rightarrow> u32 \<Rightarrow> bytes \<Rightarrow> u32 list" where
  "rng_init_state key counter nonce =
     (let s = replicate 16 0;
          s = s[0 := 0x61707865]; s = s[1 := 0x3320646e]; s = s[2 := 0x79622d32]; s = s[3 := 0x6b206574];
          s = fold (\<lambda>i s. s[4 + i := le_word key (i * 4)]) [0..<8] s;
          s = s[12 := counter]
      in fold (\<lambda>i s. s[13 + i := le_word nonce (i * 4)]) [0..<3] s)"

definition rng_chacha20_block :: "bytes \<Rightarrow> u32 \<Rightarrow> bytes \<Rightarrow> bytes" where
  "rng_chacha20_block key counter nonce =
     (let initial = rng_init_state key counter nonce; s = (double_round ^^ 10) initial
      in fold (\<lambda>i out. splice (i * 4) (to_le 4 (unat (s ! i + initial ! i))) out) [0..<16] (replicate 64 0))"

definition rng_refill :: "rng \<Rightarrow> rng" where
  "rng_refill r =
     (let r = r\<lparr>rng_buffer := rng_chacha20_block (rng_key r) (rng_counter r) (replicate 12 0),
                rng_counter := rng_counter r + 1, rng_pos := 0\<rparr>
      in if rng_counter r mod 64 = 0
         then let new_key = take 32 (rng_buffer r)
              in r\<lparr>rng_key := new_key, rng_buffer := rng_chacha20_block new_key (rng_counter r) (replicate 12 0),
                   rng_counter := rng_counter r + 1\<rparr>
         else r)"

lemma rng_pos_refill [simp]: "rng_pos (rng_refill r) = 0"
  by (simp add: rng_refill_def Let_def)

definition rng_new :: "bytes \<Rightarrow> rng" where
  "rng_new seed = rng_refill (rng_refill
     \<lparr>rng_key = seed, rng_counter = 0, rng_buffer = replicate 64 0, rng_pos = 64\<rparr>)"

definition rng_next_u64 :: "rng \<Rightarrow> u64 \<times> rng" where
  "rng_next_u64 r =
     (let r = (if 64 < rng_pos r + 8 then rng_refill r else r)
      in (of_nat (from_le (slice (rng_pos r) 8 (rng_buffer r))), r\<lparr>rng_pos := rng_pos r + 8\<rparr>))"

definition rng_next_u128 :: "rng \<Rightarrow> u128 \<times> rng" where
  "rng_next_u128 r =
     (let (hi, r) = rng_next_u64 r; (lo, r) = rng_next_u64 r in (push_bit 64 (ucast hi) OR ucast lo, r))"

function rng_fill :: "nat \<Rightarrow> rng \<Rightarrow> bytes \<times> rng" where
  "rng_fill n r =
     (if n = 0 then ([], r)
      else let r = (if 64 \<le> rng_pos r then rng_refill r else r);
               k = min (64 - rng_pos r) n;
               (rest, r') = rng_fill (n - k) (r\<lparr>rng_pos := rng_pos r + k\<rparr>)
           in (slice (rng_pos r) k (rng_buffer r) @ rest, r'))"
  by pat_completeness auto
termination
  by (relation "measure fst") auto

declare rng_fill.simps [simp del]

definition rng_next_256 :: "rng \<Rightarrow> bytes \<times> rng" where
  "rng_next_256 r =
     fold (\<lambda>i (out, r). let (val, r) = rng_next_u64 r in (splice (i * 8) (to_le 8 (unat val)) out, r))
       [0..<4] (replicate 32 0, r)"

section \<open>Seeding\<close>

record entropy =
  has_rdseed :: bool
  has_rdrand :: bool
  rdseed64 :: "nat \<Rightarrow> u64 option"
  rdrand64 :: "nat \<Rightarrow> u64 option"
  rdtsc :: "nat \<Rightarrow> u64"
  unix_time :: "u64 option"

definition HW_WORDS :: nat where "HW_WORDS = 8"

text \<open>Up to \<open>tries\<close> executions of the instruction; the \<open>i\<close>-th one answers \<open>src i\<close>.\<close>

fun hw_draw :: "(nat \<Rightarrow> u64 option) \<Rightarrow> nat \<Rightarrow> nat \<Rightarrow> u64 option \<times> nat" where
  "hw_draw src i 0 = (None, i)"
| "hw_draw src i (Suc tries) = (case src i of Some v \<Rightarrow> (Some v, i + 1) | None \<Rightarrow> hw_draw src (i + 1) tries)"

fun hw_words :: "(nat \<Rightarrow> u64 option) \<Rightarrow> nat \<Rightarrow> nat \<Rightarrow> u64 list option" where
  "hw_words src i 0 = Some []"
| "hw_words src i (Suc k) =
     (case hw_draw src i 100 of
        (None, _) \<Rightarrow> None
      | (Some v, i') \<Rightarrow> if v = 0 \<or> v = - 1 then None else map_option ((#) v) (hw_words src i' k))"

definition hardware_words :: "entropy \<Rightarrow> u64 list option" where
  "hardware_words en =
     (if \<not> has_rdseed en \<and> \<not> has_rdrand en then None
      else let source = (if has_rdseed en then rdseed64 en else rdrand64 en)
           in case hw_words source 0 HW_WORDS of
                None \<Rightarrow> None
              | Some words \<Rightarrow>
                  if list_ex (\<lambda>i. list_ex (\<lambda>j. words ! i = words ! j) [i + 1..<HW_WORDS]) [0..<HW_WORDS]
                  then None else Some words)"

text \<open>\<open>jitter\<close> gives the bytes it feeds to the hasher; its \<open>i\<close>-th step reads the counter a second time.\<close>

fun jitter_loop :: "(nat \<Rightarrow> u64) \<Rightarrow> nat list \<Rightarrow> u64 \<Rightarrow> u64 list \<Rightarrow> bytes" where
  "jitter_loop tsc [] prev scratch = to_le 8 (unat (scratch ! 0))"
| "jitter_loop tsc (i # is) prev scratch =
     (let slot = unat ((prev XOR of_nat (i * 0x9E3779B9)) mod 64);
          scratch = scratch[slot := word_rotl 7 (scratch ! slot + prev)];
          now = tsc (i + 1)
      in to_le 8 (unat (now - prev)) @ jitter_loop tsc is now scratch)"

definition jitter :: "entropy \<Rightarrow> bytes" where
  "jitter en = jitter_loop (rdtsc en) [0..<1024] (rdtsc en 0) (replicate 64 0)"

definition build_seed :: "(bytes \<Rightarrow> bytes \<Rightarrow> bytes) \<Rightarrow> entropy \<Rightarrow> bytes \<times> bool" where
  "build_seed derive en =
     (let hw = hardware_words en;
          h = (case hw of Some words \<Rightarrow> concat (map (\<lambda>w. to_le 8 (unat w)) words) | None \<Rightarrow> []);
          h = h @ jitter en;
          h = (case unix_time en of Some t \<Rightarrow> h @ to_le 8 (unat t) | None \<Rightarrow> h)
      in (derive (lit ''nopeekOS csprng seed v1'') h, hw \<noteq> None))"

section \<open>The generator behind its lock\<close>

record csprng =
  RNG :: "rng option"
  HW_SEEDED :: bool

datatype crash = Panic | Hang

definition csprng_init :: "(bytes \<Rightarrow> bytes \<Rightarrow> bytes) \<Rightarrow> entropy \<Rightarrow> 's csprng_scheme \<Rightarrow> 's csprng_scheme" where
  "csprng_init derive en s =
     (let (seed, hw) = build_seed derive en in s\<lparr>RNG := Some (rng_new seed), HW_SEEDED := hw\<rparr>)"

definition csprng_reseed :: "(bytes \<Rightarrow> bytes \<Rightarrow> bytes) \<Rightarrow> entropy \<Rightarrow> 's csprng_scheme \<Rightarrow> 's csprng_scheme" where
  "csprng_reseed derive en s =
     (let (fresh, hw) = build_seed derive en
      in case RNG s of
           None \<Rightarrow> s
         | Some r \<Rightarrow>
             let r = r\<lparr>rng_key := derive (lit ''nopeekOS csprng reseed v1'') (rng_key r @ fresh)\<rparr>
             in s\<lparr>RNG := Some (rng_refill r), HW_SEEDED := hw\<rparr>)"

text \<open>The loops that reject zero: \<open>None\<close> when no draw is ever accepted.\<close>

partial_function (option) draw_256 :: "rng \<Rightarrow> (bytes \<times> rng) option" where
  "draw_256 r = (let (val, r) = rng_next_256 r in if val \<noteq> replicate 32 0 then Some (val, r) else draw_256 r)"

partial_function (option) draw_u128 :: "rng \<Rightarrow> (u128 \<times> rng) option" where
  "draw_u128 r = (let (val, r) = rng_next_u128 r in if val \<noteq> 0 then Some (val, r) else draw_u128 r)"

definition with_rng :: "(rng \<Rightarrow> ('a \<times> rng) option) \<Rightarrow> ('s csprng_scheme, crash, 'a) op" where
  "with_rng f s =
     (case RNG s of
        None \<Rightarrow> (Inl Panic, s)
      | Some r \<Rightarrow> (case f r of None \<Rightarrow> (Inl Hang, s) | Some (v, r') \<Rightarrow> (Inr v, s\<lparr>RNG := Some r'\<rparr>)))"

definition random_256 :: "('s csprng_scheme, crash, bytes) op" where
  "random_256 = with_rng draw_256"

definition random_u128 :: "('s csprng_scheme, crash, u128) op" where
  "random_u128 = with_rng draw_u128"

definition random_u64 :: "('s csprng_scheme, crash, u64) op" where
  "random_u64 = with_rng (\<lambda>r. Some (rng_next_u64 r))"

definition random_fill :: "nat \<Rightarrow> ('s csprng_scheme, crash, bytes) op" where
  "random_fill n = with_rng (\<lambda>r. Some (rng_fill n r))"

section \<open>The block function\<close>

lemma fold_splice_blocks:
  assumes "\<And>i. length (f i) = k" and "n * k \<le> length ys"
  shows "fold (\<lambda>i out. splice (i * k) (f i) out) [0..<n] ys = concat (map f [0..<n]) @ drop (n * k) ys"
  using assms(2)
proof (induction n)
  case 0
  then show ?case by simp
next
  case (Suc n)
  have len: "length (concat (map f [0..<n])) = n * k"
    using assms(1) by (simp add: length_concat comp_def sum_list_triv)
  have "fold (\<lambda>i out. splice (i * k) (f i) out) [0..<Suc n] ys
      = splice (n * k) (f n) (concat (map f [0..<n]) @ drop (n * k) ys)"
    using Suc by simp
  also have "\<dots> = concat (map f [0..<Suc n]) @ drop (Suc n * k) ys"
    using assms(1) Suc.prems len by (simp add: splice_def add.commute)
  finally show ?case .
qed

lemma rng_init_state_eq: "rng_init_state key counter nonce = chacha20_init key counter nonce"
  by (simp add: rng_init_state_def chacha20_init_def Let_def upt_conv_Cons replicate_numeral)

lemma rng_chacha20_block_eq: "rng_chacha20_block key counter nonce = chacha20_block key counter nonce"
  unfolding rng_chacha20_block_def chacha20_block_def rng_init_state_eq Let_def
  by (subst fold_splice_blocks) (simp_all del: to_le_numeral upt_conv_Cons)

definition rng_inv :: "rng \<Rightarrow> bool" where
  "rng_inv r \<longleftrightarrow> length (rng_key r) = 32 \<and> length (rng_buffer r) = 64 \<and> rng_pos r \<le> 64"

lemma rng_inv_refill: "length (rng_key r) = 32 \<Longrightarrow> rng_inv (rng_refill r)"
  by (simp add: rng_inv_def rng_refill_def rng_chacha20_block_eq Let_def)

lemma rng_inv_key: "rng_inv r \<Longrightarrow> length (rng_key r) = 32"
  by (simp add: rng_inv_def)

lemma rng_inv_new: "length seed = 32 \<Longrightarrow> rng_inv (rng_new seed)"
  unfolding rng_new_def by (intro rng_inv_refill rng_inv_key) (simp add: rng_inv_def)

lemma rng_inv_next_u64: "rng_inv r \<Longrightarrow> rng_inv (snd (rng_next_u64 r))"
  using rng_inv_refill [of r] by (auto simp: rng_next_u64_def rng_inv_def Let_def)

section \<open>Draws take consecutive bytes of the stream\<close>

lemma rng_fill_0 [simp]: "rng_fill 0 r = ([], r)"
  by (simp add: rng_fill.simps)

text \<open>The state a draw reads from: the buffer is refilled only when it is used up.\<close>

definition rng_ready :: "rng \<Rightarrow> rng" where
  "rng_ready r = (if 64 \<le> rng_pos r then rng_refill r else r)"

lemma rng_ready_pos: "rng_pos (rng_ready r) < 64"
  by (simp add: rng_ready_def)

lemma rng_ready_inv: "rng_inv r \<Longrightarrow> rng_inv (rng_ready r)"
  by (simp add: rng_ready_def rng_inv_refill rng_inv_key)

lemma rng_fill_pos:
  assumes "0 < n"
  shows "rng_fill n r = (let r0 = rng_ready r; k = min (64 - rng_pos r0) n;
      (rest, r') = rng_fill (n - k) (r0\<lparr>rng_pos := rng_pos r0 + k\<rparr>)
    in (slice (rng_pos r0) k (rng_buffer r0) @ rest, r'))"
  using assms by (subst rng_fill.simps) (simp only: rng_ready_def Let_def if_False neq0_conv [symmetric])

lemma slice_append: "slice p (k + j) xs = slice p k xs @ slice (p + k) j xs"
  by (simp add: slice_def take_add) (simp add: add.commute)

lemma rng_fill_beyond:
  assumes "64 - rng_pos (rng_ready r) \<le> n" and "0 < n"
  shows "rng_fill n r =
    (drop (rng_pos (rng_ready r)) (take 64 (rng_buffer (rng_ready r)))
       @ fst (rng_fill (n - (64 - rng_pos (rng_ready r))) ((rng_ready r)\<lparr>rng_pos := 64\<rparr>)),
     snd (rng_fill (n - (64 - rng_pos (rng_ready r))) ((rng_ready r)\<lparr>rng_pos := 64\<rparr>)))"
proof -
  have "rng_pos (rng_ready r) + (64 - rng_pos (rng_ready r)) = 64" using rng_ready_pos [of r] by simp
  then show ?thesis
    using assms rng_fill_pos [OF assms(2), of r]
    by (simp only: Let_def split_beta min_absorb1 slice_def drop_take)
qed

lemma rng_fill_within:
  assumes "n \<le> 64 - rng_pos (rng_ready r)" and "0 < n"
  shows "rng_fill n r = (slice (rng_pos (rng_ready r)) n (rng_buffer (rng_ready r)),
    (rng_ready r)\<lparr>rng_pos := rng_pos (rng_ready r) + n\<rparr>)"
  using rng_fill_pos [OF assms(2), of r] assms(1) by (simp add: min_absorb2 Let_def)

lemma rng_fill_add:
  "rng_fill (a + b) r =
     (fst (rng_fill a r) @ fst (rng_fill b (snd (rng_fill a r))), snd (rng_fill b (snd (rng_fill a r))))"
proof (induction a r rule: rng_fill.induct)
  case (1 a r)
  define r0 where "r0 = rng_ready r"
  define v where "v = 64 - rng_pos r0"
  consider "a = 0" | "b = 0" | "0 < a" "0 < b" "v < a" | "0 < a" "0 < b" "a = v" | "0 < a" "0 < b" "a < v"
    by linarith
  then show ?case
  proof cases
    case 1
    then show ?thesis by simp
  next
    case 2
    then show ?thesis by simp
  next
    case 3
    define r1 where "r1 = r0\<lparr>rng_pos := 64\<rparr>"
    have p: "rng_pos r0 + v = 64" using rng_ready_pos [of r] by (simp add: v_def r0_def)
    have ih: "rng_fill (a - v + b) r1 = (fst (rng_fill (a - v) r1) @ fst (rng_fill b (snd (rng_fill (a - v) r1))),
        snd (rng_fill b (snd (rng_fill (a - v) r1))))"
      using "1.IH" [of r0 v] 3 p by (simp add: r1_def r0_def v_def rng_ready_def)
    have ab: "a + b - v = a - v + b" using 3 by simp
    show ?thesis
      using rng_fill_beyond [of r a] rng_fill_beyond [of r "a + b"] 3
      unfolding r0_def [symmetric] v_def [symmetric] r1_def [symmetric] ab ih by simp
  next
    case 4
    have "rng_pos r0 + a = 64" using rng_ready_pos [of r] 4 by (simp add: v_def r0_def)
    then show ?thesis
      using rng_fill_within [of a r] rng_fill_beyond [of r "a + b"] 4
      unfolding r0_def [symmetric] v_def [symmetric] by (simp add: slice_def drop_take v_def)
  next
    case 5
    define r1 where "r1 = r0\<lparr>rng_pos := rng_pos r0 + a\<rparr>"
    have fa: "rng_fill a r = (slice (rng_pos r0) a (rng_buffer r0), r1)"
      using rng_fill_within [of a r] 5 unfolding r0_def [symmetric] v_def [symmetric] r1_def by simp
    have r1: "rng_ready r1 = r1" "rng_pos r1 = rng_pos r0 + a" "rng_buffer r1 = rng_buffer r0"
      "64 - rng_pos r1 = v - a"
      using 5 by (simp_all add: rng_ready_def r1_def v_def)
    define j where "j = min (v - a) b"
    have j: "min v (a + b) = a + j" "a + b - (a + j) = b - j" using 5 by (auto simp: j_def min_def)
    have mj: "min (64 - (rng_pos r0 + a)) b = j" using r1(2,4) by (simp add: j_def)
    have upd: "r1\<lparr>rng_pos := rng_pos r0 + a + j\<rparr> = r0\<lparr>rng_pos := rng_pos r0 + (a + j)\<rparr>"
      by (simp add: r1_def add.assoc)
    have "rng_fill b r1 = (slice (rng_pos r0 + a) j (rng_buffer r0)
          @ fst (rng_fill (b - j) (r0\<lparr>rng_pos := rng_pos r0 + (a + j)\<rparr>)),
        snd (rng_fill (b - j) (r0\<lparr>rng_pos := rng_pos r0 + (a + j)\<rparr>)))"
      using rng_fill_pos [OF 5(2), of r1] unfolding r1(1) Let_def r1(2,3) mj upd split_beta .
    moreover have "rng_fill (a + b) r = (slice (rng_pos r0) (a + j) (rng_buffer r0)
          @ fst (rng_fill (b - j) (r0\<lparr>rng_pos := rng_pos r0 + (a + j)\<rparr>)),
        snd (rng_fill (b - j) (r0\<lparr>rng_pos := rng_pos r0 + (a + j)\<rparr>)))"
      using rng_fill_pos [of "a + b" r] 5(1)
      unfolding r0_def [symmetric] Let_def v_def [symmetric] j split_beta by simp
    ultimately show ?thesis by (simp add: fa slice_append)
  qed
qed

lemma length_rng_fill: "rng_inv r \<Longrightarrow> length (fst (rng_fill n r)) = n \<and> rng_inv (snd (rng_fill n r))"
proof (induction n r rule: rng_fill.induct)
  case (1 n r)
  define r0 where "r0 = rng_ready r"
  define k where "k = min (64 - rng_pos r0) n"
  have inv: "rng_inv r0" unfolding r0_def using "1.prems" by (rule rng_ready_inv)
  then have inv': "rng_inv (r0\<lparr>rng_pos := rng_pos r0 + k\<rparr>)" by (auto simp: rng_inv_def k_def)
  show ?case
  proof (cases "n = 0")
    case True
    then show ?thesis using "1.prems" by simp
  next
    case False
    then have ih: "length (fst (rng_fill (n - k) (r0\<lparr>rng_pos := rng_pos r0 + k\<rparr>))) = n - k \<and>
        rng_inv (snd (rng_fill (n - k) (r0\<lparr>rng_pos := rng_pos r0 + k\<rparr>)))"
      using "1.IH" [of r0 k] inv' by (simp add: r0_def k_def rng_ready_def)
    have "length (slice (rng_pos r0) k (rng_buffer r0)) = k" "k \<le> n"
      using inv by (simp_all add: slice_def rng_inv_def k_def)
    with ih False show ?thesis
      by (simp add: rng_fill_pos [of n r] Let_def split_beta flip: r0_def k_def)
  qed
qed

section \<open>Re-keying\<close>

definition rng_rekeys :: "rng \<Rightarrow> bool" where
  "rng_rekeys r \<longleftrightarrow> (rng_counter r + 1) mod 64 = 0"

lemma rng_refill_plain:
  "\<not> rng_rekeys r \<Longrightarrow> rng_key (rng_refill r) = rng_key r \<and> rng_counter (rng_refill r) = rng_counter r + 1 \<and>
     rng_buffer (rng_refill r) = chacha20_block (rng_key r) (rng_counter r) (replicate 12 0)"
  by (simp add: rng_refill_def rng_rekeys_def rng_chacha20_block_eq Let_def)

lemma rng_refill_rekey:
  "rng_rekeys r \<Longrightarrow>
     rng_key (rng_refill r) = take 32 (chacha20_block (rng_key r) (rng_counter r) (replicate 12 0)) \<and>
     rng_counter (rng_refill r) = rng_counter r + 2 \<and>
     rng_buffer (rng_refill r) = chacha20_block (rng_key (rng_refill r)) (rng_counter r + 1) (replicate 12 0)"
  by (simp add: rng_refill_def rng_rekeys_def rng_chacha20_block_eq Let_def add.assoc)

lemma rng_rekeys_unat: "rng_rekeys r \<longleftrightarrow> unat (rng_counter r) mod 64 = 63"
proof -
  have "unat ((rng_counter r + 1) mod 64) = (unat (rng_counter r) + 1) mod 64"
    by (simp add: unat_mod unat_word_ariths mod_mod_cancel)
  then have "rng_rekeys r \<longleftrightarrow> (unat (rng_counter r) + 1) mod 64 = 0"
    by (metis rng_rekeys_def unat_0 word_unat_eq_iff)
  also have "\<dots> \<longleftrightarrow> unat (rng_counter r) mod 64 = 63" by presburger
  finally show ?thesis .
qed

lemma counter_add_mod: "unat (c + of_nat i :: u32) mod 64 = (unat c + i) mod 64"
proof -
  have "unat (c + of_nat i) = (unat c + i) mod 2 ^ 32"
    by (simp add: unat_word_ariths unat_of_nat mod_add_right_eq)
  then show ?thesis by (simp add: mod_mod_cancel)
qed

lemma rng_refill_run:
  assumes "\<And>j. j < i \<Longrightarrow> \<not> rng_rekeys ((rng_refill ^^ j) r)"
  shows "rng_key ((rng_refill ^^ i) r) = rng_key r \<and> rng_counter ((rng_refill ^^ i) r) = rng_counter r + of_nat i"
  using assms
proof (induction i)
  case 0
  then show ?case by simp
next
  case (Suc i)
  have "\<And>j. j < i \<Longrightarrow> \<not> rng_rekeys ((rng_refill ^^ j) r)" using Suc.prems by simp
  with Suc.IH have "rng_key ((rng_refill ^^ i) r) = rng_key r \<and> rng_counter ((rng_refill ^^ i) r) = rng_counter r + of_nat i"
    by blast
  moreover have "\<not> rng_rekeys ((rng_refill ^^ i) r)" using Suc.prems by simp
  ultimately show ?case using rng_refill_plain [of "(rng_refill ^^ i) r"] by (simp add: add.commute)
qed

lemma rng_rekey_within:
  "\<exists>i < 64. rng_rekeys ((rng_refill ^^ i) r) \<and> (\<forall>j < i. \<not> rng_rekeys ((rng_refill ^^ j) r))"
proof -
  define i where "i = 63 - unat (rng_counter r) mod 64"
  have "unat (rng_counter r) mod 64 < 64" by simp
  then have "unat (rng_counter r) mod 64 + i = 63" unfolding i_def by linarith
  then have i: "(unat (rng_counter r) + i) mod 64 = 63" using mod_add_left_eq [of "unat (rng_counter r)" 64 i] by simp
  have "\<exists>j \<le> i. rng_rekeys ((rng_refill ^^ j) r)"
  proof (rule ccontr)
    assume none: "\<not> (\<exists>j \<le> i. rng_rekeys ((rng_refill ^^ j) r))"
    then have "rng_counter ((rng_refill ^^ i) r) = rng_counter r + of_nat i"
      using rng_refill_run [of i r] by auto
    with i have "rng_rekeys ((rng_refill ^^ i) r)" by (simp add: rng_rekeys_unat counter_add_mod)
    with none show False by blast
  qed
  then obtain j where j: "j \<le> i" "rng_rekeys ((rng_refill ^^ j) r)" by blast
  define m where "m = (LEAST j. rng_rekeys ((rng_refill ^^ j) r))"
  have "rng_rekeys ((rng_refill ^^ m) r)" unfolding m_def using j(2) by (rule LeastI)
  moreover have "m \<le> j" unfolding m_def using j(2) by (rule Least_le)
  moreover have "\<not> rng_rekeys ((rng_refill ^^ k) r)" if "k < m" for k
    using that not_less_Least unfolding m_def by blast
  ultimately show ?thesis using j(1) by (intro exI [of _ m]) (simp add: i_def)
qed

section \<open>Seed material\<close>

lemma hw_words_good: "hw_words src i k = Some ws \<Longrightarrow> length ws = k \<and> (\<forall>w \<in> set ws. w \<noteq> 0 \<and> w \<noteq> - 1)"
proof (induction k arbitrary: i ws)
  case 0
  then show ?case by simp
next
  case (Suc k)
  obtain o' i' where d: "hw_draw src i 100 = (o', i')" by fastforce
  with Suc.prems obtain v where v: "o' = Some v" by (cases o') simp_all
  with Suc.prems d have c: "(if v = 0 \<or> v = - 1 then None else map_option ((#) v) (hw_words src i' k)) = Some ws"
    by (simp only: hw_words.simps prod.case option.case)
  then have g: "v \<noteq> 0 \<and> v \<noteq> - 1" by (metis option.distinct(1))
  with c have m: "map_option ((#) v) (hw_words src i' k) = Some ws" by (simp only: if_False simp_thms)
  from m obtain vs where "hw_words src i' k = Some vs" "ws = v # vs" by blast
  with Suc.IH g show ?case by simp
qed

lemma hardware_words_good:
  assumes "hardware_words en = Some ws"
  shows "length ws = 8" and "distinct ws" and "0 \<notin> set ws" and "- 1 \<notin> set ws"
proof -
  define src where "src = (if has_rdseed en then rdseed64 en else rdrand64 en)"
  define rep where "rep = (\<lambda>vs :: u64 list. list_ex (\<lambda>i. list_ex (\<lambda>j. vs ! i = vs ! j) [i + 1..<8]) [0..<8])"
  from assms have c: "(case hw_words src 0 8 of None \<Rightarrow> None | Some vs \<Rightarrow> if rep vs then None else Some vs) = Some ws"
    unfolding hardware_words_def HW_WORDS_def Let_def src_def [symmetric] rep_def
    by (metis (no_types, lifting) option.distinct(1))
  then obtain vs where vs: "hw_words src 0 8 = Some vs" by (cases "hw_words src 0 8") simp_all
  with c have w: "hw_words src 0 8 = Some ws" and no: "\<not> rep ws" by (simp_all split: if_splits)
  from hw_words_good [OF w] show l: "length ws = 8" and "0 \<notin> set ws" and "- 1 \<notin> set ws" by auto
  have "\<forall>i j. i < j \<and> j < 8 \<longrightarrow> ws ! i \<noteq> ws ! j"
    using no unfolding rep_def list_ex_iff by auto
  then show "distinct ws" using l unfolding distinct_conv_nth by (metis linorder_neqE_nat)
qed

lemma build_seed_hw: "snd (build_seed derive en) \<longleftrightarrow> hardware_words en \<noteq> None"
  by (simp add: build_seed_def Let_def)

section \<open>Draws\<close>

lemma fold_next_256:
  "length out = 32 \<Longrightarrow> (\<And>i. i \<in> set is \<Longrightarrow> i < 4) \<Longrightarrow> rng_inv r \<Longrightarrow>
   (case fold (\<lambda>i (out, r). let (val, r) = rng_next_u64 r in (splice (i * 8) (to_le 8 (unat val)) out, r)) is (out, r)
    of (out', r') \<Rightarrow> length out' = 32 \<and> rng_inv r')"
proof (induction "is" arbitrary: out r)
  case Nil
  then show ?case by simp
next
  case (Cons i "is")
  obtain v r1 where n: "rng_next_u64 r = (v, r1)" by fastforce
  with rng_inv_next_u64 [OF Cons.prems(3)] have "rng_inv r1" by simp
  moreover have "i < 4" using Cons.prems(2) by simp
  then have "length (splice (i * 8) (to_le 8 (unat v)) out) = 32"
    using Cons.prems(1) by (simp del: to_le_numeral)
  ultimately show ?case
    using Cons.IH [of "splice (i * 8) (to_le 8 (unat v)) out" r1] Cons.prems
    by (simp add: n del: to_le_numeral)
qed

lemma rng_next_256_ok:
  "rng_inv r \<Longrightarrow> rng_next_256 r = (val, r') \<Longrightarrow> length val = 32 \<and> rng_inv r'"
  using fold_next_256 [of "replicate 32 0" "[0..<4]" r] by (simp add: rng_next_256_def)

lemma draw_256_good:
  assumes "draw_256 r = Some (val, r')" and "rng_inv r"
  shows "length val = 32" and "val \<noteq> replicate 32 0" and "rng_inv r'"
proof -
  let ?P = "\<lambda>r p. rng_inv r \<longrightarrow> length (fst p) = 32 \<and> fst p \<noteq> replicate 32 (0 :: u8) \<and> rng_inv (snd p)"
  have "?P r (val, r')"
  proof (rule draw_256.raw_induct [of ?P, OF _ assms(1)])
    fix f :: "rng \<Rightarrow> (bytes \<times> rng) option" and r p
    assume ih: "\<And>r p. f r = Some p \<Longrightarrow> ?P r p"
      and eq: "(let (val, r) = rng_next_256 r in if val \<noteq> replicate 32 0 then Some (val, r) else f r) = Some p"
    obtain v r1 where n: "rng_next_256 r = (v, r1)" by fastforce
    show "?P r p"
    proof
      assume "rng_inv r"
      from rng_next_256_ok [OF this n] eq ih [of r1 p]
      show "length (fst p) = 32 \<and> fst p \<noteq> replicate 32 0 \<and> rng_inv (snd p)"
        unfolding n by (cases "v = replicate 32 0") auto
    qed
  qed
  with assms(2)
  show "length val = 32" and "val \<noteq> replicate 32 0" and "rng_inv r'" by simp_all
qed

lemma draw_256_returns:
  assumes "fst (rng_next_256 (((snd \<circ> rng_next_256) ^^ k) r)) \<noteq> replicate 32 0"
  shows "\<exists>p. draw_256 r = Some p"
  using assms
proof (induction k arbitrary: r)
  case 0
  then show ?case by (subst draw_256.simps) (simp add: split_beta)
next
  case (Suc k)
  from Suc.prems have "fst (rng_next_256 (((snd \<circ> rng_next_256) ^^ k) (snd (rng_next_256 r)))) \<noteq> replicate 32 0"
    unfolding funpow_Suc_right comp_apply .
  then have "\<exists>p. draw_256 (snd (rng_next_256 r)) = Some p" by (rule Suc.IH)
  then show ?case by (subst draw_256.simps) (simp add: split_beta)
qed

end
