(* ===== verification/Keyslot.thy ===== *)
theory Keyslot
  imports Csprng Frames
begin

text \<open>
  The disk keyslots of \<open>kernel/src/crypto/keyslot.rs\<close>: a 128-byte slot holds the data key wrapped with
  AES-256-GCM under a key derived from the passphrase by Argon2id (or under a device key given directly),
  with the cost parameters and the salt as associated data. Argon2id works in frames of the physical
  memory manager, which it wipes and gives back. The two algorithms come from other crates: what the code
  calls of them is the record \<open>kdf_env\<close>, and \<open>gcm_correct\<close> names what it relies on.
\<close>

section \<open>Definitions\<close>

record kdf_params =
  m_kib :: u32
  t_cost :: u32
  p_lanes :: u32

record kdf_env =
  argon_blocks :: "u32 \<Rightarrow> u32 \<Rightarrow> u32 \<Rightarrow> nat option"
  argon_hash :: "bytes \<Rightarrow> bytes \<Rightarrow> u32 \<Rightarrow> u32 \<Rightarrow> u32 \<Rightarrow> bytes option"
  argon_memory :: "bytes \<Rightarrow> bytes \<Rightarrow> bytes \<Rightarrow> bytes"
  gcm_encrypt :: "bytes \<Rightarrow> bytes \<Rightarrow> bytes \<Rightarrow> bytes \<Rightarrow> bytes option"
  gcm_decrypt :: "bytes \<Rightarrow> bytes \<Rightarrow> bytes \<Rightarrow> bytes \<Rightarrow> bytes option"
  k_shrinkers :: "nat \<Rightarrow> frame_allocator \<Rightarrow> nat \<times> frame_allocator"
  counter_hz :: nat
  counter_before :: nat
  counter_after :: nat

text \<open>The machine the derivation runs on: the generator, the frame allocator and physical memory.\<close>

record kdf_state = csprng +
  k_frames :: frame_allocator
  k_ram :: "nat \<Rightarrow> u8"

definition SLOT_BYTES :: nat where "SLOT_BYTES = 128"
definition KIND_PASSPHRASE :: u8 where "KIND_PASSPHRASE = 1"
definition KIND_DEVICE :: u8 where "KIND_DEVICE = 2"
definition AAD_END :: nat where "AAD_END = 32"
definition WRAPPED :: "nat \<times> nat" where "WRAPPED = (44, 92)"
definition LANES :: u32 where "LANES = 4"
definition MAX_MIB :: nat where "MAX_MIB = 1024"
definition MIN_MIB :: nat where "MIN_MIB = 64"
definition TARGET_MS :: nat where "TARGET_MS = 1000"
definition MAX_PASSES :: nat where "MAX_PASSES = 8"

text \<open>\<open>size_of::<argon2::Block>()\<close>.\<close>

definition ARGON_BLOCK :: nat where "ARGON_BLOCK = 1024"

definition slot_is_empty :: "bytes \<Rightarrow> bool" where
  "slot_is_empty slot \<longleftrightarrow> slot ! 0 = 0"

definition ram_read :: "nat \<Rightarrow> nat \<Rightarrow> (nat \<Rightarrow> u8) \<Rightarrow> bytes" where
  "ram_read base n ram = map ram [base..<base + n]"

definition ram_write :: "nat \<Rightarrow> bytes \<Rightarrow> (nat \<Rightarrow> u8) \<Rightarrow> nat \<Rightarrow> u8" where
  "ram_write base bs ram = (\<lambda>a. if base \<le> a \<and> a < base + length bs then bs ! (a - base) else ram a)"

definition argon2id ::
    "kdf_env \<Rightarrow> bytes \<Rightarrow> bytes \<Rightarrow> kdf_params \<Rightarrow> ('s kdf_state_scheme, crash, bytes option) op" where
  "argon2id en pass salt p s =
     (case argon_blocks en (m_kib p) (t_cost p) (p_lanes p) of
        None \<Rightarrow> (Inr None, s)
      | Some blocks \<Rightarrow>
          let bytes = blocks * ARGON_BLOCK;
              pages = (bytes + PAGE_SIZE - 1) div PAGE_SIZE
          in case allocate_contiguous (k_shrinkers en) pages (k_frames s) of
               (None, fa) \<Rightarrow> (Inr None, s\<lparr>k_frames := fa\<rparr>)
             | (Some base, fa) \<Rightarrow>
                 let mem = argon_memory en pass salt (ram_read base bytes (k_ram s));
                     out = argon_hash en pass salt (m_kib p) (t_cost p) (p_lanes p);
                     ram = ram_write base (take bytes mem) (k_ram s);
                     ram = ram_write base (replicate (pages * PAGE_SIZE) 0) ram
                 in (Inr out, s\<lparr>k_ram := ram, k_frames := deallocate_contiguous base pages fa\<rparr>))"

text \<open>The memory \<open>calibrate\<close> settles on, in MiB.\<close>

function calibrate_mib :: "nat \<Rightarrow> nat \<Rightarrow> nat" where
  "calibrate_mib free_mib mib =
     (if 0 < mib \<and> mib * 2 \<le> MAX_MIB \<and> mib * 2 \<le> free_mib div 4 then calibrate_mib free_mib (mib * 2) else mib)"
  by pat_completeness auto
termination
  by (relation "measure (\<lambda>(free_mib, mib). MAX_MIB - mib)") auto

declare calibrate_mib.simps [simp del]

definition calibrate :: "kdf_env \<Rightarrow> ('s kdf_state_scheme, crash, kdf_params) op" where
  "calibrate en s =
     (let free_mib = snd (fa_stats (k_frames s));
          mib = calibrate_mib free_mib MIN_MIB;
          one = \<lparr>m_kib = of_nat (mib * 1024), t_cost = 1, p_lanes = LANES\<rparr>;
          freq = max (counter_hz en) 1;
          s = snd (argon2id en (lit ''calibration'') (replicate 16 0) one s);
          ms = max ((counter_after en - counter_before en) * 1000 div freq) 1;
          t = min (max ((TARGET_MS + ms div 2) div ms) 1) MAX_PASSES
      in (Inr (one\<lparr>t_cost := of_nat t\<rparr>), s))"

definition slot_header :: "kdf_params \<Rightarrow> bytes \<Rightarrow> bytes" where
  "slot_header params rnd =
     (let slot = replicate SLOT_BYTES 0;
          slot = slot[0 := KIND_PASSPHRASE];
          slot = splice 4 (to_le 4 (unat (m_kib params))) slot;
          slot = splice 8 (to_le 4 (unat (t_cost params))) slot;
          slot = splice 12 (to_le 4 (unat (p_lanes params))) slot;
          slot = splice 16 (take 16 rnd) slot
      in splice 32 (slice 16 12 rnd) slot)"

text \<open>The common tail of \<open>create\<close> and \<open>create_device\<close>: wrap the key and store it at \<open>WRAPPED\<close>.\<close>

definition slot_wrap :: "kdf_env \<Rightarrow> bytes \<Rightarrow> bytes \<Rightarrow> bytes \<Rightarrow> bytes option" where
  "slot_wrap en kek dek slot =
     (case gcm_encrypt en kek (slice 32 12 slot) (take AAD_END slot) dek of
        None \<Rightarrow> None
      | Some ct \<Rightarrow> if length ct \<noteq> snd WRAPPED - fst WRAPPED then None else Some (splice (fst WRAPPED) ct slot))"

definition slot_unwrap :: "kdf_env \<Rightarrow> bytes \<Rightarrow> bytes \<Rightarrow> bytes option" where
  "slot_unwrap en kek slot =
     (case gcm_decrypt en kek (slice 32 12 slot) (take AAD_END slot)
             (slice (fst WRAPPED) (snd WRAPPED - fst WRAPPED) slot) of
        None \<Rightarrow> None
      | Some pt \<Rightarrow> if length pt = 32 then Some pt else None)"

definition keyslot_create ::
    "kdf_env \<Rightarrow> bytes \<Rightarrow> bytes \<Rightarrow> kdf_params \<Rightarrow> ('s kdf_state_scheme, crash, bytes option) op" where
  "keyslot_create en pass dek params =
     bindE random_256 (\<lambda>rnd.
       let slot = slot_header params rnd in
       bindE (argon2id en pass (slice 16 16 slot) params) (\<lambda>k.
         case k of None \<Rightarrow> retE None | Some kek \<Rightarrow> retE (slot_wrap en kek dek slot)))"

definition slot_u32_at :: "bytes \<Rightarrow> nat \<Rightarrow> u32" where
  "slot_u32_at slot i = of_nat (from_le [slot ! i, slot ! (i + 1), slot ! (i + 2), slot ! (i + 3)])"

definition params_of :: "bytes \<Rightarrow> kdf_params" where
  "params_of slot = \<lparr>m_kib = slot_u32_at slot 4, t_cost = slot_u32_at slot 8, p_lanes = slot_u32_at slot 12\<rparr>"

definition keyslot_unlock ::
    "kdf_env \<Rightarrow> bytes \<Rightarrow> bytes \<Rightarrow> ('s kdf_state_scheme, crash, bytes option) op" where
  "keyslot_unlock en slot pass =
     (if slot ! 0 \<noteq> KIND_PASSPHRASE then retE None
      else bindE (argon2id en pass (slice 16 16 slot) (params_of slot)) (\<lambda>k.
             case k of None \<Rightarrow> retE None | Some kek \<Rightarrow> retE (slot_unwrap en kek slot)))"

definition create_device :: "kdf_env \<Rightarrow> bytes \<Rightarrow> bytes \<Rightarrow> ('s csprng_scheme, crash, bytes option) op" where
  "create_device en kek dek =
     bindE random_256 (\<lambda>rnd.
       let slot = (replicate SLOT_BYTES 0)[0 := KIND_DEVICE];
           slot = splice 32 (take 12 rnd) slot
       in retE (slot_wrap en kek dek slot))"

definition unlock_device :: "kdf_env \<Rightarrow> bytes \<Rightarrow> bytes \<Rightarrow> bytes option" where
  "unlock_device en slot kek =
     (if slot ! 0 \<noteq> KIND_DEVICE then None else slot_unwrap en kek slot)"

text \<open>
  What the code relies on of AES-256-GCM: a message decrypts to what was encrypted under the same key,
  nonce and associated data, and the ciphertext is the message's length and a 16-byte tag.
\<close>

definition gcm_correct :: "kdf_env \<Rightarrow> bool" where
  "gcm_correct en \<longleftrightarrow> (\<forall>k n a m c. gcm_encrypt en k n a m = Some c \<longrightarrow>
     gcm_decrypt en k n a c = Some m \<and> length c = length m + 16)"

section \<open>Slots\<close>

lemma length_slot_header [simp]: "length rnd = 32 \<Longrightarrow> length (slot_header params rnd) = 128"
  by (simp add: slot_header_def SLOT_BYTES_def Let_def del: to_le_numeral)

lemma slot_header_kind: "length rnd = 32 \<Longrightarrow> slot_header params rnd ! 0 = KIND_PASSPHRASE"
  by (simp add: slot_header_def SLOT_BYTES_def Let_def nth_splice del: to_le_numeral)

lemma slot_wrap_unwrap:
  assumes gcm: "gcm_correct en" and len: "length slot = 128" "length dek = 32"
    and w: "slot_wrap en kek dek slot = Some sl"
  shows "slot_unwrap en kek sl = Some dek" and "length sl = 128" and "take 44 sl = take 44 slot"
proof -
  from w obtain ct where ct: "gcm_encrypt en kek (slice 32 12 slot) (take 32 slot) dek = Some ct"
    and sl: "sl = splice 44 ct slot" and lc: "length ct = 48"
    by (auto simp: slot_wrap_def WRAPPED_def AAD_END_def split: option.splits if_splits)
  show "length sl = 128" using sl lc len by simp
  show t: "take 44 sl = take 44 slot" using sl len by (simp add: splice_def)
  have "take 32 sl = take 32 slot" using arg_cong [OF t, of "take 32"] by (simp add: min_def)
  moreover have "slice 32 12 sl = slice 32 12 slot"
    unfolding sl using lc len by (intro slice_splice_disjoint) simp_all
  moreover have "slice 44 48 sl = ct"
    unfolding sl using slice_splice_same [of 44 ct slot] lc len by simp
  ultimately show "slot_unwrap en kek sl = Some dek"
    using gcm ct len(2) by (simp add: slot_unwrap_def WRAPPED_def AAD_END_def gcm_correct_def)
qed

text \<open>Everything but the wrapped key is read back from the first 44 bytes.\<close>

lemma nth_from_take: "take n xs = take n ys \<Longrightarrow> i < n \<Longrightarrow> xs ! i = ys ! i"
  by (metis nth_take)

lemma slice_from_take: "take n xs = take n ys \<Longrightarrow> off + k \<le> n \<Longrightarrow> slice off k xs = slice off k ys"
proof -
  assume t: "take n xs = take n ys" and le: "off + k \<le> n"
  have "slice off k xs = take k (drop off (take n xs))" for xs :: "'a list"
    using le by (simp add: slice_def drop_take min_def)
  with t show ?thesis by metis
qed

lemma slot_u32_at_slice: "i + 4 \<le> length slot \<Longrightarrow> slot_u32_at slot i = of_nat (from_le (slice i 4 slot))"
proof -
  assume "i + 4 \<le> length slot"
  then have "slice i 4 slot = [slot ! i, slot ! (i + 1), slot ! (i + 2), slot ! (i + 3)]"
    by (intro nth_equalityI) (auto simp: nth_slice less_Suc_eq numeral_eq_Suc)
  then show ?thesis by (simp add: slot_u32_at_def)
qed

lemma slot_header_params:
  assumes "length rnd = 32"
  shows "params_of (slot_header params rnd) = params"
    and "slice 16 16 (slot_header params rnd) = take 16 rnd"
proof -
  have field: "slot_u32_at (slot_header params rnd) i = v"
    if "slice i 4 (slot_header params rnd) = to_le 4 (unat v)" "i \<le> 12" for i and v :: u32
    using that assms unsigned_less [of v, where 'a = nat] by (simp add: slot_u32_at_slice codec del: to_le_numeral)
  have "slice 4 4 (slot_header params rnd) = to_le 4 (unat (m_kib params))"
    "slice 8 4 (slot_header params rnd) = to_le 4 (unat (t_cost params))"
    "slice 12 4 (slot_header params rnd) = to_le 4 (unat (p_lanes params))"
    using slice_splice_same [of 4 "to_le 4 (unat (m_kib params))"] slice_splice_same [of 8 "to_le 4 (unat (t_cost params))"]
      slice_splice_same [of 12 "to_le 4 (unat (p_lanes params))"] assms
    by (simp_all add: slot_header_def Let_def SLOT_BYTES_def slice_splice_disjoint del: to_le_numeral)
  then show "params_of (slot_header params rnd) = params"
    using field [of 4 "m_kib params"] field [of 8 "t_cost params"] field [of 12 "p_lanes params"]
    by (simp add: params_of_def del: to_le_numeral)
  show "slice 16 16 (slot_header params rnd) = take 16 rnd"
    using slice_splice_same [of 16 "take 16 rnd"] assms
    by (simp add: slot_header_def Let_def SLOT_BYTES_def slice_splice_disjoint del: to_le_numeral)
qed

lemma params_of_take:
  assumes "take 44 xs = take 44 ys" and "length xs = 128" and "length ys = 128"
  shows "params_of xs = params_of ys" and "slice 16 16 xs = slice 16 16 ys" and "xs ! 0 = ys ! 0"
proof -
  have "slot_u32_at xs i = slot_u32_at ys i" if "i \<le> 12" for i
    using that slice_from_take [OF assms(1), of i 4] assms(2,3) by (simp add: slot_u32_at_slice)
  then show "params_of xs = params_of ys" by (simp add: params_of_def)
  show "slice 16 16 xs = slice 16 16 ys" by (rule slice_from_take [OF assms(1)]) simp
  show "xs ! 0 = ys ! 0" by (rule nth_from_take [OF assms(1)]) simp
qed

section \<open>Key derivation\<close>

text \<open>The derivation's result is the hash whenever it gets the memory.\<close>

lemma argon2id_result:
  assumes "argon2id en pass salt p s = (r, s')"
  shows "r = Inr None \<or> r = Inr (argon_hash en pass salt (m_kib p) (t_cost p) (p_lanes p))"
  using assms by (auto simp: argon2id_def Let_def split: option.splits prod.splits)

lemma argon2id_rng: "RNG (snd (argon2id en pass salt p s)) = RNG s"
  by (simp add: argon2id_def Let_def split: option.splits prod.splits)

definition rng_ok :: "'s csprng_scheme \<Rightarrow> bool" where
  "rng_ok s \<longleftrightarrow> (case RNG s of None \<Rightarrow> False | Some r \<Rightarrow> rng_inv r)"

lemma random_256_good:
  assumes "random_256 s = (Inr rnd, s')" and "rng_ok s"
  shows "length rnd = 32" and "rnd \<noteq> replicate 32 0" and "rng_ok s'"
  using assms draw_256_good
  by (auto simp: random_256_def with_rng_def rng_ok_def split: option.splits prod.splits)

lemma keyslot_create_shape:
  assumes c: "keyslot_create en pass dek params s = (Inr (Some sl), s')" and ok: "rng_ok s"
  obtains rnd kek where "length rnd = 32" and "slot_wrap en kek dek (slot_header params rnd) = Some sl"
    and "argon_hash en pass (take 16 rnd) (m_kib params) (t_cost params) (p_lanes params) = Some kek"
proof -
  from c obtain rnd s1 where r: "random_256 s = (Inr rnd, s1)"
    and c1: "bindE (argon2id en pass (slice 16 16 (slot_header params rnd)) params)
       (\<lambda>k. case k of None \<Rightarrow> retE None | Some kek \<Rightarrow> retE (slot_wrap en kek dek (slot_header params rnd))) s1
       = (Inr (Some sl), s')"
    unfolding keyslot_create_def Let_def by (rule bindE_InrE)
  from c1 obtain k s2 where a: "argon2id en pass (slice 16 16 (slot_header params rnd)) params s1 = (Inr k, s2)"
    and k: "(case k of None \<Rightarrow> retE None | Some kek \<Rightarrow> retE (slot_wrap en kek dek (slot_header params rnd))) s2
       = (Inr (Some sl) :: crash + bytes option, s')"
    unfolding bindE_Inr_iff by blast
  have len: "length rnd = 32" using random_256_good [OF r ok] by simp
  from k obtain kek where kek: "k = Some kek" and w: "slot_wrap en kek dek (slot_header params rnd) = Some sl"
    by (cases k) (auto simp: effects)
  from argon2id_result [OF a] kek len
  have "argon_hash en pass (take 16 rnd) (m_kib params) (t_cost params) (p_lanes params) = Some kek"
    by (auto simp: slot_header_params)
  with len w show thesis using that by blast
qed

lemma keyslot_roundtrip:
  assumes gcm: "gcm_correct en" and dek: "length dek = 32" and ok: "rng_ok s"
    and c: "keyslot_create en pass dek params s = (Inr (Some sl), s1)"
    and u: "keyslot_unlock en sl pass s2 = (r, s3)"
    and mem: "fst (argon2id en pass (slice 16 16 sl) (params_of sl) s2) \<noteq> Inr None"
  shows "r = Inr (Some dek)" and "params_of sl = params" and "sl ! 0 = KIND_PASSPHRASE"
proof -
  from keyslot_create_shape [OF c ok] obtain rnd kek where rnd: "length rnd = 32"
    and w: "slot_wrap en kek dek (slot_header params rnd) = Some sl"
    and h: "argon_hash en pass (take 16 rnd) (m_kib params) (t_cost params) (p_lanes params) = Some kek"
    by blast
  note wr = slot_wrap_unwrap [OF gcm length_slot_header [OF rnd] dek w]
  note pt = params_of_take [OF wr(3,2) length_slot_header [OF rnd]]
  show p: "params_of sl = params" using pt(1) slot_header_params(1) [OF rnd] by simp
  show k: "sl ! 0 = KIND_PASSPHRASE" using pt(3) slot_header_kind [OF rnd] by simp
  have salt: "slice 16 16 sl = take 16 rnd" using pt(2) slot_header_params(2) [OF rnd] by simp
  obtain k s4 where a: "argon2id en pass (slice 16 16 sl) (params_of sl) s2 = (k, s4)" by fastforce
  with argon2id_result [OF a] mem p salt h have "k = Inr (Some kek)" by auto
  with u k a wr(1) show "r = Inr (Some dek)"
    by (simp add: keyslot_unlock_def bindE_Inr effects)
qed

text \<open>Enough contiguous memory for the derivation with these cost parameters can be had.\<close>

definition kdf_memory :: "kdf_env \<Rightarrow> kdf_params \<Rightarrow> 's kdf_state_scheme \<Rightarrow> bool" where
  "kdf_memory en p s \<longleftrightarrow>
     (case argon_blocks en (m_kib p) (t_cost p) (p_lanes p) of
        None \<Rightarrow> False
      | Some blocks \<Rightarrow> fst (allocate_contiguous (k_shrinkers en)
          ((blocks * ARGON_BLOCK + PAGE_SIZE - 1) div PAGE_SIZE) (k_frames s)) \<noteq> None)"

lemma argon2id_runs:
  "kdf_memory en p s \<Longrightarrow> fst (argon2id en pass salt p s) = Inr (argon_hash en pass salt (m_kib p) (t_cost p) (p_lanes p))"
  by (auto simp: kdf_memory_def argon2id_def Let_def split: option.splits prod.splits)

lemma created_slot_derives:
  assumes gcm: "gcm_correct en" and dek: "length dek = 32" and ok: "rng_ok s"
    and c: "keyslot_create en pass dek params s = (Inr (Some sl), s1)" and mem: "kdf_memory en params s2"
  shows "fst (argon2id en pass (slice 16 16 sl) (params_of sl) s2) \<noteq> Inr None"
proof -
  from keyslot_create_shape [OF c ok] obtain rnd kek where rnd: "length rnd = 32"
    and w: "slot_wrap en kek dek (slot_header params rnd) = Some sl"
    and h: "argon_hash en pass (take 16 rnd) (m_kib params) (t_cost params) (p_lanes params) = Some kek"
    by blast
  note wr = slot_wrap_unwrap [OF gcm length_slot_header [OF rnd] dek w]
  note pt = params_of_take [OF wr(3,2) length_slot_header [OF rnd]]
  have "params_of sl = params" "slice 16 16 sl = take 16 rnd" using pt slot_header_params [OF rnd] by simp_all
  with argon2id_runs [OF mem] h show ?thesis by simp
qed

lemma device_slot_roundtrip:
  assumes gcm: "gcm_correct en" and dek: "length dek = 32" and ok: "rng_ok s"
    and c: "create_device en kek dek s = (Inr (Some sl), s1)"
  shows "unlock_device en sl kek = Some dek" and "sl ! 0 = KIND_DEVICE" and "length sl = 128"
proof -
  from c obtain rnd where r: "random_256 s = (Inr rnd, s1)"
    and w: "slot_wrap en kek dek (splice 32 (take 12 rnd) ((replicate SLOT_BYTES 0)[0 := KIND_DEVICE])) = Some sl"
    by (auto simp: create_device_def Let_def effects elim!: bindE_InrE)
  define h where "h = splice 32 (take 12 rnd) ((replicate SLOT_BYTES 0)[0 := KIND_DEVICE])"
  have len: "length rnd = 32" using random_256_good [OF r ok] by simp
  then have h: "length h = 128" "h ! 0 = KIND_DEVICE"
    by (simp_all add: h_def SLOT_BYTES_def nth_splice)
  note wr = slot_wrap_unwrap [OF gcm h(1) dek w [folded h_def]]
  show "length sl = 128" by (rule wr(2))
  show k: "sl ! 0 = KIND_DEVICE" using params_of_take(3) [OF wr(3,2) h(1)] h(2) by simp
  then show "unlock_device en sl kek = Some dek" using wr(1) by (simp add: unlock_device_def)
qed

section \<open>The derivation's memory\<close>

definition shrinkers_ok :: "kdf_env \<Rightarrow> bool" where
  "shrinkers_ok en \<longleftrightarrow> (\<forall>want fa. fa_inv fa \<longrightarrow>
     fa_inv (snd (k_shrinkers en want fa)) \<and> free_frames fa \<subseteq> free_frames (snd (k_shrinkers en want fa)) \<and>
     memory_top (snd (k_shrinkers en want fa)) = memory_top fa)"

lemma fold_set_free:
  assumes "fa_inv fa" and "\<And>f. f \<in> set fs \<Longrightarrow> f < memory_top fa"
  shows "fa_inv (fold fa_set_free fs fa)" and "free_frames (fold fa_set_free fs fa) = free_frames fa \<union> set fs"
    and "memory_top (fold fa_set_free fs fa) = memory_top fa"
  using assms
proof (induction fs arbitrary: fa)
  case (Cons f fs)
  {
    case 1
    then show ?case using Cons.IH(1) [of "fa_set_free f fa"] by (simp add: fa_inv_set_free)
  next
    case 2
    have "f < memory_top fa" using 2(2) by simp
    then have "f < fa_frames fa" using 2(1) by (simp add: fa_inv_def)
    with 2 Cons.IH(2) [of "fa_set_free f fa"] show ?case by (simp add: fa_inv_set_free free_frames_set_free)
  next
    case 3
    then show ?case using Cons.IH(3) [of "fa_set_free f fa"] by (simp add: fa_inv_set_free)
  }
qed simp_all

lemma deallocate_fold:
  "deallocate_contiguous (f * PAGE_SIZE) n fa = fold fa_set_free [f..<f + n] fa"
proof -
  have "map (\<lambda>i. f + i) [0..<n] = [f..<f + n]" by (induction n) (auto simp: ac_simps)
  then have "fold fa_set_free [f..<f + n] fa = fold (\<lambda>i. fa_set_free (f + i)) [0..<n] fa"
    by (metis (no_types, lifting) comp_apply fold_map ext)
  then show ?thesis by (simp add: deallocate_contiguous_def PAGE_SIZE_def)
qed

lemma contiguous_below_top: "memory_top (snd (contiguous_below count limit fa)) = memory_top fa"
  by (simp add: contiguous_below_def Let_def use_frames split: option.splits)

text \<open>What an allocation with the shrinkers behind it returns: a run that is free in a state with at least
  the free frames of the state before.\<close>

lemma allocate_contiguous_result:
  assumes inv: "fa_inv fa" and sh: "shrinkers_ok en" and a: "allocate_contiguous (k_shrinkers en) n fa = (res, fa')"
  shows "fa_inv fa' \<and> (case res of
      None \<Rightarrow> free_frames fa \<subseteq> free_frames fa'
    | Some base \<Rightarrow> \<exists>f. base = f * PAGE_SIZE \<and> f + n \<le> memory_top fa' \<and>
        free_frames fa \<subseteq> free_frames fa' \<union> {f..<f + n} \<and> {f..<f + n} \<inter> free_frames fa' = {})"
proof -
  have one: "fa_inv g' \<and> (case r of None \<Rightarrow> g' = g
      | Some base \<Rightarrow> \<exists>f. base = f * PAGE_SIZE \<and> f + n \<le> memory_top g' \<and>
          free_frames g = free_frames g' \<union> {f..<f + n} \<and> {f..<f + n} \<inter> free_frames g' = {})"
    if g: "fa_inv g" and c: "contiguous_below n 0 g = (r, g')" for g g' r
  proof (cases "n = 0")
    case True
    with c g show ?thesis by (auto simp: contiguous_below_def)
  next
    case False
    have top: "memory_top g' = memory_top g" using contiguous_below_top [of n 0 g] c by simp
    from contiguous_below_result [OF g c] False g top show ?thesis
      by (cases r) (auto simp: free_run_below_top)
  qed
  obtain r1 fa1 where c1: "contiguous_below n 0 fa = (r1, fa1)" by fastforce
  note o1 = one [OF inv c1]
  show ?thesis
  proof (cases r1)
    case (Some base)
    then show ?thesis
      using a c1 o1 by (auto simp: allocate_contiguous_def allocate_contiguous_below_def with_reclaim_def)
  next
    case None
    with o1 have fa1: "fa1 = fa" by simp
    obtain freed fa2 where r: "k_shrinkers en n fa = (freed, fa2)" by fastforce
    with sh inv have s2: "fa_inv fa2" "free_frames fa \<subseteq> free_frames fa2"
      unfolding shrinkers_ok_def by (metis snd_conv)+
    obtain r3 fa3 where c3: "contiguous_below n 0 fa2 = (r3, fa3)" by fastforce
    note o3 = one [OF s2(1) c3]
    show ?thesis
    proof (cases "freed > 0")
      case True
      with a c1 None r c3 fa1 have "res = r3" "fa' = fa3"
        by (auto simp: allocate_contiguous_def allocate_contiguous_below_def with_reclaim_def)
      then show ?thesis using o3 s2(2) by (cases r3) auto
    next
      case False
      with a c1 None r fa1 have "res = None" "fa' = fa2"
        by (auto simp: allocate_contiguous_def allocate_contiguous_below_def with_reclaim_def)
      then show ?thesis using s2 by simp
    qed
  qed
qed

lemma ram_write_zero: "ram_write base (replicate n 0) (ram_write base bs ram) a = (if base \<le> a \<and> a < base + n then 0
    else if base \<le> a \<and> a < base + length bs then bs ! (a - base) else ram a)"
  by (auto simp: ram_write_def)

lemma argon2id_clean:
  assumes inv: "fa_inv (k_frames s)" and sh: "shrinkers_ok en" and a: "argon2id en pass salt p s = (r, s')"
  shows "fa_inv (k_frames s')" and "free_frames (k_frames s) \<subseteq> free_frames (k_frames s')"
    and "k_ram s' x = k_ram s x \<or> k_ram s' x = 0"
proof -
  have "fa_inv (k_frames s') \<and> free_frames (k_frames s) \<subseteq> free_frames (k_frames s') \<and>
      (k_ram s' x = k_ram s x \<or> k_ram s' x = 0)"
  proof (cases "argon_blocks en (m_kib p) (t_cost p) (p_lanes p)")
    case None
    with a inv show ?thesis by (auto simp: argon2id_def)
  next
    case (Some blocks)
    define pages where "pages = (blocks * ARGON_BLOCK + PAGE_SIZE - 1) div PAGE_SIZE"
    obtain res fa where al: "allocate_contiguous (k_shrinkers en) pages (k_frames s) = (res, fa)" by fastforce
    note ar = allocate_contiguous_result [OF inv sh al]
    note a' = a [unfolded argon2id_def Some option.case Let_def pages_def [symmetric] al]
    have le: "blocks * ARGON_BLOCK \<le> pages * PAGE_SIZE"
      using div_mult_mod_eq [of "blocks * ARGON_BLOCK + PAGE_SIZE - 1" PAGE_SIZE] mod_less_divisor [of PAGE_SIZE "blocks * ARGON_BLOCK + PAGE_SIZE - 1"]
      unfolding pages_def PAGE_SIZE_def by linarith
    show ?thesis
    proof (cases res)
      case None
      with a' ar show ?thesis by auto
    next
      case (Some base)
      with ar obtain f where f: "base = f * PAGE_SIZE" "f + pages \<le> memory_top fa" "fa_inv fa"
        "free_frames (k_frames s) \<subseteq> free_frames fa \<union> {f..<f + pages}" by auto
      have s': "k_frames s' = fold fa_set_free [f..<f + pages] fa"
        "\<exists>m. k_ram s' = ram_write base (replicate (pages * PAGE_SIZE) 0) (ram_write base (take (blocks * ARGON_BLOCK) m) (k_ram s))"
        using a' Some f(1) by (auto simp: deallocate_fold)
      from fold_set_free [OF f(3), of "[f..<f + pages]"] f(2,4) s'(1)
      have "fa_inv (k_frames s')" "free_frames (k_frames s) \<subseteq> free_frames (k_frames s')" by auto
      moreover have "k_ram s' x = k_ram s x \<or> k_ram s' x = 0"
        using s'(2) le by (auto simp: ram_write_zero)
      ultimately show ?thesis by blast
    qed
  qed
  then show "fa_inv (k_frames s')" and "free_frames (k_frames s) \<subseteq> free_frames (k_frames s')"
    and "k_ram s' x = k_ram s x \<or> k_ram s' x = 0" by auto
qed

section \<open>Calibration\<close>

lemma calibrate_mib_bounds:
  assumes "64 \<le> mib" and "mib \<le> 1024" and "mib \<le> max 64 (free div 4)" and "\<exists>k. mib = 2 ^ k"
  shows "64 \<le> calibrate_mib free mib \<and> calibrate_mib free mib \<le> 1024 \<and>
    calibrate_mib free mib \<le> max 64 (free div 4) \<and> (\<exists>k. calibrate_mib free mib = 2 ^ k) \<and>
    (calibrate_mib free mib = 1024 \<or> free div 4 < 2 * calibrate_mib free mib)"
  using assms
proof (induction free mib rule: calibrate_mib.induct)
  case (1 free mib)
  show ?case
  proof (cases "mib * 2 \<le> 1024 \<and> mib * 2 \<le> free div 4")
    case True
    from 1(5) obtain k where "mib = 2 ^ k" by blast
    then have "\<exists>k. mib * 2 = 2 ^ k" by (intro exI [of _ "Suc k"]) simp
    with True 1 show ?thesis by (subst (1 2 3 4 5 6) calibrate_mib.simps) (simp add: MAX_MIB_def)
  next
    case False
    from 1(5) obtain k where k: "mib = 2 ^ k" by blast
    have "mib = 1024 \<or> mib \<le> 512"
    proof (cases "k \<le> 9")
      case True
      then have "(2 :: nat) ^ k \<le> 2 ^ 9" by (intro power_increasing) auto
      then show ?thesis using k by simp
    next
      case False
      then have "(2 :: nat) ^ 10 \<le> 2 ^ k" by (intro power_increasing) auto
      then show ?thesis using k 1(3) by simp
    qed
    with False 1 show ?thesis by (subst (1 2 3 4 5 6) calibrate_mib.simps) (auto simp: MAX_MIB_def)
  qed
qed

end
