(* ===== verification/Keyvault.thy ===== *)
theory Keyvault
  imports Keyslot
begin

text \<open>
  The secrets store of \<open>kernel/src/security/keyvault.rs\<close>: the vault object with its two tiers, each under
  its own data key, the keyslots that wrap those keys, the entries sealed with ChaCha20-Poly1305 under
  the tier's key with tier and name as associated data, and the byte format of the object. The parser
  reads the object through bounds-checked accesses: \<open>Bounds\<close> is the panic of an index outside the slice,
  \<open>Reject\<close> is the source's \<open>return None\<close>.
\<close>

section \<open>Definitions\<close>

definition TIER_SYSTEM :: u8 where "TIER_SYSTEM = 0"
definition TIER_USER :: u8 where "TIER_USER = 1"
definition VAULT_MAGIC :: bytes where "VAULT_MAGIC = lit ''NPKVAULT''"
definition VAULT_VERSION :: nat where "VAULT_VERSION = 1"
definition HEADER_LEN :: nat where "HEADER_LEN = 8 + 2 + 2 + SLOT_BYTES * 3 + 4"

record vault_entry =
  e_tier :: u8
  e_name :: bytes
  e_nonce :: bytes
  e_ct :: bytes

record vault_file =
  sys_device :: bytes
  sys_pass :: bytes
  usr_pass :: bytes
  v_entries :: "vault_entry list"

definition has_user_tier :: "vault_file \<Rightarrow> bool" where
  "has_user_tier v \<longleftrightarrow> \<not> slot_is_empty (usr_pass v)"

definition vault_file_create :: "kdf_env \<Rightarrow> bytes \<Rightarrow> ('s csprng_scheme, crash, vault_file option) op" where
  "vault_file_create en device_subkey =
     bindE random_256 (\<lambda>sys_dek.
     bindE (create_device en device_subkey sys_dek) (\<lambda>slot.
       retE (map_option (\<lambda>sl. \<lparr>sys_device = sl, sys_pass = replicate SLOT_BYTES 0,
                              usr_pass = replicate SLOT_BYTES 0, v_entries = []\<rparr>) slot)))"

definition unlock_system_device :: "kdf_env \<Rightarrow> vault_file \<Rightarrow> bytes \<Rightarrow> bytes option" where
  "unlock_system_device en v device_subkey = unlock_device en (sys_device v) device_subkey"

definition unlock_system_pass ::
    "kdf_env \<Rightarrow> vault_file \<Rightarrow> bytes \<Rightarrow> ('s kdf_state_scheme, crash, bytes option) op" where
  "unlock_system_pass en v pass = keyslot_unlock en (sys_pass v) pass"

definition unlock_user ::
    "kdf_env \<Rightarrow> vault_file \<Rightarrow> bytes \<Rightarrow> ('s kdf_state_scheme, crash, bytes option) op" where
  "unlock_user en v pass = keyslot_unlock en (usr_pass v) pass"

text \<open>The two results of \<open>set_passphrase\<close>: whether it succeeded, and the vault it leaves.\<close>

definition user_dek_for ::
    "kdf_env \<Rightarrow> bytes option \<Rightarrow> vault_file \<Rightarrow> ('s kdf_state_scheme, crash, bytes option) op" where
  "user_dek_for en old v =
     (if has_user_tier v
      then (case old of None \<Rightarrow> retE None | Some o' \<Rightarrow> unlock_user en v o')
      else bindE random_256 (\<lambda>d. retE (Some d)))"

definition set_passphrase ::
    "kdf_env \<Rightarrow> bytes \<Rightarrow> bytes option \<Rightarrow> bytes \<Rightarrow> kdf_params \<Rightarrow> vault_file \<Rightarrow>
     ('s kdf_state_scheme, crash, bool \<times> vault_file) op" where
  "set_passphrase en device_subkey old new params v =
     (case unlock_system_device en v device_subkey of
        None \<Rightarrow> retE (False, v)
      | Some sys_dek \<Rightarrow>
          bindE (user_dek_for en old v) (\<lambda>u.
            case u of
              None \<Rightarrow> retE (False, v)
            | Some user_dek \<Rightarrow>
                bindE (keyslot_create en new sys_dek params) (\<lambda>sp.
                bindE (keyslot_create en new user_dek params) (\<lambda>up.
                  case (sp, up) of
                    (Some sp', Some up') \<Rightarrow> retE (True, v\<lparr>sys_pass := sp', usr_pass := up'\<rparr>)
                  | _ \<Rightarrow> retE (False, v)))))"

definition vault_aad :: "u8 \<Rightarrow> bytes \<Rightarrow> bytes" where
  "vault_aad tier name = tier # name"

definition put_entry :: "vault_entry \<Rightarrow> vault_entry list \<Rightarrow> vault_entry list" where
  "put_entry e es =
     (let at = (\<lambda>x. e_tier x = e_tier e \<and> e_name x = e_name e)
      in if find at es \<noteq> None then update_first at (\<lambda>_. e) es else es @ [e])"

definition vault_set ::
    "bytes \<Rightarrow> u8 \<Rightarrow> bytes \<Rightarrow> bytes \<Rightarrow> vault_file \<Rightarrow> ('s csprng_scheme, crash, bool \<times> vault_file) op" where
  "vault_set dek tier name plaintext v =
     bindE random_256 (\<lambda>rnd.
       let nonce = take 12 rnd;
           ct = aead_encrypt_aad dek nonce (vault_aad tier name) plaintext
       in if ct = [] then retE (False, v)
          else retE (True, v\<lparr>v_entries :=
                 put_entry \<lparr>e_tier = tier, e_name = name, e_nonce = nonce, e_ct = ct\<rparr> (v_entries v)\<rparr>))"

definition vault_delete :: "u8 \<Rightarrow> bytes \<Rightarrow> vault_file \<Rightarrow> vault_file" where
  "vault_delete tier name v =
     v\<lparr>v_entries := filter (\<lambda>e. \<not> (e_tier e = tier \<and> e_name e = name)) (v_entries v)\<rparr>"

definition vault_get :: "bytes \<Rightarrow> u8 \<Rightarrow> bytes \<Rightarrow> vault_file \<Rightarrow> bytes option" where
  "vault_get dek tier name v =
     (case find (\<lambda>x. e_tier x = tier \<and> e_name x = name) (v_entries v) of
        None \<Rightarrow> None
      | Some e \<Rightarrow> aead_decrypt_aad dek (e_nonce e) (vault_aad tier name) (e_ct e))"

definition vault_names :: "u8 \<Rightarrow> vault_file \<Rightarrow> bytes list" where
  "vault_names tier v = map e_name (filter (\<lambda>e. e_tier e = tier) (v_entries v))"

section \<open>The byte format\<close>

definition serialize_entry :: "vault_entry \<Rightarrow> bytes" where
  "serialize_entry e =
     [e_tier e] @ to_le 2 (length (e_name e)) @ e_name e @ e_nonce e @ to_le 4 (length (e_ct e)) @ e_ct e"

definition vault_serialize :: "vault_file \<Rightarrow> bytes" where
  "vault_serialize v =
     VAULT_MAGIC @ to_le 2 VAULT_VERSION @ to_le 2 0 @ sys_device v @ sys_pass v @ usr_pass v
     @ to_le 4 (length (v_entries v)) @ concat (map serialize_entry (v_entries v))"

text \<open>\<open>core::str::from_utf8\<close>: the well-formed byte sequences of UTF-8.\<close>

definition cont_byte :: "u8 \<Rightarrow> bool" where
  "cont_byte b \<longleftrightarrow> 0x80 \<le> b \<and> b \<le> 0xBF"

fun utf8_valid :: "bytes \<Rightarrow> bool" where
  "utf8_valid [] = True"
| "utf8_valid (a # bs) =
     (if a \<le> 0x7F then utf8_valid bs
      else case bs of
        [] \<Rightarrow> False
      | b # cs \<Rightarrow>
          if 0xC2 \<le> a \<and> a \<le> 0xDF then cont_byte b \<and> utf8_valid cs
          else case cs of
            [] \<Rightarrow> False
          | c # ds \<Rightarrow>
              if 0xE0 \<le> a \<and> a \<le> 0xEF
              then (if a = 0xE0 then 0xA0 \<le> b \<and> b \<le> 0xBF
                    else if a = 0xED then 0x80 \<le> b \<and> b \<le> 0x9F else cont_byte b)
                   \<and> cont_byte c \<and> utf8_valid ds
              else case ds of
                [] \<Rightarrow> False
              | d # es \<Rightarrow>
                  if 0xF0 \<le> a \<and> a \<le> 0xF4
                  then (if a = 0xF0 then 0x90 \<le> b \<and> b \<le> 0xBF
                        else if a = 0xF4 then 0x80 \<le> b \<and> b \<le> 0x8F else cont_byte b)
                       \<and> cont_byte c \<and> cont_byte d \<and> utf8_valid es
                  else False)"

datatype parse_stop = Bounds | Reject

text \<open>\<open>b[off..off + n]\<close> followed by \<open>off += n\<close>; the parser's state is \<open>off\<close>.\<close>

definition take_bytes :: "bytes \<Rightarrow> nat \<Rightarrow> (nat, parse_stop, bytes) op" where
  "take_bytes b n = (\<lambda>off. if off + n \<le> length b then (Inr (slice off n b), off + n) else (Inl Bounds, off))"

text \<open>\<open>if off + n > b.len() { return None; }\<close>.\<close>

definition need_bytes :: "bytes \<Rightarrow> nat \<Rightarrow> (nat, parse_stop, unit) op" where
  "need_bytes b n = (\<lambda>off. if off + n > length b then (Inl Reject, off) else (Inr (), off))"

definition parse_entry :: "bytes \<Rightarrow> (nat, parse_stop, vault_entry) op" where
  "parse_entry b =
     bindE (need_bytes b 3) (\<lambda>_.
     bindE (take_bytes b 1) (\<lambda>tier.
     bindE (take_bytes b 2) (\<lambda>nl.
     let name_len = from_le nl in
     bindE (need_bytes b (name_len + 12 + 4)) (\<lambda>_.
     bindE (take_bytes b name_len) (\<lambda>name.
     if \<not> utf8_valid name then throwE Reject
     else
     bindE (take_bytes b 12) (\<lambda>nonce.
     bindE (take_bytes b 4) (\<lambda>cl.
     let ct_len = from_le cl in
     bindE (need_bytes b ct_len) (\<lambda>_.
     bindE (take_bytes b ct_len) (\<lambda>ct.
       retE \<lparr>e_tier = tier ! 0, e_name = name, e_nonce = nonce, e_ct = ct\<rparr>)))))))))"

fun parse_entries :: "bytes \<Rightarrow> nat \<Rightarrow> (nat, parse_stop, vault_entry list) op" where
  "parse_entries b 0 = retE []"
| "parse_entries b (Suc n) =
     bindE (parse_entry b) (\<lambda>e. bindE (parse_entries b n) (\<lambda>es. retE (e # es)))"

definition parse_body :: "bytes \<Rightarrow> (nat, parse_stop, vault_file) op" where
  "parse_body b =
     bindE (take_bytes b SLOT_BYTES) (\<lambda>sd.
     bindE (take_bytes b SLOT_BYTES) (\<lambda>sp.
     bindE (take_bytes b SLOT_BYTES) (\<lambda>up.
     bindE (take_bytes b 4) (\<lambda>c.
     bindE (parse_entries b (from_le c)) (\<lambda>es.
       retE \<lparr>sys_device = sd, sys_pass = sp, usr_pass = up, v_entries = es\<rparr>)))))"

definition vault_parse :: "bytes \<Rightarrow> crash + vault_file option" where
  "vault_parse b =
     (if length b < HEADER_LEN \<or> take 8 b \<noteq> VAULT_MAGIC then Inr None
      else if from_le (slice 8 2 b) \<noteq> VAULT_VERSION then Inr None
      else case parse_body b 12 of
             (Inr v, _) \<Rightarrow> Inr (Some v)
           | (Inl Reject, _) \<Rightarrow> Inr None
           | (Inl Bounds, _) \<Rightarrow> Inl Panic)"

section \<open>Parsing\<close>

lemma take_bytes_wp [wp]:
  "wpE (take_bytes b n) Q R off = (if off + n \<le> length b then Q (slice off n b) (off + n) else R Bounds off)"
  by (simp add: wpE_def take_bytes_def)

lemma need_bytes_wp [wp]:
  "wpE (need_bytes b n) Q R off = (if off + n > length b then R Reject off else Q () off)"
  by (simp add: wpE_def need_bytes_def)

lemma parse_entry_bounds: "wpE (parse_entry b) (\<lambda>_ _. True) (\<lambda>e _. e = Reject) off"
  by (simp add: parse_entry_def Let_def wp)

lemma parse_entries_bounds: "wpE (parse_entries b n) (\<lambda>_ _. True) (\<lambda>e _. e = Reject) off"
proof (induction n arbitrary: off)
  case 0
  then show ?case by (simp add: wp)
next
  case (Suc n)
  show ?case
    unfolding parse_entries.simps wpE_bind
    by (rule wpE_mono [OF parse_entry_bounds], rule wpE_mono [OF Suc.IH]) (simp_all add: wp)
qed

lemma vault_parse_no_panic: "\<exists>r. vault_parse b = Inr r"
proof (cases "length b < HEADER_LEN")
  case True
  then show ?thesis by (simp add: vault_parse_def)
next
  case False
  then have "wpE (parse_body b) (\<lambda>_ _. True) (\<lambda>e _. e = Reject) 12"
    by (simp add: parse_body_def wp HEADER_LEN_def SLOT_BYTES_def wpE_mono [OF parse_entries_bounds])
  then show ?thesis
    by (auto simp: vault_parse_def wpE_def split: prod.splits sum.splits)
qed

section \<open>Round trip\<close>

definition entry_wf :: "vault_entry \<Rightarrow> bool" where
  "entry_wf e \<longleftrightarrow> utf8_valid (e_name e) \<and> length (e_name e) < 2 ^ 16 \<and> length (e_nonce e) = 12 \<and>
     length (e_ct e) < 2 ^ 32"

definition vault_wf :: "vault_file \<Rightarrow> bool" where
  "vault_wf v \<longleftrightarrow> length (sys_device v) = 128 \<and> length (sys_pass v) = 128 \<and> length (usr_pass v) = 128 \<and>
     length (v_entries v) < 2 ^ 32 \<and> (\<forall>e \<in> set (v_entries v). entry_wf e)"

text \<open>Reading a field: what is left of the buffer starts with it.\<close>

lemma take_bytes_at:
  "drop off b = xs @ ys \<Longrightarrow> length xs = n \<Longrightarrow> off \<le> length b \<Longrightarrow>
     take_bytes b n off = (Inr xs, off + n) \<and> drop (off + n) b = ys \<and> off + n \<le> length b"
proof -
  assume d: "drop off b = xs @ ys" and n: "length xs = n" and o: "off \<le> length b"
  have "length b - off = n + length ys" using arg_cong [OF d, of length] n by simp
  moreover have "drop (off + n) b = ys" using arg_cong [OF d, of "drop n"] n by (simp add: add.commute)
  ultimately show ?thesis using d n o by (simp add: take_bytes_def slice_def)
qed

lemma parse_serialized_entry:
  assumes wf: "entry_wf e" and d: "drop off b = serialize_entry e @ ys" and o: "off \<le> length b"
  shows "parse_entry b off = (Inr e, off + length (serialize_entry e)) \<and>
    drop (off + length (serialize_entry e)) b = ys \<and> off + length (serialize_entry e) \<le> length b"
proof -
  define t n nm nc cl ct where "t = [e_tier e]" and "n = to_le 2 (length (e_name e))" and "nm = e_name e"
    and "nc = e_nonce e" and "cl = to_le 4 (length (e_ct e))" and "ct = e_ct e"
  have se: "serialize_entry e = t @ n @ nm @ nc @ cl @ ct"
    by (simp add: serialize_entry_def t_def n_def nm_def nc_def cl_def ct_def)
  have len: "length t = 1" "length n = 2" "length nc = 12" "length cl = 4"
    using wf by (simp_all add: t_def n_def nc_def cl_def entry_wf_def del: to_le_numeral)
  have fl: "from_le n = length nm" "from_le cl = length ct"
    using wf by (simp_all add: n_def cl_def nm_def ct_def codec entry_wf_def del: to_le_numeral)
  have u: "utf8_valid nm" using wf by (simp add: entry_wf_def nm_def)
  note d0 = d [unfolded se append_assoc]
  from take_bytes_at [OF d0 len(1) o]
  have s1: "take_bytes b 1 off = (Inr t, off + 1)"
    and d1: "drop (off + 1) b = n @ nm @ nc @ cl @ ct @ ys" and o1: "off + 1 \<le> length b" by simp_all
  from take_bytes_at [OF d1 len(2) o1]
  have s2: "take_bytes b 2 (off + 1) = (Inr n, off + 3)"
    and d2: "drop (off + 3) b = nm @ nc @ cl @ ct @ ys" and o2: "off + 3 \<le> length b"
    by (simp_all add: numeral_3_eq_3)
  from take_bytes_at [OF d2 refl o2]
  have s3: "take_bytes b (length nm) (off + 3) = (Inr nm, off + 3 + length nm)"
    and d3: "drop (off + 3 + length nm) b = nc @ cl @ ct @ ys" and o3: "off + 3 + length nm \<le> length b"
    by simp_all
  from take_bytes_at [OF d3 len(3) o3]
  have s4: "take_bytes b 12 (off + 3 + length nm) = (Inr nc, off + 15 + length nm)"
    and d4: "drop (off + 15 + length nm) b = cl @ ct @ ys" and o4: "off + 15 + length nm \<le> length b"
    by (simp_all add: ac_simps)
  from take_bytes_at [OF d4 len(4) o4]
  have s5: "take_bytes b 4 (off + 15 + length nm) = (Inr cl, off + 19 + length nm)"
    and d5: "drop (off + 19 + length nm) b = ct @ ys" and o5: "off + 19 + length nm \<le> length b"
    by (simp_all add: ac_simps)
  from take_bytes_at [OF d5 refl o5]
  have s6: "take_bytes b (length ct) (off + 19 + length nm) = (Inr ct, off + 19 + length nm + length ct)"
    and d6: "drop (off + 19 + length nm + length ct) b = ys" and o6: "off + 19 + length nm + length ct \<le> length b"
    by (simp_all add: ac_simps)
  have g: "need_bytes b 3 off = (Inr (), off)" "need_bytes b (length nm + 12 + 4) (off + 3) = (Inr (), off + 3)"
    "need_bytes b (length ct) (off + 19 + length nm) = (Inr (), off + 19 + length nm)"
    using o2 o5 o6 by (simp_all add: need_bytes_def)
  have "parse_entry b off = (Inr e, off + 19 + length nm + length ct)"
    unfolding parse_entry_def Let_def
    by (simp only: bindE_def g s1 s2 fl s3 u s4 s5 s6 retE_def prod.case sum.case simp_thms if_False)
      (simp add: t_def nm_def nc_def ct_def)
  moreover have "off + length (serialize_entry e) = off + 19 + length nm + length ct"
    by (simp add: se len)
  ultimately show ?thesis using d6 o6 by (simp only: simp_thms)
qed

lemma parse_serialized_entries:
  "(\<And>e. e \<in> set es \<Longrightarrow> entry_wf e) \<Longrightarrow> drop off b = concat (map serialize_entry es) \<Longrightarrow> off \<le> length b \<Longrightarrow>
     \<exists>off'. parse_entries b (length es) off = (Inr es, off')"
proof (induction es arbitrary: off)
  case Nil
  then show ?case by (simp add: effects)
next
  case (Cons e es)
  have "drop off b = serialize_entry e @ concat (map serialize_entry es)" using Cons.prems(2) by simp
  from parse_serialized_entry [OF _ this Cons.prems(3)] Cons.prems(1)
  have p: "parse_entry b off = (Inr e, off + length (serialize_entry e))"
    and d: "drop (off + length (serialize_entry e)) b = concat (map serialize_entry es)"
    and o: "off + length (serialize_entry e) \<le> length b" by simp_all
  from Cons.IH [OF _ d o] Cons.prems(1)
  obtain off' where "parse_entries b (length es) (off + length (serialize_entry e)) = (Inr es, off')" by auto
  then show ?case by (simp add: bindE_def p retE_def)
qed

lemma vault_roundtrip:
  assumes wf: "vault_wf v"
  shows "vault_parse (vault_serialize v) = Inr (Some v)"
proof -
  define b where "b = vault_serialize v"
  define es where "es = concat (map serialize_entry (v_entries v))"
  define c where "c = to_le 4 (length (v_entries v))"
  have b: "b = VAULT_MAGIC @ to_le 2 VAULT_VERSION @ to_le 2 0 @ sys_device v @ sys_pass v @ usr_pass v @ c @ es"
    by (simp add: b_def vault_serialize_def es_def c_def)
  have magic: "length VAULT_MAGIC = 8" by (simp add: VAULT_MAGIC_def)
  have len: "length (sys_device v) = 128" "length (sys_pass v) = 128" "length (usr_pass v) = 128" "length c = 4"
    using wf by (simp_all add: vault_wf_def c_def del: to_le_numeral)
  have hl: "\<not> length b < HEADER_LEN" using len magic by (simp add: b HEADER_LEN_def SLOT_BYTES_def del: to_le_numeral)
  have m: "take 8 b = VAULT_MAGIC" using magic by (simp add: b)
  have v: "from_le (slice 8 2 b) = VAULT_VERSION"
    using magic by (simp add: b slice_def codec VAULT_VERSION_def del: to_le_numeral)
  have fc: "from_le c = length (v_entries v)"
    using wf by (simp add: c_def codec vault_wf_def del: to_le_numeral)
  have d0: "drop 12 b = sys_device v @ sys_pass v @ usr_pass v @ c @ es"
    using magic by (simp add: b del: to_le_numeral)
  have o0: "12 \<le> length b" using hl by (simp add: HEADER_LEN_def)
  from take_bytes_at [OF d0 len(1) o0] have s1: "take_bytes b 128 12 = (Inr (sys_device v), 140)"
    and d1: "drop 140 b = sys_pass v @ usr_pass v @ c @ es" and o1: "140 \<le> length b" by simp_all
  from take_bytes_at [OF d1 len(2) o1] have s2: "take_bytes b 128 140 = (Inr (sys_pass v), 268)"
    and d2: "drop 268 b = usr_pass v @ c @ es" and o2: "268 \<le> length b" by simp_all
  from take_bytes_at [OF d2 len(3) o2] have s3: "take_bytes b 128 268 = (Inr (usr_pass v), 396)"
    and d3: "drop 396 b = c @ es" and o3: "396 \<le> length b" by simp_all
  from take_bytes_at [OF d3 len(4) o3] have s4: "take_bytes b 4 396 = (Inr c, 400)"
    and d4: "drop 400 b = es" and o4: "400 \<le> length b" by simp_all
  from parse_serialized_entries [OF _ d4 [unfolded es_def] o4] wf
  obtain off where s5: "parse_entries b (length (v_entries v)) 400 = (Inr (v_entries v), off)"
    by (auto simp: vault_wf_def)
  have "parse_body b 12 = (Inr v, off)"
    unfolding parse_body_def SLOT_BYTES_def
    by (simp add: bindE_def s1 s2 s3 s4 fc s5 retE_def)
  then show ?thesis unfolding vault_parse_def b_def [symmetric] using hl m v by simp
qed

text \<open>What the parser accepts is well formed: the lengths it read fit their fields.\<close>

lemma from_le_slice_bound: "off + k \<le> length b \<Longrightarrow> from_le (slice off k b) < 256 ^ k"
  using from_le_bound [of "slice off k b"] by simp

lemma parse_entry_wf: "wpE (parse_entry b) (\<lambda>e _. entry_wf e) (\<lambda>_ _. True) off"
  by (simp add: parse_entry_def Let_def wp entry_wf_def from_le_slice_bound [THEN order_less_le_trans])

lemma parse_entries_wf:
  "wpE (parse_entries b n) (\<lambda>es _. length es = n \<and> (\<forall>e \<in> set es. entry_wf e)) (\<lambda>_ _. True) off"
proof (induction n arbitrary: off)
  case 0
  then show ?case by (simp add: wp)
next
  case (Suc n)
  show ?case
    unfolding parse_entries.simps wpE_bind
    by (rule wpE_mono [OF parse_entry_wf], rule wpE_mono [OF Suc.IH]) (simp_all add: wp)
qed

lemma vault_parse_wf:
  assumes "vault_parse b = Inr (Some v)"
  shows "vault_wf v"
proof -
  have "wpE (parse_body b) (\<lambda>v _. vault_wf v) (\<lambda>_ _. True) 12"
    using from_le_slice_bound [of 396 4 b]
    by (simp add: parse_body_def wp SLOT_BYTES_def vault_wf_def wpE_mono [OF parse_entries_wf])
  with assms show ?thesis
    by (auto simp: vault_parse_def wpE_def split: prod.splits sum.splits parse_stop.splits if_splits)
qed

section \<open>Entries\<close>

lemma aead_encrypt_nonempty: "aead_encrypt_aad k n a p \<noteq> []"
proof -
  have "length (aead_encrypt_aad k n a p) = length p + 16" by (simp add: aead_encrypt_aad_def Let_def)
  then show ?thesis by auto
qed

abbreviation entry_at :: "u8 \<Rightarrow> bytes \<Rightarrow> vault_entry \<Rightarrow> bool" where
  "entry_at tier name x \<equiv> e_tier x = tier \<and> e_name x = name"

text \<open>At most one entry has a given tier and name.\<close>

definition vault_unique :: "vault_file \<Rightarrow> bool" where
  "vault_unique v \<longleftrightarrow> distinct (map (\<lambda>e. (e_tier e, e_name e)) (v_entries v))"

lemma find_update_same:
  "find p es \<noteq> None \<Longrightarrow> p e \<Longrightarrow> find p (update_first p (\<lambda>_. e) es) = Some e"
  by (induction es) auto

lemma find_update_other:
  "\<not> q e \<Longrightarrow> (\<And>x. p x \<Longrightarrow> \<not> q x) \<Longrightarrow> find q (update_first p (\<lambda>_. e) es) = find q es"
  by (induction es) auto

lemma find_concat: "find p (xs @ ys) = (case find p xs of None \<Rightarrow> find p ys | Some x \<Rightarrow> Some x)"
  by (induction xs) auto

lemma find_put_entry:
  "find (entry_at tier name) (put_entry e es) =
     (if e_tier e = tier \<and> e_name e = name then Some e else find (entry_at tier name) es)"
proof (cases "find (entry_at (e_tier e) (e_name e)) es = None")
  case True
  then show ?thesis
    by (cases "e_tier e = tier \<and> e_name e = name")
      (auto simp: put_entry_def find_concat split: option.split)
next
  case False
  show ?thesis
  proof (cases "e_tier e = tier \<and> e_name e = name")
    case True
    then show ?thesis
      using False find_update_same [of "entry_at tier name" es e] by (auto simp: put_entry_def)
  next
    case other: False
    then have "find (entry_at tier name) (update_first (entry_at (e_tier e) (e_name e)) (\<lambda>_. e) es)
        = find (entry_at tier name) es"
      by (intro find_update_other) auto
    with other False show ?thesis by (auto simp: put_entry_def)
  qed
qed

lemma keys_put_entry:
  "map (\<lambda>e. (e_tier e, e_name e)) (put_entry e es) =
     (if find (entry_at (e_tier e) (e_name e)) es \<noteq> None then map (\<lambda>e. (e_tier e, e_name e)) es
      else map (\<lambda>e. (e_tier e, e_name e)) es @ [(e_tier e, e_name e)])"
proof -
  have "map (\<lambda>e. (e_tier e, e_name e)) (update_first (entry_at (e_tier e) (e_name e)) (\<lambda>_. e) es)
      = map (\<lambda>e. (e_tier e, e_name e)) es"
    by (induction es) auto
  then show ?thesis by (simp add: put_entry_def)
qed

lemma put_entry_unique:
  "distinct (map (\<lambda>e. (e_tier e, e_name e)) es) \<Longrightarrow> distinct (map (\<lambda>e. (e_tier e, e_name e)) (put_entry e es))"
  unfolding keys_put_entry by (auto simp: find_None_iff)

lemma set_put_entry: "set (put_entry e es) \<subseteq> insert e (set es)"
proof -
  have "set (update_first p (\<lambda>_. e) es) \<subseteq> insert e (set es)" for p by (induction es) auto
  then show ?thesis unfolding put_entry_def Let_def by auto
qed

lemma vault_set_result:
  assumes "vault_set dek tier name plaintext v s = (Inr (ok, v'), s')"
  obtains rnd where "random_256 s = (Inr rnd, s')" and "ok" and
    "v' = v\<lparr>v_entries := put_entry \<lparr>e_tier = tier, e_name = name, e_nonce = take 12 rnd,
       e_ct = aead_encrypt_aad dek (take 12 rnd) (vault_aad tier name) plaintext\<rparr> (v_entries v)\<rparr>"
  using assms by (auto simp: vault_set_def Let_def aead_encrypt_nonempty effects elim!: bindE_InrE)

lemma vault_set_get:
  assumes "vault_set dek tier name plaintext v s = (Inr (ok, v'), s')"
  shows "vault_get dek tier name v' = Some plaintext"
    and "(tier', name') \<noteq> (tier, name) \<Longrightarrow> vault_get dek' tier' name' v' = vault_get dek' tier' name' v"
proof -
  from assms obtain rnd where v': "v' = v\<lparr>v_entries := put_entry \<lparr>e_tier = tier, e_name = name, e_nonce = take 12 rnd,
       e_ct = aead_encrypt_aad dek (take 12 rnd) (vault_aad tier name) plaintext\<rparr> (v_entries v)\<rparr>"
    by (rule vault_set_result)
  show "vault_get dek tier name v' = Some plaintext"
    by (simp add: v' vault_get_def find_put_entry chacha.unseal_seal)
  show "vault_get dek' tier' name' v' = vault_get dek' tier' name' v" if "(tier', name') \<noteq> (tier, name)"
    using that by (auto simp: v' vault_get_def find_put_entry)
qed

lemma vault_delete_get:
  "vault_get dek tier name (vault_delete tier name v) = None"
  "(tier', name') \<noteq> (tier, name) \<Longrightarrow> vault_get dek tier' name' (vault_delete tier name v) = vault_get dek tier' name' v"
proof -
  have "find (entry_at tier name) (filter (\<lambda>e. \<not> entry_at tier name e) es) = None" for es
    by (induction es) auto
  then show "vault_get dek tier name (vault_delete tier name v) = None"
    by (simp add: vault_get_def vault_delete_def)
  have "find (entry_at tier' name') (filter (\<lambda>e. \<not> entry_at tier name e) es) = find (entry_at tier' name') es"
    if "(tier', name') \<noteq> (tier, name)" for es
    using that by (induction es) auto
  then show "vault_get dek tier' name' (vault_delete tier name v) = vault_get dek tier' name' v"
    if "(tier', name') \<noteq> (tier, name)"
    using that by (simp add: vault_get_def vault_delete_def)
qed

lemma vault_invariants:
  "vault_unique v \<Longrightarrow> vault_set dek tier name plaintext v s = (Inr (ok, v'), s') \<Longrightarrow> vault_unique v'"
  "vault_unique v \<Longrightarrow> vault_unique (vault_delete tier name v)"
proof -
  show "vault_unique v'" if "vault_unique v" "vault_set dek tier name plaintext v s = (Inr (ok, v'), s')"
    using that(1) vault_set_result [OF that(2)] put_entry_unique by (fastforce simp: vault_unique_def)
  show "vault_unique (vault_delete tier name v)" if "vault_unique v"
    using that by (auto simp: vault_unique_def vault_delete_def distinct_map intro: inj_on_subset)
qed

lemma vault_get_authentic:
  assumes "vault_get dek tier name v = Some p"
  obtains e where "e \<in> set (v_entries v)" and "e_tier e = tier" and "e_name e = name"
    and "e_ct e = aead_encrypt_aad dek (e_nonce e) (vault_aad tier name) p"
proof -
  from assms obtain e where f: "find (entry_at tier name) (v_entries v) = Some e"
    and d: "aead_decrypt_aad dek (e_nonce e) (vault_aad tier name) (e_ct e) = Some p"
    by (auto simp: vault_get_def split: option.splits)
  from f have "e \<in> set (v_entries v)" "entry_at tier name e" by (auto simp: find_Some_iff)
  with d show thesis using that by (simp add: chacha.unseal_iff)
qed

section \<open>Passphrases\<close>

lemma slot_unwrap_length: "slot_unwrap en kek slot = Some d \<Longrightarrow> length d = 32"
  by (auto simp: slot_unwrap_def split: option.splits if_splits)

lemma keyslot_unlock_keeps:
  assumes "keyslot_unlock en slot pass s = (Inr r, s')"
  shows "RNG s' = RNG s" and "r = Some d \<Longrightarrow> length d = 32"
proof -
  have "RNG s' = RNG s \<and> (r = Some d \<longrightarrow> length d = 32)"
  proof (cases "slot ! 0 = KIND_PASSPHRASE")
    case False
    then show ?thesis using assms by (auto simp: keyslot_unlock_def effects)
  next
    case True
    obtain k s1 where a: "argon2id en pass (slice 16 16 slot) (params_of slot) s = (k, s1)" by fastforce
    have rng: "RNG s1 = RNG s" using argon2id_rng [of en pass "slice 16 16 slot" "params_of slot" s] a by simp
    from argon2id_result [OF a] obtain ko where "k = Inr ko" by auto
    with assms True a rng show ?thesis
      by (cases ko) (auto simp: keyslot_unlock_def bindE_def retE_def slot_unwrap_length)
  qed
  then show "RNG s' = RNG s" and "r = Some d \<Longrightarrow> length d = 32" by auto
qed

lemma keyslot_create_rng:
  assumes "keyslot_create en pass dek params s = (Inr r, s')" and "rng_ok s"
  shows "rng_ok s'"
proof -
  from assms(1) obtain rnd s1 where r: "random_256 s = (Inr rnd, s1)"
    and c: "bindE (argon2id en pass (slice 16 16 (slot_header params rnd)) params)
       (\<lambda>k. case k of None \<Rightarrow> retE None | Some kek \<Rightarrow> retE (slot_wrap en kek dek (slot_header params rnd))) s1
       = (Inr r, s')"
    unfolding keyslot_create_def Let_def by (rule bindE_InrE)
  obtain k s2 where a: "argon2id en pass (slice 16 16 (slot_header params rnd)) params s1 = (k, s2)" by fastforce
  from argon2id_result [OF a] obtain ko where "k = Inr ko" by auto
  with c a have "s' = s2" by (cases ko) (simp_all add: bindE_def retE_def)
  then have "RNG s' = RNG s1"
    using argon2id_rng [of en pass "slice 16 16 (slot_header params rnd)" params s1] a by simp
  with random_256_good(3) [OF r assms(2)] show ?thesis by (simp add: rng_ok_def)
qed

lemma user_dek_for_good:
  assumes "user_dek_for en old v s = (Inr (Some d), s')" and "rng_ok s"
  shows "length d = 32" and "rng_ok s'"
    and "has_user_tier v \<Longrightarrow> \<exists>o'. old = Some o' \<and> unlock_user en v o' s = (Inr (Some d), s')"
proof -
  have "length d = 32 \<and> rng_ok s' \<and>
      (has_user_tier v \<longrightarrow> (\<exists>o'. old = Some o' \<and> unlock_user en v o' s = (Inr (Some d), s')))"
  proof (cases "has_user_tier v")
    case True
    with assms(1) obtain o' where o: "old = Some o'" and u: "unlock_user en v o' s = (Inr (Some d), s')"
      by (cases old) (simp_all add: user_dek_for_def effects)
    note k = keyslot_unlock_keeps [OF u [unfolded unlock_user_def]]
    from k assms(2) o u True show ?thesis by (simp add: rng_ok_def)
  next
    case False
    with assms(1) have "random_256 s = (Inr d, s')"
      by (auto simp: user_dek_for_def effects elim!: bindE_InrE)
    with random_256_good [OF this assms(2)] False show ?thesis by simp
  qed
  then show "length d = 32" and "rng_ok s'"
    and "has_user_tier v \<Longrightarrow> \<exists>o'. old = Some o' \<and> unlock_user en v o' s = (Inr (Some d), s')" by auto
qed

lemma set_passphrase_result:
  assumes "set_passphrase en device_subkey old new params v s = (Inr (True, v'), s')"
  obtains sys_dek user_dek s1 sp up s2 where "unlock_system_device en v device_subkey = Some sys_dek"
    and "user_dek_for en old v s = (Inr (Some user_dek), s1)"
    and "keyslot_create en new sys_dek params s1 = (Inr (Some sp), s2)"
    and "keyslot_create en new user_dek params s2 = (Inr (Some up), s')"
    and "v' = v\<lparr>sys_pass := sp, usr_pass := up\<rparr>"
proof -
  from assms obtain sys_dek where sys: "unlock_system_device en v device_subkey = Some sys_dek"
    by (cases "unlock_system_device en v device_subkey") (simp_all add: set_passphrase_def effects)
  obtain u s1 where u: "user_dek_for en old v s = (u, s1)" by fastforce
  with assms sys obtain user_dek where ud: "u = Inr (Some user_dek)"
    by (auto simp: set_passphrase_def bindE_def retE_def split: sum.splits option.splits)
  obtain c1 s2 where c1: "keyslot_create en new sys_dek params s1 = (c1, s2)" by fastforce
  with assms sys u ud obtain sp' where sp': "c1 = Inr sp'"
    by (auto simp: set_passphrase_def bindE_def split: sum.splits)
  obtain c2 s3 where c2: "keyslot_create en new user_dek params s2 = (c2, s3)" by fastforce
  with assms sys u ud c1 sp' obtain sp up where "sp' = Some sp" "c2 = Inr (Some up)" "s3 = s'"
    "v' = v\<lparr>sys_pass := sp, usr_pass := up\<rparr>"
    by (auto simp: set_passphrase_def bindE_def retE_def split: sum.splits option.splits)
  with that sys u ud c1 sp' c2 show thesis by simp
qed

end
