(* ===== verification/Crypto_Properties.thy ===== *)
theory Crypto_Properties
  imports Keyvault
begin

text \<open>
  The properties of the cryptographic core: Poly1305 against the polynomial of the RFC, the authenticated
  cipher, the re-keying of the generator, the key derivation's memory, the keyslots, and the vault.
\<close>

section \<open>A small machine\<close>

text \<open>Stand-ins for the two external algorithms: a cipher that appends a tag derived from its inputs and a
  hash that pads the passphrase.\<close>

definition toy_env :: kdf_env where
  "toy_env = \<lparr>argon_blocks = (\<lambda>_ _ _. Some 1),
     argon_hash = (\<lambda>pass salt _ _ _. Some (take 32 (pass @ salt @ replicate 32 0))),
     argon_memory = (\<lambda>pass _ _. pass),
     gcm_encrypt = (\<lambda>k n a m. Some (m @ take 16 (k @ replicate 16 0))),
     gcm_decrypt = (\<lambda>k n a c. if drop (length c - 16) c = take 16 (k @ replicate 16 0)
                              then Some (take (length c - 16) c) else None),
     k_shrinkers = (\<lambda>_ fa. (0, fa)), counter_hz = 1000, counter_before = 5, counter_after = 105\<rparr>"

definition toy_rng :: rng where
  "toy_rng = \<lparr>rng_key = replicate 32 9, rng_counter = 2, rng_buffer = replicate 64 7, rng_pos = 0\<rparr>"

definition toy_state :: kdf_state where
  "toy_state = \<lparr>RNG = Some toy_rng, HW_SEEDED = True,
     k_frames = \<lparr>fa_bits = [0], fa_free = 8, memory_top = 8, next_byte = 0\<rparr>, k_ram = (\<lambda>_. 5)\<rparr>"

definition toy_params :: kdf_params where
  "toy_params = \<lparr>m_kib = 1024, t_cost = 1, p_lanes = 4\<rparr>"

lemma toy_gcm: "gcm_correct toy_env"
  by (simp add: gcm_correct_def toy_env_def min_def)

lemma toy_rng_ok: "rng_ok toy_state"
  by (simp add: rng_ok_def toy_state_def toy_rng_def rng_inv_def)

text \<open>One draw of 32 bytes from the buffer of the toy generator.\<close>

lemma toy_u64: "rng_pos r \<le> 56 \<Longrightarrow> rng_buffer r = replicate 64 7 \<Longrightarrow>
    rng_next_u64 r = (of_nat (from_le (replicate 8 7)), r\<lparr>rng_pos := rng_pos r + 8\<rparr>)"
  by (simp add: rng_next_u64_def slice_def)

lemma toy_next_256:
  "rng_pos r \<le> 32 \<Longrightarrow> rng_buffer r = replicate 64 7 \<Longrightarrow>
     rng_next_256 r = (replicate 32 7, r\<lparr>rng_pos := rng_pos r + 32\<rparr>)"
  by (simp add: rng_next_256_def toy_u64 upt_rec splice_def replicate_numeral)

lemma toy_random_256:
  "RNG s = Some (toy_rng\<lparr>rng_pos := p\<rparr>) \<Longrightarrow> p \<le> 32 \<Longrightarrow>
     random_256 s = (Inr (replicate 32 7), s\<lparr>RNG := Some (toy_rng\<lparr>rng_pos := p + 32\<rparr>)\<rparr>)"
  by (simp add: random_256_def with_rng_def draw_256.simps toy_next_256 toy_rng_def)

lemma toy_allocate:
  assumes "k_frames s = \<lparr>fa_bits = [0], fa_free = 8, memory_top = 8, next_byte = 0\<rparr>"
  shows "allocate_contiguous (k_shrinkers toy_env) 1 (k_frames s) = (Some 28672, fa_set_used 7 (k_frames s))"
proof -
  have "below_loop [0] 1 7 = Some 7" by (subst below_loop.simps) (simp add: bv_clear_def)
  then show ?thesis
    by (simp add: assms toy_env_def allocate_contiguous_def allocate_contiguous_below_def with_reclaim_def
        contiguous_below_def PAGE_SIZE_def use_frames_def)
qed

lemma toy_argon2id:
  assumes "k_frames s = \<lparr>fa_bits = [0], fa_free = 8, memory_top = 8, next_byte = 0\<rparr>"
  shows "argon2id toy_env pass salt p s = (Inr (Some (take 32 (pass @ salt @ replicate 32 0))),
    s\<lparr>k_ram := ram_write 28672 (replicate 4096 0) (ram_write 28672 (take 1024 pass) (k_ram s)),
      k_frames := \<lparr>fa_bits = [0], fa_free = 8, memory_top = 8, next_byte = 0\<rparr>\<rparr>)"
proof -
  have restored: "fa_set_free 7 (fa_set_used 7 (k_frames s)) = k_frames s"
    unfolding assms by (simp add: fa_set_free_def fa_set_used_def fa_frames_def bv_clear_def bv_set_def bv_unset_def)
  from toy_allocate [OF assms] show ?thesis
    unfolding argon2id_def toy_env_def ARGON_BLOCK_def PAGE_SIZE_def
    by (simp add: deallocate_contiguous_def PAGE_SIZE_def restored [unfolded assms] assms)
qed

section \<open>The authenticated cipher\<close>

text \<open>C18. The tag the limb code of \<open>poly1305_mac\<close> computes is the one RFC 8439 defines: the blocks of the
  message as a polynomial in the clamped half of the key modulo \<open>2 ^ 130 - 5\<close>, plus the other half, modulo
  \<open>2 ^ 128\<close>, for every key and every message length.\<close>

theorem poly1305_is_rfc:
  assumes "length key = 32"
  shows "poly1305_mac key m
    = to_le 16 (mac_reference (from_le (take 16 key) AND clamp_mask) (from_le (drop 16 key)) m)"
  by (rule poly1305_mac_reference [OF assms])

definition rfc_key :: bytes where
  "rfc_key = [0x85, 0xd6, 0xbe, 0x78, 0x57, 0x55, 0x6d, 0x33, 0x7f, 0x44, 0x52, 0xfe, 0x42, 0xd5, 0x06, 0xa8,
     0x01, 0x03, 0x80, 0x8a, 0xfb, 0x0d, 0xb2, 0xfd, 0x4a, 0xbf, 0xf6, 0xaf, 0x41, 0x49, 0xf5, 0x1b]"

text \<open>The test vector of the RFC.\<close>

theorem poly1305_is_rfc_witness:
  "poly1305_mac rfc_key (lit ''Cryptographic Forum Research Group'') =
     [0xa8, 0x06, 0x1d, 0xc1, 0x30, 0x51, 0x36, 0xc6, 0xc2, 0x2b, 0x8b, 0xaf, 0x0c, 0x01, 0x27, 0xa9]"
proof -
  have "length rfc_key = 32" by (simp add: rfc_key_def)
  from poly1305_is_rfc [OF this, of "lit ''Cryptographic Forum Research Group''"] show ?thesis
    by (simp add: rfc_key_def mac_reference_def clamp_mask_def mac_blocks.simps)
qed

text \<open>C12. Decryption accepts exactly what encryption produces: \<open>aead_decrypt_aad\<close> gives a plaintext if and
  only if its input is the encryption of that plaintext under the same key, nonce and associated data, so
  every encrypted message is read back and any other input is refused.\<close>

theorem aead_decrypts_exactly:
  "aead_decrypt_aad key nonce aad c = Some p \<longleftrightarrow> c = aead_encrypt_aad key nonce aad p"
  by (rule chacha.unseal_iff)

section \<open>The generator\<close>

text \<open>C36. The generator re-keys within 64 blocks, from any state: up to that point the key stays and the counter
  runs on, then the first half of a block that is never handed out becomes the key, and the buffer is a
  block of the new key.\<close>

theorem rng_rekeys_soon:
  "\<exists>i < 64. let before = (rng_refill ^^ i) r; after = rng_refill before;
       hidden = chacha20_block (rng_key r) (rng_counter r + of_nat i) (replicate 12 0)
     in rng_key before = rng_key r \<and> rng_counter before = rng_counter r + of_nat i \<and>
        rng_key after = take 32 hidden \<and>
        rng_buffer after = chacha20_block (take 32 hidden) (rng_counter r + of_nat i + 1) (replicate 12 0)"
proof -
  from rng_rekey_within [of r] obtain i where i: "i < 64" "rng_rekeys ((rng_refill ^^ i) r)"
    and plain: "\<And>j. j < i \<Longrightarrow> \<not> rng_rekeys ((rng_refill ^^ j) r)" by blast
  from rng_refill_run [OF plain] rng_refill_rekey [OF i(2)] i(1) show ?thesis
    by (intro exI [of _ i]) (simp add: Let_def)
qed

section \<open>Keys\<close>

text \<open>C32. The key derivation leaves no trace of the passphrase: every byte of memory is afterwards what it
  was before or zero, every frame that was free is free again, and the allocator's invariant holds, on
  every path.\<close>

theorem argon2id_leaves_no_trace:
  assumes "fa_inv (k_frames s)" and "shrinkers_ok en" and "argon2id en pass salt p s = (r, s')"
  shows "(k_ram s' x = k_ram s x \<or> k_ram s' x = 0) \<and> free_frames (k_frames s) \<subseteq> free_frames (k_frames s') \<and>
    fa_inv (k_frames s')"
  using argon2id_clean [OF assms] by simp

lemma toy_fa_inv: "fa_inv (k_frames toy_state)"
proof -
  have "free_frames (k_frames toy_state) = {0..<8}"
    by (auto simp: free_frames_iff toy_state_def fa_frames_def bv_clear_def)
  then show ?thesis unfolding fa_inv_def by (simp add: toy_state_def fa_frames_def)
qed

lemma toy_shrinkers: "shrinkers_ok toy_env"
  by (simp add: shrinkers_ok_def toy_env_def)

theorem argon2id_leaves_no_trace_witness:
  "k_ram toy_state 28672 = 5 \<and> k_ram (snd (argon2id toy_env [1, 2, 3] (replicate 16 0) toy_params toy_state)) 28672 = 0"
proof -
  have f: "k_frames toy_state = \<lparr>fa_bits = [0], fa_free = 8, memory_top = 8, next_byte = 0\<rparr>"
    by (simp add: toy_state_def)
  note a = toy_argon2id [OF f, of "[1, 2, 3]" "replicate 16 0" toy_params]
  from argon2id_leaves_no_trace [OF toy_fa_inv toy_shrinkers a, of 28672] a show ?thesis
    by (auto simp: toy_state_def ram_write_def)
qed

text \<open>C31. A keyslot made from a passphrase opens with it: whatever the slot's salt and nonce, the data key
  comes back unchanged whenever the derivation gets its memory, and the cost parameters stored in the slot
  are the ones it was made with.\<close>

theorem keyslot_opens_with_its_passphrase:
  assumes "gcm_correct en" and "length dek = 32" and "rng_ok s"
    and "keyslot_create en pass dek params s = (Inr (Some sl), s1)"
    and "fst (argon2id en pass (slice 16 16 sl) (params_of sl) s2) \<noteq> Inr None"
  shows "fst (keyslot_unlock en sl pass s2) = Inr (Some dek) \<and> params_of sl = params"
proof -
  obtain r s3 where u: "keyslot_unlock en sl pass s2 = (r, s3)" by fastforce
  from keyslot_roundtrip [OF assms(1-4) u assms(5)] u show ?thesis by simp
qed

definition toy_slot :: bytes where
  "toy_slot = splice 44 (replicate 32 3 @ [1, 2, 3] @ replicate 13 7) (slot_header toy_params (replicate 32 7))"

lemma toy_create:
  "keyslot_create toy_env [1, 2, 3] (replicate 32 3) toy_params toy_state =
     (Inr (Some toy_slot), snd (keyslot_create toy_env [1, 2, 3] (replicate 32 3) toy_params toy_state))"
proof -
  have r: "random_256 toy_state = (Inr (replicate 32 7), toy_state\<lparr>RNG := Some (toy_rng\<lparr>rng_pos := 32\<rparr>)\<rparr>)"
    using toy_random_256 [of toy_state 0] by (simp add: toy_state_def toy_rng_def)
  have f: "k_frames (toy_state\<lparr>RNG := x\<rparr>) = \<lparr>fa_bits = [0], fa_free = 8, memory_top = 8, next_byte = 0\<rparr>" for x
    by (simp add: toy_state_def)
  have w: "slot_wrap toy_env (take 32 ([1, 2, 3] @ replicate 16 7 @ replicate 32 0)) (replicate 32 3)
      (slot_header toy_params (replicate 32 7)) = Some toy_slot"
    by (simp add: slot_wrap_def toy_env_def WRAPPED_def toy_slot_def replicate_numeral)
  show ?thesis
    unfolding keyslot_create_def
    by (simp add: bindE_def r Let_def slot_header_params toy_argon2id [OF f] retE_def w [simplified])
qed

theorem keyslot_opens_with_its_passphrase_witness:
  "fst (keyslot_unlock toy_env toy_slot [1, 2, 3] toy_state) = Inr (Some (replicate 32 3)) \<and>
     fst (argon2id toy_env [1, 2, 3] (slice 16 16 toy_slot) (params_of toy_slot) toy_state) \<noteq> Inr None"
proof -
  have f: "k_frames toy_state = \<lparr>fa_bits = [0], fa_free = 8, memory_top = 8, next_byte = 0\<rparr>"
    by (simp add: toy_state_def)
  have m: "fst (argon2id toy_env [1, 2, 3] (slice 16 16 toy_slot) (params_of toy_slot) toy_state) \<noteq> Inr None"
    by (simp add: toy_argon2id [OF f])
  from keyslot_opens_with_its_passphrase [OF toy_gcm _ toy_rng_ok toy_create m] m show ?thesis by simp
qed

section \<open>The vault\<close>

text \<open>C33. A stored secret is read back, and only it changes: after \<open>set\<close> the entry of that tier and name
  decrypts to the value under the same key, every other entry reads as before under every key, and tier and
  name stay unique.\<close>

theorem vault_set_then_get:
  assumes "vault_set dek tier name plaintext v s = (Inr (ok, v'), s')" and "vault_unique v"
  shows "ok \<and> vault_get dek tier name v' = Some plaintext \<and> vault_unique v' \<and>
    (\<forall>dek' tier' name'. (tier', name') = (tier, name) \<or> vault_get dek' tier' name' v' = vault_get dek' tier' name' v)"
proof -
  have "ok" using assms(1) by (rule vault_set_result)
  with vault_set_get [OF assms(1)] vault_invariants(1) [OF assms(2,1)] show ?thesis by blast
qed

definition toy_vault :: vault_file where
  "toy_vault = \<lparr>sys_device = replicate 128 0, sys_pass = replicate 128 0, usr_pass = replicate 128 0,
     v_entries = []\<rparr>"

theorem vault_set_then_get_witness:
  "\<exists>v'. vault_set (replicate 32 1) 1 (lit ''site'') [42] toy_vault toy_state
     = (Inr (True, v'), toy_state\<lparr>RNG := Some (toy_rng\<lparr>rng_pos := 32\<rparr>)\<rparr>) \<and>
     vault_get (replicate 32 1) 1 (lit ''site'') v' = Some [42]"
proof -
  have r: "random_256 toy_state = (Inr (replicate 32 7), toy_state\<lparr>RNG := Some (toy_rng\<lparr>rng_pos := 32\<rparr>)\<rparr>)"
    using toy_random_256 [of toy_state 0] by (simp add: toy_state_def toy_rng_def)
  have v: "\<exists>v'. vault_set (replicate 32 1) 1 (lit ''site'') [42] toy_vault toy_state
     = (Inr (True, v'), toy_state\<lparr>RNG := Some (toy_rng\<lparr>rng_pos := 32\<rparr>)\<rparr>)"
    unfolding vault_set_def Let_def bindE_def r
    by (simp add: aead_encrypt_nonempty retE_def)
  have "vault_unique toy_vault" by (simp add: vault_unique_def toy_vault_def)
  with v vault_set_then_get show ?thesis by blast
qed

text \<open>C34. Changing the vault passphrase keeps the secrets readable: the key of the user tier stays the one the
  old passphrase opens, and the new passphrase opens both it and the system key that the device key opens.
  Entries are not touched. Opening needs the memory the cost parameters ask for: \<open>kdf_memory\<close> says that the
  frame allocator has it at that time.\<close>

theorem passphrase_change_keeps_keys:
  assumes "gcm_correct en" and "rng_ok s" and "has_user_tier v"
    and "set_passphrase en device_subkey old new params v s = (Inr (True, v'), s')"
    and "kdf_memory en params s2"
  shows "\<exists>sys_dek user_dek o' s1. old = Some o' \<and> unlock_system_device en v device_subkey = Some sys_dek \<and>
    unlock_user en v o' s = (Inr (Some user_dek), s1) \<and>
    fst (unlock_user en v' new s2) = Inr (Some user_dek) \<and>
    fst (unlock_system_pass en v' new s2) = Inr (Some sys_dek) \<and> v_entries v' = v_entries v"
proof -
  from assms(4) obtain sys_dek user_dek s1 sp up s3 where sys: "unlock_system_device en v device_subkey = Some sys_dek"
    and u: "user_dek_for en old v s = (Inr (Some user_dek), s1)"
    and c1: "keyslot_create en new sys_dek params s1 = (Inr (Some sp), s3)"
    and c2: "keyslot_create en new user_dek params s3 = (Inr (Some up), s')"
    and v': "v' = v\<lparr>sys_pass := sp, usr_pass := up\<rparr>"
    by (rule set_passphrase_result)
  note ug = user_dek_for_good [OF u assms(2)]
  have "length sys_dek = 32"
    using sys by (auto simp: unlock_system_device_def unlock_device_def slot_unwrap_length split: if_splits)
  obtain r1 t1 r2 t2 where k: "keyslot_unlock en sp new s2 = (r1, t1)" "keyslot_unlock en up new s2 = (r2, t2)"
    by fastforce
  have "r1 = Inr (Some sys_dek)"
    by (rule keyslot_roundtrip(1) [OF assms(1) \<open>length sys_dek = 32\<close> ug(2) c1 k(1)
          created_slot_derives [OF assms(1) \<open>length sys_dek = 32\<close> ug(2) c1 assms(5)]])
  moreover have "r2 = Inr (Some user_dek)"
    by (rule keyslot_roundtrip(1) [OF assms(1) ug(1) keyslot_create_rng [OF c1 ug(2)] c2 k(2)
          created_slot_derives [OF assms(1) ug(1) keyslot_create_rng [OF c1 ug(2)] c2 assms(5)]])
  ultimately show ?thesis
    using ug(3) [OF assms(3)] sys v' k by (auto simp: unlock_user_def unlock_system_pass_def)
qed

lemma toy_create_any:
  assumes "RNG s = Some (toy_rng\<lparr>rng_pos := p\<rparr>)" and "p \<le> 32" and "length dek = 32"
    and "k_frames s = \<lparr>fa_bits = [0], fa_free = 8, memory_top = 8, next_byte = 0\<rparr>"
  shows "\<exists>sl s'. keyslot_create toy_env pass dek params s = (Inr (Some sl), s') \<and>
    RNG s' = Some (toy_rng\<lparr>rng_pos := p + 32\<rparr>) \<and>
    k_frames s' = \<lparr>fa_bits = [0], fa_free = 8, memory_top = 8, next_byte = 0\<rparr>"
proof -
  have f: "k_frames (s\<lparr>RNG := x\<rparr>) = \<lparr>fa_bits = [0], fa_free = 8, memory_top = 8, next_byte = 0\<rparr>" for x
    using assms(4) by simp
  have "\<exists>sl. slot_wrap toy_env kek dek slot = Some sl" for kek slot
    using assms(3) by (simp add: slot_wrap_def toy_env_def WRAPPED_def)
  then show ?thesis
    unfolding keyslot_create_def
    by (simp add: bindE_def toy_random_256 [OF assms(1,2)] Let_def toy_argon2id [OF f] retE_def)
qed

definition toy_user_vault :: vault_file where
  "toy_user_vault = toy_vault\<lparr>usr_pass := toy_slot,
     sys_device := splice 44 (replicate 32 6 @ replicate 16 8) ((replicate 128 0)[0 := 2])\<rparr>"

lemma toy_set_passphrase:
  "\<exists>v' s'. set_passphrase toy_env (replicate 32 8) (Some [1, 2, 3]) [4] toy_params toy_user_vault toy_state
     = (Inr (True, v'), s')"
proof -
  have f: "k_frames toy_state = \<lparr>fa_bits = [0], fa_free = 8, memory_top = 8, next_byte = 0\<rparr>"
    by (simp add: toy_state_def)
  have sd: "unlock_system_device toy_env toy_user_vault (replicate 32 8) = Some (replicate 32 6)"
    by (simp add: unlock_system_device_def unlock_device_def slot_unwrap_def toy_user_vault_def toy_env_def
        WRAPPED_def KIND_DEVICE_def nth_append slice_def splice_def)
  have ht: "has_user_tier toy_user_vault" and sl0: "toy_slot ! 0 = KIND_PASSPHRASE"
    using slot_header_kind [of "replicate 32 7" toy_params]
    by (simp_all add: has_user_tier_def slot_is_empty_def toy_user_vault_def toy_slot_def nth_splice KIND_PASSPHRASE_def)
  obtain k t where a: "argon2id toy_env [1, 2, 3] (slice 16 16 toy_slot) (params_of toy_slot) toy_state = (Inr (Some k), t)"
    and t: "RNG t = RNG toy_state" "k_frames t = k_frames toy_state"
    using toy_argon2id [OF f] f by simp
  have "fst (keyslot_unlock toy_env toy_slot [1, 2, 3] toy_state) = Inr (Some (replicate 32 3))"
    using keyslot_roundtrip(1) [OF toy_gcm _ toy_rng_ok toy_create] a by (metis (no_types, lifting)
        fst_conv length_replicate option.distinct(1) prod.collapse sum.inject(2))
  then have u: "user_dek_for toy_env (Some [1, 2, 3]) toy_user_vault toy_state = (Inr (Some (replicate 32 3)), t)"
    using a sl0 ht
    by (simp add: user_dek_for_def unlock_user_def toy_user_vault_def keyslot_unlock_def bindE_def retE_def)
  have r: "RNG t = Some (toy_rng\<lparr>rng_pos := 0\<rparr>)" using t(1) by (simp add: toy_state_def toy_rng_def)
  from toy_create_any [OF r _ _ t(2) [unfolded f], of "replicate 32 6" "[4]" toy_params]
  obtain sp t1 where c1: "keyslot_create toy_env [4] (replicate 32 6) toy_params t = (Inr (Some sp), t1)"
    and t1: "RNG t1 = Some (toy_rng\<lparr>rng_pos := 32\<rparr>)" "k_frames t1 = k_frames toy_state" using f by auto
  from toy_create_any [OF t1(1) _ _ t1(2) [unfolded f], of "replicate 32 3" "[4]" toy_params]
  obtain up t2 where c2: "keyslot_create toy_env [4] (replicate 32 3) toy_params t1 = (Inr (Some up), t2)" by auto
  show ?thesis by (simp add: set_passphrase_def sd bindE_def u c1 c2 retE_def)
qed

theorem passphrase_change_keeps_keys_witness:
  "\<exists>v' s'. set_passphrase toy_env (replicate 32 8) (Some [1, 2, 3]) [4] toy_params toy_user_vault toy_state
     = (Inr (True, v'), s') \<and>
     fst (unlock_user toy_env v' [4] toy_state) = fst (unlock_user toy_env toy_user_vault [1, 2, 3] toy_state)"
proof -
  from toy_set_passphrase obtain v' s' where p: "set_passphrase toy_env (replicate 32 8) (Some [1, 2, 3]) [4] toy_params
      toy_user_vault toy_state = (Inr (True, v'), s')" by blast
  have f: "k_frames toy_state = \<lparr>fa_bits = [0], fa_free = 8, memory_top = 8, next_byte = 0\<rparr>"
    by (simp add: toy_state_def)
  have ht: "has_user_tier toy_user_vault"
    using slot_header_kind [of "replicate 32 7" toy_params]
    by (simp add: has_user_tier_def slot_is_empty_def toy_user_vault_def toy_slot_def nth_splice KIND_PASSPHRASE_def)
  have m: "kdf_memory toy_env toy_params toy_state"
    using toy_allocate [OF f] by (simp add: kdf_memory_def toy_env_def ARGON_BLOCK_def PAGE_SIZE_def)
  from passphrase_change_keeps_keys [OF toy_gcm toy_rng_ok ht p m] p show ?thesis by auto
qed

text \<open>C35. The byte format of the vault object. Parsing what \<open>serialize\<close> wrote gives the same vault exactly when
  the vault is well formed: the three keyslots have 128 bytes, there are fewer than \<open>2 ^ 32\<close> entries, and
  every entry has a name that is UTF-8 and shorter than \<open>2 ^ 16\<close> bytes, a nonce of 12 bytes and a
  ciphertext shorter than \<open>2 ^ 32\<close>; one longer name, whose length the format cuts to 16 bits, and the object
  no longer reads back. Whatever the parser accepts is well formed, and on no input whatever does it index
  outside its buffer.\<close>

theorem vault_format_roundtrip:
  "(vault_parse (vault_serialize v) = Inr (Some v) \<longleftrightarrow> vault_wf v) \<and>
   (vault_parse b = Inr (Some w) \<longrightarrow> vault_wf w) \<and> vault_parse b \<noteq> Inl Panic"
  using vault_roundtrip [of v] vault_parse_wf vault_parse_no_panic [of b] by auto

definition toy_full_vault :: vault_file where
  "toy_full_vault = toy_vault\<lparr>v_entries := [\<lparr>e_tier = 0, e_name = lit ''net'', e_nonce = replicate 12 1, e_ct = [5, 6]\<rparr>]\<rparr>"

theorem vault_format_roundtrip_witness:
  "vault_parse (vault_serialize toy_full_vault) = Inr (Some toy_full_vault)"
proof -
  have "vault_wf toy_full_vault"
    by (simp add: vault_wf_def entry_wf_def toy_full_vault_def toy_vault_def of_char_def)
  with vault_format_roundtrip show ?thesis by blast
qed

end
