(* ===== verification/Block_Device.thy ===== *)
theory Block_Device
  imports Frames
begin

text \<open>
  The block device layer of \<^verbatim>\<open>kernel/src/drivers/blkdev.rs\<close>: every call is shifted by the
  partition offset and handed to the driver of the disk. The drivers and the disk are the environment:
  a call succeeds or fails as the sequence \<open>outcomes\<close> says, and a failed write may or may not have
  reached the medium. \<open>media\<close> is what reads return, \<open>durable\<close> what is on stable media, and
  \<open>unflushed\<close> the writes since the last flush, any of which a loss of power may or may not keep.
\<close>

section \<open>Definitions\<close>

definition BLOCK_SIZE :: nat where "BLOCK_SIZE = 4096"

datatype blk_error = NotInitialized | OutOfRange | QueueFull | IoError | Unsupported | Timeout | BlkUnknown u8

datatype outcome = Done | Failed blk_error bool

record block_device =
  nvme_available :: bool
  virtio_available :: bool
  partition_offset :: nat
  partition_size :: nat
  drv_block_count :: "nat option"
  media :: "nat \<Rightarrow> bytes"
  durable :: "nat \<Rightarrow> bytes"
  unflushed :: "(nat \<times> bytes) list"
  discarded :: "(nat \<times> nat) list"
  outcomes :: "nat \<Rightarrow> outcome"
  calls :: nat

definition set_partition_offset :: "nat \<Rightarrow> block_device \<Rightarrow> block_device" where
  "set_partition_offset blocks d = d\<lparr>partition_offset := blocks\<rparr>"

definition set_partition_size :: "nat \<Rightarrow> block_device \<Rightarrow> block_device" where
  "set_partition_size blocks d = d\<lparr>partition_size := blocks\<rparr>"

text \<open>The driver's calls. \<open>tick\<close> takes the next outcome.\<close>

definition tick :: "block_device \<Rightarrow> outcome \<times> block_device" where
  "tick d = (outcomes d (calls d), d\<lparr>calls := calls d + 1\<rparr>)"

definition put_media :: "nat \<Rightarrow> bytes \<Rightarrow> block_device \<Rightarrow> block_device" where
  "put_media b buf d = d\<lparr>media := (media d)(b := buf), unflushed := unflushed d @ [(b, buf)]\<rparr>"

definition put_durable :: "nat \<Rightarrow> bytes \<Rightarrow> block_device \<Rightarrow> block_device" where
  "put_durable b buf d = d\<lparr>media := (media d)(b := buf), durable := (durable d)(b := buf),
     unflushed := filter (\<lambda>w. fst w \<noteq> b) (unflushed d)\<rparr>"

definition drv_read :: "nat \<Rightarrow> (block_device, blk_error, bytes) op" where
  "drv_read b d = (case tick d of
     (Done, d') \<Rightarrow> (Inr (media d b), d')
   | (Failed e _, d') \<Rightarrow> (Inl e, d'))"

definition drv_write :: "nat \<Rightarrow> bytes \<Rightarrow> (block_device, blk_error, unit) op" where
  "drv_write b buf d = (case tick d of
     (Done, d') \<Rightarrow> (Inr (), put_media b buf d')
   | (Failed e reached, d') \<Rightarrow> (Inl e, if reached then put_media b buf d' else d'))"

definition drv_write_fua :: "nat \<Rightarrow> bytes \<Rightarrow> (block_device, blk_error, unit) op" where
  "drv_write_fua b buf d = (case tick d of
     (Done, d') \<Rightarrow> (Inr (), put_durable b buf d')
   | (Failed e reached, d') \<Rightarrow> (Inl e, if reached then put_media b buf d' else d'))"

definition drv_flush :: "(block_device, blk_error, unit) op" where
  "drv_flush d = (case tick d of
     (Done, d') \<Rightarrow> (Inr (), d'\<lparr>durable := media d', unflushed := []\<rparr>)
   | (Failed e _, d') \<Rightarrow> (Inl e, d'))"

definition drv_discard :: "nat \<Rightarrow> nat \<Rightarrow> (block_device, blk_error, unit) op" where
  "drv_discard s c d = (case tick d of
     (Done, d') \<Rightarrow> (Inr (), d'\<lparr>discarded := discarded d' @ [(s, c)]\<rparr>)
   | (Failed e _, d') \<Rightarrow> (Inl e, d'))"

definition actual :: "block_device \<Rightarrow> nat \<Rightarrow> nat" where
  "actual d block = wrap64 (block + partition_offset d)"

definition read_block :: "nat \<Rightarrow> (block_device, blk_error, bytes) op" where
  "read_block block d = drv_read (actual d block) d"

definition write_block :: "nat \<Rightarrow> bytes \<Rightarrow> (block_device, blk_error, unit) op" where
  "write_block block buf d = drv_write (actual d block) buf d"

definition write_block_fua :: "nat \<Rightarrow> bytes \<Rightarrow> (block_device, blk_error, unit) op" where
  "write_block_fua block buf d = drv_write_fua (actual d block) buf d"

definition write_blocks_batch :: "(nat \<times> bytes) list \<Rightarrow> (block_device, blk_error, unit) op" where
  "write_blocks_batch items d =
     (if items = [] then (Inr (), d)
      else if nvme_available d then tryE (\<lambda>(block, buf). drv_write (actual d block) buf) items d
      else forE (\<lambda>(block, buf). drv_write (actual d block) buf) items d)"

definition write_extent :: "nat \<Rightarrow> nat \<Rightarrow> bytes \<Rightarrow> (block_device, blk_error, unit) op" where
  "write_extent start count input d =
     (if count = 0 then (Inr (), d)
      else let put = (\<lambda>i. drv_write (wrap64 (actual d start + i)) (slice (i * BLOCK_SIZE) BLOCK_SIZE input))
           in if nvme_available d then tryE put [0..<count] d else forE put [0..<count] d)"

text \<open>The blocks of a list read in order; the batched reads of the source differ only in how they overlap.\<close>

fun read_list :: "nat list \<Rightarrow> (block_device, blk_error, bytes) op" where
  "read_list [] = retE []"
| "read_list (b # bs) = bindE (drv_read b) (\<lambda>x. bindE (read_list bs) (\<lambda>xs. retE (x @ xs)))"

definition read_blocks_batch :: "nat list \<Rightarrow> (block_device, blk_error, bytes) op" where
  "read_blocks_batch blocks d = read_list (map (actual d) blocks) d"

definition read_extent :: "nat \<Rightarrow> nat \<Rightarrow> (block_device, blk_error, bytes) op" where
  "read_extent start count d = read_list (map (\<lambda>i. wrap64 (actual d start + i)) [0..<count]) d"

definition read_multi_extent :: "(nat \<times> nat) list \<Rightarrow> (block_device, blk_error, bytes) op" where
  "read_multi_extent extents d =
     read_list (concat (map (\<lambda>(start, count). map (\<lambda>i. wrap64 (actual d start + i)) [0..<count]) extents)) d"

definition flush_device :: "(block_device, blk_error, unit) op" where
  "flush_device d = drv_flush d"

definition block_count :: "block_device \<Rightarrow> nat option" where
  "block_count d = (case drv_block_count d of
     None \<Rightarrow> None
   | Some t \<Rightarrow> let after_offset = t - partition_offset d
               in if partition_size d = 0 then Some after_offset
                  else Some (min after_offset (partition_size d)))"

definition is_available :: "block_device \<Rightarrow> bool" where
  "is_available d = (nvme_available d \<or> virtio_available d)"

definition discard_ranges :: "(nat \<times> nat) list \<Rightarrow> (block_device, blk_error, unit) op" where
  "discard_ranges ranges d =
     (let put = (\<lambda>(s, c). drv_discard (actual d s) c)
      in if nvme_available d then tryE put ranges d else forE put ranges d)"

text \<open>The images a loss of power may leave.\<close>

definition crash_images :: "block_device \<Rightarrow> (nat \<Rightarrow> bytes) set" where
  "crash_images d = {m. \<forall>b. m b = durable d b \<or> (b, m b) \<in> set (unflushed d)}"

end
