(* ===== verification/Block_Cache.thy ===== *)
theory Block_Cache
  imports Block_Device "HOL-Library.While_Combinator"
begin

text \<open>
  The write-back block cache of \<^verbatim>\<open>kernel/src/storage/npkfs/cache.rs\<close>. The record \<open>io\<close> holds the
  fields of \<open>BlockCache\<close> and what its methods reach: the block device, the frame allocator and the
  pages its frames name. Slots are indices into \<open>slots\<close>, linked into a least-recently-used list
  through \<open>prev\<close> and \<open>next\<close>; \<open>idle\<close> slots own a frame and no block, \<open>spare\<close> slots neither.
  The lemmas show that whatever the cache evicts, shrinks or writes back, its reads and writes are those
  of a flat array of blocks (\<open>view\<close>).
\<close>

section \<open>Definitions\<close>

definition NIL :: nat where "NIL = 4294967295"

datatype fs_error = Disk blk_error | NotFormatted | NotMounted | Corrupt | ObjectNotFound | ObjectExists
  | NameTooLong | InvalidName | ReservedName | DiskFull | TreeTooDeep | TooManyExtents | Locked | OutOfMemory

record slot =
  s_block :: nat
  s_frame :: nat
  s_dirty :: bool
  s_checked :: bool
  s_prev :: nat
  s_next :: nat

record io =
  slots :: "slot list"
  cmap :: "nat \<rightharpoonup> nat"
  lru_head :: nat
  lru_tail :: nat
  idle :: "nat list"
  spare :: "nat list"
  dirty_list :: "nat list"
  dev :: block_device
  frames :: frame_allocator
  pages :: "nat \<Rightarrow> bytes"
  usable_frames :: nat
  shrinkers :: "nat \<Rightarrow> frame_allocator \<Rightarrow> nat \<times> frame_allocator"
  cache_hits :: u64
  cache_misses :: u64

text \<open>\<open>heap::isqrt\<close>, \<open>heap::min_free_frames\<close> and the watermark the cache keeps.\<close>

function isqrt_loop :: "nat \<Rightarrow> nat \<Rightarrow> nat \<Rightarrow> nat" where
  "isqrt_loop n x y = (if y < x then isqrt_loop n y ((y + n div y) div 2) else x)"
  by pat_completeness auto
termination
  by (relation "measure (\<lambda>(_, x, _). x)") auto

definition isqrt :: "nat \<Rightarrow> nat" where
  "isqrt n = (if n < 2 then n else isqrt_loop n n ((n + 1) div 2))"

definition min_free_frames :: "nat \<Rightarrow> nat" where
  "min_free_frames usable =
     (let kbytes = usable_bytes usable div 1024;
          min_kbytes = max 128 (min 262144 (isqrt (kbytes * 16)))
      in min_kbytes div 4)"

definition high_watermark :: "nat \<Rightarrow> nat" where
  "high_watermark usable = (let m = min_free_frames usable in m + m div 2)"

definition set_slot :: "nat \<Rightarrow> (slot \<Rightarrow> slot) \<Rightarrow> 'a io_scheme \<Rightarrow> 'a io_scheme" where
  "set_slot s f m = m\<lparr>slots := (slots m)[s := f (slots m ! s)]\<rparr>"

definition slot_bytes :: "'a io_scheme \<Rightarrow> nat \<Rightarrow> bytes" where
  "slot_bytes m s = pages m (s_frame (slots m ! s))"

definition put_bytes :: "nat \<Rightarrow> bytes \<Rightarrow> 'a io_scheme \<Rightarrow> 'a io_scheme" where
  "put_bytes s buf m = m\<lparr>pages := (pages m)(s_frame (slots m ! s) := buf)\<rparr>"

definition on_dev :: "(block_device, blk_error, 'b) op \<Rightarrow> ('a io_scheme, fs_error, 'b) op" where
  "on_dev f m = (case f (dev m) of
     (Inl e, d) \<Rightarrow> (Inl (Disk e), m\<lparr>dev := d\<rparr>)
   | (Inr a, d) \<Rightarrow> (Inr a, m\<lparr>dev := d\<rparr>))"

definition cache_unlink :: "nat \<Rightarrow> 'a io_scheme \<Rightarrow> 'a io_scheme" where
  "cache_unlink s m =
     (let p = s_prev (slots m ! s); n = s_next (slots m ! s);
          m1 = (if p = NIL then m\<lparr>lru_head := n\<rparr> else set_slot p (s_next_update (\<lambda>_. n)) m)
      in if n = NIL then m1\<lparr>lru_tail := p\<rparr> else set_slot n (s_prev_update (\<lambda>_. p)) m1)"

definition push_front :: "nat \<Rightarrow> 'a io_scheme \<Rightarrow> 'a io_scheme" where
  "push_front s m =
     (let m1 = set_slot s (s_prev_update (\<lambda>_. NIL)) m;
          m2 = set_slot s (s_next_update (\<lambda>_. lru_head m)) m1;
          m3 = (if lru_head m2 \<noteq> NIL then set_slot (lru_head m2) (s_prev_update (\<lambda>_. s)) m2 else m2);
          m4 = m3\<lparr>lru_head := s\<rparr>
      in if lru_tail m4 = NIL then m4\<lparr>lru_tail := s\<rparr> else m4)"

definition touch :: "nat \<Rightarrow> 'a io_scheme \<Rightarrow> 'a io_scheme" where
  "touch s m = (if lru_head m \<noteq> s then push_front s (cache_unlink s m) else m)"

definition writeback :: "nat \<Rightarrow> ('a io_scheme, fs_error, unit) op" where
  "writeback s m =
     (if \<not> s_dirty (slots m ! s) then (Inr (), m)
      else bindE (on_dev (write_block (s_block (slots m ! s)) (slot_bytes m s)))
             (\<lambda>_ m. (Inr (), set_slot s (s_dirty_update (\<lambda>_. False)) m)) m)"

text \<open>A frame for a miss: taken while free memory is above the watermark.\<close>

definition fresh_frame :: "'a io_scheme \<Rightarrow> nat option \<times> 'a io_scheme" where
  "fresh_frame m =
     (if fst (fa_stats (frames m)) > high_watermark (usable_frames m)
      then case allocate_frame (shrinkers m) (frames m) of (r, fa) \<Rightarrow> (r, m\<lparr>frames := fa\<rparr>)
      else (None, m))"

definition own_frame :: "nat \<Rightarrow> 'a io_scheme \<Rightarrow> nat \<times> 'a io_scheme" where
  "own_frame frame m =
     (if spare m \<noteq> []
      then let s = last (spare m)
           in (s, set_slot s (s_frame_update (\<lambda>_. frame)) (m\<lparr>spare := butlast (spare m)\<rparr>))
      else (length (slots m) mod 4294967296,
            m\<lparr>slots := slots m @ [\<lparr>s_block = 0, s_frame = frame, s_dirty = False, s_checked = False,
                                   s_prev = NIL, s_next = NIL\<rparr>]\<rparr>))"

definition drop_map :: "nat \<Rightarrow> 'a io_scheme \<Rightarrow> 'a io_scheme" where
  "drop_map s m = m\<lparr>cmap := (cmap m)(s_block (slots m ! s) := None)\<rparr>"

definition evict_tail :: "('a io_scheme, fs_error, nat) op" where
  "evict_tail m =
     (let s = lru_tail m
      in bindE (writeback s) (\<lambda>_ m. (Inr s, drop_map s (cache_unlink s m))) m)"

definition find_slot :: "('a io_scheme, fs_error, nat) op" where
  "find_slot m =
     (if idle m \<noteq> [] then (Inr (last (idle m)), m\<lparr>idle := butlast (idle m)\<rparr>)
      else case fresh_frame m of
             (Some frame, m1) \<Rightarrow> (case own_frame frame m1 of (s, m2) \<Rightarrow> (Inr s, m2))
           | (None, m1) \<Rightarrow> if lru_tail m1 \<noteq> NIL then evict_tail m1 else (Inl OutOfMemory, m1))"

definition install :: "nat \<Rightarrow> nat \<Rightarrow> 'a io_scheme \<Rightarrow> 'a io_scheme" where
  "install s block m =
     (let m1 = set_slot s (\<lambda>sl. sl\<lparr>s_block := block, s_dirty := False, s_checked := False\<rparr>) m;
          m2 = m1\<lparr>cmap := (cmap m1)(block \<mapsto> s)\<rparr>
      in push_front s m2)"

definition cache_take :: "nat \<Rightarrow> ('a io_scheme, fs_error, nat) op" where
  "cache_take block = bindE find_slot (\<lambda>s m. (Inr s, install s block m))"

definition cache_read :: "nat \<Rightarrow> ('a io_scheme, fs_error, bytes) op" where
  "cache_read block m =
     (case cmap m block of
        Some s \<Rightarrow>
          let m1 = touch s m
          in (Inr (slot_bytes m1 s), m1\<lparr>cache_hits := cache_hits m1 + 1\<rparr>)
      | None \<Rightarrow>
          bindE (on_dev (read_block block)) (\<lambda>buf.
          bindE (cache_take block) (\<lambda>s m. (Inr buf, put_bytes s buf m)))
            (m\<lparr>cache_misses := cache_misses m + 1\<rparr>))"

definition read_checked :: "nat \<Rightarrow> (bytes \<Rightarrow> bool) \<Rightarrow> ('a io_scheme, fs_error, bytes \<times> bool) op" where
  "read_checked block check =
     bindE (cache_read block) (\<lambda>buf m.
       case cmap m block of
         Some s \<Rightarrow>
           if s_checked (slots m ! s) then (Inr (buf, True), m)
           else if \<not> check buf then (Inr (buf, False), m)
           else (Inr (buf, True), set_slot s (s_checked_update (\<lambda>_. True)) m)
       | None \<Rightarrow> (Inr (buf, check buf), m))"

definition write_slot :: "nat \<Rightarrow> bytes \<Rightarrow> bool \<Rightarrow> 'a io_scheme \<Rightarrow> 'a io_scheme" where
  "write_slot s buf checked m =
     (let m1 = put_bytes s buf (set_slot s (s_checked_update (\<lambda>_. checked)) m)
      in if \<not> s_dirty (slots m1 ! s)
         then (set_slot s (s_dirty_update (\<lambda>_. True)) m1)\<lparr>dirty_list := dirty_list m1 @ [s]\<rparr>
         else m1)"

definition write_as :: "nat \<Rightarrow> bytes \<Rightarrow> bool \<Rightarrow> ('a io_scheme, fs_error, unit) op" where
  "write_as block buf checked =
     bindE (\<lambda>m. case cmap m block of Some s \<Rightarrow> (Inr s, touch s m) | None \<Rightarrow> cache_take block m)
       (\<lambda>s m. (Inr (), write_slot s buf checked m))"

definition cache_write :: "nat \<Rightarrow> bytes \<Rightarrow> ('a io_scheme, fs_error, unit) op" where
  "cache_write block buf = write_as block buf False"

definition write_checked :: "nat \<Rightarrow> bytes \<Rightarrow> ('a io_scheme, fs_error, unit) op" where
  "write_checked block buf = write_as block buf True"

definition clean_slots :: "nat list \<Rightarrow> 'a io_scheme \<Rightarrow> 'a io_scheme" where
  "clean_slots ss m = fold (\<lambda>s. set_slot s (s_dirty_update (\<lambda>_. False))) ss m"

definition cache_flush :: "('a io_scheme, fs_error, unit) op" where
  "cache_flush m =
     (let list = remdups_adj (sort (filter (\<lambda>s. s_dirty (slots m ! s)) (dirty_list m)))
      in if list = [] then (Inr (), m\<lparr>dirty_list := []\<rparr>)
         else bindE (on_dev (write_blocks_batch (map (\<lambda>s. (s_block (slots m ! s), slot_bytes m s)) list)))
                (\<lambda>_ m. (Inr (), (clean_slots list m)\<lparr>dirty_list := []\<rparr>)) m)"

definition give_back :: "nat \<Rightarrow> 'a io_scheme \<Rightarrow> 'a io_scheme" where
  "give_back s m =
     (let m1 = m\<lparr>frames := fa_deallocate (s_frame (slots m ! s)) (frames m)\<rparr>;
          m2 = set_slot s (s_frame_update (\<lambda>_. 0)) m1
      in m2\<lparr>spare := spare m2 @ [s]\<rparr>)"

function release_idle :: "nat \<Rightarrow> 'a io_scheme \<Rightarrow> nat \<times> 'a io_scheme" where
  "release_idle want m =
     (if want = 0 \<or> idle m = [] then (0, m)
      else case release_idle (want - 1) (give_back (last (idle m)) (m\<lparr>idle := butlast (idle m)\<rparr>)) of
             (n, m') \<Rightarrow> (n + 1, m'))"
  by pat_completeness auto
termination
  by (relation "measure fst") auto

definition idle_tail :: "'a io_scheme \<Rightarrow> 'a io_scheme" where
  "idle_tail m =
     (let s = lru_tail m; m1 = drop_map s (cache_unlink s m)
      in m1\<lparr>idle := idle m1 @ [s]\<rparr>)"

text \<open>\<open>drop_all\<close> and \<open>shrink\<close> follow links, so that they end is a theorem; \<open>None\<close> is a loop that does not.\<close>

definition drop_all :: "'a io_scheme \<Rightarrow> ((fs_error + unit) \<times> 'a io_scheme) option" where
  "drop_all m =
     (case cache_flush m of
        (Inl e, m1) \<Rightarrow> Some (Inl e, m1)
      | (Inr _, m1) \<Rightarrow>
          map_option (\<lambda>m2. (Inr (), snd (release_idle U64_MAX m2)))
            (while_option (\<lambda>m. lru_tail m \<noteq> NIL) idle_tail m1))"

definition invalidate :: "nat \<Rightarrow> 'a io_scheme \<Rightarrow> 'a io_scheme" where
  "invalidate block m =
     (case cmap m block of
        None \<Rightarrow> m
      | Some s \<Rightarrow>
          let m1 = cache_unlink s (m\<lparr>cmap := (cmap m)(block := None)\<rparr>);
              m2 = set_slot s (s_dirty_update (\<lambda>_. False)) m1
          in m2\<lparr>idle := idle m2 @ [s]\<rparr>)"

definition shrink_step :: "nat \<times> nat \<times> 'a io_scheme \<Rightarrow> nat \<times> nat \<times> 'a io_scheme" where
  "shrink_step = (\<lambda>(freed, s, m).
     let p = s_prev (slots m ! s)
     in if \<not> s_dirty (slots m ! s) then (freed + 1, p, give_back s (drop_map s (cache_unlink s m)))
        else (freed, p, m))"

definition shrink :: "nat \<Rightarrow> 'a io_scheme \<Rightarrow> (nat \<times> 'a io_scheme) option" where
  "shrink want m =
     (case release_idle want m of (freed, m1) \<Rightarrow>
        map_option (\<lambda>(freed, _, m2). (freed, m2))
          (while_option (\<lambda>(freed, s, m). freed < want \<and> s \<noteq> NIL) shrink_step (freed, lru_tail m1, m1)))"

definition held :: "'a io_scheme \<Rightarrow> nat \<times> nat" where
  "held m = (card (dom (cmap m)), length (filter (\<lambda>sl. s_frame sl \<noteq> 0 \<and> s_dirty sl) (slots m)))"

definition cache_new :: "'a io_scheme \<Rightarrow> 'a io_scheme" where
  "cache_new m = m\<lparr>slots := [], cmap := Map.empty, lru_head := NIL, lru_tail := NIL, idle := [], spare := [], dirty_list := []\<rparr>"


definition cache_drop :: "'a io_scheme \<Rightarrow> 'a io_scheme" where
  "cache_drop m = m\<lparr>frames := fold (\<lambda>s fa. if s_frame s \<noteq> 0 then fa_deallocate (s_frame s) fa else fa) (slots m) (frames m)\<rparr>"

section \<open>The recency list\<close>

text \<open>\<open>dll sl p xs n\<close>: the slots \<open>xs\<close> are linked in this order in both directions, with \<open>p\<close> before the
  first and \<open>n\<close> after the last.\<close>

definition firstd :: "'a list \<Rightarrow> 'a \<Rightarrow> 'a" where
  "firstd xs d = (if xs = [] then d else hd xs)"

definition lastd :: "'a \<Rightarrow> 'a list \<Rightarrow> 'a" where
  "lastd d xs = (if xs = [] then d else last xs)"

lemma firstd_simps [simp]: "firstd [] d = d" "firstd (x # xs) d = x"
  by (simp_all add: firstd_def)

lemma lastd_simps [simp]: "lastd d [] = d" "lastd d (xs @ [x]) = x" "lastd d (x # xs) = lastd x xs"
  by (simp_all add: lastd_def)

lemma firstd_append: "firstd (xs @ ys) d = firstd xs (firstd ys d)"
  by (simp add: firstd_def)

lemma lastd_append: "lastd d (xs @ ys) = lastd (lastd d xs) ys"
  by (simp add: lastd_def)

fun dll :: "slot list \<Rightarrow> nat \<Rightarrow> nat list \<Rightarrow> nat \<Rightarrow> bool" where
  "dll sl p [] n \<longleftrightarrow> True"
| "dll sl p (x # xs) n \<longleftrightarrow> s_prev (sl ! x) = p \<and> s_next (sl ! x) = firstd xs n \<and> dll sl x xs n"

lemma dll_append: "dll sl p (xs @ ys) n \<longleftrightarrow> dll sl p xs (firstd ys n) \<and> dll sl (lastd p xs) ys n"
  by (induction xs arbitrary: p) (auto simp: firstd_append)

lemma dll_cong:
  "(\<And>x. x \<in> set xs \<Longrightarrow> s_prev (sl ! x) = s_prev (sl' ! x) \<and> s_next (sl ! x) = s_next (sl' ! x)) \<Longrightarrow>
     dll sl p xs n = dll sl' p xs n"
  by (induction xs arbitrary: p) auto

lemma dll_update_other: "y \<notin> set xs \<Longrightarrow> dll (sl[y := v]) p xs n = dll sl p xs n"
  by (rule dll_cong) (metis nth_list_update_neq)

lemma dll_set_next:
  assumes "dll sl p (xs @ [z]) n" and "z \<notin> set xs" and "z < length sl"
  shows "dll (sl[z := (sl ! z)\<lparr>s_next := n'\<rparr>]) p (xs @ [z]) n'"
  using assms by (auto simp: dll_append dll_update_other)

lemma dll_set_prev:
  assumes "dll sl p (z # xs) n" and "z \<notin> set xs" and "z < length sl"
  shows "dll (sl[z := (sl ! z)\<lparr>s_prev := p'\<rparr>]) p' (z # xs) n"
  using assms by (auto simp: dll_update_other)

definition lru :: "'a io_scheme \<Rightarrow> nat list \<Rightarrow> bool" where
  "lru m xs \<longleftrightarrow> dll (slots m) NIL xs NIL \<and> lru_head m = firstd xs NIL \<and> lru_tail m = lastd NIL xs \<and>
     distinct xs \<and> (\<forall>x \<in> set xs. x < length (slots m) \<and> x \<noteq> NIL)"

text \<open>The state without its links; \<open>same_but_links\<close> relates states that differ in them alone.\<close>

definition no_links :: "slot \<Rightarrow> slot" where
  "no_links sl = sl\<lparr>s_prev := 0, s_next := 0\<rparr>"

definition erase_links :: "'a io_scheme \<Rightarrow> 'a io_scheme" where
  "erase_links m = m\<lparr>slots := map no_links (slots m), lru_head := 0, lru_tail := 0\<rparr>"

definition same_but_links :: "'a io_scheme \<Rightarrow> 'a io_scheme \<Rightarrow> bool" where
  "same_but_links m m' \<longleftrightarrow> erase_links m = erase_links m'"

lemma same_but_links_refl [simp]: "same_but_links m m"
  by (simp add: same_but_links_def)

lemma same_but_links_trans [trans]:
  "same_but_links m m' \<Longrightarrow> same_but_links m' m'' \<Longrightarrow> same_but_links m m''"
  by (simp add: same_but_links_def)

lemma same_but_links_set_slot:
  "no_links (f (slots m ! s)) = no_links (slots m ! s) \<Longrightarrow> same_but_links m (set_slot s f m)"
  by (simp add: same_but_links_def erase_links_def set_slot_def map_update)
    (metis list_update_id map_update)

lemma same_but_links_ends [simp]:
  "same_but_links m (m\<lparr>lru_head := h\<rparr>) = True" "same_but_links m (m\<lparr>lru_tail := h\<rparr>) = True"
  by (simp_all add: same_but_links_def erase_links_def)

lemma no_links_link [simp]:
  "no_links (s_prev_update f sl) = no_links sl" "no_links (s_next_update f sl) = no_links sl"
  by (simp_all add: no_links_def)

lemma no_links_fields:
  "no_links sl = no_links sl' \<Longrightarrow> s_block sl = s_block sl' \<and> s_frame sl = s_frame sl' \<and>
     s_dirty sl = s_dirty sl' \<and> s_checked sl = s_checked sl'"
  by (cases sl; cases sl') (simp add: no_links_def)

lemma same_but_links_slots:
  assumes "same_but_links m m'"
  shows "length (slots m') = length (slots m)"
    "s < length (slots m) \<Longrightarrow> s_block (slots m' ! s) = s_block (slots m ! s)"
    "s < length (slots m) \<Longrightarrow> s_frame (slots m' ! s) = s_frame (slots m ! s)"
    "s < length (slots m) \<Longrightarrow> s_dirty (slots m' ! s) = s_dirty (slots m ! s)"
    "s < length (slots m) \<Longrightarrow> s_checked (slots m' ! s) = s_checked (slots m ! s)"
proof -
  from assms have eq: "map no_links (slots m) = map no_links (slots m')"
    by (cases m; cases m'; simp add: same_but_links_def erase_links_def)
  then show len: "length (slots m') = length (slots m)" by (metis length_map)
  have "no_links (slots m ! s) = no_links (slots m' ! s)" if "s < length (slots m)"
    using eq that len by (metis nth_map)
  from no_links_fields [OF this]
  show "s < length (slots m) \<Longrightarrow> s_block (slots m' ! s) = s_block (slots m ! s)"
    "s < length (slots m) \<Longrightarrow> s_frame (slots m' ! s) = s_frame (slots m ! s)"
    "s < length (slots m) \<Longrightarrow> s_dirty (slots m' ! s) = s_dirty (slots m ! s)"
    "s < length (slots m) \<Longrightarrow> s_checked (slots m' ! s) = s_checked (slots m ! s)" by simp_all
qed

lemma same_but_links_fields:
  assumes "same_but_links m m'"
  shows "cmap m' = cmap m" "idle m' = idle m" "spare m' = spare m" "dirty_list m' = dirty_list m"
    "dev m' = dev m" "frames m' = frames m" "pages m' = pages m" "usable_frames m' = usable_frames m"
    "shrinkers m' = shrinkers m" "io.more m' = io.more m"
  using assms by (cases m; cases m'; simp add: same_but_links_def erase_links_def)+

lemma set_slot_fields [simp]:
  "lru_head (set_slot s f m) = lru_head m" "lru_tail (set_slot s f m) = lru_tail m"
  "slots (set_slot s f m) = (slots m)[s := f (slots m ! s)]" "cmap (set_slot s f m) = cmap m"
  "idle (set_slot s f m) = idle m" "spare (set_slot s f m) = spare m"
  "dirty_list (set_slot s f m) = dirty_list m" "dev (set_slot s f m) = dev m"
  "frames (set_slot s f m) = frames m" "pages (set_slot s f m) = pages m"
  "io.more (set_slot s f m) = io.more m" "usable_frames (set_slot s f m) = usable_frames m"
  "shrinkers (set_slot s f m) = shrinkers m"
  by (simp_all add: set_slot_def)

lemma unlink_same_but_links: "same_but_links m (cache_unlink s m)"
proof -
  let ?p = "s_prev (slots m ! s)" and ?n = "s_next (slots m ! s)"
  define m1 where "m1 = (if ?p = NIL then m\<lparr>lru_head := ?n\<rparr> else set_slot ?p (s_next_update (\<lambda>_. ?n)) m)"
  have "same_but_links m m1" by (simp add: m1_def same_but_links_set_slot)
  also have "same_but_links m1 (cache_unlink s m)"
    unfolding cache_unlink_def Let_def m1_def [symmetric] by (simp add: same_but_links_set_slot)
  finally show ?thesis .
qed

lemma push_front_same_but_links: "same_but_links m (push_front s m)"
proof -
  define m2 where "m2 = set_slot s (s_next_update (\<lambda>_. lru_head m)) (set_slot s (s_prev_update (\<lambda>_. NIL)) m)"
  have "same_but_links m (set_slot s (s_prev_update (\<lambda>_. NIL)) m)" by (simp add: same_but_links_set_slot)
  also have "same_but_links \<dots> m2" by (simp only: m2_def) (simp add: same_but_links_set_slot)
  finally have 1: "same_but_links m m2" .
  define m3 where "m3 = (if lru_head m2 \<noteq> NIL then set_slot (lru_head m2) (s_prev_update (\<lambda>_. s)) m2 else m2)"
  have "same_but_links m2 m3" by (simp add: m3_def same_but_links_set_slot)
  with 1 have "same_but_links m m3" by (rule same_but_links_trans)
  also have "same_but_links m3 (m3\<lparr>lru_head := s\<rparr>)" by simp
  finally have "same_but_links m (m3\<lparr>lru_head := s\<rparr>)" .
  moreover have "push_front s m = (if lru_tail (m3\<lparr>lru_head := s\<rparr>) = NIL
      then m3\<lparr>lru_head := s, lru_tail := s\<rparr> else m3\<lparr>lru_head := s\<rparr>)"
    by (simp add: push_front_def Let_def m2_def m3_def)
  ultimately show ?thesis
    using same_but_links_trans [of m "m3\<lparr>lru_head := s\<rparr>" "m3\<lparr>lru_head := s, lru_tail := s\<rparr>"] by simp
qed

lemma lru_unlink:
  assumes "lru m (as @ s # bs)"
  shows "lru (cache_unlink s m) (as @ bs)"
proof -
  let ?p = "lastd NIL as" and ?n = "firstd bs NIL"
  from assms have d: "dll (slots m) NIL as s" "dll (slots m) s bs NIL"
    and ps: "s_prev (slots m ! s) = ?p" and ns: "s_next (slots m ! s) = ?n"
    and ends: "lru_head m = firstd as s" "lru_tail m = lastd s bs"
    and dis: "distinct as" "distinct bs" "set as \<inter> set bs = {}"
    and lt: "\<forall>x \<in> set as \<union> set bs. x < length (slots m) \<and> x \<noteq> NIL"
    by (auto simp: lru_def dll_append firstd_append lastd_append)
  define m1 where "m1 = (if ?p = NIL then m\<lparr>lru_head := ?n\<rparr> else set_slot ?p (s_next_update (\<lambda>_. ?n)) m)"
  have one: "dll (slots m1) NIL as ?n \<and> dll (slots m1) s bs NIL \<and> lru_head m1 = firstd as ?n \<and>
      lru_tail m1 = lastd s bs \<and> length (slots m1) = length (slots m)"
  proof (cases as rule: rev_cases)
    case Nil
    then show ?thesis using d ends by (simp add: m1_def)
  next
    case (snoc as' z)
    then have z: "z \<noteq> NIL" "z < length (slots m)" "z \<notin> set as'" "z \<notin> set bs" using dis lt by auto
    have "m1 = set_slot z (s_next_update (\<lambda>_. ?n)) m" using z(1) snoc by (simp add: m1_def)
    then show ?thesis
      using dll_set_next [OF d(1) [unfolded snoc] z(3,2)] d(2) z(4) ends snoc
      by (simp add: dll_update_other firstd_append)
  qed
  define m2 where "m2 = (if ?n = NIL then m1\<lparr>lru_tail := ?p\<rparr> else set_slot ?n (s_prev_update (\<lambda>_. ?p)) m1)"
  have two: "dll (slots m2) NIL as ?n \<and> dll (slots m2) ?p bs NIL \<and> lru_head m2 = firstd as ?n \<and>
      lru_tail m2 = lastd ?p bs \<and> length (slots m2) = length (slots m)"
  proof (cases bs)
    case Nil
    then show ?thesis using one by (simp add: m2_def)
  next
    case (Cons z bs')
    then have z: "z \<noteq> NIL" "z < length (slots m1)" "z \<notin> set bs'" "z \<notin> set as" using dis lt one by auto
    have "m2 = set_slot z (s_prev_update (\<lambda>_. ?p)) m1" using z(1) Cons by (simp add: m2_def)
    then show ?thesis
      using dll_set_prev [of "slots m1" s z bs' NIL, OF _ z(3,2)] one z(4) Cons
      by (simp add: dll_update_other del: dll.simps)
  qed
  have "cache_unlink s m = m2"
    by (simp add: cache_unlink_def Let_def ps ns m2_def m1_def)
  then show ?thesis using two dis lt by (auto simp: lru_def dll_append firstd_append lastd_append)
qed

lemma lru_push_front:
  assumes "lru m xs" and "s \<notin> set xs" and "s < length (slots m)" and "s \<noteq> NIL"
  shows "lru (push_front s m) (s # xs)"
proof -
  let ?h = "firstd xs NIL"
  from assms(1) have d: "dll (slots m) NIL xs NIL" and h: "lru_head m = ?h" "lru_tail m = lastd NIL xs"
    and dis: "distinct xs" "\<forall>x \<in> set xs. x < length (slots m) \<and> x \<noteq> NIL" by (auto simp: lru_def)
  define sl where "sl = (slots m)[s := (slots m ! s)\<lparr>s_prev := NIL, s_next := ?h\<rparr>]"
  have sl: "dll sl NIL xs NIL" "s_prev (sl ! s) = NIL" "s_next (sl ! s) = ?h" "length sl = length (slots m)"
    using d assms(2,3) by (simp_all add: sl_def dll_update_other)
  show ?thesis
  proof (cases xs)
    case Nil
    then have "slots (push_front s m) = sl" "lru_head (push_front s m) = s" "lru_tail (push_front s m) = s"
      using h assms(3) by (simp_all add: push_front_def Let_def sl_def)
    then show ?thesis using sl assms(3,4) Nil by (simp add: lru_def)
  next
    case (Cons z zs)
    then have z: "z \<noteq> NIL" "z < length sl" "z \<notin> set zs" "z \<noteq> s" using dis assms(2) sl(4) by auto
    have tail: "lastd z zs \<noteq> NIL" using dis Cons by (cases zs rule: rev_cases) auto
    have "slots (push_front s m) = sl[z := (sl ! z)\<lparr>s_prev := s\<rparr>]" "lru_head (push_front s m) = s"
      "lru_tail (push_front s m) = lastd z zs"
      using h assms(3) Cons z tail by (simp_all add: push_front_def Let_def sl_def)
    moreover have "dll (sl[z := (sl ! z)\<lparr>s_prev := s\<rparr>]) s (z # zs) NIL"
      using sl(1) Cons z by (intro dll_set_prev [of sl NIL]) auto
    ultimately show ?thesis using sl assms(2-4) Cons z dis
      by (auto simp: lru_def nth_list_update)
  qed
qed

section \<open>The invariant and the view\<close>

text \<open>A frame the cache owns: a page of the allocator that is not free.\<close>

definition owned_frame :: "'a io_scheme \<Rightarrow> nat \<Rightarrow> bool" where
  "owned_frame m f \<longleftrightarrow> (\<exists>k. f = k * PAGE_SIZE \<and> k < memory_top (frames m) \<and> k \<notin> free_frames (frames m))"

text \<open>\<open>chk\<close> is the check that \<open>checked\<close> stands for. The invariant in terms of the blocks held, from the most
  to the least recently used (\<open>xs\<close>).\<close>

definition slots_ok :: "'a io_scheme \<Rightarrow> nat list \<Rightarrow> bool" where
  "slots_ok m xs \<longleftrightarrow> distinct (xs @ idle m @ spare m) \<and> set (xs @ idle m @ spare m) = {..<length (slots m)} \<and>
     (\<forall>b s. cmap m b = Some s \<longleftrightarrow> s \<in> set xs \<and> s_block (slots m ! s) = b) \<and>
     (\<forall>s \<in> set xs. s_block (slots m ! s) < 2 ^ 64) \<and>
     (\<forall>s \<in> set xs \<union> set (idle m). owned_frame m (s_frame (slots m ! s))) \<and>
     inj_on (\<lambda>s. s_frame (slots m ! s)) (set xs \<union> set (idle m)) \<and>
     (\<forall>s < length (slots m). s_dirty (slots m ! s) \<longrightarrow> s \<in> set xs \<and> s \<in> set (dirty_list m)) \<and>
     (\<forall>s \<in> set (dirty_list m). s < length (slots m))"

definition bytes_ok :: "(bytes \<Rightarrow> bool) \<Rightarrow> 'a io_scheme \<Rightarrow> nat list \<Rightarrow> bool" where
  "bytes_ok chk m xs \<longleftrightarrow> (\<forall>s \<in> set xs. length (slot_bytes m s) = BLOCK_SIZE \<and>
     (s_dirty (slots m ! s) \<or> slot_bytes m s = media (dev m) (actual (dev m) (s_block (slots m ! s)))) \<and>
     (s_checked (slots m ! s) \<longrightarrow> chk (slot_bytes m s)))"

definition env_ok :: "'a io_scheme \<Rightarrow> bool" where
  "env_ok m \<longleftrightarrow> length (slots m) \<le> NIL \<and> fa_inv (frames m) \<and> fa_frames (frames m) \<le> NIL \<and>
     (\<forall>b. length (media (dev m) b) = BLOCK_SIZE)"

definition cache_rep :: "(bytes \<Rightarrow> bool) \<Rightarrow> 'a io_scheme \<Rightarrow> nat list \<Rightarrow> bool" where
  "cache_rep chk m xs \<longleftrightarrow> lru m xs \<and> slots_ok m xs \<and> bytes_ok chk m xs \<and> env_ok m"

definition cache_inv :: "(bytes \<Rightarrow> bool) \<Rightarrow> 'a io_scheme \<Rightarrow> bool" where
  "cache_inv chk m \<longleftrightarrow> (\<exists>xs. cache_rep chk m xs)"

text \<open>What a reader sees at a block number.\<close>

definition view :: "'a io_scheme \<Rightarrow> nat \<Rightarrow> bytes" where
  "view m b = (if b < 2 ^ 64
     then case cmap m b of Some s \<Rightarrow> slot_bytes m s | None \<Rightarrow> media (dev m) (actual (dev m) b)
     else replicate BLOCK_SIZE 0)"

lemma shifted_inj:
  assumes "c \<le> b" and "b < n" and "(b + k) mod n = (c + k) mod (n :: nat)"
  shows "b = c"
proof -
  have "n dvd (b + k) - (c + k)" using assms(1,3) mod_eq_dvd_iff_nat [of "c + k" "b + k" n] by simp
  then have "n dvd b - c" by simp
  moreover have "b - c < n" using assms(2) by simp
  ultimately have "b - c = 0" using nat_dvd_not_less by blast
  then show ?thesis using assms(1) by simp
qed

lemma actual_inj: "b < 2 ^ 64 \<Longrightarrow> c < 2 ^ 64 \<Longrightarrow> actual d b = actual d c \<Longrightarrow> b = c"
  using shifted_inj [of c b "2 ^ 64" "partition_offset d"] shifted_inj [of b c "2 ^ 64" "partition_offset d"]
  by (cases "c \<le> b") (simp_all add: actual_def)

lemma bytes_ok_mono: "bytes_ok chk m xs \<Longrightarrow> set ys \<subseteq> set xs \<Longrightarrow> bytes_ok chk m ys"
  by (auto simp: bytes_ok_def)

text \<open>Facts of the invariant.\<close>

lemma cache_repD:
  assumes "cache_rep chk m xs"
  shows "s \<in> set xs \<Longrightarrow> s < length (slots m)" "s \<in> set xs \<Longrightarrow> s \<noteq> NIL" "distinct xs"
    "cmap m b = Some s \<longleftrightarrow> s \<in> set xs \<and> s_block (slots m ! s) = b"
    "s \<in> set xs \<Longrightarrow> s_block (slots m ! s) < 2 ^ 64"
    "s \<in> set xs \<Longrightarrow> length (slot_bytes m s) = BLOCK_SIZE"
    "s \<in> set xs \<Longrightarrow> \<not> s_dirty (slots m ! s) \<Longrightarrow>
       slot_bytes m s = media (dev m) (actual (dev m) (s_block (slots m ! s)))"
    "fa_inv (frames m)" "length (media (dev m) b) = BLOCK_SIZE"
  using assms unfolding cache_rep_def lru_def slots_ok_def bytes_ok_def env_ok_def by blast+

lemma view_mapped: "cache_rep chk m xs \<Longrightarrow> s \<in> set xs \<Longrightarrow> view m (s_block (slots m ! s)) = slot_bytes m s"
proof -
  assume r: "cache_rep chk m xs" and s: "s \<in> set xs"
  then have "cmap m (s_block (slots m ! s)) = Some s" by (simp add: cache_repD(4) [OF r])
  then show ?thesis using cache_repD(5) [OF r s] by (simp add: view_def)
qed

lemma length_view: "cache_inv chk m \<Longrightarrow> length (view m b) = BLOCK_SIZE"
  using cache_repD(4,6,9) [of chk m] unfolding cache_inv_def view_def by (auto split: option.splits)

lemma slots_okD:
  assumes "slots_ok m xs"
  shows "distinct (xs @ idle m @ spare m)" "set (xs @ idle m @ spare m) = {..<length (slots m)}"
    "cmap m b = Some s \<longleftrightarrow> s \<in> set xs \<and> s_block (slots m ! s) = b"
    "s \<in> set xs \<Longrightarrow> s_block (slots m ! s) < 2 ^ 64"
    "s \<in> set xs \<union> set (idle m) \<Longrightarrow> owned_frame m (s_frame (slots m ! s))"
    "inj_on (\<lambda>s. s_frame (slots m ! s)) (set xs \<union> set (idle m))"
    "s < length (slots m) \<Longrightarrow> s_dirty (slots m ! s) \<Longrightarrow> s \<in> set xs \<and> s \<in> set (dirty_list m)"
    "s \<in> set (dirty_list m) \<Longrightarrow> s < length (slots m)"
  using assms unfolding slots_ok_def by blast+

lemma slots_okI:
  assumes "distinct (xs @ idle m @ spare m)" "set (xs @ idle m @ spare m) = {..<length (slots m)}"
    "\<And>b s. cmap m b = Some s \<longleftrightarrow> s \<in> set xs \<and> s_block (slots m ! s) = b"
    "\<And>s. s \<in> set xs \<Longrightarrow> s_block (slots m ! s) < 2 ^ 64"
    "\<And>s. s \<in> set xs \<union> set (idle m) \<Longrightarrow> owned_frame m (s_frame (slots m ! s))"
    "inj_on (\<lambda>s. s_frame (slots m ! s)) (set xs \<union> set (idle m))"
    "\<And>s. s < length (slots m) \<Longrightarrow> s_dirty (slots m ! s) \<Longrightarrow> s \<in> set xs \<and> s \<in> set (dirty_list m)"
    "\<And>s. s \<in> set (dirty_list m) \<Longrightarrow> s < length (slots m)"
  shows "slots_ok m xs"
  using assms unfolding slots_ok_def by blast

text \<open>Changing links alone, or reordering the list, keeps everything else.\<close>

lemma same_but_links_bytes: "same_but_links m m' \<Longrightarrow> s < length (slots m) \<Longrightarrow> slot_bytes m' s = slot_bytes m s"
  by (simp add: slot_bytes_def same_but_links_fields same_but_links_slots)

lemma cache_rep_links:
  assumes "cache_rep chk m xs" and "same_but_links m m'" and "lru m' ys" and "set ys = set xs"
  shows "cache_rep chk m' ys"
proof -
  note f = same_but_links_fields [OF assms(2)] same_but_links_slots(1) [OF assms(2)]
  note sl = same_but_links_slots(2-5) [OF assms(2)]
  from assms(1) have lt: "\<And>s. s \<in> set xs \<Longrightarrow> s < length (slots m)" by (rule cache_repD)
  from assms(1) have ok: "slots_ok m xs" and b: "bytes_ok chk m xs" and e: "env_ok m"
    by (simp_all add: cache_rep_def)
  have idle_lt: "\<And>s. s \<in> set (idle m) \<Longrightarrow> s < length (slots m)" using ok by (auto simp: slots_ok_def)
  have dy: "distinct ys" using assms(3) by (simp add: lru_def)
  have inj: "inj_on (\<lambda>s. s_frame (slots m' ! s)) (set xs \<union> set (idle m)) =
      inj_on (\<lambda>s. s_frame (slots m ! s)) (set xs \<union> set (idle m))"
    using lt idle_lt sl(2) by (intro inj_on_cong) auto
  have own: "owned_frame m' = owned_frame m" by (simp add: owned_frame_def fun_eq_iff f)
  have "slots_ok m' ys"
  proof (rule slots_okI)
    show "distinct (ys @ idle m' @ spare m')" using slots_okD(1) [OF ok] dy assms(4) by (simp add: f)
    show "set (ys @ idle m' @ spare m') = {..<length (slots m')}"
      using slots_okD(2) [OF ok] assms(4) by (simp add: f)
    show "cmap m' b = Some s \<longleftrightarrow> s \<in> set ys \<and> s_block (slots m' ! s) = b" for b s
      unfolding f slots_okD(3) [OF ok] using assms(4) lt sl(1) by metis
    show "s_block (slots m' ! s) < 2 ^ 64" if "s \<in> set ys" for s
      using that assms(4) lt sl(1) slots_okD(4) [OF ok] by metis
    show "owned_frame m' (s_frame (slots m' ! s))" if "s \<in> set ys \<union> set (idle m')" for s
      using that slots_okD(5) [OF ok, of s] sl(2) [of s] lt [of s] idle_lt [of s] assms(4) unfolding own f by auto
    show "inj_on (\<lambda>s. s_frame (slots m' ! s)) (set ys \<union> set (idle m'))"
      using slots_okD(6) [OF ok] inj unfolding f assms(4) by simp
    show "s \<in> set ys \<and> s \<in> set (dirty_list m')" if "s < length (slots m')" "s_dirty (slots m' ! s)" for s
      using that slots_okD(7) [OF ok, of s] sl(3) [of s] unfolding f assms(4) by simp
    show "s < length (slots m')" if "s \<in> set (dirty_list m')" for s
      using that slots_okD(8) [OF ok, of s] unfolding f by simp
  qed
  moreover have "bytes_ok chk m' ys"
    using b assms(4) lt sl same_but_links_bytes [OF assms(2)] unfolding bytes_ok_def f by simp
  moreover have "env_ok m'" using e unfolding env_ok_def f .
  ultimately show ?thesis using assms(3) by (simp add: cache_rep_def)
qed

lemma view_links:
  assumes "cache_rep chk m xs" and "same_but_links m m'"
  shows "view m' = view m"
proof
  fix b
  have "cmap m b = Some s \<Longrightarrow> slot_bytes m' s = slot_bytes m s" for s
    using same_but_links_bytes [OF assms(2)] cache_repD(1) [OF assms(1)] cache_repD(4) [OF assms(1)] by blast
  then show "view m' b = view m b"
    by (cases "cmap m b") (simp_all add: view_def same_but_links_fields [OF assms(2)])
qed

lemma touch_rep:
  assumes "cache_rep chk m xs" and "s \<in> set xs"
  shows "\<exists>ys. cache_rep chk (touch s m) ys \<and> set ys = set xs" "same_but_links m (touch s m)"
proof -
  show l: "same_but_links m (touch s m)"
    using same_but_links_trans [OF unlink_same_but_links push_front_same_but_links, of m s s] by (simp add: touch_def)
  obtain as bs where xs: "xs = as @ s # bs" using assms(2) by (meson split_list)
  have "\<exists>ys. lru (touch s m) ys \<and> set ys = set xs"
  proof (cases "lru_head m = s")
    case True
    then show ?thesis using assms(1) by (auto simp: touch_def cache_rep_def)
  next
    case False
    have "lru m (as @ s # bs)" using assms(1) xs by (simp add: cache_rep_def)
    from lru_unlink [OF this] have u: "lru (cache_unlink s m) (as @ bs)" .
    have "s < length (slots (cache_unlink s m))" "s \<noteq> NIL"
      using cache_repD(1,2) [OF assms] same_but_links_slots(1) [OF unlink_same_but_links [of m s]] by simp_all
    moreover have "s \<notin> set (as @ bs)" using cache_repD(3) [OF assms(1)] xs by simp
    ultimately have "lru (touch s m) (s # as @ bs)" using lru_push_front [OF u] False by (simp add: touch_def)
    then show ?thesis using xs by auto
  qed
  then show "\<exists>ys. cache_rep chk (touch s m) ys \<and> set ys = set xs"
    using cache_rep_links [OF assms(1) l] by blast
qed

section \<open>Writing back\<close>

text \<open>The device may change where it received the bytes of dirty slots.\<close>

definition wrote_back :: "'a io_scheme \<Rightarrow> nat list \<Rightarrow> block_device \<Rightarrow> bool" where
  "wrote_back m xs d \<longleftrightarrow> partition_offset d = partition_offset (dev m) \<and>
     (\<forall>b. media d b = media (dev m) b \<or>
       (\<exists>s \<in> set xs. s_dirty (slots m ! s) \<and> b = actual (dev m) (s_block (slots m ! s)) \<and> media d b = slot_bytes m s))"

lemma rep_wrote_back:
  assumes "cache_rep chk m xs" and "wrote_back m xs d"
  shows "cache_rep chk (m\<lparr>dev := d\<rparr>) xs" "view (m\<lparr>dev := d\<rparr>) = view m"
proof -
  have act: "actual d = actual (dev m)" using assms(2) by (simp add: wrote_back_def actual_def fun_eq_iff)
  have sb: "slot_bytes (m\<lparr>dev := d\<rparr>) = slot_bytes m" by (simp add: slot_bytes_def fun_eq_iff)
  have other: "media d (actual (dev m) b) = media (dev m) (actual (dev m) b)"
    if "b < 2 ^ 64" and "\<And>s. s \<in> set xs \<Longrightarrow> s_block (slots m ! s) = b \<Longrightarrow> \<not> s_dirty (slots m ! s)" for b
  proof (rule ccontr)
    assume "media d (actual (dev m) b) \<noteq> media (dev m) (actual (dev m) b)"
    then obtain s where s: "s \<in> set xs" "s_dirty (slots m ! s)"
        "actual (dev m) b = actual (dev m) (s_block (slots m ! s))"
      using assms(2) unfolding wrote_back_def by blast
    then have "b = s_block (slots m ! s)" using actual_inj that(1) cache_repD(5) [OF assms(1)] by blast
    with s that(2) show False by blast
  qed
  have clean: "media d (actual (dev m) (s_block (slots m ! s))) = media (dev m) (actual (dev m) (s_block (slots m ! s)))"
    if "s \<in> set xs" "\<not> s_dirty (slots m ! s)" for s
  proof (rule other)
    show "s_block (slots m ! s) < 2 ^ 64" using that(1) by (rule cache_repD(5) [OF assms(1)])
    fix t assume t: "t \<in> set xs" "s_block (slots m ! t) = s_block (slots m ! s)"
    then have "cmap m (s_block (slots m ! s)) = Some t" by (simp add: cache_repD(4) [OF assms(1)])
    moreover have "cmap m (s_block (slots m ! s)) = Some s" using that(1) by (simp add: cache_repD(4) [OF assms(1)])
    ultimately show "\<not> s_dirty (slots m ! t)" using that(2) by simp
  qed
  have "slots_ok (m\<lparr>dev := d\<rparr>) xs"
    using assms(1) unfolding cache_rep_def slots_ok_def owned_frame_def by simp
  moreover have "lru (m\<lparr>dev := d\<rparr>) xs" using assms(1) by (simp add: cache_rep_def lru_def)
  moreover have "bytes_ok chk (m\<lparr>dev := d\<rparr>) xs"
    using assms(1) clean unfolding cache_rep_def bytes_ok_def by (simp add: act sb) metis
  moreover have "length (media d b) = BLOCK_SIZE" for b
    using assms(2) cache_repD(6,9) [OF assms(1)] unfolding wrote_back_def by metis
  then have "env_ok (m\<lparr>dev := d\<rparr>)" using assms(1) by (simp add: cache_rep_def env_ok_def)
  ultimately show "cache_rep chk (m\<lparr>dev := d\<rparr>) xs" by (simp add: cache_rep_def)
  show "view (m\<lparr>dev := d\<rparr>) = view m"
  proof
    fix b
    have "media d (actual (dev m) b) = media (dev m) (actual (dev m) b)" if "b < 2 ^ 64" "cmap m b = None"
      using that cache_repD(4) [OF assms(1)] by (intro other) (simp_all, metis option.distinct(1))
    then show "view (m\<lparr>dev := d\<rparr>) b = view m b"
      by (cases "cmap m b") (simp_all add: view_def act sb)
  qed
qed

text \<open>Marking slots clean whose bytes are on the device.\<close>

lemma rep_clean:
  assumes "cache_rep chk m xs" and "s \<in> set xs"
    and "slot_bytes m s = media (dev m) (actual (dev m) (s_block (slots m ! s)))"
  shows "cache_rep chk (set_slot s (s_dirty_update (\<lambda>_. False)) m) xs"
    "view (set_slot s (s_dirty_update (\<lambda>_. False)) m) = view m"
    "\<And>t. slot_bytes (set_slot s (s_dirty_update (\<lambda>_. False)) m) t = slot_bytes m t"
proof -
  let ?m = "set_slot s (s_dirty_update (\<lambda>_. False)) m"
  have lt: "s < length (slots m)" using cache_repD(1) [OF assms(1,2)] .
  have fl: "s_block (slots ?m ! t) = s_block (slots m ! t)" "s_frame (slots ?m ! t) = s_frame (slots m ! t)"
    "s_prev (slots ?m ! t) = s_prev (slots m ! t)" "s_next (slots ?m ! t) = s_next (slots m ! t)"
    "s_checked (slots ?m ! t) = s_checked (slots m ! t)"
    "s_dirty (slots ?m ! t) \<longleftrightarrow> t \<noteq> s \<and> s_dirty (slots m ! t)" for t
    using lt by (cases "t = s"; simp)+
  show sb: "\<And>t. slot_bytes ?m t = slot_bytes m t" by (simp add: slot_bytes_def fl del: set_slot_fields(3))
  have "dll (slots ?m) p ys n = dll (slots m) p ys n" for p ys n
    by (rule dll_cong) (simp only: fl simp_thms)
  then have "lru ?m xs" using assms(1) by (simp add: cache_rep_def lru_def)
  moreover have "slots_ok ?m xs"
    using assms(1) unfolding cache_rep_def slots_ok_def owned_frame_def fl by (auto simp: set_slot_def)
  moreover have "bytes_ok chk ?m xs"
    using assms(1,3) unfolding cache_rep_def bytes_ok_def fl sb by (auto simp: set_slot_def)
  moreover have "env_ok ?m" using assms(1) by (simp add: cache_rep_def env_ok_def)
  ultimately show "cache_rep chk ?m xs" by (simp add: cache_rep_def)
  show "view ?m = view m" by (simp add: view_def fun_eq_iff sb split: option.split)
qed

section \<open>What an operation may do to the rest\<close>

text \<open>\<open>quiet B m m'\<close>: from \<open>m\<close> to \<open>m'\<close> nothing outside the cache and the device changed, the device was not
  flushed, and if only blocks of \<open>B\<close> were dirty then only blocks of \<open>B\<close> were written and are dirty.\<close>

definition dirty_set :: "'a io_scheme \<Rightarrow> nat set" where
  "dirty_set m = {s_block (slots m ! s) |s. s < length (slots m) \<and> s_dirty (slots m ! s)}"

definition same_disk :: "block_device \<Rightarrow> block_device \<Rightarrow> bool" where
  "same_disk d d' \<longleftrightarrow> partition_offset d' = partition_offset d \<and> partition_size d' = partition_size d \<and>
     nvme_available d' = nvme_available d \<and> drv_block_count d' = drv_block_count d \<and> durable d' = durable d"

definition quiet :: "nat set \<Rightarrow> 'a io_scheme \<Rightarrow> 'a io_scheme \<Rightarrow> bool" where
  "quiet B m m' \<longleftrightarrow> io.more m' = io.more m \<and> same_disk (dev m) (dev m') \<and>
     (dirty_set m \<subseteq> B \<longrightarrow> dirty_set m' \<subseteq> B \<and>
       (\<exists>ws. unflushed (dev m') = unflushed (dev m) @ ws \<and> fst ` set ws \<subseteq> actual (dev m) ` B))"

lemma same_disk_refl [simp]: "same_disk d d"
  by (simp add: same_disk_def)

lemma same_disk_actual: "same_disk d d' \<Longrightarrow> actual d' = actual d"
  by (simp add: same_disk_def actual_def fun_eq_iff)

lemma quiet_refl [simp]: "quiet B m m"
  by (auto simp: quiet_def)

lemma quiet_trans [trans]: "quiet B m m' \<Longrightarrow> quiet B m' m'' \<Longrightarrow> quiet B m m''"
  using same_disk_actual [of "dev m" "dev m'"]
  by (auto simp: quiet_def same_disk_def image_Un)

lemma quietD: "quiet B m m' \<Longrightarrow> io.more m' = io.more m \<and> same_disk (dev m) (dev m')"
  by (simp add: quiet_def)

lemma quiet_dirty_mono:
  assumes "dev m' = dev m" and "io.more m' = io.more m" and "dirty_set m' \<subseteq> dirty_set m \<union> B"
  shows "quiet B m m'"
  using assms by (auto simp: quiet_def)

lemma dirty_set_links: "same_but_links m m' \<Longrightarrow> dirty_set m' = dirty_set m"
  using same_but_links_slots(1,2,4) [of m m'] unfolding dirty_set_def by (intro Collect_cong) metis

lemma quiet_links: "same_but_links m m' \<Longrightarrow> quiet B m m'"
  by (rule quiet_dirty_mono) (auto simp: same_but_links_fields dirty_set_links)

lemma dirty_set_clean: "dirty_set (set_slot s (s_dirty_update (\<lambda>_. False)) m) \<subseteq> dirty_set m"
  by (cases "s < length (slots m)") (auto simp: dirty_set_def nth_list_update split: if_splits)

text \<open>One driver write.\<close>

lemma drv_write_cases:
  assumes "drv_write b buf d = (r, d')"
  shows "same_disk d d'"
    "(media d' = media d \<and> unflushed d' = unflushed d \<and> r \<noteq> Inr ()) \<or>
     (media d' = (media d)(b := buf) \<and> unflushed d' = unflushed d @ [(b, buf)])"
  using assms by (auto simp: drv_write_def tick_def same_disk_def put_media_def
      split: outcome.splits if_splits)

lemma writeback_rep:
  assumes "cache_rep chk m xs" and "s \<in> set xs" and "writeback s m = (r, m')"
  shows "cache_rep chk m' xs" "view m' = view m" "quiet B m m'"
    "r = Inr () \<Longrightarrow> \<not> s_dirty (slots m' ! s)" "idle m' = idle m" "spare m' = spare m"
    "cmap m' = cmap m" "frames m' = frames m" "pages m' = pages m" "lru_tail m' = lru_tail m"
    "same_disk (dev m) (dev m')" "length (slots m') = length (slots m)"
proof -
  have lt: "s < length (slots m)" using cache_repD(1) [OF assms(1,2)] .
  have goal: "cache_rep chk m' xs \<and> view m' = view m \<and> quiet B m m' \<and> (r = Inr () \<longrightarrow> \<not> s_dirty (slots m' ! s)) \<and>
    idle m' = idle m \<and> spare m' = spare m \<and> cmap m' = cmap m \<and> frames m' = frames m \<and> pages m' = pages m \<and>
    lru_tail m' = lru_tail m \<and> same_disk (dev m) (dev m') \<and> length (slots m') = length (slots m)"
  proof (cases "s_dirty (slots m ! s)")
    case False
    then show ?thesis using assms by (auto simp: writeback_def)
  next
    case True
    let ?b = "s_block (slots m ! s)" and ?a = "actual (dev m) (s_block (slots m ! s))"
    obtain rd d where w: "write_block ?b (slot_bytes m s) (dev m) = (rd, d)" by fastforce
    note dc = drv_write_cases [OF w [unfolded write_block_def]]
    define m1 where "m1 = m\<lparr>dev := d\<rparr>"
    have wb: "wrote_back m xs d"
      unfolding wrote_back_def
    proof (intro conjI allI)
      show "partition_offset d = partition_offset (dev m)" using dc(1) by (simp add: same_disk_def)
      show "media d b = media (dev m) b \<or> (\<exists>s \<in> set xs. s_dirty (slots m ! s) \<and>
          b = actual (dev m) (s_block (slots m ! s)) \<and> media d b = slot_bytes m s)" for b
        using dc(2) assms(2) True by (cases "b = ?a") auto
    qed
    note rep1 = rep_wrote_back [OF assms(1) wb, folded m1_def]
    have "?b \<in> dirty_set m" using lt True by (auto simp: dirty_set_def)
    then have q1: "quiet B m m1"
      using dc by (auto simp: quiet_def m1_def dirty_set_def)
    show ?thesis
    proof (cases rd)
      case (Inl e)
      then have "m' = m1" "r \<noteq> Inr ()" using assms(3) True w
        by (auto simp: writeback_def bindE_def on_dev_def m1_def)
      then show ?thesis using rep1 q1 dc(1) by (simp add: m1_def)
    next
      case (Inr u)
      then have m': "m' = set_slot s (s_dirty_update (\<lambda>_. False)) m1"
        using assms(3) True w by (auto simp: writeback_def bindE_def on_dev_def m1_def)
      have "slot_bytes m1 s = media (dev m1) (actual (dev m1) (s_block (slots m1 ! s)))"
        using dc Inr same_disk_actual [OF dc(1)] by (simp add: m1_def slot_bytes_def)
      note rep2 = rep_clean [OF rep1(1) assms(2) this, folded m']
      have "quiet B m1 m'" unfolding m' using dirty_set_clean [of s m1] by (intro quiet_dirty_mono) auto
      with q1 have "quiet B m m'" by (rule quiet_trans)
      then show ?thesis using rep2 rep1 lt dc(1) by (simp add: m' m1_def)
    qed
  qed
  then show "cache_rep chk m' xs" "view m' = view m" "quiet B m m'"
    "r = Inr () \<Longrightarrow> \<not> s_dirty (slots m' ! s)" "idle m' = idle m" "spare m' = spare m"
    "cmap m' = cmap m" "frames m' = frames m" "pages m' = pages m" "lru_tail m' = lru_tail m"
    "same_disk (dev m) (dev m')" "length (slots m') = length (slots m)" by blast+
qed

section \<open>Slots that come and go\<close>

lemma rep_idle_perm:
  assumes "cache_rep chk m xs" and "distinct ys" and "set ys = set (idle m)"
  shows "cache_rep chk (m\<lparr>idle := ys\<rparr>) xs"
proof -
  have "slots_ok (m\<lparr>idle := ys\<rparr>) xs"
    using assms unfolding cache_rep_def slots_ok_def owned_frame_def by simp
  then show ?thesis using assms(1) unfolding cache_rep_def lru_def bytes_ok_def env_ok_def slot_bytes_def by simp
qed

lemma view_cong:
  "cmap m' = cmap m \<Longrightarrow> (\<And>b s. cmap m b = Some s \<Longrightarrow> slot_bytes m' s = slot_bytes m s) \<Longrightarrow> dev m' = dev m \<Longrightarrow>
     view m' = view m"
  by (auto simp: view_def fun_eq_iff split: option.splits)

lemma rep_detach:
  assumes rep: "cache_rep chk m (as @ s # bs)"
    and m': "m' = (set_slot s (s_dirty_update (\<lambda>_. False)) (cache_unlink s m))
      \<lparr>cmap := (cmap m)(s_block (slots m ! s) := None), idle := s # idle m\<rparr>"
  shows "cache_rep chk m' (as @ bs)"
    "view m' = (view m)(s_block (slots m ! s) := media (dev m) (actual (dev m) (s_block (slots m ! s))))"
    "quiet B m m'"
proof -
  let ?u = "cache_unlink s m" and ?b = "s_block (slots m ! s)"
  note lk = unlink_same_but_links [of m s]
  note f = same_but_links_fields [OF lk] and sl = same_but_links_slots [OF lk]
  from rep have ok: "slots_ok m (as @ s # bs)" and lru: "lru m (as @ s # bs)" by (simp_all add: cache_rep_def)
  have lt: "s < length (slots m)" using cache_repD(1) [OF rep] by simp
  have ltx: "t < length (slots m)" if "t \<in> set (as @ s # bs) \<union> set (idle m)" for t
    using that slots_okD(2) [OF ok] by auto
  have fl: "length (slots m') = length (slots m)" "\<And>t. t < length (slots m) \<Longrightarrow>
      s_block (slots m' ! t) = s_block (slots m ! t) \<and> s_frame (slots m' ! t) = s_frame (slots m ! t) \<and>
      s_checked (slots m' ! t) = s_checked (slots m ! t) \<and>
      (s_dirty (slots m' ! t) \<longleftrightarrow> t \<noteq> s \<and> s_dirty (slots m ! t))"
    using sl lt by (auto simp: m' nth_list_update)
  have fields: "cmap m' = (cmap m)(?b := None)" "idle m' = s # idle m" "spare m' = spare m"
    "dirty_list m' = dirty_list m" "dev m' = dev m" "frames m' = frames m" "pages m' = pages m"
    "io.more m' = io.more m"
    using f by (simp_all add: m')
  have own: "owned_frame m' = owned_frame m" by (simp add: owned_frame_def fun_eq_iff fields)
  have sb: "slot_bytes m' t = slot_bytes m t" if "t < length (slots m)" for t
    using fl(2) [OF that] by (simp add: slot_bytes_def fields)
  have dis: "distinct (as @ s # bs)" using lru by (simp add: lru_def)
  have lru': "lru m' (as @ bs)"
  proof -
    have u: "lru ?u (as @ bs)" by (rule lru_unlink [OF lru])
    have "dll (slots m') NIL (as @ bs) NIL = dll (slots ?u) NIL (as @ bs) NIL"
      using dis by (simp add: m' dll_update_other)
    then show ?thesis using u by (simp add: lru_def m')
  qed
  have slots': "slots_ok m' (as @ bs)"
  proof (rule slots_okI)
    show "distinct ((as @ bs) @ idle m' @ spare m')"
      using slots_okD(1) [OF ok] by (auto simp: fields)
    show "set ((as @ bs) @ idle m' @ spare m') = {..<length (slots m')}"
      using slots_okD(2) [OF ok] by (auto simp: fields fl(1))
    show "cmap m' b = Some t \<longleftrightarrow> t \<in> set (as @ bs) \<and> s_block (slots m' ! t) = b" for b t
    proof (cases "b = ?b")
      case True
      have "t = s" if "t \<in> set (as @ s # bs)" "s_block (slots m ! t) = ?b"
        using that slots_okD(3) [OF ok, of ?b t] slots_okD(3) [OF ok, of ?b s] by simp
      then show ?thesis using True dis fl(2) ltx by (simp add: fields) (metis Un_iff set_append)
    next
      case False
      then show ?thesis using slots_okD(3) [OF ok, of b t] fl(2) [of t] ltx [of t] by (auto simp: fields)
    qed
    show "s_block (slots m' ! t) < 2 ^ 64" if "t \<in> set (as @ bs)" for t
      using that slots_okD(4) [OF ok, of t] fl(2) [of t] ltx [of t] by auto
    show "owned_frame m' (s_frame (slots m' ! t))" if "t \<in> set (as @ bs) \<union> set (idle m')" for t
      using that slots_okD(5) [OF ok, of t] fl(2) [of t] ltx [of t] unfolding own fields by auto
    have "set (as @ bs) \<union> set (idle m') = set (as @ s # bs) \<union> set (idle m)" by (auto simp: fields)
    moreover have "inj_on (\<lambda>t. s_frame (slots m' ! t)) (set (as @ s # bs) \<union> set (idle m)) =
        inj_on (\<lambda>t. s_frame (slots m ! t)) (set (as @ s # bs) \<union> set (idle m))"
      using fl(2) ltx by (intro inj_on_cong) blast
    ultimately show "inj_on (\<lambda>t. s_frame (slots m' ! t)) (set (as @ bs) \<union> set (idle m'))"
      using slots_okD(6) [OF ok] by simp
    show "t \<in> set (as @ bs) \<and> t \<in> set (dirty_list m')" if "t < length (slots m')" "s_dirty (slots m' ! t)" for t
      using that slots_okD(7) [OF ok, of t] fl(2) [of t] by (auto simp: fields fl(1))
    show "t < length (slots m')" if "t \<in> set (dirty_list m')" for t
      using that slots_okD(8) [OF ok, of t] by (simp add: fields fl(1))
  qed
  have "bytes_ok chk m' (as @ bs)"
    using rep fl(2) ltx sb dis unfolding cache_rep_def bytes_ok_def fields by auto
  moreover have "env_ok m'" using rep by (simp add: cache_rep_def env_ok_def fields fl(1))
  ultimately show "cache_rep chk m' (as @ bs)" using lru' slots' by (simp add: cache_rep_def)
  show "view m' = (view m)(?b := media (dev m) (actual (dev m) ?b))"
  proof
    fix b
    have "slot_bytes m' t = slot_bytes m t" if "cmap m b = Some t" for t
      using that slots_okD(3) [OF ok, of b t] ltx sb by auto
    then show "view m' b = ((view m)(?b := media (dev m) (actual (dev m) ?b))) b"
      using slots_okD(4) [OF ok, of s] by (cases "cmap m b") (auto simp: view_def fields)
  qed
  have "dirty_set m' \<subseteq> dirty_set m" using fl by (auto simp: dirty_set_def)
  then show "quiet B m m'" by (intro quiet_dirty_mono) (auto simp: fields)
qed

text \<open>A slot gets a frame the allocator just handed out.\<close>

lemma rep_alloc:
  assumes rep: "cache_rep chk m xs" and al: "fa_allocate (frames m) = (Some a, fa')"
  shows "cache_rep chk (m\<lparr>frames := fa'\<rparr>) xs" "view (m\<lparr>frames := fa'\<rparr>) = view m" "quiet B m (m\<lparr>frames := fa'\<rparr>)"
    "owned_frame (m\<lparr>frames := fa'\<rparr>) a" "\<And>s. s \<in> set xs \<union> set (idle m) \<Longrightarrow> s_frame (slots m ! s) \<noteq> a"
proof -
  let ?m = "m\<lparr>frames := fa'\<rparr>"
  from rep have ok: "slots_ok m xs" and env: "env_ok m" by (simp_all add: cache_rep_def)
  from fa_allocate_Some [OF cache_repD(8) [OF rep] al] obtain f where
    f: "a = f * PAGE_SIZE" "f \<in> free_frames (frames m)"
      "free_frames fa' = free_frames (frames m) - {f}" "fa_frames fa' = fa_frames (frames m)" "fa_inv fa'"
      "memory_top fa' = memory_top (frames m)" by metis
  have mono: "owned_frame m g \<Longrightarrow> owned_frame ?m g" for g using f(3,6) by (auto simp: owned_frame_def)
  have "slots_ok ?m xs"
    using ok mono unfolding slots_ok_def by simp
  moreover have "env_ok ?m" using env f(4,5) by (simp add: env_ok_def)
  ultimately show "cache_rep chk ?m xs"
    using rep unfolding cache_rep_def lru_def bytes_ok_def slot_bytes_def by simp
  show "view ?m = view m" by (rule view_cong) (auto simp: slot_bytes_def)
  show "quiet B m ?m" by (rule quiet_dirty_mono) (auto simp: dirty_set_def)
  have "f < memory_top (frames m)" using f(2) cache_repD(8) [OF rep] by (simp add: fa_inv_def)
  then show "owned_frame ?m a" using f by (auto simp: owned_frame_def)
  show "s_frame (slots m ! s) \<noteq> a" if "s \<in> set xs \<union> set (idle m)" for s
    using slots_okD(5) [OF ok that] f(1,2) by (auto simp: owned_frame_def)
qed

lemma rep_own_spare:
  assumes rep: "cache_rep chk m xs" and sp: "spare m = ss @ [s]" and own: "owned_frame m a"
    and fresh: "\<And>t. t \<in> set xs \<union> set (idle m) \<Longrightarrow> s_frame (slots m ! t) \<noteq> a"
    and m': "m' = (set_slot s (s_frame_update (\<lambda>_. a)) m)\<lparr>spare := ss, idle := s # idle m\<rparr>"
  shows "cache_rep chk m' xs" "view m' = view m" "quiet B m m'"
proof -
  from rep have ok: "slots_ok m xs" and lru: "lru m xs" by (simp_all add: cache_rep_def)
  have s: "s < length (slots m)" "s \<notin> set xs" "s \<notin> set (idle m)" "s \<notin> set ss"
    using slots_okD(1,2) [OF ok] sp by auto
  have other: "slots m' ! t = slots m ! t" if "t \<noteq> s" for t using that by (simp add: m')
  have self: "s_frame (slots m' ! s) = a" "s_dirty (slots m' ! s) = s_dirty (slots m ! s)"
    "s_block (slots m' ! s) = s_block (slots m ! s)"
    using s(1) by (simp_all add: m')
  have clean: "\<not> s_dirty (slots m ! s)" using slots_okD(7) [OF ok s(1)] s(2) by auto
  have fields: "cmap m' = cmap m" "idle m' = s # idle m" "spare m' = ss" "dirty_list m' = dirty_list m"
    "dev m' = dev m" "frames m' = frames m" "pages m' = pages m" "length (slots m') = length (slots m)"
    "io.more m' = io.more m" by (simp_all add: m')
  have own': "owned_frame m' = owned_frame m" by (simp add: owned_frame_def fun_eq_iff fields)
  have sb: "slot_bytes m' t = slot_bytes m t" if "t \<noteq> s" for t
    by (simp add: slot_bytes_def fields other [OF that])
  have "lru m' xs" using lru s(2) by (simp add: lru_def m' dll_update_other)
  moreover have "slots_ok m' xs"
  proof (rule slots_okI)
    show "distinct (xs @ idle m' @ spare m')" using slots_okD(1) [OF ok] sp by (auto simp: fields)
    show "set (xs @ idle m' @ spare m') = {..<length (slots m')}"
      using slots_okD(2) [OF ok] sp by (auto simp: fields)
    show "cmap m' b = Some t \<longleftrightarrow> t \<in> set xs \<and> s_block (slots m' ! t) = b" for b t
      using slots_okD(3) [OF ok, of b t] s(2) other [of t] by (cases "t = s") (simp_all add: fields)
    show "s_block (slots m' ! t) < 2 ^ 64" if "t \<in> set xs" for t
      using slots_okD(4) [OF ok that] other [of t] s(2) that by (cases "t = s") auto
    show "owned_frame m' (s_frame (slots m' ! t))" if "t \<in> set xs \<union> set (idle m')" for t
      using slots_okD(5) [OF ok, of t] other [of t] self own that unfolding own' fields by (cases "t = s") auto
    have "inj_on (\<lambda>t. s_frame (slots m' ! t)) (set xs \<union> set (idle m)) =
        inj_on (\<lambda>t. s_frame (slots m ! t)) (set xs \<union> set (idle m))"
      using s other by (intro inj_on_cong) (metis Un_iff)
    moreover have "a \<notin> (\<lambda>t. s_frame (slots m' ! t)) ` (set xs \<union> set (idle m))"
      using fresh other s by (metis (no_types, lifting) Un_iff imageE)
    ultimately show "inj_on (\<lambda>t. s_frame (slots m' ! t)) (set xs \<union> set (idle m'))"
      using slots_okD(6) [OF ok] self(1) s by (simp add: fields inj_on_insert image_Un)
    show "t \<in> set xs \<and> t \<in> set (dirty_list m')" if "t < length (slots m')" "s_dirty (slots m' ! t)" for t
      using that slots_okD(7) [OF ok, of t] other [of t] self clean by (cases "t = s") (auto simp: fields)
    show "t < length (slots m')" if "t \<in> set (dirty_list m')" for t
      using that slots_okD(8) [OF ok, of t] by (simp add: fields)
  qed
  moreover have "bytes_ok chk m' xs"
    using rep s(2) other sb unfolding cache_rep_def bytes_ok_def fields by (metis (no_types, lifting))
  moreover have "env_ok m'" using rep by (simp add: cache_rep_def env_ok_def fields)
  ultimately show "cache_rep chk m' xs" by (simp add: cache_rep_def)
  show "view m' = view m"
  proof (rule view_cong)
    show "cmap m' = cmap m" "dev m' = dev m" by (simp_all add: fields)
    show "slot_bytes m' t = slot_bytes m t" if "cmap m b = Some t" for b t
      using that slots_okD(3) [OF ok, of b t] s(2) by (intro sb) auto
  qed
  have "dirty_set m' \<subseteq> dirty_set m"
    unfolding dirty_set_def fields(8) using other self(2,3) by (intro Collect_mono) metis
  then show "quiet B m m'" by (intro quiet_dirty_mono) (auto simp: fields)
qed

text \<open>Without spare slots every slot owns a frame, so there are fewer slots than frames.\<close>

lemma slots_below_frames:
  assumes rep: "cache_rep chk m xs" and sp: "spare m = []" and own: "owned_frame m a"
    and fresh: "\<And>t. t \<in> set xs \<union> set (idle m) \<Longrightarrow> s_frame (slots m ! t) \<noteq> a"
  shows "length (slots m) < NIL"
proof -
  from rep have ok: "slots_ok m xs" and env: "env_ok m" by (simp_all add: cache_rep_def)
  let ?S = "set xs \<union> set (idle m)" and ?f = "\<lambda>s. s_frame (slots m ! s)"
  have S: "?S = {..<length (slots m)}" using slots_okD(2) [OF ok] sp by simp
  obtain k where k: "a = k * PAGE_SIZE" "k < memory_top (frames m)" using own by (auto simp: owned_frame_def)
  have "?f ` ?S \<subseteq> (\<lambda>j. j * PAGE_SIZE) ` ({..<memory_top (frames m)} - {k})"
  proof
    fix x assume "x \<in> ?f ` ?S"
    then obtain s where s: "s \<in> ?S" "x = ?f s" by blast
    obtain j where j: "x = j * PAGE_SIZE" "j < memory_top (frames m)"
      using slots_okD(5) [OF ok s(1)] s(2) by (auto simp: owned_frame_def)
    moreover have "j \<noteq> k" using fresh [OF s(1)] s(2) j(1) k(1) by auto
    ultimately show "x \<in> (\<lambda>j. j * PAGE_SIZE) ` ({..<memory_top (frames m)} - {k})" by auto
  qed
  then have "card (?f ` ?S) \<le> card ((\<lambda>j. j * PAGE_SIZE) ` ({..<memory_top (frames m)} - {k}))"
    by (intro card_mono) auto
  also have "\<dots> \<le> card ({..<memory_top (frames m)} - {k})" by (rule card_image_le) simp
  also have "\<dots> < memory_top (frames m)" using k(2) by simp
  also have "\<dots> \<le> NIL" using env by (simp add: env_ok_def fa_inv_def)
  finally have "card (?f ` ?S) < NIL" .
  moreover have "card (?f ` ?S) = length (slots m)"
    using card_image [OF slots_okD(6) [OF ok]] S by simp
  ultimately show ?thesis by simp
qed

lemma rep_own_push:
  assumes rep: "cache_rep chk m xs" and sp: "spare m = []" and own: "owned_frame m a"
    and fresh: "\<And>t. t \<in> set xs \<union> set (idle m) \<Longrightarrow> s_frame (slots m ! t) \<noteq> a"
    and m': "m' = m\<lparr>slots := slots m @ [\<lparr>s_block = 0, s_frame = a, s_dirty = False, s_checked = False,
      s_prev = NIL, s_next = NIL\<rparr>], idle := length (slots m) # idle m\<rparr>"
  shows "cache_rep chk m' xs" "view m' = view m" "quiet B m m'"
proof -
  from rep have ok: "slots_ok m xs" and lru: "lru m xs" by (simp_all add: cache_rep_def)
  let ?n = "length (slots m)"
  have lt: "t < ?n" if "t \<in> set xs \<union> set (idle m)" for t using slots_okD(2) [OF ok] that by auto
  have old: "slots m' ! t = slots m ! t" if "t < ?n" for t using that by (simp add: m' nth_append)
  have new: "s_frame (slots m' ! ?n) = a" "\<not> s_dirty (slots m' ! ?n)" by (simp_all add: m')
  have fields: "cmap m' = cmap m" "idle m' = ?n # idle m" "spare m' = spare m" "dirty_list m' = dirty_list m"
    "dev m' = dev m" "frames m' = frames m" "pages m' = pages m" "length (slots m') = Suc ?n"
    "io.more m' = io.more m" by (simp_all add: m')
  have own': "owned_frame m' = owned_frame m" by (simp add: owned_frame_def fun_eq_iff fields)
  have sb: "slot_bytes m' t = slot_bytes m t" if "t < ?n" for t
    by (simp add: slot_bytes_def fields old [OF that])
  have "dll (slots m') NIL xs NIL = dll (slots m) NIL xs NIL" using old lt by (intro dll_cong) simp
  moreover have "lru_head m' = lru_head m" "lru_tail m' = lru_tail m" by (simp_all add: m')
  ultimately have "lru m' xs" using lru unfolding lru_def fields by (simp add: less_SucI)
  moreover have "slots_ok m' xs"
  proof (rule slots_okI)
    show "distinct (xs @ idle m' @ spare m')" using slots_okD(1) [OF ok] lt sp by (auto simp: fields)
    show "set (xs @ idle m' @ spare m') = {..<length (slots m')}"
      using slots_okD(2) [OF ok] sp by (simp add: fields lessThan_Suc)
    show "cmap m' b = Some t \<longleftrightarrow> t \<in> set xs \<and> s_block (slots m' ! t) = b" for b t
      using slots_okD(3) [OF ok, of b t] lt [of t] old [of t] by (cases "t \<in> set xs") (simp_all add: fields)
    show "s_block (slots m' ! t) < 2 ^ 64" if "t \<in> set xs" for t
      using slots_okD(4) [OF ok that] old lt that by auto
    show "owned_frame m' (s_frame (slots m' ! t))" if "t \<in> set xs \<union> set (idle m')" for t
      using slots_okD(5) [OF ok, of t] old [of t] lt [of t] new own that unfolding own' fields by auto
    have "inj_on (\<lambda>t. s_frame (slots m' ! t)) (set xs \<union> set (idle m)) =
        inj_on (\<lambda>t. s_frame (slots m ! t)) (set xs \<union> set (idle m))"
      using lt old by (intro inj_on_cong) simp
    moreover have "a \<notin> (\<lambda>t. s_frame (slots m' ! t)) ` (set xs \<union> set (idle m))"
      using fresh old lt by (metis (no_types, lifting) imageE)
    moreover have "?n \<notin> set xs \<union> set (idle m)" using lt by blast
    ultimately show "inj_on (\<lambda>t. s_frame (slots m' ! t)) (set xs \<union> set (idle m'))"
      using slots_okD(6) [OF ok] new(1) by (simp add: fields inj_on_insert image_Un)
    show "t \<in> set xs \<and> t \<in> set (dirty_list m')" if "t < length (slots m')" "s_dirty (slots m' ! t)" for t
      using that slots_okD(7) [OF ok, of t] old [of t] new by (auto simp: fields less_Suc_eq)
    show "t < length (slots m')" if "t \<in> set (dirty_list m')" for t
      using that slots_okD(8) [OF ok, of t] by (simp add: fields)
  qed
  moreover have "bytes_ok chk m' xs"
    using rep lt old sb unfolding cache_rep_def bytes_ok_def fields by auto
  moreover have "env_ok m'"
    using rep slots_below_frames [OF rep sp own fresh] by (simp add: cache_rep_def env_ok_def fields)
  ultimately show "cache_rep chk m' xs" by (simp add: cache_rep_def)
  show "view m' = view m"
  proof (rule view_cong)
    show "cmap m' = cmap m" "dev m' = dev m" by (simp_all add: fields)
    show "slot_bytes m' t = slot_bytes m t" if "cmap m b = Some t" for b t
      using that slots_okD(3) [OF ok, of b t] lt by (intro sb) auto
  qed
  have "dirty_set m' \<subseteq> dirty_set m"
    unfolding dirty_set_def fields(8) using old new(2) by (auto simp: less_Suc_eq)
  then show "quiet B m m'" by (intro quiet_dirty_mono) (auto simp: fields)
qed

lemma set_slot_id: "f (slots m ! s) = slots m ! s \<Longrightarrow> set_slot s f m = m"
  by (simp add: set_slot_def)

lemma idle_update_view [simp]: "view (m\<lparr>idle := ys\<rparr>) = view m"
  by (rule view_cong) (auto simp: slot_bytes_def)

lemma quiet_idle [simp]: "quiet B m (m'\<lparr>idle := ys\<rparr>) = quiet B m m'"
  by (simp add: quiet_def dirty_set_def)

text \<open>Dropping a clean block changes nothing a reader sees.\<close>

lemma rep_drop_clean:
  assumes rep: "cache_rep chk m (as @ s # bs)" and clean: "\<not> s_dirty (slots m ! s)"
    and m': "m' = drop_map s (cache_unlink s m)"
  shows "cache_rep chk (m'\<lparr>idle := s # idle m'\<rparr>) (as @ bs)" "view m' = view m" "quiet B m m'"
    "cmap m' = (cmap m)(s_block (slots m ! s) := None)"
proof -
  note lk = unlink_same_but_links [of m s]
  note f = same_but_links_fields [OF lk] and sl = same_but_links_slots [OF lk]
  have s: "s \<in> set (as @ s # bs)" by simp
  have lt: "s < length (slots m)" using cache_repD(1) [OF rep s] .
  have id: "set_slot s (s_dirty_update (\<lambda>_. False)) (cache_unlink s m) = cache_unlink s m"
    using sl(4) [OF lt] clean by (intro set_slot_id) (simp add: slot.surjective)
  show cm: "cmap m' = (cmap m)(s_block (slots m ! s) := None)"
    using sl(2) [OF lt] f by (simp add: m' drop_map_def)
  have eq: "m'\<lparr>idle := s # idle m'\<rparr> = (set_slot s (s_dirty_update (\<lambda>_. False)) (cache_unlink s m))
      \<lparr>cmap := (cmap m)(s_block (slots m ! s) := None), idle := s # idle m\<rparr>"
    unfolding id using sl(2) [OF lt] f by (simp add: m' drop_map_def)
  note d = rep_detach [OF rep eq]
  show "cache_rep chk (m'\<lparr>idle := s # idle m'\<rparr>) (as @ bs)" by (rule d(1))
  have "view (m'\<lparr>idle := s # idle m'\<rparr>) = view m"
    unfolding d(2) using view_mapped [OF rep s] cache_repD(7) [OF rep s clean]
    by (metis fun_upd_triv)
  then show "view m' = view m" by simp
  show "quiet B m m'" using d(3) by simp
qed

lemma lru_tail_last:
  assumes "lru m xs" and "lru_tail m \<noteq> NIL"
  obtains ys where "xs = ys @ [lru_tail m]"
  using assms by (cases xs rule: rev_cases) (auto simp: lru_def)

text \<open>What \<open>find_slot\<close> hands over: a slot that owns a frame and belongs to no block.\<close>

definition slot_ready :: "(bytes \<Rightarrow> bool) \<Rightarrow> nat set \<Rightarrow> 'a io_scheme \<Rightarrow> (fs_error + nat) \<Rightarrow> 'a io_scheme \<Rightarrow> bool" where
  "slot_ready chk B m r m1 \<longleftrightarrow> quiet B m m1 \<and> view m1 = view m \<and>
     (case r of Inl e \<Rightarrow> cache_inv chk m1
      | Inr s \<Rightarrow> (\<exists>ys. cache_rep chk (m1\<lparr>idle := s # idle m1\<rparr>) ys) \<and> (\<forall>b. cmap m b = None \<longrightarrow> cmap m1 b = None))"

lemma slot_ready_idle:
  assumes rep: "cache_rep chk m xs" and "idle m \<noteq> []"
  shows "slot_ready chk B m (Inr (last (idle m))) (m\<lparr>idle := butlast (idle m)\<rparr>)"
proof -
  have "distinct (idle m)" using rep slots_okD(1) [of m xs] by (simp add: cache_rep_def)
  moreover have split: "idle m = butlast (idle m) @ [last (idle m)]" using assms(2) by simp
  ultimately have "distinct (last (idle m) # butlast (idle m))"
    by (metis distinct_append distinct_singleton distinct.simps(2) Int_iff disjoint_iff list.set_intros(1)
        append_butlast_last_id)
  moreover have "set (last (idle m) # butlast (idle m)) = set (idle m)"
    by (subst (3) split) auto
  ultimately have "cache_rep chk (m\<lparr>idle := last (idle m) # butlast (idle m)\<rparr>) xs"
    by (rule rep_idle_perm [OF rep])
  then show ?thesis by (auto simp: slot_ready_def)
qed

lemma slot_ready_fresh:
  assumes rep: "cache_rep chk m xs" and al: "fa_allocate (frames m) = (Some a, fa')"
    and own: "own_frame a (m\<lparr>frames := fa'\<rparr>) = (s, m1)"
  shows "slot_ready chk B m (Inr s) m1"
proof -
  define m2 where "m2 = m\<lparr>frames := fa'\<rparr>"
  note al' = rep_alloc [OF rep al, folded m2_def]
  have m2: "cmap m2 = cmap m" "slots m2 = slots m" "idle m2 = idle m" "spare m2 = spare m" by (simp_all add: m2_def)
  have fresh: "t \<in> set xs \<union> set (idle m2) \<Longrightarrow> s_frame (slots m2 ! t) \<noteq> a" for t
    using al'(5) [of t] by (simp add: m2)
  have "(\<exists>ys. cache_rep chk (m1\<lparr>idle := s # idle m1\<rparr>) ys) \<and> view (m1\<lparr>idle := s # idle m1\<rparr>) = view m2 \<and>
      quiet B m2 (m1\<lparr>idle := s # idle m1\<rparr>) \<and> cmap m1 = cmap m"
  proof (cases "spare m = []")
    case False
    then have sp: "spare m2 = butlast (spare m) @ [last (spare m)]" by (simp add: m2)
    have r: "s = last (spare m)"
      "m1 = set_slot (last (spare m)) (s_frame_update (\<lambda>_. a)) (m2\<lparr>spare := butlast (spare m)\<rparr>)"
      using own False by (auto simp: own_frame_def m2_def Let_def)
    then have eq: "m1\<lparr>idle := s # idle m1\<rparr> =
        (set_slot s (s_frame_update (\<lambda>_. a)) m2)\<lparr>spare := butlast (spare m), idle := s # idle m2\<rparr>"
      by (simp add: set_slot_def)
    show ?thesis using rep_own_spare [OF al'(1) sp al'(4) fresh eq [unfolded r(1)]] r m2 by auto
  next
    case True
    then have sp: "spare m2 = []" by (simp add: m2)
    have "length (slots m) < NIL" using slots_below_frames [OF al'(1) sp al'(4) fresh] by (simp add: m2)
    then have n: "length (slots m) mod 4294967296 = length (slots m)" by (simp add: NIL_def)
    have r: "s = length (slots m)"
      "m1 = m2\<lparr>slots := slots m2 @ [\<lparr>s_block = 0, s_frame = a, s_dirty = False, s_checked = False,
        s_prev = NIL, s_next = NIL\<rparr>]\<rparr>"
      using own True n by (auto simp: own_frame_def m2_def Let_def)
    then have eq: "m1\<lparr>idle := s # idle m1\<rparr> = m2\<lparr>slots := slots m2 @ [\<lparr>s_block = 0, s_frame = a,
        s_dirty = False, s_checked = False, s_prev = NIL, s_next = NIL\<rparr>], idle := length (slots m2) # idle m2\<rparr>"
      by (simp add: m2)
    show ?thesis using rep_own_push [OF al'(1) sp al'(4) fresh eq] r m2 by auto
  qed
  moreover have "quiet B m m2" "view m2 = view m" by (rule al'(3), rule al'(2))
  ultimately show ?thesis using quiet_trans [of B m m2] by (auto simp: slot_ready_def)
qed

lemma slot_ready_evict:
  assumes rep: "cache_rep chk m xs" and "lru_tail m \<noteq> NIL" and ev: "evict_tail m = (r, m1)"
  shows "slot_ready chk B m r m1"
proof -
  define s where "s = lru_tail m"
  have "lru m xs" using rep by (simp add: cache_rep_def)
  then obtain ys where ys: "xs = ys @ [s]" using lru_tail_last assms(2) unfolding s_def by blast
  then have sx: "s \<in> set xs" by simp
  obtain wr m2 where w: "writeback s m = (wr, m2)" by fastforce
  note wb = writeback_rep [OF rep sx w]
  show ?thesis
  proof (cases wr)
    case (Inl e)
    then have "r = Inl e" "m1 = m2" using ev w by (auto simp: evict_tail_def Let_def s_def [symmetric] bindE_def)
    then show ?thesis using wb(1-3) by (auto simp: cache_inv_def slot_ready_def)
  next
    case (Inr u)
    then have r: "r = Inr s" "m1 = drop_map s (cache_unlink s m2)"
      using ev w by (auto simp: evict_tail_def Let_def s_def [symmetric] bindE_def)
    have "\<not> s_dirty (slots m2 ! s)" using wb(4) Inr by simp
    note dr = rep_drop_clean [OF wb(1) [unfolded ys] this r(2)]
    have "quiet B m m1" using wb(3) dr(3) quiet_trans by blast
    then show ?thesis using r(1) dr wb(2,7) by (auto simp: slot_ready_def)
  qed
qed

lemma find_slot_ready:
  assumes rep: "cache_rep chk m xs" and fs: "find_slot m = (r, m1)"
  shows "slot_ready chk B m r m1"
proof -
  consider "idle m \<noteq> []" | "idle m = []" "fst (fa_stats (frames m)) > high_watermark (usable_frames m)"
    | "idle m = []" "\<not> fst (fa_stats (frames m)) > high_watermark (usable_frames m)" by blast
  then show ?thesis
  proof cases
    case 1
    then show ?thesis using slot_ready_idle [OF rep] fs by (auto simp: find_slot_def)
  next
    case 2
    then have "fa_free (frames m) > 0" by (simp add: fa_stats_def)
    then obtain a fa' where al: "fa_allocate (frames m) = (Some a, fa')"
      and "allocate_frame (shrinkers m) (frames m) = (Some a, fa')"
      using fa_allocate_ready allocate_frame_ready cache_repD(8) [OF rep] by metis
    with 2 have ff: "fresh_frame m = (Some a, m\<lparr>frames := fa'\<rparr>)" by (simp add: fresh_frame_def)
    obtain s m2 where own: "own_frame a (m\<lparr>frames := fa'\<rparr>) = (s, m2)" by fastforce
    then have "r = Inr s" "m1 = m2" using fs 2 ff by (auto simp: find_slot_def)
    then show ?thesis using slot_ready_fresh [OF rep al own] by simp
  next
    case 3
    then have ff: "fresh_frame m = (None, m)" by (simp add: fresh_frame_def)
    show ?thesis
    proof (cases "lru_tail m = NIL")
      case True
      then show ?thesis using fs 3 ff rep by (auto simp: find_slot_def cache_inv_def slot_ready_def)
    next
      case False
      then have "evict_tail m = (r, m1)" using fs 3 ff by (simp add: find_slot_def)
      then show ?thesis by (rule slot_ready_evict [OF rep False])
    qed
  qed
qed

section \<open>Reading and writing a block\<close>

lemma rep_install:
  assumes rep: "cache_rep chk (m\<lparr>idle := s # idle m\<rparr>) ys" and none: "cmap m b = None" and b: "b < 2 ^ 64"
    and m': "m' = put_bytes s (media (dev m) (actual (dev m) b)) (install s b m)"
  shows "cache_rep chk m' (s # ys)" "view m' = view m" "quiet B m m'" "cmap m' b = Some s"
proof -
  define n where "n = (set_slot s (\<lambda>sl. sl\<lparr>s_block := b, s_dirty := False, s_checked := False\<rparr>) m)
      \<lparr>cmap := (cmap m)(b \<mapsto> s)\<rparr>"
  have inst: "install s b m = push_front s n" by (simp add: install_def Let_def n_def)
  note lk = push_front_same_but_links [of n s]
  note f = same_but_links_fields [OF lk] and sl = same_but_links_slots [OF lk]
  from rep have ok: "slots_ok (m\<lparr>idle := s # idle m\<rparr>) ys" and lru: "lru m ys" and env: "env_ok m"
    by (simp_all add: cache_rep_def lru_def env_ok_def)
  have s: "s < length (slots m)" "s \<notin> set ys" "s \<notin> set (idle m)" "s \<notin> set (spare m)"
    using slots_okD(1,2) [OF ok] by auto
  have lt: "t < length (slots m)" if "t \<in> set ys \<union> set (idle m)" for t using slots_okD(2) [OF ok] that by auto
  have len: "length (slots m') = length (slots m)" using sl(1) by (simp add: m' put_bytes_def inst n_def)
  have nn: "length (slots n) = length (slots m)" by (simp add: n_def)
  have old: "s_block (slots m' ! t) = s_block (slots m ! t) \<and> s_frame (slots m' ! t) = s_frame (slots m ! t) \<and>
      s_dirty (slots m' ! t) = s_dirty (slots m ! t) \<and> s_checked (slots m' ! t) = s_checked (slots m ! t)"
    if "t < length (slots m)" "t \<noteq> s" for t
    using that sl(2-5) [of t] nn by (simp add: m' put_bytes_def inst n_def)
  have new: "s_block (slots m' ! s) = b" "s_frame (slots m' ! s) = s_frame (slots m ! s)"
      "\<not> s_dirty (slots m' ! s)" "\<not> s_checked (slots m' ! s)"
    using s(1) sl(2-5) [of s] nn by (simp_all add: m' put_bytes_def inst n_def)
  have fields: "cmap m' = (cmap m)(b \<mapsto> s)" "idle m' = idle m" "spare m' = spare m"
    "dirty_list m' = dirty_list m" "dev m' = dev m" "frames m' = frames m" "io.more m' = io.more m"
    using f by (simp_all add: m' put_bytes_def inst n_def)
  have pg: "pages m' = (pages m)(s_frame (slots m ! s) := media (dev m) (actual (dev m) b))"
    using new(2) f(7) by (simp add: m' put_bytes_def inst n_def)
  have own: "owned_frame m' = owned_frame m" by (simp add: owned_frame_def fun_eq_iff fields)
  have inj: "inj_on (\<lambda>t. s_frame (slots m ! t)) (set ys \<union> set (s # idle m))" using slots_okD(6) [OF ok] by simp
  have sb: "slot_bytes m' t = slot_bytes m t" if "t \<in> set ys" for t
  proof -
    have "s_frame (slots m ! t) \<noteq> s_frame (slots m ! s)"
      using inj that s(2) unfolding inj_on_def by (metis Un_iff list.set_intros(1))
    then show ?thesis using old [of t] lt [of t] that s(2) by (simp add: slot_bytes_def pg) (metis)
  qed
  have sbs: "slot_bytes m' s = media (dev m) (actual (dev m) b)" by (simp add: slot_bytes_def pg new)
  have "s \<noteq> NIL" using s(1) env by (simp add: env_ok_def)
  have "lru m' (s # ys)"
  proof -
    have "lru n ys" using lru s(2) by (simp add: lru_def n_def dll_update_other)
    then have "lru (push_front s n) (s # ys)"
      using s \<open>s \<noteq> NIL\<close> by (intro lru_push_front) (simp_all add: nn)
    then show ?thesis by (simp add: lru_def m' put_bytes_def inst)
  qed
  moreover have "slots_ok m' (s # ys)"
  proof (rule slots_okI)
    show "distinct ((s # ys) @ idle m' @ spare m')" using slots_okD(1) [OF ok] by (auto simp: fields)
    show "set ((s # ys) @ idle m' @ spare m') = {..<length (slots m')}"
      using slots_okD(2) [OF ok] by (auto simp: fields len)
    show "cmap m' c = Some t \<longleftrightarrow> t \<in> set (s # ys) \<and> s_block (slots m' ! t) = c" for c t
    proof (cases "t = s")
      case True
      then show ?thesis using slots_okD(3) [OF ok, of c s] s(2) new(1) by (auto simp: fields)
    next
      case False
      then show ?thesis using slots_okD(3) [OF ok, of c t] old [of t] lt [of t] none by (auto simp: fields)
    qed
    show "s_block (slots m' ! t) < 2 ^ 64" if "t \<in> set (s # ys)" for t
      using that slots_okD(4) [OF ok, of t] old [of t] lt [of t] new(1) b by (cases "t = s") auto
    show "owned_frame m' (s_frame (slots m' ! t))" if "t \<in> set (s # ys) \<union> set (idle m')" for t
    proof -
      have "owned_frame m (s_frame (slots m ! t))"
        using that slots_okD(5) [OF ok, of t] by (simp add: fields owned_frame_def)
      then show ?thesis using old [of t] new(2) lt [of t] that unfolding own fields by (cases "t = s") auto
    qed
    have "inj_on (\<lambda>t. s_frame (slots m' ! t)) (set ys \<union> set (s # idle m)) =
        inj_on (\<lambda>t. s_frame (slots m ! t)) (set ys \<union> set (s # idle m))"
      using old new(2) lt by (intro inj_on_cong) (metis Un_iff set_ConsD)
    moreover have "set (s # ys) \<union> set (idle m') = set ys \<union> set (s # idle m)" by (auto simp: fields)
    ultimately show "inj_on (\<lambda>t. s_frame (slots m' ! t)) (set (s # ys) \<union> set (idle m'))" using inj by simp
    show "t \<in> set (s # ys) \<and> t \<in> set (dirty_list m')" if "t < length (slots m')" "s_dirty (slots m' ! t)" for t
      using that slots_okD(7) [OF ok, of t] old [of t] new(3) by (cases "t = s") (auto simp: fields len)
    show "t < length (slots m')" if "t \<in> set (dirty_list m')" for t
      using that slots_okD(8) [OF ok, of t] by (simp add: fields len)
  qed
  moreover have "bytes_ok chk m' (s # ys)"
  proof -
    have "bytes_ok chk m ys" using rep by (simp add: cache_rep_def bytes_ok_def slot_bytes_def)
    then have "bytes_ok chk m' ys"
      using old lt sb s(2) unfolding bytes_ok_def fields by (metis (no_types, lifting) UnI1)
    then show ?thesis using new sbs env by (simp add: bytes_ok_def fields env_ok_def)
  qed
  moreover have "env_ok m'" using env by (simp add: env_ok_def fields len)
  ultimately show "cache_rep chk m' (s # ys)" by (simp add: cache_rep_def)
  show "cmap m' b = Some s" by (simp add: fields)
  show "view m' = view m"
  proof
    fix c
    have "slot_bytes m' t = slot_bytes m t" if "cmap m c = Some t" for t
      using that slots_okD(3) [OF ok, of c t] sb by simp
    then show "view m' c = view m c"
      using none sbs by (cases "cmap m c") (auto simp: view_def fields)
  qed
  have "dirty_set m' \<subseteq> dirty_set m"
    unfolding dirty_set_def len using old new(3) by (intro Collect_mono) metis
  then show "quiet B m m'" by (intro quiet_dirty_mono) (auto simp: fields)
qed

lemma rep_write_slot:
  assumes rep: "cache_rep chk m xs" and s: "s \<in> set xs" and buf: "length buf = BLOCK_SIZE" "c \<longrightarrow> chk buf"
    and m': "m' = write_slot s buf c m"
  shows "cache_rep chk m' xs" "view m' = (view m)(s_block (slots m ! s) := buf)"
    "s_block (slots m ! s) \<in> B \<Longrightarrow> quiet B m m'"
proof -
  from rep have ok: "slots_ok m xs" and lru: "lru m xs" and env: "env_ok m" by (simp_all add: cache_rep_def)
  have slt: "s < length (slots m)" by (rule cache_repD(1) [OF rep s])
  have lt: "t < length (slots m)" if "t \<in> set xs \<union> set (idle m)" for t using slots_okD(2) [OF ok] that by auto
  have len: "length (slots m') = length (slots m)" by (simp add: m' write_slot_def put_bytes_def Let_def)
  have fl: "s_block (slots m' ! t) = s_block (slots m ! t)" "s_frame (slots m' ! t) = s_frame (slots m ! t)"
    "s_prev (slots m' ! t) = s_prev (slots m ! t)" "s_next (slots m' ! t) = s_next (slots m ! t)"
    "s_dirty (slots m' ! t) \<longleftrightarrow> t = s \<or> s_dirty (slots m ! t)"
    "s_checked (slots m' ! t) \<longleftrightarrow> (if t = s then c else s_checked (slots m ! t))" for t
    using slt by (cases "t = s"; simp add: m' write_slot_def put_bytes_def Let_def)+
  have fields: "cmap m' = cmap m" "idle m' = idle m" "spare m' = spare m" "dev m' = dev m" "frames m' = frames m"
    "io.more m' = io.more m" "lru_head m' = lru_head m" "lru_tail m' = lru_tail m"
    "pages m' = (pages m)(s_frame (slots m ! s) := buf)"
    using slt by (simp_all add: m' write_slot_def put_bytes_def Let_def)
  have dl: "set (dirty_list m') = set (dirty_list m) \<union> (if s_dirty (slots m ! s) then {} else {s})"
    using slt by (simp add: m' write_slot_def put_bytes_def Let_def)
  have own: "owned_frame m' = owned_frame m" by (simp add: owned_frame_def fun_eq_iff fields)
  have sb: "slot_bytes m' t = (if t = s then buf else slot_bytes m t)" if "t \<in> set xs" for t
  proof -
    have "s_frame (slots m ! t) \<noteq> s_frame (slots m ! s)" if "t \<noteq> s"
      using slots_okD(6) [OF ok] that \<open>t \<in> set xs\<close> s unfolding inj_on_def by blast
    then show ?thesis by (simp add: slot_bytes_def fl fields)
  qed
  have "dll (slots m') NIL xs NIL = dll (slots m) NIL xs NIL" by (rule dll_cong) (simp add: fl)
  then have "lru m' xs" using lru by (simp add: lru_def fields len)
  moreover have "slots_ok m' xs"
  proof (rule slots_okI)
    show "distinct (xs @ idle m' @ spare m')" "set (xs @ idle m' @ spare m') = {..<length (slots m')}"
      using slots_okD(1,2) [OF ok] by (simp_all add: fields len)
    show "cmap m' b = Some t \<longleftrightarrow> t \<in> set xs \<and> s_block (slots m' ! t) = b" for b t
      unfolding fields fl by (rule slots_okD(3) [OF ok])
    show "s_block (slots m' ! t) < 2 ^ 64" if "t \<in> set xs" for t
      unfolding fl using that by (rule slots_okD(4) [OF ok])
    show "owned_frame m' (s_frame (slots m' ! t))" if "t \<in> set xs \<union> set (idle m')" for t
      using slots_okD(5) [OF ok] that unfolding own fl fields by blast
    show "inj_on (\<lambda>t. s_frame (slots m' ! t)) (set xs \<union> set (idle m'))"
      using slots_okD(6) [OF ok] unfolding fl fields .
    show "t \<in> set xs \<and> t \<in> set (dirty_list m')" if "t < length (slots m')" "s_dirty (slots m' ! t)" for t
      using that slots_okD(7) [OF ok, of t] slots_okD(7) [OF ok slt] s unfolding fl dl len by auto
    show "t < length (slots m')" if "t \<in> set (dirty_list m')" for t
      using that slots_okD(8) [OF ok, of t] slt unfolding dl len by (auto split: if_splits)
  qed
  moreover have "bytes_ok chk m' xs"
    using rep sb buf unfolding cache_rep_def bytes_ok_def fields fl by simp
  moreover have "env_ok m'" using env by (simp add: env_ok_def fields len)
  ultimately show "cache_rep chk m' xs" by (simp add: cache_rep_def)
  show "view m' = (view m)(s_block (slots m ! s) := buf)"
  proof
    fix b
    show "view m' b = ((view m)(s_block (slots m ! s) := buf)) b"
    proof (cases "b = s_block (slots m ! s)")
      case True
      then have "cmap m b = Some s" using s slots_okD(3) [OF ok] by simp
      then show ?thesis using True sb s slots_okD(4) [OF ok s] by (simp add: view_def fields)
    next
      case False
      then have "slot_bytes m' t = slot_bytes m t" if "cmap m b = Some t" for t
        using that slots_okD(3) [OF ok, of b t] sb [of t] by auto
      then show ?thesis using False by (cases "cmap m b") (simp_all add: view_def fields)
    qed
  qed
  show "quiet B m m'" if "s_block (slots m ! s) \<in> B"
  proof (rule quiet_dirty_mono)
    show "dirty_set m' \<subseteq> dirty_set m \<union> B" using that unfolding dirty_set_def fl len by auto
  qed (simp_all add: fields)
qed

text \<open>A miss: the slot taken for the block, filled with what the device holds.\<close>

lemma take_ready:
  assumes rep: "cache_rep chk m xs" and none: "cmap m b = None" and b: "b < 2 ^ 64"
    and tk: "cache_take b m = (r, m1)"
  shows "case r of
      Inl e \<Rightarrow> cache_inv chk m1 \<and> view m1 = view m \<and> quiet B m m1
    | Inr s \<Rightarrow> let m2 = put_bytes s (view m b) m1
              in (\<exists>ys. cache_rep chk m2 ys \<and> s \<in> set ys) \<and> view m2 = view m \<and> quiet B m m2 \<and> s_block (slots m2 ! s) = b"
proof -
  obtain fr m0 where fs: "find_slot m = (fr, m0)" by fastforce
  note rd = find_slot_ready [OF rep fs, unfolded slot_ready_def]
  show ?thesis
  proof (cases fr)
    case (Inl e)
    then have "r = Inl e" "m1 = m0" using tk fs by (auto simp: cache_take_def bindE_def)
    then show ?thesis using rd Inl by (auto simp: slot_ready_def)
  next
    case (Inr s)
    then have r: "r = Inr s" "m1 = install s b m0" using tk fs by (auto simp: cache_take_def bindE_def)
    from rd Inr obtain ys where ys: "cache_rep chk (m0\<lparr>idle := s # idle m0\<rparr>) ys" and none0: "cmap m0 b = None"
      and v0: "view m0 = view m" and q0: "quiet B m m0" using none by auto
    have vb: "view m b = media (dev m0) (actual (dev m0) b)"
      using none0 b v0 [symmetric] by (simp add: view_def)
    define m2 where "m2 = put_bytes s (view m b) m1"
    have "m2 = put_bytes s (media (dev m0) (actual (dev m0) b)) (install s b m0)" by (simp add: m2_def r vb)
    note i = rep_install [OF ys none0 b this]
    have "s_block (slots m2 ! s) = b" using i(4) cache_repD(4) [OF i(1)] by blast
    moreover have "view m2 = view m" using i(2) v0 by simp
    moreover have "quiet B m m2" using quiet_trans [OF q0 i(3)] .
    moreover have "cache_rep chk m2 (s # ys) \<and> s \<in> set (s # ys)" using i(1) by simp
    ultimately show ?thesis unfolding r(1) sum.case Let_def m2_def [symmetric] by blast
  qed
qed

lemma drv_read_cases:
  assumes "drv_read b d = (r, d')"
  shows "same_disk d d'" "media d' = media d" "unflushed d' = unflushed d" "r = Inr buf \<Longrightarrow> buf = media d b"
  using assms by (auto simp: drv_read_def tick_def same_disk_def split: outcome.splits)

lemma rep_counters [simp]:
  "cache_rep chk (m\<lparr>cache_hits := h\<rparr>) xs = cache_rep chk m xs"
  "cache_rep chk (m\<lparr>cache_misses := h\<rparr>) xs = cache_rep chk m xs"
  "view (m\<lparr>cache_hits := h\<rparr>) = view m" "view (m\<lparr>cache_misses := h\<rparr>) = view m"
  "quiet B m (m'\<lparr>cache_hits := h\<rparr>) = quiet B m m'" "quiet B m (m'\<lparr>cache_misses := h\<rparr>) = quiet B m m'"
  by (simp_all add: cache_rep_def lru_def slots_ok_def bytes_ok_def env_ok_def owned_frame_def slot_bytes_def
      view_def fun_eq_iff quiet_def dirty_set_def split: option.splits)

lemma rep_dev_same:
  assumes "cache_rep chk m xs" and "same_disk (dev m) d" and "media d = media (dev m)" and "unflushed d = unflushed (dev m)"
  shows "cache_rep chk (m\<lparr>dev := d\<rparr>) xs" "view (m\<lparr>dev := d\<rparr>) = view m" "quiet B m (m\<lparr>dev := d\<rparr>)"
proof -
  have "wrote_back m xs d" using assms by (simp add: wrote_back_def same_disk_def)
  then show "cache_rep chk (m\<lparr>dev := d\<rparr>) xs" "view (m\<lparr>dev := d\<rparr>) = view m" by (rule rep_wrote_back [OF assms(1)])+
  show "quiet B m (m\<lparr>dev := d\<rparr>)" using assms by (simp add: quiet_def dirty_set_def)
qed

lemma cache_read_spec:
  assumes "cache_inv chk m" and b: "b < 2 ^ 64" and rd: "cache_read b m = (r, m')"
  shows "cache_inv chk m'" "view m' = view m" "quiet B m m'" "r = Inr buf \<Longrightarrow> buf = view m b"
proof -
  obtain xs where rep: "cache_rep chk m xs" using assms(1) by (auto simp: cache_inv_def)
  have "cache_inv chk m' \<and> view m' = view m \<and> quiet B m m' \<and> (\<forall>buf. r = Inr buf \<longrightarrow> buf = view m b)"
  proof (cases "cmap m b")
    case (Some s)
    then have s: "s \<in> set xs" "s_block (slots m ! s) = b" using cache_repD(4) [OF rep] by auto
    note t = touch_rep [OF rep s(1)]
    have "r = Inr (slot_bytes (touch s m) s)" "m' = (touch s m)\<lparr>cache_hits := cache_hits (touch s m) + 1\<rparr>"
      using rd Some by (auto simp: cache_read_def Let_def)
    moreover have "slot_bytes (touch s m) s = view m b"
      using same_but_links_bytes [OF t(2) cache_repD(1) [OF rep s(1)]] view_mapped [OF rep s(1)] s(2) by simp
    ultimately show ?thesis using t view_links [OF rep t(2)] quiet_links [OF t(2)] by (auto simp: cache_inv_def)
  next
    case None
    define m0 where "m0 = m\<lparr>cache_misses := cache_misses m + 1\<rparr>"
    have rep0: "cache_rep chk m0 xs" using rep by (simp add: m0_def)
    obtain rr d where rb: "read_block b (dev m0) = (rr, d)" by fastforce
    note dr = drv_read_cases [OF rb [unfolded read_block_def]]
    define m1 where "m1 = m0\<lparr>dev := d\<rparr>"
    note one = rep_dev_same [OF rep0 dr(1-3), folded m1_def]
    have v1: "view m1 = view m" using one(2) by (simp add: m0_def)
    have q1: "quiet B m m1" using quiet_trans [of B m m0 m1] one(3) by (simp add: m0_def)
    show ?thesis
    proof (cases rr)
      case (Inl e)
      then have "r = Inl (Disk e)" "m' = m1" using rd None rb
        by (auto simp: cache_read_def bindE_def on_dev_def m0_def m1_def)
      then show ?thesis using one(1) v1 q1 by (auto simp: cache_inv_def)
    next
      case (Inr buf)
      have "buf = view m b" using dr(4) Inr None b by (simp add: view_def m0_def)
      obtain tr m2 where tk: "cache_take b m1 = (tr, m2)" by fastforce
      have none1: "cmap m1 b = None" using None by (simp add: m1_def m0_def)
      note rdy = take_ready [OF one(1) none1 b tk]
      show ?thesis
      proof (cases tr)
        case (Inl e)
        then have "r = Inl e" "m' = m2" using rd None rb Inr tk
          by (auto simp: cache_read_def bindE_def on_dev_def m0_def m1_def)
        then show ?thesis using rdy [of B] Inl v1 q1 quiet_trans by auto
      next
        case (Inr s)
        then have "r = Inr buf" "m' = put_bytes s (view m1 b) m2"
          using rd None rb \<open>rr = Inr buf\<close> tk \<open>buf = view m b\<close> v1
          by (auto simp: cache_read_def bindE_def on_dev_def m0_def m1_def)
        then show ?thesis using rdy [of B] Inr v1 q1 \<open>buf = view m b\<close> quiet_trans
          by (auto simp: Let_def cache_inv_def)
      qed
    qed
  qed
  then show "cache_inv chk m'" "view m' = view m" "quiet B m m'" "r = Inr buf \<Longrightarrow> buf = view m b" by blast+
qed

lemma write_slot_put: "s < length (slots m) \<Longrightarrow> write_slot s buf c (put_bytes s old m) = write_slot s buf c m"
  by (simp add: write_slot_def put_bytes_def set_slot_def Let_def)

lemma write_as_spec:
  assumes "cache_inv chk m" and b: "b < 2 ^ 64" and buf: "length buf = BLOCK_SIZE" "c \<longrightarrow> chk buf"
    and w: "write_as b buf c m = (r, m')"
  shows "cache_inv chk m'" "r = Inr u \<Longrightarrow> view m' = (view m)(b := buf)" "r = Inl e \<Longrightarrow> view m' = view m"
    "b \<in> B \<Longrightarrow> quiet B m m'"
proof -
  obtain xs where rep: "cache_rep chk m xs" using assms(1) by (auto simp: cache_inv_def)
  have "cache_inv chk m' \<and> (r = Inr () \<longrightarrow> view m' = (view m)(b := buf)) \<and> (\<forall>e. r = Inl e \<longrightarrow> view m' = view m) \<and>
     (b \<in> B \<longrightarrow> quiet B m m')"
  proof (cases "cmap m b")
    case (Some s)
    then have s: "s \<in> set xs" "s_block (slots m ! s) = b" using cache_repD(4) [OF rep] by auto
    note t = touch_rep [OF rep s(1)]
    obtain ys where ys: "cache_rep chk (touch s m) ys" "s \<in> set ys" using t(1) s(1) by auto
    have r: "r = Inr ()" "m' = write_slot s buf c (touch s m)" using w Some by (auto simp: write_as_def bindE_def)
    have "s_block (slots (touch s m) ! s) = b"
      using same_but_links_slots(2) [OF t(2) cache_repD(1) [OF rep s(1)]] s(2) by simp
    note ws = rep_write_slot [OF ys buf r(2), unfolded this]
    then show ?thesis using r(1) view_links [OF rep t(2)] quiet_trans [OF quiet_links [OF t(2)]]
      by (auto simp: cache_inv_def)
  next
    case None
    obtain tr m1 where tk: "cache_take b m = (tr, m1)" by fastforce
    note rdy = take_ready [OF rep None b tk]
    show ?thesis
    proof (cases tr)
      case (Inl e)
      then have "r = Inl e" "m' = m1" using w None tk by (auto simp: write_as_def bindE_def)
      then show ?thesis using rdy [of B] Inl by auto
    next
      case (Inr s)
      define m2 where "m2 = put_bytes s (view m b) m1"
      obtain ys where ys: "cache_rep chk m2 ys" "s \<in> set ys" and v2: "view m2 = view m" and q2: "quiet B m m2"
        and sb: "s_block (slots m2 ! s) = b"
        using rdy [of B] Inr by (auto simp: Let_def m2_def)
      have "s < length (slots m1)" using cache_repD(1) [OF ys] by (simp add: m2_def put_bytes_def)
      then have r: "r = Inr ()" "m' = write_slot s buf c m2"
        using w None tk Inr by (auto simp: write_as_def bindE_def m2_def write_slot_put)
      note ws = rep_write_slot [OF ys buf r(2), unfolded sb]
      then show ?thesis using r(1) v2 quiet_trans [OF q2] by (auto simp: cache_inv_def)
    qed
  qed
  then show "cache_inv chk m'" "r = Inr u \<Longrightarrow> view m' = (view m)(b := buf)" "r = Inl e \<Longrightarrow> view m' = view m"
    "b \<in> B \<Longrightarrow> quiet B m m'" by auto
qed

lemma rep_mark_checked:
  assumes rep: "cache_rep chk m xs" and s: "s \<in> set xs" and c: "chk (slot_bytes m s)"
    and m': "m' = set_slot s (s_checked_update (\<lambda>_. True)) m"
  shows "cache_rep chk m' xs" "view m' = view m" "quiet B m m'"
proof -
  have slt: "s < length (slots m)" by (rule cache_repD(1) [OF rep s])
  have fl: "s_block (slots m' ! t) = s_block (slots m ! t)" "s_frame (slots m' ! t) = s_frame (slots m ! t)"
    "s_prev (slots m' ! t) = s_prev (slots m ! t)" "s_next (slots m' ! t) = s_next (slots m ! t)"
    "s_dirty (slots m' ! t) = s_dirty (slots m ! t)"
    "s_checked (slots m' ! t) \<longleftrightarrow> t = s \<or> s_checked (slots m ! t)" for t
    using slt by (cases "t = s"; simp add: m')+
  have fields: "cmap m' = cmap m" "idle m' = idle m" "spare m' = spare m" "dev m' = dev m" "frames m' = frames m"
    "io.more m' = io.more m" "lru_head m' = lru_head m" "lru_tail m' = lru_tail m" "pages m' = pages m"
    "dirty_list m' = dirty_list m" "length (slots m') = length (slots m)"
    by (simp_all add: m')
  have own: "owned_frame m' = owned_frame m" by (simp add: owned_frame_def fun_eq_iff fields)
  have sb: "slot_bytes m' = slot_bytes m" by (simp add: slot_bytes_def fun_eq_iff fl fields)
  have "dll (slots m') NIL xs NIL = dll (slots m) NIL xs NIL" by (rule dll_cong) (simp add: fl)
  then have "lru m' xs" using rep by (simp add: cache_rep_def lru_def fields)
  moreover have "slots_ok m' xs" using rep unfolding cache_rep_def slots_ok_def fl fields own by blast
  moreover have "bytes_ok chk m' xs" using rep c unfolding cache_rep_def bytes_ok_def fl fields sb by blast
  moreover have "env_ok m'" using rep by (simp add: cache_rep_def env_ok_def fields)
  ultimately show "cache_rep chk m' xs" by (simp add: cache_rep_def)
  show "view m' = view m" by (rule view_cong) (simp_all add: fields sb)
  show "quiet B m m'" by (rule quiet_dirty_mono) (simp_all add: fields dirty_set_def fl)
qed

lemma read_checked_spec:
  assumes "cache_inv chk m" and b: "b < 2 ^ 64" and rc: "read_checked b chk m = (r, m')"
  shows "cache_inv chk m'" "view m' = view m" "quiet B m m'"
    "r = Inr (buf, v) \<Longrightarrow> buf = view m b \<and> v = chk (view m b)"
proof -
  obtain rr m1 where rd: "cache_read b m = (rr, m1)" by fastforce
  note sp = cache_read_spec [OF assms(1) b rd]
  obtain xs where rep: "cache_rep chk m1 xs" using sp(1) by (auto simp: cache_inv_def)
  have "cache_inv chk m' \<and> view m' = view m \<and> quiet B m m' \<and>
      (\<forall>buf v. r = Inr (buf, v) \<longrightarrow> buf = view m b \<and> v = chk (view m b))"
  proof (cases rr)
    case (Inl e)
    then show ?thesis using rc rd sp(1-3) by (auto simp: read_checked_def bindE_def)
  next
    case (Inr buf)
    then have buf: "buf = view m b" using sp(4) by simp
    show ?thesis
    proof (cases "cmap m1 b")
      case None
      then show ?thesis using rc rd Inr sp(1-3) buf by (auto simp: read_checked_def bindE_def)
    next
      case (Some s)
      then have s: "s \<in> set xs" "s_block (slots m1 ! s) = b" using cache_repD(4) [OF rep] by auto
      then have sb: "slot_bytes m1 s = view m b" using view_mapped [OF rep s(1)] sp(2) by simp
      have c: "s_checked (slots m1 ! s) \<Longrightarrow> chk (view m b)"
        using rep s(1) sb unfolding cache_rep_def bytes_ok_def by metis
      note mk = rep_mark_checked [OF rep s(1) _ refl, unfolded sb]
      consider "s_checked (slots m1 ! s)" | "\<not> s_checked (slots m1 ! s)" "\<not> chk buf"
        | "\<not> s_checked (slots m1 ! s)" "chk buf" by blast
      then show ?thesis
      proof cases
        case 1
        then show ?thesis using rc rd Inr Some sp(1-3) buf c by (auto simp: read_checked_def bindE_def)
      next
        case 2
        then show ?thesis using rc rd Inr Some sp(1-3) buf by (auto simp: read_checked_def bindE_def)
      next
        case 3
        then have "r = Inr (buf, True)" "m' = set_slot s (s_checked_update (\<lambda>_. True)) m1"
          using rc rd Inr Some by (auto simp: read_checked_def bindE_def)
        moreover have "quiet B m (set_slot s (s_checked_update (\<lambda>_. True)) m1)"
          using quiet_trans [OF sp(3) mk(3)] 3 buf by simp
        ultimately show ?thesis using mk(1,2) 3 buf sp(2) by (auto simp: cache_inv_def)
      qed
    qed
  qed
  then show "cache_inv chk m'" "view m' = view m" "quiet B m m'"
    "r = Inr (buf, v) \<Longrightarrow> buf = view m b \<and> v = chk (view m b)" by blast+
qed

section \<open>Flushing\<close>

text \<open>A batch of driver writes: what reached the device is bytes of the batch, and all of them did when the
  batch succeeds.\<close>

definition batch_effect :: "(nat \<times> bytes) list \<Rightarrow> block_device \<Rightarrow> blk_error + unit \<Rightarrow> block_device \<Rightarrow> bool" where
  "batch_effect items d r d' \<longleftrightarrow> same_disk d d' \<and>
     (\<forall>b. media d' b = media d b \<or> (b, media d' b) \<in> set items) \<and>
     (\<exists>ws. unflushed d' = unflushed d @ ws \<and> fst ` set ws \<subseteq> fst ` set items) \<and>
     (r = Inr () \<longrightarrow> distinct (map fst items) \<longrightarrow> (\<forall>(b, buf) \<in> set items. media d' b = buf))"

lemma batch_effect_Cons:
  assumes one: "drv_write b buf d = (r1, d1)" and rest: "batch_effect items d1 r2 d2" and r: "r = Inr () \<longrightarrow> r1 = Inr () \<and> r2 = Inr ()"
  shows "batch_effect ((b, buf) # items) d r d2"
proof -
  note w = drv_write_cases [OF one]
  from rest obtain ws where sd: "same_disk d1 d2" and md: "\<And>b. media d2 b = media d1 b \<or> (b, media d2 b) \<in> set items"
    and ws: "unflushed d2 = unflushed d1 @ ws" "fst ` set ws \<subseteq> fst ` set items"
    and all: "r2 = Inr () \<Longrightarrow> distinct (map fst items) \<Longrightarrow> \<forall>(b, buf) \<in> set items. media d2 b = buf"
    unfolding batch_effect_def by blast
  have "same_disk d d2" using w(1) sd by (simp add: same_disk_def)
  moreover have "media d2 c = media d c \<or> (c, media d2 c) \<in> set ((b, buf) # items)" for c
    using md [of c] w(2) by (cases "c = b") auto
  moreover have "\<exists>ws. unflushed d2 = unflushed d @ ws \<and> fst ` set ws \<subseteq> fst ` set ((b, buf) # items)"
    using ws w(2) by (auto simp: subset_insertI2)
  moreover have "\<forall>(c, x) \<in> set ((b, buf) # items). media d2 c = x" if "r = Inr ()" "distinct (map fst ((b, buf) # items))"
  proof -
    have nb: "b \<notin> fst ` set items" and ds: "distinct (map fst items)" using that(2) by auto
    have "(b, x) \<notin> set items" for x using nb by force
    then have "media d2 b = media d1 b" using md [of b] by blast
    then show ?thesis using all r that(1) ds w(2) by auto
  qed
  ultimately show ?thesis unfolding batch_effect_def by blast
qed

lemma batch_effect_Nil: "batch_effect [] d r d"
  by (auto simp: batch_effect_def)

lemma batch_effect_mono: "batch_effect [] d1 r d2 \<Longrightarrow> batch_effect items d1 (Inl e) d2"
  by (auto simp: batch_effect_def)

lemma tryE_batch: "tryE (\<lambda>(b, buf). drv_write b buf) items d = (r, d') \<Longrightarrow> batch_effect items d r d'"
proof (induction items arbitrary: d r d')
  case Nil
  then show ?case by (simp add: effects batch_effect_Nil)
next
  case (Cons it items)
  obtain b buf where it: "it = (b, buf)" by (cases it)
  obtain r1 d1 where one: "drv_write b buf d = (r1, d1)" by fastforce
  obtain r2 d2 where two: "tryE (\<lambda>(b, buf). drv_write b buf) items d1 = (r2, d2)" by fastforce
  have "d' = d2" "r = Inr () \<longrightarrow> r1 = Inr () \<and> r2 = Inr ()"
    using Cons.prems one two it by (auto split: sum.splits)
  then show ?case using batch_effect_Cons [OF one Cons.IH [OF two]] it by simp
qed

lemma forE_batch: "forE (\<lambda>(b, buf). drv_write b buf) items d = (r, d') \<Longrightarrow> batch_effect items d r d'"
proof (induction items arbitrary: d r d')
  case Nil
  then show ?case by (simp add: effects batch_effect_Nil)
next
  case (Cons it items)
  obtain b buf where it: "it = (b, buf)" by (cases it)
  obtain r1 d1 where one: "drv_write b buf d = (r1, d1)" by fastforce
  show ?case
  proof (cases r1)
    case (Inl e)
    then have "d' = d1" "r = Inl e" using Cons.prems one it by (auto simp: bindE_def)
    moreover have "batch_effect items d1 (Inl e) d1" by (rule batch_effect_mono) (rule batch_effect_Nil)
    ultimately show ?thesis using batch_effect_Cons [OF one] it by (metis Inl_Inr_False)
  next
    case (Inr u)
    then have "forE (\<lambda>(b, buf). drv_write b buf) items d1 = (r, d')"
      using Cons.prems one it by (auto simp: bindE_def)
    from Cons.IH [OF this] show ?thesis using batch_effect_Cons [OF one] Inr it by simp
  qed
qed

lemma tryE_map: "tryE (\<lambda>(b, buf). f b buf) (map (\<lambda>(b, buf). (g b, buf)) items) = tryE (\<lambda>(b, buf). f (g b) buf) items"
  by (induction items) (auto simp: fun_eq_iff split: prod.splits sum.splits)

lemma forE_map: "forE (\<lambda>(b, buf). f b buf) (map (\<lambda>(b, buf). (g b, buf)) items) = forE (\<lambda>(b, buf). f (g b) buf) items"
  by (induction items) auto

lemma write_blocks_batch_effect:
  assumes "write_blocks_batch items d = (r, d')"
  shows "batch_effect (map (\<lambda>(b, buf). (actual d b, buf)) items) d r d'"
proof -
  let ?it = "map (\<lambda>(b, buf). (actual d b, buf)) items"
  show ?thesis
  proof (cases "items = []")
    case True
    then show ?thesis using assms by (simp add: write_blocks_batch_def batch_effect_Nil)
  next
    case False
    show ?thesis
    proof (cases "nvme_available d")
      case True
      have "tryE (\<lambda>(b, buf). drv_write b buf) ?it d = (r, d')"
        unfolding tryE_map [of drv_write] using assms False True by (simp add: write_blocks_batch_def)
      then show ?thesis by (rule tryE_batch)
    next
      case virtio: False
      have "forE (\<lambda>(b, buf). drv_write b buf) ?it d = (r, d')"
        unfolding forE_map [of drv_write] using assms False virtio by (simp add: write_blocks_batch_def)
      then show ?thesis by (rule forE_batch)
    qed
  qed
qed

lemma distinct_remdups_adj_sorted: "sorted xs \<Longrightarrow> distinct (remdups_adj (xs :: 'b :: linorder list))"
proof (induction xs rule: remdups_adj.induct)
  case (3 x y xs)
  then have "x \<noteq> y \<Longrightarrow> x \<notin> set (remdups_adj (y # xs))" by (auto dest: antisym)
  with 3 show ?case by auto
qed auto

lemma clean_slots_rep:
  "cache_rep chk m xs \<Longrightarrow> set L \<subseteq> set xs \<Longrightarrow>
   (\<forall>s \<in> set L. slot_bytes m s = media (dev m) (actual (dev m) (s_block (slots m ! s)))) \<Longrightarrow>
   cache_rep chk (clean_slots L m) xs \<and> view (clean_slots L m) = view m \<and> dev (clean_slots L m) = dev m \<and>
   io.more (clean_slots L m) = io.more m \<and> length (slots (clean_slots L m)) = length (slots m) \<and>
   (\<forall>t. s_dirty (slots (clean_slots L m) ! t) \<longleftrightarrow> t \<notin> set L \<and> s_dirty (slots m ! t))"
proof (induction L arbitrary: m)
  case Nil
  then show ?case by (simp add: clean_slots_def)
next
  case (Cons s L)
  let ?m = "set_slot s (s_dirty_update (\<lambda>_. False)) m"
  have s: "s \<in> set xs" "slot_bytes m s = media (dev m) (actual (dev m) (s_block (slots m ! s)))"
    using Cons.prems by simp_all
  note c = rep_clean [OF Cons.prems(1) s]
  have lt: "s < length (slots m)" by (rule cache_repD(1) [OF Cons.prems(1) s(1)])
  have blk: "s_block (slots ?m ! t) = s_block (slots m ! t)" for t using lt by (cases "t = s") simp_all
  have d: "s_dirty (slots ?m ! t) \<longleftrightarrow> t \<noteq> s \<and> s_dirty (slots m ! t)" for t using lt by (cases "t = s") simp_all
  have "\<forall>t \<in> set L. slot_bytes ?m t = media (dev ?m) (actual (dev ?m) (s_block (slots ?m ! t)))"
    using Cons.prems(3) unfolding c(3) blk by simp
  from Cons.IH [OF c(1) _ this] Cons.prems(2) d c(2) show ?case by (auto simp: clean_slots_def)
qed

lemma rep_no_dirty:
  assumes "cache_rep chk m xs" and "\<And>t. t < length (slots m) \<Longrightarrow> \<not> s_dirty (slots m ! t)"
  shows "cache_rep chk (m\<lparr>dirty_list := []\<rparr>) xs"
proof -
  have "slots_ok (m\<lparr>dirty_list := []\<rparr>) xs"
    using assms unfolding cache_rep_def slots_ok_def owned_frame_def by simp
  then show ?thesis using assms(1) unfolding cache_rep_def lru_def bytes_ok_def env_ok_def slot_bytes_def by simp
qed

lemma dirty_list_update [simp]:
  "view (m\<lparr>dirty_list := l\<rparr>) = view m" "quiet B m (m'\<lparr>dirty_list := l\<rparr>) = quiet B m m'"
  "dirty_set (m\<lparr>dirty_list := l\<rparr>) = dirty_set m"
  by (simp_all add: view_def fun_eq_iff slot_bytes_def quiet_def dirty_set_def split: option.splits)

lemma view_clean: 
  assumes "cache_rep chk m xs" and "\<And>t. t < length (slots m) \<Longrightarrow> \<not> s_dirty (slots m ! t)" and "b < 2 ^ 64"
  shows "media (dev m) (actual (dev m) b) = view m b"
proof (cases "cmap m b")
  case None
  then show ?thesis using assms(3) by (simp add: view_def)
next
  case (Some s)
  then have s: "s \<in> set xs" "s_block (slots m ! s) = b" using cache_repD(4) [OF assms(1)] by auto
  have "\<not> s_dirty (slots m ! s)" using assms(2) cache_repD(1) [OF assms(1) s(1)] .
  with cache_repD(7) [OF assms(1) s(1)] s(2) show ?thesis using Some assms(3) by (simp add: view_def)
qed

text \<open>The slots \<open>flush\<close> writes are exactly the dirty ones.\<close>

definition flush_slots :: "'a io_scheme \<Rightarrow> nat list" where
  "flush_slots m = remdups_adj (sort (filter (\<lambda>s. s_dirty (slots m ! s)) (dirty_list m)))"

lemma flush_slots:
  assumes "cache_rep chk m xs"
  shows "distinct (flush_slots m)" "set (flush_slots m) = {s. s < length (slots m) \<and> s_dirty (slots m ! s)}"
    "set (flush_slots m) \<subseteq> set xs"
proof -
  show "distinct (flush_slots m)" by (simp add: flush_slots_def distinct_remdups_adj_sorted)
  from assms have ok: "slots_ok m xs" by (simp add: cache_rep_def)
  show eq: "set (flush_slots m) = {s. s < length (slots m) \<and> s_dirty (slots m ! s)}"
    using slots_okD(7,8) [OF ok] by (auto simp: flush_slots_def)
  show "set (flush_slots m) \<subseteq> set xs" using slots_okD(7) [OF ok] unfolding eq by blast
qed

definition flush_items :: "'a io_scheme \<Rightarrow> (nat \<times> bytes) list" where
  "flush_items m = map (\<lambda>s. (actual (dev m) (s_block (slots m ! s)), slot_bytes m s)) (flush_slots m)"

lemma distinct_flush_items:
  assumes "cache_rep chk m xs"
  shows "distinct (map fst (flush_items m))"
proof -
  have "inj_on (\<lambda>s. actual (dev m) (s_block (slots m ! s))) (set xs)"
  proof (rule inj_onI)
    fix s t assume st: "s \<in> set xs" "t \<in> set xs"
      "actual (dev m) (s_block (slots m ! s)) = actual (dev m) (s_block (slots m ! t))"
    then have "s_block (slots m ! s) = s_block (slots m ! t)"
      using actual_inj cache_repD(5) [OF assms] by blast
    then show "s = t" using cache_repD(4) [OF assms] st(1,2) by (metis option.inject)
  qed
  then show ?thesis using flush_slots(1,3) [OF assms]
    by (auto simp: flush_items_def distinct_map comp_def intro: inj_on_subset)
qed

lemma flush_device_effect:
  assumes rep: "cache_rep chk m xs" and be: "batch_effect (flush_items m) (dev m) r d"
  shows "cache_rep chk (m\<lparr>dev := d\<rparr>) xs" "view (m\<lparr>dev := d\<rparr>) = view m" "quiet B m (m\<lparr>dev := d\<rparr>)"
    "r = Inr () \<Longrightarrow> s \<in> set (flush_slots m) \<Longrightarrow> media d (actual (dev m) (s_block (slots m ! s))) = slot_bytes m s"
proof -
  note fs = flush_slots [OF rep]
  from be obtain ws where sd: "same_disk (dev m) d"
    and md: "\<And>b. media d b = media (dev m) b \<or> (b, media d b) \<in> set (flush_items m)"
    and ws: "unflushed d = unflushed (dev m) @ ws" "fst ` set ws \<subseteq> fst ` set (flush_items m)"
    and all: "r = Inr () \<Longrightarrow> \<forall>(b, buf) \<in> set (flush_items m). media d b = buf"
    using distinct_flush_items [OF rep] unfolding batch_effect_def by blast
  have "wrote_back m xs d"
    unfolding wrote_back_def
  proof (intro conjI allI)
    show "partition_offset d = partition_offset (dev m)" using sd by (simp add: same_disk_def)
    show "media d b = media (dev m) b \<or> (\<exists>s \<in> set xs. s_dirty (slots m ! s) \<and>
        b = actual (dev m) (s_block (slots m ! s)) \<and> media d b = slot_bytes m s)" for b
      using md [of b] fs(2,3) by (auto simp: flush_items_def)
  qed
  then show "cache_rep chk (m\<lparr>dev := d\<rparr>) xs" "view (m\<lparr>dev := d\<rparr>) = view m" by (rule rep_wrote_back [OF rep])+
  have "fst ` set (flush_items m) \<subseteq> actual (dev m) ` dirty_set m"
    using fs(2) by (auto simp: flush_items_def dirty_set_def)
  with ws(2) have "fst ` set ws \<subseteq> actual (dev m) ` B" if "dirty_set m \<subseteq> B"
    using that by blast
  then show "quiet B m (m\<lparr>dev := d\<rparr>)" using sd ws(1) by (simp add: quiet_def dirty_set_def)
  show "media d (actual (dev m) (s_block (slots m ! s))) = slot_bytes m s" if "r = Inr ()" "s \<in> set (flush_slots m)"
    using all [OF that(1)] that(2) by (auto simp: flush_items_def)
qed

lemma cache_flush_unfold:
  "cache_flush m =
     (if flush_slots m = [] then (Inr (), m\<lparr>dirty_list := []\<rparr>)
      else case write_blocks_batch (map (\<lambda>s. (s_block (slots m ! s), slot_bytes m s)) (flush_slots m)) (dev m) of
             (Inl e, d) \<Rightarrow> (Inl (Disk e), m\<lparr>dev := d\<rparr>)
           | (Inr _, d) \<Rightarrow> (Inr (), (clean_slots (flush_slots m) (m\<lparr>dev := d\<rparr>))\<lparr>dirty_list := []\<rparr>))"
  by (simp add: cache_flush_def flush_slots_def [symmetric] Let_def bindE_def on_dev_def split: prod.splits sum.splits)

lemma cache_flush_spec:
  assumes "cache_inv chk m" and fl: "cache_flush m = (r, m')"
  shows "cache_inv chk m'" "view m' = view m" "quiet B m m'" "r = Inr () \<Longrightarrow> dirty_set m' = {}"
    "r = Inr () \<Longrightarrow> b < 2 ^ 64 \<Longrightarrow> media (dev m') (actual (dev m') b) = view m b"
proof -
  obtain xs where rep: "cache_rep chk m xs" using assms(1) by (auto simp: cache_inv_def)
  note fs = flush_slots [OF rep]
  have core: "(\<exists>ys. cache_rep chk m' ys) \<and> view m' = view m \<and> quiet B m m' \<and>
      (r = Inr () \<longrightarrow> (\<forall>t < length (slots m'). \<not> s_dirty (slots m' ! t)))"
  proof (cases "flush_slots m = []")
    case True
    then have none: "\<And>t. t < length (slots m) \<Longrightarrow> \<not> s_dirty (slots m ! t)" using fs(2) by auto
    have "r = Inr ()" "m' = m\<lparr>dirty_list := []\<rparr>" using fl True by (auto simp: cache_flush_unfold)
    then show ?thesis using rep_no_dirty [OF rep none] none by auto
  next
    case False
    let ?items = "map (\<lambda>s. (s_block (slots m ! s), slot_bytes m s)) (flush_slots m)"
    obtain rb d where wb: "write_blocks_batch ?items (dev m) = (rb, d)" by fastforce
    have "map (\<lambda>(b, buf). (actual (dev m) b, buf)) ?items = flush_items m" by (simp add: flush_items_def)
    then have be: "batch_effect (flush_items m) (dev m) rb d" using write_blocks_batch_effect [OF wb] by simp
    note ef = flush_device_effect [OF rep be]
    show ?thesis
    proof (cases rb)
      case (Inl e)
      then have "r = Inl (Disk e)" "m' = m\<lparr>dev := d\<rparr>" using fl False wb by (auto simp: cache_flush_unfold)
      then show ?thesis using ef(1-3) by auto
    next
      case (Inr u)
      define m1 where "m1 = m\<lparr>dev := d\<rparr>"
      have r: "r = Inr ()" "m' = (clean_slots (flush_slots m) m1)\<lparr>dirty_list := []\<rparr>"
        using fl False wb Inr by (auto simp: cache_flush_unfold m1_def)
      have "same_disk (dev m) d" using be by (simp add: batch_effect_def)
      then have "\<forall>s \<in> set (flush_slots m). slot_bytes m1 s = media (dev m1) (actual (dev m1) (s_block (slots m1 ! s)))"
        using ef(4) Inr by (simp add: m1_def slot_bytes_def same_disk_actual)
      note cl = clean_slots_rep [OF ef(1) [folded m1_def] fs(3) this]
      have none: "\<And>t. t < length (slots (clean_slots (flush_slots m) m1)) \<Longrightarrow> \<not> s_dirty (slots (clean_slots (flush_slots m) m1) ! t)"
        using cl fs(2) by (auto simp: m1_def)
      have q: "quiet B m1 (clean_slots (flush_slots m) m1)"
        using cl none by (intro quiet_dirty_mono) (auto simp: dirty_set_def)
      show ?thesis using r rep_no_dirty [OF _ none] none cl ef(2,3) quiet_trans [OF _ q] by (auto simp: m1_def)
    qed
  qed
  then show "cache_inv chk m'" "view m' = view m" "quiet B m m'" by (auto simp: cache_inv_def)
  show "dirty_set m' = {}" if "r = Inr ()" using core that by (auto simp: dirty_set_def)
  show "media (dev m') (actual (dev m') b) = view m b" if "r = Inr ()" "b < 2 ^ 64"
    using core that view_clean [of chk m' _ b] by metis
qed

section \<open>Forgetting blocks\<close>

lemma unlink_cmap: "cache_unlink s (m\<lparr>cmap := c\<rparr>) = (cache_unlink s m)\<lparr>cmap := c\<rparr>"
  by (simp add: cache_unlink_def set_slot_def Let_def)

lemma unmapped_not_dirty: "cache_inv chk m \<Longrightarrow> cmap m b = None \<Longrightarrow> b \<notin> dirty_set m"
proof
  assume "cache_inv chk m" "cmap m b = None" "b \<in> dirty_set m"
  then obtain xs s where rep: "cache_rep chk m xs" and s: "s < length (slots m)" "s_dirty (slots m ! s)" "b = s_block (slots m ! s)"
    by (auto simp: cache_inv_def dirty_set_def)
  then have "s \<in> set xs" using slots_okD(7) [of m xs s] by (simp add: cache_rep_def)
  then have "cmap m b = Some s" using cache_repD(4) [OF rep] s(3) by blast
  with \<open>cmap m b = None\<close> show False by simp
qed

lemma invalidate_rep:
  assumes rep: "cache_rep chk m xs" and some: "cmap m b = Some s" and m': "m' = invalidate b m"
  shows "\<exists>ys. cache_rep chk m' ys" "view m' = (view m)(b := media (dev m) (actual (dev m) b))" "quiet B m m'"
    "cmap m' = (cmap m)(b := None)" "dev m' = dev m"
proof -
  have s: "s \<in> set xs" "s_block (slots m ! s) = b" using some cache_repD(4) [OF rep] by auto
  then obtain as bs where xs: "xs = as @ s # bs" by (meson split_list)
  define n where "n = (set_slot s (s_dirty_update (\<lambda>_. False)) (cache_unlink s m))
      \<lparr>cmap := (cmap m)(s_block (slots m ! s) := None), idle := s # idle m\<rparr>"
  note d = rep_detach [OF rep [unfolded xs] n_def]
  have f: "idle (cache_unlink s m) = idle m" "dev (cache_unlink s m) = dev m"
    using same_but_links_fields [OF unlink_same_but_links [of m s]] by simp_all
  have eq: "m' = n\<lparr>idle := idle m @ [s]\<rparr>"
    using some s(2) f by (simp add: m' invalidate_def n_def Let_def unlink_cmap set_slot_def)
  have "distinct (idle m @ [s])" "set (idle m @ [s]) = set (idle n)"
    using slots_okD(1) [of n "as @ bs"] d(1) by (auto simp: cache_rep_def n_def)
  then show "\<exists>ys. cache_rep chk m' ys" using rep_idle_perm [OF d(1)] unfolding eq by blast
  show "view m' = (view m)(b := media (dev m) (actual (dev m) b))" using d(2) s(2) by (simp add: eq)
  show "quiet B m m'" using d(3) by (simp add: eq)
  show "cmap m' = (cmap m)(b := None)" "dev m' = dev m" using s(2) f by (simp_all add: eq n_def)
qed

lemma invalidate_spec:
  assumes "cache_inv chk m"
  shows "cache_inv chk (invalidate b m)" "quiet B m (invalidate b m)" "cmap (invalidate b m) b = None"
    "b < 2 ^ 64 \<Longrightarrow> view (invalidate b m) = (view m)(b := media (dev m) (actual (dev m) b))"
    "dev (invalidate b m) = dev m" "b \<notin> dirty_set (invalidate b m)"
proof -
  obtain xs where rep: "cache_rep chk m xs" using assms by (auto simp: cache_inv_def)
  show inv: "cache_inv chk (invalidate b m)"
    using invalidate_rep(1) [OF rep _ refl] assms unfolding cache_inv_def
    by (cases "cmap m b") (auto simp: invalidate_def)
  show "quiet B m (invalidate b m)" "dev (invalidate b m) = dev m"
    using invalidate_rep(3,5) [OF rep _ refl] by (cases "cmap m b"; simp add: invalidate_def)+
  show none: "cmap (invalidate b m) b = None"
    using invalidate_rep(4) [OF rep _ refl] by (cases "cmap m b") (simp_all add: invalidate_def)
  show "b \<notin> dirty_set (invalidate b m)" by (rule unmapped_not_dirty [OF inv none])
  show "view (invalidate b m) = (view m)(b := media (dev m) (actual (dev m) b))" if "b < 2 ^ 64"
  proof (cases "cmap m b")
    case None
    then show ?thesis using that by (simp add: invalidate_def fun_eq_iff view_def)
  next
    case (Some s)
    then show ?thesis using invalidate_rep(2) [OF rep _ refl] by simp
  qed
qed

section \<open>Giving frames back\<close>

lemma give_back_rep:
  assumes rep: "cache_rep chk (m\<lparr>idle := s # idle m\<rparr>) xs" and m': "m' = give_back s m"
  shows "cache_rep chk m' xs" "view m' = view m" "quiet B m m'" "idle m' = idle m" "dev m' = dev m"
    "cmap m' = cmap m" "t < length (slots m) \<Longrightarrow> s_dirty (slots m' ! t) = s_dirty (slots m ! t)"
    "t < length (slots m) \<Longrightarrow> s_prev (slots m' ! t) = s_prev (slots m ! t)"
    "length (slots m') = length (slots m)" "lru_tail m' = lru_tail m"
    "\<exists>k. k \<notin> free_frames (frames m) \<and> free_frames (frames m') = insert k (free_frames (frames m))"
proof -
  let ?f = "s_frame (slots m ! s)"
  from rep have ok: "slots_ok (m\<lparr>idle := s # idle m\<rparr>) xs" and lru: "lru m xs"
    and bk: "bytes_ok chk m xs" and env: "env_ok m"
    by (simp_all add: cache_rep_def lru_def bytes_ok_def slot_bytes_def env_ok_def)
  note o = slots_okD [OF ok, simplified]
  have lt: "s < length (slots m)" using o(2) by auto
  obtain k where k: "?f = k * PAGE_SIZE" "k < memory_top (frames m)" "k \<notin> free_frames (frames m)"
    using o(5) by (auto simp: owned_frame_def)
  have fr: "frames m' = fa_set_free k (frames m)"
    using k(1) by (simp add: m' give_back_def Let_def set_slot_def fa_deallocate_def PAGE_SIZE_def)
  have inv: "fa_inv (frames m)" "memory_top (frames m) \<le> fa_frames (frames m)"
    using env by (auto simp: env_ok_def fa_inv_def)
  show ff: "\<exists>k. k \<notin> free_frames (frames m) \<and> free_frames (frames m') = insert k (free_frames (frames m))"
    using fr k inv(2) by (auto simp: free_frames_set_free)
  show f: "idle m' = idle m" "dev m' = dev m" "cmap m' = cmap m" "length (slots m') = length (slots m)"
    "lru_tail m' = lru_tail m"
    by (simp_all add: m' give_back_def Let_def set_slot_def)
  have g: "spare m' = spare m @ [s]" "pages m' = pages m" "dirty_list m' = dirty_list m" "lru_head m' = lru_head m"
    "io.more m' = io.more m" "slots m' = (slots m)[s := (slots m ! s)\<lparr>s_frame := 0\<rparr>]"
    by (simp_all add: m' give_back_def Let_def set_slot_def)
  show sl: "s_dirty (slots m' ! t) = s_dirty (slots m ! t)" "s_prev (slots m' ! t) = s_prev (slots m ! t)"
    if "t < length (slots m)" for t using that lt by (auto simp: g nth_list_update)
  have ns: "t \<noteq> s" "t < length (slots m)" if "t \<in> set xs \<union> set (idle m)" for t
    using that o(1,2) by auto
  have same: "slots m' ! t = slots m ! t" "slot_bytes m' t = slot_bytes m t" if "t \<in> set xs \<union> set (idle m)" for t
    using ns [OF that] by (simp_all add: g slot_bytes_def)
  have mapped: "t \<in> set xs" if "cmap m b = Some t" for b t using that o(3) by blast
  show "view m' = view m"
    by (rule view_cong) (use mapped same f in auto)
  have own: "owned_frame m' (s_frame (slots m ! t))" if "t \<in> set xs \<union> set (idle m)" for t
  proof -
    have "owned_frame m (s_frame (slots m ! t))" using o(5) [of t] that by (auto simp: owned_frame_def)
    moreover have "s_frame (slots m ! t) \<noteq> ?f"
      using o(6) that ns [OF that] by (metis (no_types, lifting) Diff_iff image_eqI singletonD)
    ultimately show ?thesis using k inv(2) unfolding owned_frame_def fr by (auto simp: free_frames_set_free)
  qed
  have lru': "lru m' xs"
    using lru dll_cong [of xs "slots m'" "slots m"] same f g unfolding lru_def by auto
  have "slots_ok m' xs"
  proof (rule slots_okI)
    show "distinct (xs @ idle m' @ spare m')" "set (xs @ idle m' @ spare m') = {..<length (slots m')}"
      using o(1,2) by (auto simp: f g)
    show "cmap m' b = Some t \<longleftrightarrow> t \<in> set xs \<and> s_block (slots m' ! t) = b" for b t
      unfolding f o(3) using same by auto
    show "s_block (slots m' ! t) < 2 ^ 64" if "t \<in> set xs" for t using that o(4) same by simp
    show "owned_frame m' (s_frame (slots m' ! t))" if "t \<in> set xs \<union> set (idle m')" for t
      using that own same f by simp
    have "inj_on (\<lambda>s. s_frame (slots m ! s)) (set xs \<union> set (idle m))"
      using o(6) by (auto simp: inj_on_def)
    then show "inj_on (\<lambda>s. s_frame (slots m' ! s)) (set xs \<union> set (idle m'))"
      unfolding f by (subst inj_on_cong [of _ _ "\<lambda>s. s_frame (slots m ! s)"]) (use same in auto)
    show "t \<in> set xs \<and> t \<in> set (dirty_list m')" if "t < length (slots m')" "s_dirty (slots m' ! t)" for t
      using that o(7) [of t] sl [of t] f g by simp
    show "t < length (slots m')" if "t \<in> set (dirty_list m')" for t using that o(8) [of t] f g by simp
  qed
  moreover have "bytes_ok chk m' xs" using bk same f unfolding bytes_ok_def by simp
  moreover have "env_ok m'" using env fa_inv_set_free [OF inv(1) k(2)] f unfolding env_ok_def fr by simp
  ultimately show "cache_rep chk m' xs" using lru' by (simp add: cache_rep_def)
  show "quiet B m m'"
    by (rule quiet_dirty_mono) (use f g sl lt in \<open>auto simp: dirty_set_def nth_list_update\<close>)
qed

lemma quiet_idle_left [simp]: "quiet B (m\<lparr>idle := ys\<rparr>) m' = quiet B m m'"
  by (simp add: quiet_def dirty_set_def)

declare release_idle.simps [simp del]

lemma release_idle_rep:
  assumes "cache_rep chk m xs" and "release_idle want m = (n, m')"
  shows "cache_rep chk m' xs \<and> view m' = view m \<and> quiet B m m' \<and> dev m' = dev m \<and> cmap m' = cmap m \<and>
    n = min want (length (idle m)) \<and> idle m' = take (length (idle m) - n) (idle m) \<and>
    card (free_frames (frames m')) = card (free_frames (frames m)) + n \<and> length (slots m') = length (slots m) \<and>
    lru_tail m' = lru_tail m \<and> (\<forall>t < length (slots m). s_dirty (slots m' ! t) = s_dirty (slots m ! t))"
  using assms
proof (induction want m arbitrary: n m' rule: release_idle.induct)
  case (1 want m)
  show ?case
  proof (cases "want = 0 \<or> idle m = []")
    case True
    then have "n = 0" "m' = m" using 1(3) by (simp_all add: release_idle.simps)
    then show ?thesis using 1(2) True by auto
  next
    case False
    let ?m = "m\<lparr>idle := butlast (idle m)\<rparr>" and ?s = "last (idle m)"
    obtain n1 where r: "release_idle (want - 1) (give_back ?s ?m) = (n1, m')" "n = n1 + 1"
      using 1(3) False by (subst (asm) release_idle.simps) (auto split: prod.splits)
    have di: "distinct (idle m)" using 1(2) by (simp add: cache_rep_def slots_ok_def)
    have "cache_rep chk (m\<lparr>idle := ?s # butlast (idle m)\<rparr>) xs"
      using False di by (intro rep_idle_perm [OF 1(2)])
        (cases "idle m" rule: rev_cases, auto)+
    then have rep: "cache_rep chk (?m\<lparr>idle := ?s # idle ?m\<rparr>) xs" by simp
    note g = give_back_rep [OF rep refl]
    obtain k where k: "k \<notin> free_frames (frames m)" "free_frames (frames (give_back ?s ?m)) = insert k (free_frames (frames m))"
      using g(11) by auto
    note ih = 1(1) [OF False g(1) r(1)]
    have "card (free_frames (frames (give_back ?s ?m))) = card (free_frames (frames m)) + 1"
      using k by simp
    moreover have "take (length (idle m) - 1 - n1) (butlast (idle m)) = take (length (idle m) - n) (idle m)"
      by (simp add: r(2) butlast_conv_take min_def)
    moreover have "quiet B m m'" using ih quiet_trans [OF g(3) [of B], of m'] by simp
    moreover have "n = min want (length (idle m))"
      using ih g(4) False unfolding r(2) by (cases "idle m" rule: rev_cases) (auto simp: min_def)
    ultimately show ?thesis using ih g(2,4-7,9,10) r(2) by simp
  qed
qed

section \<open>Dropping everything\<close>

lemma idle_tail_rep:
  assumes rep: "cache_rep chk m (ys @ [s])" and clean: "\<And>t. t < length (slots m) \<Longrightarrow> \<not> s_dirty (slots m ! t)"
    and m': "m' = idle_tail m"
  shows "cache_rep chk m' ys" "view m' = view m" "quiet B m m'" "dev m' = dev m"
    "\<And>t. t < length (slots m') \<Longrightarrow> \<not> s_dirty (slots m' ! t)"
proof -
  have s: "lru_tail m = s" using rep by (simp add: cache_rep_def lru_def)
  have lt: "s < length (slots m)" using cache_repD(1) [OF rep] by simp
  define n where "n = drop_map s (cache_unlink s m)"
  note d = rep_drop_clean [OF rep clean [OF lt] n_def]
  have eq: "m' = n\<lparr>idle := idle n @ [s]\<rparr>" by (simp add: m' idle_tail_def s n_def Let_def)
  have "distinct (idle n @ [s])" "set (idle n @ [s]) = set (idle (n\<lparr>idle := s # idle n\<rparr>))"
    using slots_okD(1) [of "n\<lparr>idle := s # idle n\<rparr>" ys] d(1) by (auto simp: cache_rep_def)
  from rep_idle_perm [OF d(1) this] show "cache_rep chk m' ys" by (simp add: eq)
  show "view m' = view m" "quiet B m m'" using d(2,3) by (simp_all add: eq)
  have lk: "same_but_links m (cache_unlink s m)" by (rule unlink_same_but_links)
  show "dev m' = dev m" using same_but_links_fields [OF lk] by (simp add: eq n_def drop_map_def)
  show "\<not> s_dirty (slots m' ! t)" if "t < length (slots m')" for t
    using that clean [of t] same_but_links_slots [OF lk] by (simp add: eq n_def drop_map_def)
qed

lemma drop_loop:
  assumes "cache_rep chk m xs" and "\<And>t. t < length (slots m) \<Longrightarrow> \<not> s_dirty (slots m ! t)"
  shows "\<exists>m'. while_option (\<lambda>m. lru_tail m \<noteq> NIL) idle_tail m = Some m' \<and> cache_rep chk m' [] \<and>
    view m' = view m \<and> quiet B m m' \<and> dev m' = dev m"
  using assms
proof (induction xs arbitrary: m rule: rev_induct)
  case Nil
  then have "lru_tail m = NIL" by (simp add: cache_rep_def lru_def)
  then show ?case using Nil by (subst while_option_unfold) simp
next
  case (snoc s ys)
  have "lru_tail m = s" "s \<noteq> NIL" using snoc(2) cache_repD(2) [OF snoc(2)] by (auto simp: cache_rep_def lru_def)
  then have w: "while_option (\<lambda>m. lru_tail m \<noteq> NIL) idle_tail m = while_option (\<lambda>m. lru_tail m \<noteq> NIL) idle_tail (idle_tail m)"
    by (subst while_option_unfold) simp
  note i = idle_tail_rep [OF snoc(2,3) refl]
  show ?case using snoc.IH [OF i(1,5)] i(2,4) quiet_trans [OF i(3) [of B]] unfolding w by auto
qed

lemma drop_all_spec:
  assumes inv: "cache_inv chk m"
  shows "\<exists>r m'. drop_all m = Some (r, m') \<and> cache_inv chk m' \<and> view m' = view m \<and> quiet B m m' \<and>
    (r = Inr () \<longrightarrow> cmap m' = Map.empty \<and> (\<forall>b < 2 ^ 64. media (dev m') (actual (dev m') b) = view m b))"
proof -
  obtain r m1 where fl: "cache_flush m = (r, m1)" by fastforce
  note f = cache_flush_spec [OF inv fl]
  show ?thesis
  proof (cases r)
    case (Inl e)
    then show ?thesis using fl f(1-3) by (simp add: drop_all_def)
  next
    case (Inr u)
    obtain xs where rep: "cache_rep chk m1 xs" using f(1) by (auto simp: cache_inv_def)
    have "\<And>t. t < length (slots m1) \<Longrightarrow> \<not> s_dirty (slots m1 ! t)" using f(4) Inr by (auto simp: dirty_set_def)
    from drop_loop [OF rep this] obtain m2 where m2: "while_option (\<lambda>m. lru_tail m \<noteq> NIL) idle_tail m1 = Some m2"
      "cache_rep chk m2 []" "view m2 = view m1" "quiet B m1 m2" "dev m2 = dev m1" by metis
    obtain n m3 where m3: "release_idle U64_MAX m2 = (n, m3)" by fastforce
    note g = release_idle_rep [OF m2(2) m3, of B]
    have "cmap m3 b = None" for b using cache_repD(4) [of chk m3 "[]" b] g by (cases "cmap m3 b") auto
    then show ?thesis using f fl Inr m2 m3 g quiet_trans [of B m m1 m2] quiet_trans [of B m m2 m3]
      by (auto simp: drop_all_def cache_inv_def)
  qed
qed

section \<open>Shrinking\<close>

lemma lru_prev: "lru m (as @ s # bs) \<Longrightarrow> s_prev (slots m ! s) = lastd NIL as"
  by (simp add: lru_def dll_append)

lemma shrink_clean_rep:
  assumes rep: "cache_rep chk m (as @ s # bs)" and clean: "\<not> s_dirty (slots m ! s)"
    and m': "m' = give_back s (drop_map s (cache_unlink s m))"
  shows "cache_rep chk m' (as @ bs)" "view m' = view m" "quiet B m m'" "dev m' = dev m"
    "length (slots m') = length (slots m)"
    "t < length (slots m) \<Longrightarrow> s_dirty (slots m' ! t) = s_dirty (slots m ! t)"
    "card (free_frames (frames m')) = card (free_frames (frames m)) + 1"
proof -
  define n where "n = drop_map s (cache_unlink s m)"
  note d = rep_drop_clean [OF rep clean n_def]
  note g = give_back_rep [OF d(1) m' [folded n_def]]
  have lk: "same_but_links m (cache_unlink s m)" by (rule unlink_same_but_links)
  note f = same_but_links_fields [OF lk] same_but_links_slots [OF lk]
  have n: "dev n = dev m" "frames n = frames m" "slots n = slots (cache_unlink s m)"
    using f by (simp_all add: n_def drop_map_def)
  show "cache_rep chk m' (as @ bs)" by (rule g)
  show "view m' = view m" "dev m' = dev m" "quiet B m m'" using g(2,5) d(2) n quiet_trans [OF d(3) g(3)] by simp_all
  show len: "length (slots m') = length (slots m)" using g(9) n f by simp
  show "s_dirty (slots m' ! t) = s_dirty (slots m ! t)" if "t < length (slots m)"
    using that g(7) [of t] n f by simp
  obtain k where "k \<notin> free_frames (frames n)" "free_frames (frames m') = insert k (free_frames (frames n))"
    using g(11) by blast
  then show "card (free_frames (frames m')) = card (free_frames (frames m)) + 1" using n by simp
qed

definition clean_blocks :: "'a io_scheme \<Rightarrow> nat set" where
  "clean_blocks m = {b. \<exists>s. cmap m b = Some s \<and> \<not> s_dirty (slots m ! s)}"

lemma shrink_loop:
  assumes "cache_rep chk m (as @ bs)" and "\<And>t. t \<in> set bs \<Longrightarrow> s_dirty (slots m ! t)" and "freed \<le> want"
  shows "\<exists>n s m'. while_option (\<lambda>(freed, s, m). freed < want \<and> s \<noteq> NIL) shrink_step (freed, lastd NIL as, m) = Some (freed + n, s, m') \<and>
    n = min (want - freed) (length (filter (\<lambda>t. \<not> s_dirty (slots m ! t)) as)) \<and>
    cache_inv chk m' \<and> view m' = view m \<and> quiet B m m' \<and> dev m' = dev m \<and> length (slots m') = length (slots m) \<and>
    (\<forall>t < length (slots m). s_dirty (slots m' ! t) = s_dirty (slots m ! t)) \<and>
    card (free_frames (frames m')) = card (free_frames (frames m)) + n"
  using assms
proof (induction as arbitrary: m bs freed rule: rev_induct)
  case Nil
  then show ?case by (subst while_option_unfold) (auto simp: cache_inv_def)
next
  case (snoc s ys)
  have rep: "cache_rep chk m (ys @ s # bs)" using snoc(2) by simp
  have s: "s \<noteq> NIL" "s < length (slots m)" using cache_repD(1,2) [OF rep] by auto
  have lt: "t < length (slots m)" if "t \<in> set ys \<union> set bs" for t using cache_repD(1) [OF rep, of t] that by auto
  have p: "s_prev (slots m ! s) = lastd NIL ys" using rep lru_prev by (auto simp: cache_rep_def)
  show ?case
  proof (cases "freed < want")
    case False
    then show ?thesis using snoc(2) by (subst while_option_unfold) (auto simp: cache_inv_def)
  next
    case True
    show ?thesis
    proof (cases "s_dirty (slots m ! s)")
      case dirty: True
      then have st: "shrink_step (freed, s, m) = (freed, lastd NIL ys, m)" using p by (simp add: shrink_step_def)
      have "\<And>t. t \<in> set (s # bs) \<Longrightarrow> s_dirty (slots m ! t)" using snoc(3) dirty by auto
      from snoc.IH [OF rep this snoc(4)] show ?thesis using True s st dirty by (subst while_option_unfold) simp
    next
      case False
      define m1 where "m1 = give_back s (drop_map s (cache_unlink s m))"
      note g = shrink_clean_rep [OF rep False m1_def]
      have st: "shrink_step (freed, s, m) = (freed + 1, lastd NIL ys, m1)" using p False by (simp add: shrink_step_def m1_def)
      have db: "\<And>t. t \<in> set bs \<Longrightarrow> s_dirty (slots m1 ! t)" using snoc(3) g(6) lt by simp
      have fl: "filter (\<lambda>t. \<not> s_dirty (slots m1 ! t)) ys = filter (\<lambda>t. \<not> s_dirty (slots m ! t)) ys"
        using g(6) lt by (intro filter_cong) auto
      have le: "freed + 1 \<le> want" using True by simp
      from snoc.IH [OF g(1) db le] obtain n s' m' where
        ih: "while_option (\<lambda>(freed, s, m). freed < want \<and> s \<noteq> NIL) shrink_step (freed + 1, lastd NIL ys, m1) = Some (freed + 1 + n, s', m')"
        "n = min (want - (freed + 1)) (length (filter (\<lambda>t. \<not> s_dirty (slots m ! t)) ys))"
        "cache_inv chk m'" "view m' = view m1" "quiet B m1 m'" "dev m' = dev m1" "length (slots m') = length (slots m1)"
        "\<And>t. t < length (slots m1) \<Longrightarrow> s_dirty (slots m' ! t) = s_dirty (slots m1 ! t)"
        "card (free_frames (frames m')) = card (free_frames (frames m1)) + n"
        unfolding fl by blast
      have "while_option (\<lambda>(freed, s, m). freed < want \<and> s \<noteq> NIL) shrink_step (freed, s, m) = Some (freed + (n + 1), s', m')"
        using True s st ih(1) by (subst while_option_unfold) simp
      then show ?thesis using ih g False True quiet_trans [OF g(3) ih(5)]
        by (intro exI [of _ "n + 1"] exI [of _ s'] exI [of _ m']) auto
    qed
  qed
qed

lemma card_clean_blocks:
  assumes rep: "cache_rep chk m xs"
  shows "card (clean_blocks m) = length (filter (\<lambda>t. \<not> s_dirty (slots m ! t)) xs)"
proof -
  have "clean_blocks m = (\<lambda>s. s_block (slots m ! s)) ` set (filter (\<lambda>t. \<not> s_dirty (slots m ! t)) xs)"
    unfolding clean_blocks_def using cache_repD(4) [OF rep] by auto
  moreover have "inj_on (\<lambda>s. s_block (slots m ! s)) (set xs)"
    by (rule inj_onI) (metis cache_repD(4) [OF rep] option.inject)
  then have "inj_on (\<lambda>s. s_block (slots m ! s)) (set (filter (\<lambda>t. \<not> s_dirty (slots m ! t)) xs))"
    by (rule inj_on_subset) auto
  ultimately show ?thesis using distinct_card [of "filter (\<lambda>t. \<not> s_dirty (slots m ! t)) xs"] cache_repD(3) [OF rep]
    by (simp add: card_image)
qed

lemma shrink_spec:
  assumes "cache_inv chk m"
  shows "\<exists>n m'. shrink want m = Some (n, m') \<and> n = min want (length (idle m) + card (clean_blocks m)) \<and>
    cache_inv chk m' \<and> view m' = view m \<and> quiet B m m' \<and> dev m' = dev m \<and>
    card (free_frames (frames m')) = card (free_frames (frames m)) + n"
proof -
  obtain xs where rep: "cache_rep chk m xs" using assms by (auto simp: cache_inv_def)
  obtain k m1 where r: "release_idle want m = (k, m1)" by fastforce
  note g = release_idle_rep [OF rep r, of B]
  have rep1: "cache_rep chk m1 (xs @ [])" and le: "k \<le> want" using g by auto
  have "\<And>t. t \<in> set [] \<Longrightarrow> s_dirty (slots m1 ! t)" by simp
  from shrink_loop [OF rep1 this le, of B] obtain n s m' where
    w: "while_option (\<lambda>(freed, s, m). freed < want \<and> s \<noteq> NIL) shrink_step (k, lastd NIL xs, m1) = Some (k + n, s, m')"
    "n = min (want - k) (length (filter (\<lambda>t. \<not> s_dirty (slots m1 ! t)) xs))"
    "cache_inv chk m'" "view m' = view m1" "quiet B m1 m'" "dev m' = dev m1"
    "card (free_frames (frames m')) = card (free_frames (frames m1)) + n" by metis
  have lt: "\<And>t. t \<in> set xs \<Longrightarrow> t < length (slots m)" by (rule cache_repD(1) [OF rep])
  have "filter (\<lambda>t. \<not> s_dirty (slots m1 ! t)) xs = filter (\<lambda>t. \<not> s_dirty (slots m ! t)) xs"
    using g lt by (intro filter_cong) auto
  then have n: "n = min (want - k) (card (clean_blocks m))" using w(2) card_clean_blocks [OF rep] by simp
  have "lru_tail m1 = lastd NIL xs" using rep1 by (simp add: cache_rep_def lru_def)
  then have "shrink want m = Some (k + n, m')" using r w(1) by (simp add: shrink_def)
  moreover have "k + n = min want (length (idle m) + card (clean_blocks m))" using n g by auto
  ultimately show ?thesis using w(3-7) g quiet_trans [of B m m1 m'] by auto
qed

section \<open>A new cache, and the square root\<close>

lemma cache_new_spec: "env_ok (cache_new m) \<Longrightarrow> cache_inv chk (cache_new m)"
  unfolding cache_inv_def cache_rep_def
  by (rule exI [of _ "[]"]) (simp add: cache_new_def lru_def slots_ok_def bytes_ok_def)

text \<open>Newton's iteration never goes below the root.\<close>

lemma four_times: "4 * (a * b) \<le> (a + b) * (a + b :: nat)"
proof (cases "a \<le> b")
  case True
  then obtain d where "b = a + d" using le_Suc_ex by blast
  then show ?thesis by (simp add: algebra_simps)
next
  case False
  then obtain d where "a = b + d" using le_Suc_ex [of b a] by auto
  then show ?thesis by (simp add: algebra_simps)
qed

lemma newton_above:
  fixes n x :: nat
  assumes "0 < x"
  shows "n < ((x + n div x) div 2 + 1) ^ 2"
proof -
  define q where "q = n div x"
  define s where "s = (x + q) div 2 + 1"
  have n: "n < x * (q + 1)" 
  proof -
    have "x * q + n mod x = n" unfolding q_def by simp
    moreover have "n mod x < x" using assms by simp
    ultimately show ?thesis by (simp add: distrib_left)
  qed
  have "x + (q + 1) \<le> 2 * s" unfolding s_def by simp
  then have "(x + (q + 1)) * (x + (q + 1)) \<le> (2 * s) * (2 * s)" by (intro mult_le_mono)
  moreover have "4 * (x * (q + 1)) \<le> (x + (q + 1)) * (x + (q + 1))" by (rule four_times)
  ultimately have "n < s * s" using n by linarith
  then show ?thesis unfolding s_def q_def by (simp add: power2_eq_square)
qed

lemma isqrt_loop_exact:
  assumes "0 < x" and "y = (x + n div x) div 2" and "n < (x + 1) ^ 2" and "0 < n"
  shows "isqrt_loop n x y ^ 2 \<le> n \<and> n < (isqrt_loop n x y + 1) ^ 2"
  using assms
proof (induction n x y rule: isqrt_loop.induct)
  case (1 n x y)
  show ?case
  proof (cases "y < x")
    case True
    have "0 < y"
    proof (rule ccontr)
      assume "\<not> 0 < y"
      then have "n < 1" using newton_above [OF 1(2), of n] 1(3) by simp
      then show False using 1(5) by simp
    qed
    then have "isqrt_loop n y ((y + n div y) div 2) ^ 2 \<le> n \<and> n < (isqrt_loop n y ((y + n div y) div 2) + 1) ^ 2"
      using 1(1) [OF True _ refl] newton_above [OF 1(2), of n] 1(3,5) by (simp only: simp_thms)
    moreover have "isqrt_loop n x y = isqrt_loop n y ((y + n div y) div 2)" using True by (subst isqrt_loop.simps) (simp only: if_True)
    ultimately show ?thesis by (simp only:)
  next
    case False
    then have "x \<le> n div x" using 1(3) by linarith
    then have "x * x \<le> x * (n div x)" by simp
    also have "\<dots> \<le> n" by simp
    finally have "x * x \<le> n" .
    moreover have "isqrt_loop n x y = x" using False by (subst isqrt_loop.simps) (simp only: if_False)
    ultimately show ?thesis using 1(4) by (simp only: power2_eq_square simp_thms)
  qed
qed

lemma isqrt_result: "isqrt n ^ 2 \<le> n \<and> n < (isqrt n + 1) ^ 2"
proof (cases "n < 2")
  case True
  then show ?thesis by (cases n) (auto simp: isqrt_def power2_eq_square)
next
  case False
  then have "(n + 1) div 2 = (n + n div n) div 2" "0 < n" "n < (n + 1) ^ 2" by (simp_all add: power2_eq_square)
  then show ?thesis using isqrt_loop_exact [of n "(n + 1) div 2" n] False by (simp only: isqrt_def if_False simp_thms)
qed

end
