(* ===== verification/Block_Store.thy ===== *)
theory Block_Store
  imports Block_Cache
begin

text \<open>
  The contract the file system has with the block cache: a flat array of blocks (\<open>view\<close>) that reads
  return and writes update, with \<open>frame B\<close> for "writes only blocks of \<open>B\<close>". What a client does with a
  block store, loops of reads and of writes, is proved once from the contract; the cache of
  \<^verbatim>\<open>cache.rs\<close> fulfils it.
\<close>

definition put_blocks :: "(nat \<times> bytes) list \<Rightarrow> (nat \<Rightarrow> bytes) \<Rightarrow> nat \<Rightarrow> bytes" where
  "put_blocks items v = fold (\<lambda>(b, buf) v. v(b := buf)) items v"

lemma put_blocks_simps [simp]:
  "put_blocks [] v = v" "put_blocks (xs @ [(b, buf)]) v = (put_blocks xs v)(b := buf)"
  "put_blocks ((b, buf) # xs) v = put_blocks xs (v(b := buf))"
  by (simp_all add: put_blocks_def)

lemma put_blocks_other: "b \<notin> fst ` set items \<Longrightarrow> put_blocks items v b = v b"
  by (induction items arbitrary: v) auto

lemma put_blocks_in: "distinct (map fst items) \<Longrightarrow> (b, buf) \<in> set items \<Longrightarrow> put_blocks items v b = buf"
proof (induction items arbitrary: v)
  case Nil
  then show ?case by simp
next
  case (Cons x xs)
  obtain c cb where x: "x = (c, cb)" by fastforce
  show ?case
  proof (cases "(b, buf) = x")
    case True
    then have "b \<notin> fst ` set xs" using Cons.prems(1) x by auto
    then show ?thesis using True x by (simp add: put_blocks_other)
  next
    case False
    then show ?thesis using Cons x by auto
  qed
qed

locale block_store =
  fixes inv :: "'s \<Rightarrow> bool" and contents :: "'s \<Rightarrow> nat \<Rightarrow> bytes" and frame :: "nat set \<Rightarrow> 's \<Rightarrow> 's \<Rightarrow> bool"
    and rd :: "nat \<Rightarrow> ('s, 'e, bytes) op" and wr :: "nat \<Rightarrow> bytes \<Rightarrow> ('s, 'e, unit) op"
  assumes rd_law: "inv s \<Longrightarrow> b < 2 ^ 64 \<Longrightarrow>
      wpE (rd b) (\<lambda>buf s'. buf = contents s b \<and> inv s' \<and> contents s' = contents s \<and> (\<forall>B. frame B s s'))
        (\<lambda>e s'. inv s' \<and> contents s' = contents s \<and> (\<forall>B. frame B s s')) s"
    and wr_law: "inv s \<Longrightarrow> b < 2 ^ 64 \<Longrightarrow> length buf = BLOCK_SIZE \<Longrightarrow>
      wpE (wr b buf) (\<lambda>_ s'. inv s' \<and> contents s' = (contents s)(b := buf) \<and> (\<forall>B. b \<in> B \<longrightarrow> frame B s s'))
        (\<lambda>e s'. inv s' \<and> contents s' = contents s \<and> (\<forall>B. b \<in> B \<longrightarrow> frame B s s')) s"
    and frame_refl: "frame B s s"
    and frame_trans: "frame B s s' \<Longrightarrow> frame B s' s'' \<Longrightarrow> frame B s s''"
begin

lemma rd_wp:
  assumes "inv s" and "b < 2 ^ 64"
    and "\<And>s'. inv s' \<Longrightarrow> contents s' = contents s \<Longrightarrow> (\<And>B. frame B s s') \<Longrightarrow> Q (contents s b) s'"
    and "\<And>e s'. inv s' \<Longrightarrow> contents s' = contents s \<Longrightarrow> (\<And>B. frame B s s') \<Longrightarrow> R e s'"
  shows "wpE (rd b) Q R s"
  by (rule wpE_mono [OF rd_law [OF assms(1,2)]]) (use assms(3,4) in auto)

lemma wr_wp:
  assumes "inv s" and "b < 2 ^ 64" and "length buf = BLOCK_SIZE"
    and "\<And>s'. inv s' \<Longrightarrow> contents s' = (contents s)(b := buf) \<Longrightarrow> (\<And>B. b \<in> B \<Longrightarrow> frame B s s') \<Longrightarrow> Q () s'"
    and "\<And>e s'. inv s' \<Longrightarrow> contents s' = contents s \<Longrightarrow> (\<And>B. b \<in> B \<Longrightarrow> frame B s s') \<Longrightarrow> R e s'"
  shows "wpE (wr b buf) Q R s"
  by (rule wpE_mono [OF wr_law [OF assms(1,2,3)]]) (use assms(4,5) in auto)

text \<open>A loop of writes leaves the blocks written so far, whether or not it ends.\<close>

lemma wr_list:
  assumes "inv s" and items: "\<And>b buf. (b, buf) \<in> set items \<Longrightarrow> b < 2 ^ 64 \<and> length buf = BLOCK_SIZE \<and> b \<in> B"
  shows "wpE (forE (\<lambda>(b, buf). wr b buf) items)
    (\<lambda>_ s'. inv s' \<and> contents s' = put_blocks items (contents s) \<and> frame B s s')
    (\<lambda>e s'. inv s' \<and> frame B s s' \<and> (\<exists>k \<le> length items. contents s' = put_blocks (take k items) (contents s))) s"
proof (rule wpE_forE [where I = "\<lambda>done s'. inv s' \<and> contents s' = put_blocks done (contents s) \<and> frame B s s'"])
  show "inv s \<and> contents s = put_blocks [] (contents s) \<and> frame B s s" using assms(1) frame_refl by simp
  fix ys x zs s1
  assume split: "items = ys @ x # zs" and i: "inv s1 \<and> contents s1 = put_blocks ys (contents s) \<and> frame B s s1"
  obtain b buf where x: "x = (b, buf)" by fastforce
  have ok: "b < 2 ^ 64" "length buf = BLOCK_SIZE" "b \<in> B" using items [of b buf] split x by auto
  have "\<exists>k \<le> length items. contents s1 = put_blocks (take k items) (contents s)"
    using i split by (intro exI [of _ "length ys"]) simp
  then show "wpE (case x of (b, buf) \<Rightarrow> wr b buf)
      (\<lambda>_ s'. inv s' \<and> contents s' = put_blocks (ys @ [x]) (contents s) \<and> frame B s s')
      (\<lambda>e s'. inv s' \<and> frame B s s' \<and> (\<exists>k \<le> length items. contents s' = put_blocks (take k items) (contents s))) s1"
    unfolding x prod.case by (intro wr_wp) (use i ok frame_trans in auto)
qed

end

section \<open>The cache is a block store\<close>

lemma cache_read_law:
  assumes "cache_inv chk m" and "b < 2 ^ 64"
  shows "wpE (cache_read b) (\<lambda>buf m'. buf = view m b \<and> cache_inv chk m' \<and> view m' = view m \<and> (\<forall>B. quiet B m m'))
    (\<lambda>e m'. cache_inv chk m' \<and> view m' = view m \<and> (\<forall>B. quiet B m m')) m"
  by (rule wpE_I) (use cache_read_spec [OF assms] in blast)+

lemma write_as_law:
  assumes "cache_inv chk m" and "b < 2 ^ 64" and "length buf = BLOCK_SIZE" and "c \<longrightarrow> chk buf"
  shows "wpE (write_as b buf c) (\<lambda>_ m'. cache_inv chk m' \<and> view m' = (view m)(b := buf) \<and> (\<forall>B. b \<in> B \<longrightarrow> quiet B m m'))
    (\<lambda>e m'. cache_inv chk m' \<and> view m' = view m \<and> (\<forall>B. b \<in> B \<longrightarrow> quiet B m m')) m"
  by (rule wpE_I) (use write_as_spec [OF assms] in blast)+

interpretation cache_store: block_store "cache_inv chk" view quiet cache_read cache_write for chk
proof
  show "wpE (cache_read b) (\<lambda>buf s'. buf = view s b \<and> cache_inv chk s' \<and> view s' = view s \<and> (\<forall>B. quiet B s s'))
      (\<lambda>e s'. cache_inv chk s' \<and> view s' = view s \<and> (\<forall>B. quiet B s s')) s"
    if "cache_inv chk s" "b < 2 ^ 64" for s b by (rule cache_read_law [OF that])
  show "wpE (cache_write b buf) (\<lambda>_ s'. cache_inv chk s' \<and> view s' = (view s)(b := buf) \<and> (\<forall>B. b \<in> B \<longrightarrow> quiet B s s'))
      (\<lambda>e s'. cache_inv chk s' \<and> view s' = view s \<and> (\<forall>B. b \<in> B \<longrightarrow> quiet B s s')) s"
    if "cache_inv chk s" "b < 2 ^ 64" "length buf = BLOCK_SIZE" for s b buf
    unfolding cache_write_def by (rule write_as_law) (use that in auto)
qed (auto intro: quiet_trans)

text \<open>\<open>calm B\<close> is \<open>quiet B\<close> without the fields of the record's extension, which the callers change.
  \<open>io_fields\<close> are the predicates that read the cache state alone.\<close>

definition calm :: "nat set \<Rightarrow> 'a io_scheme \<Rightarrow> 'a io_scheme \<Rightarrow> bool" where
  "calm B m m' \<longleftrightarrow> same_disk (dev m) (dev m') \<and>
     (dirty_set m \<subseteq> B \<longrightarrow> dirty_set m' \<subseteq> B \<and>
       (\<exists>ws. unflushed (dev m') = unflushed (dev m) @ ws \<and> fst ` set ws \<subseteq> actual (dev m) ` B))"

lemmas io_fields = cache_inv_def cache_rep_def lru_def slots_ok_def owned_frame_def bytes_ok_def env_ok_def
  slot_bytes_def view_def calm_def dirty_set_def

lemma quiet_calm: "quiet B m m' \<longleftrightarrow> io.more m' = io.more m \<and> calm B m m'"
  by (auto simp: quiet_def calm_def)

lemma calm_refl [simp]: "calm B m m"
  by (auto simp: calm_def)

lemma calm_trans [trans]: "calm B m m' \<Longrightarrow> calm B m' m'' \<Longrightarrow> calm B m m''"
  using same_disk_actual [of "dev m" "dev m'"]
  by (auto simp: calm_def same_disk_def image_Un)

end
