(* ===== verification/Disk_Format.thy ===== *)
theory Disk_Format
  imports Block_Store Keyslot
begin

text \<open>
  The on-disk structures of \<^verbatim>\<open>kernel/src/storage/npkfs/format.rs\<close> and \<^verbatim>\<open>types.rs\<close>: the 4096-byte
  superblock, the 112-byte leaf entry and the header of a B-tree node, as records together with the
  \<open>repr(C)\<close> little-endian bytes they are read from and written as. The hash over a block is BLAKE3, a
  parameter \<open>blake3\<close> of every definition that needs it.
\<close>

section \<open>Definitions\<close>

definition SUPERBLOCK_SLOTS :: nat where "SUPERBLOCK_SLOTS = 8"
definition SUPERBLOCK_START :: nat where "SUPERBLOCK_START = 1"
definition JOURNAL_START :: nat where "JOURNAL_START = SUPERBLOCK_START + SUPERBLOCK_SLOTS"
definition JOURNAL_BLOCKS :: nat where "JOURNAL_BLOCKS = 256"
definition META_END :: nat where "META_END = JOURNAL_START + JOURNAL_BLOCKS"
definition MAX_JOURNAL_ENTRIES :: nat where "MAX_JOURNAL_ENTRIES = (BLOCK_SIZE - 24) div 16"

definition JOURNAL_MAGIC :: bytes where "JOURNAL_MAGIC = lit ''npkJRNL'' @ [0]"
definition DISK_MAGIC :: bytes where "DISK_MAGIC = lit ''npkFS'' @ [4, 0, 0]"
definition DISK_MAGIC_V2 :: bytes where "DISK_MAGIC_V2 = lit ''npkFS'' @ [2, 0, 0]"
definition DISK_MAGIC_V3 :: bytes where "DISK_MAGIC_V3 = lit ''npkFS'' @ [3, 0, 0]"
definition DISK_VERSION :: nat where "DISK_VERSION = 4"
definition KEYSLOTS :: nat where "KEYSLOTS = 2"

definition BTREE_NODE_MAGIC :: nat where "BTREE_NODE_MAGIC = 0x324B504E"
definition BTREE_INTERNAL :: u8 where "BTREE_INTERNAL = 1"
definition BTREE_LEAF :: u8 where "BTREE_LEAF = 2"
definition DIRECT_EXTENTS :: nat where "DIRECT_EXTENTS = 3"
definition EXTENTS_PER_INDIRECT :: nat where "EXTENTS_PER_INDIRECT = 255"
definition LEAF_ENTRY_SIZE :: nat where "LEAF_ENTRY_SIZE = 112"
definition INTERNAL_ENTRY_SIZE :: nat where "INTERNAL_ENTRY_SIZE = 40"
definition NODE_HEADER_SIZE :: nat where "NODE_HEADER_SIZE = 16"
definition CHECKSUM_SIZE :: nat where "CHECKSUM_SIZE = 32"

definition MAX_INTERNAL_KEYS :: nat where
  "MAX_INTERNAL_KEYS = (BLOCK_SIZE - NODE_HEADER_SIZE - CHECKSUM_SIZE) div INTERNAL_ENTRY_SIZE"

definition MAX_LEAF_ENTRIES :: nat where
  "MAX_LEAF_ENTRIES = (BLOCK_SIZE - NODE_HEADER_SIZE - CHECKSUM_SIZE) div LEAF_ENTRY_SIZE"

lemmas format_consts = SUPERBLOCK_SLOTS_def SUPERBLOCK_START_def JOURNAL_START_def JOURNAL_BLOCKS_def META_END_def
  MAX_JOURNAL_ENTRIES_def KEYSLOTS_def SLOT_BYTES_def DIRECT_EXTENTS_def EXTENTS_PER_INDIRECT_def LEAF_ENTRY_SIZE_def
  INTERNAL_ENTRY_SIZE_def NODE_HEADER_SIZE_def CHECKSUM_SIZE_def MAX_INTERNAL_KEYS_def MAX_LEAF_ENTRIES_def BLOCK_SIZE_def

record extent =
  start_block :: nat
  block_count_of :: nat

definition ZERO_EXTENT :: extent where
  "ZERO_EXTENT = \<lparr>start_block = 0, block_count_of = 0\<rparr>"

record btree_entry =
  e_hash :: bytes
  plaintext_size :: nat
  disk_size :: nat
  extent_count :: nat
  e_pad :: nat
  extents :: "extent list"
  indirect_block :: nat

record node_header =
  h_magic :: nat
  node_type :: u8
  h_pad :: u8
  num_entries :: nat
  right_child :: nat

record superblock =
  sb_magic :: bytes
  sb_version :: nat
  sb_flags :: nat
  sb_generation :: nat
  sb_total_blocks :: nat
  sb_free_blocks :: nat
  sb_bitmap_start :: nat
  sb_bitmap_count :: nat
  sb_data_start :: nat
  sb_btree_root :: nat
  sb_root_tree_hash :: bytes
  sb_object_count :: nat
  sb_journal_head :: nat
  sb_journal_seq :: nat
  sb_install_salt :: bytes
  sb_keyslots :: "bytes list"
  sb_reserved :: bytes
  sb_checksum :: bytes

text \<open>The bytes of a structure, and the structure in some bytes.\<close>

definition rd_le :: "nat \<Rightarrow> nat \<Rightarrow> bytes \<Rightarrow> nat" where
  "rd_le k off b = from_le (slice off k b)"

definition extent_bytes :: "extent \<Rightarrow> bytes" where
  "extent_bytes x = to_le 8 (start_block x) @ to_le 8 (block_count_of x)"

definition extent_at :: "nat \<Rightarrow> bytes \<Rightarrow> extent" where
  "extent_at off b = \<lparr>start_block = rd_le 8 off b, block_count_of = rd_le 8 (off + 8) b\<rparr>"

definition entry_bytes :: "btree_entry \<Rightarrow> bytes" where
  "entry_bytes e = e_hash e @ to_le 8 (plaintext_size e) @ to_le 8 (disk_size e) @ to_le 4 (extent_count e) @
     to_le 4 (e_pad e) @ concat (map extent_bytes (extents e)) @ to_le 8 (indirect_block e)"

definition entry_of_bytes :: "bytes \<Rightarrow> btree_entry" where
  "entry_of_bytes b = \<lparr>e_hash = slice 0 32 b, plaintext_size = rd_le 8 32 b, disk_size = rd_le 8 40 b,
     extent_count = rd_le 4 48 b, e_pad = rd_le 4 52 b,
     extents = map (\<lambda>i. extent_at (56 + 16 * i) b) [0..<DIRECT_EXTENTS], indirect_block = rd_le 8 104 b\<rparr>"

definition sb_bytes :: "superblock \<Rightarrow> bytes" where
  "sb_bytes sb = sb_magic sb @ to_le 4 (sb_version sb) @ to_le 4 (sb_flags sb) @ to_le 8 (sb_generation sb) @
     to_le 8 (sb_total_blocks sb) @ to_le 8 (sb_free_blocks sb) @ to_le 8 (sb_bitmap_start sb) @
     to_le 8 (sb_bitmap_count sb) @ to_le 8 (sb_data_start sb) @ to_le 8 (sb_btree_root sb) @
     sb_root_tree_hash sb @ to_le 8 (sb_object_count sb) @ to_le 8 (sb_journal_head sb) @
     to_le 8 (sb_journal_seq sb) @ sb_install_salt sb @ concat (sb_keyslots sb) @ sb_reserved sb @ sb_checksum sb"

definition sb_of_bytes :: "bytes \<Rightarrow> superblock" where
  "sb_of_bytes b = \<lparr>sb_magic = slice 0 8 b, sb_version = rd_le 4 8 b, sb_flags = rd_le 4 12 b,
     sb_generation = rd_le 8 16 b, sb_total_blocks = rd_le 8 24 b, sb_free_blocks = rd_le 8 32 b,
     sb_bitmap_start = rd_le 8 40 b, sb_bitmap_count = rd_le 8 48 b, sb_data_start = rd_le 8 56 b,
     sb_btree_root = rd_le 8 64 b, sb_root_tree_hash = slice 72 32 b, sb_object_count = rd_le 8 104 b,
     sb_journal_head = rd_le 8 112 b, sb_journal_seq = rd_le 8 120 b, sb_install_salt = slice 128 16 b,
     sb_keyslots = map (\<lambda>i. slice (144 + SLOT_BYTES * i) SLOT_BYTES b) [0..<KEYSLOTS],
     sb_reserved = slice 400 3664 b, sb_checksum = slice 4064 32 b\<rparr>"

definition compute_checksum :: "(bytes \<Rightarrow> bytes) \<Rightarrow> superblock \<Rightarrow> bytes" where
  "compute_checksum blake3 sb = blake3 (take (BLOCK_SIZE - 32) (sb_bytes sb))"

definition is_valid :: "(bytes \<Rightarrow> bytes) \<Rightarrow> superblock \<Rightarrow> bool" where
  "is_valid blake3 sb = (sb_magic sb = DISK_MAGIC \<and> sb_version sb = DISK_VERSION \<and>
     sb_checksum sb = compute_checksum blake3 sb)"

definition set_checksum :: "(bytes \<Rightarrow> bytes) \<Rightarrow> superblock \<Rightarrow> superblock" where
  "set_checksum blake3 sb = sb\<lparr>sb_checksum := compute_checksum blake3 sb\<rparr>"

section \<open>Round trips\<close>

definition extent_ok :: "extent \<Rightarrow> bool" where
  "extent_ok x \<longleftrightarrow> start_block x < 2 ^ 64 \<and> block_count_of x < 2 ^ 64"

definition entry_ok :: "btree_entry \<Rightarrow> bool" where
  "entry_ok e \<longleftrightarrow> length (e_hash e) = 32 \<and> plaintext_size e < 2 ^ 64 \<and> disk_size e < 2 ^ 64 \<and>
     extent_count e < 2 ^ 32 \<and> e_pad e < 2 ^ 32 \<and> length (extents e) = DIRECT_EXTENTS \<and>
     list_all extent_ok (extents e) \<and> indirect_block e < 2 ^ 64"

definition sb_ok :: "superblock \<Rightarrow> bool" where
  "sb_ok sb \<longleftrightarrow> length (sb_magic sb) = 8 \<and> sb_version sb < 2 ^ 32 \<and> sb_flags sb < 2 ^ 32 \<and>
     sb_generation sb < 2 ^ 64 \<and> sb_total_blocks sb < 2 ^ 64 \<and> sb_free_blocks sb < 2 ^ 64 \<and>
     sb_bitmap_start sb < 2 ^ 64 \<and> sb_bitmap_count sb < 2 ^ 64 \<and> sb_data_start sb < 2 ^ 64 \<and>
     sb_btree_root sb < 2 ^ 64 \<and> length (sb_root_tree_hash sb) = 32 \<and> sb_object_count sb < 2 ^ 64 \<and>
     sb_journal_head sb < 2 ^ 64 \<and> sb_journal_seq sb < 2 ^ 64 \<and> length (sb_install_salt sb) = 16 \<and>
     length (sb_keyslots sb) = KEYSLOTS \<and> list_all (\<lambda>k. length k = SLOT_BYTES) (sb_keyslots sb) \<and>
     length (sb_reserved sb) = 3664 \<and> length (sb_checksum sb) = 32"

text \<open>Fields are taken off the front of the bytes one after the other.\<close>

lemma slice_skip [slices]: "length xs \<le> off \<Longrightarrow> slice off n (xs @ ys) = slice (off - length xs) n ys"
  by (simp add: slice_def)

lemma slice_front [slices]: "n = length xs \<Longrightarrow> slice 0 n (xs @ ys) = xs"
  by (simp add: slice_def)

lemma slice_exact [slices]: "n = length xs \<Longrightarrow> slice 0 n xs = xs"
  by (simp add: slice_def)

lemma from_to_le_8 [codec]: "n < 2 ^ 64 \<Longrightarrow> from_le (to_le 8 n) = n"
  by (simp only: from_to_le) simp

lemma from_to_le_4 [codec]: "n < 2 ^ 32 \<Longrightarrow> from_le (to_le 4 n) = n"
  by (simp only: from_to_le) simp

lemma to_from_le_slice [codec]: "off + k \<le> length b \<Longrightarrow> to_le k (rd_le k off b) = slice off k b"
  using to_from_le [of "slice off k b"] by (simp add: rd_le_def)

lemma slice_drop: "m = off + n \<Longrightarrow> slice off n b @ drop m b = drop off b"
  by (simp add: slice_def add.commute flip: drop_drop)

lemma slice_last: "length b = off + n \<Longrightarrow> slice off n b = drop off b"
  by (simp add: slice_def)

lemma rd_le_less: "rd_le k off b < 256 ^ k"
proof -
  have "length (slice off k b) \<le> k" by (simp add: slice_def)
  then have "256 ^ length (slice off k b) \<le> (256 :: nat) ^ k" by (simp add: power_increasing)
  then show ?thesis using from_le_bound [of "slice off k b"] unfolding rd_le_def by (rule less_le_trans [rotated])
qed

lemma length_extent_bytes [simp]: "length (extent_bytes x) = 16"
  by (simp add: extent_bytes_def del: to_le_numeral)


lemma list_3: "length xs = 3 \<Longrightarrow> \<exists>x y z. xs = [x, y, z]"
  by (cases xs; cases "tl xs"; cases "tl (tl xs)") (auto simp: numeral_3_eq_3)

lemma list_2: "length xs = 2 \<Longrightarrow> \<exists>x y. xs = [x, y]"
  by (cases xs; cases "tl xs") (auto simp: numeral_2_eq_2)

lemma entry_ok_extents: "entry_ok e \<Longrightarrow> \<exists>x y z. extents e = [x, y, z]"
  by (rule list_3) (simp add: entry_ok_def DIRECT_EXTENTS_def)

lemma length_entry_bytes: "entry_ok e \<Longrightarrow> length (entry_bytes e) = LEAF_ENTRY_SIZE"
proof -
  assume ok: "entry_ok e"
  then obtain x y z where "extents e = [x, y, z]" using entry_ok_extents by blast
  then show ?thesis using ok by (simp add: entry_bytes_def entry_ok_def LEAF_ENTRY_SIZE_def del: to_le_numeral)
qed

lemma entry_round_trip:
  assumes "entry_ok e"
  shows "entry_of_bytes (entry_bytes e) = e"
proof -
  obtain x y z where xs: "extents e = [x, y, z]" using assms entry_ok_extents by blast
  have "extent_ok x" "extent_ok y" "extent_ok z" using assms xs by (simp_all add: entry_ok_def)
  then show ?thesis
    using assms xs
    by (cases e; cases x; cases y; cases z)
      (simp add: entry_of_bytes_def entry_bytes_def entry_ok_def extent_ok_def rd_le_def extent_at_def extent_bytes_def
        slices codec upt_rec DIRECT_EXTENTS_def del: to_le_numeral)
qed

lemma entry_of_bytes_ok: "length b = LEAF_ENTRY_SIZE \<Longrightarrow> entry_ok (entry_of_bytes b)"
  using rd_le_less [of 8 _ b] rd_le_less [of 4 _ b]
  by (simp add: entry_of_bytes_def entry_ok_def extent_ok_def extent_at_def list_all_iff LEAF_ENTRY_SIZE_def)

lemma entry_bytes_of_bytes:
  assumes "length b = LEAF_ENTRY_SIZE"
  shows "entry_bytes (entry_of_bytes b) = b"
proof -
  have "entry_bytes (entry_of_bytes b) = slice 0 32 b @ slice 32 8 b @ slice 40 8 b @ slice 48 4 b @ slice 52 4 b @
     (slice 56 8 b @ slice 64 8 b) @ (slice 72 8 b @ slice 80 8 b) @ (slice 88 8 b @ slice 96 8 b) @ slice 104 8 b"
    using assms
    by (simp add: entry_of_bytes_def entry_bytes_def extent_at_def extent_bytes_def codec upt_rec DIRECT_EXTENTS_def
        LEAF_ENTRY_SIZE_def del: to_le_numeral)
  also have "\<dots> = b"
    using assms by (simp add: LEAF_ENTRY_SIZE_def slice_last [of b 104] slice_drop)
  finally show ?thesis .
qed


lemma length_sb_bytes: "sb_ok sb \<Longrightarrow> length (sb_bytes sb) = BLOCK_SIZE"
proof -
  assume ok: "sb_ok sb"
  then obtain x y where "sb_keyslots sb = [x, y]" using list_2 [of "sb_keyslots sb"] by (auto simp: sb_ok_def KEYSLOTS_def)
  then show ?thesis using ok by (simp add: sb_bytes_def sb_ok_def SLOT_BYTES_def BLOCK_SIZE_def del: to_le_numeral)
qed

lemma sb_round_trip:
  assumes "sb_ok sb"
  shows "sb_of_bytes (sb_bytes sb) = sb"
proof -
  obtain x y where xs: "sb_keyslots sb = [x, y]" using assms list_2 [of "sb_keyslots sb"] by (auto simp: sb_ok_def KEYSLOTS_def)
  have "length x = 128" "length y = 128" using assms xs by (simp_all add: sb_ok_def SLOT_BYTES_def)
  then show ?thesis
    using assms xs
    by (cases sb) (simp add: sb_of_bytes_def sb_bytes_def sb_ok_def rd_le_def slices codec upt_rec KEYSLOTS_def SLOT_BYTES_def
        del: to_le_numeral)
qed

lemma sb_of_bytes_ok: "length b = BLOCK_SIZE \<Longrightarrow> sb_ok (sb_of_bytes b)"
  using rd_le_less [of 8 _ b] rd_le_less [of 4 _ b]
  by (simp add: sb_of_bytes_def sb_ok_def list_all_iff BLOCK_SIZE_def SLOT_BYTES_def KEYSLOTS_def)

lemma sb_bytes_of_bytes:
  assumes "length b = BLOCK_SIZE"
  shows "sb_bytes (sb_of_bytes b) = b"
  using assms
  by (simp add: sb_of_bytes_def sb_bytes_def codec upt_rec KEYSLOTS_def SLOT_BYTES_def BLOCK_SIZE_def
      slice_last [of b 4064] slice_drop del: to_le_numeral)

text \<open>The checksum covers everything but itself, so setting it makes a superblock valid.\<close>

lemma compute_checksum_set: "sb_ok sb \<Longrightarrow> length c = 32 \<Longrightarrow> compute_checksum blake3 (sb\<lparr>sb_checksum := c\<rparr>) = compute_checksum blake3 sb"
proof -
  assume ok: "sb_ok sb" and c: "length c = 32"
  let ?p = "sb_bytes (sb\<lparr>sb_checksum := []\<rparr>)"
  have e: "sb_bytes (sb\<lparr>sb_checksum := d\<rparr>) = ?p @ d" for d by (simp add: sb_bytes_def del: to_le_numeral)
  have e': "sb_bytes sb = ?p @ sb_checksum sb" by (simp add: sb_bytes_def del: to_le_numeral)
  have "length ?p = BLOCK_SIZE - 32" using length_sb_bytes [OF ok] ok unfolding e' by (simp add: sb_ok_def)
  then show ?thesis unfolding compute_checksum_def e [of c] e' by simp
qed

lemma set_checksum_ok:
  assumes "sb_ok sb" and "\<And>b. length (blake3 b) = 32"
  shows "sb_ok (set_checksum blake3 sb)" "sb_checksum (set_checksum blake3 sb) = compute_checksum blake3 (set_checksum blake3 sb)"
proof -
  have l: "length (compute_checksum blake3 sb) = 32" using assms(2) by (simp add: compute_checksum_def)
  show "sb_ok (set_checksum blake3 sb)" using assms(1) l by (simp add: set_checksum_def sb_ok_def)
  show "sb_checksum (set_checksum blake3 sb) = compute_checksum blake3 (set_checksum blake3 sb)"
    using compute_checksum_set [OF assms(1) l, of blake3] by (simp add: set_checksum_def)
qed

end
