(* ===== verification/Superblock_Ring.thy ===== *)
theory Superblock_Ring
  imports Disk_Format
begin

text \<open>
  The ring of eight superblock slots of \<^verbatim>\<open>kernel/src/storage/npkfs/sb_io.rs\<close>: which superblock a mount
  takes, how a slot is classified before a format, and the two ways a superblock is written. The lemmas
  show that the superblock taken is a valid one of the highest generation among the slots that could be
  read.
\<close>

section \<open>Definitions\<close>

definition consider_sb :: "(bytes \<Rightarrow> bytes) \<Rightarrow> bytes \<Rightarrow> superblock option \<times> nat \<Rightarrow> superblock option \<times> nat" where
  "consider_sb blake3 buf = (\<lambda>(best, best_gen).
     let sb = sb_of_bytes buf
     in if sb_magic sb \<noteq> DISK_MAGIC \<or> sb_version sb \<noteq> DISK_VERSION then (best, best_gen)
        else if sb_checksum sb \<noteq> compute_checksum blake3 sb then (best, best_gen)
        else if sb_generation sb \<ge> best_gen then (Some sb, sb_generation sb) else (best, best_gen))"

definition best_step :: "(bytes \<Rightarrow> bytes) \<Rightarrow> nat \<Rightarrow>
    (superblock option \<times> nat) \<times> 'a io_scheme \<Rightarrow> (superblock option \<times> nat) \<times> 'a io_scheme" where
  "best_step blake3 slot = (\<lambda>(acc, m).
     case cache_read (SUPERBLOCK_START + slot) m of
       (Inl _, m') \<Rightarrow> (acc, m')
     | (Inr buf, m') \<Rightarrow> (consider_sb blake3 buf acc, m'))"

definition read_best :: "(bytes \<Rightarrow> bytes) \<Rightarrow> ('a io_scheme, fs_error, superblock option) op" where
  "read_best blake3 m =
     (case fold (best_step blake3) [0..<SUPERBLOCK_SLOTS] ((None, 0), m) of
        ((best, _), m') \<Rightarrow> (Inr best, m'))"

record sb_probe =
  read_errors :: nat
  blank :: nat
  valid :: nat
  bad_checksum :: nat
  legacy :: nat
  foreign :: nat

definition is_pristine :: "sb_probe \<Rightarrow> bool" where
  "is_pristine p = (blank p = SUPERBLOCK_SLOTS \<and> read_errors p = 0)"

definition classify :: "(bytes \<Rightarrow> bytes) \<Rightarrow> bytes \<Rightarrow> sb_probe \<Rightarrow> sb_probe" where
  "classify blake3 buf p =
     (if take 8 buf = replicate 8 0 then p\<lparr>blank := blank p + 1\<rparr>
      else if take 8 buf = DISK_MAGIC_V2 \<or> take 8 buf = DISK_MAGIC_V3 then p\<lparr>legacy := legacy p + 1\<rparr>
      else if take 8 buf \<noteq> DISK_MAGIC then p\<lparr>foreign := foreign p + 1\<rparr>
      else let sb = sb_of_bytes buf
           in if sb_version sb \<noteq> DISK_VERSION then p\<lparr>legacy := legacy p + 1\<rparr>
              else if sb_checksum sb \<noteq> compute_checksum blake3 sb then p\<lparr>bad_checksum := bad_checksum p + 1\<rparr>
              else p\<lparr>valid := valid p + 1\<rparr>)"

definition probe_step :: "(bytes \<Rightarrow> bytes) \<Rightarrow> nat \<Rightarrow> sb_probe \<times> 'a io_scheme \<Rightarrow> sb_probe \<times> 'a io_scheme" where
  "probe_step blake3 slot = (\<lambda>(p, m).
     case cache_read (SUPERBLOCK_START + slot) m of
       (Inl _, m') \<Rightarrow> (p\<lparr>read_errors := read_errors p + 1\<rparr>, m')
     | (Inr buf, m') \<Rightarrow> (classify blake3 buf p, m'))"

definition probe :: "(bytes \<Rightarrow> bytes) \<Rightarrow> 'a io_scheme \<Rightarrow> sb_probe \<times> 'a io_scheme" where
  "probe blake3 m = fold (probe_step blake3) [0..<SUPERBLOCK_SLOTS]
     (\<lparr>read_errors = 0, blank = 0, valid = 0, bad_checksum = 0, legacy = 0, foreign = 0\<rparr>, m)"

fun legacy_scan :: "nat list \<Rightarrow> 'a io_scheme \<Rightarrow> nat option \<times> 'a io_scheme" where
  "legacy_scan [] m = (None, m)"
| "legacy_scan (slot # ss) m =
     (case cache_read (SUPERBLOCK_START + slot) m of
        (Inl _, m') \<Rightarrow> legacy_scan ss m'
      | (Inr buf, m') \<Rightarrow>
          if take 8 buf = DISK_MAGIC_V2 then (Some 2, m')
          else if take 8 buf = DISK_MAGIC_V3 then (Some 3, m')
          else legacy_scan ss m')"

definition read_legacy_magic :: "'a io_scheme \<Rightarrow> nat option \<times> 'a io_scheme" where
  "read_legacy_magic m = legacy_scan [0..<SUPERBLOCK_SLOTS] m"

text \<open>Both writers also update the checksum field of the caller's superblock, which they return.\<close>

definition write_next_durable :: "(bytes \<Rightarrow> bytes) \<Rightarrow> superblock \<Rightarrow> ('a io_scheme, fs_error, nat \<times> superblock) op" where
  "write_next_durable blake3 sb m =
     (let sb = set_checksum blake3 sb;
          slot = SUPERBLOCK_START + sb_generation sb mod SUPERBLOCK_SLOTS
      in bindE (on_dev (write_block_fua slot (sb_bytes sb))) (\<lambda>_. retE (slot, sb)) (invalidate slot m))"

definition write_all :: "(bytes \<Rightarrow> bytes) \<Rightarrow> superblock \<Rightarrow> ('a io_scheme, fs_error, superblock) op" where
  "write_all blake3 sb =
     (let sb = set_checksum blake3 sb
      in bindE (forE (\<lambda>(b, buf). cache_write b buf)
            (map (\<lambda>slot. (SUPERBLOCK_START + slot, sb_bytes sb)) [0..<SUPERBLOCK_SLOTS])) (\<lambda>_. retE sb))"

section \<open>The superblock taken\<close>

text \<open>The same choice over blocks already read.\<close>

definition best_of :: "(bytes \<Rightarrow> bytes) \<Rightarrow> bytes list \<Rightarrow> superblock option \<times> nat" where
  "best_of blake3 bufs = fold (consider_sb blake3) bufs (None, 0)"

lemma consider_valid:
  "consider_sb blake3 buf (best, g) =
     (if is_valid blake3 (sb_of_bytes buf) \<and> sb_generation (sb_of_bytes buf) \<ge> g
      then (Some (sb_of_bytes buf), sb_generation (sb_of_bytes buf)) else (best, g))"
  by (simp add: consider_sb_def is_valid_def Let_def)

lemma best_of_result:
  "(\<forall>sb. fst (best_of blake3 bufs) = Some sb \<longrightarrow> snd (best_of blake3 bufs) = sb_generation sb \<and>
      is_valid blake3 sb \<and> sb \<in> sb_of_bytes ` set bufs \<and>
      (\<forall>buf \<in> set bufs. is_valid blake3 (sb_of_bytes buf) \<longrightarrow> sb_generation (sb_of_bytes buf) \<le> sb_generation sb)) \<and>
   (fst (best_of blake3 bufs) = None \<longrightarrow> snd (best_of blake3 bufs) = 0 \<and> (\<forall>buf \<in> set bufs. \<not> is_valid blake3 (sb_of_bytes buf)))"
proof (induction bufs rule: rev_induct)
  case Nil
  then show ?case by (simp add: best_of_def)
next
  case (snoc buf bufs)
  obtain best g where b: "best_of blake3 bufs = (best, g)" by fastforce
  have "best_of blake3 (bufs @ [buf]) = consider_sb blake3 buf (best, g)" using b by (simp add: best_of_def)
  then show ?case using snoc unfolding b consider_valid by (cases best) auto
qed

text \<open>The run reads a part of the ks, all of them when the cache holds them.\<close>

lemma best_fold:
  assumes "cache_inv chk m" and "\<forall>s \<in> set ks. s < SUPERBLOCK_SLOTS"
  shows "\<exists>ss m'. fold (best_step blake3) ks (acc, m) =
      (fold (consider_sb blake3) (map (\<lambda>s. view m (SUPERBLOCK_START + s)) ss) acc, m') \<and> set ss \<subseteq> set ks \<and>
      cache_inv chk m' \<and> view m' = view m \<and> (\<forall>B. quiet B m m')"
  using assms
proof (induction ks arbitrary: acc m)
  case Nil
  then show ?case by (auto intro: exI [of _ "[]"])
next
  case (Cons s ks)
  have b: "SUPERBLOCK_START + s < 2 ^ 64" using Cons.prems(2) by (auto simp: format_consts)
  obtain r m1 where rd: "cache_read (SUPERBLOCK_START + s) m = (r, m1)" by fastforce
  note sp = cache_read_spec [OF Cons.prems(1) b rd]
  show ?case
  proof (cases r)
    case (Inl e)
    then have "fold (best_step blake3) (s # ks) (acc, m) = fold (best_step blake3) ks (acc, m1)"
      using rd by (simp add: best_step_def)
    moreover obtain ss m' where "fold (best_step blake3) ks (acc, m1) =
        (fold (consider_sb blake3) (map (\<lambda>s. view m1 (SUPERBLOCK_START + s)) ss) acc, m')" "set ss \<subseteq> set ks"
        "cache_inv chk m'" "view m' = view m1" "\<forall>B. quiet B m1 m'"
      using Cons.IH [OF sp(1)] Cons.prems(2) by (metis list.set_intros(2))
    ultimately show ?thesis using sp(2,3) quiet_trans by (intro exI [of _ ss] exI [of _ m']) (auto, blast)
  next
    case (Inr buf)
    then have "buf = view m (SUPERBLOCK_START + s)" using sp(4) by blast
    then have "fold (best_step blake3) (s # ks) (acc, m) =
        fold (best_step blake3) ks (consider_sb blake3 (view m (SUPERBLOCK_START + s)) acc, m1)"
      using rd Inr by (simp add: best_step_def)
    moreover obtain ss m' where "fold (best_step blake3) ks (consider_sb blake3 (view m (SUPERBLOCK_START + s)) acc, m1) =
        (fold (consider_sb blake3) (map (\<lambda>s. view m1 (SUPERBLOCK_START + s)) ss) (consider_sb blake3 (view m (SUPERBLOCK_START + s)) acc), m')"
        "set ss \<subseteq> set ks" "cache_inv chk m'" "view m' = view m1" "\<forall>B. quiet B m1 m'"
      using Cons.IH [OF sp(1)] Cons.prems(2) by (metis list.set_intros(2))
    ultimately show ?thesis using sp(2,3) quiet_trans by (intro exI [of _ "s # ss"] exI [of _ m']) (auto, blast)
  qed
qed


lemma read_best_result:
  assumes "cache_inv chk m" and "read_best blake3 m = (r, m')"
  shows "\<exists>ks best. set ks \<subseteq> {0..<SUPERBLOCK_SLOTS} \<and> r = Inr best \<and>
      best = fst (best_of blake3 (map (\<lambda>s. view m (SUPERBLOCK_START + s)) ks)) \<and>
      cache_inv chk m' \<and> view m' = view m \<and> (\<forall>B. quiet B m m')"
proof -
  have "\<forall>s \<in> set [0..<SUPERBLOCK_SLOTS]. s < SUPERBLOCK_SLOTS" by simp
  from best_fold [OF assms(1) this, of blake3 "(None, 0)"] obtain ks m1 where
    "fold (best_step blake3) [0..<SUPERBLOCK_SLOTS] ((None, 0), m) =
      (best_of blake3 (map (\<lambda>s. view m (SUPERBLOCK_START + s)) ks), m1)" "set ks \<subseteq> {0..<SUPERBLOCK_SLOTS}"
      "cache_inv chk m1" "view m1 = view m" "\<forall>B. quiet B m m1"
    unfolding best_of_def by auto
  then show ?thesis using assms(2) unfolding read_best_def
    by (intro exI [of _ ks]) (auto split: prod.splits)
qed

section \<open>Writing the ring\<close>

lemma write_all_result:
  assumes inv: "cache_inv chk m" and ok: "sb_ok sb" "\<And>b. length (blake3 b) = 32"
  shows "wpE (write_all blake3 sb)
    (\<lambda>sb' m'. sb' = set_checksum blake3 sb \<and> cache_inv chk m' \<and>
       (\<forall>s < SUPERBLOCK_SLOTS. view m' (SUPERBLOCK_START + s) = sb_bytes sb') \<and>
       (\<forall>b. b \<notin> {SUPERBLOCK_START..<JOURNAL_START} \<longrightarrow> view m' b = view m b) \<and> quiet {SUPERBLOCK_START..<JOURNAL_START} m m')
    (\<lambda>e m'. cache_inv chk m' \<and> (\<forall>b. b \<notin> {SUPERBLOCK_START..<JOURNAL_START} \<longrightarrow> view m' b = view m b) \<and>
       quiet {SUPERBLOCK_START..<JOURNAL_START} m m') m"
proof -
  let ?sb = "set_checksum blake3 sb"
  let ?items = "map (\<lambda>slot. (SUPERBLOCK_START + slot, sb_bytes ?sb)) [0..<SUPERBLOCK_SLOTS]"
  have len: "length (sb_bytes ?sb) = BLOCK_SIZE" by (rule length_sb_bytes) (rule set_checksum_ok(1) [OF ok])
  have out: "b \<notin> {SUPERBLOCK_START..<JOURNAL_START} \<Longrightarrow> put_blocks (take k ?items) v b = v b" for b k v
    by (rule put_blocks_other) (auto simp: format_consts take_map dest: in_set_takeD)
  have ins: "put_blocks ?items v (SUPERBLOCK_START + s) = sb_bytes ?sb" if "s < SUPERBLOCK_SLOTS" for s v
    by (rule put_blocks_in) (use that in \<open>auto simp: distinct_map inj_on_def comp_def\<close>)
  have "wpE (forE (\<lambda>(b, buf). cache_write b buf) ?items)
      (\<lambda>_ m'. cache_inv chk m' \<and> view m' = put_blocks ?items (view m) \<and> quiet {SUPERBLOCK_START..<JOURNAL_START} m m')
      (\<lambda>e m'. cache_inv chk m' \<and> quiet {SUPERBLOCK_START..<JOURNAL_START} m m' \<and>
         (\<exists>k \<le> length ?items. view m' = put_blocks (take k ?items) (view m))) m"
    by (rule cache_store.wr_list [OF inv]) (auto simp: len format_consts)
  then show ?thesis
    unfolding write_all_def Let_def wpE_bind wpE_ret
    by (rule wpE_mono) (use out [of _ "length ?items"] out ins in auto)
qed

text \<open>A write past the cache, to a block the cache does not hold.\<close>

lemma rep_media_update:
  assumes rep: "cache_rep chk m xs" and none: "cmap m b = None" and b: "b < 2 ^ 64" and len: "length buf = BLOCK_SIZE"
    and d: "media d = (media (dev m))(actual (dev m) b := buf)" "partition_offset d = partition_offset (dev m)"
  shows "cache_rep chk (m\<lparr>dev := d\<rparr>) xs" "view (m\<lparr>dev := d\<rparr>) = (view m)(b := buf)"
proof -
  have act: "actual d = actual (dev m)" by (simp add: fun_eq_iff actual_def d(2))
  have ne: "actual (dev m) (s_block (slots m ! s)) \<noteq> actual (dev m) b" if "s \<in> set xs" for s
  proof
    assume "actual (dev m) (s_block (slots m ! s)) = actual (dev m) b"
    then have "s_block (slots m ! s) = b" by (rule actual_inj [OF cache_repD(5) [OF rep that] b])
    then have "cmap m b = Some s" using cache_repD(4) [OF rep, of b s] that by blast
    then show False using none by simp
  qed
  show "cache_rep chk (m\<lparr>dev := d\<rparr>) xs"
  proof -
    have "lru (m\<lparr>dev := d\<rparr>) xs = lru m xs" by (simp add: lru_def)
    moreover have "slots_ok (m\<lparr>dev := d\<rparr>) xs = slots_ok m xs" by (simp add: slots_ok_def owned_frame_def)
    moreover have "bytes_ok chk (m\<lparr>dev := d\<rparr>) xs = bytes_ok chk m xs"
      unfolding bytes_ok_def using ne by (intro ball_cong) (simp_all add: slot_bytes_def d(1) act)
    moreover have "env_ok m \<Longrightarrow> env_ok (m\<lparr>dev := d\<rparr>)" using len by (simp add: env_ok_def d(1))
    ultimately show ?thesis using rep by (simp add: cache_rep_def)
  qed
  have "actual (dev m) c \<noteq> actual (dev m) b" if "c \<noteq> b" "c < 2 ^ 64" for c
    using that actual_inj [OF that(2) b, of "dev m"] by auto
  then show "view (m\<lparr>dev := d\<rparr>) = (view m)(b := buf)"
    using none b by (auto simp: view_def fun_eq_iff d(1) act slot_bytes_def split: option.split)
qed

definition next_call :: "block_device \<Rightarrow> block_device" where
  "next_call d = d\<lparr>calls := calls d + 1\<rparr>"

lemma next_call_fields [simp]:
  "media (next_call d) = media d" "durable (next_call d) = durable d" "unflushed (next_call d) = unflushed d"
  "partition_offset (next_call d) = partition_offset d" "discarded (next_call d) = discarded d"
  by (simp_all add: next_call_def)

lemma drv_write_fua_cases:
  "drv_write_fua b buf d = (r, d') \<Longrightarrow> r = Inr () \<and> d' = put_durable b buf (next_call d) \<or>
     (\<exists>e. r = Inl e \<and> (d' = next_call d \<or> d' = put_media b buf (next_call d)))"
  by (auto simp: drv_write_fua_def tick_def next_call_def split: outcome.splits if_splits)

lemma dirty_set_dev [simp]: "dirty_set (m\<lparr>dev := d\<rparr>) = dirty_set m"
  by (simp add: dirty_set_def)

lemma write_next_durable_result:
  assumes inv: "cache_inv chk m" and ok: "sb_ok sb" "\<And>b. length (blake3 b) = 32"
    and w: "write_next_durable blake3 sb m = (r, m')" and slot: "slot = SUPERBLOCK_START + sb_generation sb mod SUPERBLOCK_SLOTS"
    and clean: "view m slot = media (dev m) (actual (dev m) slot)"
  shows "cache_inv chk m' \<and> io.more m' = io.more m \<and> dirty_set m' \<subseteq> dirty_set m \<and>
    ((\<exists>sb'. r = Inr (slot, sb') \<and> sb' = set_checksum blake3 sb \<and> view m' = (view m)(slot := sb_bytes sb') \<and>
        dev m' = put_durable (actual (dev m) slot) (sb_bytes sb') (next_call (dev m))) \<or>
     (\<exists>e. r = Inl e \<and> view m' = view m \<and> dev m' = next_call (dev m)) \<or>
     (\<exists>e. r = Inl e \<and> view m' = (view m)(slot := sb_bytes (set_checksum blake3 sb)) \<and>
        dev m' = put_media (actual (dev m) slot) (sb_bytes (set_checksum blake3 sb)) (next_call (dev m))))"
proof -
  let ?buf = "sb_bytes (set_checksum blake3 sb)"
  have len: "length ?buf = BLOCK_SIZE" by (rule length_sb_bytes) (rule set_checksum_ok(1) [OF ok])
  have b: "slot < 2 ^ 64" unfolding slot using mod_less_divisor [of SUPERBLOCK_SLOTS "sb_generation sb"]
    by (simp add: SUPERBLOCK_START_def SUPERBLOCK_SLOTS_def)
  have gen: "sb_generation (set_checksum blake3 sb) = sb_generation sb" by (simp add: set_checksum_def)
  define m1 where "m1 = invalidate slot m"
  note i = invalidate_spec [OF inv, where b = slot]
  have m1: "cache_inv chk m1" "cmap m1 slot = None" "dev m1 = dev m" "view m1 = view m" "io.more m1 = io.more m"
    "dirty_set m1 \<subseteq> dirty_set m"
  proof -
    show "view m1 = view m" using i(4) [OF b] clean by (simp add: m1_def fun_upd_idem)
    show "dirty_set m1 \<subseteq> dirty_set m" using i(2) [where B = "dirty_set m"] by (simp add: m1_def quiet_def)
  qed (use i quietD in \<open>auto simp: m1_def\<close>)
  obtain xs where rep: "cache_rep chk m1 xs" using m1(1) by (auto simp: cache_inv_def)
  obtain q d where q: "drv_write_fua (actual (dev m) slot) ?buf (dev m) = (q, d)" by fastforce
  have r: "(r, m') = (case q of Inl e \<Rightarrow> (Inl (Disk e), m1\<lparr>dev := d\<rparr>) | Inr _ \<Rightarrow> (Inr (slot, set_checksum blake3 sb), m1\<lparr>dev := d\<rparr>))"
    using w q by (cases q) (simp_all add: write_next_durable_def Let_def gen bindE_def on_dev_def write_block_fua_def m1(3)
        flip: slot m1_def, simp_all add: retE_def)
  have "dev m' = d" "io.more m' = io.more m" "dirty_set m' \<subseteq> dirty_set m" using r m1(5,6) by (auto split: sum.splits)
  have upd: "cache_inv chk (m1\<lparr>dev := d\<rparr>)" "view (m1\<lparr>dev := d\<rparr>) = (view m)(slot := ?buf)"
    if "d = put_durable (actual (dev m) slot) ?buf (next_call (dev m)) \<or> d = put_media (actual (dev m) slot) ?buf (next_call (dev m))"
    using rep_media_update [OF rep m1(2) b len, of d] that m1(3,4) by (auto simp: cache_inv_def put_durable_def put_media_def)
  have same: "cache_inv chk (m1\<lparr>dev := d\<rparr>)" "view (m1\<lparr>dev := d\<rparr>) = view m" if "d = next_call (dev m)"
    using rep_dev_same [OF rep, of d] that m1(3,4) by (auto simp: cache_inv_def same_disk_def next_call_def)
  from drv_write_fua_cases [OF q] show ?thesis
    using r upd same \<open>dev m' = d\<close> \<open>io.more m' = io.more m\<close> \<open>dirty_set m' \<subseteq> dirty_set m\<close> by (elim disjE exE conjE) simp_all
qed

end
