(* ===== verification/Block_Bitmap.thy ===== *)
theory Block_Bitmap
  imports Block_Store
begin

text \<open>
  The block allocation bitmap of \<^verbatim>\<open>kernel/src/storage/npkfs/bitmap.rs\<close>: loading it from its blocks,
  a fresh one for a format, next-fit allocation of runs, freeing, writing the changed bitmap blocks
  back, and the discard of freed ranges. The record \<open>alloc_io\<close> is the cache state together with the
  bitmap, which is what an operation that allocates works on. The lemmas describe the bitmap by the set
  \<open>free_blocks\<close>.
\<close>

section \<open>Definitions\<close>

record bitmap =
  bm_data :: bytes
  bm_start :: nat
  bm_count :: nat
  bm_data_start :: nat
  bm_total :: nat
  bm_free :: nat
  bm_dirty :: bool
  bm_dirty_blocks :: "bool list"
  trim_pending :: "(nat \<times> nat) list"
  alloc_cursor :: nat

record alloc_io = io +
  bmap :: bitmap

definition div_ceil :: "nat \<Rightarrow> nat \<Rightarrow> nat" where
  "div_ceil a b = (a + b - 1) div b"

text \<open>\<open>is_free\<close>, \<open>set_used\<close>, \<open>set_free\<close> and \<open>count_free\<close> on the byte vector are \<open>bv_clear\<close>,
  \<open>bv_set\<close>, \<open>bv_unset\<close> and \<open>count_free\<close>.\<close>

definition count_free :: "bytes \<Rightarrow> nat \<Rightarrow> nat" where
  "count_free data n = length (filter (bv_clear data) [0..<n])"

definition load_block :: "nat \<Rightarrow> nat \<Rightarrow> nat \<Rightarrow> bytes \<Rightarrow> ('a io_scheme, fs_error, bytes) op" where
  "load_block bitmap_start byte_count i data =
     bindE (cache_read (wrap64 (bitmap_start + i))) (\<lambda>buf.
       let offset = i * BLOCK_SIZE; copy_len = min BLOCK_SIZE (byte_count - offset)
       in retE (splice offset (take copy_len buf) data))"

fun load_blocks :: "nat \<Rightarrow> nat \<Rightarrow> nat list \<Rightarrow> bytes \<Rightarrow> ('a io_scheme, fs_error, bytes) op" where
  "load_blocks bitmap_start byte_count [] data = retE data"
| "load_blocks bitmap_start byte_count (i # is) data =
     bindE (load_block bitmap_start byte_count i data) (load_blocks bitmap_start byte_count is)"

text \<open>\<open>try_reserve_exact\<close> is taken to find room for the bits; the source returns \<open>Corrupt\<close> where it does not.\<close>

definition load_args :: "nat \<Rightarrow> nat \<Rightarrow> nat \<Rightarrow> nat \<Rightarrow> ('a io_scheme, fs_error, bitmap) op" where
  "load_args total_blocks bitmap_start bitmap_count data_start =
     (let byte_count = div_ceil total_blocks 8
      in if bitmap_count \<noteq> div_ceil byte_count BLOCK_SIZE \<or> data_start < min U64_MAX (bitmap_start + bitmap_count)
            \<or> data_start > total_blocks
         then throwE Corrupt
         else bindE (load_blocks bitmap_start byte_count [0..<bitmap_count] (replicate byte_count 0)) (\<lambda>data.
              retE \<lparr>bm_data = data, bm_start = bitmap_start, bm_count = bitmap_count,
                    bm_data_start = data_start, bm_total = total_blocks,
                    bm_free = count_free data total_blocks, bm_dirty = False,
                    bm_dirty_blocks = replicate bitmap_count False, trim_pending = [],
                    alloc_cursor = data_start\<rparr>))"

definition new_for_mkfs :: "nat \<Rightarrow> nat \<Rightarrow> nat \<Rightarrow> nat \<Rightarrow> bitmap" where
  "new_for_mkfs total_blocks bitmap_start bitmap_count data_start =
     (let byte_count = (total_blocks + 7) div 8;
          data = bv_set_list [0..<data_start] (replicate byte_count 0)
      in \<lparr>bm_data = data, bm_start = bitmap_start, bm_count = bitmap_count,
          bm_data_start = data_start, bm_total = total_blocks,
          bm_free = total_blocks - data_start, bm_dirty = True,
          bm_dirty_blocks = replicate bitmap_count True, trim_pending = [],
          alloc_cursor = data_start\<rparr>)"

definition bm_mark_dirty :: "bitmap \<Rightarrow> bitmap" where
  "bm_mark_dirty bm = bm\<lparr>bm_dirty := True\<rparr>"

definition is_allocated :: "nat \<Rightarrow> bitmap \<Rightarrow> bool" where
  "is_allocated block bm = (if block \<ge> bm_total bm then False else \<not> bv_clear (bm_data bm) block)"

definition mark_block_dirty :: "nat \<Rightarrow> bitmap \<Rightarrow> bitmap" where
  "mark_block_dirty block bm =
     (let idx = (block div 8) div BLOCK_SIZE
      in if idx < length (bm_dirty_blocks bm)
         then bm\<lparr>bm_dirty_blocks := (bm_dirty_blocks bm)[idx := True]\<rparr> else bm)"

definition use_block :: "nat \<Rightarrow> bitmap \<Rightarrow> bitmap" where
  "use_block blk bm = mark_block_dirty blk (bm\<lparr>bm_data := bv_set (bm_data bm) blk\<rparr>)"

fun run_search :: "bytes \<Rightarrow> nat \<Rightarrow> nat list \<Rightarrow> nat \<Rightarrow> nat \<Rightarrow> nat option" where
  "run_search data count [] run_start run_len = None"
| "run_search data count (b # bs) run_start run_len =
     (if bv_clear data b
      then let run_start = (if run_len = 0 then b else run_start); run_len = run_len + 1
           in if run_len = count then Some run_start else run_search data count bs run_start run_len
      else run_search data count bs run_start 0)"

definition take_run :: "nat \<Rightarrow> nat \<Rightarrow> bitmap \<Rightarrow> bitmap" where
  "take_run run_start count bm =
     (let bm1 = fold (\<lambda>i. use_block (run_start + i)) [0..<count] bm;
          cursor = run_start + count
      in bm1\<lparr>bm_free := bm_free bm1 - count, bm_dirty := True,
             alloc_cursor := (if cursor \<ge> bm_total bm1 then bm_data_start bm1 else cursor)\<rparr>)"

definition find_run :: "nat \<Rightarrow> nat \<Rightarrow> nat \<Rightarrow> bitmap \<Rightarrow> nat option \<times> bitmap" where
  "find_run from to count bm =
     (case run_search (bm_data bm) count [from..<to] from 0 of
        None \<Rightarrow> (None, bm)
      | Some run_start \<Rightarrow> (Some run_start, take_run run_start count bm))"

definition bm_alloc :: "nat \<Rightarrow> (bitmap, fs_error, nat) op" where
  "bm_alloc count bm =
     (if count = 0 \<or> count > bm_free bm then (Inl DiskFull, bm)
      else case find_run (alloc_cursor bm) (bm_total bm) count bm of
             (Some block, bm1) \<Rightarrow> (Inr block, bm1)
           | (None, bm1) \<Rightarrow>
               if alloc_cursor bm1 > bm_data_start bm1
               then case find_run (bm_data_start bm1) (alloc_cursor bm1) count bm1 of
                      (Some block, bm2) \<Rightarrow> (Inr block, bm2)
                    | (None, bm2) \<Rightarrow> (Inl DiskFull, bm2)
               else (Inl DiskFull, bm1))"

definition free_block :: "nat \<Rightarrow> bitmap \<Rightarrow> bitmap" where
  "free_block b bm =
     (if b < bm_total bm \<and> \<not> bv_clear (bm_data bm) b
      then let bm1 = mark_block_dirty b (bm\<lparr>bm_data := bv_unset (bm_data bm) b\<rparr>)
           in bm1\<lparr>bm_free := bm_free bm1 + 1\<rparr>
      else bm)"

definition bm_free_range :: "nat \<Rightarrow> nat \<Rightarrow> bitmap \<Rightarrow> bitmap" where
  "bm_free_range start count bm =
     (if \<not> (start + count \<le> U64_MAX \<and> start \<ge> bm_data_start bm \<and> start + count \<le> bm_total bm) then bm
      else let bm1 = fold (\<lambda>i. free_block (start + i)) [0..<count] bm
           in if count > 0 then bm1\<lparr>trim_pending := trim_pending bm1 @ [(start, count)], bm_dirty := True\<rparr> else bm1)"

definition sync_block :: "nat \<Rightarrow> ('a alloc_io_scheme, fs_error, unit) op" where
  "sync_block i m =
     (let bm = bmap m
      in if i < length (bm_dirty_blocks bm) \<and> \<not> bm_dirty_blocks bm ! i then (Inr (), m)
         else let offset = i * BLOCK_SIZE; copy_len = min BLOCK_SIZE (length (bm_data bm) - offset);
                  buf = splice 0 (slice offset copy_len (bm_data bm)) (replicate BLOCK_SIZE 0)
              in bindE (cache_write (wrap64 (bm_start bm + i)) buf) (\<lambda>_ m.
                   (Inr (), if i < length (bm_dirty_blocks (bmap m))
                            then m\<lparr>bmap := (bmap m)\<lparr>bm_dirty_blocks := (bm_dirty_blocks (bmap m))[i := False]\<rparr>\<rparr>
                            else m)) m)"

definition bm_sync :: "('a alloc_io_scheme, fs_error, unit) op" where
  "bm_sync m = (if \<not> bm_dirty (bmap m) then (Inr (), m) else forE sync_block [0..<bm_count (bmap m)] m)"

text \<open>The runs still free inside one freed range, merged into the ranges found so far.\<close>

function run_end :: "bytes \<Rightarrow> nat \<Rightarrow> nat \<Rightarrow> nat" where
  "run_end data e b = (if b < e \<and> bv_clear data b then run_end data e (b + 1) else b)"
  by pat_completeness auto
termination
  by (relation "measure (\<lambda>(_, e, b). e - b)") auto

declare run_end.simps [simp del]

lemma run_end_ge: "b \<le> run_end data e b"
  by (induction data e b rule: run_end.induct) (subst run_end.simps, auto)

lemma run_end_gt: "b < e \<Longrightarrow> bv_clear data b \<Longrightarrow> b < run_end data e b"
  using run_end_ge [of "b + 1" data e] by (subst run_end.simps) simp

definition merge_run :: "(nat \<times> nat) list \<Rightarrow> nat \<Rightarrow> nat \<Rightarrow> (nat \<times> nat) list" where
  "merge_run merged run b =
     (if merged \<noteq> [] \<and> wrap64 (fst (last merged) + snd (last merged)) \<ge> run
      then butlast merged @ [(fst (last merged), max (snd (last merged)) (wrap64 (b + 2 ^ 64 - fst (last merged))))]
      else merged @ [(run, b - run)])"

function trim_range :: "bytes \<Rightarrow> nat \<Rightarrow> nat \<Rightarrow> (nat \<times> nat) list \<Rightarrow> (nat \<times> nat) list" where
  "trim_range data e b merged =
     (if b < e
      then if \<not> bv_clear data b then trim_range data e (b + 1) merged
           else trim_range data e (run_end data e b) (merge_run merged b (run_end data e b))
      else merged)"
  by pat_completeness auto
termination
  by (relation "measure (\<lambda>(_, e, b, _). e - b)") (auto intro!: diff_less_mono2 run_end_gt)

declare trim_range.simps [simp del]

definition trim_ranges :: "bitmap \<Rightarrow> (nat \<times> nat) list" where
  "trim_ranges bm =
     fold (\<lambda>(start, count). trim_range (bm_data bm) (min (start + count) (bm_total bm)) start)
       (sort_key fst (trim_pending bm)) []"

definition flush_trims :: "'a alloc_io_scheme \<Rightarrow> 'a alloc_io_scheme" where
  "flush_trims m =
     (case discard_ranges (trim_ranges (bmap m)) (dev m) of
        (_, d) \<Rightarrow> m\<lparr>dev := d, bmap := (bmap m)\<lparr>trim_pending := []\<rparr>\<rparr>)"

section \<open>The set of free blocks\<close>

definition free_blocks :: "bitmap \<Rightarrow> nat set" where
  "free_blocks bm = clear_bits (bm_data bm) (bm_total bm)"

definition bm_inv :: "bitmap \<Rightarrow> bool" where
  "bm_inv bm \<longleftrightarrow> length (bm_data bm) = div_ceil (bm_total bm) 8 \<and> bm_total bm < 2 ^ 64 \<and>
     bm_free bm = card (free_blocks bm) \<and> bm_data_start bm \<le> bm_total bm \<and>
     bm_data_start bm \<le> alloc_cursor bm \<and> alloc_cursor bm \<le> bm_total bm \<and>
     bm_count bm = div_ceil (length (bm_data bm)) BLOCK_SIZE \<and> length (bm_dirty_blocks bm) = bm_count bm \<and>
     bm_start bm + bm_count bm \<le> bm_data_start bm \<and> (bm_dirty bm \<or> True \<notin> set (bm_dirty_blocks bm)) \<and>
     (\<forall>(s, n) \<in> set (trim_pending bm). bm_data_start bm \<le> s \<and> s + n \<le> bm_total bm)"

lemma div_ceil_ge: "0 < b \<Longrightarrow> a \<le> b * div_ceil a b"
proof -
  assume b: "0 < b"
  have "a + b - 1 < b * (div_ceil a b + 1)" unfolding div_ceil_def using dividend_less_div_times [OF b, of "a + b - 1"] by (simp add: algebra_simps)
  then show ?thesis using b by (simp add: algebra_simps)
qed

lemma bm_inv_mark_dirty: "bm_inv bm \<Longrightarrow> bm_inv (bm_mark_dirty bm)"
  by (auto simp: bm_inv_def bm_mark_dirty_def free_blocks_def clear_bits_def)

lemma bm_inv_bits: "bm_inv bm \<Longrightarrow> b < bm_total bm \<Longrightarrow> b < 8 * length (bm_data bm)"
  using div_ceil_ge [of 8 "bm_total bm"] by (simp add: bm_inv_def)

lemma free_blocks_iff: "b \<in> free_blocks bm \<longleftrightarrow> b < bm_total bm \<and> bv_clear (bm_data bm) b"
  by (simp add: free_blocks_def clear_bits_iff)

lemma finite_free_blocks [simp]: "finite (free_blocks bm)"
  by (simp add: free_blocks_def)

text \<open>The fields the allocator never changes.\<close>

definition same_layout :: "bitmap \<Rightarrow> bitmap \<Rightarrow> bool" where
  "same_layout bm bm' \<longleftrightarrow> bm_start bm' = bm_start bm \<and> bm_count bm' = bm_count bm \<and>
     bm_data_start bm' = bm_data_start bm \<and> bm_total bm' = bm_total bm \<and> length (bm_data bm') = length (bm_data bm) \<and>
     length (bm_dirty_blocks bm') = length (bm_dirty_blocks bm)"

lemma same_layout_refl [simp]: "same_layout bm bm"
  by (simp add: same_layout_def)

lemma same_layout_trans [trans]: "same_layout a b \<Longrightarrow> same_layout b c \<Longrightarrow> same_layout a c"
  by (simp add: same_layout_def)

lemma mark_block_dirty_fields [simp]:
  "bm_data (mark_block_dirty b bm) = bm_data bm" "bm_start (mark_block_dirty b bm) = bm_start bm"
  "bm_count (mark_block_dirty b bm) = bm_count bm" "bm_data_start (mark_block_dirty b bm) = bm_data_start bm"
  "bm_total (mark_block_dirty b bm) = bm_total bm" "bm_free (mark_block_dirty b bm) = bm_free bm"
  "length (bm_dirty_blocks (mark_block_dirty b bm)) = length (bm_dirty_blocks bm)"
  "trim_pending (mark_block_dirty b bm) = trim_pending bm" "alloc_cursor (mark_block_dirty b bm) = alloc_cursor bm"
  "bm_dirty (mark_block_dirty b bm) = bm_dirty bm"
  by (simp_all add: mark_block_dirty_def Let_def)

text \<open>The contents of a bitmap block, and that every block whose contents change is marked for writing.\<close>

definition bm_slice :: "bitmap \<Rightarrow> nat \<Rightarrow> bytes" where
  "bm_slice bm i = slice (i * BLOCK_SIZE) (min BLOCK_SIZE (length (bm_data bm) - i * BLOCK_SIZE)) (bm_data bm)"

definition tracks :: "bitmap \<Rightarrow> bitmap \<Rightarrow> bool" where
  "tracks bm bm' \<longleftrightarrow> same_layout bm bm' \<and>
     (\<forall>i < length (bm_dirty_blocks bm). \<not> bm_dirty_blocks bm' ! i \<longrightarrow> \<not> bm_dirty_blocks bm ! i \<and> bm_slice bm' i = bm_slice bm i)"

lemma tracks_refl [simp]: "tracks bm bm"
  by (simp add: tracks_def)

lemma tracks_trans [trans]: "tracks a b \<Longrightarrow> tracks b c \<Longrightarrow> tracks a c"
  unfolding tracks_def same_layout_def by metis

lemma tracks_layout: "tracks bm bm' \<Longrightarrow> same_layout bm bm'"
  by (simp add: tracks_def)

lemma slice_update_other:
  assumes "j < off \<or> off + n \<le> j"
  shows "slice off n (xs[j := v]) = slice off n xs"
  using assms unfolding slice_def by (auto simp: drop_update_swap take_update_swap list_update_beyond)

lemma tracks_mark:
  assumes "b div 8 < length (bm_data bm)"
  shows "tracks bm (mark_block_dirty b (bm\<lparr>bm_data := (bm_data bm)[b div 8 := v]\<rparr>))" (is "tracks bm ?bm")
proof -
  have "bm_slice ?bm i = bm_slice bm i \<and> \<not> bm_dirty_blocks bm ! i"
    if i: "i < length (bm_dirty_blocks bm)" "\<not> bm_dirty_blocks ?bm ! i" for i
  proof -
    have ne: "b div 8 div BLOCK_SIZE \<noteq> i" using i by (auto simp: mark_block_dirty_def Let_def)
    then have out: "b div 8 < i * BLOCK_SIZE \<or> i * BLOCK_SIZE + n \<le> b div 8" if "n \<le> BLOCK_SIZE" for n
      using that unfolding BLOCK_SIZE_def by linarith
    have "slice (i * BLOCK_SIZE) (min BLOCK_SIZE k) ((bm_data bm)[b div 8 := v]) =
        slice (i * BLOCK_SIZE) (min BLOCK_SIZE k) (bm_data bm)" for k
      by (rule slice_update_other [OF out]) simp
    moreover have "\<not> bm_dirty_blocks bm ! i" using i ne by (auto simp: mark_block_dirty_def Let_def split: if_splits)
    ultimately show ?thesis by (simp add: bm_slice_def)
  qed
  then show ?thesis by (simp add: tracks_def same_layout_def)
qed

section \<open>Allocation\<close>

definition run_at :: "bytes \<Rightarrow> nat \<Rightarrow> nat \<Rightarrow> bool" where
  "run_at data r n = (\<forall>i < n. bv_clear data (r + i))"

lemma run_at_Suc: "run_at data r (Suc n) \<longleftrightarrow> run_at data r n \<and> bv_clear data (r + n)"
  by (auto simp: run_at_def less_Suc_eq)

lemma run_at_0 [simp]: "run_at data r 0"
  by (simp add: run_at_def)

lemma run_search_Some:
  assumes "run_search data count [b..<b + k] rs rl = Some r" and "rl < count" and "0 < rl \<Longrightarrow> rs + rl = b"
    and "run_at data (if rl = 0 then b else rs) rl"
  shows "run_at data r count \<and> (if rl = 0 then b else rs) \<le> r \<and> r + count \<le> b + k"
  using assms
proof (induction k arbitrary: b rs rl)
  case 0
  then show ?case by simp
next
  case (Suc k)
  let ?rs = "if rl = 0 then b else rs"
  have up: "[b..<b + Suc k] = b # [Suc b..<Suc b + k]" by (simp add: upt_rec)
  have at: "?rs + rl = b" using Suc.prems(3) by auto
  show ?case
  proof (cases "bv_clear data b")
    case True
    then have run: "run_at data ?rs (Suc rl)" using Suc.prems(4) at by (simp add: run_at_Suc)
    show ?thesis
    proof (cases "rl + 1 = count")
      case last: True
      then have "r = ?rs" using Suc.prems(1) True unfolding up by simp
      then show ?thesis using run last at by auto
    next
      case False
      then have "run_search data count [Suc b..<Suc b + k] ?rs (Suc rl) = Some r"
        using Suc.prems(1) True unfolding up by (simp add: Let_def)
      from Suc.IH [OF this] show ?thesis using Suc.prems(2) False run at by auto
    qed
  next
    case False
    then have "run_search data count [Suc b..<Suc b + k] rs 0 = Some r" using Suc.prems(1) unfolding up by simp
    from Suc.IH [OF this] show ?thesis using Suc.prems(2) at by auto
  qed
qed

lemma run_search_None:
  assumes "run_search data count [b..<b + k] rs rl = None" and "rl < count" and "0 < rl \<Longrightarrow> rs + rl = b"
    and "(if rl = 0 then b else rs) \<le> r" and "r + count \<le> b + k"
  shows "\<not> run_at data r count"
  using assms
proof (induction k arbitrary: b rs rl)
  case 0
  then show ?case by (auto split: if_splits)
next
  case (Suc k)
  let ?rs = "if rl = 0 then b else rs"
  have up: "[b..<b + Suc k] = b # [Suc b..<Suc b + k]" by (simp add: upt_rec)
  have at: "?rs + rl = b" using Suc.prems(3) by auto
  show ?case
  proof (cases "bv_clear data b")
    case True
    then have "rl + 1 \<noteq> count" "run_search data count [Suc b..<Suc b + k] ?rs (Suc rl) = None"
      using Suc.prems(1) unfolding up by (simp_all only: run_search.simps Let_def if_True Suc_eq_plus1 split: if_splits) simp_all
    from Suc.IH [OF this(2)] this(1) show ?thesis using Suc.prems(2,4,5) at by auto
  next
    case False
    then have "run_search data count [Suc b..<Suc b + k] rs 0 = None" using Suc.prems(1) unfolding up by simp
    from Suc.IH [OF this] have "Suc b \<le> r \<Longrightarrow> ?thesis" using Suc.prems(2,5) by auto
    moreover have "r \<le> b \<Longrightarrow> ?thesis"
    proof
      assume le: "r \<le> b" and run: "run_at data r count"
      have "b < r + count" using Suc.prems(2,4) at by linarith
      then have "b - r < count" "r + (b - r) = b" using le by simp_all
      then show False using run False unfolding run_at_def by metis
    qed
    ultimately show ?thesis by linarith
  qed
qed

lemma use_block_fields [simp]:
  "bm_start (use_block b bm) = bm_start bm" "bm_count (use_block b bm) = bm_count bm"
  "bm_data_start (use_block b bm) = bm_data_start bm" "bm_total (use_block b bm) = bm_total bm"
  "bm_free (use_block b bm) = bm_free bm" "length (bm_dirty_blocks (use_block b bm)) = length (bm_dirty_blocks bm)"
  "trim_pending (use_block b bm) = trim_pending bm" "alloc_cursor (use_block b bm) = alloc_cursor bm"
  "bm_data (use_block b bm) = bv_set (bm_data bm) b"
  by (simp_all add: use_block_def)

lemma bit_index_less: "b < 8 * n \<Longrightarrow> b div 8 < (n :: nat)"
  by (simp add: less_mult_imp_div_less mult.commute)

lemma use_blocks:
  assumes "\<And>b. b \<in> set bs \<Longrightarrow> b < 8 * length (bm_data bm)" and "bm' = fold use_block bs bm"
  shows "bm_data bm' = bv_set_list bs (bm_data bm)" "tracks bm bm'" "bm_free bm' = bm_free bm"
    "trim_pending bm' = trim_pending bm" "alloc_cursor bm' = alloc_cursor bm"
proof -
  have "bm_data bm' = bv_set_list bs (bm_data bm) \<and> tracks bm bm' \<and> bm_free bm' = bm_free bm \<and>
      trim_pending bm' = trim_pending bm \<and> alloc_cursor bm' = alloc_cursor bm"
    using assms
  proof (induction bs arbitrary: bm)
    case Nil
    then show ?case by simp
  next
    case (Cons b bs)
    have "tracks bm (use_block b bm)"
      unfolding use_block_def bv_set_def by (rule tracks_mark) (use Cons.prems(1) bit_index_less in auto)
    then show ?case using Cons.IH [of "use_block b bm"] Cons.prems by (auto intro: tracks_trans)
  qed
  then show "bm_data bm' = bv_set_list bs (bm_data bm)" "tracks bm bm'" "bm_free bm' = bm_free bm"
    "trim_pending bm' = trim_pending bm" "alloc_cursor bm' = alloc_cursor bm" by auto
qed

lemma take_run_result:
  assumes inv: "bm_inv bm" and run: "run_at (bm_data bm) r count" and r: "bm_data_start bm \<le> r" "r + count \<le> bm_total bm"
    and bm': "bm' = take_run r count bm"
  shows "bm_inv bm'" "tracks bm bm'" "free_blocks bm' = free_blocks bm - {r..<r + count}"
    "{r..<r + count} \<subseteq> free_blocks bm" "trim_pending bm' = trim_pending bm" "bm_dirty bm'"
proof -
  define bm1 where "bm1 = fold use_block (map ((+) r) [0..<count]) bm"
  have set: "set (map ((+) r) [0..<count]) = {r..<r + count}"
    using image_add_atLeastLessThan [of r 0 count] by (simp add: add.commute)
  have bnd: "b < 8 * length (bm_data bm)" if "b \<in> set (map ((+) r) [0..<count])" for b
    using that bm_inv_bits [OF inv] r(2) unfolding set by auto
  note u = use_blocks [OF bnd bm1_def]
  note lay = tracks_layout [OF u(2), unfolded same_layout_def]
  have eq: "bm' = bm1\<lparr>bm_free := bm_free bm1 - count, bm_dirty := True,
     alloc_cursor := (if r + count \<ge> bm_total bm1 then bm_data_start bm1 else r + count)\<rparr>"
    by (simp add: bm' take_run_def bm1_def Let_def fold_map comp_def)
  show sub: "{r..<r + count} \<subseteq> free_blocks bm"
  proof
    fix b assume b: "b \<in> {r..<r + count}"
    then have "b - r < count" "r + (b - r) = b" by auto
    then have "bv_clear (bm_data bm) b" using run unfolding run_at_def by metis
    then show "b \<in> free_blocks bm" using b r(2) by (auto simp: free_blocks_iff)
  qed
  show fb: "free_blocks bm' = free_blocks bm - {r..<r + count}"
  proof -
    have "clear_bits (bm_data bm1) (bm_total bm) = clear_bits (bm_data bm) (bm_total bm) - {r..<r + count}"
      unfolding set [symmetric] using clear_bits_set_list bnd u(1) by metis
    then show ?thesis using lay by (simp add: free_blocks_def eq)
  qed
  show "tracks bm bm'" using u(2) unfolding eq tracks_def same_layout_def bm_slice_def by auto
  show "trim_pending bm' = trim_pending bm" "bm_dirty bm'" using u(4) by (simp_all add: eq)
  have "card (free_blocks bm') = card (free_blocks bm) - count" unfolding fb using sub by (simp add: card_Diff_subset)
  then show "bm_inv bm'" using inv r lay u(3,4) unfolding bm_inv_def eq by (auto simp: free_blocks_def)
qed

lemma find_run_result:
  assumes inv: "bm_inv bm" and fr: "find_run from to count bm = (res, bm')" and "0 < count"
    and "bm_data_start bm \<le> from" "to \<le> bm_total bm"
  shows "case res of
      Some r \<Rightarrow> from \<le> r \<and> r + count \<le> to \<and> run_at (bm_data bm) r count \<and> bm' = take_run r count bm
    | None \<Rightarrow> bm' = bm \<and> (\<forall>r. from \<le> r \<and> r + count \<le> to \<longrightarrow> \<not> run_at (bm_data bm) r count)"
proof (cases "from \<le> to")
  case False
  then show ?thesis using fr assms(3) by (auto simp: find_run_def)
next
  case True
  then have up: "[from..<to] = [from..<from + (to - from)]" by simp
  show ?thesis
  proof (cases "run_search (bm_data bm) count [from..<to] from 0")
    case None
    then show ?thesis using fr run_search_None [OF None [unfolded up], of _] assms(3) True by (auto simp: find_run_def)
  next
    case (Some r)
    then have "res = Some r" "bm' = take_run r count bm" using fr by (simp_all add: find_run_def)
    then show ?thesis using run_search_Some [OF Some [unfolded up]] assms(3) True by auto
  qed
qed

lemma bm_alloc_Inr:
  assumes inv: "bm_inv bm" and al: "bm_alloc count bm = (Inr r, bm')"
  shows "0 < count" "bm_data_start bm \<le> r" "r + count \<le> bm_total bm" "run_at (bm_data bm) r count" "bm' = take_run r count bm"
proof -
  have c: "0 < count" "count \<le> bm_free bm" using al by (auto simp: bm_alloc_def split: if_splits)
  obtain r1 bm1 where f1: "find_run (alloc_cursor bm) (bm_total bm) count bm = (r1, bm1)" by fastforce
  have b1: "bm_data_start bm \<le> alloc_cursor bm" "alloc_cursor bm \<le> bm_total bm" using inv by (auto simp: bm_inv_def)
  note q1 = find_run_result [OF inv f1 c(1) b1(1) order_refl]
  show "0 < count" by (rule c)
  have "bm_data_start bm \<le> r \<and> r + count \<le> bm_total bm \<and> run_at (bm_data bm) r count \<and> bm' = take_run r count bm"
  proof (cases r1)
    case (Some x)
    then have "r = x" "bm' = bm1" using al c f1 by (auto simp: bm_alloc_def)
    then show ?thesis using q1 Some b1 by auto
  next
    case None
    then have bm1: "bm1 = bm" using q1 by simp
    obtain r2 bm2 where f2: "find_run (bm_data_start bm) (alloc_cursor bm) count bm = (r2, bm2)" by fastforce
    note q2 = find_run_result [OF inv f2 c(1) order_refl b1(2)]
    have "r2 = Some r" "bm' = bm2" using al c f1 None f2 bm1 by (auto simp: bm_alloc_def split: if_splits option.splits)
    then show ?thesis using q2 b1 by auto
  qed
  then show "bm_data_start bm \<le> r" "r + count \<le> bm_total bm" "run_at (bm_data bm) r count" "bm' = take_run r count bm" by auto
qed

lemma bm_alloc_Inl:
  assumes inv: "bm_inv bm" and al: "bm_alloc count bm = (Inl e, bm')"
  shows "e = DiskFull" "bm' = bm"
    "0 < count \<Longrightarrow> bm_data_start bm \<le> r \<Longrightarrow> r + count \<le> bm_total bm \<Longrightarrow> run_at (bm_data bm) r count \<Longrightarrow>
       r < alloc_cursor bm \<and> alloc_cursor bm < r + count"
proof -
  have b1: "bm_data_start bm \<le> alloc_cursor bm" "alloc_cursor bm \<le> bm_total bm" using inv by (auto simp: bm_inv_def)
  obtain r1 bm1 where f1: "find_run (alloc_cursor bm) (bm_total bm) count bm = (r1, bm1)" by fastforce
  obtain r2 bm2 where f2: "find_run (bm_data_start bm) (alloc_cursor bm) count bm = (r2, bm2)" by fastforce
  have small: "count \<le> bm_free bm" if "bm_data_start bm \<le> r" "r + count \<le> bm_total bm" "run_at (bm_data bm) r count" for r
  proof -
    have "{r..<r + count} \<subseteq> free_blocks bm" by (rule take_run_result(4) [OF inv that(3,1,2) refl])
    then have "card {r..<r + count} \<le> card (free_blocks bm)" by (intro card_mono) auto
    then show ?thesis using inv by (simp add: bm_inv_def)
  qed
  have "e = DiskFull \<and> bm' = bm \<and> (0 < count \<longrightarrow> (\<forall>r. bm_data_start bm \<le> r \<and> r + count \<le> bm_total bm \<and> run_at (bm_data bm) r count \<longrightarrow>
       r < alloc_cursor bm \<and> alloc_cursor bm < r + count))"
  proof (cases "count = 0 \<or> count > bm_free bm")
    case True
    then show ?thesis using al small by (fastforce simp: bm_alloc_def)
  next
    case False
    then have c: "0 < count" by simp
    note q1 = find_run_result [OF inv f1 c b1(1) order_refl]
    note q2 = find_run_result [OF inv f2 c order_refl b1(2)]
    have n1: "r1 = None" "bm1 = bm" using al False f1 q1 by (auto simp: bm_alloc_def split: option.splits)
    have n2: "e = DiskFull" "bm' = bm" "bm_data_start bm < alloc_cursor bm \<Longrightarrow> r2 = None"
      using al False f1 f2 n1 q2 by (auto simp: bm_alloc_def split: option.splits if_splits)
    have "r < alloc_cursor bm \<and> alloc_cursor bm < r + count"
      if "bm_data_start bm \<le> r" "r + count \<le> bm_total bm" "run_at (bm_data bm) r count" for r
    proof -
      have "\<not> alloc_cursor bm \<le> r" using q1 n1 that by auto
      moreover have "\<not> r + count \<le> alloc_cursor bm" using q2 n2(3) that calculation by auto
      ultimately show ?thesis by auto
    qed
    then show ?thesis using n2 by blast
  qed
  then show "e = DiskFull" "bm' = bm"
    "0 < count \<Longrightarrow> bm_data_start bm \<le> r \<Longrightarrow> r + count \<le> bm_total bm \<Longrightarrow> run_at (bm_data bm) r count \<Longrightarrow>
       r < alloc_cursor bm \<and> alloc_cursor bm < r + count" by auto
qed

section \<open>Freeing\<close>

lemma free_block_fields [simp]:
  "bm_start (free_block b bm) = bm_start bm" "bm_count (free_block b bm) = bm_count bm"
  "bm_data_start (free_block b bm) = bm_data_start bm" "bm_total (free_block b bm) = bm_total bm"
  "length (bm_dirty_blocks (free_block b bm)) = length (bm_dirty_blocks bm)"
  "trim_pending (free_block b bm) = trim_pending bm" "alloc_cursor (free_block b bm) = alloc_cursor bm"
  "length (bm_data (free_block b bm)) = length (bm_data bm)"
  by (simp_all add: free_block_def Let_def)

lemma free_block_result:
  assumes bits: "bm_total bm \<le> 8 * length (bm_data bm)" and b: "b < bm_total bm"
  shows "free_blocks (free_block b bm) = insert b (free_blocks bm)" "tracks bm (free_block b bm)"
    "bm_free bm = card (free_blocks bm) \<Longrightarrow> bm_free (free_block b bm) = card (insert b (free_blocks bm))"
proof -
  have lt: "b < 8 * length (bm_data bm)" using assms by simp
  then show fb: "free_blocks (free_block b bm) = insert b (free_blocks bm)"
    using b by (auto simp: free_block_def Let_def free_blocks_def clear_bits_unset clear_bits_iff)
  show "tracks bm (free_block b bm)"
    using tracks_mark [OF bit_index_less [OF lt]] unfolding free_block_def bv_unset_def
    by (simp add: Let_def tracks_def same_layout_def bm_slice_def)
  show "bm_free (free_block b bm) = card (insert b (free_blocks bm))" if "bm_free bm = card (free_blocks bm)"
    using that b by (auto simp: free_block_def Let_def free_blocks_iff card_insert_if insert_absorb)
qed

lemma free_range_loop:
  assumes "bm_total bm \<le> 8 * length (bm_data bm)" and "\<And>b. b \<in> set bs \<Longrightarrow> b < bm_total bm"
    and "bm_free bm = card (free_blocks bm)" and "bm' = fold free_block bs bm"
  shows "free_blocks bm' = free_blocks bm \<union> set bs \<and> tracks bm bm' \<and> bm_free bm' = card (free_blocks bm') \<and>
    trim_pending bm' = trim_pending bm \<and> alloc_cursor bm' = alloc_cursor bm"
  using assms
proof (induction bs arbitrary: bm)
  case Nil
  then show ?case by simp
next
  case (Cons b bs)
  have b: "b < bm_total bm" using Cons.prems(2) by simp
  note f = free_block_result [OF Cons.prems(1) b]
  have "free_blocks bm' = free_blocks (free_block b bm) \<union> set bs \<and> tracks (free_block b bm) bm' \<and>
      bm_free bm' = card (free_blocks bm') \<and> trim_pending bm' = trim_pending (free_block b bm) \<and>
      alloc_cursor bm' = alloc_cursor (free_block b bm)"
    by (rule Cons.IH) (use Cons.prems f in auto)
  then show ?case using f tracks_trans [OF f(2)] by auto
qed

lemma bm_free_range_outside:
  "\<not> (bm_data_start bm \<le> start \<and> start + count \<le> bm_total bm) \<Longrightarrow> bm_free_range start count bm = bm"
  by (auto simp: bm_free_range_def)

lemma bm_free_range_result:
  assumes inv: "bm_inv bm" and r: "bm_data_start bm \<le> start" "start + count \<le> bm_total bm"
    and bm': "bm' = bm_free_range start count bm"
  shows "bm_inv bm'" "tracks bm bm'" "free_blocks bm' = free_blocks bm \<union> {start..<start + count}"
    "trim_pending bm' = trim_pending bm @ (if count > 0 then [(start, count)] else [])"
    "alloc_cursor bm' = alloc_cursor bm"
proof -
  define bm1 where "bm1 = fold free_block (map ((+) start) [0..<count]) bm"
  have set: "set (map ((+) start) [0..<count]) = {start..<start + count}"
    using image_add_atLeastLessThan [of start 0 count] by (simp add: add.commute)
  have bnd: "bm_total bm \<le> 8 * length (bm_data bm)" using inv div_ceil_ge [of 8 "bm_total bm"] by (simp add: bm_inv_def)
  have free: "bm_free bm = card (free_blocks bm)" using inv by (simp add: bm_inv_def)
  have "\<And>b. b \<in> set (map ((+) start) [0..<count]) \<Longrightarrow> b < bm_total bm" unfolding set using r by auto
  from free_range_loop [OF bnd this free bm1_def, unfolded set]
  have l: "free_blocks bm1 = free_blocks bm \<union> {start..<start + count}" "tracks bm bm1" "bm_free bm1 = card (free_blocks bm1)"
    "trim_pending bm1 = trim_pending bm" "alloc_cursor bm1 = alloc_cursor bm" by auto
  note lay = tracks_layout [OF l(2), unfolded same_layout_def]
  have eq: "bm' = (if count > 0 then bm1\<lparr>trim_pending := trim_pending bm1 @ [(start, count)], bm_dirty := True\<rparr> else bm1)"
    using r inv by (simp add: bm' bm_free_range_def bm_inv_def bm1_def Let_def fold_map comp_def)
  have triv: "count = 0 \<Longrightarrow> bm1 = bm" by (simp add: bm1_def)
  show "tracks bm bm'" using l(2) unfolding eq tracks_def same_layout_def bm_slice_def by auto
  show fb: "free_blocks bm' = free_blocks bm \<union> {start..<start + count}" using l(1) unfolding eq by (auto simp: free_blocks_def)
  show "trim_pending bm' = trim_pending bm @ (if count > 0 then [(start, count)] else [])"
    "alloc_cursor bm' = alloc_cursor bm" using l(4,5) by (auto simp: eq)
  show "bm_inv bm'" using inv r lay l(3-5) triv unfolding bm_inv_def eq by (auto simp: free_blocks_def)
qed

section \<open>A fresh bitmap\<close>

lemma div_ceil_8: "(n + 7) div 8 = div_ceil n 8"
  by (simp add: div_ceil_def)

lemma new_for_mkfs_result:
  assumes "ds \<le> n" and "n < 2 ^ 64" and "cnt = div_ceil (div_ceil n 8) BLOCK_SIZE" and "st + cnt \<le> ds"
  shows "bm_inv (new_for_mkfs n st cnt ds)" "free_blocks (new_for_mkfs n st cnt ds) = {ds..<n}"
proof -
  have bnd: "\<forall>b \<in> set [0..<ds]. b < 8 * length (replicate (div_ceil n 8) (0 :: u8))"
    using assms(1) div_ceil_ge [of 8 n] by auto
  have "bv_clear (replicate (div_ceil n 8) 0) b" if "b < n" for b
    using that div_ceil_ge [of 8 n] by (intro bv_clear_zeroes) linarith
  then have "clear_bits (replicate (div_ceil n 8) 0) n = {..<n}" by (auto simp: clear_bits_def)
  then have "clear_bits (bv_set_list [0..<ds] (replicate (div_ceil n 8) 0)) n = {..<n} - {0..<ds}"
    using clear_bits_set_list [OF bnd, of n] by (simp only: set_upt)
  moreover have "{..<n} - {0..<ds} = {ds..<n}" by auto
  ultimately show fb: "free_blocks (new_for_mkfs n st cnt ds) = {ds..<n}"
    by (simp only: free_blocks_def new_for_mkfs_def Let_def div_ceil_8 bitmap.simps)
  show "bm_inv (new_for_mkfs n st cnt ds)"
    unfolding bm_inv_def fb using assms by (simp add: new_for_mkfs_def Let_def div_ceil_8)
qed

section \<open>The bitmap on disk\<close>

lemma bmap_update_io [simp]:
  "cache_inv chk (m\<lparr>bmap := x\<rparr>) = cache_inv chk m" "view (m\<lparr>bmap := x\<rparr>) = view m"
  "calm B (m\<lparr>bmap := x\<rparr>) m' = calm B m m'" "calm B m (m'\<lparr>bmap := x\<rparr>) = calm B m m'"
  by (simp_all add: io_fields fun_eq_iff split: option.split)

lemma quiet_bmap: "quiet B m m' \<Longrightarrow> bmap m' = bmap m \<and> alloc_io.more m' = alloc_io.more m"
  by (cases m; cases m') (simp add: quiet_def)

definition bm_blocks :: "bitmap \<Rightarrow> nat set" where
  "bm_blocks bm = {bm_start bm..<bm_start bm + bm_count bm}"

definition bm_synced :: "(nat \<Rightarrow> bytes) \<Rightarrow> bitmap \<Rightarrow> bool" where
  "bm_synced v bm \<longleftrightarrow> (\<forall>i < bm_count bm. \<not> bm_dirty_blocks bm ! i \<longrightarrow> take (length (bm_slice bm i)) (v (bm_start bm + i)) = bm_slice bm i)"

definition bm_on_disk :: "(nat \<Rightarrow> bytes) \<Rightarrow> bitmap \<Rightarrow> bool" where
  "bm_on_disk v bm \<longleftrightarrow> (\<forall>i < bm_count bm. take (length (bm_slice bm i)) (v (bm_start bm + i)) = bm_slice bm i)"

lemma bm_synced_tracks: "bm_inv bm \<Longrightarrow> tracks bm bm' \<Longrightarrow> bm_synced v bm \<Longrightarrow> bm_synced v bm'"
  by (auto simp: bm_synced_def tracks_def same_layout_def bm_inv_def)

definition bm_image :: "bitmap \<Rightarrow> nat \<Rightarrow> bytes" where
  "bm_image bm i = splice 0 (bm_slice bm i) (replicate BLOCK_SIZE 0)"

lemma length_bm_slice: "length (bm_slice bm i) \<le> BLOCK_SIZE"
  by (simp add: bm_slice_def slice_def)

lemma length_bm_image [simp]: "length (bm_image bm i) = BLOCK_SIZE"
  unfolding bm_image_def by (rule length_splice [THEN trans]) (use length_bm_slice in auto)

lemma take_bm_image [simp]: "take (length (bm_slice bm i)) (bm_image bm i) = bm_slice bm i"
  by (simp add: bm_image_def splice_def)

text \<open>What writing one block leaves, and the whole loop.\<close>

definition sync_frame :: "'a alloc_io_scheme \<Rightarrow> 'a alloc_io_scheme \<Rightarrow> bool" where
  "sync_frame m m' \<longleftrightarrow> (\<exists>bs. bmap m' = (bmap m)\<lparr>bm_dirty_blocks := bs\<rparr> \<and> length bs = length (bm_dirty_blocks (bmap m)) \<and>
       (\<forall>i < length bs. bs ! i \<longrightarrow> bm_dirty_blocks (bmap m) ! i)) \<and> alloc_io.more m' = alloc_io.more m \<and>
     (\<forall>b. b \<notin> bm_blocks (bmap m) \<longrightarrow> view m' b = view m b) \<and> (\<forall>B. bm_blocks (bmap m) \<subseteq> B \<longrightarrow> calm B m m')"

definition sync_done :: "(bytes \<Rightarrow> bool) \<Rightarrow> 'a alloc_io_scheme \<Rightarrow> nat \<Rightarrow> 'a alloc_io_scheme \<Rightarrow> bool" where
  "sync_done chk m n m' \<longleftrightarrow> cache_inv chk m' \<and> sync_frame m m' \<and> bm_synced (view m') (bmap m') \<and>
     (\<forall>i < n. \<not> bm_dirty_blocks (bmap m') ! i)"

lemma bm_slice_dirty [simp]: "bm_slice (bm\<lparr>bm_dirty_blocks := bs\<rparr>) i = bm_slice bm i"
  by (simp add: bm_slice_def)

lemma sync_block_step:
  assumes inv: "bm_inv (bmap m)" and d: "sync_done chk m n m1" and n: "n < bm_count (bmap m)"
  shows "wpE (sync_block n) (\<lambda>_. sync_done chk m (Suc n)) (\<lambda>e m'. cache_inv chk m' \<and> sync_frame m m' \<and> bm_synced (view m') (bmap m')) m1"
proof -
  from d have ci: "cache_inv chk m1" and sy: "bm_synced (view m1) (bmap m1)" and fr: "sync_frame m m1"
    and dn: "\<And>i. i < n \<Longrightarrow> \<not> bm_dirty_blocks (bmap m1) ! i" by (auto simp: sync_done_def)
  obtain bs where bs: "bmap m1 = (bmap m)\<lparr>bm_dirty_blocks := bs\<rparr>" "length bs = bm_count (bmap m)"
    "\<And>i. i < length bs \<Longrightarrow> bs ! i \<Longrightarrow> bm_dirty_blocks (bmap m) ! i" "alloc_io.more m1 = alloc_io.more m"
    using fr inv by (auto simp: sync_frame_def bm_inv_def)
  have upd: "(bs[n := False]) ! i \<longleftrightarrow> i \<noteq> n \<and> bs ! i" for i using n bs(2) by (cases "i = n") auto
  have len: "length (bm_dirty_blocks (bmap m)) = bm_count (bmap m)" using inv by (simp add: bm_inv_def)
  let ?b = "bm_start (bmap m) + n"
  have b: "?b < 2 ^ 64" "?b \<in> bm_blocks (bmap m)" using inv n by (auto simp: bm_inv_def bm_blocks_def)
  then have w: "wrap64 ?b = ?b" by simp
  show ?thesis
  proof (cases "bs ! n")
    case False
    then have "sync_block n m1 = (Inr (), m1)" using bs n by (simp add: sync_block_def Let_def)
    moreover have "sync_done chk m (Suc n) m1" using d False bs(1) by (auto simp: sync_done_def less_Suc_eq)
    ultimately show ?thesis by (simp add: wpE_def)
  next
    case True
    have eq: "sync_block n m1 = bindE (cache_write ?b (bm_image (bmap m) n)) (\<lambda>_ m.
        (Inr (), if n < length (bm_dirty_blocks (bmap m))
                 then m\<lparr>bmap := (bmap m)\<lparr>bm_dirty_blocks := (bm_dirty_blocks (bmap m))[n := False]\<rparr>\<rparr> else m)) m1"
      using True bs n w by (simp add: sync_block_def Let_def bm_image_def bm_slice_def)
    have "wpE (cache_write ?b (bm_image (bmap m) n))
       (\<lambda>_ m'. sync_done chk m (Suc n) (m'\<lparr>bmap := (bmap m')\<lparr>bm_dirty_blocks := (bm_dirty_blocks (bmap m'))[n := False]\<rparr>\<rparr>) \<and>
          n < length (bm_dirty_blocks (bmap m')))
       (\<lambda>e m'. cache_inv chk m' \<and> sync_frame m m' \<and> bm_synced (view m') (bmap m')) m1"
    proof (rule cache_store.wr_wp [OF ci b(1)])
      fix m2 assume c2: "cache_inv chk m2" and v2: "view m2 = (view m1)(?b := bm_image (bmap m) n)"
        and q2: "\<And>B. ?b \<in> B \<Longrightarrow> quiet B m1 m2"
      have bm2: "bmap m2 = bmap m1" "alloc_io.more m2 = alloc_io.more m1" using quiet_bmap q2 by blast+
      let ?m = "m2\<lparr>bmap := (bmap m2)\<lparr>bm_dirty_blocks := (bm_dirty_blocks (bmap m2))[n := False]\<rparr>\<rparr>"
      have bm: "bmap ?m = (bmap m)\<lparr>bm_dirty_blocks := bs[n := False]\<rparr>" using bm2 bs(1) by simp
      have "sync_frame m ?m"
        unfolding sync_frame_def
      proof (intro conjI allI impI)
        show "\<exists>cs. bmap ?m = (bmap m)\<lparr>bm_dirty_blocks := cs\<rparr> \<and> length cs = length (bm_dirty_blocks (bmap m)) \<and>
            (\<forall>i < length cs. cs ! i \<longrightarrow> bm_dirty_blocks (bmap m) ! i)"
          using bm bs len by (intro exI [of _ "bs[n := False]"]) (auto simp: upd)
        show "alloc_io.more ?m = alloc_io.more m" using bm2 bs(4) by simp
        show "view ?m b = view m b" if "b \<notin> bm_blocks (bmap m)" for b
          using that b(2) fr v2 by (auto simp: sync_frame_def)
        show "calm B m ?m" if "bm_blocks (bmap m) \<subseteq> B" for B
          using that b(2) fr q2 [of B] calm_trans [of B m m1 m2] by (auto simp: sync_frame_def quiet_calm)
      qed
      moreover have "bm_synced (view ?m) (bmap ?m)"
        using sy bs v2 unfolding bm by (auto simp: bm_synced_def upd)
      moreover have "\<not> bm_dirty_blocks (bmap ?m) ! i" if "i < Suc n" for i
        using that dn [of i] bs unfolding bm by (auto simp: upd)
      ultimately show "sync_done chk m (Suc n) ?m \<and> n < length (bm_dirty_blocks (bmap m2))"
        using c2 bm2 bs n by (auto simp: sync_done_def)
    next
      fix e m2 assume c2: "cache_inv chk m2" and v2: "view m2 = view m1" and q2: "\<And>B. ?b \<in> B \<Longrightarrow> quiet B m1 m2"
      have bm2: "bmap m2 = bmap m1" "alloc_io.more m2 = alloc_io.more m1" using quiet_bmap q2 by blast+
      have "calm B m m2" if "bm_blocks (bmap m) \<subseteq> B" for B
        using that b(2) fr q2 [of B] calm_trans [of B m m1 m2] by (auto simp: sync_frame_def quiet_calm)
      then have "sync_frame m m2" using fr v2 bm2 unfolding sync_frame_def by simp
      then show "cache_inv chk m2 \<and> sync_frame m m2 \<and> bm_synced (view m2) (bmap m2)" using c2 sy v2 bm2 by simp
    qed simp
    then show ?thesis unfolding wpE_def eq bindE_def by (auto split: sum.splits prod.splits)
  qed
qed

lemma bm_sync_spec:
  assumes "cache_inv chk m" and inv: "bm_inv (bmap m)" and "bm_synced (view m) (bmap m)"
  shows "wpE bm_sync (\<lambda>_ m'. cache_inv chk m' \<and> sync_frame m m' \<and> bm_on_disk (view m') (bmap m') \<and> True \<notin> set (bm_dirty_blocks (bmap m')))
    (\<lambda>e m'. cache_inv chk m' \<and> sync_frame m m' \<and> bm_synced (view m') (bmap m')) m"
proof -
  have start: "sync_done chk m 0 m"
    using assms by (auto simp: sync_done_def sync_frame_def intro!: exI [of _ "bm_dirty_blocks (bmap m)"])
  have fin: "sync_done chk m (bm_count (bmap m)) m' \<Longrightarrow>
      cache_inv chk m' \<and> sync_frame m m' \<and> bm_on_disk (view m') (bmap m') \<and> True \<notin> set (bm_dirty_blocks (bmap m'))" for m'
  proof -
    assume d: "sync_done chk m (bm_count (bmap m)) m'"
    then obtain bs where bs: "bmap m' = (bmap m)\<lparr>bm_dirty_blocks := bs\<rparr>" "length bs = bm_count (bmap m)"
      using inv by (auto simp: sync_done_def sync_frame_def bm_inv_def)
    have cl: "\<And>i. i < bm_count (bmap m) \<Longrightarrow> \<not> bs ! i" using d bs(1) by (simp add: sync_done_def)
    then have "True \<notin> set bs" using bs(2) by (metis in_set_conv_nth)
    then show ?thesis using d cl bs(1) by (simp add: sync_done_def bm_synced_def bm_on_disk_def)
  qed
  show ?thesis
  proof (cases "bm_dirty (bmap m)")
    case False
    then have n: "True \<notin> set (bm_dirty_blocks (bmap m))" "length (bm_dirty_blocks (bmap m)) = bm_count (bmap m)"
      using inv by (auto simp: bm_inv_def)
    have "\<not> bm_dirty_blocks (bmap m) ! i" if "i < bm_count (bmap m)" for i
      using n that by (metis (full_types) nth_mem)
    then have "sync_done chk m (bm_count (bmap m)) m" using start by (simp add: sync_done_def)
    then show ?thesis using fin False by (simp add: bm_sync_def wpE_def)
  next
    case True
    have "wpE (forE sync_block [0..<bm_count (bmap m)]) (\<lambda>_. sync_done chk m (length [0..<bm_count (bmap m)]))
        (\<lambda>e m'. cache_inv chk m' \<and> sync_frame m m' \<and> bm_synced (view m') (bmap m')) m"
    proof (rule wpE_forE [where I = "\<lambda>ys. sync_done chk m (length ys)"])
      show "sync_done chk m (length []) m" using start by simp
      fix ys x zs m1
      assume sp: "[0..<bm_count (bmap m)] = ys @ x # zs" and d: "sync_done chk m (length ys) m1"
      have "length ys < length [0..<bm_count (bmap m)]" unfolding sp by simp
      moreover have "[0..<bm_count (bmap m)] ! length ys = x" unfolding sp by simp
      ultimately have "x = length ys" "x < bm_count (bmap m)" by auto
      then show "wpE (sync_block x) (\<lambda>_. sync_done chk m (length (ys @ [x])))
          (\<lambda>e m'. cache_inv chk m' \<and> sync_frame m m' \<and> bm_synced (view m') (bmap m')) m1"
        using sync_block_step [OF inv d] by simp
    qed
    moreover have "bm_sync m = forE sync_block [0..<bm_count (bmap m)] m" using True by (simp add: bm_sync_def)
    ultimately show ?thesis unfolding wpE_def using fin by (auto split: sum.splits prod.splits)
  qed
qed


section \<open>Loading\<close>

lemma slice_splice_prefix:
  "off + length ys \<le> length xs \<Longrightarrow> take (off + length ys) (splice off ys xs) = take off xs @ ys"
  by (simp add: splice_def)

text \<open>The first \<open>n\<close> bytes of the bitmap blocks, put together.\<close>

definition disk_bits :: "(nat \<Rightarrow> bytes) \<Rightarrow> nat \<Rightarrow> nat \<Rightarrow> bytes" where
  "disk_bits v st n = take n (concat (map (\<lambda>i. v (st + i)) [0..<div_ceil n BLOCK_SIZE]))"

lemma length_concat_blocks: "(\<And>b. length (v b) = BLOCK_SIZE) \<Longrightarrow> length (concat (map (\<lambda>i. v (st + i)) [0..<k])) = k * BLOCK_SIZE"
  by (induction k) auto

lemma slice_take: "k \<le> n - off \<Longrightarrow> slice off k (take n xs) = slice off k xs"
  by (simp add: slice_def drop_take min_def)

lemma concat_block:
  assumes "i < k" and "\<And>b. length (v b) = BLOCK_SIZE" and "n \<le> BLOCK_SIZE"
  shows "slice (i * BLOCK_SIZE) n (concat (map (\<lambda>i. v (st + i)) [0..<k])) = take n (v (st + i))"
proof -
  have "[0..<k] = [0..<i] @ i # [Suc i..<k]"
    using assms(1) upt_add_eq_append [of 0 i "k - i"] by (simp add: upt_conv_Cons)
  then have "concat (map (\<lambda>i. v (st + i)) [0..<k]) =
      concat (map (\<lambda>i. v (st + i)) [0..<i]) @ v (st + i) @ concat (map (\<lambda>i. v (st + i)) [Suc i..<k])" by simp
  then show ?thesis using assms length_concat_blocks [of v st i] by (simp add: slice_def)
qed

lemma load_blocks_spec:
  assumes "cache_inv chk m" and "st + k \<le> 2 ^ 64" and "j \<le> k" and "k = div_ceil n BLOCK_SIZE"
    and "data = take n (concat (map (\<lambda>i. view m (st + i)) [0..<j])) @ replicate (n - j * BLOCK_SIZE) 0"
  shows "wpE (load_blocks st n [j..<k] data)
    (\<lambda>d m'. d = disk_bits (view m) st n \<and> cache_inv chk m' \<and> view m' = view m \<and> (\<forall>B. quiet B m m'))
    (\<lambda>e m'. cache_inv chk m' \<and> view m' = view m \<and> (\<forall>B. quiet B m m')) m"
  using assms
proof (induction "k - j" arbitrary: j data m)
  case 0
  then have j: "j = k" by simp
  have "n \<le> k * BLOCK_SIZE" using div_ceil_ge [of BLOCK_SIZE n] 0 by (simp add: BLOCK_SIZE_def mult.commute)
  then show ?case using 0 unfolding j by (simp add: wp disk_bits_def)
next
  case (Suc d)
  then have jk: "j < k" by simp
  have up: "[j..<k] = j # [Suc j..<k]" using jk by (simp add: upt_conv_Cons)
  have lb: "\<And>b. length (view m b) = BLOCK_SIZE" using length_view Suc.prems(1) by blast
  have jn: "j * BLOCK_SIZE < n"
  proof -
    have "j * BLOCK_SIZE < (n + BLOCK_SIZE - 1) div BLOCK_SIZE * BLOCK_SIZE" using jk Suc.prems(4) by (simp add: div_ceil_def BLOCK_SIZE_def)
    then show ?thesis using jk Suc.prems(4) unfolding div_ceil_def BLOCK_SIZE_def by linarith
  qed
  let ?c = "concat (map (\<lambda>i. view m (st + i)) [0..<j])"
  have lc: "length ?c = j * BLOCK_SIZE" by (rule length_concat_blocks) (rule lb)
  have step: "splice (j * BLOCK_SIZE) (take (min BLOCK_SIZE (n - j * BLOCK_SIZE)) (view m (st + j))) data =
      take n (concat (map (\<lambda>i. view m (st + i)) [0..<Suc j])) @ replicate (n - Suc j * BLOCK_SIZE) 0"
    using jn lc lb [of "st + j"] unfolding Suc.prems(5) splice_def
    by (auto simp: min_def)
  have w: "wrap64 (st + j) = st + j" "st + j < 2 ^ 64" using jk Suc.prems(2) by simp_all
  show ?case
    unfolding up load_blocks.simps load_block_def wpE_bind w(1) Let_def wpE_ret
  proof (rule cache_store.rd_wp [OF Suc.prems(1) w(2)])
    fix m1 assume m1: "cache_inv chk m1" "view m1 = view m" "\<And>B. quiet B m m1"
    show "wpE (load_blocks st n [Suc j..<k] (splice (j * BLOCK_SIZE) (take (min BLOCK_SIZE (n - j * BLOCK_SIZE)) (view m (st + j))) data))
       (\<lambda>d m'. d = disk_bits (view m) st n \<and> cache_inv chk m' \<and> view m' = view m \<and> (\<forall>B. quiet B m m'))
       (\<lambda>e m'. cache_inv chk m' \<and> view m' = view m \<and> (\<forall>B. quiet B m m')) m1"
    proof -
      have "wpE (load_blocks st n [Suc j..<k] (splice (j * BLOCK_SIZE) (take (min BLOCK_SIZE (n - j * BLOCK_SIZE)) (view m (st + j))) data))
         (\<lambda>d m'. d = disk_bits (view m1) st n \<and> cache_inv chk m' \<and> view m' = view m1 \<and> (\<forall>B. quiet B m1 m'))
         (\<lambda>e m'. cache_inv chk m' \<and> view m' = view m1 \<and> (\<forall>B. quiet B m1 m')) m1"
        by (rule Suc.hyps(1)) (use Suc.hyps(2) Suc.prems(2,4) jk m1(1,2) step in simp_all)
      then show ?thesis by (rule wpE_mono) (use m1 quiet_trans in \<open>simp_all, blast+\<close>)
    qed
  qed auto
qed

lemma load_args_spec:
  assumes inv: "cache_inv chk m" and small: "n < 2 ^ 64 - 1"
  shows "wpE (load_args n st cnt ds)
    (\<lambda>bm m'. bm_inv bm \<and> bm_data bm = disk_bits (view m) st (div_ceil n 8) \<and> bm_on_disk (view m') bm \<and> trim_pending bm = [] \<and>
       bm_total bm = n \<and> bm_start bm = st \<and> bm_count bm = cnt \<and> bm_data_start bm = ds \<and> \<not> bm_dirty bm \<and>
       cache_inv chk m' \<and> view m' = view m \<and> (\<forall>B. quiet B m m'))
    (\<lambda>e m'. cache_inv chk m' \<and> view m' = view m \<and> (\<forall>B. quiet B m m')) m"
proof (cases "cnt \<noteq> div_ceil (div_ceil n 8) BLOCK_SIZE \<or> ds < min U64_MAX (st + cnt) \<or> ds > n")
  case True
  then show ?thesis using inv by (simp add: load_args_def wp)
next
  case False
  then have ok: "cnt = div_ceil (div_ceil n 8) BLOCK_SIZE" "st + cnt \<le> ds" "ds \<le> n" using small by auto
  have lb: "\<And>b. length (view m b) = BLOCK_SIZE" using length_view inv by blast
  let ?n = "div_ceil n 8"
  have len: "length (disk_bits (view m) st ?n) = ?n"
    using length_concat_blocks [of "view m" st, OF lb] div_ceil_ge [of BLOCK_SIZE ?n]
    by (simp add: disk_bits_def min_def BLOCK_SIZE_def mult.commute)
  have "wpE (load_blocks st ?n [0..<cnt] (replicate ?n 0))
    (\<lambda>d m'. d = disk_bits (view m) st ?n \<and> cache_inv chk m' \<and> view m' = view m \<and> (\<forall>B. quiet B m m'))
    (\<lambda>e m'. cache_inv chk m' \<and> view m' = view m \<and> (\<forall>B. quiet B m m')) m"
    by (rule load_blocks_spec [OF inv]) (use ok small in auto)
  then show ?thesis
    unfolding load_args_def Let_def if_not_P [OF False] wpE_bind wpE_ret
  proof (rule wpE_mono)
    fix d m' assume d: "d = disk_bits (view m) st ?n \<and> cache_inv chk m' \<and> view m' = view m \<and> (\<forall>B. quiet B m m')"
    let ?bm = "\<lparr>bm_data = d, bm_start = st, bm_count = cnt, bm_data_start = ds, bm_total = n, bm_free = count_free d n,
       bm_dirty = False, bm_dirty_blocks = replicate cnt False, trim_pending = [], alloc_cursor = ds\<rparr>"
    have "bm_inv ?bm" using ok small d len by (simp add: bm_inv_def free_blocks_def count_free_def filter_clear_card)
    moreover have "bm_slice ?bm i = take (min BLOCK_SIZE (?n - i * BLOCK_SIZE)) (view m (st + i))" if "i < cnt" for i
    proof -
      have "bm_slice ?bm i = slice (i * BLOCK_SIZE) (min BLOCK_SIZE (?n - i * BLOCK_SIZE)) (disk_bits (view m) st ?n)"
        using d len by (simp add: bm_slice_def)
      also have "\<dots> = slice (i * BLOCK_SIZE) (min BLOCK_SIZE (?n - i * BLOCK_SIZE)) (concat (map (\<lambda>i. view m (st + i)) [0..<cnt]))"
        unfolding disk_bits_def ok(1) by (rule slice_take) simp
      finally show ?thesis using concat_block [where v = "view m", OF that lb, of "min BLOCK_SIZE (?n - i * BLOCK_SIZE)"] by simp
    qed
    then have "bm_on_disk (view m') ?bm" using d lb by (simp add: bm_on_disk_def)
    ultimately show "bm_inv ?bm \<and> bm_data ?bm = disk_bits (view m) st ?n \<and> bm_on_disk (view m') ?bm \<and> trim_pending ?bm = [] \<and>
       bm_total ?bm = n \<and> bm_start ?bm = st \<and> bm_count ?bm = cnt \<and> bm_data_start ?bm = ds \<and> \<not> bm_dirty ?bm \<and>
       cache_inv chk m' \<and> view m' = view m \<and> (\<forall>B. quiet B m m')" using d by simp
  qed auto
qed

lemma nth_concat_blocks:
  assumes "j < k * BLOCK_SIZE" and "\<And>b. length (v b) = BLOCK_SIZE"
  shows "concat (map (\<lambda>i. v (st + i)) [0..<k]) ! j = v (st + j div BLOCK_SIZE) ! (j mod BLOCK_SIZE)"
proof -
  let ?c = "concat (map (\<lambda>i. v (st + i)) [0..<k])" and ?i = "j div BLOCK_SIZE"
  have i: "?i < k" using assms(1) by (simp add: less_mult_imp_div_less)
  have r: "j mod BLOCK_SIZE < BLOCK_SIZE" by (simp add: BLOCK_SIZE_def)
  have len: "length ?c = k * BLOCK_SIZE" by (rule length_concat_blocks) (rule assms)
  have "(?i + 1) * BLOCK_SIZE \<le> k * BLOCK_SIZE" using i by (intro mult_le_mono1) simp
  then have "?i * BLOCK_SIZE + BLOCK_SIZE \<le> length ?c" unfolding len by simp
  then have "slice (?i * BLOCK_SIZE) BLOCK_SIZE ?c ! (j mod BLOCK_SIZE) = ?c ! j"
    using nth_slice [of "?i * BLOCK_SIZE" BLOCK_SIZE ?c] r by simp
  then show ?thesis using concat_block [where v = v and st = st, OF i assms(2) order_refl] assms(2) by simp
qed

lemma load_after_sync:
  assumes inv: "bm_inv bm" and disk: "bm_on_disk v bm" and lb: "\<And>b. length (v b) = BLOCK_SIZE"
  shows "disk_bits v (bm_start bm) (div_ceil (bm_total bm) 8) = bm_data bm"
proof (rule nth_equalityI)
  let ?n = "div_ceil (bm_total bm) 8" and ?d = "bm_data bm"
  have n: "length ?d = ?n" "bm_count bm = div_ceil ?n BLOCK_SIZE" using inv by (auto simp: bm_inv_def)
  have le: "?n \<le> div_ceil ?n BLOCK_SIZE * BLOCK_SIZE" using div_ceil_ge [of BLOCK_SIZE ?n] by (simp add: BLOCK_SIZE_def mult.commute)
  have len: "length (concat (map (\<lambda>i. v (bm_start bm + i)) [0..<div_ceil ?n BLOCK_SIZE])) = div_ceil ?n BLOCK_SIZE * BLOCK_SIZE"
    by (rule length_concat_blocks) (rule lb)
  show ld: "length (disk_bits v (bm_start bm) ?n) = length ?d" using len le n(1) by (simp add: disk_bits_def)
  fix j assume "j < length (disk_bits v (bm_start bm) ?n)"
  then have j: "j < ?n" using ld n(1) by simp
  let ?i = "j div BLOCK_SIZE" and ?r = "j mod BLOCK_SIZE"
  have i: "?i < bm_count bm" using j le n(2) by (simp add: less_mult_imp_div_less)
  have r: "?r < BLOCK_SIZE" "?i * BLOCK_SIZE + ?r = j" by (simp_all add: BLOCK_SIZE_def)
  have sl: "length (bm_slice bm ?i) = min BLOCK_SIZE (?n - ?i * BLOCK_SIZE)"
    using n(1) by (simp add: bm_slice_def slice_def)
  have le2: "?i * BLOCK_SIZE \<le> length ?d" using r(2) j n(1) by linarith
  have "?r < length (bm_slice bm ?i)" unfolding sl using r j by linarith
  moreover from this have "bm_slice bm ?i ! ?r = ?d ! j"
    using nth_drop [of "?i * BLOCK_SIZE" ?d ?r] le2 r(2) by (simp add: bm_slice_def slice_def)
  moreover have "take (length (bm_slice bm ?i)) (v (bm_start bm + ?i)) = bm_slice bm ?i"
    using disk i by (simp add: bm_on_disk_def)
  ultimately have "v (bm_start bm + ?i) ! ?r = ?d ! j" by (metis nth_take)
  then show "disk_bits v (bm_start bm) ?n ! j = ?d ! j"
    using nth_concat_blocks [of j "div_ceil ?n BLOCK_SIZE" v "bm_start bm", OF _ lb] j le by (simp add: disk_bits_def)
qed

section \<open>Discards\<close>

definition cover :: "(nat \<times> nat) list \<Rightarrow> nat set" where
  "cover rs = (\<Union>(s, n) \<in> set rs. {s..<s + n})"

lemma cover_append [simp]: "cover (xs @ ys) = cover xs \<union> cover ys"
  by (auto simp: cover_def)

lemma cover_simps [simp]: "cover [] = {}" "cover ((s, n) # rs) = {s..<s + n} \<union> cover rs"
  by (auto simp: cover_def)

lemma run_end_run:
  "b \<le> x \<Longrightarrow> x < run_end data e b \<Longrightarrow> bv_clear data x" "run_end data e b \<le> max b e"
  "run_end data e b < e \<Longrightarrow> \<not> bv_clear data (run_end data e b)"
proof -
  have "(b \<le> x \<and> x < run_end data e b \<longrightarrow> bv_clear data x) \<and> run_end data e b \<le> max b e \<and>
      (run_end data e b < e \<longrightarrow> \<not> bv_clear data (run_end data e b))"
  proof (induction data e b rule: run_end.induct)
    case (1 data e b)
    show ?case
    proof (cases "b < e \<and> bv_clear data b")
      case True
      then show ?thesis using 1 by (subst (1 2 3 4) run_end.simps) (cases "x = b"; auto)
    next
      case False
      then show ?thesis by (subst (1 2 3 4) run_end.simps) auto
    qed
  qed
  then show "b \<le> x \<Longrightarrow> x < run_end data e b \<Longrightarrow> bv_clear data x" "run_end data e b \<le> max b e"
    "run_end data e b < e \<Longrightarrow> \<not> bv_clear data (run_end data e b)" by auto
qed

definition ends_by :: "nat \<Rightarrow> (nat \<times> nat) list \<Rightarrow> bool" where
  "ends_by b rs \<longleftrightarrow> (\<forall>(s, n) \<in> set rs. s + n \<le> b)"

lemma merge_run_result:
  assumes "ends_by b rs" and "b \<le> x" and "x < 2 ^ 64"
  shows "cover (merge_run rs b x) = cover rs \<union> {b..<x}" "ends_by x (merge_run rs b x)"
proof -
  have "cover (merge_run rs b x) = cover rs \<union> {b..<x} \<and> ends_by x (merge_run rs b x)"
  proof (cases rs rule: rev_cases)
    case Nil
    then show ?thesis using assms by (auto simp: merge_run_def ends_by_def)
  next
    case (snoc ys y)
    obtain s n where y: "y = (s, n)" by fastforce
    have e: "s + n \<le> b" using assms(1) snoc y by (simp add: ends_by_def)
    have w: "(s + n) mod 2 ^ 64 = s + n" using e assms by simp
    have d: "(x + 2 ^ 64 - s) mod 2 ^ 64 = x - s"
    proof -
      have "x + 2 ^ 64 - s = (x - s) + 2 ^ 64" using e assms by simp
      then show ?thesis using assms by (simp del: add_diff_assoc2)
    qed
    have "merge_run rs b x = (if s + n \<ge> b then ys @ [(s, max n (x - s))] else rs @ [(b, x - b)])"
      using w d by (simp add: merge_run_def snoc y)
    then show ?thesis using assms e unfolding snoc y by (auto simp: ends_by_def)
  qed
  then show "cover (merge_run rs b x) = cover rs \<union> {b..<x}" "ends_by x (merge_run rs b x)" by auto
qed


lemma trim_range_result:
  assumes "ends_by b rs" and "e < 2 ^ 64"
  shows "cover (trim_range data e b rs) = cover rs \<union> {x. b \<le> x \<and> x < e \<and> bv_clear data x}"
    "ends_by (max b e) (trim_range data e b rs)"
proof -
  have "cover (trim_range data e b rs) = cover rs \<union> {x. b \<le> x \<and> x < e \<and> bv_clear data x} \<and>
      ends_by (max b e) (trim_range data e b rs)"
    using assms
  proof (induction data e b rs rule: trim_range.induct)
    case (1 data e b rs)
    consider "\<not> b < e" | "b < e" "\<not> bv_clear data b" | "b < e" "bv_clear data b" by blast
    then show ?case
    proof cases
      case 1
      then show ?thesis using "1.prems" by (subst (1 2) trim_range.simps) (auto simp: max_def)
    next
      case 2
      have "ends_by (b + 1) rs" using "1.prems"(1) by (auto simp: ends_by_def)
      note ih = "1.IH"(1) [OF 2 this "1.prems"(2)]
      have "trim_range data e b rs = trim_range data e (b + 1) rs" using 2 by (subst trim_range.simps) simp
      moreover have "{x. b \<le> x \<and> x < e \<and> bv_clear data x} = {x. b + 1 \<le> x \<and> x < e \<and> bv_clear data x}"
        using 2(2) by (metis (no_types, lifting) Suc_eq_plus1 Suc_le_eq le_eq_less_or_eq)
      moreover have "max b e = max (b + 1) e" using 2(1) by simp
      ultimately show ?thesis using ih by simp
    next
      case 3
      let ?x = "run_end data e b"
      have x: "b < ?x" "?x \<le> e" using run_end_gt 3 run_end_run(2) [of data e b] by auto
      note m = merge_run_result [OF "1.prems"(1), of ?x]
      have "{y. b \<le> y \<and> y < e \<and> bv_clear data y} = {b..<?x} \<union> {y. ?x \<le> y \<and> y < e \<and> bv_clear data y}"
        using x run_end_run(1) [of b _ data e] by auto
      moreover have "trim_range data e b rs = trim_range data e ?x (merge_run rs b ?x)"
        using 3 by (subst trim_range.simps) simp
      moreover have "max b e = max ?x e" using x by simp
      ultimately show ?thesis using "1.IH"(2) [OF 3(1) _ _ "1.prems"(2)] 3(2) m x "1.prems"(2) by (simp add: Un_assoc)
    qed
  qed
  then show "cover (trim_range data e b rs) = cover rs \<union> {x. b \<le> x \<and> x < e \<and> bv_clear data x}"
    "ends_by (max b e) (trim_range data e b rs)" by auto
qed

definition disjoint_trims :: "bitmap \<Rightarrow> bool" where
  "disjoint_trims bm \<longleftrightarrow> sorted_wrt (\<lambda>(s, n) (t, k). s + n \<le> t) (sort_key fst (trim_pending bm))"

lemma trim_ranges_loop:
  assumes "sorted_wrt (\<lambda>(s, n) (t, k). s + n \<le> t) ps" and "\<And>s n. (s, n) \<in> set ps \<Longrightarrow> s + n \<le> tot" and "tot < 2 ^ 64"
    and "\<And>s n. (s, n) \<in> set ps \<Longrightarrow> ends_by s rs"
  shows "cover (fold (\<lambda>(s, n). trim_range data (min (s + n) tot) s) ps rs) = cover rs \<union> {x \<in> cover ps. bv_clear data x}"
  using assms
proof (induction ps arbitrary: rs)
  case Nil
  then show ?case by simp
next
  case (Cons p ps)
  obtain s n where p: "p = (s, n)" by fastforce
  have sn: "s + n \<le> tot" "ends_by s rs" using Cons.prems(2,4) p by auto
  have lt: "s + n < 2 ^ 64" using sn(1) Cons.prems(3) by simp
  note t = trim_range_result [OF sn(2) lt, of data]
  have "ends_by t (trim_range data (s + n) s rs)" if "(t, k) \<in> set ps" for t k
  proof -
    have "s + n \<le> t" using Cons.prems(1) that p by auto
    then show ?thesis using t(2) by (fastforce simp: ends_by_def)
  qed
  from Cons.IH [OF _ _ Cons.prems(3) this] show ?case
    using Cons.prems(1,2) t(1) sn(1) unfolding p by auto
qed

lemma trim_ranges_cover:
  assumes inv: "bm_inv bm" and dj: "disjoint_trims bm"
  shows "cover (trim_ranges bm) = cover (trim_pending bm) \<inter> free_blocks bm"
proof -
  have tot: "\<And>s n. (s, n) \<in> set (trim_pending bm) \<Longrightarrow> s + n \<le> bm_total bm" "bm_total bm < 2 ^ 64"
    using inv by (auto simp: bm_inv_def)
  have "cover (sort_key fst (trim_pending bm)) = cover (trim_pending bm)" by (simp add: cover_def)
  moreover have "cover (trim_ranges bm) = cover [] \<union> {x \<in> cover (sort_key fst (trim_pending bm)). bv_clear (bm_data bm) x}"
    unfolding trim_ranges_def
    by (rule trim_ranges_loop [OF dj [unfolded disjoint_trims_def] _ tot(2)]) (use tot in \<open>auto simp: ends_by_def\<close>)
  moreover have "x < bm_total bm" if "x \<in> cover (trim_pending bm)" for x
    using that tot(1) unfolding cover_def by (fastforce intro: less_le_trans)
  ultimately show ?thesis by (auto simp: free_blocks_iff)
qed

end
