(* ===== verification/Fs_Journal.thy ===== *)
theory Fs_Journal
  imports Block_Bitmap Disk_Format "HOL-Library.Product_Lexorder"
begin

text \<open>
  The deferred-free journal of \<^verbatim>\<open>kernel/src/storage/npkfs/journal.rs\<close>: a commit writes the ranges it
  is about to free into a ring of 256 blocks (\<open>prepare\<close>), marks them committed after the superblock
  (\<open>finalize\<close>), and a mount reads the committed ones back (\<open>replay\<close>). The lemmas show that a replay
  returns exactly the ranges of the last commit when the rest of the ring is older.
\<close>

section \<open>Definitions\<close>

record journal =
  j_head :: nat
  j_seq :: nat
  pending_frees :: "(nat \<times> nat) list"
  uncommitted_blocks :: "nat list"

record jrnl_io = alloc_io +
  jrnl :: journal

definition fs_journal_new :: "nat \<Rightarrow> nat \<Rightarrow> journal" where
  "fs_journal_new head seq = \<lparr>j_head = head, j_seq = seq, pending_frees = [], uncommitted_blocks = []\<rparr>"

definition journal_pending :: "journal \<Rightarrow> nat" where
  "journal_pending j = length (pending_frees j)"

definition record_free :: "nat \<Rightarrow> nat \<Rightarrow> journal \<Rightarrow> journal" where
  "record_free start count j =
     (if count > 0 then j\<lparr>pending_frees := pending_frees j @ [(start, count)]\<rparr> else j)"

definition merge_free :: "nat \<times> nat \<Rightarrow> (nat \<times> nat) list \<Rightarrow> (nat \<times> nat) list" where
  "merge_free = (\<lambda>(start, cnt) merged.
     if merged \<noteq> [] \<and> wrap64 (fst (last merged) + snd (last merged)) = start
     then butlast merged @ [(fst (last merged), wrap64 (snd (last merged) + cnt))]
     else merged @ [(start, cnt)])"

definition merge_frees :: "(nat \<times> nat) list \<Rightarrow> (nat \<times> nat) list" where
  "merge_frees frees = fold merge_free (sort frees) []"

definition journal_room :: nat where
  "journal_room = JOURNAL_BLOCKS * MAX_JOURNAL_ENTRIES"

definition free_bytes :: "nat \<times> nat \<Rightarrow> bytes" where
  "free_bytes = (\<lambda>(start, cnt). to_le 8 start @ to_le 8 cnt)"

definition journal_buf :: "nat \<Rightarrow> (nat \<times> nat) list \<Rightarrow> bytes" where
  "journal_buf seq frees = splice 0
     (JOURNAL_MAGIC @ to_le 8 seq @ to_le 4 (length frees) @ to_le 4 0 @ concat (map free_bytes frees))
     (replicate BLOCK_SIZE 0)"

definition push_journal :: "(nat \<times> nat) list \<Rightarrow> ('a jrnl_io_scheme, fs_error, unit) op" where
  "push_journal frees m =
     (let journal_block = JOURNAL_START + j_head (jrnl m)
      in bindE (cache_write journal_block (journal_buf (j_seq (jrnl m)) frees)) (\<lambda>_ m.
           (Inr (), m\<lparr>jrnl := (jrnl m)\<lparr>uncommitted_blocks := uncommitted_blocks (jrnl m) @ [journal_block],
                                      j_head := (j_head (jrnl m) + 1) mod JOURNAL_BLOCKS\<rparr>\<rparr>)) m)"

function prepare_loop :: "(nat \<times> nat) list \<Rightarrow> ('a jrnl_io_scheme, fs_error, unit) op" where
  "prepare_loop frees =
     (if frees = [] then retE ()
      else let count = min (length frees) MAX_JOURNAL_ENTRIES
           in bindE (push_journal (take count frees)) (\<lambda>_. prepare_loop (drop count frees)))"
  by pat_completeness auto
termination
  by (relation "measure length") (auto simp: MAX_JOURNAL_ENTRIES_def BLOCK_SIZE_def)

declare prepare_loop.simps [simp del]

definition prepare :: "('a jrnl_io_scheme, fs_error, unit) op" where
  "prepare m =
     (if pending_frees (jrnl m) = [] then (Inr (), m)
      else let frees = take journal_room (merge_frees (pending_frees (jrnl m)));
               j = (jrnl m)\<lparr>j_seq := wrap64 (j_seq (jrnl m) + 1), uncommitted_blocks := [], pending_frees := frees\<rparr>
           in bindE (prepare_loop frees) (\<lambda>_ m. (Inr (), m\<lparr>jrnl := (jrnl m)\<lparr>pending_frees := []\<rparr>\<rparr>)) (m\<lparr>jrnl := j\<rparr>))"

definition mark_committed :: "nat \<Rightarrow> ('a io_scheme, fs_error, unit) op" where
  "mark_committed journal_block =
     bindE (cache_read journal_block) (\<lambda>buf. cache_write journal_block (splice 20 (to_le 4 1) buf))"

definition finalize :: "('a jrnl_io_scheme, fs_error, unit) op" where
  "finalize m =
     bindE (forE mark_committed (uncommitted_blocks (jrnl m)))
       (\<lambda>_ m. (Inr (), m\<lparr>jrnl := (jrnl m)\<lparr>uncommitted_blocks := []\<rparr>\<rparr>)) m"

definition replay_pos :: "nat \<Rightarrow> nat \<Rightarrow> nat" where
  "replay_pos head i = (if head \<ge> 1 + i then head - 1 - i else wrap64 (JOURNAL_BLOCKS - 1 - i + head))"

definition journal_entries :: "bytes \<Rightarrow> (nat \<times> nat) list" where
  "journal_entries buf =
     filter (\<lambda>(start, cnt). start > 0 \<and> cnt > 0)
       (map (\<lambda>j. (rd_le 8 (24 + j * 16) buf, rd_le 8 (24 + j * 16 + 8) buf))
         [0..<min (rd_le 4 16 buf) MAX_JOURNAL_ENTRIES])"

fun replay_scan :: "nat \<Rightarrow> nat \<Rightarrow> nat list \<Rightarrow> (nat \<times> nat) list \<Rightarrow> ('a io_scheme, fs_error, (nat \<times> nat) list) op" where
  "replay_scan head expected_seq [] frees = retE frees"
| "replay_scan head expected_seq (i # is) frees =
     bindE (cache_read (wrap64 (JOURNAL_START + replay_pos head i))) (\<lambda>buf.
       if take 8 buf \<noteq> JOURNAL_MAGIC then retE frees
       else let seq = rd_le 8 8 buf; committed = rd_le 4 20 buf
            in if committed \<noteq> 1 then replay_scan head expected_seq is frees
               else if seq < expected_seq then retE frees
               else replay_scan head expected_seq is (frees @ journal_entries buf))"

definition replay :: "nat \<Rightarrow> nat \<Rightarrow> ('a io_scheme, fs_error, (nat \<times> nat) list) op" where
  "replay head expected_seq = replay_scan head expected_seq [0..<JOURNAL_BLOCKS] []"

section \<open>Journal blocks\<close>

lemma MAX_JOURNAL_ENTRIES_val: "MAX_JOURNAL_ENTRIES = 254"
  by (simp add: MAX_JOURNAL_ENTRIES_def BLOCK_SIZE_def)

lemma length_free_bytes [simp]: "length (free_bytes f) = 16"
  by (cases f) (simp add: free_bytes_def del: to_le_numeral)

lemma length_concat_free_bytes [simp]: "length (concat (map free_bytes fs)) = 16 * length fs"
  by (induction fs) auto

definition committed_buf :: "nat \<Rightarrow> (nat \<times> nat) list \<Rightarrow> bytes" where
  "committed_buf seq frees = splice 20 (to_le 4 1) (journal_buf seq frees)"

definition free_ok :: "nat \<times> nat \<Rightarrow> bool" where
  "free_ok = (\<lambda>(start, cnt). 0 < start \<and> start < 2 ^ 64 \<and> 0 < cnt \<and> cnt < 2 ^ 64)"

lemma journal_buf_eq:
  assumes "length fs \<le> MAX_JOURNAL_ENTRIES"
  shows "journal_buf seq fs = JOURNAL_MAGIC @ to_le 8 seq @ to_le 4 (length fs) @ to_le 4 0 @ concat (map free_bytes fs) @
      replicate (BLOCK_SIZE - 24 - 16 * length fs) 0"
  using assms by (simp add: journal_buf_def splice_def JOURNAL_MAGIC_def add.commute del: to_le_numeral)

lemma length_journal_buf: "length fs \<le> MAX_JOURNAL_ENTRIES \<Longrightarrow> length (journal_buf seq fs) = BLOCK_SIZE"
  by (simp add: journal_buf_eq JOURNAL_MAGIC_def MAX_JOURNAL_ENTRIES_val BLOCK_SIZE_def del: to_le_numeral)

lemma committed_buf_eq:
  assumes "length fs \<le> MAX_JOURNAL_ENTRIES"
  shows "committed_buf seq fs = JOURNAL_MAGIC @ to_le 8 seq @ to_le 4 (length fs) @ to_le 4 1 @ concat (map free_bytes fs) @
      replicate (BLOCK_SIZE - 24 - 16 * length fs) 0"
  using assms by (simp add: committed_buf_def journal_buf_eq splice_def JOURNAL_MAGIC_def del: to_le_numeral)

lemma length_committed_buf: "length fs \<le> MAX_JOURNAL_ENTRIES \<Longrightarrow> length (committed_buf seq fs) = BLOCK_SIZE"
  by (simp add: committed_buf_eq JOURNAL_MAGIC_def MAX_JOURNAL_ENTRIES_val BLOCK_SIZE_def del: to_le_numeral)

lemma slice_free_bytes:
  "j < length fs \<Longrightarrow> slice (16 * j) 8 (concat (map free_bytes fs) @ rest) = to_le 8 (fst (fs ! j)) \<and>
     slice (16 * j + 8) 8 (concat (map free_bytes fs) @ rest) = to_le 8 (snd (fs ! j))"
proof (induction fs arbitrary: j)
  case Nil
  then show ?case by simp
next
  case (Cons f fs)
  obtain a b where f: "f = (a, b)" by fastforce
  show ?case
  proof (cases j)
    case 0
    then show ?thesis by (simp add: f free_bytes_def slices del: to_le_numeral)
  next
    case (Suc k)
    then have "slice (16 * j) 8 (concat (map free_bytes (f # fs)) @ rest) = slice (16 * k) 8 (concat (map free_bytes fs) @ rest)"
      "slice (16 * j + 8) 8 (concat (map free_bytes (f # fs)) @ rest) = slice (16 * k + 8) 8 (concat (map free_bytes fs) @ rest)"
      by (simp_all add: slice_def add.commute)
    then show ?thesis using Cons Suc by simp
  qed
qed

lemma committed_buf_fields:
  assumes n: "length fs \<le> MAX_JOURNAL_ENTRIES" and "seq < 2 ^ 64"
  shows "take 8 (committed_buf seq fs) = JOURNAL_MAGIC" "rd_le 8 8 (committed_buf seq fs) = seq"
    "rd_le 4 20 (committed_buf seq fs) = 1" "list_all free_ok fs \<Longrightarrow> journal_entries (committed_buf seq fs) = fs"
proof -
  let ?b = "committed_buf seq fs"
  have lm: "length JOURNAL_MAGIC = 8" by (simp add: JOURNAL_MAGIC_def)
  note eq = committed_buf_eq [OF n, of seq]
  show "take 8 ?b = JOURNAL_MAGIC" using lm by (simp add: eq del: to_le_numeral)
  show "rd_le 8 8 ?b = seq" using lm assms(2) by (simp add: eq rd_le_def slices codec del: to_le_numeral)
  show "rd_le 4 20 ?b = 1" using lm by (simp add: eq rd_le_def slices codec del: to_le_numeral)
  have len: "rd_le 4 16 ?b = length fs"
    using lm n by (simp add: eq rd_le_def slices codec MAX_JOURNAL_ENTRIES_val del: to_le_numeral)
  assume ok: "list_all free_ok fs"
  have el: "(rd_le 8 (24 + j * 16) ?b, rd_le 8 (24 + j * 16 + 8) ?b) = fs ! j" if "j < length fs" for j
  proof -
    let ?rest = "replicate (BLOCK_SIZE - 24 - 16 * length fs) (0 :: u8)"
    have "slice (24 + j * 16) 8 ?b = slice (16 * j) 8 (concat (map free_bytes fs) @ ?rest)"
      "slice (24 + j * 16 + 8) 8 ?b = slice (16 * j + 8) 8 (concat (map free_bytes fs) @ ?rest)"
      using lm by (simp_all add: eq slices mult.commute add.commute del: to_le_numeral)
    moreover have "fst (fs ! j) < 2 ^ 64" "snd (fs ! j) < 2 ^ 64" using ok that by (auto simp: list_all_length free_ok_def)
    ultimately show ?thesis using slice_free_bytes [OF that, of ?rest] by (simp add: rd_le_def codec del: to_le_numeral)
  qed
  have "map (\<lambda>j. (rd_le 8 (24 + j * 16) ?b, rd_le 8 (24 + j * 16 + 8) ?b)) [0..<length fs] = map ((!) fs) [0..<length fs]"
    by (rule map_cong) (use el in auto)
  also have "\<dots> = fs" by (rule map_nth)
  finally have "journal_entries ?b = filter (\<lambda>(start, cnt). start > 0 \<and> cnt > 0) fs"
    using n by (simp add: journal_entries_def len)
  also have "\<dots> = fs" using ok by (auto simp: filter_id_conv list_all_iff free_ok_def)
  finally show "journal_entries ?b = fs" .
qed

section \<open>Merging\<close>

lemma merge_free_cover:
  assumes "ms = [] \<or> fst (last ms) + snd (last ms) < 2 ^ 64" and "start + cnt < 2 ^ 64"
  shows "cover (merge_free (start, cnt) ms) = cover ms \<union> {start..<start + cnt}"
    "fst (last (merge_free (start, cnt) ms)) + snd (last (merge_free (start, cnt) ms)) = start + cnt"
    "merge_free (start, cnt) ms \<noteq> []"
    "list_all free_ok ms \<Longrightarrow> free_ok (start, cnt) \<Longrightarrow> list_all free_ok (merge_free (start, cnt) ms)"
proof -
  have "cover (merge_free (start, cnt) ms) = cover ms \<union> {start..<start + cnt} \<and>
    fst (last (merge_free (start, cnt) ms)) + snd (last (merge_free (start, cnt) ms)) = start + cnt \<and>
    merge_free (start, cnt) ms \<noteq> [] \<and>
    (list_all free_ok ms \<longrightarrow> free_ok (start, cnt) \<longrightarrow> list_all free_ok (merge_free (start, cnt) ms))"
  proof (cases ms rule: rev_cases)
    case Nil
    then show ?thesis by (simp add: merge_free_def)
  next
    case (snoc ys y)
    obtain s n where y: "y = (s, n)" by fastforce
    have lt: "s + n < 2 ^ 64" using assms(1) snoc y by simp
    have "merge_free (start, cnt) ms = (if s + n = start then ys @ [(s, n + cnt)] else ms @ [(start, cnt)])"
      using lt assms(2) by (auto simp: merge_free_def snoc y)
    then show ?thesis using assms(2) lt unfolding snoc y by (auto simp: free_ok_def)
  qed
  then show "cover (merge_free (start, cnt) ms) = cover ms \<union> {start..<start + cnt}"
    "fst (last (merge_free (start, cnt) ms)) + snd (last (merge_free (start, cnt) ms)) = start + cnt"
    "merge_free (start, cnt) ms \<noteq> []"
    "list_all free_ok ms \<Longrightarrow> free_ok (start, cnt) \<Longrightarrow> list_all free_ok (merge_free (start, cnt) ms)" by auto
qed

lemma merge_frees_loop:
  assumes "\<And>s n. (s, n) \<in> set fs \<Longrightarrow> s + n < 2 ^ 64" and "ms = [] \<or> fst (last ms) + snd (last ms) < 2 ^ 64"
  shows "cover (fold merge_free fs ms) = cover ms \<union> cover fs"
    "list_all free_ok ms \<Longrightarrow> list_all free_ok fs \<Longrightarrow> list_all free_ok (fold merge_free fs ms)"
proof -
  have "cover (fold merge_free fs ms) = cover ms \<union> cover fs \<and>
      (list_all free_ok ms \<longrightarrow> list_all free_ok fs \<longrightarrow> list_all free_ok (fold merge_free fs ms))"
    using assms
  proof (induction fs arbitrary: ms)
    case Nil
    then show ?case by simp
  next
    case (Cons f fs)
    obtain s n where f: "f = (s, n)" by fastforce
    have lt: "s + n < 2 ^ 64" using Cons.prems(1) f by simp
    note m = merge_free_cover [OF Cons.prems(2) lt]
    have "cover (fold merge_free fs (merge_free (s, n) ms)) = cover (merge_free (s, n) ms) \<union> cover fs \<and>
      (list_all free_ok (merge_free (s, n) ms) \<longrightarrow> list_all free_ok fs \<longrightarrow> list_all free_ok (fold merge_free fs (merge_free (s, n) ms)))"
      by (rule Cons.IH) (use Cons.prems(1) m lt in auto)
    then show ?case using m f by auto
  qed
  then show "cover (fold merge_free fs ms) = cover ms \<union> cover fs"
    "list_all free_ok ms \<Longrightarrow> list_all free_ok fs \<Longrightarrow> list_all free_ok (fold merge_free fs ms)" by auto
qed

lemma merge_frees_cover:
  assumes "\<And>s n. (s, n) \<in> set fs \<Longrightarrow> s + n < 2 ^ 64" and "list_all free_ok fs"
  shows "cover (merge_frees fs) = cover fs" "list_all free_ok (merge_frees fs)"
proof -
  have "cover (sort fs) = cover fs" by (simp add: cover_def)
  then show "cover (merge_frees fs) = cover fs" "list_all free_ok (merge_frees fs)"
    using merge_frees_loop [of "sort fs" "[]"] assms unfolding merge_frees_def by (auto simp: list_all_iff)
qed

section \<open>Replay over the contents of the ring\<close>

fun replay_pure :: "(nat \<Rightarrow> bytes) \<Rightarrow> nat \<Rightarrow> nat \<Rightarrow> nat list \<Rightarrow> (nat \<times> nat) list" where
  "replay_pure v head seq [] = []"
| "replay_pure v head seq (i # is) =
     (let buf = v (JOURNAL_START + replay_pos head i)
      in if take 8 buf \<noteq> JOURNAL_MAGIC then []
         else if rd_le 4 20 buf \<noteq> 1 then replay_pure v head seq is
         else if rd_le 8 8 buf < seq then []
         else journal_entries buf @ replay_pure v head seq is)"

lemma replay_pos_less: "head < JOURNAL_BLOCKS \<Longrightarrow> i < JOURNAL_BLOCKS \<Longrightarrow> replay_pos head i < JOURNAL_BLOCKS"
  by (auto simp: replay_pos_def JOURNAL_BLOCKS_def)

lemma replay_pos_mod:
  "head < JOURNAL_BLOCKS \<Longrightarrow> i < JOURNAL_BLOCKS \<Longrightarrow> replay_pos head i = (head + (JOURNAL_BLOCKS - 1 - i)) mod JOURNAL_BLOCKS"
proof -
  assume h: "head < JOURNAL_BLOCKS" "i < JOURNAL_BLOCKS"
  show ?thesis
  proof (cases "head \<ge> 1 + i")
    case True
    then have e: "head + (JOURNAL_BLOCKS - 1 - i) = (head - 1 - i) + JOURNAL_BLOCKS" using h by linarith
    have "(head + (JOURNAL_BLOCKS - 1 - i)) mod JOURNAL_BLOCKS = head - 1 - i"
      unfolding e mod_add_self2 using h by (intro mod_less) linarith
    then show ?thesis using True by (simp add: replay_pos_def)
  next
    case False
    then show ?thesis using h by (simp add: replay_pos_def JOURNAL_BLOCKS_def add.commute)
  qed
qed

lemma replay_scan_spec:
  assumes "cache_inv chk m" and "head < JOURNAL_BLOCKS" and "\<forall>i \<in> set is. i < JOURNAL_BLOCKS"
  shows "wpE (replay_scan head seq is frees)
    (\<lambda>r m'. r = frees @ replay_pure (view m) head seq is \<and> cache_inv chk m' \<and> view m' = view m \<and> (\<forall>B. quiet B m m'))
    (\<lambda>e m'. cache_inv chk m' \<and> view m' = view m \<and> (\<forall>B. quiet B m m')) m"
  using assms
proof (induction "is" arbitrary: frees m)
  case Nil
  then show ?case by (simp add: wp)
next
  case (Cons i "is")
  let ?b = "JOURNAL_START + replay_pos head i"
  have "replay_pos head i < JOURNAL_BLOCKS" using replay_pos_less Cons.prems by simp
  then have b: "?b < 2 ^ 64" "wrap64 ?b = ?b" by (simp_all add: format_consts)
  have step: "wpE (replay_scan head seq is fr)
      (\<lambda>r m'. r = fr @ replay_pure (view m) head seq is \<and> cache_inv chk m' \<and> view m' = view m \<and> (\<forall>B. quiet B m m'))
      (\<lambda>e m'. cache_inv chk m' \<and> view m' = view m \<and> (\<forall>B. quiet B m m')) m1"
    if "cache_inv chk m1" "view m1 = view m" "\<And>B. quiet B m m1" for m1 fr
  proof -
    have "\<forall>i \<in> set is. i < JOURNAL_BLOCKS" using Cons.prems(3) by simp
    from Cons.IH [OF that(1) Cons.prems(2) this, of fr] show ?thesis
      by (rule wpE_mono) (use that quiet_trans in \<open>simp_all, blast+\<close>)
  qed
  show ?case
    unfolding replay_scan.simps wpE_bind b(2)
  proof (rule cache_store.rd_wp [OF Cons.prems(1) b(1)])
    fix m1 assume m1: "cache_inv chk m1" "view m1 = view m" "\<And>B. quiet B m m1"
    show "wpE (if take 8 (view m ?b) \<noteq> JOURNAL_MAGIC then retE frees
        else let s = rd_le 8 8 (view m ?b); committed = rd_le 4 20 (view m ?b)
          in if committed \<noteq> 1 then replay_scan head seq is frees else if s < seq then retE frees
             else replay_scan head seq is (frees @ journal_entries (view m ?b)))
       (\<lambda>r m'. r = frees @ replay_pure (view m) head seq (i # is) \<and> cache_inv chk m' \<and> view m' = view m \<and> (\<forall>B. quiet B m m'))
       (\<lambda>e m'. cache_inv chk m' \<and> view m' = view m \<and> (\<forall>B. quiet B m m')) m1"
      using step [OF m1, of frees] step [OF m1, of "frees @ journal_entries (view m ?b)"] m1
      by (simp add: wp Let_def)
  qed auto
qed

text \<open>A block that a replay with this sequence number passes over.\<close>

definition stale :: "nat \<Rightarrow> bytes \<Rightarrow> bool" where
  "stale seq buf \<longleftrightarrow> take 8 buf \<noteq> JOURNAL_MAGIC \<or> rd_le 4 20 buf \<noteq> 1 \<or> rd_le 8 8 buf < seq"

lemma replay_stale:
  "(\<And>i. i \<in> set is \<Longrightarrow> stale seq (v (JOURNAL_START + replay_pos head i))) \<Longrightarrow> replay_pure v head seq is = []"
  by (induction "is") (auto simp: stale_def Let_def)

text \<open>A commit's blocks: one per chunk, from the head on.\<close>

function chunks :: "(nat \<times> nat) list \<Rightarrow> (nat \<times> nat) list list" where
  "chunks fs = (if fs = [] then [] else take MAX_JOURNAL_ENTRIES fs # chunks (drop MAX_JOURNAL_ENTRIES fs))"
  by pat_completeness auto
termination
  by (relation "measure length") (auto simp: MAX_JOURNAL_ENTRIES_val)

declare chunks.simps [simp del]

lemma chunks_concat: "concat (chunks fs) = fs"
  by (induction fs rule: chunks.induct) (subst chunks.simps, auto)

lemma chunks_small: "c \<in> set (chunks fs) \<Longrightarrow> length c \<le> MAX_JOURNAL_ENTRIES"
  by (induction fs rule: chunks.induct) (subst (asm) (2) chunks.simps, auto split: if_splits)

lemma length_chunks: "length (chunks fs) = div_ceil (length fs) MAX_JOURNAL_ENTRIES"
proof (induction fs rule: chunks.induct)
  case (1 fs)
  show ?case
  proof (cases "fs = []")
    case True
    then show ?thesis by (subst chunks.simps) (simp add: div_ceil_def MAX_JOURNAL_ENTRIES_val)
  next
    case False
    then have "0 < length fs" by simp
    then have "Suc (div_ceil (length fs - 254) 254) = div_ceil (length fs) 254"
    proof (cases "length fs \<le> 254")
      case True
      then have "(length fs + 253) div 254 = 1" using \<open>0 < length fs\<close> by (intro div_nat_eqI) (linarith, simp)
      then show ?thesis using True by (simp add: div_ceil_def)
    next
      case False
      then have "length fs + 253 = length fs - 1 + 254" by simp
      then have "(length fs + 253) div 254 = Suc ((length fs - 1) div 254)" by simp
      then show ?thesis using False by (simp add: div_ceil_def)
    qed
    then show ?thesis using 1 False by (subst chunks.simps) (simp add: MAX_JOURNAL_ENTRIES_val)
  qed
qed

lemma chunks_room: "length fs \<le> journal_room \<Longrightarrow> length (chunks fs) \<le> JOURNAL_BLOCKS"
  unfolding length_chunks journal_room_def div_ceil_def JOURNAL_BLOCKS_def MAX_JOURNAL_ENTRIES_val by linarith

definition journal_pos :: "nat \<Rightarrow> nat \<Rightarrow> nat" where
  "journal_pos head i = JOURNAL_START + (head + i) mod JOURNAL_BLOCKS"

lemma replay_pos_recent:
  assumes "head < JOURNAL_BLOCKS" "i < k" "k \<le> JOURNAL_BLOCKS"
  shows "JOURNAL_START + replay_pos ((head + k) mod JOURNAL_BLOCKS) i = journal_pos head (k - 1 - i)"
proof -
  have "((head + k) mod JOURNAL_BLOCKS + (JOURNAL_BLOCKS - 1 - i)) mod JOURNAL_BLOCKS = (head + k + (JOURNAL_BLOCKS - 1 - i)) mod JOURNAL_BLOCKS"
    by (rule mod_add_left_eq)
  also have "head + k + (JOURNAL_BLOCKS - 1 - i) = head + (k - 1 - i) + JOURNAL_BLOCKS" using assms by linarith
  also have "(head + (k - 1 - i) + JOURNAL_BLOCKS) mod JOURNAL_BLOCKS = (head + (k - 1 - i)) mod JOURNAL_BLOCKS" by (rule mod_add_self2)
  finally show ?thesis
    using replay_pos_mod [of "(head + k) mod JOURNAL_BLOCKS" i] assms by (simp add: journal_pos_def JOURNAL_BLOCKS_def)
qed

lemma journal_pos_inj:
  assumes "i < JOURNAL_BLOCKS" "j < JOURNAL_BLOCKS" "journal_pos head i = journal_pos head j"
  shows "i = j"
proof -
  have "(i + head) mod JOURNAL_BLOCKS = (j + head) mod JOURNAL_BLOCKS" using assms(3) by (simp add: journal_pos_def add.commute)
  note e = this
  show ?thesis
  proof (cases "i \<le> j")
    case True
    from shifted_inj [OF this assms(2) e [symmetric]] show ?thesis by simp
  next
    case False
    then have "j \<le> i" by simp
    from shifted_inj [OF this assms(1) e] show ?thesis .
  qed
qed

lemma replay_commit:
  assumes head: "head < JOURNAL_BLOCKS" and k: "k = length cs" "k \<le> JOURNAL_BLOCKS" and seq: "seq < 2 ^ 64"
    and new: "\<And>i. i < k \<Longrightarrow> v (journal_pos head i) = committed_buf seq (cs ! i)"
    and ok: "\<And>c. c \<in> set cs \<Longrightarrow> length c \<le> MAX_JOURNAL_ENTRIES \<and> list_all free_ok c"
    and old: "\<And>i. k \<le> i \<Longrightarrow> i < JOURNAL_BLOCKS \<Longrightarrow> stale seq (v (journal_pos head i))"
  shows "replay_pure v ((head + k) mod JOURNAL_BLOCKS) seq [0..<JOURNAL_BLOCKS] = concat (rev cs)"
proof -
  let ?h = "(head + k) mod JOURNAL_BLOCKS"
  have rest: "replay_pure v ?h seq [k..<JOURNAL_BLOCKS] = []"
  proof (rule replay_stale)
    fix i assume i: "i \<in> set [k..<JOURNAL_BLOCKS]"
    have "?h < JOURNAL_BLOCKS" by (simp add: JOURNAL_BLOCKS_def)
    have "JOURNAL_START + replay_pos ?h i = journal_pos head (k + (JOURNAL_BLOCKS - 1 - i))"
    proof -
      have "i < JOURNAL_BLOCKS" using i by simp
      have "replay_pos ?h i = (head + k + (JOURNAL_BLOCKS - 1 - i)) mod JOURNAL_BLOCKS"
        unfolding replay_pos_mod [OF \<open>?h < JOURNAL_BLOCKS\<close> \<open>i < JOURNAL_BLOCKS\<close>] by (rule mod_add_left_eq)
      then show ?thesis unfolding journal_pos_def add.assoc by simp
    qed
    moreover have "k \<le> k + (JOURNAL_BLOCKS - 1 - i)" "k + (JOURNAL_BLOCKS - 1 - i) < JOURNAL_BLOCKS" using i by auto
    ultimately show "stale seq (v (JOURNAL_START + replay_pos ?h i))" using old by simp
  qed
  have "replay_pure v ?h seq ([j..<k] @ [k..<JOURNAL_BLOCKS]) = concat (rev (take (k - j) cs))" if "j \<le> k" for j
    using that
  proof (induction "k - j" arbitrary: j)
    case 0
    then show ?case using rest by simp
  next
    case (Suc n)
    then have j: "j < k" by simp
    have up: "[j..<k] = j # [Suc j..<k]" using j by (simp add: upt_conv_Cons)
    have pos: "JOURNAL_START + replay_pos ?h j = journal_pos head (k - 1 - j)" by (rule replay_pos_recent [OF head j k(2)])
    have c: "cs ! (k - 1 - j) \<in> set cs" using j k(1) by simp
    have "v (JOURNAL_START + replay_pos ?h j) = committed_buf seq (cs ! (k - 1 - j))" unfolding pos using new j by simp
    moreover have "take (k - j) cs = take (k - Suc j) cs @ [cs ! (k - 1 - j)]"
      using j k(1) take_Suc_conv_app_nth [of "k - Suc j" cs] by (simp add: Suc_diff_Suc)
    ultimately show ?case
      using Suc.hyps(1) [of "Suc j"] Suc.hyps(2) j committed_buf_fields [of "cs ! (k - 1 - j)" seq] ok [OF c] seq
      unfolding up by simp
  qed
  from this [of 0] show ?thesis using k upt_add_eq_append [of 0 k "JOURNAL_BLOCKS - k"] by simp
qed

section \<open>Writing the journal\<close>

lemma jrnl_update_io [simp]:
  "cache_inv chk (m\<lparr>jrnl := x\<rparr>) = cache_inv chk m" "view (m\<lparr>jrnl := x\<rparr>) = view m"
  "calm B (m\<lparr>jrnl := x\<rparr>) m' = calm B m m'" "calm B m (m'\<lparr>jrnl := x\<rparr>) = calm B m m'"
  by (simp_all add: io_fields fun_eq_iff split: option.split)

lemma quiet_jrnl: "quiet B m m' \<Longrightarrow> bmap m' = bmap m \<and> jrnl m' = jrnl m \<and> jrnl_io.more m' = jrnl_io.more m"
  by (cases m; cases m') (simp add: quiet_def)

definition journal_area :: "nat set" where
  "journal_area = {JOURNAL_START..<META_END}"

lemma journal_pos_area [simp]: "journal_pos h i \<in> journal_area"
  by (simp add: journal_pos_def journal_area_def META_END_def JOURNAL_BLOCKS_def)

lemma journal_pos_less [simp]: "journal_pos h i < 18446744073709551616"
  using journal_pos_area [of h i] by (simp add: journal_area_def format_consts)

lemma journal_pos_next: "journal_pos ((h + 1) mod JOURNAL_BLOCKS) i = journal_pos h (Suc i)"
  by (simp add: journal_pos_def mod_add_left_eq [of "h + 1", symmetric]) (simp add: mod_add_left_eq)

lemma journal_pos_head: "h < JOURNAL_BLOCKS \<Longrightarrow> JOURNAL_START + h = journal_pos h 0"
  by (simp add: journal_pos_def)

definition jrn_step :: "(bytes \<Rightarrow> bool) \<Rightarrow> 'a jrnl_io_scheme \<Rightarrow> 'a jrnl_io_scheme \<Rightarrow> bool" where
  "jrn_step chk m m' \<longleftrightarrow> cache_inv chk m' \<and> bmap m' = bmap m \<and> jrnl_io.more m' = jrnl_io.more m \<and>
     (\<forall>b. b \<notin> journal_area \<longrightarrow> view m' b = view m b) \<and> (\<forall>B. journal_area \<subseteq> B \<longrightarrow> calm B m m')"

lemma jrn_step_refl: "cache_inv chk m \<Longrightarrow> jrn_step chk m m"
  by (simp add: jrn_step_def)

lemma jrn_step_trans [trans]: "jrn_step chk m m' \<Longrightarrow> jrn_step chk m' m'' \<Longrightarrow> jrn_step chk m m''"
  unfolding jrn_step_def using calm_trans by metis

lemma jrn_step_jrnl [simp]: "jrn_step chk m (m'\<lparr>jrnl := x\<rparr>) = jrn_step chk m m'" "jrn_step chk (m\<lparr>jrnl := x\<rparr>) m' = jrn_step chk m m'"
  by (simp_all add: jrn_step_def)

lemma journal_write:
  assumes "cache_inv chk m" and "b \<in> journal_area" and "length buf = BLOCK_SIZE"
  shows "wpE (cache_write b buf) (\<lambda>_ m'. jrn_step chk m m' \<and> jrnl m' = jrnl m \<and> view m' = (view m)(b := buf))
    (\<lambda>e m'. jrn_step chk m m' \<and> jrnl m' = jrnl m \<and> view m' = view m) m"
proof (rule cache_store.wr_wp [OF assms(1) _ assms(3)])
  show "b < 2 ^ 64" using assms(2) by (simp add: journal_area_def format_consts)
  fix m1 assume m1: "cache_inv chk m1" "view m1 = (view m)(b := buf)" "\<And>B. b \<in> B \<Longrightarrow> quiet B m m1"
  show "jrn_step chk m m1 \<and> jrnl m1 = jrnl m \<and> view m1 = (view m)(b := buf)"
    using m1 assms(2) quiet_jrnl [OF m1(3) [of "{b}"]] unfolding jrn_step_def quiet_calm by auto
next
  fix e m1 assume m1: "cache_inv chk m1" "view m1 = view m" "\<And>B. b \<in> B \<Longrightarrow> quiet B m m1"
  show "jrn_step chk m m1 \<and> jrnl m1 = jrnl m \<and> view m1 = view m"
    using m1 assms(2) quiet_jrnl [OF m1(3) [of "{b}"]] unfolding jrn_step_def quiet_calm by auto
qed

definition written :: "nat \<Rightarrow> nat \<Rightarrow> (nat \<times> nat) list list \<Rightarrow> (nat \<Rightarrow> bytes) \<Rightarrow> (nat \<Rightarrow> bytes) \<Rightarrow> bool" where
  "written h seq cs v v' \<longleftrightarrow> (\<forall>i < length cs. v' (journal_pos h i) = journal_buf seq (cs ! i)) \<and>
     (\<forall>b. b \<notin> journal_pos h ` {..<length cs} \<longrightarrow> v' b = v b)"

lemma written_Cons:
  assumes "written ((h + 1) mod JOURNAL_BLOCKS) seq cs (v(journal_pos h 0 := journal_buf seq c)) v'" and "length (c # cs) \<le> JOURNAL_BLOCKS"
  shows "written h seq (c # cs) v v'"
proof -
  have e: "journal_pos ((h + 1) mod JOURNAL_BLOCKS) ` {..<length cs} = journal_pos h ` Suc ` {..<length cs}"
    unfolding image_image journal_pos_next ..
  have ne: "journal_pos h 0 \<noteq> journal_pos h (Suc i)" if "i < length cs" for i
    using journal_pos_inj [of 0 "Suc i" h] that assms(2) by auto
  have all: "journal_pos h ` {..<length (c # cs)} = insert (journal_pos h 0) (journal_pos h ` Suc ` {..<length cs})"
    by (simp add: lessThan_Suc_eq_insert_0)
  have "v' (journal_pos h 0) = journal_buf seq c"
    using assms(1) ne unfolding written_def e by (auto simp: image_iff)
  moreover have "v' (journal_pos h (Suc i)) = journal_buf seq (cs ! i)" if "i < length cs" for i
    using assms(1) that unfolding written_def journal_pos_next by auto
  moreover have "v' b = v b" if "b \<notin> journal_pos h ` {..<length (c # cs)}" for b
    using assms(1) that unfolding written_def e all by auto
  ultimately show ?thesis unfolding written_def by (auto simp: less_Suc_eq_0_disj)
qed

lemma prepare_loop_spec:
  assumes "cache_inv chk m" and "j_head (jrnl m) < JOURNAL_BLOCKS" and "length (chunks fs) \<le> JOURNAL_BLOCKS"
  shows "wpE (prepare_loop fs)
    (\<lambda>_ m'. jrn_step chk m m' \<and> written (j_head (jrnl m)) (j_seq (jrnl m)) (chunks fs) (view m) (view m') \<and>
       jrnl m' = (jrnl m)\<lparr>uncommitted_blocks := uncommitted_blocks (jrnl m) @ map (journal_pos (j_head (jrnl m))) [0..<length (chunks fs)],
         j_head := (j_head (jrnl m) + length (chunks fs)) mod JOURNAL_BLOCKS\<rparr>)
    (\<lambda>e m'. jrn_step chk m m') m"
  using assms
proof (induction fs arbitrary: m rule: chunks.induct)
  case (1 fs)
  show ?case
  proof (cases "fs = []")
    case True
    then show ?thesis using 1(2,3)
      by (simp add: prepare_loop.simps [of "[]"] chunks.simps [of "[]"] wp written_def jrn_step_refl)
  next
    case False
    let ?h = "j_head (jrnl m)" and ?seq = "j_seq (jrnl m)" and ?c = "take MAX_JOURNAL_ENTRIES fs" and ?r = "drop MAX_JOURNAL_ENTRIES fs"
    have ch: "chunks fs = ?c # chunks ?r" using False by (subst chunks.simps) simp
    have pl: "prepare_loop fs = bindE (push_journal ?c) (\<lambda>_. prepare_loop ?r)"
    proof -
      have "take (min (length fs) k) fs = take k fs" "drop (min (length fs) k) fs = drop k fs" for k
        by (simp_all add: min_def)
      then show ?thesis using False by (subst prepare_loop.simps) (simp add: Let_def)
    qed
    have step: "wpE (push_journal ?c)
      (\<lambda>_ m1. jrn_step chk m m1 \<and> view m1 = (view m)(journal_pos ?h 0 := journal_buf ?seq ?c) \<and>
         jrnl m1 = (jrnl m)\<lparr>uncommitted_blocks := uncommitted_blocks (jrnl m) @ [journal_pos ?h 0], j_head := (?h + 1) mod JOURNAL_BLOCKS\<rparr>)
      (\<lambda>e m'. jrn_step chk m m') m"
      using journal_write [OF 1(2) journal_pos_area [of ?h 0] length_journal_buf [of ?c ?seq]]
      unfolding push_journal_def Let_def journal_pos_head [OF 1(3)] wpE_def bindE_def
      by (auto split: sum.splits prod.splits)
    have len: "length (chunks ?r) \<le> JOURNAL_BLOCKS" using 1(4) ch by simp
    show ?thesis
      unfolding pl wpE_bind
    proof (rule wpE_mono [OF step])
      fix u m1 assume m1: "jrn_step chk m m1 \<and> view m1 = (view m)(journal_pos ?h 0 := journal_buf ?seq ?c) \<and>
         jrnl m1 = (jrnl m)\<lparr>uncommitted_blocks := uncommitted_blocks (jrnl m) @ [journal_pos ?h 0], j_head := (?h + 1) mod JOURNAL_BLOCKS\<rparr>"
      then have h1: "j_head (jrnl m1) = (?h + 1) mod JOURNAL_BLOCKS" "j_seq (jrnl m1) = ?seq" "cache_inv chk m1"
        by (simp_all add: jrn_step_def)
      have "j_head (jrnl m1) < JOURNAL_BLOCKS" unfolding h1 by (simp add: JOURNAL_BLOCKS_def)
      from 1(1) [OF False h1(3) this len]
      show "wpE (prepare_loop ?r)
         (\<lambda>_ m'. jrn_step chk m m' \<and> written ?h ?seq (chunks fs) (view m) (view m') \<and>
           jrnl m' = (jrnl m)\<lparr>uncommitted_blocks := uncommitted_blocks (jrnl m) @ map (journal_pos ?h) [0..<length (chunks fs)],
             j_head := (?h + length (chunks fs)) mod JOURNAL_BLOCKS\<rparr>)
         (\<lambda>e m'. jrn_step chk m m') m1"
      proof (rule wpE_mono)
        fix u m2
        assume m2: "jrn_step chk m1 m2 \<and> written (j_head (jrnl m1)) (j_seq (jrnl m1)) (chunks ?r) (view m1) (view m2) \<and>
           jrnl m2 = (jrnl m1)\<lparr>uncommitted_blocks := uncommitted_blocks (jrnl m1) @ map (journal_pos (j_head (jrnl m1))) [0..<length (chunks ?r)],
             j_head := (j_head (jrnl m1) + length (chunks ?r)) mod JOURNAL_BLOCKS\<rparr>"
        have "written ?h ?seq (chunks fs) (view m) (view m2)"
          unfolding ch by (rule written_Cons) (use m1 m2 h1 1(4) ch in auto)
        moreover have "map (journal_pos ((?h + 1) mod JOURNAL_BLOCKS)) [0..<n] = map (journal_pos ?h) [Suc 0..<Suc n]" for n
          unfolding journal_pos_next map_Suc_upt [symmetric] by simp
        moreover have "((?h + 1) mod JOURNAL_BLOCKS + n) mod JOURNAL_BLOCKS = (?h + Suc n) mod JOURNAL_BLOCKS" for n
          by (metis Suc_eq_plus1 add.assoc add.commute mod_add_left_eq)
        ultimately show "jrn_step chk m m2 \<and> written ?h ?seq (chunks fs) (view m) (view m2) \<and>
           jrnl m2 = (jrnl m)\<lparr>uncommitted_blocks := uncommitted_blocks (jrnl m) @ map (journal_pos ?h) [0..<length (chunks fs)],
             j_head := (?h + length (chunks fs)) mod JOURNAL_BLOCKS\<rparr>"
          using m1 m2 h1 jrn_step_trans [of chk m m1 m2] ch by (simp add: upt_conv_Cons del: upt_Suc)
      qed (use m1 jrn_step_trans in blast)
    qed simp
  qed
qed


lemma prepare_spec:
  assumes inv: "cache_inv chk m" and h: "j_head (jrnl m) < JOURNAL_BLOCKS" and ne: "pending_frees (jrnl m) \<noteq> []"
    and fs: "fs = take journal_room (merge_frees (pending_frees (jrnl m)))"
  shows "wpE prepare
    (\<lambda>_ m'. jrn_step chk m m' \<and> written (j_head (jrnl m)) (wrap64 (j_seq (jrnl m) + 1)) (chunks fs) (view m) (view m') \<and>
       jrnl m' = \<lparr>j_head = (j_head (jrnl m) + length (chunks fs)) mod JOURNAL_BLOCKS, j_seq = wrap64 (j_seq (jrnl m) + 1),
         pending_frees = [], uncommitted_blocks = map (journal_pos (j_head (jrnl m))) [0..<length (chunks fs)]\<rparr>)
    (\<lambda>e m'. jrn_step chk m m') m"
proof -
  let ?j = "(jrnl m)\<lparr>j_seq := wrap64 (j_seq (jrnl m) + 1), uncommitted_blocks := [], pending_frees := fs\<rparr>"
  let ?m = "m\<lparr>jrnl := ?j\<rparr>"
  have len: "length (chunks fs) \<le> JOURNAL_BLOCKS" by (rule chunks_room) (simp add: fs)
  have eq: "prepare m = bindE (prepare_loop fs) (\<lambda>_ m. (Inr (), m\<lparr>jrnl := (jrnl m)\<lparr>pending_frees := []\<rparr>\<rparr>)) ?m"
    using ne by (simp add: prepare_def Let_def fs)
  have "wpE (prepare_loop fs)
    (\<lambda>_ m'. jrn_step chk ?m m' \<and> written (j_head (jrnl ?m)) (j_seq (jrnl ?m)) (chunks fs) (view ?m) (view m') \<and>
       jrnl m' = (jrnl ?m)\<lparr>uncommitted_blocks := uncommitted_blocks (jrnl ?m) @ map (journal_pos (j_head (jrnl ?m))) [0..<length (chunks fs)],
         j_head := (j_head (jrnl ?m) + length (chunks fs)) mod JOURNAL_BLOCKS\<rparr>)
    (\<lambda>e m'. jrn_step chk ?m m') ?m"
    by (rule prepare_loop_spec) (use inv h len in auto)
  then show ?thesis
    unfolding wpE_def eq bindE_def
    by (cases "jrnl m") (auto split: sum.splits prod.splits)
qed

lemma prepare_idle: "pending_frees (jrnl m) = [] \<Longrightarrow> prepare m = (Inr (), m)"
  by (simp add: prepare_def)

definition committed_view :: "nat list \<Rightarrow> (nat \<Rightarrow> bytes) \<Rightarrow> nat \<Rightarrow> bytes" where
  "committed_view bs v b = (if b \<in> set bs then splice 20 (to_le 4 1) (v b) else v b)"

lemma finalize_spec:
  assumes inv: "cache_inv chk m" and area: "set (uncommitted_blocks (jrnl m)) \<subseteq> journal_area" and dist: "distinct (uncommitted_blocks (jrnl m))"
  shows "wpE finalize
    (\<lambda>_ m'. jrn_step chk m m' \<and> jrnl m' = (jrnl m)\<lparr>uncommitted_blocks := []\<rparr> \<and>
       view m' = committed_view (uncommitted_blocks (jrnl m)) (view m))
    (\<lambda>e m'. jrn_step chk m m' \<and> jrnl m' = jrnl m) m"
proof -
  let ?bs = "uncommitted_blocks (jrnl m)"
  have "wpE (forE mark_committed ?bs)
    (\<lambda>_ m'. jrn_step chk m m' \<and> jrnl m' = jrnl m \<and> view m' = committed_view ?bs (view m)) (\<lambda>e m'. jrn_step chk m m' \<and> jrnl m' = jrnl m) m"
  proof (rule wpE_forE [where I = "\<lambda>ys m'. jrn_step chk m m' \<and> jrnl m' = jrnl m \<and> view m' = committed_view ys (view m)"])
    show "jrn_step chk m m \<and> jrnl m = jrnl m \<and> view m = committed_view [] (view m)"
      using inv by (simp add: jrn_step_refl committed_view_def fun_eq_iff)
    fix ys b zs m1
    assume sp: "?bs = ys @ b # zs" and i: "jrn_step chk m m1 \<and> jrnl m1 = jrnl m \<and> view m1 = committed_view ys (view m)"
    have c1: "cache_inv chk m1" using i by (simp add: jrn_step_def)
    have b: "b \<in> journal_area" "b \<notin> set ys" using area dist sp by auto
    have b64: "b < 2 ^ 64" using b(1) by (simp add: journal_area_def format_consts)
    have old: "view m1 b = view m b" using i b(2) by (simp add: committed_view_def)
    have len: "length (splice 20 (to_le 4 1) (view m b)) = BLOCK_SIZE"
      using length_view [OF inv, of b] by (subst length_splice) (simp_all add: BLOCK_SIZE_def del: to_le_numeral)
    show "wpE (mark_committed b)
        (\<lambda>_ m'. jrn_step chk m m' \<and> jrnl m' = jrnl m \<and> view m' = committed_view (ys @ [b]) (view m)) (\<lambda>e m'. jrn_step chk m m' \<and> jrnl m' = jrnl m) m1"
      unfolding mark_committed_def wpE_bind
    proof (rule cache_store.rd_wp [OF c1 b64])
      fix m2 assume m2: "cache_inv chk m2" "view m2 = view m1" "\<And>B. quiet B m1 m2"
      have s2: "jrn_step chk m m2" "jrnl m2 = jrnl m"
        using i m2 quiet_jrnl [OF m2(3)] jrn_step_trans [of chk m m1 m2] unfolding jrn_step_def quiet_calm by auto
      show "wpE (cache_write b (splice 20 (to_le 4 1) (view m1 b)))
          (\<lambda>_ m'. jrn_step chk m m' \<and> jrnl m' = jrnl m \<and> view m' = committed_view (ys @ [b]) (view m)) (\<lambda>e m'. jrn_step chk m m' \<and> jrnl m' = jrnl m) m2"
        unfolding old
        by (rule wpE_mono [OF journal_write [OF m2(1) b(1) len]])
          (use s2 m2(2) i jrn_step_trans [of chk m m2] in \<open>auto simp: committed_view_def fun_eq_iff\<close>)
    next
      fix e m2 assume m2: "cache_inv chk m2" "view m2 = view m1" "\<And>B. quiet B m1 m2"
      show "jrn_step chk m m2 \<and> jrnl m2 = jrnl m"
        using i m2 quiet_jrnl [OF m2(3)] jrn_step_trans [of chk m m1 m2] unfolding jrn_step_def quiet_calm by auto
    qed
  qed
  then show ?thesis unfolding finalize_def wpE_def bindE_def by (auto split: sum.splits prod.splits)
qed

text \<open>A journal written by a commit and marked is what the next replay returns.\<close>

lemma journal_round_trip:
  assumes head: "head < JOURNAL_BLOCKS" and seq: "seq < 2 ^ 64"
    and w: "written head seq (chunks fs) v0 v1" and len: "length (chunks fs) \<le> JOURNAL_BLOCKS" and ok: "list_all free_ok fs"
    and old: "\<And>b. b \<in> journal_area \<Longrightarrow> stale seq (v0 b)"
  shows "replay_pure (committed_view (map (journal_pos head) [0..<length (chunks fs)]) v1)
      ((head + length (chunks fs)) mod JOURNAL_BLOCKS) seq [0..<JOURNAL_BLOCKS] = concat (rev (chunks fs))"
proof (rule replay_commit [OF head refl len seq])
  let ?bs = "map (journal_pos head) [0..<length (chunks fs)]"
  show "committed_view ?bs v1 (journal_pos head i) = committed_buf seq (chunks fs ! i)" if "i < length (chunks fs)" for i
    using that w by (auto simp: committed_view_def written_def committed_buf_def)
  show "length c \<le> MAX_JOURNAL_ENTRIES \<and> list_all free_ok c" if "c \<in> set (chunks fs)" for c
  proof -
    have "set c \<subseteq> set (concat (chunks fs))" using that by auto
    then show ?thesis using chunks_small [OF that] ok unfolding chunks_concat list_all_iff by blast
  qed
  show "stale seq (committed_view ?bs v1 (journal_pos head i))" if "length (chunks fs) \<le> i" "i < JOURNAL_BLOCKS" for i
  proof -
    have "journal_pos head i \<notin> journal_pos head ` {..<length (chunks fs)}"
    proof
      assume "journal_pos head i \<in> journal_pos head ` {..<length (chunks fs)}"
      then obtain j where "j < length (chunks fs)" "journal_pos head i = journal_pos head j" by auto
      then show False using journal_pos_inj [of i j head] that len by auto
    qed
    moreover from this have "journal_pos head i \<notin> set ?bs" by auto
    ultimately show ?thesis using w old by (simp add: committed_view_def written_def)
  qed
qed

end
