(* ===== verification/Btree_Node.thy ===== *)
theory Btree_Node
  imports Block_Bitmap Disk_Format "HOL-Library.List_Lexorder"
begin

text \<open>
  B-tree nodes as 4096-byte blocks, the first half of \<^verbatim>\<open>kernel/src/storage/npkfs/btree.rs\<close>: checksum,
  header, internal and leaf entries, the searches over a node and the shifts that insert or remove an
  entry in place. Keys are 32-byte strings compared as Rust compares slices, lexicographically. The
  lemmas relate each operation on the block to one on the list of its entries.
\<close>

section \<open>Definitions\<close>

definition MAX_TREE_DEPTH :: nat where "MAX_TREE_DEPTH = 8"
definition CHECKSUM_OFFSET :: nat where "CHECKSUM_OFFSET = BLOCK_SIZE - 32"

definition compute_node_checksum :: "(bytes \<Rightarrow> bytes) \<Rightarrow> bytes \<Rightarrow> bytes" where
  "compute_node_checksum blake3 buf = blake3 (take CHECKSUM_OFFSET buf)"

definition write_node_checksum :: "(bytes \<Rightarrow> bytes) \<Rightarrow> bytes \<Rightarrow> bytes" where
  "write_node_checksum blake3 buf = splice CHECKSUM_OFFSET (compute_node_checksum blake3 buf) buf"

definition verify_node_checksum :: "(bytes \<Rightarrow> bytes) \<Rightarrow> bytes \<Rightarrow> bool" where
  "verify_node_checksum blake3 buf = (drop CHECKSUM_OFFSET buf = compute_node_checksum blake3 buf)"

definition read_header :: "bytes \<Rightarrow> node_header" where
  "read_header buf =
     (let ty = buf ! 4;
          cap = (if ty = BTREE_LEAF then MAX_LEAF_ENTRIES else if ty = BTREE_INTERNAL then MAX_INTERNAL_KEYS else 0)
      in \<lparr>h_magic = rd_le 4 0 buf, node_type = ty, h_pad = buf ! 5, num_entries = min (rd_le 2 6 buf) cap,
          right_child = rd_le 8 8 buf\<rparr>)"

definition write_header :: "bytes \<Rightarrow> node_header \<Rightarrow> bytes" where
  "write_header buf hdr = splice 0 (to_le 4 (h_magic hdr) @ [node_type hdr, h_pad hdr] @
     to_le 2 (num_entries hdr) @ to_le 8 (right_child hdr)) buf"

text \<open>Offsets are computed in \<open>usize\<close>, which wraps.\<close>

definition internal_off :: "nat \<Rightarrow> nat" where
  "internal_off idx = wrap64 (NODE_HEADER_SIZE + idx * INTERNAL_ENTRY_SIZE)"

definition internal_key :: "bytes \<Rightarrow> nat \<Rightarrow> bytes" where
  "internal_key buf idx = slice (internal_off idx) 32 buf"

definition internal_child :: "bytes \<Rightarrow> nat \<Rightarrow> nat" where
  "internal_child buf idx = rd_le 8 (wrap64 (internal_off idx + 32)) buf"

definition set_internal_entry :: "bytes \<Rightarrow> nat \<Rightarrow> bytes \<Rightarrow> nat \<Rightarrow> bytes" where
  "set_internal_entry buf idx key child =
     (let off = internal_off idx in splice (off + 32) (to_le 8 child) (splice off key buf))"

definition leaf_off :: "nat \<Rightarrow> nat" where
  "leaf_off idx = NODE_HEADER_SIZE + idx * LEAF_ENTRY_SIZE"

definition leaf_entry :: "bytes \<Rightarrow> nat \<Rightarrow> btree_entry" where
  "leaf_entry buf idx = entry_of_bytes (slice (leaf_off idx) LEAF_ENTRY_SIZE buf)"

definition set_leaf_entry :: "bytes \<Rightarrow> nat \<Rightarrow> btree_entry \<Rightarrow> bytes" where
  "set_leaf_entry buf idx entry = splice (leaf_off idx) (entry_bytes entry) buf"

definition new_node :: "u8 \<Rightarrow> nat \<Rightarrow> nat \<Rightarrow> bytes" where
  "new_node ty n right = write_header (replicate BLOCK_SIZE 0)
     \<lparr>h_magic = BTREE_NODE_MAGIC, node_type = ty, h_pad = 0, num_entries = n, right_child = right\<rparr>"

definition make_empty_leaf :: bytes where
  "make_empty_leaf = new_node BTREE_LEAF 0 0"

definition find_child_with_idx :: "bytes \<Rightarrow> node_header \<Rightarrow> bytes \<Rightarrow> nat \<times> nat" where
  "find_child_with_idx buf hdr key =
     (case find (\<lambda>i. key < internal_key buf i) [0..<num_entries hdr] of
        Some i \<Rightarrow> (i, internal_child buf i)
      | None \<Rightarrow> (num_entries hdr, right_child hdr))"

definition find_child_block :: "bytes \<Rightarrow> node_header \<Rightarrow> bytes \<Rightarrow> nat" where
  "find_child_block buf hdr key = snd (find_child_with_idx buf hdr key)"

definition find_leaf_insert_pos :: "bytes \<Rightarrow> node_header \<Rightarrow> bytes \<Rightarrow> nat" where
  "find_leaf_insert_pos buf hdr key =
     (case find (\<lambda>i. key < e_hash (leaf_entry buf i)) [0..<num_entries hdr] of
        Some i \<Rightarrow> i
      | None \<Rightarrow> num_entries hdr)"

definition leaf_position :: "bytes \<Rightarrow> node_header \<Rightarrow> bytes \<Rightarrow> nat option" where
  "leaf_position buf hdr key = find (\<lambda>i. e_hash (leaf_entry buf i) = key) [0..<num_entries hdr]"

definition insert_leaf_entry :: "bytes \<Rightarrow> node_header \<Rightarrow> nat \<Rightarrow> btree_entry \<Rightarrow> bytes" where
  "insert_leaf_entry buf hdr pos entry =
     (let n = num_entries hdr;
          buf = fold (\<lambda>i buf. set_leaf_entry buf (i + 1) (leaf_entry buf i)) (rev [pos..<n]) buf;
          buf = set_leaf_entry buf pos entry
      in write_header buf (hdr\<lparr>num_entries := n + 1\<rparr>))"

definition remove_leaf_entry :: "bytes \<Rightarrow> node_header \<Rightarrow> nat \<Rightarrow> bytes" where
  "remove_leaf_entry buf hdr pos =
     (let n = num_entries hdr;
          buf = fold (\<lambda>i buf. set_leaf_entry buf i (leaf_entry buf (i + 1))) [pos..<n - 1] buf
      in write_header buf (hdr\<lparr>num_entries := (n + 65535) mod 65536\<rparr>))"

text \<open>The entries of a full leaf with the new one in place, and a leaf holding some entries.\<close>

fun with_entry :: "btree_entry \<Rightarrow> bool \<Rightarrow> btree_entry list \<Rightarrow> btree_entry list" where
  "with_entry new_entry inserted [] = (if inserted then [] else [new_entry])"
| "with_entry new_entry inserted (e # es) =
     (if \<not> inserted \<and> e_hash new_entry < e_hash e then new_entry # e # with_entry new_entry True es
      else e # with_entry new_entry inserted es)"

definition leaf_of :: "btree_entry list \<Rightarrow> bytes" where
  "leaf_of es = fold (\<lambda>i buf. set_leaf_entry buf i (es ! i)) [0..<length es] (new_node BTREE_LEAF (length es) 0)"

text \<open>The same for an internal node: the keys with their left children, and the rightmost child. When
  the split child was not the last one, the entry after the new key takes the right half.\<close>

fun with_key :: "bytes \<Rightarrow> nat \<Rightarrow> bool \<Rightarrow> (bytes \<times> nat) list \<Rightarrow> (bytes \<times> nat) list" where
  "with_key new_key left inserted [] = (if inserted then [] else [(new_key, left)])"
| "with_key new_key left inserted ((key, child) # es) =
     (if \<not> inserted \<and> new_key < key then (new_key, left) # (key, child) # with_key new_key left True es
      else (key, child) # with_key new_key left inserted es)"

definition split_entries :: "bytes \<Rightarrow> nat \<Rightarrow> nat \<Rightarrow> (bytes \<times> nat) list \<Rightarrow> nat \<Rightarrow> (bytes \<times> nat) list \<times> nat" where
  "split_entries new_key left right es rightmost =
     (let entries = with_key new_key left False es;
          insert_pos = the (position (\<lambda>e. fst e = new_key) entries)
      in if insert_pos = length entries - 1 then (entries, right)
         else (entries[insert_pos + 1 := (fst (entries ! (insert_pos + 1)), right)], rightmost))"

definition internal_of :: "(bytes \<times> nat) list \<Rightarrow> nat \<Rightarrow> bytes" where
  "internal_of es right = fold (\<lambda>i buf. set_internal_entry buf i (fst (es ! i)) (snd (es ! i))) [0..<length es]
     (new_node BTREE_INTERNAL (length es) right)"

definition set_child :: "bytes \<Rightarrow> node_header \<Rightarrow> nat \<Rightarrow> nat \<Rightarrow> bytes" where
  "set_child buf hdr child_idx child =
     (if child_idx < num_entries hdr
      then splice (NODE_HEADER_SIZE + child_idx * INTERNAL_ENTRY_SIZE + 32) (to_le 8 child) buf
      else splice 8 (to_le 8 child) buf)"

definition add_split :: "bytes \<Rightarrow> node_header \<Rightarrow> bytes \<Rightarrow> nat \<Rightarrow> nat \<Rightarrow> bytes" where
  "add_split buf hdr split_key left right =
     (let n = num_entries hdr
      in case find (\<lambda>i. split_key < internal_key buf i) [0..<n] of
           None \<Rightarrow>
             set_internal_entry (write_header buf (hdr\<lparr>num_entries := n + 1, right_child := right\<rparr>)) n split_key left
         | Some pos \<Rightarrow>
             let b1 = fold (\<lambda>i b. set_internal_entry b (i + 1) (internal_key buf i) (internal_child buf i)) (rev [pos..<n]) buf;
                 b2 = set_internal_entry b1 pos split_key left;
                 b3 = splice (NODE_HEADER_SIZE + (pos + 1) * INTERNAL_ENTRY_SIZE + 32) (to_le 8 right) b2
             in write_header b3 (hdr\<lparr>num_entries := n + 1\<rparr>))"

definition drop_child :: "bytes \<Rightarrow> node_header \<Rightarrow> nat \<Rightarrow> bytes" where
  "drop_child buf hdr child_idx =
     (let n = num_entries hdr;
          b1 = (if child_idx < n
                then fold (\<lambda>i b. set_internal_entry b i (internal_key buf (i + 1)) (internal_child buf (i + 1))) [child_idx..<n - 1] buf
                else buf);
          hdr1 = (if child_idx < n then hdr else hdr\<lparr>right_child := internal_child buf (wrap64 (n + U64_MAX))\<rparr>)
      in write_header b1 (hdr1\<lparr>num_entries := (n + 65535) mod 65536\<rparr>))"

section \<open>Shifting a vector\<close>

lemma shift_right:
  assumes "pos \<le> n" and "n < length xs"
  shows "fold (\<lambda>i ys. ys[i + 1 := ys ! i]) (rev [pos..<n]) xs =
    take pos xs @ [xs ! pos] @ take (n - pos) (drop pos xs) @ drop (n + 1) xs"
  using assms
proof (induction "n - pos" arbitrary: pos)
  case 0
  then show ?case using id_take_nth_drop [of n xs] by simp
next
  case (Suc k)
  then have p: "pos < n" by simp
  have "fold (\<lambda>i ys. ys[i + 1 := ys ! i]) (rev [pos..<n]) xs =
      (let ys = fold (\<lambda>i ys. ys[i + 1 := ys ! i]) (rev [Suc pos..<n]) xs in ys[pos + 1 := ys ! pos])"
    using p by (simp add: upt_conv_Cons Let_def)
  also have "fold (\<lambda>i ys. ys[i + 1 := ys ! i]) (rev [Suc pos..<n]) xs =
      take (Suc pos) xs @ [xs ! Suc pos] @ take (n - Suc pos) (drop (Suc pos) xs) @ drop (n + 1) xs"
    by (rule Suc.hyps(1)) (use Suc p in auto)
  also have "take (Suc pos) xs = take pos xs @ [xs ! pos]" using p Suc.prems by (simp add: take_Suc_conv_app_nth)
  finally have "fold (\<lambda>i ys. ys[i + 1 := ys ! i]) (rev [pos..<n]) xs =
      take pos xs @ [xs ! pos] @ [xs ! pos] @ take (n - Suc pos) (drop (Suc pos) xs) @ drop (n + 1) xs"
    using p Suc.prems by (simp add: Let_def nth_append list_update_append min_def)
  moreover have "take (n - pos) (drop pos xs) = xs ! pos # take (n - Suc pos) (drop (Suc pos) xs)"
    using p Suc.prems Cons_nth_drop_Suc [of pos xs] by (metis Suc_diff_Suc less_trans take_Suc_Cons)
  ultimately show ?case by simp
qed

lemma shift_left:
  assumes "pos < n" and "n \<le> length xs"
  shows "fold (\<lambda>i ys. ys[i := ys ! (i + 1)]) [pos..<n - 1] xs = take pos xs @ take (n - 1 - pos) (drop (pos + 1) xs) @ drop (n - 1) xs"
  using assms
proof (induction "n - 1 - pos" arbitrary: pos xs)
  case 0
  then have "pos = n - 1" by simp
  then show ?case by simp
next
  case (Suc k)
  then have p: "pos < n - 1" by simp
  let ?ys = "xs[pos := xs ! (pos + 1)]"
  have "fold (\<lambda>i ys. ys[i := ys ! (i + 1)]) [pos..<n - 1] xs = fold (\<lambda>i ys. ys[i := ys ! (i + 1)]) [Suc pos..<n - 1] ?ys"
    using p by (simp add: upt_conv_Cons)
  also have "\<dots> = take (Suc pos) ?ys @ take (n - 1 - Suc pos) (drop (Suc pos + 1) ?ys) @ drop (n - 1) ?ys"
    by (rule Suc.hyps(1)) (use Suc p in auto)
  also have "\<dots> = take pos xs @ [xs ! (pos + 1)] @ take (n - 1 - Suc pos) (drop (Suc pos + 1) xs) @ drop (n - 1) xs"
    using p Suc.prems by (simp add: take_Suc_conv_app_nth drop_update_swap)
  finally have f: "fold (\<lambda>i ys. ys[i := ys ! (i + 1)]) [pos..<n - 1] xs =
      take pos xs @ [xs ! (pos + 1)] @ take (n - 1 - Suc pos) (drop (Suc pos + 1) xs) @ drop (n - 1) xs" .
  have "[xs ! (pos + 1)] @ take (n - 1 - Suc pos) (drop (Suc pos + 1) xs) = take (n - 1 - pos) (drop (pos + 1) xs)"
    using p Suc.prems Cons_nth_drop_Suc [of "pos + 1" xs]
    by (metis (no_types, lifting) Suc_diff_Suc Suc_eq_plus1 append_Cons append_Nil less_diff_conv less_le_trans take_Suc_Cons)
  then show ?case unfolding f by (metis append.assoc)
qed

text \<open>The same loops over entries of a block, where reads and writes behave as on a list.\<close>

lemma fold_list_view:
  assumes "P b" and "\<And>b x. P b \<Longrightarrow> x \<in> set xs \<Longrightarrow> P (f x b) \<and> g (f x b) = h x (g b)"
  shows "P (fold f xs b) \<and> g (fold f xs b) = fold h xs (g b)"
  using assms
proof (induction xs arbitrary: b)
  case Nil
  then show ?case by simp
next
  case (Cons x xs)
  have "P (fold f xs (f x b)) \<and> g (fold f xs (f x b)) = fold h xs (g (f x b))"
    by (rule Cons.IH) (use Cons.prems in auto)
  then show ?case using Cons.prems by auto
qed

section \<open>Leaves\<close>

lemma node_sizes [simp]:
  "MAX_LEAF_ENTRIES = 36" "MAX_INTERNAL_KEYS = 101" "CHECKSUM_OFFSET = 4064" "NODE_HEADER_SIZE = 16"
  "LEAF_ENTRY_SIZE = 112" "INTERNAL_ENTRY_SIZE = 40"
  by (simp_all add: format_consts CHECKSUM_OFFSET_def)

definition leaf_list :: "bytes \<Rightarrow> nat \<Rightarrow> btree_entry list" where
  "leaf_list buf n = map (leaf_entry buf) [0..<n]"

lemma leaf_entry_set:
  assumes "length buf = BLOCK_SIZE" and "i < MAX_LEAF_ENTRIES" and "j < MAX_LEAF_ENTRIES" and "entry_ok e"
  shows "leaf_entry (set_leaf_entry buf i e) j = (if i = j then e else leaf_entry buf j)"
proof -
  have len: "length (entry_bytes e) = 112" using length_entry_bytes [OF assms(4)] by simp
  have fit: "leaf_off i + length (entry_bytes e) \<le> length buf" "leaf_off j + 112 \<le> length buf"
    using assms(1-3) len by (simp_all add: leaf_off_def BLOCK_SIZE_def)
  show ?thesis
  proof (cases "i = j")
    case True
    then show ?thesis using slice_splice_same [OF fit(1)] entry_round_trip [OF assms(4)] len
      by (simp add: leaf_entry_def set_leaf_entry_def)
  next
    case False
    then have "leaf_off j + 112 \<le> leaf_off i \<or> leaf_off i + length (entry_bytes e) \<le> leaf_off j"
      using len by (auto simp: leaf_off_def)
    then show ?thesis using False slice_splice_disjoint [OF fit] by (simp add: leaf_entry_def set_leaf_entry_def)
  qed
qed

lemma length_set_leaf_entry:
  "length buf = BLOCK_SIZE \<Longrightarrow> i < MAX_LEAF_ENTRIES \<Longrightarrow> entry_ok e \<Longrightarrow> length (set_leaf_entry buf i e) = BLOCK_SIZE"
  using length_entry_bytes [of e] by (simp add: set_leaf_entry_def leaf_off_def BLOCK_SIZE_def)

lemma leaf_entry_ok: "length buf = BLOCK_SIZE \<Longrightarrow> i < MAX_LEAF_ENTRIES \<Longrightarrow> entry_ok (leaf_entry buf i)"
  unfolding leaf_entry_def by (rule entry_of_bytes_ok) (simp add: leaf_off_def BLOCK_SIZE_def)

lemma leaf_list_set:
  assumes "length buf = BLOCK_SIZE" and "i < MAX_LEAF_ENTRIES" and "n \<le> MAX_LEAF_ENTRIES" and "entry_ok e"
  shows "leaf_list (set_leaf_entry buf i e) n = (leaf_list buf n)[i := e]"
  using assms leaf_entry_set [OF assms(1,2) _ assms(4)]
  by (intro nth_equalityI) (auto simp: leaf_list_def nth_list_update)

text \<open>The header, which no entry overlaps.\<close>

lemma rd_le_splice_other:
  "off + length ys \<le> length buf \<Longrightarrow> o2 + k \<le> off \<Longrightarrow> rd_le k o2 (splice off ys buf) = rd_le k o2 buf"
  by (simp add: rd_le_def slice_splice_disjoint)

lemma read_header_splice:
  assumes "16 \<le> off" and "off + length ys \<le> length buf"
  shows "read_header (splice off ys buf) = read_header buf"
  using assms nth_splice [OF assms(2), of 4] nth_splice [OF assms(2), of 5]
  by (simp add: read_header_def Let_def rd_le_splice_other)

lemma read_header_set_leaf:
  "length buf = BLOCK_SIZE \<Longrightarrow> i < MAX_LEAF_ENTRIES \<Longrightarrow> entry_ok e \<Longrightarrow> read_header (set_leaf_entry buf i e) = read_header buf"
  unfolding set_leaf_entry_def using length_entry_bytes [of e] by (intro read_header_splice) (auto simp: leaf_off_def BLOCK_SIZE_def)

definition header_ok :: "node_header \<Rightarrow> bool" where
  "header_ok h \<longleftrightarrow> h_magic h < 2 ^ 32 \<and> num_entries h < 2 ^ 16 \<and> right_child h < 2 ^ 64"

definition clamp :: "node_header \<Rightarrow> node_header" where
  "clamp h = h\<lparr>num_entries := min (num_entries h)
     (if node_type h = BTREE_LEAF then MAX_LEAF_ENTRIES else if node_type h = BTREE_INTERNAL then MAX_INTERNAL_KEYS else 0)\<rparr>"

lemma length_write_header: "length buf = BLOCK_SIZE \<Longrightarrow> length (write_header buf h) = BLOCK_SIZE"
  by (simp add: write_header_def BLOCK_SIZE_def del: to_le_numeral)

lemma slice_Cons [slices]: "0 < off \<Longrightarrow> slice off n (x # xs) = slice (off - 1) n xs"
  by (simp add: slice_def drop_Cons')

lemma read_write_header:
  assumes "length buf = BLOCK_SIZE" and "header_ok h"
  shows "read_header (write_header buf h) = clamp h"
proof -
  let ?b = "to_le 4 (h_magic h) @ [node_type h, h_pad h] @ to_le 2 (num_entries h) @ to_le 8 (right_child h)"
  have e: "write_header buf h = ?b @ drop 16 buf" by (simp add: write_header_def splice_def del: to_le_numeral)
  have n: "from_le (to_le 2 (num_entries h)) = num_entries h" using assms(2) by (simp only: from_to_le) (simp add: header_ok_def)
  have "(?b @ drop 16 buf) ! 4 = node_type h" "(?b @ drop 16 buf) ! 5 = h_pad h"
    by (simp_all add: nth_append del: to_le_numeral)
  moreover have "rd_le 4 0 (?b @ drop 16 buf) = h_magic h" "rd_le 2 6 (?b @ drop 16 buf) = num_entries h"
      "rd_le 8 8 (?b @ drop 16 buf) = right_child h"
    using assms(2) n by (simp_all add: rd_le_def slices codec header_ok_def del: to_le_numeral)
  ultimately show ?thesis unfolding e by (simp add: read_header_def Let_def clamp_def del: to_le_numeral)
qed

lemma leaf_entry_write_header:
  "length buf = BLOCK_SIZE \<Longrightarrow> i < MAX_LEAF_ENTRIES \<Longrightarrow> leaf_entry (write_header buf h) i = leaf_entry buf i"
  unfolding leaf_entry_def write_header_def
  by (subst slice_splice_disjoint) (auto simp: leaf_off_def BLOCK_SIZE_def simp del: to_le_numeral)

lemma leaf_list_write_header:
  "length buf = BLOCK_SIZE \<Longrightarrow> n \<le> MAX_LEAF_ENTRIES \<Longrightarrow> leaf_list (write_header buf h) n = leaf_list buf n"
  by (simp add: leaf_list_def leaf_entry_write_header)

text \<open>\<open>is_leaf buf es\<close>: the block is a leaf with the entries \<open>es\<close>.\<close>

definition is_leaf :: "bytes \<Rightarrow> btree_entry list \<Rightarrow> bool" where
  "is_leaf buf es \<longleftrightarrow> length buf = BLOCK_SIZE \<and> h_magic (read_header buf) = BTREE_NODE_MAGIC \<and>
     node_type (read_header buf) = BTREE_LEAF \<and> num_entries (read_header buf) = length es \<and>
     length es \<le> MAX_LEAF_ENTRIES \<and> leaf_list buf (length es) = es"

lemma is_leafD:
  assumes "is_leaf buf es"
  shows "length buf = BLOCK_SIZE" "h_magic (read_header buf) = BTREE_NODE_MAGIC" "node_type (read_header buf) = BTREE_LEAF"
    "num_entries (read_header buf) = length es" "length es \<le> 36" "map (leaf_entry buf) [0..<length es] = es"
    "i < length es \<Longrightarrow> leaf_entry buf i = es ! i" "e \<in> set es \<Longrightarrow> entry_ok e"
proof -
  show l: "length buf = BLOCK_SIZE" "h_magic (read_header buf) = BTREE_NODE_MAGIC" "node_type (read_header buf) = BTREE_LEAF"
    "num_entries (read_header buf) = length es" "length es \<le> 36" "map (leaf_entry buf) [0..<length es] = es"
    using assms by (simp_all add: is_leaf_def leaf_list_def)
  show nth: "leaf_entry buf i = es ! i" if "i < length es" for i
    using l(6) that by (metis add_0 length_upt minus_nat.diff_0 nth_map nth_upt)
  show "entry_ok e" if "e \<in> set es"
    using that l(5) nth leaf_entry_ok [OF l(1)] by (auto simp: in_set_conv_nth) (metis less_le_trans node_sizes(1))
qed

lemma read_header_ok: "length buf = BLOCK_SIZE \<Longrightarrow> header_ok (read_header buf)"
  using rd_le_less [of 4 0 buf] rd_le_less [of 2 6 buf] rd_le_less [of 8 8 buf]
  by (auto simp: header_ok_def read_header_def Let_def min_def)

lemma find_cong_upt:
  "(\<And>i. i < n \<Longrightarrow> P i = Q i) \<Longrightarrow> find P [0..<n] = find Q [0..<n]"
  by (rule find_cong) auto

lemma leaf_find: "is_leaf buf es \<Longrightarrow> find (\<lambda>e. e_hash e = key) (map (leaf_entry buf) [0..<num_entries (read_header buf)]) = find (\<lambda>e. e_hash e = key) es"
  by (simp add: is_leafD)

lemma is_leaf_insert:
  assumes leaf: "is_leaf buf es" and room: "length es < MAX_LEAF_ENTRIES" and pos: "pos \<le> length es" and e: "entry_ok e"
  shows "is_leaf (insert_leaf_entry buf (read_header buf) pos e) (take pos es @ e # drop pos es)"
proof -
  note l = is_leafD [OF leaf]
  let ?n = "length es" and ?h = "read_header buf"
  let ?f = "\<lambda>i b. set_leaf_entry b (i + 1) (leaf_entry b i)"
  define b1 where "b1 = fold ?f (rev [pos..<?n]) buf"
  let ?P = "\<lambda>b. length b = BLOCK_SIZE \<and> read_header b = ?h"
  let ?xs = "leaf_list buf (Suc ?n)"
  have len: "length ?xs = Suc ?n" "take ?n ?xs = es" using l(6) by (simp_all add: leaf_list_def)
  have fold1: "?P b1 \<and> leaf_list b1 (Suc ?n) = fold (\<lambda>i ys. ys[i + 1 := ys ! i]) (rev [pos..<?n]) ?xs"
    unfolding b1_def
  proof (rule fold_list_view)
    fix b i assume b: "?P b" and i: "i \<in> set (rev [pos..<?n])"
    then have lt: "i < 36" "i + 1 < 36" "i < Suc ?n" using room by auto
    have ok: "entry_ok (leaf_entry b i)" using leaf_entry_ok b lt by simp
    have "leaf_entry b i = leaf_list b (Suc ?n) ! i" using lt(3) by (simp add: leaf_list_def del: upt_Suc)
    then show "?P (?f i b) \<and> leaf_list (?f i b) (Suc ?n) = (leaf_list b (Suc ?n))[i + 1 := leaf_list b (Suc ?n) ! i]"
      using b ok lt leaf_list_set [of b "i + 1" "Suc ?n"] room by (simp add: length_set_leaf_entry read_header_set_leaf)
  qed (use l in simp)
  define b2 where "b2 = set_leaf_entry b1 pos e"
  have pl: "pos < 36" using pos room by simp
  have b2: "length b2 = BLOCK_SIZE" "leaf_list b2 (Suc ?n) = take pos es @ e # drop pos es"
  proof -
    show "length b2 = BLOCK_SIZE" using fold1 pl e by (simp add: b2_def length_set_leaf_entry)
    have "leaf_list b2 (Suc ?n) = (take pos ?xs @ [?xs ! pos] @ take (?n - pos) (drop pos ?xs) @ drop (?n + 1) ?xs)[pos := e]"
      using fold1 shift_right [of pos ?n ?xs] pos len pl room e leaf_list_set [of b1 pos "Suc ?n" e] by (simp add: b2_def)
    also have "\<dots> = take pos ?xs @ e # take (?n - pos) (drop pos ?xs)" using pos len by (simp add: list_update_append min_def)
    also have "take pos ?xs = take pos es" using len(2) pos by (metis min.absorb1 take_take)
    also have "take (?n - pos) (drop pos ?xs) = drop pos es" using len(2) pos by (metis drop_take)
    finally show "leaf_list b2 (Suc ?n) = take pos es @ e # drop pos es" .
  qed
  have eq: "insert_leaf_entry buf ?h pos e = write_header b2 (?h\<lparr>num_entries := ?n + 1\<rparr>)"
    by (simp add: insert_leaf_entry_def l(4) b1_def b2_def Let_def)
  have hok: "header_ok (?h\<lparr>num_entries := ?n + 1\<rparr>)" using read_header_ok [OF l(1)] room by (simp add: header_ok_def)
  have n1: "length (take pos es @ e # drop pos es) = Suc ?n" using pos by simp
  show ?thesis
    unfolding is_leaf_def eq read_write_header [OF b2(1) hok] n1
    using b2 l room by (simp add: length_write_header leaf_list_write_header clamp_def min_def)
qed

lemma wrap16_pred: "0 < (n :: nat) \<Longrightarrow> n \<le> 65536 \<Longrightarrow> (n + 65535) mod 65536 = n - 1"
  by (cases n) simp_all

lemma is_leaf_remove:
  assumes leaf: "is_leaf buf es" and pos: "pos < length es"
  shows "is_leaf (remove_leaf_entry buf (read_header buf) pos) (take pos es @ drop (pos + 1) es)"
proof -
  note l = is_leafD [OF leaf]
  let ?n = "length es" and ?h = "read_header buf"
  let ?f = "\<lambda>i b. set_leaf_entry b i (leaf_entry b (i + 1))"
  define b1 where "b1 = fold ?f [pos..<?n - 1] buf"
  let ?P = "\<lambda>b. length b = BLOCK_SIZE \<and> read_header b = ?h"
  have fold1: "?P b1 \<and> leaf_list b1 ?n = fold (\<lambda>i ys. ys[i := ys ! (i + 1)]) [pos..<?n - 1] (leaf_list buf ?n)"
    unfolding b1_def
  proof (rule fold_list_view)
    fix b i assume b: "?P b" and i: "i \<in> set [pos..<?n - 1]"
    then have lt: "i < 36" "i + 1 < 36" "i + 1 < ?n" using l(5) by auto
    have ok: "entry_ok (leaf_entry b (i + 1))" using leaf_entry_ok b lt by simp
    have "leaf_entry b (i + 1) = leaf_list b ?n ! (i + 1)" using lt(3) by (simp add: leaf_list_def)
    then show "?P (?f i b) \<and> leaf_list (?f i b) ?n = (leaf_list b ?n)[i := leaf_list b ?n ! (i + 1)]"
      using b ok lt leaf_list_set [of b i ?n] l(5) by (simp add: length_set_leaf_entry read_header_set_leaf)
  qed (use l in simp)
  have xs: "leaf_list buf ?n = es" using l(6) by (simp add: leaf_list_def)
  have "leaf_list b1 ?n = take pos es @ take (?n - 1 - pos) (drop (pos + 1) es) @ drop (?n - 1) es"
    using fold1 shift_left [OF pos order_refl] by (simp add: xs)
  moreover have "leaf_list b1 (?n - 1) = take (?n - 1) (leaf_list b1 ?n)" by (simp add: leaf_list_def take_map)
  ultimately have l1: "leaf_list b1 (?n - 1) = take pos es @ drop (pos + 1) es" using pos by (simp add: min_absorb2)
  have eq: "remove_leaf_entry buf ?h pos = write_header b1 (?h\<lparr>num_entries := ?n - 1\<rparr>)"
  proof -
    have "(?n + 65535) mod 65536 = ?n - 1" by (rule wrap16_pred) (use pos l(5) in auto)
    then show ?thesis by (simp add: remove_leaf_entry_def l(4) b1_def Let_def)
  qed
  have hok: "header_ok (?h\<lparr>num_entries := ?n - 1\<rparr>)" using read_header_ok [OF l(1)] l(5) by (simp add: header_ok_def)
  have b1: "length b1 = BLOCK_SIZE" using fold1 by simp
  have n1: "length (take pos es @ drop (pos + 1) es) = ?n - 1" using pos by simp
  show ?thesis
    unfolding is_leaf_def eq read_write_header [OF b1 hok] n1
    using b1 l1 l by (simp add: length_write_header leaf_list_write_header clamp_def min_def)
qed


section \<open>Internal nodes\<close>

lemma internal_off_small [simp]: "i \<le> MAX_INTERNAL_KEYS \<Longrightarrow> internal_off i = 16 + i * 40"
  by (simp add: internal_off_def)

lemma internal_child_small: "i \<le> MAX_INTERNAL_KEYS \<Longrightarrow> internal_child buf i = rd_le 8 (48 + i * 40) buf"
  by (simp add: internal_child_def)

definition internal_list :: "bytes \<Rightarrow> nat \<Rightarrow> (bytes \<times> nat) list" where
  "internal_list buf n = map (\<lambda>i. (internal_key buf i, internal_child buf i)) [0..<n]"

lemma splice_splice_adjacent:
  assumes "off + length xs + length ys \<le> length buf"
  shows "splice (off + length xs) ys (splice off xs buf) = splice off (xs @ ys) buf"
  using assms by (simp add: splice_def min_absorb2 add.commute add.left_commute)

lemma set_internal_splice:
  assumes "length buf = BLOCK_SIZE" and "i < MAX_INTERNAL_KEYS" and "length key = 32"
  shows "set_internal_entry buf i key child = splice (16 + i * 40) (key @ to_le 8 child) buf"
  using splice_splice_adjacent [of "16 + i * 40" key "to_le 8 child" buf] assms
  by (simp add: set_internal_entry_def Let_def BLOCK_SIZE_def del: to_le_numeral)

lemma internal_set:
  assumes "length buf = BLOCK_SIZE" and "i < MAX_INTERNAL_KEYS" and "j < MAX_INTERNAL_KEYS" and "length key = 32" and "child < 2 ^ 64"
  shows "internal_key (set_internal_entry buf i key child) j = (if i = j then key else internal_key buf j)"
    "internal_child (set_internal_entry buf i key child) j = (if i = j then child else internal_child buf j)"
proof -
  let ?b = "splice (16 + i * 40) (key @ to_le 8 child) buf"
  have fit: "16 + i * 40 + length (key @ to_le 8 child) \<le> length buf" using assms by (simp add: BLOCK_SIZE_def del: to_le_numeral)
  have whole: "slice (16 + i * 40) 40 ?b = key @ to_le 8 child"
    using slice_splice_same [OF fit] assms(4) by (simp del: to_le_numeral)
  have sub: "slice (off + a) k b = slice a k (slice off n b)" if "a + k \<le> n" for off a k n b
    using that by (simp add: slice_def drop_take add.commute)
  have same: "slice (16 + i * 40) 32 ?b = key" "rd_le 8 (48 + i * 40) ?b = child"
    using sub [of 0 32 40 "16 + i * 40" ?b] sub [of 32 8 40 "16 + i * 40" ?b] assms(4,5)
    by (simp_all add: whole rd_le_def slices codec del: to_le_numeral)
  have other: "slice (16 + j * 40) 32 ?b = slice (16 + j * 40) 32 buf" "rd_le 8 (48 + j * 40) ?b = rd_le 8 (48 + j * 40) buf" if "i \<noteq> j"
    using that assms fit unfolding rd_le_def
    by (subst slice_splice_disjoint; auto simp: BLOCK_SIZE_def simp del: to_le_numeral)+
  show "internal_key (set_internal_entry buf i key child) j = (if i = j then key else internal_key buf j)"
    "internal_child (set_internal_entry buf i key child) j = (if i = j then child else internal_child buf j)"
    unfolding set_internal_splice [OF assms(1,2,4)] internal_key_def internal_child_small [OF less_imp_le [OF assms(3)]]
      internal_off_small [OF less_imp_le [OF assms(3)]]
    using same other by (cases "i = j"; simp only: if_True if_False)+
qed

lemma length_set_internal:
  "length buf = BLOCK_SIZE \<Longrightarrow> i < MAX_INTERNAL_KEYS \<Longrightarrow> length key = 32 \<Longrightarrow> length (set_internal_entry buf i key child) = BLOCK_SIZE"
  by (subst set_internal_splice) (simp_all add: BLOCK_SIZE_def del: to_le_numeral)

lemma read_header_set_internal:
  "length buf = BLOCK_SIZE \<Longrightarrow> i < MAX_INTERNAL_KEYS \<Longrightarrow> length key = 32 \<Longrightarrow>
     read_header (set_internal_entry buf i key child) = read_header buf"
  by (subst set_internal_splice) (simp_all add: read_header_splice BLOCK_SIZE_def del: to_le_numeral)

lemma internal_list_set:
  assumes "length buf = BLOCK_SIZE" and "i < MAX_INTERNAL_KEYS" and "n \<le> MAX_INTERNAL_KEYS" and "length key = 32" and "child < 2 ^ 64"
  shows "internal_list (set_internal_entry buf i key child) n = (internal_list buf n)[i := (key, child)]"
  using assms internal_set [OF assms(1,2) _ assms(4,5)]
  by (intro nth_equalityI) (auto simp: internal_list_def nth_list_update)

lemma length_internal_key: "length buf = BLOCK_SIZE \<Longrightarrow> i < MAX_INTERNAL_KEYS \<Longrightarrow> length (internal_key buf i) = 32"
  by (simp add: internal_key_def BLOCK_SIZE_def)

lemma internal_child_less: "internal_child buf i < 2 ^ 64"
  using rd_le_less [of 8 _ buf] by (simp add: internal_child_def)

lemma internal_write_header:
  assumes "length buf = BLOCK_SIZE" "i < MAX_INTERNAL_KEYS"
  shows "internal_key (write_header buf h) i = internal_key buf i" "internal_child (write_header buf h) i = internal_child buf i"
proof -
  show "internal_key (write_header buf h) i = internal_key buf i"
    unfolding internal_key_def write_header_def using assms
    by (subst slice_splice_disjoint) (auto simp: BLOCK_SIZE_def simp del: to_le_numeral)
  show "internal_child (write_header buf h) i = internal_child buf i"
    unfolding internal_child_small [OF less_imp_le [OF assms(2)]] rd_le_def write_header_def using assms
    by (subst slice_splice_disjoint) (auto simp: BLOCK_SIZE_def simp del: to_le_numeral)
qed

lemma internal_list_write_header:
  "length buf = BLOCK_SIZE \<Longrightarrow> n \<le> MAX_INTERNAL_KEYS \<Longrightarrow> internal_list (write_header buf h) n = internal_list buf n"
  by (simp add: internal_list_def internal_write_header)

definition is_node :: "bytes \<Rightarrow> (bytes \<times> nat) list \<Rightarrow> nat \<Rightarrow> bool" where
  "is_node buf ks right \<longleftrightarrow> length buf = BLOCK_SIZE \<and> h_magic (read_header buf) = BTREE_NODE_MAGIC \<and>
     node_type (read_header buf) = BTREE_INTERNAL \<and> num_entries (read_header buf) = length ks \<and>
     right_child (read_header buf) = right \<and> length ks \<le> MAX_INTERNAL_KEYS \<and> internal_list buf (length ks) = ks"

lemma is_nodeD:
  assumes "is_node buf ks right"
  shows "length buf = BLOCK_SIZE" "h_magic (read_header buf) = BTREE_NODE_MAGIC" "node_type (read_header buf) = BTREE_INTERNAL"
    "num_entries (read_header buf) = length ks" "right_child (read_header buf) = right" "length ks \<le> 101"
    "internal_list buf (length ks) = ks" "i < length ks \<Longrightarrow> internal_key buf i = fst (ks ! i)"
    "i < length ks \<Longrightarrow> internal_child buf i = snd (ks ! i)" "right < 2 ^ 64"
proof -
  show l: "length buf = BLOCK_SIZE" "h_magic (read_header buf) = BTREE_NODE_MAGIC" "node_type (read_header buf) = BTREE_INTERNAL"
    "num_entries (read_header buf) = length ks" "right_child (read_header buf) = right" "length ks \<le> 101"
    "internal_list buf (length ks) = ks"
    using assms by (simp_all add: is_node_def)
  have "ks ! i = (internal_key buf i, internal_child buf i)" if "i < length ks" for i
    using l(7) that by (metis (no_types, lifting) add_0 internal_list_def length_upt minus_nat.diff_0 nth_map nth_upt)
  then show "i < length ks \<Longrightarrow> internal_key buf i = fst (ks ! i)" "i < length ks \<Longrightarrow> internal_child buf i = snd (ks ! i)" by simp_all
  show "right < 2 ^ 64" using read_header_ok [OF l(1)] l(5) by (simp add: header_ok_def)
qed

definition key_ok :: "bytes \<times> nat \<Rightarrow> bool" where
  "key_ok = (\<lambda>(k, c). length k = 32 \<and> c < 2 ^ 64)"

lemma is_node_keys:
  assumes "is_node buf ks right" and "k \<in> set ks"
  shows "key_ok k"
proof -
  note n = is_nodeD [OF assms(1)]
  have "k \<in> set (internal_list buf (length ks))" unfolding n(7) by (rule assms(2))
  then obtain i where "i < length ks" "k = (internal_key buf i, internal_child buf i)" by (auto simp: internal_list_def)
  then show ?thesis using length_internal_key [OF n(1), of i] internal_child_less [of buf i] n(6) by (simp add: key_ok_def)
qed

text \<open>Replacing a child.\<close>

lemma splice_slice: "off + n \<le> length buf \<Longrightarrow> splice off (slice off n buf) buf = buf"
  by (rule nth_equalityI) (auto simp: nth_splice nth_slice)

lemma splice_child:
  assumes "length buf = BLOCK_SIZE" and "i < MAX_INTERNAL_KEYS"
  shows "splice (16 + i * 40 + 32) (to_le 8 child) buf = set_internal_entry buf i (internal_key buf i) child"
proof -
  have "splice (16 + i * 40) (slice (16 + i * 40) 32 buf) buf = buf"
    using assms by (intro splice_slice) (simp add: BLOCK_SIZE_def)
  then show ?thesis using assms by (simp add: set_internal_entry_def Let_def internal_key_def del: to_le_numeral)
qed

lemma splice_right:
  assumes "length buf = BLOCK_SIZE"
  shows "splice 8 (to_le 8 child) buf = write_header buf ((read_header buf)\<lparr>num_entries := rd_le 2 6 buf, right_child := child\<rparr>)"
proof -
  have "take 8 buf = to_le 4 (rd_le 4 0 buf) @ [buf ! 4, buf ! 5] @ to_le 2 (rd_le 2 6 buf)"
  proof -
    have "[buf ! 4, buf ! 5] = slice 4 2 buf"
      using assms by (simp add: slice_def BLOCK_SIZE_def numeral_2_eq_2 take_Suc_conv_app_nth)
    moreover have "take 8 buf = slice 0 4 buf @ slice 4 2 buf @ slice 6 2 buf"
      using take_add [of 4 4 buf] take_add [of 2 2 "drop 4 buf"] by (simp add: slice_def)
    ultimately show ?thesis using assms by (simp add: codec BLOCK_SIZE_def del: to_le_numeral)
  qed
  then show ?thesis by (simp add: splice_def write_header_def read_header_def Let_def del: to_le_numeral)
qed

lemma copy_right:
  assumes "pos \<le> n" and "n < length xs"
  shows "fold (\<lambda>i ys. ys[i + 1 := xs ! i]) (rev [pos..<n]) xs =
    take pos xs @ [xs ! pos] @ take (n - pos) (drop pos xs) @ drop (n + 1) xs"
proof -
  have "length (fold (\<lambda>i ys. ys[i + 1 := xs ! i]) is ys) = length ys" for "is" ys by (induction "is" arbitrary: ys) auto
  moreover have "fold (\<lambda>i ys. ys[i + 1 := xs ! i]) is ys ! j = ys ! j" if "\<forall>i \<in> set is. j < i + 1" for "is" ys j
    using that by (induction "is" arbitrary: ys) (auto simp: nth_list_update)
  ultimately have "fold (\<lambda>i ys. ys[i + 1 := xs ! i]) (rev [pos..<n]) xs = fold (\<lambda>i ys. ys[i + 1 := ys ! i]) (rev [pos..<n]) xs"
    using assms(1)
  proof (induction "n - pos" arbitrary: pos)
    case 0
    then show ?case by simp
  next
    case (Suc k)
    then have p: "pos < n" by simp
    have "fold (\<lambda>i ys. ys[i + 1 := xs ! i]) (rev [Suc pos..<n]) xs ! pos = xs ! pos" using Suc.prems(2) [of "rev [Suc pos..<n]" pos xs] by simp
    then show ?case using Suc.hyps(1) [of "Suc pos"] Suc.hyps(2) Suc.prems p by (simp add: upt_conv_Cons)
  qed
  then show ?thesis using shift_right [OF assms] by simp
qed

lemma copy_left:
  assumes "pos < n" and "n \<le> length xs"
  shows "fold (\<lambda>i ys. ys[i := xs ! (i + 1)]) [pos..<n - 1] xs = take pos xs @ take (n - 1 - pos) (drop (pos + 1) xs) @ drop (n - 1) xs"
proof -
  have "fold (\<lambda>i ys. ys[i := xs ! (i + 1)]) [pos..<m] xs = take pos xs @ take (m - pos) (drop (pos + 1) xs) @ drop m xs"
    if "pos \<le> m" "m < n" for m
    using that
  proof (induction m)
    case 0
    then show ?case by simp
  next
    case (Suc m)
    show ?case
    proof (cases "pos \<le> m")
      case False
      then have "pos = Suc m" using Suc.prems by simp
      then show ?thesis by simp
    next
      case True
      have "take (Suc m - pos) (drop (pos + 1) xs) = take (m - pos) (drop (pos + 1) xs) @ [xs ! (m + 1)]"
        using True Suc.prems assms(2) take_Suc_conv_app_nth [of "m - pos" "drop (pos + 1) xs"] by (simp add: Suc_diff_le)
      moreover have "drop m xs = xs ! m # drop (Suc m) xs" using Suc.prems assms(2) by (simp add: Cons_nth_drop_Suc)
      ultimately show ?thesis using True Suc assms by (simp add: list_update_append)
    qed
  qed
  from this [of "n - 1"] show ?thesis using assms(1) by simp
qed

lemma clamp_internal: "node_type h = BTREE_INTERNAL \<Longrightarrow> num_entries h \<le> 101 \<Longrightarrow> clamp h = h"
  by (cases h) (simp add: clamp_def BTREE_LEAF_def BTREE_INTERNAL_def min_def)

lemma is_node_header:
  assumes "length buf = BLOCK_SIZE" and "h_magic h = BTREE_NODE_MAGIC" and "node_type h = BTREE_INTERNAL"
    and "num_entries h = length ks" and "right_child h = r" and "r < 2 ^ 64" and "length ks \<le> 101" and "internal_list buf (length ks) = ks"
  shows "is_node (write_header buf h) ks r"
proof -
  have ok: "header_ok h" using assms by (simp add: header_ok_def BTREE_NODE_MAGIC_def)
  show ?thesis
    using assms unfolding is_node_def read_write_header [OF assms(1) ok]
    by (simp add: clamp_internal length_write_header internal_list_write_header)
qed

lemma is_node_set_child:
  assumes n: "is_node buf ks r" and i: "i < length ks" and c: "c < 2 ^ 64"
  shows "is_node (set_child buf (read_header buf) i c) (ks[i := (fst (ks ! i), c)]) r"
proof -
  note d = is_nodeD [OF n]
  have lt: "i < MAX_INTERNAL_KEYS" using i d(6) by simp
  have k: "length (internal_key buf i) = 32" by (rule length_internal_key [OF d(1) lt])
  have "set_child buf (read_header buf) i c = set_internal_entry buf i (fst (ks ! i)) c"
    using i splice_child [OF d(1) lt] d(4,8) by (simp add: set_child_def add.assoc)
  then show ?thesis
    using d lt i c k internal_list_set [OF d(1) lt, of "length ks" "fst (ks ! i)" c]
    by (simp add: is_node_def length_set_internal read_header_set_internal)
qed

lemma is_node_set_right:
  assumes n: "is_node buf ks r" and c: "c < 2 ^ 64"
  shows "is_node (set_child buf (read_header buf) (length ks) c) ks c"
proof -
  note d = is_nodeD [OF n]
  let ?h = "(read_header buf)\<lparr>num_entries := rd_le 2 6 buf, right_child := c\<rparr>"
  have eq: "set_child buf (read_header buf) (length ks) c = write_header buf ?h"
    using d(4) splice_right [OF d(1)] by (simp add: set_child_def)
  have ok: "header_ok ?h" using read_header_ok [OF d(1)] c rd_le_less [of 2 6 buf] by (simp add: header_ok_def)
  have cl: "clamp ?h = (read_header buf)\<lparr>right_child := c\<rparr>"
    using d(3) by (simp add: clamp_def read_header_def Let_def BTREE_LEAF_def BTREE_INTERNAL_def)
  show ?thesis
    unfolding is_node_def eq read_write_header [OF d(1) ok] cl
    using d by (simp add: length_write_header internal_list_write_header)
qed

lemma find_key: "is_node buf ks r \<Longrightarrow> find (\<lambda>i. key < internal_key buf i) [0..<length ks] = find (\<lambda>i. key < fst (ks ! i)) [0..<length ks]"
  by (rule find_cong_upt) (simp add: is_nodeD)

text \<open>Adding the two halves of a split child.\<close>

definition with_split :: "bytes \<Rightarrow> nat \<Rightarrow> nat \<Rightarrow> (bytes \<times> nat) list \<Rightarrow> nat \<Rightarrow> (bytes \<times> nat) list \<times> nat" where
  "with_split key left right ks r =
     (case find (\<lambda>i. key < fst (ks ! i)) [0..<length ks] of
        None \<Rightarrow> (ks @ [(key, left)], right)
      | Some pos \<Rightarrow> (take pos ks @ (key, left) # (fst (ks ! pos), right) # drop (pos + 1) ks, r))"

lemma is_node_add_split:
  assumes n: "is_node buf ks r" and room: "length ks < MAX_INTERNAL_KEYS" and key: "length key = 32" and c: "left < 2 ^ 64" "right < 2 ^ 64"
    and w: "with_split key left right ks r = (ks', r')"
  shows "is_node (add_split buf (read_header buf) key left right) ks' r'"
proof -
  note d = is_nodeD [OF n]
  let ?n = "length ks" and ?h = "read_header buf" and ?xs = "internal_list buf (Suc (length ks))"
  have lx: "length ?xs = Suc ?n" "take ?n ?xs = ks" using d(7) by (simp_all add: internal_list_def)
  have nx: "?xs ! i = (internal_key buf i, internal_child buf i)" if "i < Suc ?n" for i
    using that by (simp add: internal_list_def del: upt_Suc)
  show ?thesis
  proof (cases "find (\<lambda>i. key < internal_key buf i) [0..<?n]")
    case None
    then have w': "ks' = ks @ [(key, left)]" "r' = right" using w find_key [OF n, of key] by (auto simp: with_split_def)
    let ?h1 = "?h\<lparr>num_entries := ?n + 1, right_child := right\<rparr>"
    have eq: "add_split buf ?h key left right = set_internal_entry (write_header buf ?h1) ?n key left"
      using None d(4) by (simp add: add_split_def Let_def)
    have node1: "is_node (write_header buf ?h1) ?xs right"
      by (rule is_node_header) (use d room c lx in \<open>auto simp del: upt_Suc\<close>)
    note d1 = is_nodeD [OF node1]
    have "internal_list (set_internal_entry (write_header buf ?h1) ?n key left) (Suc ?n) = ?xs[?n := (key, left)]"
      using internal_list_set [OF d1(1), of ?n "Suc ?n" key left] room key c d1(7) lx by simp
    also have "\<dots> = ks @ [(key, left)]" using lx id_take_nth_drop [of ?n ?xs] upd_conv_take_nth_drop [of ?n ?xs "(key, left)"] by simp
    finally show ?thesis
      unfolding is_node_def eq w' using d1 room key lx by (simp add: length_set_internal read_header_set_internal)
  next
    case (Some pos)
    have pos: "pos < ?n" using Some by (auto simp: find_Some_iff)
    have w': "ks' = take pos ks @ (key, left) # (fst (ks ! pos), right) # drop (pos + 1) ks" "r' = r"
      using w Some find_key [OF n, of key] by (auto simp: with_split_def)
    let ?f = "\<lambda>i b. set_internal_entry b (i + 1) (internal_key buf i) (internal_child buf i)"
    define b1 where "b1 = fold ?f (rev [pos..<?n]) buf"
    let ?P = "\<lambda>b. length b = BLOCK_SIZE \<and> read_header b = ?h"
    have f1: "?P b1 \<and> internal_list b1 (Suc ?n) = fold (\<lambda>i ys. ys[i + 1 := ?xs ! i]) (rev [pos..<?n]) ?xs"
      unfolding b1_def
    proof (rule fold_list_view)
      fix b i assume b: "?P b" and i: "i \<in> set (rev [pos..<?n])"
      then have lt: "i + 1 < MAX_INTERNAL_KEYS" "i < Suc ?n" "Suc ?n \<le> MAX_INTERNAL_KEYS" "i < MAX_INTERNAL_KEYS" using room by auto
      have k: "length (internal_key buf i) = 32" by (rule length_internal_key [OF d(1) lt(4)])
      show "?P (?f i b) \<and> internal_list (?f i b) (Suc ?n) = (internal_list b (Suc ?n))[i + 1 := ?xs ! i]"
        using b k internal_child_less [of buf i] internal_list_set [of b "i + 1" "Suc ?n"] lt nx [OF lt(2)]
        by (simp add: length_set_internal read_header_set_internal)
    qed (use d in simp)
    have b1: "length b1 = BLOCK_SIZE" "read_header b1 = ?h"
      "internal_list b1 (Suc ?n) = take pos ?xs @ [?xs ! pos] @ take (?n - pos) (drop pos ?xs) @ drop (?n + 1) ?xs"
      using f1 copy_right [of pos ?n ?xs] pos lx by auto
    define b2 where "b2 = set_internal_entry b1 pos key left"
    have pl: "pos < MAX_INTERNAL_KEYS" "pos + 1 < MAX_INTERNAL_KEYS" "Suc ?n \<le> MAX_INTERNAL_KEYS" using pos room by auto
    have b2: "length b2 = BLOCK_SIZE" "read_header b2 = ?h" "internal_list b2 (Suc ?n) = (internal_list b1 (Suc ?n))[pos := (key, left)]"
      using b1 pl key c internal_list_set [OF b1(1) pl(1,3) key c(1)]
      by (simp_all add: b2_def length_set_internal read_header_set_internal)
    define b3 where "b3 = splice (16 + (pos + 1) * 40 + 32) (to_le 8 right) b2"
    have k2: "length (internal_key b2 (pos + 1)) = 32" by (rule length_internal_key [OF b2(1) pl(2)])
    have b3e: "b3 = set_internal_entry b2 (pos + 1) (internal_key b2 (pos + 1)) right" unfolding b3_def by (rule splice_child [OF b2(1) pl(2)])
    have l2: "internal_list b2 (Suc ?n) = take pos ks @ (key, left) # drop pos ks"
    proof -
      have "internal_list b2 (Suc ?n) = take pos ?xs @ (key, left) # take (?n - pos) (drop pos ?xs)"
        unfolding b2(3) b1(3) using pos lx by (simp add: list_update_append min_def)
      also have "take pos ?xs = take pos ks" using lx(2) pos by (metis less_imp_le min.absorb1 take_take)
      also have "take (?n - pos) (drop pos ?xs) = drop pos ks" using lx(2) by (metis drop_take)
      finally show ?thesis .
    qed
    have "internal_key b2 (pos + 1) = fst (internal_list b2 (Suc ?n) ! (pos + 1))"
      using pos by (simp add: internal_list_def del: upt_Suc)
    also have "\<dots> = fst (ks ! pos)" unfolding l2 using pos by (simp add: nth_append)
    finally have kk: "internal_key b2 (pos + 1) = fst (ks ! pos)" .
    have l3: "internal_list b3 (Suc ?n) = ks'"
    proof -
      have "internal_list b3 (Suc ?n) = (take pos ks @ (key, left) # drop pos ks)[pos + 1 := (fst (ks ! pos), right)]"
        unfolding b3e using internal_list_set [OF b2(1) pl(2,3) k2 c(2)] unfolding l2 kk .
      also have "\<dots> = ks'" unfolding w' using pos by (simp add: list_update_append Cons_nth_drop_Suc [symmetric])
      finally show ?thesis .
    qed
    have b3: "length b3 = BLOCK_SIZE" "read_header b3 = ?h"
      using b2 pl k2 by (simp_all add: b3e length_set_internal read_header_set_internal)
    have eq: "add_split buf ?h key left right = write_header b3 (?h\<lparr>num_entries := ?n + 1\<rparr>)"
      using Some d(4) by (simp add: add_split_def Let_def b1_def b2_def b3_def add.assoc del: to_le_numeral)
    have "length ks' = Suc ?n" unfolding w' using pos by simp
    then show ?thesis unfolding eq by (intro is_node_header) (use b3 l3 d room w'(2) in auto)
  qed
qed

lemma is_node_drop_child:
  assumes n: "is_node buf ks r" and i: "i < length ks"
  shows "is_node (drop_child buf (read_header buf) i) (take i ks @ drop (i + 1) ks) r"
proof -
  note d = is_nodeD [OF n]
  let ?n = "length ks" and ?h = "read_header buf"
  let ?f = "\<lambda>i b. set_internal_entry b i (internal_key buf (i + 1)) (internal_child buf (i + 1))"
  define b1 where "b1 = fold ?f [i..<?n - 1] buf"
  let ?P = "\<lambda>b. length b = BLOCK_SIZE \<and> read_header b = ?h"
  have f1: "?P b1 \<and> internal_list b1 ?n = fold (\<lambda>i ys. ys[i := ks ! (i + 1)]) [i..<?n - 1] (internal_list buf ?n)"
    unfolding b1_def
  proof (rule fold_list_view)
    fix b j assume b: "?P b" and j: "j \<in> set [i..<?n - 1]"
    then have lt: "j < MAX_INTERNAL_KEYS" "j + 1 < ?n" "j + 1 < MAX_INTERNAL_KEYS" "?n \<le> MAX_INTERNAL_KEYS" using d(6) by auto
    have k: "length (internal_key buf (j + 1)) = 32" by (rule length_internal_key [OF d(1) lt(3)])
    have e: "ks ! (j + 1) = (internal_key buf (j + 1), internal_child buf (j + 1))" using d(8,9) lt(2) by (simp add: prod_eq_iff)
    show "?P (?f j b) \<and> internal_list (?f j b) ?n = (internal_list b ?n)[j := ks ! (j + 1)]"
      using b k internal_child_less [of buf "j + 1"] internal_list_set [of b j ?n] lt e
      by (simp add: length_set_internal read_header_set_internal)
  qed (use d in simp)
  have b1: "length b1 = BLOCK_SIZE" "internal_list b1 ?n = take i ks @ take (?n - 1 - i) (drop (i + 1) ks) @ drop (?n - 1) ks"
    using f1 copy_left [OF i order_refl] d(7) by auto
  have "internal_list b1 (?n - 1) = take (?n - 1) (internal_list b1 ?n)" by (simp add: internal_list_def take_map)
  then have l1: "internal_list b1 (?n - 1) = take i ks @ drop (i + 1) ks" unfolding b1(2) using i by (simp add: min_absorb2)
  have w: "(?n + 65535) mod 65536 = ?n - 1" by (rule wrap16_pred) (use i d(6) in auto)
  have eq: "drop_child buf ?h i = write_header b1 (?h\<lparr>num_entries := ?n - 1\<rparr>)"
    using i w by (simp add: drop_child_def Let_def d(4) b1_def)
  have n1: "length (take i ks @ drop (i + 1) ks) = ?n - 1" using i by simp
  show ?thesis unfolding eq by (rule is_node_header) (use b1 l1 d n1 in auto)
qed

lemma is_node_drop_right:
  assumes n: "is_node buf ks r" and ne: "ks \<noteq> []"
  shows "is_node (drop_child buf (read_header buf) (length ks)) (butlast ks) (snd (last ks))"
proof -
  note d = is_nodeD [OF n]
  let ?n = "length ks" and ?h = "read_header buf"
  have pos: "0 < ?n" using ne by simp
  have w: "(?n + 65535) mod 65536 = ?n - 1" by (rule wrap16_pred) (use pos d(6) in auto)
  have w64: "wrap64 (?n + U64_MAX) = ?n - 1"
  proof -
    have e: "?n + U64_MAX = (?n - 1) + 2 ^ 64" using pos by simp
    have "(?n - 1 + 2 ^ 64) mod 2 ^ 64 = (?n - 1) mod 2 ^ 64" by (rule mod_add_self2)
    also have "\<dots> = ?n - 1" by (rule mod_less) (use d(6) in simp)
    finally show ?thesis unfolding e by simp
  qed
  have "internal_child buf (?n - 1) = snd (last ks)" using d(9) [of "?n - 1"] ne by (simp add: last_conv_nth)
  then have eq: "drop_child buf ?h ?n = write_header buf (?h\<lparr>right_child := snd (last ks), num_entries := ?n - 1\<rparr>)"
    unfolding drop_child_def Let_def d(4) w w64 by (simp only: less_not_refl if_False)
  have "internal_list buf (?n - 1) = butlast (internal_list buf ?n)" by (simp add: internal_list_def butlast_conv_take take_map)
  then have "internal_list buf (?n - 1) = butlast ks" unfolding d(7) .
  moreover have "snd (last ks) < 2 ^ 64" using is_node_keys [OF n, of "last ks"] ne by (auto simp: key_ok_def)
  ultimately show ?thesis unfolding eq by (intro is_node_header) (use d in auto)
qed

text \<open>A node with no key that loses its only child: the count wraps.\<close>

lemma drop_child_wraps:
  assumes "is_node buf [] r"
  shows "rd_le 2 6 (drop_child buf (read_header buf) 0) = 65535" "right_child (read_header (drop_child buf (read_header buf) 0)) = r"
    "num_entries (read_header (drop_child buf (read_header buf) 0)) = MAX_INTERNAL_KEYS"
proof -
  note d = is_nodeD [OF assms]
  let ?h = "read_header buf"
  have off: "internal_child buf (wrap64 (0 + U64_MAX)) = r"
    using d(5) by (simp add: internal_child_def internal_off_def read_header_def Let_def)
  have eq: "drop_child buf ?h 0 = write_header buf (?h\<lparr>right_child := r, num_entries := 65535\<rparr>)"
    using off d(4) by (simp add: drop_child_def Let_def)
  have ok: "header_ok (?h\<lparr>right_child := r, num_entries := 65535\<rparr>)" using read_header_ok [OF d(1)] d(10) by (simp add: header_ok_def)
  show "right_child (read_header (drop_child buf ?h 0)) = r" "num_entries (read_header (drop_child buf ?h 0)) = MAX_INTERNAL_KEYS"
    unfolding eq read_write_header [OF d(1) ok] using d(3) by (simp_all add: clamp_def BTREE_LEAF_def BTREE_INTERNAL_def)
  have "from_le (to_le 2 65535) = 65535" by (simp only: from_to_le) simp
  then show "rd_le 2 6 (drop_child buf ?h 0) = 65535"
    unfolding eq by (simp add: write_header_def splice_def rd_le_def slices del: to_le_numeral)
qed

section \<open>Building nodes\<close>

lemma leaf_node_new:
  "n \<le> 36 \<Longrightarrow> length (new_node BTREE_LEAF n 0) = BLOCK_SIZE \<and> h_magic (read_header (new_node BTREE_LEAF n 0)) = BTREE_NODE_MAGIC \<and>
     node_type (read_header (new_node BTREE_LEAF n 0)) = BTREE_LEAF \<and> num_entries (read_header (new_node BTREE_LEAF n 0)) = n"
  unfolding new_node_def
  by (subst (1 2 3) read_write_header) (auto simp: header_ok_def BTREE_NODE_MAGIC_def clamp_def length_write_header min_def)

lemma is_leaf_leaf_of:
  assumes n: "length es \<le> MAX_LEAF_ENTRIES" and ok: "\<And>e. e \<in> set es \<Longrightarrow> entry_ok e"
  shows "is_leaf (leaf_of es) es"
proof -
  let ?n = "length es" and ?b0 = "new_node BTREE_LEAF (length es) 0"
  note z = leaf_node_new [of "length es"]
  let ?P = "\<lambda>b. length b = BLOCK_SIZE \<and> read_header b = read_header ?b0"
  have f: "?P (leaf_of es) \<and> leaf_list (leaf_of es) ?n = fold (\<lambda>i ys. ys[i := es ! i]) [0..<?n] (leaf_list ?b0 ?n)"
    unfolding leaf_of_def
    by (rule fold_list_view) (use z n ok leaf_list_set length_set_leaf_entry read_header_set_leaf in \<open>auto\<close>)
  have "fold (\<lambda>i ys. ys[i := es ! i]) [0..<m] xs = take m es @ drop m xs" if "m \<le> length xs" "length xs = length es" for m xs
    using that
  proof (induction m)
    case 0
    then show ?case by simp
  next
    case (Suc m)
    then have "drop m xs = xs ! m # drop (Suc m) xs" by (simp add: Cons_nth_drop_Suc)
    then show ?case using Suc by (simp add: list_update_append take_Suc_conv_app_nth)
  qed
  from this [of ?n "leaf_list ?b0 ?n"] have "leaf_list (leaf_of es) ?n = es" using f by (simp add: leaf_list_def)
  then show ?thesis using f z n by (simp add: is_leaf_def)
qed

lemma fold_fill:
  "m \<le> length xs \<Longrightarrow> length xs = length es \<Longrightarrow> fold (\<lambda>i ys. ys[i := es ! i]) [0..<m] xs = take m es @ drop m xs"
proof (induction m)
  case 0
  then show ?case by simp
next
  case (Suc m)
  then have "drop m xs = xs ! m # drop (Suc m) xs" by (simp add: Cons_nth_drop_Suc)
  then show ?case using Suc by (simp add: list_update_append take_Suc_conv_app_nth)
qed

lemma internal_node_new:
  assumes "n \<le> 101" "r < 2 ^ 64"
  shows "is_node (new_node BTREE_INTERNAL n r) (internal_list (new_node BTREE_INTERNAL n r) n) r"
proof -
  let ?h = "\<lparr>h_magic = BTREE_NODE_MAGIC, node_type = BTREE_INTERNAL, h_pad = 0, num_entries = n, right_child = r\<rparr>"
  have ok: "header_ok ?h" using assms by (simp add: header_ok_def BTREE_NODE_MAGIC_def)
  have z: "length (replicate BLOCK_SIZE (0 :: u8)) = BLOCK_SIZE" by simp
  show ?thesis
    unfolding is_node_def new_node_def read_write_header [OF z ok]
    using assms(1) by (simp add: clamp_internal length_write_header internal_list_def)
qed

lemma is_node_internal_of:
  assumes n: "length es \<le> MAX_INTERNAL_KEYS" and ok: "\<And>k. k \<in> set es \<Longrightarrow> key_ok k" and r: "r < 2 ^ 64"
  shows "is_node (internal_of es r) es r"
proof -
  let ?n = "length es" and ?b0 = "new_node BTREE_INTERNAL (length es) r"
  have z: "is_node ?b0 (internal_list ?b0 ?n) r" by (rule internal_node_new) (use n r in auto)
  let ?P = "\<lambda>b. length b = BLOCK_SIZE \<and> read_header b = read_header ?b0"
  let ?f = "\<lambda>i buf. set_internal_entry buf i (fst (es ! i)) (snd (es ! i))"
  have f: "?P (internal_of es r) \<and> internal_list (internal_of es r) ?n = fold (\<lambda>i ys. ys[i := es ! i]) [0..<?n] (internal_list ?b0 ?n)"
    unfolding internal_of_def
  proof (rule fold_list_view)
    fix b i assume b: "?P b" and i: "i \<in> set [0..<?n]"
    have k: "length (fst (es ! i)) = 32" "snd (es ! i) < 2 ^ 64" using ok [of "es ! i"] i by (auto simp: key_ok_def split: prod.splits)
    have lt: "i < MAX_INTERNAL_KEYS" using i n by simp
    have b0: "length b = BLOCK_SIZE" using b by simp
    show "?P (?f i b) \<and> internal_list (?f i b) ?n = (internal_list b ?n)[i := es ! i]"
      using b k internal_list_set [OF b0 lt n k] lt by (simp add: length_set_internal read_header_set_internal)
  qed (use is_nodeD(1) [OF z] in simp)
  have "internal_list (internal_of es r) ?n = es"
    using f fold_fill [of ?n "internal_list ?b0 ?n" es] by (simp add: internal_list_def)
  moreover have "length (internal_list ?b0 ?n) = ?n" by (simp add: internal_list_def)
  ultimately show ?thesis using f is_nodeD(1-5) [OF z] n unfolding is_node_def by simp
qed

section \<open>Splitting\<close>

lemma find_upt_position: "find (\<lambda>i. P (xs ! i)) [0..<length xs] = position P xs"
proof (induction xs)
  case Nil
  then show ?case by simp
next
  case (Cons x xs)
  have up: "[0..<length (x # xs)] = 0 # map Suc [0..<length xs]" by (simp add: upt_conv_Cons map_Suc_upt del: upt_Suc)
  have "find (\<lambda>i. P ((x # xs) ! i)) (map Suc [0..<length xs]) = map_option Suc (find (\<lambda>i. P (xs ! i)) [0..<length xs])"
  proof -
    have "find (\<lambda>i. P ((x # xs) ! i)) (map Suc js) = map_option Suc (find (\<lambda>i. P (xs ! i)) js)" for js
      by (induction js) auto
    then show ?thesis .
  qed
  then show ?case unfolding up using Cons.IH by simp
qed


definition insert_at :: "nat option \<Rightarrow> 'b \<Rightarrow> 'b list \<Rightarrow> 'b list" where
  "insert_at p x xs = (case p of None \<Rightarrow> xs @ [x] | Some i \<Rightarrow> take i xs @ x # drop i xs)"

lemma insert_at_simps [simp]:
  "insert_at None x xs = xs @ [x]" "insert_at (Some i) x xs = take i xs @ x # drop i xs"
  by (simp_all add: insert_at_def)

lemma set_insert_at: "set (insert_at p x xs) = insert x (set xs)"
proof (cases p)
  case None
  then show ?thesis by simp
next
  case (Some i)
  have "set xs = set (take i xs) \<union> set (drop i xs)" by (metis append_take_drop_id set_append)
  then show ?thesis using Some by auto
qed

lemma length_insert_at: "(\<And>i. p = Some i \<Longrightarrow> i \<le> length xs) \<Longrightarrow> length (insert_at p x xs) = Suc (length xs)"
  by (cases p) auto

lemma with_entry_done: "with_entry e True es = es"
  by (induction es) auto

lemma with_entry_insert: "with_entry e False es = insert_at (position (\<lambda>x. e_hash e < e_hash x) es) e es"
proof (induction es)
  case Nil
  then show ?case by simp
next
  case (Cons x es)
  then show ?case by (cases "position (\<lambda>x. e_hash e < e_hash x) es") (auto simp: with_entry_done)
qed

lemma with_key_done: "with_key k l True es = es"
  by (induction es) auto

lemma with_key_insert: "with_key k l False es = insert_at (position (\<lambda>x. k < fst x) es) (k, l) es"
proof (induction es)
  case Nil
  then show ?case by simp
next
  case (Cons x es)
  then show ?case by (cases x; cases "position (\<lambda>x. k < fst x) es") (auto simp: with_key_done)
qed

lemma position_append_first: "(\<And>x. x \<in> set xs \<Longrightarrow> \<not> p x) \<Longrightarrow> p y \<Longrightarrow> position p (xs @ y # ys) = Some (length xs)"
  by (induction xs) auto

lemma split_entries_eq:
  assumes "k \<notin> fst ` set ks"
  shows "split_entries k l r ks right = with_split k l r ks right"
proof (cases "position (\<lambda>x. k < fst x) ks")
  case None
  have "position (\<lambda>e. fst e = k) (ks @ [(k, l)]) = Some (length ks)"
    using assms position_append_first [of ks "\<lambda>e. fst e = k" "(k, l)" "[]"] by force
  then show ?thesis using None by (simp add: split_entries_def with_key_insert with_split_def Let_def find_upt_position [of "\<lambda>x. k < fst x"])
next
  case (Some p)
  have p: "p < length ks" using position_SomeD [OF Some] by simp
  have "position (\<lambda>e. fst e = k) (take p ks @ (k, l) # drop p ks) = Some p"
    using assms p position_append_first [of "take p ks" "\<lambda>e. fst e = k" "(k, l)" "drop p ks"] by (force dest: in_set_takeD)
  moreover have "(take p ks @ (k, l) # drop p ks) ! (p + 1) = ks ! p" using p by (simp add: nth_append)
  moreover have "(take p ks @ (k, l) # drop p ks)[p + 1 := v] = take p ks @ (k, l) # v # drop (p + 1) ks" for v
    using p by (simp add: list_update_append Cons_nth_drop_Suc [symmetric])
  ultimately show ?thesis using Some p by (simp add: split_entries_def with_key_insert with_split_def Let_def find_upt_position [of "\<lambda>x. k < fst x"])
qed

section \<open>Checksums\<close>

lemma length_write_node_checksum:
  "length buf = BLOCK_SIZE \<Longrightarrow> (\<And>b. length (blake3 b) = 32) \<Longrightarrow> length (write_node_checksum blake3 buf) = BLOCK_SIZE"
  by (simp add: write_node_checksum_def compute_node_checksum_def BLOCK_SIZE_def)

lemma verify_write_node_checksum:
  assumes "length buf = BLOCK_SIZE" and "\<And>b. length (blake3 b) = 32"
  shows "verify_node_checksum blake3 (write_node_checksum blake3 buf)"
proof -
  have "write_node_checksum blake3 buf = take 4064 buf @ blake3 (take 4064 buf)"
    using assms by (simp add: write_node_checksum_def compute_node_checksum_def splice_def BLOCK_SIZE_def)
  then show ?thesis using assms by (simp add: verify_node_checksum_def compute_node_checksum_def BLOCK_SIZE_def)
qed

lemma checksum_keeps:
  assumes len: "length buf = BLOCK_SIZE" and h: "\<And>b. length (blake3 b) = 32"
  shows "is_leaf buf es \<Longrightarrow> is_leaf (write_node_checksum blake3 buf) es"
    "is_node buf ks r \<Longrightarrow> is_node (write_node_checksum blake3 buf) ks r"
proof -
  let ?b = "write_node_checksum blake3 buf"
  have fit: "CHECKSUM_OFFSET + length (compute_node_checksum blake3 buf) \<le> length buf"
    using len h by (simp add: compute_node_checksum_def BLOCK_SIZE_def)
  have hdr: "read_header ?b = read_header buf" unfolding write_node_checksum_def by (rule read_header_splice [OF _ fit]) simp
  have sl: "slice off n ?b = slice off n buf" if "off + n \<le> 4064" for off n
    unfolding write_node_checksum_def by (rule slice_splice_disjoint [OF fit]) (use that len in \<open>auto simp: BLOCK_SIZE_def\<close>)
  have "leaf_entry ?b i = leaf_entry buf i" if "i < 36" for i
    unfolding leaf_entry_def by (subst sl) (use that in \<open>auto simp: leaf_off_def\<close>)
  then have "leaf_list ?b n = leaf_list buf n" if "n \<le> 36" for n using that by (simp add: leaf_list_def)
  then show "is_leaf ?b es" if "is_leaf buf es"
    using that length_write_node_checksum [of buf blake3, OF len h] by (simp add: is_leaf_def hdr)
  have "internal_key ?b i = internal_key buf i" "internal_child ?b i = internal_child buf i" if "i < 101" for i
    using that sl [of "16 + i * 40" 32] sl [of "48 + i * 40" 8] by (simp_all add: internal_key_def internal_child_small rd_le_def)
  then have "internal_list ?b n = internal_list buf n" if "n \<le> 101" for n using that by (simp add: internal_list_def)
  then show "is_node ?b ks r" if "is_node buf ks r"
    using that length_write_node_checksum [of buf blake3, OF len h] by (simp add: is_node_def hdr)
qed

end
