(* ===== verification/Btree.thy ===== *)
theory Btree
  imports Btree_Node "HOL-Library.Product_Lexorder"
begin

text \<open>
  The copy-on-write B-tree of \<^verbatim>\<open>kernel/src/storage/npkfs/btree.rs\<close> over the block cache and the
  block bitmap: lookup, insert, delete and the corruption-tolerant walk. A path from the root is the
  stack \<open>ups\<close> of the internal nodes above a block, nearest first, each with the index of the child
  taken. The lemmas represent a tree of blocks by a tree of lists and show what each operation does to
  the sequence of its keys.
\<close>

section \<open>Definitions\<close>

definition alloc_blocks :: "nat \<Rightarrow> ('a alloc_io_scheme, fs_error, nat) op" where
  "alloc_blocks count m = (case bm_alloc count (bmap m) of (r, bm) \<Rightarrow> (r, m\<lparr>bmap := bm\<rparr>))"

definition read_node :: "(bytes \<Rightarrow> bytes) \<Rightarrow> nat \<Rightarrow> ('a io_scheme, fs_error, bytes) op" where
  "read_node blake3 block =
     bindE (read_checked block (verify_node_checksum blake3)) (\<lambda>(buf, ok).
       if \<not> ok then throwE Corrupt else retE buf)"

definition write_node :: "(bytes \<Rightarrow> bytes) \<Rightarrow> nat \<Rightarrow> bytes \<Rightarrow> ('a io_scheme, fs_error, unit) op" where
  "write_node blake3 block buf = write_checked block (write_node_checksum blake3 buf)"

fun lookup_loop :: "(bytes \<Rightarrow> bytes) \<Rightarrow> nat \<Rightarrow> nat \<Rightarrow> bytes \<Rightarrow> ('a io_scheme, fs_error, btree_entry option) op" where
  "lookup_loop blake3 0 block key = throwE TreeTooDeep"
| "lookup_loop blake3 (Suc left) block key =
     bindE (read_node blake3 block) (\<lambda>buf.
       let hdr = read_header buf
       in if h_magic hdr \<noteq> BTREE_NODE_MAGIC then throwE Corrupt
          else if node_type hdr = BTREE_LEAF
            then retE (find (\<lambda>e. e_hash e = key) (map (leaf_entry buf) [0..<num_entries hdr]))
          else if node_type hdr = BTREE_INTERNAL then lookup_loop blake3 left (find_child_block buf hdr key) key
          else throwE Corrupt)"

definition btree_lookup :: "(bytes \<Rightarrow> bytes) \<Rightarrow> nat \<Rightarrow> bytes \<Rightarrow> ('a io_scheme, fs_error, btree_entry option) op" where
  "btree_lookup blake3 root key = (if root = 0 then retE None else lookup_loop blake3 MAX_TREE_DEPTH root key)"

text \<open>The loop shared by \<open>insert\<close> and \<open>delete\<close>: down to the leaf for the key, recording the path.\<close>

type_synonym path = "(nat \<times> nat) list"

function descend :: "(bytes \<Rightarrow> bytes) \<Rightarrow> bytes \<Rightarrow> path \<Rightarrow> nat \<Rightarrow> ('a io_scheme, fs_error, path \<times> nat \<times> bytes) op" where
  "descend blake3 key ups block =
     bindE (read_node blake3 block) (\<lambda>buf.
       let hdr = read_header buf
       in if h_magic hdr \<noteq> BTREE_NODE_MAGIC then throwE Corrupt
          else if node_type hdr = BTREE_LEAF then retE (ups, block, buf)
          else if node_type hdr = BTREE_INTERNAL
            then let (child_idx, child_block) = find_child_with_idx buf hdr key
                 in if length ups \<ge> MAX_TREE_DEPTH - 1 then throwE TreeTooDeep
                    else descend blake3 key ((block, child_idx) # ups) child_block
          else throwE Corrupt)"
  by pat_completeness auto
termination
  by (relation "measure (\<lambda>(_, _, ups, _). MAX_TREE_DEPTH - length ups)") (auto simp: MAX_TREE_DEPTH_def)

declare descend.simps [simp del]

text \<open>A copied child is hung into copies of its parents, up to the root.\<close>

fun fixup_path :: "(bytes \<Rightarrow> bytes) \<Rightarrow> path \<Rightarrow> nat \<Rightarrow> nat list \<Rightarrow> ('a alloc_io_scheme, fs_error, nat \<times> nat list) op" where
  "fixup_path blake3 [] child_block old_blocks = retE (child_block, old_blocks)"
| "fixup_path blake3 ((parent_block, child_idx) # ups) child_block old_blocks =
     bindE (read_node blake3 parent_block) (\<lambda>buf.
     bindE (alloc_blocks 1) (\<lambda>new_parent.
     bindE (write_node blake3 new_parent (set_child buf (read_header buf) child_idx child_block)) (\<lambda>_.
       fixup_path blake3 ups new_parent (old_blocks @ [parent_block]))))"

definition split_internal :: "(bytes \<Rightarrow> bytes) \<Rightarrow> bytes \<Rightarrow> node_header \<Rightarrow> bytes \<Rightarrow> nat \<Rightarrow> nat \<Rightarrow>
    ('a alloc_io_scheme, fs_error, nat \<times> nat \<times> bytes) op" where
  "split_internal blake3 buf hdr new_key new_left_child new_right_child =
     (let es = map (\<lambda>i. (internal_key buf i, internal_child buf i)) [0..<num_entries hdr];
          (entries, rightmost) = split_entries new_key new_left_child new_right_child es (right_child hdr);
          mid = length entries div 2
      in bindE (alloc_blocks 1) (\<lambda>left_block.
         bindE (alloc_blocks 1) (\<lambda>right_block.
         bindE (write_node blake3 left_block (internal_of (take mid entries) (snd (entries ! mid)))) (\<lambda>_.
         bindE (write_node blake3 right_block (internal_of (drop (mid + 1) entries) rightmost)) (\<lambda>_.
           retE (left_block, right_block, fst (entries ! mid)))))))"

fun fixup_path_split :: "(bytes \<Rightarrow> bytes) \<Rightarrow> path \<Rightarrow> nat \<Rightarrow> nat \<Rightarrow> bytes \<Rightarrow> nat list \<Rightarrow>
    ('a alloc_io_scheme, fs_error, nat \<times> nat list) op" where
  "fixup_path_split blake3 [] left right split_key old_blocks =
     bindE (alloc_blocks 1) (\<lambda>root_block.
     bindE (write_node blake3 root_block (set_internal_entry (new_node BTREE_INTERNAL 1 right) 0 split_key left)) (\<lambda>_.
       retE (root_block, old_blocks)))"
| "fixup_path_split blake3 ((parent_block, child_idx) # ups) left right split_key old_blocks =
     bindE (read_node blake3 parent_block) (\<lambda>buf.
       let hdr = read_header buf
       in if num_entries hdr < MAX_INTERNAL_KEYS
          then bindE (alloc_blocks 1) (\<lambda>new_parent.
               bindE (write_node blake3 new_parent (add_split buf hdr split_key left right)) (\<lambda>_.
                 fixup_path blake3 ups new_parent (old_blocks @ [parent_block])))
          else bindE (split_internal blake3 buf hdr split_key left right) (\<lambda>(int_left, int_right, int_split_key).
                 fixup_path_split blake3 ups int_left int_right int_split_key (old_blocks @ [parent_block])))"

definition split_leaf :: "(bytes \<Rightarrow> bytes) \<Rightarrow> bytes \<Rightarrow> node_header \<Rightarrow> btree_entry \<Rightarrow>
    ('a alloc_io_scheme, fs_error, nat \<times> nat \<times> bytes) op" where
  "split_leaf blake3 buf hdr new_entry =
     (let entries = with_entry new_entry False (map (leaf_entry buf) [0..<num_entries hdr]);
          mid = (num_entries hdr + 1) div 2
      in bindE (alloc_blocks 1) (\<lambda>left_block.
         bindE (alloc_blocks 1) (\<lambda>right_block.
         bindE (write_node blake3 left_block (leaf_of (take mid entries))) (\<lambda>_.
         bindE (write_node blake3 right_block (leaf_of (drop mid entries))) (\<lambda>_.
           retE (left_block, right_block, e_hash (entries ! mid)))))))"

definition insert_first :: "(bytes \<Rightarrow> bytes) \<Rightarrow> btree_entry \<Rightarrow> ('a alloc_io_scheme, fs_error, nat \<times> nat list \<times> bool) op" where
  "insert_first blake3 entry =
     bindE (alloc_blocks 1) (\<lambda>new_block.
       let buf = make_empty_leaf; buf = write_header buf ((read_header buf)\<lparr>num_entries := 1\<rparr>);
           buf = set_leaf_entry buf 0 entry
       in bindE (write_node blake3 new_block buf) (\<lambda>_. retE (new_block, [], True)))"

definition insert_leaf :: "(bytes \<Rightarrow> bytes) \<Rightarrow> btree_entry \<Rightarrow> path \<Rightarrow> nat \<Rightarrow> bytes \<Rightarrow>
    ('a alloc_io_scheme, fs_error, nat \<times> nat list) op" where
  "insert_leaf blake3 entry ups block buf =
     (let hdr = read_header buf
      in if num_entries hdr < MAX_LEAF_ENTRIES
         then let pos = find_leaf_insert_pos buf hdr (e_hash entry)
              in bindE (alloc_blocks 1) (\<lambda>new_block.
                 bindE (write_node blake3 new_block (insert_leaf_entry buf hdr pos entry)) (\<lambda>_.
                   fixup_path blake3 ups new_block [block]))
         else bindE (split_leaf blake3 buf hdr entry) (\<lambda>(left, right, split_key).
                fixup_path_split blake3 ups left right split_key [block]))"

definition btree_insert :: "(bytes \<Rightarrow> bytes) \<Rightarrow> nat \<Rightarrow> btree_entry \<Rightarrow> ('a alloc_io_scheme, fs_error, nat \<times> nat list \<times> bool) op" where
  "btree_insert blake3 root entry =
     (if root = 0 then insert_first blake3 entry
      else bindE (descend blake3 (e_hash entry) [] root) (\<lambda>(ups, block, buf).
        if \<exists>e \<in> set (map (leaf_entry buf) [0..<num_entries (read_header buf)]). e_hash e = e_hash entry
        then retE (root, [], False)
        else bindE (insert_leaf blake3 entry ups block buf) (\<lambda>(root_out, frees). retE (root_out, frees, True))))"

fun remove_from_parent :: "(bytes \<Rightarrow> bytes) \<Rightarrow> path \<Rightarrow> nat list \<Rightarrow> ('a alloc_io_scheme, fs_error, nat \<times> nat list) op" where
  "remove_from_parent blake3 [] old_blocks = retE (0, old_blocks)"
| "remove_from_parent blake3 ((parent_block, child_idx) # ups) old_blocks =
     bindE (read_node blake3 parent_block) (\<lambda>buf.
       let hdr = read_header buf; n = num_entries hdr
       in if n \<le> 1 \<and> ups = []
          then retE (if child_idx = 0 then (if n > 0 then right_child hdr else 0) else internal_child buf 0,
                     old_blocks @ [parent_block])
          else bindE (alloc_blocks 1) (\<lambda>new_parent.
               bindE (write_node blake3 new_parent (drop_child buf hdr child_idx)) (\<lambda>_.
                 fixup_path blake3 ups new_parent (old_blocks @ [parent_block]))))"

definition btree_delete :: "(bytes \<Rightarrow> bytes) \<Rightarrow> nat \<Rightarrow> bytes \<Rightarrow> ('a alloc_io_scheme, fs_error, nat \<times> nat list) op" where
  "btree_delete blake3 root key =
     (if root = 0 then throwE ObjectNotFound
      else bindE (descend blake3 key [] root) (\<lambda>(ups, block, buf).
        let hdr = read_header buf
        in case leaf_position buf hdr key of
             None \<Rightarrow> throwE ObjectNotFound
           | Some pos \<Rightarrow>
               if num_entries hdr = 1 \<and> ups \<noteq> [] then remove_from_parent blake3 ups [block]
               else bindE (alloc_blocks 1) (\<lambda>new_block.
                    bindE (write_node blake3 new_block (remove_leaf_entry buf hdr pos)) (\<lambda>_.
                      if ups = [] \<and> num_entries hdr = 1 then retE (0, [block])
                      else fixup_path blake3 ups new_block [block]))))"

text \<open>The walk, as the list of what it reports.\<close>

datatype walk = Entry btree_entry | Child nat | Skip nat string

definition node_children :: "bytes \<Rightarrow> node_header \<Rightarrow> nat list" where
  "node_children buf hdr = filter (\<lambda>c. c \<noteq> 0)
     (map (internal_child buf) [0..<min (num_entries hdr) MAX_INTERNAL_KEYS] @ [right_child hdr])"

lemma length_node_children: "length (node_children buf hdr) \<le> 102"
  using length_filter_le [of "\<lambda>c. c \<noteq> 0" "map (internal_child buf) [0..<min (num_entries hdr) MAX_INTERNAL_KEYS] @ [right_child hdr]"]
  by (simp add: node_children_def)

lemma children_weight:
  assumes "\<not> 64 < depth"
  shows "sum_list (map ((\<lambda>(_, d). 103 ^ (66 - d)) \<circ> (\<lambda>c. (c, Suc depth))) (node_children buf hdr)) < (103 :: nat) ^ (66 - depth)"
proof -
  have d: "66 - depth = Suc (65 - depth)" using assms by simp
  have "sum_list (map ((\<lambda>(_, d). 103 ^ (66 - d)) \<circ> (\<lambda>c. (c, Suc depth))) cs) = length cs * (103 :: nat) ^ (65 - depth)" for cs :: "nat list"
    by (induction cs) auto
  moreover have "length (node_children buf hdr) * 103 ^ (65 - depth) < 103 * (103 :: nat) ^ (65 - depth)"
    using length_node_children [of buf hdr] by simp
  ultimately show ?thesis unfolding d by simp
qed

function walk_loop :: "(bytes \<Rightarrow> bytes) \<Rightarrow> (nat \<times> nat) list \<Rightarrow> nat set \<Rightarrow> 'a io_scheme \<Rightarrow> walk list \<times> 'a io_scheme" where
  "walk_loop blake3 [] seen m = ([], m)"
| "walk_loop blake3 ((block, depth) # todo) seen m =
     (if depth > 64 then apfst ((#) (Skip block ''deeper than 64'')) (walk_loop blake3 todo seen m)
      else if block \<in> seen then apfst ((#) (Skip block ''visited twice'')) (walk_loop blake3 todo seen m)
      else case read_node blake3 block m of
             (Inl e, m1) \<Rightarrow>
               apfst ((#) (Skip block (if e = Corrupt then ''fails its checksum'' else ''unreadable'')))
                 (walk_loop blake3 todo (insert block seen) m1)
           | (Inr buf, m1) \<Rightarrow>
               let hdr = read_header buf
               in if h_magic hdr \<noteq> BTREE_NODE_MAGIC
                  then apfst ((#) (Skip block ''bad magic'')) (walk_loop blake3 todo (insert block seen) m1)
                  else if node_type hdr = BTREE_LEAF
                    then apfst ((@) (map (\<lambda>i. Entry (leaf_entry buf i)) [0..<min (num_entries hdr) MAX_LEAF_ENTRIES]))
                           (walk_loop blake3 todo (insert block seen) m1)
                  else if node_type hdr = BTREE_INTERNAL
                    then apfst ((@) (map Child (node_children buf hdr)))
                           (walk_loop blake3 (map (\<lambda>c. (c, depth + 1)) (node_children buf hdr) @ todo) (insert block seen) m1)
                  else apfst ((#) (Skip block ''bad node type'')) (walk_loop blake3 todo (insert block seen) m1))"
  by pat_completeness auto
termination
  by (relation "measure (\<lambda>(_, todo, _, _). sum_list (map (\<lambda>(_, d). 103 ^ (66 - d)) todo))") (auto intro: children_weight)

declare walk_loop.simps [simp del]

definition walk_from :: "(bytes \<Rightarrow> bytes) \<Rightarrow> nat \<Rightarrow> nat \<Rightarrow> 'a io_scheme \<Rightarrow> walk list \<times> 'a io_scheme" where
  "walk_from blake3 root depth m = walk_loop blake3 [(root, depth)] {} m"

definition iter_all :: "(bytes \<Rightarrow> bytes) \<Rightarrow> nat \<Rightarrow> 'a io_scheme \<Rightarrow> btree_entry list \<times> 'a io_scheme" where
  "iter_all blake3 root m =
     (if root = 0 then ([], m)
      else case walk_from blake3 root 0 m of (ws, m') \<Rightarrow> (List.map_filter (\<lambda>w. case w of Entry e \<Rightarrow> Some e | _ \<Rightarrow> None) ws, m'))"

definition collect_for_fsck :: "(bytes \<Rightarrow> bytes) \<Rightarrow> nat \<Rightarrow> 'a io_scheme \<Rightarrow>
    (nat list \<times> btree_entry list \<times> (nat \<times> string) list) \<times> 'a io_scheme" where
  "collect_for_fsck blake3 root m =
     (if root = 0 then (([], [], []), m)
      else case walk_from blake3 root 0 m of (ws, m') \<Rightarrow>
        ((root # List.map_filter (\<lambda>w. case w of Child c \<Rightarrow> Some c | _ \<Rightarrow> None) ws,
          List.map_filter (\<lambda>w. case w of Entry e \<Rightarrow> Some e | _ \<Rightarrow> None) ws,
          List.map_filter (\<lambda>w. case w of Skip b why \<Rightarrow> Some (b, why) | _ \<Rightarrow> None) ws), m'))"

section \<open>Reading and copying blocks\<close>

text \<open>\<open>cow m m'\<close>: blocks that were not free in \<open>m\<close> keep their contents, and no block becomes free.\<close>

definition cow :: "(bytes \<Rightarrow> bool) \<Rightarrow> 'a alloc_io_scheme \<Rightarrow> 'a alloc_io_scheme \<Rightarrow> bool" where
  "cow chk m m' \<longleftrightarrow> cache_inv chk m' \<and> bm_inv (bmap m') \<and> tracks (bmap m) (bmap m') \<and>
     free_blocks (bmap m') \<subseteq> free_blocks (bmap m) \<and> trim_pending (bmap m') = trim_pending (bmap m) \<and>
     alloc_io.more m' = alloc_io.more m \<and> (\<forall>b. b \<notin> free_blocks (bmap m) \<longrightarrow> view m' b = view m b) \<and>
     (\<forall>B. free_blocks (bmap m) \<inter> {bm_data_start (bmap m)..} \<subseteq> B \<longrightarrow> calm B m m')"

lemma cow_refl: "cache_inv chk m \<Longrightarrow> bm_inv (bmap m) \<Longrightarrow> cow chk m m"
  by (simp add: cow_def)

lemma cow_trans [trans]: "cow chk m m' \<Longrightarrow> cow chk m' m'' \<Longrightarrow> cow chk m m''"
proof -
  assume a: "cow chk m m'" and b: "cow chk m' m''"
  have ds: "bm_data_start (bmap m') = bm_data_start (bmap m)" using a by (simp add: cow_def tracks_def same_layout_def)
  have sub: "free_blocks (bmap m') \<subseteq> free_blocks (bmap m)" using a by (simp add: cow_def)
  have "calm B m m''" if "free_blocks (bmap m) \<inter> {bm_data_start (bmap m)..} \<subseteq> B" for B
  proof -
    have "free_blocks (bmap m') \<inter> {bm_data_start (bmap m')..} \<subseteq> B" using that sub unfolding ds by blast
    then have "calm B m m'" "calm B m' m''" using a b that by (simp_all add: cow_def)
    then show ?thesis by (rule calm_trans)
  qed
  moreover have "view m'' c = view m c" if "c \<notin> free_blocks (bmap m)" for c using a b sub that by (auto simp: cow_def)
  moreover have "tracks (bmap m) (bmap m'')" using a b tracks_trans by (auto simp: cow_def)
  moreover have "free_blocks (bmap m'') \<subseteq> free_blocks (bmap m)" using b sub by (auto simp: cow_def)
  ultimately show ?thesis using a b by (simp add: cow_def)
qed

lemma cowD:
  assumes "cow chk m m'"
  shows "cache_inv chk m'" "bm_inv (bmap m')" "free_blocks (bmap m') \<subseteq> free_blocks (bmap m)"
    "b \<notin> free_blocks (bmap m) \<Longrightarrow> view m' b = view m b"
  using assms by (auto simp: cow_def)

lemma cow_quiet:
  assumes "bm_inv (bmap m)" and "cache_inv chk m'" and "view m' = view m" and "\<And>B. quiet B m m'"
  shows "cow chk m m'"
  using assms(1-3) quiet_bmap [OF assms(4)] assms(4) unfolding cow_def quiet_calm by auto

lemma data_start_pos: "bm_inv bm \<Longrightarrow> b < bm_total bm \<Longrightarrow> 0 < bm_data_start bm"
proof -
  assume inv: "bm_inv bm" and b: "b < bm_total bm"
  have "bm_total bm \<le> 8 * div_ceil (bm_total bm) 8" "div_ceil (bm_total bm) 8 \<le> BLOCK_SIZE * div_ceil (div_ceil (bm_total bm) 8) BLOCK_SIZE"
    by (rule div_ceil_ge; simp add: BLOCK_SIZE_def)+
  then have "0 < bm_count bm" using inv b unfolding bm_inv_def by (metis bot_nat_0.not_eq_extremum le_zero_eq mult_0_right not_less_zero)
  then show ?thesis using inv by (auto simp: bm_inv_def)
qed

lemma alloc_one:
  assumes inv: "cache_inv chk m" "bm_inv (bmap m)"
  shows "wpE (alloc_blocks 1) (\<lambda>b m'. cow chk m m' \<and> b \<in> free_blocks (bmap m) \<and> free_blocks (bmap m') = free_blocks (bmap m) - {b} \<and>
        bm_data_start (bmap m) \<le> b \<and> 0 < b \<and> b < 2 ^ 64 \<and> view m' = view m)
      (\<lambda>e m'. e = DiskFull \<and> m' = m) m"
proof (rule wpE_I)
  fix b m' assume "alloc_blocks 1 m = (Inr b, m')"
  then obtain bm where al: "bm_alloc 1 (bmap m) = (Inr b, bm)" and m': "m' = m\<lparr>bmap := bm\<rparr>"
    by (auto simp: alloc_blocks_def split: prod.splits)
  note a = bm_alloc_Inr [OF inv(2) al]
  note t = take_run_result [OF inv(2) a(4,2,3,5)]
  have b: "b \<in> free_blocks (bmap m)" "free_blocks bm = free_blocks (bmap m) - {b}" using t(3,4) by auto
  have "b < bm_total (bmap m)" "bm_total (bmap m) < 2 ^ 64" using b(1) inv(2) by (auto simp: free_blocks_iff bm_inv_def)
  moreover from this have "0 < bm_data_start (bmap m)" using data_start_pos inv(2) by blast
  ultimately show "cow chk m m' \<and> b \<in> free_blocks (bmap m) \<and> free_blocks (bmap m') = free_blocks (bmap m) - {b} \<and>
        bm_data_start (bmap m) \<le> b \<and> 0 < b \<and> b < 2 ^ 64 \<and> view m' = view m"
    using b a(2) t(1,2,3,5) inv(1) by (auto simp: m' cow_def)
next
  fix e m' assume "alloc_blocks 1 m = (Inl e, m')"
  then obtain bm where al: "bm_alloc 1 (bmap m) = (Inl e, bm)" and m': "m' = m\<lparr>bmap := bm\<rparr>"
    by (auto simp: alloc_blocks_def split: prod.splits)
  then show "e = DiskFull \<and> m' = m" using bm_alloc_Inl(1,2) [OF inv(2) al] by simp
qed

lemma cache_error:
  "on_dev f m = (Inl e, m') \<Longrightarrow> \<exists>d. e = Disk d"
  "cache_take b m = (Inl e, m') \<Longrightarrow> e = OutOfMemory \<or> (\<exists>d. e = Disk d)"
  "cache_read b m = (Inl e, m') \<Longrightarrow> e = OutOfMemory \<or> (\<exists>d. e = Disk d)"
proof -
  show dev: "\<exists>d. e = Disk d" if "on_dev f m = (Inl e, m')" for f :: "(block_device, blk_error, 'c) op" and m m' :: "'d io_scheme"
    using that by (auto simp: on_dev_def split: prod.splits sum.splits)
  show take: "e = OutOfMemory \<or> (\<exists>d. e = Disk d)" if "cache_take b m = (Inl e, m')" for m m' :: "'d io_scheme"
    using that dev
    by (fastforce simp: cache_take_def bindE_def find_slot_def evict_tail_def writeback_def Let_def
        split: sum.splits prod.splits option.splits if_splits)
  show "e = OutOfMemory \<or> (\<exists>d. e = Disk d)" if "cache_read b m = (Inl e, m')"
    using that take dev by (fastforce simp: cache_read_def bindE_def Let_def split: sum.splits prod.splits option.splits)
qed

lemma read_node_spec:
  assumes inv: "cache_inv (verify_node_checksum h) m" "bm_inv (bmap m)" and b: "b < 2 ^ 64"
  shows "wpE (read_node h b)
    (\<lambda>buf m'. buf = view m b \<and> verify_node_checksum h buf \<and> cow (verify_node_checksum h) m m' \<and> view m' = view m \<and> bmap m' = bmap m)
    (\<lambda>e m'. (e = Corrupt \<and> \<not> verify_node_checksum h (view m b) \<or> e = OutOfMemory \<or> (\<exists>d. e = Disk d)) \<and>
       cow (verify_node_checksum h) m m' \<and> view m' = view m \<and> bmap m' = bmap m) m"
proof -
  obtain r m1 where rc: "read_checked b (verify_node_checksum h) m = (r, m1)" by fastforce
  note sp = read_checked_spec [OF inv(1) b rc]
  have fr: "cow (verify_node_checksum h) m m1" "view m1 = view m" "bmap m1 = bmap m"
    using cow_quiet [OF inv(2) sp(1-3)] sp(2) quiet_bmap [OF sp(3)] by auto
  show ?thesis
  proof (cases r)
    case (Inl e)
    then have "e = OutOfMemory \<or> (\<exists>d. e = Disk d)"
      using rc cache_error(3) [of b m e m1] by (auto simp: read_checked_def bindE_def split: sum.splits prod.splits option.splits if_splits)
    then show ?thesis using fr rc Inl by (simp add: read_node_def wpE_def bindE_def)
  next
    case (Inr p)
    obtain buf ok where p: "p = (buf, ok)" by fastforce
    then have "buf = view m b" "ok = verify_node_checksum h (view m b)" using sp(4) Inr by blast+
    then show ?thesis using fr rc Inr p by (auto simp: read_node_def wpE_def bindE_def retE_def throwE_def)
  qed
qed

lemma write_node_spec:
  assumes inv: "cache_inv (verify_node_checksum h) m" "bm_inv (bmap m)" and b: "b < 2 ^ 64" "b \<notin> free_blocks (bmap m)"
    and buf: "length buf = BLOCK_SIZE" and hash: "\<And>x. length (h x) = 32"
  shows "wpE (write_node h b buf)
    (\<lambda>_ m'. cache_inv (verify_node_checksum h) m' \<and> view m' = (view m)(b := write_node_checksum h buf) \<and> bmap m' = bmap m \<and>
       alloc_io.more m' = alloc_io.more m \<and> (\<forall>B. b \<in> B \<longrightarrow> calm B m m'))
    (\<lambda>e m'. (e = OutOfMemory \<or> (\<exists>d. e = Disk d)) \<and> cache_inv (verify_node_checksum h) m' \<and> view m' = view m \<and> bmap m' = bmap m \<and>
       alloc_io.more m' = alloc_io.more m \<and> (\<forall>B. b \<in> B \<longrightarrow> calm B m m')) m"
proof -
  let ?b = "write_node_checksum h buf"
  have ok: "length ?b = BLOCK_SIZE" "True \<longrightarrow> verify_node_checksum h ?b"
    using length_write_node_checksum [of buf h, OF buf hash] verify_write_node_checksum [of buf h, OF buf hash] by auto
  obtain r m1 where w: "write_as b ?b True m = (r, m1)" by fastforce
  note sp = write_as_spec [OF inv(1) b(1) ok w]
  have q: "bmap m1 = bmap m" "alloc_io.more m1 = alloc_io.more m" "\<forall>B. b \<in> B \<longrightarrow> calm B m m1"
    using quiet_bmap [OF sp(4) [of "{b}"]] sp(4) by (auto simp: quiet_calm)
  have "e = OutOfMemory \<or> (\<exists>d. e = Disk d)" if "r = Inl e" for e
    using w that cache_error(2) [of b m e m1] by (auto simp: write_as_def bindE_def split: sum.splits prod.splits option.splits)
  then show ?thesis using sp q w unfolding write_node_def write_checked_def wpE_def by (cases r) auto
qed

text \<open>The errors of a device that fails or a store that is full, as opposed to a damaged tree.\<close>

definition env_error :: "fs_error \<Rightarrow> bool" where
  "env_error e \<longleftrightarrow> e = DiskFull \<or> e = OutOfMemory \<or> (\<exists>d. e = Disk d)"

text \<open>A run that allocated exactly the blocks \<open>new\<close>, and a block allocated since the state \<open>m0\<close>.\<close>

definition grown :: "'a alloc_io_scheme \<Rightarrow> nat list \<Rightarrow> 'a alloc_io_scheme \<Rightarrow> bool" where
  "grown m new m' \<longleftrightarrow> distinct new \<and> set new \<subseteq> free_blocks (bmap m) \<and> free_blocks (bmap m') = free_blocks (bmap m) - set new"

definition fresh :: "'a alloc_io_scheme \<Rightarrow> 'a alloc_io_scheme \<Rightarrow> nat \<Rightarrow> bool" where
  "fresh m0 m b \<longleftrightarrow> b \<in> free_blocks (bmap m0) \<and> bm_data_start (bmap m0) \<le> b \<and> b \<notin> free_blocks (bmap m) \<and> 0 < b \<and> b < 2 ^ 64"

lemma grown_refl: "bmap m' = bmap m \<Longrightarrow> grown m [] m'"
  by (simp add: grown_def)

lemma grown_trans: "grown m xs m' \<Longrightarrow> grown m' ys m'' \<Longrightarrow> grown m (xs @ ys) m''"
  by (auto simp: grown_def)

lemma grown_same: "grown m xs m' \<Longrightarrow> bmap m'' = bmap m' \<Longrightarrow> grown m xs m''"
  by (simp add: grown_def)

lemma fresh_same: "fresh m0 m b \<Longrightarrow> bmap m' = bmap m \<Longrightarrow> fresh m0 m' b"
  by (simp add: fresh_def)

lemma fresh_cow: "fresh m0 m b \<Longrightarrow> cow chk m m' \<Longrightarrow> fresh m0 m' b"
  by (auto simp: fresh_def dest: cowD)

lemma alloc_wp:
  assumes c: "cow chk m0 m"
    and k: "\<And>b m'. cow chk m0 m' \<Longrightarrow> grown m [b] m' \<Longrightarrow> fresh m0 m' b \<Longrightarrow> view m' = view m \<Longrightarrow> wpE (k b) Q R m'"
    and e: "\<And>e m'. env_error e \<Longrightarrow> cow chk m0 m' \<Longrightarrow> R e m'"
  shows "wpE (bindE (alloc_blocks 1) k) Q R m"
  unfolding wpE_bind
proof (rule wpE_mono [OF alloc_one [OF cowD(1,2) [OF c]]])
  fix b m'
  assume a: "cow chk m m' \<and> b \<in> free_blocks (bmap m) \<and> free_blocks (bmap m') = free_blocks (bmap m) - {b} \<and>
    bm_data_start (bmap m) \<le> b \<and> 0 < b \<and> b < 2 ^ 64 \<and> view m' = view m"
  have "bm_data_start (bmap m) = bm_data_start (bmap m0)" using c by (simp add: cow_def tracks_def same_layout_def)
  then show "wpE (k b) Q R m'" by (intro k cow_trans [OF c]) (use a cowD(3) [OF c] in \<open>auto simp: grown_def fresh_def\<close>)
next
  fix e m' assume "e = DiskFull \<and> m' = m"
  then show "R e m'" using e [of e m] c by (simp add: env_error_def)
qed

lemma write_wp:
  assumes c: "cow (verify_node_checksum h) m0 m" and b: "fresh m0 m b"
    and buf: "length buf = BLOCK_SIZE" and hash: "\<And>x. length (h x) = 32"
    and k: "\<And>m'. cow (verify_node_checksum h) m0 m' \<Longrightarrow> bmap m' = bmap m \<Longrightarrow> view m' = (view m)(b := write_node_checksum h buf) \<Longrightarrow>
      wpE k Q R m'"
    and e: "\<And>e m'. env_error e \<Longrightarrow> cow (verify_node_checksum h) m0 m' \<Longrightarrow> R e m'"
  shows "wpE (bindE (write_node h b buf) (\<lambda>_. k)) Q R m"
proof -
  have b': "b < 2 ^ 64" "b \<notin> free_blocks (bmap m)" "b \<in> free_blocks (bmap m0)" using b by (auto simp: fresh_def)
  have step: "cow (verify_node_checksum h) m0 m'"
    if "cache_inv (verify_node_checksum h) m'" "\<forall>x. x \<noteq> b \<longrightarrow> view m' x = view m x" "bmap m' = bmap m"
      "alloc_io.more m' = alloc_io.more m" "\<forall>B. b \<in> B \<longrightarrow> calm B m m'" for m'
  proof -
    have "calm B m0 m'" if B: "free_blocks (bmap m0) \<inter> {bm_data_start (bmap m0)..} \<subseteq> B" for B
    proof -
      have "b \<in> B" using B b by (auto simp: fresh_def)
      then show ?thesis using c B calm_trans [of B m0 m m'] \<open>\<forall>B. b \<in> B \<longrightarrow> calm B m m'\<close> by (auto simp: cow_def)
    qed
    moreover have "view m' x = view m0 x" if "x \<notin> free_blocks (bmap m0)" for x
    proof -
      have "x \<noteq> b" using that b'(3) by blast
      then show ?thesis using that cowD(4) [OF c that] \<open>\<forall>x. x \<noteq> b \<longrightarrow> view m' x = view m x\<close> by simp
    qed
    ultimately show ?thesis using that c by (simp add: cow_def)
  qed
  show ?thesis unfolding wpE_bind
  proof (rule wpE_mono [OF write_node_spec [OF cowD(1,2) [OF c] b'(1,2) buf hash]])
    fix u m' assume m': "cache_inv (verify_node_checksum h) m' \<and> view m' = (view m)(b := write_node_checksum h buf) \<and> bmap m' = bmap m \<and>
       alloc_io.more m' = alloc_io.more m \<and> (\<forall>B. b \<in> B \<longrightarrow> calm B m m')"
    show "wpE k Q R m'" by (rule k) (use m' step [of m'] in auto)
  next
    fix e m' assume m': "(e = OutOfMemory \<or> (\<exists>d. e = Disk d)) \<and> cache_inv (verify_node_checksum h) m' \<and> view m' = view m \<and> bmap m' = bmap m \<and>
       alloc_io.more m' = alloc_io.more m \<and> (\<forall>B. b \<in> B \<longrightarrow> calm B m m')"
    show "R e m'" by (rule e) (use m' step [of m'] in \<open>auto simp: env_error_def\<close>)
  qed
qed

lemma read_wp:
  assumes c: "cow (verify_node_checksum h) m0 m" and b: "b < 2 ^ 64" "verify_node_checksum h (view m b)"
    and k: "\<And>m'. cow (verify_node_checksum h) m0 m' \<Longrightarrow> bmap m' = bmap m \<Longrightarrow> view m' = view m \<Longrightarrow> wpE (k (view m b)) Q R m'"
    and e: "\<And>e m'. env_error e \<Longrightarrow> cow (verify_node_checksum h) m0 m' \<Longrightarrow> R e m'"
  shows "wpE (bindE (read_node h b) k) Q R m"
  unfolding wpE_bind
  by (rule wpE_mono [OF read_node_spec [OF cowD(1,2) [OF c] b(1)]]) (use k e cow_trans [OF c] b(2) in \<open>auto simp: env_error_def\<close>)

end
