(* ===== verification/Btree_Trees.thy ===== *)
theory Btree_Trees
  imports Btree "HOL-Library.Multiset"
begin

text \<open>
  What the B-tree operations do to a tree. A tree of blocks is a tree of lists carrying its block
  numbers; \<open>flat\<close> is the sequence of its separators and entries from left to right, and every
  operation is specified by what it does to that sequence and to the multiset of blocks.
\<close>

section \<open>Trees of blocks\<close>

datatype btree = BLeaf nat "btree_entry list" | BNode nat "(bytes \<times> btree) list" btree

fun root :: "btree \<Rightarrow> nat" where
  "root (BLeaf b es) = b"
| "root (BNode b kts t) = b"

fun blocks :: "btree \<Rightarrow> nat list" where
  "blocks (BLeaf b es) = [b]"
| "blocks (BNode b kts t) = b # concat (map (\<lambda>kt. blocks (snd kt)) kts) @ blocks t"

fun entries :: "btree \<Rightarrow> btree_entry list" where
  "entries (BLeaf b es) = es"
| "entries (BNode b kts t) = concat (map (\<lambda>kt. entries (snd kt)) kts) @ entries t"

fun flat :: "btree \<Rightarrow> (bytes + btree_entry) list" where
  "flat (BLeaf b es) = map Inr es"
| "flat (BNode b kts t) = concat (map (\<lambda>kt. flat (snd kt) @ [Inl (fst kt)]) kts) @ flat t"

fun height :: "btree \<Rightarrow> nat" where
  "height (BLeaf b es) = 1"
| "height (BNode b kts t) = Suc (Max (set (height t # map (\<lambda>kt. height (snd kt)) kts)))"

text \<open>A search tree: the sequence is strictly sorted, a separator before an entry of the same key.\<close>

definition fkey :: "bytes + btree_entry \<Rightarrow> bytes \<times> bool" where
  "fkey x = (case x of Inl k \<Rightarrow> (k, False) | Inr e \<Rightarrow> (e_hash e, True))"

definition ordered :: "(bytes + btree_entry) list \<Rightarrow> bool" where
  "ordered xs \<longleftrightarrow> sorted_wrt (\<lambda>x y. fkey x < fkey y) xs"

definition search_tree :: "btree \<Rightarrow> bool" where
  "search_tree t \<longleftrightarrow> ordered (flat t)"

text \<open>The blocks hold the tree.\<close>

fun rep :: "(bytes \<Rightarrow> bool) \<Rightarrow> (nat \<Rightarrow> bytes) \<Rightarrow> btree \<Rightarrow> bool" where
  "rep chk v (BLeaf b es) \<longleftrightarrow> b < 2 ^ 64 \<and> chk (v b) \<and> is_leaf (v b) es"
| "rep chk v (BNode b kts t) \<longleftrightarrow> b < 2 ^ 64 \<and> chk (v b) \<and> is_node (v b) (map (map_prod id root) kts) (root t) \<and>
     (\<forall>kt \<in> set kts. rep chk v (snd kt)) \<and> rep chk v t"

definition stored :: "(bytes \<Rightarrow> bool) \<Rightarrow> 'a alloc_io_scheme \<Rightarrow> btree \<Rightarrow> bool" where
  "stored chk m t \<longleftrightarrow> rep chk (view m) t \<and> set (blocks t) \<inter> free_blocks (bmap m) = {}"

lemma root_in_blocks: "root t \<in> set (blocks t)"
  by (cases t) auto

lemma rep_root: "rep chk v t \<Longrightarrow> root t < 2 ^ 64 \<and> chk (v (root t))"
  by (cases t) auto

text \<open>Induction with the children as pairs.\<close>

lemma btree_induct [case_names BLeaf BNode]:
  assumes "\<And>b es. P (BLeaf b es)" and "\<And>b kts t. (\<And>kt. kt \<in> set kts \<Longrightarrow> P (snd kt)) \<Longrightarrow> P t \<Longrightarrow> P (BNode b kts t)"
  shows "P t"
  by (rule btree.induct [of P]) (use assms in \<open>auto simp: snds.simps\<close>)

lemma rep_cong: "rep chk v t \<Longrightarrow> (\<And>b. b \<in> set (blocks t) \<Longrightarrow> v' b = v b) \<Longrightarrow> rep chk v' t"
  by (induction t rule: btree_induct) auto

lemma stored_cow: "stored chk m t \<Longrightarrow> cow chk m m' \<Longrightarrow> stored chk m' t"
  by (fastforce simp: stored_def dest: cowD intro: rep_cong)

lemma stored_same: "stored chk m t \<Longrightarrow> bmap m' = bmap m \<Longrightarrow> (\<And>b. b \<in> set (blocks t) \<Longrightarrow> view m' b = view m b) \<Longrightarrow> stored chk m' t"
  by (auto simp: stored_def intro: rep_cong)

lemma stored_leaf: "stored chk m (BLeaf b es) \<longleftrightarrow> b < 2 ^ 64 \<and> chk (view m b) \<and> is_leaf (view m b) es \<and> b \<notin> free_blocks (bmap m)"
  by (auto simp: stored_def)

lemma stored_node:
  "stored chk m (BNode b kts t) \<longleftrightarrow> b < 2 ^ 64 \<and> chk (view m b) \<and> is_node (view m b) (map (map_prod id root) kts) (root t) \<and>
     b \<notin> free_blocks (bmap m) \<and> (\<forall>kt \<in> set kts. stored chk m (snd kt)) \<and> stored chk m t"
  by (auto simp: stored_def)

lemmas stored_simps [simp] = stored_leaf stored_node

lemma height_pos: "0 < height t"
  by (cases t) auto

lemma height_le: "height (BNode b kts t) \<le> n \<longleftrightarrow> 0 < n \<and> height t \<le> n - 1 \<and> (\<forall>kt \<in> set kts. height (snd kt) \<le> n - 1)"
  by (cases n) auto

lemma entries_flat: "entries t = concat (map (case_sum (\<lambda>_. []) (\<lambda>e. [e])) (flat t))"
proof (induction t rule: btree_induct)
  case (BNode b kts t)
  have "concat (map (\<lambda>kt. entries (snd kt)) kts) =
      concat (map (case_sum (\<lambda>_. []) (\<lambda>e. [e])) (concat (map (\<lambda>kt. flat (snd kt) @ [Inl (fst kt)]) kts)))"
    using BNode.IH(1) by (induction kts) auto
  then show ?case using BNode.IH(2) by simp
qed (simp add: comp_def)

section \<open>Order\<close>

lemma ordered_append: "ordered (xs @ ys) \<longleftrightarrow> ordered xs \<and> ordered ys \<and> (\<forall>x \<in> set xs. \<forall>y \<in> set ys. fkey x < fkey y)"
  by (auto simp: ordered_def sorted_wrt_append)

lemma ordered_Cons: "ordered (x # xs) \<longleftrightarrow> ordered xs \<and> (\<forall>y \<in> set xs. fkey x < fkey y)"
  by (auto simp: ordered_def)

lemma ordered_Nil [simp]: "ordered []"
  by (simp add: ordered_def)

lemma fkey_simps [simp]: "fkey (Inl k) = (k, False)" "fkey (Inr e) = (e_hash e, True)"
  by (simp_all add: fkey_def)

text \<open>The place of a key: everything before is smaller, everything after is larger.\<close>

definition around :: "bytes \<Rightarrow> (bytes + btree_entry) list \<Rightarrow> (bytes + btree_entry) list \<Rightarrow> bool" where
  "around key xs ys \<longleftrightarrow> (\<forall>x \<in> set xs. fkey x < (key, True)) \<and> (\<forall>y \<in> set ys. (key, True) < fkey y)"

lemma around_trans: "around key xs (ms @ ys) \<Longrightarrow> around key (xs @ xs') (ys' @ ys) \<longleftrightarrow> around key xs' ys'"
  by (auto simp: around_def)

definition lookup_key :: "bytes \<Rightarrow> (bytes + btree_entry) list \<Rightarrow> btree_entry option" where
  "lookup_key key xs = find (\<lambda>e. e_hash e = key) (concat (map (case_sum (\<lambda>_. []) (\<lambda>e. [e])) xs))"

lemma find_append: "find P (xs @ ys) = (case find P xs of None \<Rightarrow> find P ys | r \<Rightarrow> r)"
  by (induction xs) auto

lemma lookup_key_append: "lookup_key key (xs @ ys) = (case lookup_key key xs of None \<Rightarrow> lookup_key key ys | r \<Rightarrow> r)"
  by (simp add: lookup_key_def find_append split: option.split)

lemma lookup_key_None: "(\<And>x. x \<in> set xs \<Longrightarrow> fkey x \<noteq> (key, True)) \<Longrightarrow> lookup_key key xs = None"
  by (fastforce simp: lookup_key_def find_None_iff split: sum.splits)

lemma lookup_key_around: "around key xs ys \<Longrightarrow> lookup_key key (xs @ ms @ ys) = lookup_key key ms"
proof -
  assume "around key xs ys"
  then have "lookup_key key xs = None" "lookup_key key ys = None" by (auto simp: around_def intro!: lookup_key_None)
  then show ?thesis by (simp add: lookup_key_append split: option.split)
qed

lemma find_entries: "find (\<lambda>e. e_hash e = key) (entries t) = lookup_key key (flat t)"
  by (simp add: lookup_key_def entries_flat)


section \<open>Paths\<close>

text \<open>A node with a hole for one of its keyed children, or for its right child. A path is the list of
  the nodes above a hole, nearest first.\<close>

datatype frame = FMid nat "(bytes \<times> btree) list" bytes "(bytes \<times> btree) list" btree | FLast nat "(bytes \<times> btree) list"

fun fill :: "frame \<Rightarrow> btree \<Rightarrow> btree" where
  "fill (FMid b ls k rs t) x = BNode b (ls @ (k, x) # rs) t"
| "fill (FLast b ls) x = BNode b ls x"

fun fblock :: "frame \<Rightarrow> nat" where
  "fblock (FMid b ls k rs t) = b"
| "fblock (FLast b ls) = b"

fun findex :: "frame \<Rightarrow> nat" where
  "findex (FMid b ls k rs t) = length ls"
| "findex (FLast b ls) = length ls"

fun reblock :: "nat \<Rightarrow> frame \<Rightarrow> frame" where
  "reblock b' (FMid b ls k rs t) = FMid b' ls k rs t"
| "reblock b' (FLast b ls) = FLast b' ls"

fun lpre :: "frame \<Rightarrow> (bytes + btree_entry) list" where
  "lpre (FMid b ls k rs t) = concat (map (\<lambda>kt. flat (snd kt) @ [Inl (fst kt)]) ls)"
| "lpre (FLast b ls) = concat (map (\<lambda>kt. flat (snd kt) @ [Inl (fst kt)]) ls)"

fun rpost :: "frame \<Rightarrow> (bytes + btree_entry) list" where
  "rpost (FMid b ls k rs t) = Inl k # flat (BNode b rs t)"
| "rpost (FLast b ls) = []"

fun siblings :: "frame \<Rightarrow> nat multiset" where
  "siblings (FMid b ls k rs t) = mset (concat (map (\<lambda>kt. blocks (snd kt)) (ls @ rs)) @ blocks t)"
| "siblings (FLast b ls) = mset (concat (map (\<lambda>kt. blocks (snd kt)) ls))"

definition plug :: "frame list \<Rightarrow> btree \<Rightarrow> btree" where
  "plug fs x = fold fill fs x"

definition steps :: "frame list \<Rightarrow> path" where
  "steps fs = map (\<lambda>f. (fblock f, findex f)) fs"

definition before :: "frame list \<Rightarrow> (bytes + btree_entry) list" where
  "before fs = concat (map lpre (rev fs))"

definition after :: "frame list \<Rightarrow> (bytes + btree_entry) list" where
  "after fs = concat (map rpost fs)"

definition ctx_blocks :: "frame list \<Rightarrow> nat multiset" where
  "ctx_blocks fs = sum_list (map (\<lambda>f. add_mset (fblock f) (siblings f)) fs)"

lemma path_simps [simp]:
  "plug [] x = x" "plug (f # fs) x = plug fs (fill f x)" "steps [] = []" "steps (f # fs) = (fblock f, findex f) # steps fs"
  "before [] = []" "before (f # fs) = before fs @ lpre f" "after [] = []" "after (f # fs) = rpost f @ after fs"
  "ctx_blocks [] = {#}" "ctx_blocks (f # fs) = add_mset (fblock f) (siblings f + ctx_blocks fs)"
  "plug (fs @ gs) x = plug gs (plug fs x)" "steps (fs @ gs) = steps fs @ steps gs"
  "before (fs @ gs) = before gs @ before fs" "after (fs @ gs) = after fs @ after gs" "length (steps fs) = length fs"
  by (simp_all add: plug_def steps_def before_def after_def ctx_blocks_def)

lemma flat_fill: "flat (fill f x) = lpre f @ flat x @ rpost f"
  by (cases f) auto

lemma flat_plug: "flat (plug fs x) = before fs @ flat x @ after fs"
  by (induction fs arbitrary: x) (simp_all add: flat_fill)

lemma blocks_fill: "mset (blocks (fill f x)) = add_mset (fblock f) (siblings f + mset (blocks x))"
  by (cases f) auto

lemma blocks_plug: "mset (blocks (plug fs x)) = ctx_blocks fs + mset (blocks x)"
  by (induction fs arbitrary: x) (simp_all add: blocks_fill)

lemma reblock_simps [simp]: "fblock (reblock b f) = b" "siblings (reblock b f) = siblings f" "lpre (reblock b f) = lpre f"
  "rpost (reblock b f) = rpost f" "root (fill f x) = fblock f"
  by (cases f; simp)+

lemma height_fill_le: "height (fill f y) \<le> n \<Longrightarrow> height x \<le> height y \<Longrightarrow> height (fill (reblock b f) x) \<le> n"
  by (cases f) (auto simp: height_le simp del: height.simps)

lemma height_fill_mono: "height x \<le> height y \<Longrightarrow> height (fill (reblock b f) x) \<le> height (fill f y)"
  by (rule height_fill_le [OF order_refl])

lemma height_plug_mono: "height x \<le> height y \<Longrightarrow> height (plug fs x) \<le> height (plug fs y)"
proof (induction fs arbitrary: x y)
  case (Cons f fs)
  have "height (fill f x) \<le> height (fill f y)" using height_fill_mono [OF Cons.prems, of "fblock f" f] by (cases f) auto
  then show ?case using Cons.IH by simp
qed simp

lemma stored_fill: "stored chk m (fill f x) \<Longrightarrow> stored chk m x"
  by (cases f) auto

lemma stored_plug: "stored chk m (plug fs x) \<Longrightarrow> stored chk m x"
  by (induction fs arbitrary: x) (auto dest: stored_fill)

section \<open>Finding the leaf for a key\<close>

lemma prefix_less:
  assumes "ordered (concat (map (\<lambda>kt. flat (snd kt) @ [Inl (fst kt)]) ls))" and "\<And>kt. kt \<in> set ls \<Longrightarrow> \<not> key < fst kt"
    and "y \<in> set (concat (map (\<lambda>kt. flat (snd kt) @ [Inl (fst kt)]) ls))"
  shows "fkey y < (key, True)"
  using assms
proof (induction ls arbitrary: y)
  case (Cons kt ls)
  have "fst kt \<le> key" using Cons.prems(2) [of kt] by (simp add: not_less)
  then have k: "(fst kt, False) < (key, True)" by (auto simp: less_prod_def)
  moreover have "fkey z < (key, True)" if "z \<in> set (flat (snd kt))" for z
    by (rule less_trans [OF _ k]) (use Cons.prems(1) that in \<open>auto simp: ordered_append\<close>)
  moreover have "fkey z < (key, True)" if "z \<in> set (concat (map (\<lambda>kt. flat (snd kt) @ [Inl (fst kt)]) ls))" for z
    by (rule Cons.IH) (use Cons.prems(1,2) that in \<open>auto simp: ordered_append ordered_Cons\<close>)
  ultimately show ?case using Cons.prems(3) by auto
qed simp

lemma suffix_less: "ordered (Inl k # ys) \<Longrightarrow> key < k \<Longrightarrow> y \<in> set (Inl k # ys) \<Longrightarrow> (key, True) < fkey y"
proof -
  assume o: "ordered (Inl k # ys)" and k: "key < k" and y: "y \<in> set (Inl k # ys)"
  have k': "(key, True) < fkey (Inl k)" using k by (simp add: less_prod_def)
  then show ?thesis
  proof (cases "y = Inl k")
    case False
    then have "fkey (Inl k) < fkey y" using o y by (simp add: ordered_Cons)
    then show ?thesis using k' less_trans by blast
  qed simp
qed

lemma find_child:
  assumes n: "is_node buf (map (map_prod id root) kts) (root t)" and r: "find_child_with_idx buf (read_header buf) key = (i, c)"
  shows "\<exists>f x. BNode b kts t = fill f x \<and> fblock f = b \<and> findex f = i \<and> c = root x \<and> x \<in> insert t (snd ` set kts) \<and>
    (search_tree (BNode b kts t) \<longrightarrow> around key (lpre f) (rpost f))"
proof -
  let ?ks = "map (map_prod id root) kts"
  note d = is_nodeD [OF n]
  have "find (\<lambda>j. key < internal_key buf j) [0..<length ?ks] = find (\<lambda>j. key < fst (?ks ! j)) [0..<length ?ks]" by (rule find_key [OF n])
  also have "\<dots> = position (\<lambda>k. key < fst k) ?ks" by (rule find_upt_position)
  also have "\<dots> = position (\<lambda>kt. key < fst kt) kts" by (induction kts) auto
  finally have f: "find (\<lambda>j. key < internal_key buf j) [0..<length kts] = position (\<lambda>kt. key < fst kt) kts" by simp
  show ?thesis
  proof (cases "position (\<lambda>kt. key < fst kt) kts")
    case None
    then have ic: "i = length kts" "c = root t" using r f d(4,5) by (auto simp: find_child_with_idx_def)
    have "around key (lpre (FLast b kts)) []" if "search_tree (BNode b kts t)"
      using prefix_less [of kts key] that None by (auto simp: around_def position_None_iff search_tree_def ordered_append)
    then show ?thesis using ic by (intro exI [of _ "FLast b kts"] exI [of _ t]) simp
  next
    case (Some j)
    note p = position_SomeD [OF Some]
    have ij: "i = j" "c = internal_child buf j" using r f d(4) Some by (auto simp: find_child_with_idx_def)
    have c: "c = root (snd (kts ! j))" using d(9) [of j] p ij by simp
    have kts: "kts = take j kts @ (fst (kts ! j), snd (kts ! j)) # drop (Suc j) kts" using p by (simp add: id_take_nth_drop)
    let ?f = "FMid b (take j kts) (fst (kts ! j)) (drop (Suc j) kts) t"
    have eq: "BNode b kts t = fill ?f (snd (kts ! j))" using kts by simp
    have "around key (lpre ?f) (rpost ?f)" if "search_tree (BNode b kts t)"
    proof -
      have o: "ordered (lpre ?f @ flat (snd (kts ! j)) @ rpost ?f)" using that unfolding search_tree_def eq flat_fill .
      have "\<not> key < fst kt" if "kt \<in> set (take j kts)" for kt using that p by (auto simp: in_set_conv_nth)
      then have "\<forall>y \<in> set (lpre ?f). fkey y < (key, True)" using prefix_less [of "take j kts" key] o by (auto simp: ordered_append)
      moreover have "ordered (rpost ?f)" using o by (simp only: ordered_append)
      then have "\<forall>y \<in> set (rpost ?f). (key, True) < fkey y" using suffix_less [of "fst (kts ! j)" _ key] p by simp
      ultimately show ?thesis by (simp add: around_def)
    qed
    moreover have "snd (kts ! j) \<in> snd ` set kts" using p by simp
    ultimately show ?thesis using eq c ij p by (intro exI [of _ ?f] exI [of _ "snd (kts ! j)"]) simp
  qed
qed

lemma child_of_fill: "search_tree (fill f x) \<Longrightarrow> search_tree x" "height x < height (fill f x)"
proof -
  show "search_tree (fill f x) \<Longrightarrow> search_tree x" by (simp add: search_tree_def flat_fill ordered_append)
  have "height (fill f x) \<le> n \<Longrightarrow> height x < n" for n by (cases f) (auto simp: height_le simp del: height.simps)
  then show "height x < height (fill f x)" by blast
qed

lemma lookup_loop_spec:
  assumes "cow (verify_node_checksum h) m0 m" and "stored (verify_node_checksum h) m t" and "search_tree t" and "height t \<le> fuel"
  shows "wpE (lookup_loop h fuel (root t) key)
    (\<lambda>r m'. r = find (\<lambda>e. e_hash e = key) (entries t) \<and> cow (verify_node_checksum h) m0 m' \<and> bmap m' = bmap m \<and> view m' = view m)
    (\<lambda>e m'. env_error e \<and> cow (verify_node_checksum h) m0 m') m"
  using assms
proof (induction t arbitrary: fuel m rule: btree_induct)
  case (BLeaf b es)
  then obtain n where "fuel = Suc n" by (cases fuel) auto
  have l: "is_leaf (view m b) es" and b: "b < 2 ^ 64" "verify_node_checksum h (view m b)" using BLeaf.prems by auto
  show ?case unfolding \<open>fuel = Suc n\<close> lookup_loop.simps root.simps
    by (rule read_wp [OF BLeaf.prems(1) b]) (use is_leafD [OF l] in \<open>simp_all add: Let_def wp\<close>)
next
  case (BNode b kts t)
  then obtain n where n: "fuel = Suc n" by (cases fuel) auto
  have l: "is_node (view m b) (map (map_prod id root) kts) (root t)" and b: "b < 2 ^ 64" "verify_node_checksum h (view m b)" using BNode.prems by auto
  obtain i c where ic: "find_child_with_idx (view m b) (read_header (view m b)) key = (i, c)" by fastforce
  obtain f x where f: "BNode b kts t = fill f x" "c = root x" "x \<in> insert t (snd ` set kts)" "around key (lpre f) (rpost f)"
    using find_child [OF l ic, of b] BNode.prems(3) by blast
  have x: "stored (verify_node_checksum h) m x" "search_tree x" "height x \<le> n"
    using BNode.prems(2-4) child_of_fill [where f = f and x = x] stored_fill [where f = f and x = x and m = m] unfolding f(1) n by auto
  have ty: "BTREE_INTERNAL \<noteq> BTREE_LEAF" by (simp add: BTREE_INTERNAL_def BTREE_LEAF_def)
  show ?case unfolding n lookup_loop.simps root.simps
  proof (rule read_wp [OF BNode.prems(1) b])
    fix m' assume m': "cow (verify_node_checksum h) m0 m'" "bmap m' = bmap m" "view m' = view m"
    have "stored (verify_node_checksum h) m' x" using x(1) m' by (simp add: stored_def)
    then have "wpE (lookup_loop h n (root x) key) (\<lambda>r m''. r = find (\<lambda>e. e_hash e = key) (entries x) \<and>
        cow (verify_node_checksum h) m0 m'' \<and> bmap m'' = bmap m' \<and> view m'' = view m') (\<lambda>e m'. env_error e \<and> cow (verify_node_checksum h) m0 m') m'"
      using BNode.IH f(3) m'(1) x by blast
    moreover have "find (\<lambda>e. e_hash e = key) (entries x) = find (\<lambda>e. e_hash e = key) (entries (BNode b kts t))"
      unfolding find_entries f(1) flat_fill using lookup_key_around [OF f(4)] by simp
    ultimately show "wpE (let hdr = read_header (view m b) in if h_magic hdr \<noteq> BTREE_NODE_MAGIC then throwE Corrupt
          else if node_type hdr = BTREE_LEAF then retE (find (\<lambda>e. e_hash e = key) (map (leaf_entry (view m b)) [0..<num_entries hdr]))
          else if node_type hdr = BTREE_INTERNAL then lookup_loop h n (find_child_block (view m b) hdr key) key else throwE Corrupt)
        (\<lambda>r m'. r = find (\<lambda>e. e_hash e = key) (entries (BNode b kts t)) \<and> cow (verify_node_checksum h) m0 m' \<and> bmap m' = bmap m \<and> view m' = view m)
        (\<lambda>e m'. env_error e \<and> cow (verify_node_checksum h) m0 m') m'"
      using is_nodeD(2,3) [OF l] ic f(2) m' ty by (simp add: Let_def find_child_block_def del: entries.simps)
  qed simp
qed

lemma descend_spec:
  assumes "cow (verify_node_checksum h) m0 m" and "stored (verify_node_checksum h) m t" and "search_tree t"
    and "length ups + height t \<le> MAX_TREE_DEPTH"
  shows "wpE (descend h key ups (root t))
    (\<lambda>(ups', block, buf) m'. (\<exists>fs es. t = plug fs (BLeaf block es) \<and> ups' = steps fs @ ups \<and> buf = view m block \<and>
        is_leaf buf es \<and> around key (before fs) (after fs)) \<and>
       cow (verify_node_checksum h) m0 m' \<and> bmap m' = bmap m \<and> view m' = view m)
    (\<lambda>e m'. env_error e \<and> cow (verify_node_checksum h) m0 m') m"
  using assms
proof (induction t arbitrary: ups m rule: btree_induct)
  case (BLeaf b es)
  have l: "is_leaf (view m b) es" and b: "b < 2 ^ 64" "verify_node_checksum h (view m b)" using BLeaf.prems by auto
  have "\<exists>fs es'. BLeaf b es = plug fs (BLeaf b es') \<and> ups = steps fs @ ups \<and> is_leaf (view m b) es' \<and> around key (before fs) (after fs)"
    by (rule exI [of _ "[]"]) (use l in \<open>simp add: around_def\<close>)
  then show ?case unfolding root.simps
    by (subst descend.simps, intro read_wp [OF BLeaf.prems(1) b]) (use is_leafD(2,3) [OF l] in \<open>simp_all add: Let_def wp\<close>)
next
  case (BNode b kts t)
  have l: "is_node (view m b) (map (map_prod id root) kts) (root t)" and b: "b < 2 ^ 64" "verify_node_checksum h (view m b)" using BNode.prems by auto
  obtain i c where ic: "find_child_with_idx (view m b) (read_header (view m b)) key = (i, c)" by fastforce
  obtain f x where f: "BNode b kts t = fill f x" "c = root x" "x \<in> insert t (snd ` set kts)" "around key (lpre f) (rpost f)" "fblock f = b" "findex f = i"
    using find_child [OF l ic, of b] BNode.prems(3) by blast
  have x: "stored (verify_node_checksum h) m x" "search_tree x" "length ((b, i) # ups) + height x \<le> MAX_TREE_DEPTH"
    using BNode.prems(2-4) child_of_fill [where f = f and x = x] stored_fill [where f = f and x = x and m = m] unfolding f(1) by auto
  have ty: "BTREE_INTERNAL \<noteq> BTREE_LEAF" by (simp add: BTREE_INTERNAL_def BTREE_LEAF_def)
  have deep: "\<not> MAX_TREE_DEPTH - 1 \<le> length ups" using x(3) height_pos [of x] by simp
  show ?case unfolding root.simps
  proof (subst descend.simps, intro read_wp [OF BNode.prems(1) b])
    fix m' assume m': "cow (verify_node_checksum h) m0 m'" "bmap m' = bmap m" "view m' = view m"
    let ?Q = "\<lambda>t ups (ups', block, buf) m''. (\<exists>fs es. t = plug fs (BLeaf block es) \<and> ups' = steps fs @ ups \<and> buf = view m block \<and>
        is_leaf buf es \<and> around key (before fs) (after fs)) \<and> cow (verify_node_checksum h) m0 m'' \<and> bmap m'' = bmap m \<and> view m'' = view m"
    let ?R = "\<lambda>e m'. env_error e \<and> cow (verify_node_checksum h) m0 m'"
    have sx: "stored (verify_node_checksum h) m' x" using x(1) m' by (simp add: stored_def)
    have "wpE (descend h key ((b, i) # ups) (root x)) (?Q x ((b, i) # ups)) ?R m'"
    proof (cases "x = t")
      case True
      then show ?thesis using BNode.IH(2) [OF m'(1), of "(b, i) # ups"] sx x(2,3) unfolding m'(2,3) by simp
    next
      case False
      then obtain kt where kt: "kt \<in> set kts" "x = snd kt" using f(3) by blast
      then show ?thesis using BNode.IH(1) [OF kt(1) m'(1), of "(b, i) # ups"] sx x(2,3) unfolding m'(2,3) by simp
    qed
    then have "wpE (descend h key ((b, i) # ups) (root x)) (?Q (BNode b kts t) ups) ?R m'"
    proof (rule wpE_mono)
      fix r m'' assume q: "?Q x ((b, i) # ups) r m''"
      obtain ups' block buf where r: "r = (ups', block, buf)" by (cases r) auto
      obtain fs es where fs: "x = plug fs (BLeaf block es)" "ups' = steps fs @ (b, i) # ups" "buf = view m block" "is_leaf buf es"
        "around key (before fs) (after fs)" using q r by auto
      have "around key (before (fs @ [f])) (after (fs @ [f]))" using fs(5) f(4) by (auto simp: around_def)
      then have "\<exists>fs es. BNode b kts t = plug fs (BLeaf block es) \<and> ups' = steps fs @ ups \<and> buf = view m block \<and>
        is_leaf buf es \<and> around key (before fs) (after fs)"
        using fs f(1,5,6) by (intro exI [of _ "fs @ [f]"] exI [of _ es]) simp
      then show "?Q (BNode b kts t) ups r m''" using q r by auto
    qed simp
    then show "wpE (let hdr = read_header (view m b) in if h_magic hdr \<noteq> BTREE_NODE_MAGIC then throwE Corrupt
          else if node_type hdr = BTREE_LEAF then retE (ups, b, view m b)
          else if node_type hdr = BTREE_INTERNAL
            then let (child_idx, child_block) = find_child_with_idx (view m b) hdr key
                 in if length ups \<ge> MAX_TREE_DEPTH - 1 then throwE TreeTooDeep
                    else descend h key ((b, child_idx) # ups) child_block
          else throwE Corrupt) (?Q (BNode b kts t) ups) ?R m'"
      using is_nodeD(2,3) [OF l] ic f(2) ty deep by (simp add: Let_def)
  qed simp
qed

section \<open>Copying a path\<close>

text \<open>New blocks with the given contents.\<close>

definition copied :: "(bytes \<Rightarrow> bytes) \<Rightarrow> 'a alloc_io_scheme \<Rightarrow> (nat \<times> bytes) list \<Rightarrow> 'a alloc_io_scheme \<Rightarrow> bool" where
  "copied h m ws m' \<longleftrightarrow> grown m (map fst ws) m' \<and> (\<forall>b. b \<notin> fst ` set ws \<longrightarrow> view m' b = view m b) \<and>
     (\<forall>(b, buf) \<in> set ws. 0 < b \<and> b < 2 ^ 64 \<and> view m' b = write_node_checksum h buf \<and> length buf = BLOCK_SIZE)"

lemma copied_stored: "copied h m ws m' \<Longrightarrow> stored (verify_node_checksum h) m y \<Longrightarrow> stored (verify_node_checksum h) m' y"
proof -
  assume w: "copied h m ws m'" and y: "stored (verify_node_checksum h) m y"
  have "view m' b = view m b" if "b \<in> set (blocks y)" for b
  proof -
    have "b \<notin> fst ` set ws" using w y that unfolding copied_def grown_def stored_def set_map by blast
    then show ?thesis using w by (simp add: copied_def)
  qed
  then show ?thesis using w y rep_cong [of _ "view m" y "view m'"] by (auto simp: stored_def copied_def grown_def)
qed

lemma copiedD:
  assumes w: "copied h m ws m'" "(nb, buf) \<in> set ws" and hash: "\<And>b. length (h b) = 32"
  shows "grown m (map fst ws) m'" "0 < nb" "nb < 2 ^ 64" "nb \<notin> free_blocks (bmap m')" "verify_node_checksum h (view m' nb)"
    "is_leaf buf es \<Longrightarrow> is_leaf (view m' nb) es" "is_node buf ks r \<Longrightarrow> is_node (view m' nb) ks r"
proof -
  have len: "length buf = BLOCK_SIZE" "view m' nb = write_node_checksum h buf" using w by (auto simp: copied_def)
  show "grown m (map fst ws) m'" "0 < nb" "nb < 2 ^ 64" using w by (auto simp: copied_def)
  show "nb \<notin> free_blocks (bmap m')" using w image_eqI [of nb fst "(nb, buf)" "set ws"] by (simp add: copied_def grown_def)
  show "verify_node_checksum h (view m' nb)" "is_leaf buf es \<Longrightarrow> is_leaf (view m' nb) es" "is_node buf ks r \<Longrightarrow> is_node (view m' nb) ks r"
    using len(2) verify_write_node_checksum [of buf h, OF len(1) hash] checksum_keeps [of buf h, OF len(1) hash] by auto
qed

lemma copy_wp:
  assumes c: "cow (verify_node_checksum h) m0 m" and buf: "length buf = BLOCK_SIZE" and hash: "\<And>b. length (h b) = 32"
    and k: "\<And>nb m'. cow (verify_node_checksum h) m0 m' \<Longrightarrow> copied h m [(nb, buf)] m' \<Longrightarrow> wpE (k nb) Q R m'"
    and e: "\<And>e m'. env_error e \<Longrightarrow> cow (verify_node_checksum h) m0 m' \<Longrightarrow> R e m'"
  shows "wpE (bindE (alloc_blocks 1) (\<lambda>b. bindE (write_node h b buf) (\<lambda>_. k b))) Q R m"
proof (rule alloc_wp [OF c])
  fix b m' assume m': "cow (verify_node_checksum h) m0 m'" "grown m [b] m'" "fresh m0 m' b" "view m' = view m"
  show "wpE (bindE (write_node h b buf) (\<lambda>_. k b)) Q R m'"
    by (rule write_wp [OF m'(1,3) buf hash]) (use k e m' buf in \<open>auto simp: copied_def grown_def fresh_def\<close>)
qed (rule e)

text \<open>Both halves of a split node.\<close>

lemma copy_two_wp:
  assumes c: "cow (verify_node_checksum h) m0 m" and buf: "length buf = BLOCK_SIZE" "length buf' = BLOCK_SIZE" and hash: "\<And>b. length (h b) = 32"
    and k: "\<And>l r m'. cow (verify_node_checksum h) m0 m' \<Longrightarrow> copied h m [(l, buf), (r, buf')] m' \<Longrightarrow> wpE (k l r) Q R m'"
    and e: "\<And>e m'. env_error e \<Longrightarrow> cow (verify_node_checksum h) m0 m' \<Longrightarrow> R e m'"
  shows "wpE (bindE (alloc_blocks 1) (\<lambda>l. bindE (alloc_blocks 1) (\<lambda>r. bindE (write_node h l buf) (\<lambda>_. bindE (write_node h r buf') (\<lambda>_. k l r))))) Q R m"
proof (rule alloc_wp [OF c])
  fix l m1 assume m1: "cow (verify_node_checksum h) m0 m1" "grown m [l] m1" "fresh m0 m1 l" "view m1 = view m"
  show "wpE (bindE (alloc_blocks 1) (\<lambda>r. bindE (write_node h l buf) (\<lambda>_. bindE (write_node h r buf') (\<lambda>_. k l r)))) Q R m1"
  proof (rule alloc_wp [OF m1(1)])
    fix r m2 assume m2: "cow (verify_node_checksum h) m0 m2" "grown m1 [r] m2" "fresh m0 m2 r" "view m2 = view m1"
    have l: "fresh m0 m2 l" using m1(3) m2(2) by (auto simp: fresh_def grown_def)
    show "wpE (bindE (write_node h l buf) (\<lambda>_. bindE (write_node h r buf') (\<lambda>_. k l r))) Q R m2"
    proof (rule write_wp [OF m2(1) l buf(1) hash])
      fix m3 assume m3: "cow (verify_node_checksum h) m0 m3" "bmap m3 = bmap m2" "view m3 = (view m2)(l := write_node_checksum h buf)"
      show "wpE (bindE (write_node h r buf') (\<lambda>_. k l r)) Q R m3"
      proof (rule write_wp [OF m3(1) fresh_same [OF m2(3) m3(2)] buf(2) hash])
        fix m4 assume m4: "cow (verify_node_checksum h) m0 m4" "bmap m4 = bmap m3" "view m4 = (view m3)(r := write_node_checksum h buf')"
        show "wpE (k l r) Q R m4"
        proof (rule k [OF m4(1)])
          have "l \<noteq> r" using m1(2) m2(2) by (auto simp: grown_def)
          then show "copied h m [(l, buf), (r, buf')] m4"
            using m1 m2 m3(2,3) m4(2,3) buf unfolding copied_def by (auto simp: grown_def fresh_def)
        qed
      qed (rule e)
    qed (rule e)
  qed (rule e)
qed (rule e)

lemma is_node_fill:
  assumes "is_node buf (map (map_prod id root) kts) (root t)" and "BNode b kts t = fill f x0" and "root x < 2 ^ 64"
  shows "\<exists>kts' t'. (\<forall>b'. BNode b' kts' t' = fill (reblock b' f) x) \<and>
    is_node (set_child buf (read_header buf) (findex f) (root x)) (map (map_prod id root) kts') (root t')"
proof (cases f)
  case (FMid b1 ls k rs t1)
  then have k: "kts = ls @ (k, x0) # rs" "t = t1" using assms(2) by auto
  then have "is_node (set_child buf (read_header buf) (length ls) (root x)) (map (map_prod id root) (ls @ (k, x) # rs)) (root t)"
    using is_node_set_child [OF assms(1), of "length ls" "root x"] assms(3) by (simp add: list_update_append nth_append)
  then show ?thesis using FMid k by auto
next
  case (FLast b1 ls)
  then show ?thesis using is_node_set_right [OF assms(1), of "root x"] assms(2,3) by auto
qed

text \<open>A tree written back through a path: the same sequence with the new middle, every block on the
  path replaced by a new one.\<close>

definition rebuilt :: "(bytes \<Rightarrow> bool) \<Rightarrow> 'a alloc_io_scheme \<Rightarrow> frame list \<Rightarrow> (bytes + btree_entry) list \<Rightarrow> nat multiset \<Rightarrow> nat \<Rightarrow>
    'a alloc_io_scheme \<Rightarrow> nat \<Rightarrow> bool" where
  "rebuilt chk m fs mid bs hmax m' r \<longleftrightarrow> (\<exists>t new. stored chk m' t \<and> root t = r \<and> 0 < r \<and> flat t = before fs @ mid @ after fs \<and>
     height t \<le> hmax \<and> grown m new m' \<and> mset (blocks t) + mset (map fblock fs) = ctx_blocks fs + bs + mset new)"

lemma rebuilt_step:
  assumes "grown m ns m1" and "rebuilt chk m1 fs (lpre f @ mid @ rpost f) (mset ns + siblings f + bs) hmax m' r"
  shows "rebuilt chk m (f # fs) mid bs hmax m' r"
proof -
  obtain t new where t: "stored chk m' t" "root t = r" "0 < r" "flat t = before fs @ (lpre f @ mid @ rpost f) @ after fs" "height t \<le> hmax"
    "grown m1 new m'" "mset (blocks t) + mset (map fblock fs) = ctx_blocks fs + (mset ns + siblings f + bs) + mset new"
    using assms(2) unfolding rebuilt_def by blast
  then show ?thesis using grown_trans [OF assms(1) t(6)] unfolding rebuilt_def
    by (intro exI [of _ t] exI [of _ "ns @ new"]) (simp add: union_assoc union_commute union_lcomm)
qed

lemma stored_fillI:
  assumes "stored chk m (fill f x0)" and "stored chk m x" and "BNode nb kts t = fill (reblock nb f) x" and "nb < 2 ^ 64"
    and "nb \<notin> free_blocks (bmap m)" and "chk (view m nb)" and "is_node (view m nb) (map (map_prod id root) kts) (root t)"
  shows "stored chk m (fill (reblock nb f) x)"
  unfolding assms(3) [symmetric] using assms by (cases f) auto

lemma fixup_path_spec:
  assumes "cow (verify_node_checksum h) m0 m" and "stored (verify_node_checksum h) m (plug fs x0)" and "stored (verify_node_checksum h) m x"
    and "height x \<le> height x0" and "0 < root x" and hash: "\<And>b. length (h b) = 32"
  shows "wpE (fixup_path h (steps fs) (root x) old)
    (\<lambda>(r, frees) m'. rebuilt (verify_node_checksum h) m fs (flat x) (mset (blocks x)) (height (plug fs x0)) m' r \<and> frees = old @ map fblock fs \<and>
       cow (verify_node_checksum h) m0 m')
    (\<lambda>e m'. env_error e \<and> cow (verify_node_checksum h) m0 m') m"
  using assms(1-5)
proof (induction fs arbitrary: m x x0 old)
  case Nil
  then have "rebuilt (verify_node_checksum h) m [] (flat x) (mset (blocks x)) (height x0) m (root x)"
    by (auto simp: rebuilt_def intro!: exI [of _ x] exI [of _ "[]"] grown_refl)
  then show ?case using Nil by (simp add: wp)
next
  case (Cons f fs)
  let ?c = "verify_node_checksum h"
  obtain b kts t where n: "fill f x0 = BNode b kts t" and b: "fblock f = b" by (cases f) auto
  have st: "stored ?c m (BNode b kts t)" using stored_plug [of ?c m fs "fill f x0"] Cons.prems(2) unfolding path_simps(2) n by blast
  then have l: "is_node (view m b) (map (map_prod id root) kts) (root t)" and rd: "b < 2 ^ 64" "?c (view m b)" by auto
  have xr: "root x < 2 ^ 64" using Cons.prems(3) rep_root by (auto simp: stored_def)
  let ?buf = "set_child (view m b) (read_header (view m b)) (findex f) (root x)"
  let ?R = "\<lambda>e m'. env_error e \<and> cow ?c m0 m'"
  let ?Q = "\<lambda>(r, frees) m'. rebuilt ?c m (f # fs) (flat x) (mset (blocks x)) (height (plug fs (fill f x0))) m' r \<and> frees = old @ map fblock (f # fs) \<and> cow ?c m0 m'"
  show ?case unfolding path_simps fixup_path.simps b
  proof (rule read_wp [OF Cons.prems(1) rd])
    fix m1 assume m1: "cow ?c m0 m1" "bmap m1 = bmap m" "view m1 = view m"
    obtain kts' t' where f': "\<And>nb. BNode nb kts' t' = fill (reblock nb f) x" "is_node ?buf (map (map_prod id root) kts') (root t')"
      using is_node_fill [OF l n [symmetric] xr] by blast
    show "wpE (bindE (alloc_blocks 1) (\<lambda>new_parent. bindE (write_node h new_parent ?buf) (\<lambda>_. fixup_path h (steps fs) new_parent (old @ [b])))) ?Q ?R m1"
    proof (rule copy_wp [OF m1(1) is_nodeD(1) [OF f'(2)] hash])
      fix nb m3 assume m3: "cow ?c m0 m3" "copied h m1 [(nb, ?buf)] m3"
      have w: "grown m1 [nb] m3" "0 < nb" "nb < 2 ^ 64" "nb \<notin> free_blocks (bmap m3)" "?c (view m3 nb)"
          "is_node (view m3 nb) (map (map_prod id root) kts') (root t')"
        using copiedD [OF m3(2) _ hash, of nb ?buf] f'(2) by auto
      have keep: "stored ?c m3 y" if "stored ?c m y" for y using copied_stored [OF m3(2)] that m1 by (auto simp: stored_def)
      have "grown m [nb] m3" using w(1) m1(2) by (simp add: grown_def)
      note step = rebuilt_step [OF this, where chk = ?c and f = f]
      have x': "stored ?c m3 (fill (reblock nb f) x)" "root (fill (reblock nb f) x) = nb"
        using stored_fillI [OF keep [OF st [folded n]] keep [OF Cons.prems(3)] f'(1) w(3-6)] by auto
      show "wpE (fixup_path h (steps fs) nb (old @ [b])) ?Q ?R m3"
      proof (rule wpE_mono [OF Cons.IH [OF m3(1) keep x'(1), where old = "old @ [b]", unfolded x'(2)]])
        show "stored ?c m (plug fs (fill f x0))" using Cons.prems(2) by simp
        show "height (fill (reblock nb f) x) \<le> height (fill f x0)" by (rule height_fill_mono [OF Cons.prems(4)])
        show "0 < nb" by (rule w(2))
      qed (use step b in \<open>auto simp: flat_fill blocks_fill\<close>)
    qed simp
  qed simp
qed

section \<open>Splitting along a path\<close>

text \<open>A node in which the child in the hole has become two.\<close>

fun fill2 :: "nat \<Rightarrow> frame \<Rightarrow> btree \<Rightarrow> bytes \<Rightarrow> btree \<Rightarrow> btree" where
  "fill2 nb (FMid b ls k rs t) l key r = BNode nb (ls @ (key, l) # (k, r) # rs) t"
| "fill2 nb (FLast b ls) l key r = BNode nb (ls @ [(key, l)]) r"

lemma flat_fill2: "flat (fill2 nb f l key r) = lpre f @ (flat l @ [Inl key] @ flat r) @ rpost f"
  by (cases f) auto

lemma blocks_fill2: "mset (blocks (fill2 nb f l key r)) = add_mset nb (siblings f + (mset (blocks l) + mset (blocks r)))"
  by (cases f) auto

lemma root_fill2 [simp]: "root (fill2 nb f l key r) = nb"
  by (cases f) auto

lemma height_fill2_le:
  "height (fill f x0) \<le> n \<Longrightarrow> height l \<le> height x0 \<Longrightarrow> height r \<le> height x0 \<Longrightarrow> height (fill2 nb f l key r) \<le> n"
  by (cases f) (auto simp: height_le simp del: height.simps)

lemma frame_keys:
  assumes o: "ordered (lpre f @ (flat l @ [Inl key] @ flat r) @ rpost f)" and n: "fill f x0 = BNode b kts t"
    and n': "fill2 nb f l key r = BNode nb kts' t'"
  shows "with_split key (root l) (root r) (map (map_prod id root) kts) (root t) = (map (map_prod id root) kts', root t')"
    "key \<notin> fst ` set (map (map_prod id root) kts)" "fst ` set kts' = insert key (fst ` set kts)" "length kts' = Suc (length kts)"
proof -
  have "\<forall>x \<in> set (lpre f). fkey x < fkey (Inl key)" "\<forall>y \<in> set (rpost f). fkey (Inl key) < fkey y"
    using o by (auto simp: ordered_append ordered_Cons simp del: fkey_simps)
  then have lt: "Inl k \<in> set (lpre f) \<Longrightarrow> k < key" and gt: "Inl k \<in> set (rpost f) \<Longrightarrow> key < k" for k by fastforce+
  show "fst ` set kts' = insert key (fst ` set kts)" "length kts' = Suc (length kts)" 
    using n n' by (cases f; simp; elim conjE; hypsubst; simp add: image_Un insert_commute)+
  show "key \<notin> fst ` set (map (map_prod id root) kts)"
  proof
    assume "key \<in> fst ` set (map (map_prod id root) kts)"
    then have "Inl key \<in> set (lpre f) \<or> Inl key \<in> set (rpost f)" using n by (cases f; auto; force)
    then show False using lt [of key] gt [of key] by auto
  qed
  let ?ks = "map (map_prod id root) kts"
  have fp: "find (\<lambda>i. key < fst (?ks ! i)) [0..<length ?ks] = position (\<lambda>k. key < fst k) ?ks" by (rule find_upt_position)
  show "with_split key (root l) (root r) ?ks (root t) = (map (map_prod id root) kts', root t')"
  proof (cases f)
    case (FMid b1 ls k rs t1)
    then have k: "kts = ls @ (k, x0) # rs" "t1 = t" using n by auto
    have "\<not> key < fst x" if "x \<in> set (map (map_prod id root) ls)" for x using lt [of "fst x"] that FMid by force
    moreover have "key < k" using gt FMid by simp
    ultimately have "position (\<lambda>k. key < fst k) ?ks = Some (length ls)"
      using position_append_first [of "map (map_prod id root) ls" "\<lambda>k. key < fst k" "(k, root x0)"] k by simp
    then show ?thesis using FMid k n' unfolding with_split_def fp by (auto simp: nth_append)
  next
    case (FLast b1 ls)
    then have "\<not> key < fst x" if "x \<in> set ?ks" for x using lt [of "fst x"] that n by force
    then have "position (\<lambda>k. key < fst k) ?ks = None" by (simp only: position_None_iff) blast
    then show ?thesis using FLast n n' unfolding with_split_def fp by auto
  qed
qed

lemma wpE_cong: "f s = g s \<Longrightarrow> wpE g Q R s \<Longrightarrow> wpE f Q R s"
  by (simp add: wpE_def)

lemma split_internal_spec:
  assumes c: "cow (verify_node_checksum h) m0 m" and n: "is_node buf ks rc" and full: "length ks = 101" and hash: "\<And>b. length (h b) = 32"
    and key: "length key = 32" "key \<notin> fst ` set ks" "l < 2 ^ 64" "r < 2 ^ 64" and w: "with_split key l r ks rc = (ks', rc')" "length ks' = 102"
    and ok: "\<And>k. k \<in> set ks' \<Longrightarrow> key_ok k" "rc' < 2 ^ 64"
  shows "wpE (split_internal h buf (read_header buf) key l r)
    (\<lambda>(lb, rb, k) m'. cow (verify_node_checksum h) m0 m' \<and> k = fst (ks' ! 51) \<and>
       (\<exists>lbuf rbuf. copied h m [(lb, lbuf), (rb, rbuf)] m' \<and> is_node lbuf (take 51 ks') (snd (ks' ! 51)) \<and> is_node rbuf (drop 52 ks') rc'))
    (\<lambda>e m'. env_error e \<and> cow (verify_node_checksum h) m0 m') m"
proof -
  have es: "map (\<lambda>i. (internal_key buf i, internal_child buf i)) [0..<num_entries (read_header buf)] = ks" "right_child (read_header buf) = rc"
    using is_nodeD [OF n] by (simp_all add: internal_list_def)
  have sp: "split_entries key l r ks rc = (ks', rc')" using split_entries_eq [OF key(2)] w(1) by simp
  let ?L = "internal_of (take 51 ks') (snd (ks' ! 51))" and ?R = "internal_of (drop 52 ks') rc'"
  have k51: "snd (ks' ! 51) < 2 ^ 64" using ok(1) [of "ks' ! 51"] w(2) by (simp add: key_ok_def case_prod_beta)
  have L: "is_node ?L (take 51 ks') (snd (ks' ! 51))"
    by (rule is_node_internal_of) (use w(2) k51 ok(1) in \<open>auto dest: in_set_takeD\<close>)
  have R: "is_node ?R (drop 52 ks') rc'"
    by (rule is_node_internal_of) (use w(2) ok in \<open>auto dest: in_set_dropD\<close>)
  have "split_internal h buf (read_header buf) key l r m = bindE (alloc_blocks 1) (\<lambda>lb. bindE (alloc_blocks 1) (\<lambda>rb.
      bindE (write_node h lb ?L) (\<lambda>_. bindE (write_node h rb ?R) (\<lambda>_. retE (lb, rb, fst (ks' ! 51)))))) m"
    by (simp add: split_internal_def Let_def es sp w(2) del: One_nat_def)
  then show ?thesis
    by (rule wpE_cong) (rule copy_two_wp [OF c is_nodeD(1) [OF L] is_nodeD(1) [OF R] hash]; use L R in \<open>auto simp: wp\<close>)
qed

lemma split_node_flat:
  assumes "i < length kts"
  shows "flat (BNode a (take i kts) (snd (kts ! i))) @ [Inl (fst (kts ! i))] @ flat (BNode c (drop (Suc i) kts) t) = flat (BNode b kts t)"
    "mset (blocks (BNode a (take i kts) (snd (kts ! i)))) + mset (blocks (BNode c (drop (Suc i) kts) t)) + {#b#} =
     mset (blocks (BNode b kts t)) + {#a, c#}"
    "height (BNode b kts t) \<le> n \<Longrightarrow> height (BNode a (take i kts) (snd (kts ! i))) \<le> n \<and> height (BNode c (drop (Suc i) kts) t) \<le> n"
proof -
  obtain ls k x rs where k: "kts = ls @ (k, x) # rs" "i = length ls" using id_take_nth_drop [OF assms] assms
    by (metis length_take less_imp_le_nat min.absorb2 surj_pair)
  show "flat (BNode a (take i kts) (snd (kts ! i))) @ [Inl (fst (kts ! i))] @ flat (BNode c (drop (Suc i) kts) t) = flat (BNode b kts t)"
    "mset (blocks (BNode a (take i kts) (snd (kts ! i)))) + mset (blocks (BNode c (drop (Suc i) kts) t)) + {#b#} =
     mset (blocks (BNode b kts t)) + {#a, c#}" unfolding k by (simp_all add: nth_append)
  show "height (BNode b kts t) \<le> n \<Longrightarrow> height (BNode a (take i kts) (snd (kts ! i))) \<le> n \<and> height (BNode c (drop (Suc i) kts) t) \<le> n"
    unfolding k by (auto simp: nth_append height_le simp del: height.simps)
qed

lemma ordered_middle: "ordered (xs @ ms @ ys) \<Longrightarrow> ordered ms"
  by (simp add: ordered_append)

lemma stored_fill2I:
  assumes "stored chk m (fill f x0)" and "stored chk m l" "stored chk m r" and "fill2 nb f l key r = BNode nb kts t" and "nb < 2 ^ 64"
    and "nb \<notin> free_blocks (bmap m)" and "chk (view m nb)" and "is_node (view m nb) (map (map_prod id root) kts) (root t)"
  shows "stored chk m (fill2 nb f l key r)"
  unfolding assms(4) using assms by (cases f) auto

lemma stored_fill2_kids:
  assumes "stored chk m (fill f x0)" and "stored chk m l" "stored chk m r" and "fill2 nb f l key r = BNode nb kts t"
  shows "(\<forall>kt \<in> set kts. stored chk m (snd kt)) \<and> stored chk m t"
  using assms by (cases f) auto

lemma stored_roots: "stored chk m t \<Longrightarrow> root t < 2 ^ 64"
  using rep_root by (auto simp: stored_def)

lemma rebuilt_weaken: "rebuilt chk m fs mid bs n m' r \<Longrightarrow> rebuilt chk m fs mid bs (Suc n) m' r"
  by (fastforce simp: rebuilt_def)

lemma fixup_path_split_spec:
  assumes "cow (verify_node_checksum h) m0 m" and "stored (verify_node_checksum h) m (plug fs x0)"
    and "stored (verify_node_checksum h) m l" and "stored (verify_node_checksum h) m r" and "height l \<le> height x0" and "height r \<le> height x0"
    and "length key = 32" and "ordered (before fs @ (flat l @ [Inl key] @ flat r) @ after fs)" and hash: "\<And>b. length (h b) = 32"
  shows "wpE (fixup_path_split h (steps fs) (root l) (root r) key old)
    (\<lambda>(b, frees) m'. rebuilt (verify_node_checksum h) m fs (flat l @ [Inl key] @ flat r) (mset (blocks l) + mset (blocks r))
        (Suc (height (plug fs x0))) m' b \<and> frees = old @ map fblock fs \<and> cow (verify_node_checksum h) m0 m')
    (\<lambda>e m'. env_error e \<and> cow (verify_node_checksum h) m0 m') m"
  using assms(1-8)
proof (induction fs arbitrary: m x0 l r key old)
  case Nil
  let ?c = "verify_node_checksum h"
  let ?buf = "internal_of [(key, root l)] (root r)"
  have n: "is_node ?buf [(key, root l)] (root r)"
    by (rule is_node_internal_of) (use Nil.prems(3,4,7) stored_roots in \<open>auto simp: key_ok_def\<close>)
  have eq: "set_internal_entry (new_node BTREE_INTERNAL 1 (root r)) 0 key (root l) = ?buf" by (simp add: internal_of_def)
  show ?case unfolding path_simps fixup_path_split.simps eq
  proof (rule copy_wp [OF Nil.prems(1) is_nodeD(1) [OF n] hash])
    fix nb m' assume m': "cow ?c m0 m'" "copied h m [(nb, ?buf)] m'"
    let ?t = "BNode nb [(key, l)] r"
    have "stored ?c m' ?t" using copiedD [OF m'(2) _ hash, of nb ?buf] n copied_stored [OF m'(2)] Nil.prems(3,4) by simp
    moreover have "grown m [nb] m'" "0 < nb" using copiedD [OF m'(2) _ hash, of nb ?buf] by auto
    moreover have "height ?t \<le> Suc (height x0)" using Nil.prems(5,6) by (simp add: height_le del: height.simps)
    ultimately have "rebuilt ?c m [] (flat l @ [Inl key] @ flat r) (mset (blocks l) + mset (blocks r)) (Suc (height x0)) m' nb"
      unfolding rebuilt_def by (intro exI [of _ ?t] exI [of _ "[nb]"]) (simp del: height.simps)
    then show "wpE (retE (nb, old)) (\<lambda>(b, frees) m'. rebuilt ?c m [] (flat l @ [Inl key] @ flat r) (mset (blocks l) + mset (blocks r))
        (Suc (height x0)) m' b \<and> frees = old @ map fblock [] \<and> cow ?c m0 m') (\<lambda>e m'. env_error e \<and> cow ?c m0 m') m'"
      using m'(1) by (simp add: wp)
  qed simp
next
  case (Cons f fs)
  let ?c = "verify_node_checksum h"
  obtain b kts t where n: "fill f x0 = BNode b kts t" and b: "fblock f = b" by (cases f) auto
  obtain kts' t' where n': "\<And>nb. fill2 nb f l key r = BNode nb kts' t'" by (cases f) auto
  have st: "stored ?c m (BNode b kts t)" using stored_plug [of ?c m fs "fill f x0"] Cons.prems(2) unfolding path_simps(2) n by blast
  let ?ks = "map (map_prod id root) kts" and ?ks' = "map (map_prod id root) kts'"
  have nd: "is_node (view m b) ?ks (root t)" and rd: "b < 2 ^ 64" "?c (view m b)" using st by auto
  have o2: "ordered (before fs @ flat (fill2 0 f l key r) @ after fs)" using Cons.prems(8) by (simp add: flat_fill2)
  have o: "ordered (lpre f @ (flat l @ [Inl key] @ flat r) @ rpost f)" using ordered_middle [OF o2] by (simp only: flat_fill2)
  note fk = frame_keys [OF o n n']
  let ?Q = "\<lambda>(p, frees) m'. rebuilt ?c m (f # fs) (flat l @ [Inl key] @ flat r) (mset (blocks l) + mset (blocks r))
        (Suc (height (plug fs (fill f x0)))) m' p \<and> frees = old @ map fblock (f # fs) \<and> cow ?c m0 m'"
  let ?R = "\<lambda>e m'. env_error e \<and> cow ?c m0 m'"
  let ?buf = "view m b" let ?hdr = "read_header (view m b)"
  show ?case unfolding path_simps fixup_path_split.simps b
  proof (rule read_wp [OF Cons.prems(1) rd])
    fix m1 assume m1: "cow ?c m0 m1" "bmap m1 = bmap m" "view m1 = view m"
    have same: "stored ?c m1 y" if "stored ?c m y" for y using that m1 by (simp add: stored_def)
    show "wpE (let hdr = read_header ?buf in if num_entries hdr < MAX_INTERNAL_KEYS
          then bindE (alloc_blocks 1) (\<lambda>new_parent. bindE (write_node h new_parent (add_split ?buf hdr key (root l) (root r))) (\<lambda>_.
                 fixup_path h (steps fs) new_parent (old @ [b])))
          else bindE (split_internal h ?buf hdr key (root l) (root r)) (\<lambda>(int_left, int_right, int_split_key).
                 fixup_path_split h (steps fs) int_left int_right int_split_key (old @ [b]))) ?Q ?R m1"
    proof (cases "length kts < 101")
      case True
      let ?new = "add_split ?buf ?hdr key (root l) (root r)"
      have nn: "is_node ?new ?ks' (root t')"
        by (rule is_node_add_split [OF nd _ Cons.prems(7) _ _ fk(1)]) (use True stored_roots Cons.prems(3,4) in auto)
      have "wpE (bindE (alloc_blocks 1) (\<lambda>new_parent. bindE (write_node h new_parent ?new) (\<lambda>_. fixup_path h (steps fs) new_parent (old @ [b])))) ?Q ?R m1"
      proof (rule copy_wp [OF m1(1) is_nodeD(1) [OF nn] hash])
        fix nb m3 assume m3: "cow ?c m0 m3" "copied h m1 [(nb, ?new)] m3"
        have w: "grown m1 [nb] m3" "0 < nb" "nb < 2 ^ 64" "nb \<notin> free_blocks (bmap m3)" "?c (view m3 nb)" "is_node (view m3 nb) ?ks' (root t')"
          using copiedD [OF m3(2) _ hash, of nb ?new] nn by auto
        have keep: "stored ?c m3 y" if "stored ?c m y" for y using copied_stored [OF m3(2) same [OF that]] .
        have "grown m [nb] m3" using w(1) m1(2) by (simp add: grown_def)
        note step = rebuilt_step [OF this, where chk = ?c and f = f]
        have x': "stored ?c m3 (fill2 nb f l key r)"
          by (rule stored_fill2I [OF keep [OF st [folded n]] keep [OF Cons.prems(3)] keep [OF Cons.prems(4)] n' w(3-6)])
        show "wpE (fixup_path h (steps fs) nb (old @ [b])) ?Q ?R m3"
        proof (rule wpE_mono [OF fixup_path_spec [OF m3(1) keep x', where old = "old @ [b]", unfolded root_fill2, OF _ _ w(2) hash]])
          show "stored ?c m (plug fs (fill f x0))" using Cons.prems(2) by simp
          show "height (fill2 nb f l key r) \<le> height (fill f x0)" by (rule height_fill2_le [OF order_refl Cons.prems(5,6)])
        qed (use step [OF rebuilt_weaken] b in \<open>auto simp: flat_fill2 blocks_fill2\<close>)
      qed simp
      then show ?thesis using True is_nodeD(4) [OF nd] by (simp add: Let_def)
    next
      case False
      then have full: "length ?ks = 101" using is_nodeD(6) [OF nd] by simp
      have ks': "length ?ks' = 102" using fk(4) full by simp
      have kids: "\<forall>kt \<in> set kts'. stored ?c m (snd kt)" "stored ?c m t'"
        using stored_fill2_kids [OF st [folded n] Cons.prems(3,4) n' [of 0]] by auto
      have ok: "key_ok k" if k: "k \<in> set ?ks'" for k
      proof -
        have "fst k \<in> insert key (fst ` set kts)" using k fk(3) by force
        moreover have "length (fst kt) = 32" if "kt \<in> set kts" for kt
          using is_node_keys [OF nd, of "map_prod id root kt"] that by (simp add: key_ok_def case_prod_beta)
        moreover have "snd k < 2 ^ 64" using k kids(1) stored_roots by fastforce
        ultimately show ?thesis using Cons.prems(7) by (auto simp: key_ok_def case_prod_beta)
      qed
      have rt: "root t' < 2 ^ 64" by (rule stored_roots [OF kids(2)])
      have "wpE (bindE (split_internal h ?buf ?hdr key (root l) (root r)) (\<lambda>(int_left, int_right, int_split_key).
                 fixup_path_split h (steps fs) int_left int_right int_split_key (old @ [b]))) ?Q ?R m1"
        unfolding wpE_bind
      proof (rule wpE_mono [OF split_internal_spec [OF m1(1) nd full hash Cons.prems(7) fk(2) _ _ fk(1) ks' ok rt]])
        fix q m3 assume "(\<lambda>(lb, rb, k) m'. cow ?c m0 m' \<and> k = fst (?ks' ! 51) \<and>
          (\<exists>lbuf rbuf. copied h m1 [(lb, lbuf), (rb, rbuf)] m' \<and> is_node lbuf (take 51 ?ks') (snd (?ks' ! 51)) \<and> is_node rbuf (drop 52 ?ks') (root t'))) q m3"
        then obtain lb rb lbuf rbuf where q: "q = (lb, rb, fst (?ks' ! 51))" and m3: "cow ?c m0 m3" "copied h m1 [(lb, lbuf), (rb, rbuf)] m3"
          and nn: "is_node lbuf (take 51 ?ks') (snd (?ks' ! 51))" "is_node rbuf (drop 52 ?ks') (root t')" by (cases q) auto
        let ?L = "BNode lb (take 51 kts') (snd (kts' ! 51))" and ?S = "BNode rb (drop (Suc 51) kts') t'"
        have i: "51 < length kts'" and kk: "fst (?ks' ! 51) = fst (kts' ! 51)" using ks' by simp_all
        note sf = split_node_flat [OF i, where a = lb and c = rb and t = t' and b = 0]
        have keep: "stored ?c m3 y" if "stored ?c m y" for y using copied_stored [OF m3(2) same [OF that]] .
        have kids3: "\<forall>kt \<in> set (take 51 kts'). stored ?c m3 (snd kt)" "\<forall>kt \<in> set (drop 52 kts'). stored ?c m3 (snd kt)"
            "stored ?c m3 (snd (kts' ! 51))" "stored ?c m3 t'"
          using kids keep i by (auto dest: in_set_takeD in_set_dropD simp del: stored_simps)
        have LS: "stored ?c m3 ?L" "stored ?c m3 ?S"
          using copiedD [OF m3(2) _ hash, of lb lbuf] copiedD [OF m3(2) _ hash, of rb rbuf] nn kids3 i
          by (simp_all add: take_map drop_map)
        have "grown m [lb, rb] m3" using copiedD(1) [OF m3(2) _ hash, of lb lbuf] m1(2) by (simp add: grown_def)
        note step = rebuilt_step [OF this, where chk = ?c and f = f]
        have hh: "height (fill2 0 f l key r) \<le> height (fill f x0)" by (rule height_fill2_le [OF order_refl Cons.prems(5,6)])
        have fl: "flat ?L @ [Inl (fst (kts' ! 51))] @ flat ?S = lpre f @ (flat l @ [Inl key] @ flat r) @ rpost f"
          by (rule trans [OF sf(1) flat_fill2 [of 0 f l key r, unfolded n']])
        have bl: "mset (blocks ?L) + mset (blocks ?S) = mset [lb, rb] + siblings f + (mset (blocks l) + mset (blocks r))"
          using sf(2) [unfolded blocks_fill2 [of 0 f l key r, unfolded n']] by (simp del: blocks.simps add: union_commute)
        show "wpE (case q of (int_left, int_right, int_split_key) \<Rightarrow> fixup_path_split h (steps fs) int_left int_right int_split_key (old @ [b])) ?Q ?R m3"
          unfolding q prod.case kk
        proof (rule wpE_mono [OF Cons.IH [OF m3(1) keep LS, where old = "old @ [b]" and key = "fst (kts' ! 51)", unfolded root.simps fl bl]])
          show "stored ?c m (plug fs (fill f x0))" using Cons.prems(2) by simp
          show "height ?L \<le> height (fill f x0)" "height ?S \<le> height (fill f x0)" using sf(3) [of "height (fill f x0)"] hh unfolding n' by blast+
          show "length (fst (kts' ! 51)) = 32" using ok [of "?ks' ! 51"] ks' kk by (simp add: key_ok_def case_prod_beta)
          show "ordered (before fs @ (lpre f @ (flat l @ [Inl key] @ flat r) @ rpost f) @ after fs)" using o2 unfolding flat_fill2 .
        qed (use step b in auto)
      qed (use stored_roots Cons.prems(3,4) in auto)
      then show ?thesis using full is_nodeD(4) [OF nd] by (simp add: Let_def)
    qed
  qed simp
qed

section \<open>Insertion\<close>

abbreviation ents :: "(bytes + btree_entry) list \<Rightarrow> btree_entry list" where
  "ents xs \<equiv> concat (map (case_sum (\<lambda>_. []) (\<lambda>e. [e])) xs)"

text \<open>The entries with one more in its place.\<close>

definition with_new :: "btree_entry \<Rightarrow> btree_entry list \<Rightarrow> btree_entry list" where
  "with_new e es = filter (\<lambda>x. e_hash x < e_hash e) es @ e # filter (\<lambda>x. e_hash e < e_hash x) es"

lemma ordered_leaf: "ordered (map Inr es) \<longleftrightarrow> sorted_wrt (\<lambda>a b. e_hash a < e_hash b) es"
  by (simp add: ordered_def sorted_wrt_map)

lemma insert_at_sorted:
  assumes "sorted_wrt (\<lambda>a b. e_hash a < e_hash b) es" and "e_hash e \<notin> e_hash ` set es"
  shows "insert_at (position (\<lambda>x. e_hash e < e_hash x) es) e es = with_new e es"
  using assms
proof (induction es)
  case (Cons a es)
  show ?case
  proof (cases "e_hash e < e_hash a")
    case True
    then have "filter (\<lambda>x. e_hash x < e_hash e) es = []" "filter (\<lambda>x. e_hash e < e_hash x) es = es"
      using Cons.prems(1) by (auto simp: filter_empty_conv filter_id_conv dest: less_trans)
    then show ?thesis using True by (simp add: with_new_def)
  next
    case False
    then have "e_hash a < e_hash e" using Cons.prems(2) by (auto simp: not_less order_le_less)
    then show ?thesis using False Cons by (cases "position (\<lambda>x. e_hash e < e_hash x) es") (auto simp: with_new_def)
  qed
qed (simp add: with_new_def)

lemma ents_around:
  assumes "around key xs ys"
  shows "filter (\<lambda>e. e_hash e < key) (ents xs) = ents xs" "filter (\<lambda>e. key < e_hash e) (ents xs) = []"
    "filter (\<lambda>e. e_hash e < key) (ents ys) = []" "filter (\<lambda>e. key < e_hash e) (ents ys) = ents ys"
proof -
  have x: "e_hash e < key" if "e \<in> set (ents xs)" for e using that assms by (force simp: around_def split: sum.splits)
  have y: "key < e_hash e" if "e \<in> set (ents ys)" for e using that assms by (force simp: around_def split: sum.splits)
  show "filter (\<lambda>e. e_hash e < key) (ents xs) = ents xs" "filter (\<lambda>e. key < e_hash e) (ents xs) = []"
    "filter (\<lambda>e. e_hash e < key) (ents ys) = []" "filter (\<lambda>e. key < e_hash e) (ents ys) = ents ys"
    by (rule filter_True filter_False, blast dest: x y less_asym)+
qed

lemma with_new_around:
  "around (e_hash e) xs ys \<Longrightarrow> ents (xs @ map Inr (with_new e es) @ ys) = with_new e (ents (xs @ map Inr es @ ys))"
  using ents_around [of "e_hash e" xs ys] by (simp add: with_new_def comp_def)

lemma ordered_with_new:
  assumes "ordered (xs @ map Inr es @ ys)" and "around (e_hash e) xs ys"
  shows "ordered (xs @ map Inr (with_new e es) @ ys)"
proof -
  have es: "sorted_wrt (\<lambda>a b. e_hash a < e_hash b) es" using ordered_middle [OF assms(1)] by (simp add: ordered_leaf)
  have "sorted_wrt (\<lambda>a b. e_hash a < e_hash b) (with_new e es)"
    using es by (auto simp: with_new_def sorted_wrt_append sorted_wrt_filter dest: less_trans)
  moreover have new: "z = Inr e \<or> z \<in> set (map Inr es)" if "z \<in> set (map Inr (with_new e es))" for z
    using that by (auto simp: with_new_def)
  have "fkey x < fkey z" if "x \<in> set xs" "z \<in> set (map Inr (with_new e es))" for x z
    using new [OF that(2)] that(1) assms unfolding around_def ordered_append set_append by (elim disjE) (simp, blast)
  moreover have "fkey z < fkey y" if "y \<in> set ys" "z \<in> set (map Inr (with_new e es))" for y z
    using new [OF that(2)] that(1) assms unfolding around_def ordered_append set_append by (elim disjE) (simp, blast)
  ultimately show ?thesis using assms(1) unfolding ordered_append ordered_leaf set_append by blast
qed

text \<open>A separator in front of an entry that is not the first.\<close>

lemma ordered_separator:
  assumes o: "ordered (xs @ map Inr es @ ys)" and i: "0 < i" "i < length es"
  shows "ordered (xs @ (map Inr (take i es) @ [Inl (e_hash (es ! i))] @ map Inr (drop i es)) @ ys)"
proof -
  let ?k = "e_hash (es ! i)"
  have s: "sorted_wrt (\<lambda>a b. e_hash a < e_hash b) es" using ordered_middle [OF o] by (simp add: ordered_leaf)
  have l: "fkey z < (?k, False)" if "z \<in> set (map Inr (take i es))" for z
    using that sorted_wrt_nth_less [OF s] i by (auto simp: in_set_conv_nth)
  have r: "(?k, False) < fkey z" if "z \<in> set (map Inr (drop i es))" for z
  proof -
    have "\<exists>j. z = Inr (es ! (i + j)) \<and> i + j < length es" using that by (fastforce simp: in_set_conv_nth less_diff_conv add.commute)
    then obtain j where j: "z = Inr (es ! (i + j))" "i + j < length es" by blast
    then have "?k \<le> e_hash (es ! (i + j))" using sorted_wrt_nth_less [OF s, of i "i + j"] by (cases j) (auto simp: less_imp_le)
    then show ?thesis using j by (auto simp: less_prod_def)
  qed
  have first: "Inr (es ! 0) \<in> set (map Inr (take i es))" using i by (force simp: in_set_conv_nth)
  have x: "fkey z < (?k, False)" if "z \<in> set xs" for z
  proof -
    have "es ! 0 \<in> set es" by (rule nth_mem) (use i in linarith)
    then have "Inr (es ! 0) \<in> set (map Inr es @ ys)" by simp
    then have "fkey z < fkey (Inr (es ! 0))" using o that unfolding ordered_append by blast
    then show ?thesis using l [OF first] less_trans by blast
  qed
  have y: "(?k, False) < fkey z" if "z \<in> set ys" for z
  proof -
    have "Inr (es ! i) \<in> set (map Inr es)" "Inr (es ! i) \<in> set (map Inr (drop i es))"
      using i nth_mem [of i es] nth_mem [of 0 "drop i es"] by auto
    then show ?thesis using o that r less_trans unfolding ordered_append by blast
  qed
  have o': "ordered (xs @ (map Inr (take i es) @ map Inr (drop i es)) @ ys)" using o by (simp flip: map_append)
  show ?thesis using o' l r x y by (auto simp: ordered_append ordered_Cons simp del: map_append)
qed

text \<open>What replacing the leaf at the end of a path gives: the new tree, and exact books on the blocks.\<close>

definition updated :: "(bytes \<Rightarrow> bool) \<Rightarrow> 'a alloc_io_scheme \<Rightarrow> btree \<Rightarrow> btree_entry list \<Rightarrow> nat \<Rightarrow> nat list \<Rightarrow> 'a alloc_io_scheme \<Rightarrow> bool" where
  "updated chk m t es r frees m' \<longleftrightarrow> (\<exists>t' new. stored chk m' t' \<and> root t' = r \<and> 0 < r \<and> search_tree t' \<and> entries t' = es \<and>
     height t' \<le> Suc (height t) \<and> grown m new m' \<and> mset (blocks t') + mset frees = mset (blocks t) + mset new)"

lemma rebuilt_updated:
  assumes r: "rebuilt chk m1 fs mid bs hmax m' r" and g: "grown m ns m1" and bs: "bs = mset ns"
    and o: "ordered (before fs @ mid @ after fs)" and h: "hmax \<le> Suc (height (plug fs (BLeaf block es)))"
  shows "updated chk m (plug fs (BLeaf block es)) (ents (before fs @ mid @ after fs)) r ([block] @ map fblock fs) m'"
proof -
  obtain t new where t: "stored chk m' t" "root t = r" "0 < r" "flat t = before fs @ mid @ after fs" "height t \<le> hmax"
    "grown m1 new m'" "mset (blocks t) + mset (map fblock fs) = ctx_blocks fs + bs + mset new"
    using r unfolding rebuilt_def by blast
  have "mset (blocks t) + mset ([block] @ map fblock fs) = mset (blocks (plug fs (BLeaf block es))) + mset (ns @ new)"
    using t(7) bs by (simp add: blocks_plug union_assoc union_commute union_lcomm)
  moreover have "search_tree t" "entries t = ents (before fs @ mid @ after fs)" using o t(4) by (simp_all add: search_tree_def entries_flat)
  ultimately show ?thesis using t h grown_trans [OF g t(6)] unfolding updated_def by (intro exI [of _ t] exI [of _ "ns @ new"]) auto
qed

lemma split_leaf_spec:
  assumes c: "cow (verify_node_checksum h) m0 m" and leaf: "is_leaf buf es" "length es = 36" and e: "entry_ok e" and hash: "\<And>b. length (h b) = 32"
    and es': "insert_at (position (\<lambda>x. e_hash e < e_hash x) es) e es = es'"
  shows "wpE (split_leaf h buf (read_header buf) e)
    (\<lambda>(lb, rb, k) m'. cow (verify_node_checksum h) m0 m' \<and> k = e_hash (es' ! 18) \<and>
       (\<exists>lbuf rbuf. copied h m [(lb, lbuf), (rb, rbuf)] m' \<and> is_leaf lbuf (take 18 es') \<and> is_leaf rbuf (drop 18 es')))
    (\<lambda>e m'. env_error e \<and> cow (verify_node_checksum h) m0 m') m"
proof -
  note l = is_leafD [OF leaf(1)]
  have len: "length es' = 37" unfolding es' [symmetric] using leaf(2) by (subst length_insert_at) (auto dest: position_SomeD)
  have ok: "entry_ok x" if "x \<in> set es'" for x using that l(8) e unfolding es' [symmetric] set_insert_at by auto
  have n: "num_entries (read_header buf) = 36" "map (leaf_entry buf) [0..<36] = es" using l(4,6) leaf(2) by auto
  have we: "with_entry e False es = es'" using es' with_entry_insert by simp
  let ?L = "leaf_of (take 18 es')" and ?R = "leaf_of (drop 18 es')"
  have L: "is_leaf ?L (take 18 es')" by (rule is_leaf_leaf_of) (use len ok in \<open>auto dest: in_set_takeD\<close>)
  have R: "is_leaf ?R (drop 18 es')" by (rule is_leaf_leaf_of) (use len ok in \<open>auto dest: in_set_dropD\<close>)
  have "split_leaf h buf (read_header buf) e m = bindE (alloc_blocks 1) (\<lambda>lb. bindE (alloc_blocks 1) (\<lambda>rb.
      bindE (write_node h lb ?L) (\<lambda>_. bindE (write_node h rb ?R) (\<lambda>_. retE (lb, rb, e_hash (es' ! 18)))))) m"
    by (simp add: split_leaf_def Let_def n we del: One_nat_def)
  then show ?thesis
    by (rule wpE_cong) (rule copy_two_wp [OF c is_leafD(1) [OF L] is_leafD(1) [OF R] hash]; use L R in \<open>auto simp: wp\<close>)
qed

lemma find_leaf_insert_pos_eq:
  assumes "is_leaf buf es"
  shows "find_leaf_insert_pos buf (read_header buf) key = (case position (\<lambda>x. key < e_hash x) es of Some i \<Rightarrow> i | None \<Rightarrow> length es)"
proof -
  note l = is_leafD [OF assms]
  have "find (\<lambda>i. key < e_hash (leaf_entry buf i)) [0..<length es] = find (\<lambda>i. key < e_hash (es ! i)) [0..<length es]"
    by (rule find_cong) (use l(7) in auto)
  also have "\<dots> = position (\<lambda>x. key < e_hash x) es" by (rule find_upt_position)
  finally show ?thesis using l(4) by (simp add: find_leaf_insert_pos_def split: option.split)
qed

lemma insert_leaf_spec:
  assumes c: "cow (verify_node_checksum h) m0 m" and t: "t = plug fs (BLeaf block es)" "stored (verify_node_checksum h) m t" "search_tree t"
    and a: "around (e_hash e) (before fs) (after fs)" and e: "entry_ok e" "e_hash e \<notin> e_hash ` set es" and hash: "\<And>b. length (h b) = 32"
  shows "wpE (insert_leaf h e (steps fs) block (view m block))
    (\<lambda>(r, frees) m'. updated (verify_node_checksum h) m t (with_new e (entries t)) r frees m' \<and> cow (verify_node_checksum h) m0 m')
    (\<lambda>e m'. env_error e \<and> cow (verify_node_checksum h) m0 m') m"
proof -
  let ?c = "verify_node_checksum h" and ?buf = "view m block" and ?hdr = "read_header (view m block)"
  have st: "stored ?c m (plug fs (BLeaf block es))" using t(1,2) by simp
  have leaf: "is_leaf ?buf es" using stored_plug [OF st] by simp
  have o: "ordered (before fs @ map Inr es @ after fs)" using t(1,3) by (simp add: search_tree_def flat_plug)
  have s: "sorted_wrt (\<lambda>a b. e_hash a < e_hash b) es" using ordered_middle [OF o] by (simp add: ordered_leaf)
  define es' where "es' = with_new e es"
  have ins: "insert_at (position (\<lambda>x. e_hash e < e_hash x) es) e es = es'" using insert_at_sorted [OF s e(2)] by (simp add: es'_def)
  have o': "ordered (before fs @ map Inr es' @ after fs)" unfolding es'_def by (rule ordered_with_new [OF o a])
  have ents: "with_new e (entries t) = ents (before fs @ map Inr es' @ after fs)"
    using with_new_around [OF a, of es] t(1) by (simp add: es'_def entries_flat flat_plug)
  let ?R = "\<lambda>e m'. env_error e \<and> cow ?c m0 m'"
  let ?Q = "\<lambda>(r, frees) m'. updated ?c m t (with_new e (entries t)) r frees m' \<and> cow ?c m0 m'"
  show ?thesis
  proof (cases "length es < 36")
    case True
    let ?pos = "find_leaf_insert_pos ?buf ?hdr (e_hash e)" let ?new = "insert_leaf_entry ?buf ?hdr ?pos e"
    have "take ?pos es @ e # drop ?pos es = es'"
      unfolding ins [symmetric] find_leaf_insert_pos_eq [OF leaf] by (cases "position (\<lambda>x. e_hash e < e_hash x) es") auto
    moreover have "?pos \<le> length es" unfolding find_leaf_insert_pos_eq [OF leaf] by (auto split: option.split dest: position_SomeD)
    ultimately have nl: "is_leaf ?new es'" using is_leaf_insert [OF leaf _ _ e(1), of ?pos] True by simp
    have "wpE (bindE (alloc_blocks 1) (\<lambda>nb. bindE (write_node h nb ?new) (\<lambda>_. fixup_path h (steps fs) nb [block]))) ?Q ?R m"
    proof (rule copy_wp [OF c is_leafD(1) [OF nl] hash])
      fix nb m1 assume m1: "cow ?c m0 m1" "copied h m [(nb, ?new)] m1"
      note w = copiedD [OF m1(2) _ hash, of nb ?new]
      have x: "stored ?c m1 (BLeaf nb es')" using w nl by simp
      show "wpE (fixup_path h (steps fs) nb [block]) ?Q ?R m1"
      proof (rule wpE_mono [OF fixup_path_spec [OF m1(1) copied_stored [OF m1(2) st] x, where old = "[block]", unfolded root.simps]])
        fix q m' assume "(\<lambda>(r, frees) m'. rebuilt ?c m1 fs (flat (BLeaf nb es')) (mset (blocks (BLeaf nb es'))) (height (plug fs (BLeaf block es))) m' r \<and>
          frees = [block] @ map fblock fs \<and> cow ?c m0 m') q m'"
        then show "?Q q m'" using rebuilt_updated [OF _ w(1) _ o', where block = block and es = es and chk = ?c, folded ents] t(1) by auto
      qed (use w hash in auto)
    qed simp
    then show ?thesis using True is_leafD(4) [OF leaf] by (simp add: insert_leaf_def Let_def)
  next
    case False
    then have full: "length es = 36" using is_leafD(5) [OF leaf] by simp
    have len: "length es' = 37" unfolding ins [symmetric] using full by (subst length_insert_at) (auto dest: position_SomeD)
    have "wpE (bindE (split_leaf h ?buf ?hdr e) (\<lambda>(left, right, split_key). fixup_path_split h (steps fs) left right split_key [block])) ?Q ?R m"
      unfolding wpE_bind
    proof (rule wpE_mono [OF split_leaf_spec [OF c leaf full e(1) hash ins]])
      fix q m1 assume "(\<lambda>(lb, rb, k) m'. cow ?c m0 m' \<and> k = e_hash (es' ! 18) \<and>
         (\<exists>lbuf rbuf. copied h m [(lb, lbuf), (rb, rbuf)] m' \<and> is_leaf lbuf (take 18 es') \<and> is_leaf rbuf (drop 18 es'))) q m1"
      then obtain lb rb lbuf rbuf where q: "q = (lb, rb, e_hash (es' ! 18))" and m1: "cow ?c m0 m1" "copied h m [(lb, lbuf), (rb, rbuf)] m1"
        and nl: "is_leaf lbuf (take 18 es')" "is_leaf rbuf (drop 18 es')" by (cases q) auto
      let ?L = "BLeaf lb (take 18 es')" and ?S = "BLeaf rb (drop 18 es')" and ?k = "e_hash (es' ! 18)"
      note w = copiedD [OF m1(2) _ hash, of lb lbuf] copiedD [OF m1(2) _ hash, of rb rbuf]
      have LS: "stored ?c m1 ?L" "stored ?c m1 ?S" using w nl by simp_all
      have os: "ordered (before fs @ (flat ?L @ [Inl ?k] @ flat ?S) @ after fs)" using ordered_separator [OF o', of 18] len by simp
      have es: "ents (before fs @ (flat ?L @ [Inl ?k] @ flat ?S) @ after fs) = with_new e (entries t)"
        unfolding ents by (simp add: comp_def)
      have kl: "length ?k = 32" using len nl(2) is_leafD(8) [OF nl(2), of "es' ! 18"] nth_mem [of 0 "drop 18 es'"] by (simp add: entry_ok_def)
      show "wpE (case q of (left, right, split_key) \<Rightarrow> fixup_path_split h (steps fs) left right split_key [block]) ?Q ?R m1"
        unfolding q prod.case
      proof (rule wpE_mono [OF fixup_path_split_spec [OF m1(1) copied_stored [OF m1(2) st] LS, where old = "[block]", unfolded root.simps, OF _ _ kl os hash]])
        fix q m' assume "(\<lambda>(b, frees) m'. rebuilt ?c m1 fs (flat ?L @ [Inl ?k] @ flat ?S) (mset (blocks ?L) + mset (blocks ?S))
          (Suc (height (plug fs (BLeaf block es)))) m' b \<and> frees = [block] @ map fblock fs \<and> cow ?c m0 m') q m'"
        then show "?Q q m'" using rebuilt_updated [OF _ w(1) _ os, where block = block and es = es and chk = ?c, unfolded es] t(1)
          by (auto simp: add_mset_commute simp del: flat.simps)
      qed auto
    qed simp
    then show ?thesis using full is_leafD(4) [OF leaf] by (simp add: insert_leaf_def Let_def)
  qed
qed

lemma find_hash: "key \<in> e_hash ` set es \<longleftrightarrow> find (\<lambda>e. e_hash e = key) es \<noteq> None"
  by (auto simp: find_None_iff image_iff)

lemma hash_in_entries:
  assumes "t = plug fs (BLeaf block es)" and "around key (before fs) (after fs)"
  shows "key \<in> e_hash ` set (entries t) \<longleftrightarrow> key \<in> e_hash ` set es"
proof -
  have "find (\<lambda>e. e_hash e = key) (entries t) = find (\<lambda>e. e_hash e = key) es"
    using lookup_key_around [OF assms(2), of "map Inr es"] by (simp add: find_entries assms(1) flat_plug) (simp add: lookup_key_def comp_def)
  then show ?thesis by (simp only: find_hash)
qed

lemma btree_insert_spec:
  assumes inv: "cache_inv (verify_node_checksum h) m" "bm_inv (bmap m)" and t: "stored (verify_node_checksum h) m t" "search_tree t"
      "height t \<le> MAX_TREE_DEPTH" "root t \<noteq> 0" and e: "entry_ok e" and hash: "\<And>b. length (h b) = 32"
  shows "wpE (btree_insert h (root t) e)
    (\<lambda>(r, frees, new) m'. cow (verify_node_checksum h) m m' \<and>
       (if e_hash e \<in> e_hash ` set (entries t) then r = root t \<and> frees = [] \<and> \<not> new \<and> view m' = view m \<and> bmap m' = bmap m
        else new \<and> updated (verify_node_checksum h) m t (with_new e (entries t)) r frees m'))
    (\<lambda>e m'. env_error e \<and> cow (verify_node_checksum h) m m') m"
proof -
  let ?c = "verify_node_checksum h"
  let ?Q = "\<lambda>(r, frees, new) m'. cow ?c m m' \<and>
       (if e_hash e \<in> e_hash ` set (entries t) then r = root t \<and> frees = [] \<and> \<not> new \<and> view m' = view m \<and> bmap m' = bmap m
        else new \<and> updated ?c m t (with_new e (entries t)) r frees m')"
  have d: "length [] + height t \<le> MAX_TREE_DEPTH" using t(3) by simp
  show ?thesis
  proof (simp only: btree_insert_def t(4) if_False wpE_bind, rule wpE_mono [OF descend_spec [OF cow_refl [OF inv] t(1,2) d]])
    fix q m1
    assume "(\<lambda>(ups', block, buf) m'. (\<exists>fs es. t = plug fs (BLeaf block es) \<and> ups' = steps fs @ [] \<and> buf = view m block \<and>
        is_leaf buf es \<and> around (e_hash e) (before fs) (after fs)) \<and> cow ?c m m' \<and> bmap m' = bmap m \<and> view m' = view m) q m1"
    then obtain fs es block where q: "q = (steps fs, block, view m block)" and fs: "t = plug fs (BLeaf block es)" "is_leaf (view m block) es"
        "around (e_hash e) (before fs) (after fs)" and m1: "cow ?c m m1" "bmap m1 = bmap m" "view m1 = view m" by (cases q) auto
    note l = is_leafD [OF fs(2)]
    have mem: "(\<exists>x \<in> set (map (leaf_entry (view m block)) [0..<num_entries (read_header (view m block))]). e_hash x = e_hash e) \<longleftrightarrow>
        e_hash e \<in> e_hash ` set (entries t)"
      using hash_in_entries [OF fs(1,3)] unfolding l(4,6) image_iff by (simp add: eq_commute [of "e_hash e"])
    have s1: "stored ?c m1 t" using t(1) m1 by (simp add: stored_def)
    have up: "updated ?c m1 = updated ?c m" using m1(2) by (auto simp: updated_def grown_def fun_eq_iff)
    show "wpE (case q of (ups, block, buf) \<Rightarrow> if \<exists>x \<in> set (map (leaf_entry buf) [0..<num_entries (read_header buf)]). e_hash x = e_hash e
        then retE (root t, [], False) else bindE (insert_leaf h e ups block buf) (\<lambda>(root_out, frees). retE (root_out, frees, True)))
        ?Q (\<lambda>e m'. env_error e \<and> cow ?c m m') m1"
      unfolding q prod.case mem
    proof (cases "e_hash e \<in> e_hash ` set (entries t)")
      case False
      then have "e_hash e \<notin> e_hash ` set es" unfolding hash_in_entries [OF fs(1,3)] .
      note ins = insert_leaf_spec [OF m1(1) fs(1) s1 t(2) fs(3) e this hash, unfolded m1(3) up]
      show "wpE (if e_hash e \<in> e_hash ` set (entries t) then retE (root t, [], False)
          else bindE (insert_leaf h e (steps fs) block (view m block)) (\<lambda>(root_out, frees). retE (root_out, frees, True)))
          ?Q (\<lambda>e m'. env_error e \<and> cow ?c m m') m1"
        using False by (simp add: wpE_bind) (rule wpE_mono [OF ins]; auto simp: wp)
    qed (use m1 in \<open>auto simp: wp\<close>)
  qed simp
qed

lemma is_leaf_first:
  assumes e: "entry_ok e"
  shows "is_leaf (set_leaf_entry (write_header make_empty_leaf ((read_header make_empty_leaf)\<lparr>num_entries := 1\<rparr>)) 0 e) [e]"
proof -
  let ?h = "(read_header make_empty_leaf)\<lparr>num_entries := 1\<rparr>" and ?b = "write_header make_empty_leaf ((read_header make_empty_leaf)\<lparr>num_entries := 1\<rparr>)"
  have n: "length make_empty_leaf = BLOCK_SIZE" "h_magic ?h = BTREE_NODE_MAGIC" "node_type ?h = BTREE_LEAF"
    using leaf_node_new [of 0] by (simp_all add: make_empty_leaf_def)
  have "right_child ?h < 2 ^ 64" using rd_le_less [of 8 8 make_empty_leaf] by (simp add: read_header_def Let_def)
  then have h: "header_ok ?h" using n(2) by (simp add: header_ok_def BTREE_NODE_MAGIC_def)
  have b: "length ?b = BLOCK_SIZE" "read_header ?b = clamp ?h" using length_write_header [OF n(1)] read_write_header [OF n(1) h] by simp_all
  have "leaf_entry (set_leaf_entry ?b 0 e) 0 = e" using leaf_entry_set [OF b(1) _ _ e, of 0 0] by simp
  then show ?thesis
    using b n length_set_leaf_entry [OF b(1) _ e, of 0] read_header_set_leaf [OF b(1) _ e, of 0] by (simp add: is_leaf_def leaf_list_def clamp_def)
qed

lemma insert_first_spec:
  assumes inv: "cache_inv (verify_node_checksum h) m" "bm_inv (bmap m)" and e: "entry_ok e" and hash: "\<And>b. length (h b) = 32"
  shows "wpE (btree_insert h 0 e)
    (\<lambda>(r, frees, new) m'. cow (verify_node_checksum h) m m' \<and> frees = [] \<and> new \<and> 0 < r \<and> grown m [r] m' \<and> stored (verify_node_checksum h) m' (BLeaf r [e]))
    (\<lambda>e m'. env_error e \<and> cow (verify_node_checksum h) m m') m"
proof -
  let ?c = "verify_node_checksum h"
  let ?buf = "set_leaf_entry (write_header make_empty_leaf ((read_header make_empty_leaf)\<lparr>num_entries := 1\<rparr>)) 0 e"
  have l: "is_leaf ?buf [e]" by (rule is_leaf_first [OF e])
  show ?thesis unfolding btree_insert_def insert_first_def Let_def if_P [OF refl]
  proof (rule copy_wp [OF cow_refl [OF inv] is_leafD(1) [OF l] hash])
    fix nb m' assume m': "cow ?c m m'" "copied h m [(nb, ?buf)] m'"
    note w = copiedD [OF m'(2) _ hash, of nb ?buf]
    show "wpE (retE (nb, [], True)) (\<lambda>(r, frees, new) m'. cow ?c m m' \<and> frees = [] \<and> new \<and> 0 < r \<and> grown m [r] m' \<and> stored ?c m' (BLeaf r [e]))
        (\<lambda>e m'. env_error e \<and> cow ?c m m') m'"
      using m'(1) w l by (simp add: wp)
  qed simp
qed

section \<open>Deletion\<close>

text \<open>Every node has a key. Deletion does not keep this: a node whose last keyed child goes away stays,
  with its right child only.\<close>

fun keyed :: "btree \<Rightarrow> bool" where
  "keyed (BLeaf b es) \<longleftrightarrow> True"
| "keyed (BNode b kts t) \<longleftrightarrow> kts \<noteq> [] \<and> (\<forall>kt \<in> set kts. keyed (snd kt)) \<and> keyed t"

text \<open>A node whose child in the hole is gone.\<close>

fun fdrop :: "nat \<Rightarrow> frame \<Rightarrow> btree" where
  "fdrop nb (FMid b ls k rs t) = BNode nb (ls @ rs) t"
| "fdrop nb (FLast b ls) = BNode nb (butlast ls) (snd (last ls))"

fun fkeys :: "frame \<Rightarrow> nat" where
  "fkeys (FMid b ls k rs t) = Suc (length ls + length rs)"
| "fkeys (FLast b ls) = length ls"

lemma keyed_fill: "keyed (fill f x) \<Longrightarrow> keyed x \<and> 0 < fkeys f"
  by (cases f) auto

lemma keyed_hole: "keyed (plug fs x) \<Longrightarrow> keyed x"
  by (induction fs arbitrary: x) (auto dest: keyed_fill)

lemma keyed_plug: "keyed (plug (f # fs) x) \<Longrightarrow> 0 < fkeys f"
  using keyed_hole [of fs "fill f x"] keyed_fill [of f x] by simp

lemma ordered_cut: "ordered (xs @ ms @ ys) \<Longrightarrow> ordered (xs @ ys)"
  by (simp add: ordered_append)

lemma frame_cases:
  assumes "0 < fkeys f"
  obtains b ls k rs t where "f = FMid b ls k rs t" | b ls k c where "f = FLast b (ls @ [(k, c)])"
proof (cases f)
  case (FLast b ls)
  then have "ls = butlast ls @ [(fst (last ls), snd (last ls))]" using assms by simp
  then show ?thesis using FLast that(2) by metis
qed (rule that(1))

lemma flat_fdrop:
  assumes "0 < fkeys f"
  shows "ents (flat (fdrop nb f)) = ents (lpre f @ rpost f)" "mset (blocks (fdrop nb f)) = add_mset nb (siblings f)" "root (fdrop nb f) = nb"
    "height (fill f x) \<le> n \<Longrightarrow> height (fdrop nb f) \<le> n"
    "ordered (xs @ (lpre f @ mid @ rpost f) @ ys) \<Longrightarrow> ordered (xs @ flat (fdrop nb f) @ ys)"
proof -
  show "ents (flat (fdrop nb f)) = ents (lpre f @ rpost f)" "mset (blocks (fdrop nb f)) = add_mset nb (siblings f)" "root (fdrop nb f) = nb"
    by (rule frame_cases [OF assms]; simp)+
  show "height (fill f x) \<le> n \<Longrightarrow> height (fdrop nb f) \<le> n"
    by (rule frame_cases [OF assms]) (auto simp: height_le simp del: height.simps)
  show "ordered (xs @ flat (fdrop nb f) @ ys)" if o: "ordered (xs @ (lpre f @ mid @ rpost f) @ ys)"
  proof (rule frame_cases [OF assms])
    fix b ls k rs t assume f: "f = FMid b ls k rs t"
    show ?thesis using ordered_cut [of "xs @ lpre f" "mid @ [Inl k]" "flat (BNode b rs t) @ ys"] o by (simp add: f)
  next
    fix b ls k c assume f: "f = FLast b (ls @ [(k, c)])"
    show ?thesis using ordered_cut [of "xs @ flat (BNode b ls c)" "[Inl k] @ mid" ys] o by (simp add: f)
  qed
qed

lemma is_node_fdrop:
  assumes n: "is_node buf (map (map_prod id root) kts) (root t)" and f: "fill f x = BNode b kts t" and k: "0 < fkeys f"
    and d: "fdrop nb f = BNode nb kts' t'"
  shows "is_node (drop_child buf (read_header buf) (findex f)) (map (map_prod id root) kts') (root t')"
proof (cases f)
  case (FMid b1 ls k1 rs t1)
  then have "kts = ls @ (k1, x) # rs" "t1 = t" using f by auto
  then show ?thesis using is_node_drop_child [OF n, of "length ls"] FMid d by auto
next
  case (FLast b1 ls)
  then have l: "ls = kts" "x = t" "kts \<noteq> []" using f k by auto
  then show ?thesis using is_node_drop_right [OF n] FLast d by (auto simp: map_butlast last_map)
qed

lemma stored_fdrop:
  assumes "stored chk m (fill f x)" and "0 < fkeys f" and "fdrop nb f = BNode nb kts t" and "nb < 2 ^ 64"
    and "nb \<notin> free_blocks (bmap m)" and "chk (view m nb)" and "is_node (view m nb) (map (map_prod id root) kts) (root t)"
  shows "stored chk m (fdrop nb f)"
  unfolding assms(3) using assms by (cases rule: frame_cases [OF assms(2)]) auto

lemma fdrop_single:
  assumes "fkeys f = 1"
  shows "\<exists>y. fdrop nb f = BNode nb [] y"
  using assms by (cases f) (auto simp: butlast_conv_take)

lemma remaining_child:
  assumes n: "is_node buf (map (map_prod id root) kts) (root t)" and f: "fill f x = BNode b kts t" and k: "fkeys f = 1" and y: "fdrop nb f = BNode nb [] y"
  shows "(if findex f = 0 then (if num_entries (read_header buf) > 0 then right_child (read_header buf) else 0) else internal_child buf 0) = root y"
proof (cases f)
  case (FMid b1 ls k1 rs t1)
  then show ?thesis using is_nodeD(4,5) [OF n] f k y by auto
next
  case (FLast b1 ls)
  then have "kts = ls" "x = t" "length ls = 1" using f k by auto
  then show ?thesis using is_nodeD(9) [OF n, of 0] FLast y by (auto simp: length_Suc_conv)
qed

lemma remove_from_parent_spec:
  assumes c: "cow (verify_node_checksum h) m0 m" and t: "t = plug (f # fs) (BLeaf block es)" "stored (verify_node_checksum h) m t" "search_tree t"
    and k: "0 < fkeys f" and z: "0 \<notin> set (blocks t)" and hash: "\<And>b. length (h b) = 32"
  shows "wpE (remove_from_parent h (steps (f # fs)) [block])
    (\<lambda>(r, frees) m'. updated (verify_node_checksum h) m t (ents (before (f # fs)) @ ents (after (f # fs))) r frees m' \<and> cow (verify_node_checksum h) m0 m')
    (\<lambda>e m'. env_error e \<and> cow (verify_node_checksum h) m0 m') m"
proof -
  let ?c = "verify_node_checksum h"
  let ?Q = "\<lambda>(r, frees) m'. updated ?c m t (ents (before (f # fs)) @ ents (after (f # fs))) r frees m' \<and> cow ?c m0 m'"
  let ?R = "\<lambda>e m'. env_error e \<and> cow ?c m0 m'"
  obtain b kts t1 where n: "fill f (BLeaf block es) = BNode b kts t1" and b: "fblock f = b" by (cases f) auto
  have st: "stored ?c m (BNode b kts t1)" using stored_plug [of ?c m fs "fill f (BLeaf block es)"] t(1,2) unfolding path_simps(2) n by blast
  have nd: "is_node (view m b) (map (map_prod id root) kts) (root t1)" and rd: "b < 2 ^ 64" "?c (view m b)" using st by auto
  have fk: "fkeys f = length kts" using n by (cases f) auto
  have o: "ordered (before fs @ (lpre f @ map Inr es @ rpost f) @ after fs)" using t(1,3) by (simp add: search_tree_def flat_plug flat_fill)
  let ?buf = "view m b" let ?hdr = "read_header (view m b)"
  show ?thesis unfolding path_simps(4) remove_from_parent.simps b
  proof (rule read_wp [OF c rd])
    fix m1 assume m1: "cow ?c m0 m1" "bmap m1 = bmap m" "view m1 = view m"
    have same: "stored ?c m1 y" if "stored ?c m y" for y using that m1 by (simp add: stored_def)
    show "wpE (let hdr = ?hdr; n = num_entries hdr in if n \<le> 1 \<and> steps fs = []
          then retE (if findex f = 0 then (if n > 0 then right_child hdr else 0) else internal_child ?buf 0, [block] @ [b])
          else bindE (alloc_blocks 1) (\<lambda>new_parent. bindE (write_node h new_parent (drop_child ?buf hdr (findex f))) (\<lambda>_.
                 fixup_path h (steps fs) new_parent ([block] @ [b])))) ?Q ?R m1"
    proof (cases "fkeys f \<le> 1 \<and> fs = []")
      case True
      then have "fkeys f = 1" using k by simp
      then obtain y where y: "fdrop 0 f = BNode 0 [] y" using fdrop_single by blast
      note fd = flat_fdrop [OF k, where nb = 0]
      have "stored ?c m1 y" using same [OF st [folded n]] y by (cases rule: frame_cases [OF k]) auto
      moreover have "search_tree y" "entries y = ents (lpre f @ rpost f)" using fd(1) fd(5) [OF o] True y by (simp_all add: search_tree_def entries_flat)
      moreover have "height y \<le> Suc (height t)"
        using fd(4) [where x = "BLeaf block es" and n = "height (fill f (BLeaf block es))"] True t(1) y by (auto simp: height_le simp del: height.simps)
      moreover have "mset (blocks y) = siblings f" using fd(2) y by simp
      then have "mset (blocks y) + mset [block, b] = mset (blocks t) + mset []" using True t(1) b by (simp add: blocks_fill)
      moreover have "0 < root y"
      proof -
        have "root y \<in># siblings f" using root_in_blocks [of y] unfolding \<open>mset (blocks y) = siblings f\<close> [symmetric] by simp
        then have "root y \<in># mset (blocks t)" using True t(1) by (simp add: blocks_fill del: set_mset_mset)
        then show ?thesis using z by (cases "root y") auto
      qed
      ultimately have "updated ?c m t (ents (before (f # fs)) @ ents (after (f # fs))) (root y) [block, b] m1"
        using True grown_refl [OF m1(2)] unfolding updated_def by (intro exI [of _ y] exI [of _ "[]"]) simp
      then show ?thesis using remaining_child [OF nd n \<open>fkeys f = 1\<close> y] True m1(1) fk is_nodeD(4) [OF nd] by (simp add: Let_def wp)
    next
      case False
      let ?new = "drop_child ?buf ?hdr (findex f)"
      obtain kts' t' where d: "\<And>nb. fdrop nb f = BNode nb kts' t'" by (cases f) auto
      have nn: "is_node ?new (map (map_prod id root) kts') (root t')" by (rule is_node_fdrop [OF nd n k d])
      have "wpE (bindE (alloc_blocks 1) (\<lambda>nb. bindE (write_node h nb ?new) (\<lambda>_. fixup_path h (steps fs) nb ([block] @ [b])))) ?Q ?R m1"
      proof (rule copy_wp [OF m1(1) is_nodeD(1) [OF nn] hash])
        fix nb m3 assume m3: "cow ?c m0 m3" "copied h m1 [(nb, ?new)] m3"
        note w = copiedD [OF m3(2) _ hash, of nb ?new]
        note fd = flat_fdrop [OF k, where nb = nb]
        have keep: "stored ?c m3 y" if "stored ?c m y" for y using copied_stored [OF m3(2) same [OF that]] .
        have x: "stored ?c m3 (fdrop nb f)" using stored_fdrop [OF keep [OF st [folded n]] k d] w nn by simp
        show "wpE (fixup_path h (steps fs) nb ([block] @ [b])) ?Q ?R m3"
        proof (rule wpE_mono [OF fixup_path_spec [OF m3(1) keep x, where old = "[block] @ [b]", unfolded fd(3)]])
          show "stored ?c m (plug fs (fill f (BLeaf block es)))" using t(1,2) by simp
          show "height (fdrop nb f) \<le> height (fill f (BLeaf block es))" by (rule fd(4) [OF order_refl])
          fix q m' assume q: "(\<lambda>(r, frees) m'. rebuilt ?c m3 fs (flat (fdrop nb f)) (mset (blocks (fdrop nb f))) (height (plug fs (fill f (BLeaf block es)))) m' r \<and>
            frees = ([block] @ [b]) @ map fblock fs \<and> cow ?c m0 m') q m'"
          obtain r frees where qq: "q = (r, frees)" by (cases q)
          then obtain t2 new where t2: "stored ?c m' t2" "root t2 = r" "0 < r" "flat t2 = before fs @ flat (fdrop nb f) @ after fs" "height t2 \<le> height t"
            "grown m3 new m'" "mset (blocks t2) + mset (map fblock fs) = ctx_blocks fs + add_mset nb (siblings f) + mset new"
            using q t(1) unfolding rebuilt_def fd(2) by auto
          have "mset (blocks t2) + mset frees = mset (blocks t) + mset (nb # new)"
            using t2(7) q qq t(1) b by (simp add: blocks_plug blocks_fill ac_simps)
          moreover have "search_tree t2" "entries t2 = ents (before (f # fs)) @ ents (after (f # fs))"
            using fd(1) fd(5) [OF o] t2(4) by (simp_all add: search_tree_def entries_flat)
          moreover have "grown m (nb # new) m'" using grown_trans [of m "[nb]" m3 new m'] w(1) m1(2) t2(6) by (simp add: grown_def)
          ultimately show "?Q q m'" using t2 q qq unfolding updated_def by (auto intro!: exI [of _ t2] exI [of _ "nb # new"])
        qed (use w hash in auto)
      qed simp
      then show ?thesis using False is_nodeD(4) [OF nd] fk by (cases fs) (auto simp: Let_def)
    qed
  qed simp
qed

lemma leaf_position_eq: "is_leaf buf es \<Longrightarrow> leaf_position buf (read_header buf) key = position (\<lambda>e. e_hash e = key) es"
proof -
  assume leaf: "is_leaf buf es"
  note l = is_leafD [OF leaf]
  have "find (\<lambda>i. e_hash (leaf_entry buf i) = key) [0..<length es] = find (\<lambda>i. e_hash (es ! i) = key) [0..<length es]"
    by (rule find_cong) (use l(7) in auto)
  also have "\<dots> = position (\<lambda>e. e_hash e = key) es" by (rule find_upt_position)
  finally show ?thesis using l(4) by (simp add: leaf_position_def)
qed

lemma remove_at_sorted:
  assumes "sorted_wrt (\<lambda>a b. e_hash a < e_hash b) es" and "position (\<lambda>e. e_hash e = key) es = Some i"
  shows "take i es @ drop (i + 1) es = filter (\<lambda>e. e_hash e \<noteq> key) es"
  using assms
proof (induction es arbitrary: i)
  case (Cons a es)
  show ?case
  proof (cases "e_hash a = key")
    case True
    then have "filter (\<lambda>e. e_hash e \<noteq> key) es = es" using Cons.prems(1) by (auto simp: filter_id_conv)
    then show ?thesis using True Cons.prems(2) by simp
  next
    case False
    then show ?thesis using Cons by (auto split: option.splits)
  qed
qed simp

lemma filter_other:
  fixes key :: bytes
  shows "filter (\<lambda>e. e_hash e < key) xs = xs \<Longrightarrow> filter (\<lambda>e. e_hash e \<noteq> key) xs = xs"
    "filter (\<lambda>e. key < e_hash e) xs = xs \<Longrightarrow> filter (\<lambda>e. e_hash e \<noteq> key) xs = xs"
  by (auto simp: filter_id_conv)

lemma ordered_filter: "ordered (xs @ map Inr es @ ys) \<Longrightarrow> ordered (xs @ map Inr (filter P es) @ ys)"
  by (auto simp: ordered_append ordered_leaf sorted_wrt_filter simp del: fkey_simps)

lemma btree_delete_spec:
  assumes inv: "cache_inv (verify_node_checksum h) m" "bm_inv (bmap m)" and t: "stored (verify_node_checksum h) m t" "search_tree t"
      "height t \<le> MAX_TREE_DEPTH" "0 \<notin> set (blocks t)" "keyed t" and hash: "\<And>b. length (h b) = 32"
  shows "wpE (btree_delete h (root t) key)
    (\<lambda>(r, frees) m'. cow (verify_node_checksum h) m m' \<and> key \<in> e_hash ` set (entries t) \<and>
       (updated (verify_node_checksum h) m t (filter (\<lambda>e. e_hash e \<noteq> key) (entries t)) r frees m' \<or>
        r = 0 \<and> frees = blocks t \<and> filter (\<lambda>e. e_hash e \<noteq> key) (entries t) = []))
    (\<lambda>e m'. (env_error e \<or> e = ObjectNotFound \<and> key \<notin> e_hash ` set (entries t) \<and> view m' = view m \<and> bmap m' = bmap m) \<and>
       cow (verify_node_checksum h) m m') m"
proof -
  let ?c = "verify_node_checksum h"
  let ?rest = "filter (\<lambda>e. e_hash e \<noteq> key) (entries t)"
  let ?Q = "\<lambda>(r, frees) m'. cow ?c m m' \<and> key \<in> e_hash ` set (entries t) \<and>
       (updated ?c m t ?rest r frees m' \<or> r = 0 \<and> frees = blocks t \<and> ?rest = [])"
  let ?R = "\<lambda>e m'. (env_error e \<or> e = ObjectNotFound \<and> key \<notin> e_hash ` set (entries t) \<and> view m' = view m \<and> bmap m' = bmap m) \<and> cow ?c m m'"
  have d: "length [] + height t \<le> MAX_TREE_DEPTH" using t(3) by simp
  have r0: "root t \<noteq> 0" using t(4) root_in_blocks [of t] by metis
  show ?thesis
  proof (simp only: btree_delete_def r0 if_False wpE_bind, rule wpE_mono [OF descend_spec [OF cow_refl [OF inv] t(1,2) d]])
    fix q m1
    assume "(\<lambda>(ups', block, buf) m'. (\<exists>fs es. t = plug fs (BLeaf block es) \<and> ups' = steps fs @ [] \<and> buf = view m block \<and>
        is_leaf buf es \<and> around key (before fs) (after fs)) \<and> cow ?c m m' \<and> bmap m' = bmap m \<and> view m' = view m) q m1"
    then obtain fs es block where q: "q = (steps fs, block, view m block)" and fs: "t = plug fs (BLeaf block es)" "is_leaf (view m block) es"
        "around key (before fs) (after fs)" and m1: "cow ?c m m1" "bmap m1 = bmap m" "view m1 = view m" by (cases q) auto
    let ?buf = "view m block" let ?hdr = "read_header (view m block)"
    note l = is_leafD [OF fs(2)] and pos = leaf_position_eq [OF fs(2), of key]
    note mem = hash_in_entries [OF fs(1,3)]
    have s1: "stored ?c m1 t" using t(1) m1 by (simp add: stored_def)
    have o: "ordered (before fs @ map Inr es @ after fs)" using fs(1) t(2) by (simp add: search_tree_def flat_plug)
    have s: "sorted_wrt (\<lambda>a b. e_hash a < e_hash b) es" using ordered_middle [OF o] by (simp add: ordered_leaf)
    have up: "updated ?c m1 = updated ?c m" using m1(2) by (auto simp: updated_def grown_def fun_eq_iff)
    have rest: "?rest = ents (before fs) @ filter (\<lambda>e. e_hash e \<noteq> key) es @ ents (after fs)"
      using filter_other(1) [OF ents_around(1) [OF fs(3)]] filter_other(2) [OF ents_around(4) [OF fs(3)]] fs(1)
      by (simp add: entries_flat flat_plug comp_def)
    show "wpE (case q of (ups, block, buf) \<Rightarrow> let hdr = read_header buf in case leaf_position buf hdr key of None \<Rightarrow> throwE ObjectNotFound
          | Some pos \<Rightarrow> if num_entries hdr = 1 \<and> ups \<noteq> [] then remove_from_parent h ups [block]
              else bindE (alloc_blocks 1) (\<lambda>new_block. bindE (write_node h new_block (remove_leaf_entry buf hdr pos)) (\<lambda>_.
                   if ups = [] \<and> num_entries hdr = 1 then retE (0, [block]) else fixup_path h ups new_block [block]))) ?Q ?R m1"
    proof (cases "position (\<lambda>e. e_hash e = key) es")
      case None
      then have "key \<notin> e_hash ` set (entries t)" unfolding mem by (auto simp: position_None_iff)
      then show ?thesis using None pos m1 by (simp add: q Let_def wp)
    next
      case (Some i)
      note p = position_SomeD [OF Some]
      have in_t: "key \<in> e_hash ` set (entries t)" unfolding mem using p by force
      have es': "take i es @ drop (i + 1) es = filter (\<lambda>e. e_hash e \<noteq> key) es" by (rule remove_at_sorted [OF s Some])
      have rest_i: "?rest = ents (before fs @ map Inr (take i es @ drop (i + 1) es) @ after fs)" unfolding rest es' by (simp add: comp_def)
      have o': "ordered (before fs @ map Inr (take i es @ drop (i + 1) es) @ after fs)" unfolding es' by (rule ordered_filter [OF o])
      show ?thesis
      proof (cases "length es = 1 \<and> fs \<noteq> []")
        case True
        then obtain f fs' where ff: "fs = f # fs'" by (cases fs) auto
        have k: "0 < fkeys f" using keyed_plug t(5) fs(1) ff by blast
        have "filter (\<lambda>e. e_hash e \<noteq> key) es = []" using True p by (auto simp: length_Suc_conv)
        then have "?rest = ents (before (f # fs')) @ ents (after (f # fs'))" unfolding rest ff by simp
        then have "wpE (remove_from_parent h (steps fs) [block]) ?Q ?R m1"
          unfolding ff by (intro wpE_mono [OF remove_from_parent_spec [OF m1(1) fs(1) [unfolded ff] s1 t(2) k t(4) hash, unfolded up]])
            (use in_t in auto)
        then show ?thesis using True Some pos l(4) by (cases fs) (simp_all add: q Let_def)
      next
        case False
        let ?new = "remove_leaf_entry ?buf ?hdr i"
        have nl: "is_leaf ?new (take i es @ drop (i + 1) es)" by (rule is_leaf_remove [OF fs(2)]) (use p in simp)
        have "wpE (bindE (alloc_blocks 1) (\<lambda>nb. bindE (write_node h nb ?new) (\<lambda>_.
            if steps fs = [] \<and> num_entries ?hdr = 1 then retE (0, [block]) else fixup_path h (steps fs) nb [block]))) ?Q ?R m1"
        proof (rule copy_wp [OF m1(1) is_leafD(1) [OF nl] hash])
          fix nb m3 assume m3: "cow ?c m m3" "copied h m1 [(nb, ?new)] m3"
          note w = copiedD [OF m3(2) _ hash, of nb ?new]
          have x: "stored ?c m3 (BLeaf nb (take i es @ drop (i + 1) es))" using w nl by simp
          have g: "grown m [nb] m3" using w(1) m1(2) by (simp add: grown_def)
          have "wpE (fixup_path h (steps fs) nb [block]) ?Q ?R m3"
          proof (rule wpE_mono [OF fixup_path_spec [OF m3(1) copied_stored [OF m3(2) s1 [unfolded fs(1)]] x, where old = "[block]", unfolded root.simps]])
            fix q m' assume "(\<lambda>(r, frees) m'. rebuilt ?c m3 fs (flat (BLeaf nb (take i es @ drop (i + 1) es)))
                (mset (blocks (BLeaf nb (take i es @ drop (i + 1) es)))) (height (plug fs (BLeaf block es))) m' r \<and>
              frees = [block] @ map fblock fs \<and> cow ?c m m') q m'"
            then show "?Q q m'" using rebuilt_updated [OF _ g _ o', where block = block and es = es and chk = ?c, folded rest_i] fs(1) in_t by auto
          qed (use w hash in auto)
          moreover have "?rest = []" if "fs = []" "length es = 1"
            unfolding rest using that p by (auto simp: length_Suc_conv)
          ultimately show "wpE (if steps fs = [] \<and> num_entries ?hdr = 1 then retE (0, [block]) else fixup_path h (steps fs) nb [block]) ?Q ?R m3"
            using l(4) fs(1) in_t m3(1) by (cases fs) (auto simp: wp)
        qed simp
        moreover have "\<not> (num_entries ?hdr = 1 \<and> steps fs \<noteq> [])" using False l(4) by (cases fs) auto
        ultimately show ?thesis unfolding q prod.case Let_def pos Some option.case by (simp only: if_False)
      qed
    qed
  qed simp
qed

end
