(* ===== verification/Disk_Keys.thy ===== *)
theory Disk_Keys
  imports Prelude
begin

text \<open>
  The keys derived from the disk's data key (\<open>kernel/src/crypto/aead.rs\<close>): one per purpose, held while the
  disk is unlocked, and the content addresses, object keys and AES-256-GCM calls made with them. BLAKE3 and
  AES-GCM are external crates: what the code calls of them is the record \<open>ciphers\<close>, and \<open>ciphers_ok\<close> names
  what it relies on.
\<close>

section \<open>Definitions\<close>

record ciphers =
  blake_derive :: "bytes \<Rightarrow> bytes \<Rightarrow> bytes"
  blake_keyed :: "bytes \<Rightarrow> bytes \<Rightarrow> bytes"
  aes_seal :: "bytes \<Rightarrow> bytes \<Rightarrow> bytes \<Rightarrow> bytes option"
  aes_open :: "bytes \<Rightarrow> bytes \<Rightarrow> bytes \<Rightarrow> bytes \<Rightarrow> bytes option"

record disk_keys =
  dk_data :: bytes
  dk_address :: bytes
  dk_vault :: bytes

definition CTX_DATA :: bytes where "CTX_DATA = lit ''nopeekOS npkfs data key v1''"
definition CTX_ADDRESS :: bytes where "CTX_ADDRESS = lit ''nopeekOS npkfs address key v1''"
definition CTX_VAULT :: bytes where "CTX_VAULT = lit ''nopeekOS vault key v1''"

text \<open>The value of \<open>DISK_KEYS\<close> after unlocking and after locking.\<close>

definition set_disk_key :: "ciphers \<Rightarrow> bytes \<Rightarrow> disk_keys option" where
  "set_disk_key c dek = Some \<lparr>dk_data = blake_derive c CTX_DATA dek,
     dk_address = blake_derive c CTX_ADDRESS dek, dk_vault = blake_derive c CTX_VAULT dek\<rparr>"

definition clear_disk_key :: "disk_keys option" where
  "clear_disk_key = None"

definition disk_unlocked :: "disk_keys option \<Rightarrow> bool" where
  "disk_unlocked ks \<longleftrightarrow> ks \<noteq> None"

definition vault_subkey :: "disk_keys option \<Rightarrow> bytes option" where
  "vault_subkey ks = map_option dk_vault ks"

definition object_address :: "ciphers \<Rightarrow> disk_keys option \<Rightarrow> bytes \<Rightarrow> bytes option" where
  "object_address c ks bs = map_option (\<lambda>k. blake_keyed c (dk_address k) bs) ks"

definition object_key :: "ciphers \<Rightarrow> disk_keys option \<Rightarrow> bytes \<Rightarrow> (bytes \<times> bytes) option" where
  "object_key c ks address = map_option (\<lambda>k. (blake_keyed c (dk_data k) address, take 12 address)) ks"

definition aead_encrypt_aes :: "ciphers \<Rightarrow> bytes \<Rightarrow> bytes \<Rightarrow> bytes \<Rightarrow> bytes" where
  "aead_encrypt_aes c key nonce plaintext =
     (case aes_seal c key nonce plaintext of Some ct \<Rightarrow> ct | None \<Rightarrow> [])"

definition aead_decrypt_aes_in_place :: "ciphers \<Rightarrow> bytes \<Rightarrow> bytes \<Rightarrow> bytes \<Rightarrow> bytes option" where
  "aead_decrypt_aes_in_place c key nonce buf =
     (if length buf < 16 then None
      else aes_open c key nonce (take (length buf - 16) buf) (drop (length buf - 16) buf))"

text \<open>
  What the code relies on of the crates: an encryption is the message's length and a 16-byte tag and opens to
  the message, a message that fits the counter of GCM can be encrypted, and a hash has 32 bytes.
\<close>

definition AES_LIMIT :: nat where "AES_LIMIT = 2 ^ 36 - 32"

definition ciphers_ok :: "ciphers \<Rightarrow> bool" where
  "ciphers_ok c \<longleftrightarrow>
     (\<forall>k n m ct. aes_seal c k n m = Some ct \<longrightarrow>
        length ct = length m + 16 \<and> aes_open c k n (take (length m) ct) (drop (length m) ct) = Some m) \<and>
     (\<forall>k n m. length m \<le> AES_LIMIT \<longrightarrow> aes_seal c k n m \<noteq> None) \<and>
     (\<forall>k m. length (blake_keyed c k m) = 32) \<and> (\<forall>x m. length (blake_derive c x m) = 32)"

lemma aes_roundtrip:
  assumes "ciphers_ok c" and "length m \<le> AES_LIMIT"
  shows "aead_decrypt_aes_in_place c k n (aead_encrypt_aes c k n m) = Some m"
    and "length (aead_encrypt_aes c k n m) = length m + 16"
proof -
  from assms obtain ct where ct: "aes_seal c k n m = Some ct" unfolding ciphers_ok_def by blast
  with assms(1) have "length ct = length m + 16" "aes_open c k n (take (length m) ct) (drop (length m) ct) = Some m"
    unfolding ciphers_ok_def by blast+
  with ct show "aead_decrypt_aes_in_place c k n (aead_encrypt_aes c k n m) = Some m"
    and "length (aead_encrypt_aes c k n m) = length m + 16"
    by (simp_all add: aead_decrypt_aes_in_place_def aead_encrypt_aes_def)
qed

end
