(* ===== verification/Object_Storage.thy ===== *)
theory Object_Storage
  imports Superblock_Ring Fs_Journal Btree_Trees Disk_Keys
begin

text \<open>
  The object store of \<open>kernel/src/storage/npkfs/storage.rs\<close>: formatting and mounting, the content-addressed
  \<open>put\<close>, \<open>get\<close> and removal of encrypted objects, their extents and indirect chains, the four-phase commit, and
  the read-only self-check. The state behind the lock \<open>FS\<close> is the record \<open>fs_io\<close>, which extends the state of
  the journal, bitmap and cache; \<open>mounted\<close> says whether \<open>FS\<close> holds one. \<open>put\<close> gives the lock up while it
  writes the object's data, so it is the composition of the steps between. The argument \<open>h\<close> is unkeyed
  BLAKE3, \<open>c\<close> the ciphers. A legacy disk halts the machine, which is the error \<open>Halted\<close>.
\<close>

section \<open>State\<close>

record fs_io = jrnl_io +
  fs_sb :: superblock
  fs_generation :: nat
  pending_old_blocks :: "nat list"
  mounted :: bool
  disk_key :: "disk_keys option"
  commits_since_gc :: nat

datatype fs_stop = Fs fs_error | Halted nat

definition lift_fs :: "('s, fs_error, 'a) op \<Rightarrow> ('s, fs_stop, 'a) op" where
  "lift_fs f m = (case f m of (Inr a, m') \<Rightarrow> (Inr a, m') | (Inl e, m') \<Rightarrow> (Inl (Fs e), m'))"

text \<open>\<open>fs_lock().as_mut().ok_or(FsError::NotMounted)?\<close>, and an update of the state as a step.\<close>

definition need_mounted :: "('a fs_io_scheme, fs_error, unit) op" where
  "need_mounted m = (if mounted m then (Inr (), m) else (Inl NotMounted, m))"

definition modify :: "('s \<Rightarrow> 's) \<Rightarrow> ('s, 'e, unit) op" where
  "modify f m = (Inr (), f m)"

definition gets :: "('s \<Rightarrow> 'a) \<Rightarrow> ('s, 'e, 'a) op" where
  "gets f m = (Inr (f m), m)"

definition upd_sb :: "(superblock \<Rightarrow> superblock) \<Rightarrow> ('a fs_io_scheme, 'e, unit) op" where
  "upd_sb f = modify (\<lambda>m. m\<lparr>fs_sb := f (fs_sb m)\<rparr>)"

text \<open>A \<open>BlockCache\<close> and \<open>Bitmap\<close> local to a function: the ones of the mounted state stay as they are, and the
  local cache gives its frames back when it is dropped.\<close>

definition restore_local :: "'a fs_io_scheme \<Rightarrow> 'a fs_io_scheme \<Rightarrow> 'a fs_io_scheme" where
  "restore_local old m = m\<lparr>slots := slots old, cmap := cmap old, lru_head := lru_head old, lru_tail := lru_tail old,
     idle := idle old, spare := spare old, dirty_list := dirty_list old, bmap := bmap old\<rparr>"

definition with_local :: "('a fs_io_scheme, 'e, 'b) op \<Rightarrow> ('a fs_io_scheme, 'e, 'b) op" where
  "with_local body m = (case body (cache_new m) of (r, m') \<Rightarrow> (r, restore_local m (cache_drop m')))"

section \<open>Lifecycle\<close>

definition mkfs_superblock :: "nat \<Rightarrow> nat \<Rightarrow> nat \<Rightarrow> nat \<Rightarrow> nat \<Rightarrow> bytes \<Rightarrow> superblock" where
  "mkfs_superblock total_blocks free bitmap_start bitmap_count data_start salt =
     \<lparr>sb_magic = DISK_MAGIC, sb_version = DISK_VERSION, sb_flags = 0, sb_generation = 1, sb_total_blocks = total_blocks,
      sb_free_blocks = free, sb_bitmap_start = bitmap_start, sb_bitmap_count = bitmap_count,
      sb_data_start = data_start, sb_btree_root = 0, sb_root_tree_hash = replicate 32 0, sb_object_count = 0,
      sb_journal_head = 0, sb_journal_seq = 0, sb_install_salt = take 16 salt,
      sb_keyslots = replicate KEYSLOTS (replicate SLOT_BYTES 0), sb_reserved = replicate 3664 0,
      sb_checksum = replicate 32 0\<rparr>"

text \<open>The draw of \<open>csprng::random_256\<close> is the argument \<open>install_salt\<close>.\<close>

definition mkfs_body :: "(bytes \<Rightarrow> bytes) \<Rightarrow> bytes \<Rightarrow> nat \<Rightarrow> ('a fs_io_scheme, fs_error, unit) op" where
  "mkfs_body h install_salt total_blocks =
     (let bitmap_start = META_END;
          bitmap_count = (total_blocks + BLOCK_SIZE * 8 - 1) div (BLOCK_SIZE * 8);
          data_start = bitmap_start + bitmap_count;
          bm = new_for_mkfs total_blocks bitmap_start bitmap_count data_start;
          sb = mkfs_superblock total_blocks (bm_free bm) bitmap_start bitmap_count data_start install_salt
      in bindE (forE (\<lambda>i. cache_write (JOURNAL_START + i) (replicate BLOCK_SIZE 0)) [0..<JOURNAL_BLOCKS]) (\<lambda>_.
         bindE (modify (\<lambda>m. m\<lparr>bmap := bm\<rparr>)) (\<lambda>_.
         bindE bm_sync (\<lambda>_.
         bindE (write_all h sb) (\<lambda>_.
           cache_flush)))))"

definition mkfs :: "(bytes \<Rightarrow> bytes) \<Rightarrow> bytes \<Rightarrow> ('a fs_io_scheme, fs_error, unit) op" where
  "mkfs h install_salt m =
     (case block_count (dev m) of
        None \<Rightarrow> (Inl (Disk NotInitialized), m)
      | Some total_blocks \<Rightarrow>
          if total_blocks < META_END + 16 then (Inl DiskFull, m)
          else with_local (mkfs_body h install_salt total_blocks) m)"

definition probe_disk :: "(bytes \<Rightarrow> bytes) \<Rightarrow> ('a fs_io_scheme, fs_error, sb_probe) op" where
  "probe_disk h = with_local (\<lambda>m. case probe h m of (p, m') \<Rightarrow> (Inr p, m'))"

definition mount_choose :: "(bytes \<Rightarrow> bytes) \<Rightarrow> ('a fs_io_scheme, fs_stop, superblock) op" where
  "mount_choose h =
     bindE (lift_fs (read_best h)) (\<lambda>best.
       case best of
         Some sb \<Rightarrow> retE sb
       | None \<Rightarrow> (\<lambda>m. case read_legacy_magic m of
                    (Some version, m') \<Rightarrow> (Inl (Halted version), m')
                  | (None, m') \<Rightarrow> (Inl (Fs NotFormatted), m')))"

definition mount_body :: "(bytes \<Rightarrow> bytes) \<Rightarrow> ('a fs_io_scheme, fs_stop, superblock) op" where
  "mount_body h =
     bindE (mount_choose h) (\<lambda>sb.
     bindE (gets (\<lambda>m. block_count (dev m))) (\<lambda>disk.
     case disk of
       None \<Rightarrow> throwE (Fs (Disk NotInitialized))
     | Some disk_blocks \<Rightarrow>
         if sb_total_blocks sb > disk_blocks then throwE (Fs Corrupt)
         else if sb_journal_head sb \<ge> JOURNAL_BLOCKS then throwE (Fs Corrupt)
         else
         bindE (lift_fs (replay (sb_journal_head sb) (sb_journal_seq sb))) (\<lambda>frees.
         bindE (lift_fs (load_args (sb_total_blocks sb) (sb_bitmap_start sb) (sb_bitmap_count sb) (sb_data_start sb))) (\<lambda>bm.
         bindE (modify (\<lambda>m. m\<lparr>bmap := fold (\<lambda>(start, count). bm_free_range start count) frees bm\<rparr>)) (\<lambda>_.
         bindE (if frees \<noteq> [] then bindE (lift_fs bm_sync) (\<lambda>_. lift_fs cache_flush) else retE ()) (\<lambda>_.
           retE sb))))))"

text \<open>A mount that succeeds replaces the state of an earlier one, whose cache is dropped. It also registers
  \<open>shrink_cache\<close> with the memory manager, which is part of \<open>shrinkers\<close> here.\<close>

definition mount :: "(bytes \<Rightarrow> bytes) \<Rightarrow> ('a fs_io_scheme, fs_stop, unit) op" where
  "mount h m =
     (case mount_body h (cache_new m) of
        (Inl e, m') \<Rightarrow> (Inl e, restore_local m (cache_drop m'))
      | (Inr sb, m') \<Rightarrow>
          let m' = (if mounted m then m'\<lparr>frames := frames (cache_drop (m'\<lparr>slots := slots m\<rparr>))\<rparr> else m')
          in (Inr (), m'\<lparr>fs_sb := sb, jrnl := fs_journal_new (sb_journal_head sb) (sb_journal_seq sb),
                         fs_generation := sb_generation sb, pending_old_blocks := [], mounted := True\<rparr>))"

definition cache_held :: "'a fs_io_scheme \<Rightarrow> (nat \<times> nat) option" where
  "cache_held m = (if mounted m then Some (held m) else None)"

text \<open>\<open>shrink_cache\<close>, which the memory manager calls; \<open>busy\<close> is a lock held by someone else.\<close>

definition shrink_cache :: "bool \<Rightarrow> nat \<Rightarrow> 'a fs_io_scheme \<Rightarrow> (nat \<times> 'a fs_io_scheme) option" where
  "shrink_cache busy want m = (if busy \<or> \<not> mounted m then Some (0, m) else shrink want m)"

definition unmount :: "'a fs_io_scheme \<Rightarrow> 'a fs_io_scheme" where
  "unmount m = (if mounted m then cache_new (cache_drop m)\<lparr>mounted := False\<rparr> else m)"

definition is_mounted :: "'a fs_io_scheme \<Rightarrow> bool" where
  "is_mounted m = mounted m"

definition fs_stats :: "'a fs_io_scheme \<Rightarrow> (nat \<times> nat \<times> nat \<times> nat) option" where
  "fs_stats m = (if mounted m then Some (sb_total_blocks (fs_sb m), sb_free_blocks (fs_sb m),
     sb_object_count (fs_sb m), fs_generation m) else None)"

definition fs_keyslot :: "nat \<Rightarrow> 'a fs_io_scheme \<Rightarrow> bytes option" where
  "fs_keyslot i m = (if mounted m \<and> i < length (sb_keyslots (fs_sb m)) then Some (sb_keyslots (fs_sb m) ! i) else None)"

definition has_keyslot :: "'a fs_io_scheme \<Rightarrow> bool" where
  "has_keyslot m \<longleftrightarrow> mounted m \<and> list_ex (\<lambda>k. \<not> slot_is_empty k) (sb_keyslots (fs_sb m))"

definition fs_install_salt :: "'a fs_io_scheme \<Rightarrow> bytes option" where
  "fs_install_salt m = (if mounted m then Some (sb_install_salt (fs_sb m)) else None)"

text \<open>\<open>sb_io::write_next_durable(&mut fs.cache, &mut fs.sb)\<close>: the checksum of the superblock in memory is set
  whether or not the write succeeds.\<close>

definition write_sb :: "(bytes \<Rightarrow> bytes) \<Rightarrow> ('a fs_io_scheme, fs_error, unit) op" where
  "write_sb h =
     bindE (upd_sb (set_checksum h)) (\<lambda>_.
     bindE (gets fs_sb) (\<lambda>sb.
     bindE (write_next_durable h sb) (\<lambda>_. retE ())))"

definition next_generation :: "('a fs_io_scheme, 'e, unit) op" where
  "next_generation = modify (\<lambda>m. m\<lparr>fs_generation := wrap64 (fs_generation m + 1),
     fs_sb := (fs_sb m)\<lparr>sb_generation := wrap64 (fs_generation m + 1)\<rparr>\<rparr>)"

definition set_keyslot :: "(bytes \<Rightarrow> bytes) \<Rightarrow> nat \<Rightarrow> bytes \<Rightarrow> ('a fs_io_scheme, fs_error, unit) op" where
  "set_keyslot h i slot =
     bindE need_mounted (\<lambda>_.
     bindE (gets (\<lambda>m. length (sb_keyslots (fs_sb m)))) (\<lambda>n.
     if i \<ge> n then throwE InvalidName
     else
     bindE (upd_sb (\<lambda>sb. sb\<lparr>sb_keyslots := (sb_keyslots sb)[i := slot]\<rparr>)) (\<lambda>_.
     bindE next_generation (\<lambda>_.
     bindE cache_flush (\<lambda>_.
     bindE (on_dev flush_device) (\<lambda>_.
       write_sb h))))))"

section \<open>Indirect extent chains\<close>

definition indirect_buf :: "extent list \<Rightarrow> nat \<Rightarrow> bytes" where
  "indirect_buf exts next =
     splice 12 (concat (map extent_bytes exts))
       (splice 4 (to_le 8 next) (splice 0 (to_le 4 (length exts)) (replicate BLOCK_SIZE 0)))"

fun alloc_chain :: "nat \<Rightarrow> ('a alloc_io_scheme, fs_error, nat list) op" where
  "alloc_chain 0 = retE []"
| "alloc_chain (Suc n) = bindE (alloc_blocks 1) (\<lambda>b. bindE (alloc_chain n) (\<lambda>bs. retE (b # bs)))"

fun write_chain :: "nat list \<Rightarrow> extent list \<Rightarrow> ('a io_scheme, fs_error, unit) op" where
  "write_chain [] exts = retE ()"
| "write_chain (b # bs) exts =
     (let count = min (length exts) EXTENTS_PER_INDIRECT; next = (case bs of [] \<Rightarrow> 0 | b' # _ \<Rightarrow> b')
      in bindE (cache_write b (indirect_buf (take count exts) next)) (\<lambda>_. write_chain bs (drop count exts)))"

definition write_indirect_extents :: "extent list \<Rightarrow> ('a alloc_io_scheme, fs_error, nat) op" where
  "write_indirect_extents exts =
     bindE (alloc_chain (div_ceil (length exts) EXTENTS_PER_INDIRECT)) (\<lambda>blocks.
     bindE (write_chain blocks exts) (\<lambda>_. retE (blocks ! 0)))"

definition chain_next :: "bytes \<Rightarrow> nat" where
  "chain_next buf = rd_le 8 4 buf"

definition chain_extents :: "bytes \<Rightarrow> extent list" where
  "chain_extents buf = map (\<lambda>j. extent_at (12 + j * 16) buf) [0..<min (rd_le 4 0 buf) EXTENTS_PER_INDIRECT]"

lemma chain_next_less: "chain_next buf < 2 ^ 64"
proof -
  have "from_le (slice 4 8 buf) < 256 ^ length (slice 4 8 buf)" by (rule from_le_bound)
  also have "\<dots> \<le> 256 ^ 8" by (intro power_increasing) (simp_all add: slice_def)
  finally show ?thesis by (simp add: chain_next_def rd_le_def)
qed

abbreviation chain_measure :: "nat \<Rightarrow> nat list \<Rightarrow> nat" where
  "chain_measure block seen \<equiv> 2 * card ({..<2 ^ 64} - set seen) + (if block < 2 ^ 64 then 0 else 1)"

lemma chain_measure_step:
  assumes "block \<notin> set seen" and "next < 2 ^ 64" and "set seen' = insert block (set seen)"
  shows "chain_measure next seen' < chain_measure block seen"
proof (cases "block < 2 ^ 64")
  case True
  have "{..<2 ^ 64} - set seen' = ({..<2 ^ 64} - set seen) - {block}" using assms(3) by auto
  moreover have "block \<in> {..<2 ^ 64} - set seen" using True assms(1) by simp
  ultimately have "card ({..<2 ^ 64} - set seen') < card ({..<2 ^ 64} - set seen)"
    by (metis card_Diff1_less finite_Diff finite_lessThan)
  with True assms(2) show ?thesis by simp
next
  case False
  then have "{..<2 ^ 64} - set seen' = {..<2 ^ 64} - set seen" using assms(3) by auto
  with False assms(2) show ?thesis by simp
qed

function read_chain :: "extent list \<Rightarrow> nat list \<Rightarrow> nat \<Rightarrow> 'a io_scheme \<Rightarrow> (fs_error + extent list \<times> nat list) \<times> 'a io_scheme" where
  "read_chain exts chain_blocks block m =
     (if block = 0 then (Inr (exts, chain_blocks), m)
      else if block \<in> set chain_blocks then (Inl Corrupt, m)
      else case cache_read block m of
             (Inl e, m') \<Rightarrow> (Inl e, m')
           | (Inr buf, m') \<Rightarrow> read_chain (exts @ chain_extents buf) (chain_blocks @ [block]) (chain_next buf) m')"
  by pat_completeness auto
termination
  by (relation "measure (\<lambda>(_, seen, block, _). chain_measure block seen)")
    (simp_all only: wf_measure in_measure prod.case, intro chain_measure_step, simp_all add: chain_next_less [simplified])

declare read_chain.simps [simp del]

definition read_indirect_chain :: "nat \<Rightarrow> ('a io_scheme, fs_error, extent list \<times> nat list) op" where
  "read_indirect_chain first_block = read_chain [] [] first_block"

definition read_indirect_extents :: "nat \<Rightarrow> ('a io_scheme, fs_error, extent list) op" where
  "read_indirect_extents first_block = bindE (read_indirect_chain first_block) (\<lambda>r. retE (fst r))"

function free_chain :: "nat list \<Rightarrow> nat \<Rightarrow> 'a alloc_io_scheme \<Rightarrow> 'a alloc_io_scheme" where
  "free_chain seen block m =
     (if block = 0 \<or> block \<in> set seen then m
      else case cache_read block m of
             (Inl e, m') \<Rightarrow> m'
           | (Inr buf, m') \<Rightarrow>
               free_chain (seen @ [block]) (chain_next buf)
                 (invalidate block (m'\<lparr>bmap := bm_free_range block 1 (bmap m')\<rparr>)))"
  by pat_completeness auto
termination
  by (relation "measure (\<lambda>(seen, block, _). chain_measure block seen)")
    (simp_all only: wf_measure in_measure prod.case de_Morgan_disj, intro chain_measure_step, simp_all add: chain_next_less [simplified])

declare free_chain.simps [simp del]

definition free_indirect_chain :: "nat \<Rightarrow> 'a alloc_io_scheme \<Rightarrow> 'a alloc_io_scheme" where
  "free_indirect_chain first_block m = free_chain [] first_block m"

section \<open>Commit\<close>

definition free_old_block :: "nat \<Rightarrow> 'a alloc_io_scheme \<Rightarrow> 'a alloc_io_scheme" where
  "free_old_block b m = invalidate b (m\<lparr>bmap := bm_free_range b 1 (bmap m)\<rparr>)"

definition commit :: "(bytes \<Rightarrow> bytes) \<Rightarrow> nat list \<Rightarrow> ('a fs_io_scheme, fs_error, unit) op" where
  "commit h old_blocks =
     bindE prepare (\<lambda>_.
     bindE (modify (\<lambda>m. m\<lparr>fs_sb := (fs_sb m)\<lparr>sb_journal_seq := j_seq (jrnl m), sb_journal_head := j_head (jrnl m)\<rparr>\<rparr>)) (\<lambda>_.
     bindE bm_sync (\<lambda>_.
     bindE cache_flush (\<lambda>_.
     bindE (on_dev flush_device) (\<lambda>_.
     bindE (write_sb h) (\<lambda>_.
     bindE finalize (\<lambda>_.
     bindE cache_flush (\<lambda>_.
       modify (fold free_old_block old_blocks)))))))))"

text \<open>\<open>fs::note_commit\<close>: the counter that decides when to collect garbage.\<close>

definition note_commit :: "('a fs_io_scheme, 'e, unit) op" where
  "note_commit = modify (\<lambda>m. m\<lparr>commits_since_gc := wrap64 (commits_since_gc m + 1)\<rparr>)"

definition commit_root :: "(bytes \<Rightarrow> bytes) \<Rightarrow> bytes \<Rightarrow> ('a fs_io_scheme, fs_error, unit) op" where
  "commit_root h new_root =
     bindE need_mounted (\<lambda>_.
     bindE (gets (\<lambda>m. sb_root_tree_hash (fs_sb m) \<noteq> new_root)) (\<lambda>need_root_flip.
     bindE (gets pending_old_blocks) (\<lambda>pending.
     bindE (modify (\<lambda>m. m\<lparr>pending_old_blocks := []\<rparr>)) (\<lambda>_.
     if \<not> need_root_flip \<and> pending = [] then retE ()
     else
     bindE (if need_root_flip then upd_sb (\<lambda>sb. sb\<lparr>sb_root_tree_hash := new_root\<rparr>) else retE ()) (\<lambda>_.
     bindE next_generation (\<lambda>_.
     bindE (modify (\<lambda>m. m\<lparr>fs_sb := (fs_sb m)\<lparr>sb_free_blocks := bm_free (bmap m)\<rparr>,
                          jrnl := fold (\<lambda>b. record_free b 1) pending (jrnl m)\<rparr>)) (\<lambda>_.
     bindE (commit h pending) (\<lambda>_. note_commit))))))))"

definition flush_pending :: "(bytes \<Rightarrow> bytes) \<Rightarrow> ('a fs_io_scheme, fs_error, unit) op" where
  "flush_pending h =
     bindE need_mounted (\<lambda>_.
     bindE (gets pending_old_blocks) (\<lambda>pending.
     if pending = [] then retE ()
     else bindE (gets (\<lambda>m. sb_root_tree_hash (fs_sb m))) (\<lambda>root. commit_root h root)))"

section \<open>Storing an object\<close>

function alloc_try :: "nat \<Rightarrow> bitmap \<Rightarrow> (nat \<times> nat) option \<times> bitmap" where
  "alloc_try try_size bm =
     (case bm_alloc try_size bm of
        (Inr start, bm') \<Rightarrow> (Some (start, try_size), bm')
      | (Inl _, bm') \<Rightarrow> if try_size > 1 then alloc_try ((try_size + 1) div 2) bm' else (None, bm'))"
  by pat_completeness auto
termination
  by (relation "measure fst") auto

declare alloc_try.simps [simp del]

lemma alloc_try_size: "alloc_try n bm = (Some (start, sz), bm') \<Longrightarrow> 0 < n \<Longrightarrow> 0 < sz \<and> sz \<le> n"
proof (induction n bm rule: alloc_try.induct)
  case (1 n bm)
  obtain r bm1 where a: "bm_alloc n bm = (r, bm1)" by fastforce
  show ?case
  proof (cases r)
    case (Inr s)
    with 1(2,3) a show ?thesis by (subst (asm) alloc_try.simps) simp
  next
    case (Inl e)
    with 1(2) a have n: "n > 1" and t: "alloc_try ((n + 1) div 2) bm1 = (Some (start, sz), bm')"
      by (subst (asm) alloc_try.simps, simp split: if_splits)+
    from 1(1) [OF a [symmetric] Inl n t] n have "0 < sz" and "sz \<le> (n + 1) div 2" by simp_all
    with n show ?thesis by (auto intro: le_trans)
  qed
qed

definition free_extents :: "extent list \<Rightarrow> bitmap \<Rightarrow> bitmap" where
  "free_extents exts = fold (\<lambda>x. bm_free_range (start_block x) (block_count_of x)) exts"

function alloc_extents :: "nat \<Rightarrow> extent list \<Rightarrow> bitmap \<Rightarrow> (fs_error + extent list) \<times> bitmap" where
  "alloc_extents remaining exts bm =
     (if remaining = 0 then (Inr exts, bm)
      else case alloc_try remaining bm of
             (Some (start, sz), bm') \<Rightarrow>
               alloc_extents (remaining - sz) (exts @ [\<lparr>start_block = start, block_count_of = sz\<rparr>]) bm'
           | (None, bm') \<Rightarrow> (Inl DiskFull, free_extents exts bm'))"
  by pat_completeness auto
termination
proof (relation "measure fst")
  fix n exts bm r bm' p start sz
  assume "n \<noteq> 0" and "(r, bm') = alloc_try n bm" and "r = Some p" and "(start, sz) = p"
  then have "alloc_try n bm = (Some (start, sz), bm')" by simp
  from alloc_try_size [OF this] \<open>n \<noteq> 0\<close>
  show "((n - sz, exts @ [\<lparr>start_block = start, block_count_of = sz\<rparr>], bm'), (n, exts, bm)) \<in> measure fst" by simp
qed simp

declare alloc_extents.simps [simp del]

definition extent_blocks :: "extent \<Rightarrow> nat list" where
  "extent_blocks x = map (\<lambda>b. wrap64 (start_block x + b)) [0..<block_count_of x]"

definition invalidate_extents :: "extent list \<Rightarrow> 'a io_scheme \<Rightarrow> 'a io_scheme" where
  "invalidate_extents exts = fold invalidate (concat (map extent_blocks exts))"

definition put_alloc :: "nat \<Rightarrow> ('a alloc_io_scheme, fs_error, extent list) op" where
  "put_alloc len m =
     (let blocks_needed = max ((len + BLOCK_SIZE - 1) div BLOCK_SIZE) 1
      in case alloc_extents blocks_needed [] (bmap m) of
           (Inl e, bm) \<Rightarrow> (Inl e, m\<lparr>bmap := bm\<rparr>)
         | (Inr exts, bm) \<Rightarrow> (Inr exts, invalidate_extents exts (m\<lparr>bmap := bm\<rparr>)))"

text \<open>The device write of one extent and of all of them, done without the lock.\<close>

definition put_extent :: "bytes \<Rightarrow> nat \<Rightarrow> extent \<Rightarrow> ('a io_scheme, fs_error, unit) op" where
  "put_extent write_data consumed x =
     (let span = block_count_of x * BLOCK_SIZE;
          raw = slice consumed (min (length write_data) (consumed + span) - consumed) write_data;
          whole = length raw div BLOCK_SIZE
      in bindE (on_dev (write_extent (start_block x) whole (take (whole * BLOCK_SIZE) raw))) (\<lambda>_.
         if whole < block_count_of x
         then let last = splice 0 (drop (whole * BLOCK_SIZE) raw) (replicate BLOCK_SIZE 0)
              in on_dev (write_extent (wrap64 (start_block x + whole)) 1 last)
         else retE ()))"

fun put_data :: "bytes \<Rightarrow> nat \<Rightarrow> extent list \<Rightarrow> ('a io_scheme, fs_error, unit) op" where
  "put_data write_data consumed [] = retE ()"
| "put_data write_data consumed (x # exts) =
     bindE (put_extent write_data consumed x) (\<lambda>_.
       put_data write_data (consumed + block_count_of x * BLOCK_SIZE) exts)"

definition release_extent :: "extent \<Rightarrow> 'a alloc_io_scheme \<Rightarrow> 'a alloc_io_scheme" where
  "release_extent x m = fold invalidate (extent_blocks x)
     (m\<lparr>bmap := bm_free_range (start_block x) (block_count_of x) (bmap m)\<rparr>)"

definition rollback_alloc :: "extent list \<Rightarrow> nat \<Rightarrow> 'a alloc_io_scheme \<Rightarrow> 'a alloc_io_scheme" where
  "rollback_alloc exts indirect m =
     (let m = fold release_extent exts m in if indirect \<noteq> 0 then free_indirect_chain indirect m else m)"

definition put_entry_for :: "bytes \<Rightarrow> nat \<Rightarrow> nat \<Rightarrow> extent list \<Rightarrow> nat \<Rightarrow> btree_entry" where
  "put_entry_for hash plain_len disk_len exts indirect =
     \<lparr>e_hash = hash, plaintext_size = plain_len, disk_size = disk_len, extent_count = length exts mod 2 ^ 32, e_pad = 0,
      extents = take DIRECT_EXTENTS exts @ replicate (DIRECT_EXTENTS - length exts) ZERO_EXTENT,
      indirect_block = indirect\<rparr>"

definition put_index :: "(bytes \<Rightarrow> bytes) \<Rightarrow> bytes \<Rightarrow> nat \<Rightarrow> nat \<Rightarrow> extent list \<Rightarrow> ('a fs_io_scheme, fs_error, unit) op" where
  "put_index h hash plain_len disk_len exts =
     bindE (if length exts > DIRECT_EXTENTS then write_indirect_extents (drop DIRECT_EXTENTS exts) else retE 0) (\<lambda>indirect.
     bindE (gets (\<lambda>m. sb_btree_root (fs_sb m))) (\<lambda>root m.
       case btree_insert h root (put_entry_for hash plain_len disk_len exts indirect) m of
         (Inl e, m') \<Rightarrow> (Inl e, rollback_alloc exts indirect m')
       | (Inr (new_root, old_blocks, was_new), m') \<Rightarrow>
           if \<not> was_new then (Inr (), rollback_alloc exts indirect m')
           else (Inr (), m'\<lparr>fs_sb := (fs_sb m')\<lparr>sb_btree_root := new_root,
                              sb_object_count := wrap64 (sb_object_count (fs_sb m') + 1),
                              sb_free_blocks := bm_free (bmap m')\<rparr>,
                            pending_old_blocks := pending_old_blocks m' @ old_blocks\<rparr>)))"

text \<open>The part of \<open>put\<close> after the lock is taken back: the data is written or it failed.\<close>

definition put_finish :: "(bytes \<Rightarrow> bytes) \<Rightarrow> bytes \<Rightarrow> nat \<Rightarrow> nat \<Rightarrow> extent list \<Rightarrow> (fs_error + unit) \<Rightarrow> ('a fs_io_scheme, fs_error, unit) op" where
  "put_finish h hash plain_len disk_len exts res =
     bindE need_mounted (\<lambda>_.
       case res of
         Inl e \<Rightarrow> (\<lambda>m. (Inl e, rollback_alloc exts 0 m))
       | Inr _ \<Rightarrow> put_index h hash plain_len disk_len exts)"

definition put_inner :: "(bytes \<Rightarrow> bytes) \<Rightarrow> ciphers \<Rightarrow> bytes \<Rightarrow> bytes \<Rightarrow> bool \<Rightarrow> ('a fs_io_scheme, fs_error, unit) op" where
  "put_inner h c hash payload verify =
     bindE need_mounted (\<lambda>_.
     bindE (gets (\<lambda>m. sb_btree_root (fs_sb m))) (\<lambda>root.
     bindE (btree_lookup h root hash) (\<lambda>found.
     if found \<noteq> None then retE ()
     else
     bindE (gets disk_key) (\<lambda>ks.
     if verify \<and> object_address c ks payload = None then throwE Locked
     else if verify \<and> object_address c ks payload \<noteq> Some hash then throwE InvalidName
     else case object_key c ks hash of
       None \<Rightarrow> throwE Locked
     | Some (obj_key, nonce) \<Rightarrow>
         let write_data = aead_encrypt_aes c obj_key nonce payload in
         bindE need_mounted (\<lambda>_.
         bindE (put_alloc (length write_data)) (\<lambda>exts m.
           case put_data write_data 0 exts m of
             (res, m') \<Rightarrow> put_finish h hash (length payload) (length write_data) exts res m'))))))"

definition fs_put :: "(bytes \<Rightarrow> bytes) \<Rightarrow> ciphers \<Rightarrow> bytes \<Rightarrow> bytes \<Rightarrow> ('a fs_io_scheme, fs_error, unit) op" where
  "fs_put h c hash payload = put_inner h c hash payload True"

definition put_addressed :: "(bytes \<Rightarrow> bytes) \<Rightarrow> ciphers \<Rightarrow> bytes \<Rightarrow> bytes \<Rightarrow> ('a fs_io_scheme, fs_error, unit) op" where
  "put_addressed h c hash payload = put_inner h c hash payload False"

section \<open>Reading an object\<close>

fun sum_extents :: "nat \<Rightarrow> nat \<Rightarrow> nat \<Rightarrow> (nat \<times> nat) list \<Rightarrow> nat option" where
  "sum_extents data_start disk_blocks acc [] = (if acc \<le> disk_blocks then Some acc else None)"
| "sum_extents data_start disk_blocks acc ((start, len) # exts) =
     (if start + len \<ge> 2 ^ 64 then None
      else if len = 0 \<or> start < data_start \<or> start + len > disk_blocks then None
      else if acc + len \<ge> 2 ^ 64 then None
      else sum_extents data_start disk_blocks (acc + len) exts)"

definition checked_extent_blocks :: "(nat \<times> nat) list \<Rightarrow> nat \<Rightarrow> nat \<Rightarrow> nat option" where
  "checked_extent_blocks exts data_start disk_blocks = sum_extents data_start disk_blocks 0 exts"

definition extent_in_data_area :: "extent \<Rightarrow> nat \<Rightarrow> nat \<Rightarrow> bool" where
  "extent_in_data_area x data_start disk_blocks \<longleftrightarrow>
     start_block x + block_count_of x < 2 ^ 64 \<and>
     block_count_of x \<noteq> 0 \<and> start_block x \<ge> data_start \<and> start_block x + block_count_of x \<le> disk_blocks"

definition direct_extents :: "btree_entry \<Rightarrow> extent list" where
  "direct_extents e = take (min (extent_count e) DIRECT_EXTENTS) (extents e)"

text \<open>The extents of the entry of \<open>hash\<close> and its two sizes, found under the lock.\<close>

definition get_locate :: "(bytes \<Rightarrow> bytes) \<Rightarrow> bytes \<Rightarrow> ('a fs_io_scheme, fs_error, ((nat \<times> nat) list \<times> nat \<times> nat \<times> nat) option) op" where
  "get_locate h hash =
     bindE need_mounted (\<lambda>_.
     bindE (gets (\<lambda>m. sb_btree_root (fs_sb m))) (\<lambda>root.
     bindE (btree_lookup h root hash) (\<lambda>found.
     case found of
       None \<Rightarrow> retE None
     | Some e \<Rightarrow>
         bindE (if indirect_block e \<noteq> 0 then read_indirect_extents (indirect_block e) else retE []) (\<lambda>more.
         bindE (gets (\<lambda>m. (sb_data_start (fs_sb m), sb_total_blocks (fs_sb m)))) (\<lambda>(data_start, disk_blocks).
         let extent_list = map (\<lambda>x. (start_block x, block_count_of x)) (direct_extents e @ more)
         in case checked_extent_blocks extent_list data_start disk_blocks of
              None \<Rightarrow> throwE Corrupt
            | Some total_blocks \<Rightarrow> retE (Some (extent_list, total_blocks, disk_size e, plaintext_size e)))))))"

text \<open>The device read and the decryption, without the lock. \<open>room n\<close> says whether the heap has \<open>n\<close> bytes.\<close>

definition get_fetch :: "(nat \<Rightarrow> bool) \<Rightarrow> ciphers \<Rightarrow> bytes \<Rightarrow> (nat \<times> nat) list \<Rightarrow> nat \<Rightarrow> nat \<Rightarrow> nat \<Rightarrow> ('a fs_io_scheme, fs_error, bytes) op" where
  "get_fetch room c hash extent_list total_blocks dsize psize =
     (let total_bytes = total_blocks * BLOCK_SIZE in
      if total_bytes \<ge> 2 ^ 64 then throwE Corrupt
      else if dsize > total_bytes \<or> psize > dsize then throwE Corrupt
      else if \<not> room total_bytes then throwE Corrupt
      else
      bindE (on_dev (read_multi_extent extent_list)) (\<lambda>staging.
      if \<not> dsize > psize then throwE Corrupt
      else
      bindE (gets disk_key) (\<lambda>ks.
      case object_key c ks hash of
        None \<Rightarrow> throwE Locked
      | Some (obj_key, nonce) \<Rightarrow>
          (case aead_decrypt_aes_in_place c obj_key nonce (take dsize staging) of
             None \<Rightarrow> throwE Corrupt
           | Some plaintext \<Rightarrow> retE plaintext))))"

definition fs_get :: "(bytes \<Rightarrow> bytes) \<Rightarrow> (nat \<Rightarrow> bool) \<Rightarrow> ciphers \<Rightarrow> bytes \<Rightarrow> ('a fs_io_scheme, fs_error, bytes option) op" where
  "fs_get h room c hash =
     bindE (get_locate h hash) (\<lambda>found.
     case found of
       None \<Rightarrow> retE None
     | Some (extent_list, total_blocks, dsize, psize) \<Rightarrow>
         bindE (get_fetch room c hash extent_list total_blocks dsize psize) (\<lambda>p. retE (Some p)))"

definition fs_plaintext_size :: "(bytes \<Rightarrow> bytes) \<Rightarrow> bytes \<Rightarrow> ('a fs_io_scheme, fs_error, nat option) op" where
  "fs_plaintext_size h hash =
     bindE need_mounted (\<lambda>_.
     bindE (gets (\<lambda>m. sb_btree_root (fs_sb m))) (\<lambda>root.
     bindE (btree_lookup h root hash) (\<lambda>found. retE (map_option plaintext_size found))))"

definition fs_has :: "(bytes \<Rightarrow> bytes) \<Rightarrow> bytes \<Rightarrow> 'a fs_io_scheme \<Rightarrow> bool \<times> 'a fs_io_scheme" where
  "fs_has h hash m =
     (if \<not> mounted m then (False, m)
      else case btree_lookup h (sb_btree_root (fs_sb m)) hash m of
             (Inr (Some _), m') \<Rightarrow> (True, m')
           | (_, m') \<Rightarrow> (False, m'))"

section \<open>Removing objects\<close>

definition REMOVE_BATCH_FREES :: nat where "REMOVE_BATCH_FREES = 16 * MAX_JOURNAL_ENTRIES"

text \<open>\<open>old_blocks\<close> and \<open>freed\<close> are threaded as arguments and results.\<close>

definition unlink :: "(bytes \<Rightarrow> bytes) \<Rightarrow> bytes \<Rightarrow> nat list \<Rightarrow> extent list \<Rightarrow>
    ('a fs_io_scheme, fs_error, bool \<times> nat list \<times> extent list) op" where
  "unlink h hash old_blocks freed =
     bindE (gets (\<lambda>m. sb_btree_root (fs_sb m))) (\<lambda>root.
     bindE (btree_lookup h root hash) (\<lambda>found.
     case found of
       None \<Rightarrow> retE (False, old_blocks, freed)
     | Some e \<Rightarrow>
         bindE (if indirect_block e \<noteq> 0 then read_indirect_chain (indirect_block e) else retE ([], [])) (\<lambda>(indirect, chain_blocks).
         bindE (btree_delete h root hash) (\<lambda>(new_root, old).
         let exts = direct_extents e @ indirect @ map (\<lambda>b. \<lparr>start_block = b, block_count_of = 1\<rparr>) chain_blocks in
         bindE (modify (\<lambda>m. m\<lparr>fs_sb := (fs_sb m)\<lparr>sb_btree_root := new_root, sb_object_count := sb_object_count (fs_sb m) - 1\<rparr>,
                               jrnl := fold (\<lambda>b. record_free b 1) old
                                         (fold (\<lambda>x. record_free (start_block x) (block_count_of x)) exts (jrnl m))\<rparr>)) (\<lambda>_.
           retE (True, old_blocks @ old, freed @ exts))))))"

definition commit_removals :: "(bytes \<Rightarrow> bytes) \<Rightarrow> nat list \<Rightarrow> extent list \<Rightarrow> ('a fs_io_scheme, fs_error, unit) op" where
  "commit_removals h old_blocks freed =
     (if old_blocks = [] \<and> freed = [] then retE ()
      else
      bindE next_generation (\<lambda>_.
      bindE (modify (\<lambda>m. m\<lparr>fs_sb := (fs_sb m)\<lparr>sb_free_blocks := bm_free (bmap m)\<rparr>\<rparr>)) (\<lambda>_.
      bindE (commit h old_blocks) (\<lambda>_.
        modify (fold release_extent freed)))))"

text \<open>One hash of a batch: the counts of removed and failed ones and what the commit has to release.\<close>

definition unlink_one :: "(bytes \<Rightarrow> bytes) \<Rightarrow> bytes \<Rightarrow> nat \<times> nat \<times> nat list \<times> extent list \<Rightarrow> 'a fs_io_scheme \<Rightarrow>
    (nat \<times> nat \<times> nat list \<times> extent list) \<times> 'a fs_io_scheme" where
  "unlink_one h hash acc m =
     (case acc of (removed, failed, old, freed) \<Rightarrow>
        case unlink h hash old freed m of
          (Inr (ok, old', freed'), m') \<Rightarrow> ((if ok then removed + 1 else removed, failed, old', freed'), m')
        | (Inl _, m') \<Rightarrow> ((removed, failed + 1, old, freed), m'))"

text \<open>One batch, with the hashes it leaves and whether it was cut short.\<close>

fun unlink_batch :: "(bytes \<Rightarrow> bytes) \<Rightarrow> bytes list \<Rightarrow> nat \<times> nat \<times> nat list \<times> extent list \<Rightarrow> 'a fs_io_scheme \<Rightarrow>
    (bytes list \<times> bool \<times> nat \<times> nat \<times> nat list \<times> extent list) \<times> 'a fs_io_scheme" where
  "unlink_batch h [] acc m = (([], False, acc), m)"
| "unlink_batch h (hash # hs) acc m =
     (case unlink_one h hash acc m of
        (acc', m') \<Rightarrow> if journal_pending (jrnl m') \<ge> REMOVE_BATCH_FREES then ((hs, True, acc'), m')
                      else unlink_batch h hs acc' m')"

lemma unlink_batch_shorter:
  "unlink_batch h hs acc m = ((rest, True, res), m') \<Longrightarrow> length rest < length hs"
proof (induction hs arbitrary: acc m)
  case (Cons hash hs)
  obtain acc1 m1 where u: "unlink_one h hash acc m = (acc1, m1)" by fastforce
  show ?case
  proof (cases "journal_pending (jrnl m1) \<ge> REMOVE_BATCH_FREES")
    case True
    with Cons.prems u show ?thesis by simp
  next
    case False
    with Cons.prems u have "unlink_batch h hs acc1 m1 = ((rest, True, res), m')" by simp
    from Cons.IH [OF this] show ?thesis by simp
  qed
qed simp

function remove_loop :: "(bytes \<Rightarrow> bytes) \<Rightarrow> bytes list \<Rightarrow> nat \<Rightarrow> nat \<Rightarrow> 'a fs_io_scheme \<Rightarrow> (fs_error + nat \<times> nat) \<times> 'a fs_io_scheme" where
  "remove_loop h hs removed failed m =
     (if \<not> mounted m then (Inl NotMounted, m)
      else case unlink_batch h hs (removed, failed, [], []) m of
        ((rest, again, removed', failed', old, freed), m1) \<Rightarrow>
          (case commit_removals h old freed m1 of
             (Inl e, m2) \<Rightarrow> (Inl e, m2)
           | (Inr _, m2) \<Rightarrow> if again then remove_loop h rest removed' failed' m2 else (Inr (removed', failed'), m2)))"
  by pat_completeness auto
termination
  by (relation "measure (\<lambda>(_, hs, _). length hs)") (auto dest: unlink_batch_shorter [OF sym])

declare remove_loop.simps [simp del]

definition remove_many :: "(bytes \<Rightarrow> bytes) \<Rightarrow> bytes list \<Rightarrow> ('a fs_io_scheme, fs_error, nat \<times> nat) op" where
  "remove_many h hashes = remove_loop h hashes 0 0"

section \<open>Roots, hashes and trimming\<close>

definition trim :: "('a fs_io_scheme, fs_error, unit) op" where
  "trim = bindE need_mounted (\<lambda>_. modify flush_trims)"

definition root_step :: "(bytes \<Rightarrow> bytes) \<Rightarrow> nat \<Rightarrow> bytes list \<times> 'a fs_io_scheme \<Rightarrow> bytes list \<times> 'a fs_io_scheme" where
  "root_step h slot = (\<lambda>(out, m).
     case cache_read (SUPERBLOCK_START + slot) m of
       (Inl _, m') \<Rightarrow> (out, m')
     | (Inr buf, m') \<Rightarrow>
         let sb = sb_of_bytes buf
         in if sb_magic sb \<noteq> DISK_MAGIC \<or> sb_version sb \<noteq> DISK_VERSION then (out, m')
            else if sb_checksum sb \<noteq> compute_checksum h sb then (out, m')
            else if sb_root_tree_hash sb \<noteq> replicate 32 0 then (out @ [sb_root_tree_hash sb], m')
            else (out, m'))"

definition all_root_hashes :: "(bytes \<Rightarrow> bytes) \<Rightarrow> ('a fs_io_scheme, fs_error, bytes list) op" where
  "all_root_hashes h = bindE need_mounted (\<lambda>_ m.
     case fold (root_step h) [0..<SUPERBLOCK_SLOTS] ([], m) of (out, m') \<Rightarrow> (Inr out, m'))"

definition all_object_hashes :: "(bytes \<Rightarrow> bytes) \<Rightarrow> ('a fs_io_scheme, fs_error, bytes list) op" where
  "all_object_hashes h = bindE need_mounted (\<lambda>_ m.
     case iter_all h (sb_btree_root (fs_sb m)) m of (es, m') \<Rightarrow> (Inr (map e_hash es), m'))"

definition current_root :: "'a fs_io_scheme \<Rightarrow> bytes option" where
  "current_root m = (if mounted m then Some (sb_root_tree_hash (fs_sb m)) else None)"

section \<open>Reading changes nothing\<close>

text \<open>\<open>reads chk m m'\<close>: between \<open>m\<close> and \<open>m'\<close> blocks were only read. The cache may have evicted and written
  back what it held, which no reader sees.\<close>

definition reads :: "(bytes \<Rightarrow> bool) \<Rightarrow> 'a io_scheme \<Rightarrow> 'a io_scheme \<Rightarrow> bool" where
  "reads chk m m' \<longleftrightarrow> cache_inv chk m' \<and> view m' = view m \<and> (\<forall>B. quiet B m m')"

lemma reads_refl: "cache_inv chk m \<Longrightarrow> reads chk m m"
  by (simp add: reads_def)

lemma reads_trans [trans]: "reads chk m m' \<Longrightarrow> reads chk m' m'' \<Longrightarrow> reads chk m m''"
  unfolding reads_def using quiet_trans by metis

lemma readsD: "reads chk m m' \<Longrightarrow> cache_inv chk m' \<and> view m' = view m \<and> io.more m' = io.more m"
  using quietD by (auto simp: reads_def)

lemma cache_read_reads: "cache_inv chk m \<Longrightarrow> b < 2 ^ 64 \<Longrightarrow> cache_read b m = (r, m') \<Longrightarrow> reads chk m m'"
  unfolding reads_def using cache_read_spec(1,2,3) by blast

lemma read_node_reads:
  assumes "cache_inv (verify_node_checksum h) m" and "b < 2 ^ 64" and "read_node h b m = (r, m')"
  shows "reads (verify_node_checksum h) m m'"
proof -
  obtain r1 m1 where rc: "read_checked b (verify_node_checksum h) m = (r1, m1)" by fastforce
  have "m' = m1" using assms(3) rc
    by (auto simp: read_node_def bindE_def retE_def throwE_def split: sum.splits prod.splits if_splits)
  then show ?thesis unfolding reads_def using read_checked_spec(1-3) [OF assms(1,2) rc] by blast
qed

lemma read_chain_reads:
  assumes "cache_inv chk m" and "block < 2 ^ 64" and "read_chain exts seen block m = (r, m')"
  shows "reads chk m m'"
  using assms
proof (induction exts seen block m rule: read_chain.induct)
  case (1 exts seen block m)
  show ?case
  proof (cases "block = 0 \<or> block \<in> set seen")
    case True
    then have "m' = m" using 1(4) by (subst (asm) read_chain.simps) (auto split: if_splits)
    then show ?thesis using reads_refl [OF 1(2)] by simp
  next
    case False
    obtain r1 m1 where rd: "cache_read block m = (r1, m1)" by fastforce
    note rs = cache_read_reads [OF 1(2,3) rd]
    show ?thesis
    proof (cases r1)
      case (Inl e)
      then show ?thesis using 1(4) False rd rs by (subst (asm) read_chain.simps) simp
    next
      case (Inr buf)
      then have "read_chain (exts @ chain_extents buf) (seen @ [block]) (chain_next buf) m1 = (r, m')"
        using 1(4) False rd by (subst (asm) read_chain.simps) simp
      with 1(1) [OF _ _ rd [symmetric] Inr] False readsD [OF rs]
      have "reads chk m1 m'" using chain_next_less [of buf] by auto
      with rs show ?thesis by (rule reads_trans)
    qed
  qed
qed

lemma node_children_less: "c \<in> set (node_children buf (read_header buf)) \<Longrightarrow> c < 2 ^ 64"
  using rd_le_less [of 8 _ buf] by (auto simp: node_children_def internal_child_def read_header_def Let_def split: if_splits)

lemma walk_loop_reads:
  assumes "cache_inv (verify_node_checksum h) m" and "\<forall>b \<in> fst ` set todo. b < 2 ^ 64"
  shows "reads (verify_node_checksum h) m (snd (walk_loop h todo seen m))"
  using assms
proof (induction h todo seen m rule: walk_loop.induct)
  case (1 h seen m)
  then show ?case by (simp add: walk_loop.simps reads_refl)
next
  case (2 h block depth todo seen m)
  show ?case
  proof (cases "depth > 64 \<or> block \<in> seen")
    case True
    then have "snd (walk_loop h ((block, depth) # todo) seen m) = snd (walk_loop h todo seen m)"
      by (auto simp: walk_loop.simps(2) [of h block])
    with True 2(1,2) 2(8,9) show ?thesis by auto
  next
    case False
    then have d: "\<not> depth > 64" "block \<notin> seen" by auto
    obtain r m1 where rd: "read_node h block m = (r, m1)" by fastforce
    have rs: "reads (verify_node_checksum h) m m1" using read_node_reads [OF 2(8) _ rd] 2(9) by simp
    note inv1 = readsD [OF rs, THEN conjunct1]
    have todo: "\<forall>b \<in> fst ` set todo. b < 2 ^ 64" using 2(9) by simp
    have "reads (verify_node_checksum h) m1 (snd (walk_loop h ((block, depth) # todo) seen m))"
    proof (cases r)
      case (Inl e)
      from 2(3) [OF d rd [symmetric] Inl inv1 todo] Inl rd d show ?thesis by (simp add: walk_loop.simps(2) [of h block])
    next
      case (Inr buf)
      note ih = 2(4-7) [OF d rd [symmetric] Inr refl]
      have "\<forall>b \<in> fst ` set (map (\<lambda>c. (c, depth + 1)) (node_children buf (read_header buf)) @ todo). b < 2 ^ 64"
        using todo node_children_less by auto
      with ih inv1 todo Inr rd d show ?thesis by (simp add: walk_loop.simps(2) [of h block] Let_def)
    qed
    with rs show ?thesis by (rule reads_trans)
  qed
qed

lemma collect_for_fsck_reads:
  assumes "cache_inv (verify_node_checksum h) m" and "rt < 2 ^ 64" and "collect_for_fsck h rt m = (r, m')"
  shows "reads (verify_node_checksum h) m m'"
  using walk_loop_reads [OF assms(1), of "[(rt, 0)]" "{}"] assms reads_refl [OF assms(1)]
  by (auto simp: collect_for_fsck_def walk_from_def split: if_splits prod.splits)

end
