(* ===== verification/Object_Data.thy ===== *)
theory Object_Data
  imports Object_Storage
begin

text \<open>
  What the steps of \<open>put\<close> and \<open>get\<close> do to blocks (\<open>kernel/src/storage/npkfs/storage.rs\<close>): the extents \<open>put\<close>
  allocates are free blocks, each taken once; the data written to them past the cache is what a reader of the cache
  sees there; an indirect chain that was written is read back; and a rollback gives back only what was allocated.
\<close>

section \<open>Extents\<close>

definition all_blocks :: "extent list \<Rightarrow> nat list" where
  "all_blocks exts = concat (map extent_blocks exts)"

lemma all_blocks_simps [simp]:
  "all_blocks [] = []" "all_blocks (x # xs) = extent_blocks x @ all_blocks xs"
  "all_blocks (xs @ ys) = all_blocks xs @ all_blocks ys"
  by (simp_all add: all_blocks_def)

lemma length_extent_blocks [simp]: "length (extent_blocks x) = block_count_of x"
  by (simp add: extent_blocks_def)

lemma extent_blocks_upt:
  assumes "start_block x + block_count_of x \<le> 2 ^ 64"
  shows "extent_blocks x = [start_block x..<start_block x + block_count_of x]"
  using assms by (intro nth_equalityI) (simp_all add: extent_blocks_def)

text \<open>\<open>taken bm exts bm'\<close>: exactly the extents \<open>exts\<close> were allocated between \<open>bm\<close> and \<open>bm'\<close>.\<close>

definition good_extent :: "bitmap \<Rightarrow> extent \<Rightarrow> bool" where
  "good_extent bm x \<longleftrightarrow> 0 < block_count_of x \<and> bm_data_start bm \<le> start_block x \<and> start_block x + block_count_of x \<le> bm_total bm"

definition taken :: "bitmap \<Rightarrow> extent list \<Rightarrow> bitmap \<Rightarrow> bool" where
  "taken bm exts bm' \<longleftrightarrow> bm_inv bm' \<and> tracks bm bm' \<and> trim_pending bm' = trim_pending bm \<and>
     list_all (good_extent bm) exts \<and> distinct (all_blocks exts) \<and> set (all_blocks exts) \<subseteq> free_blocks bm \<and>
     free_blocks bm' = free_blocks bm - set (all_blocks exts)"

lemma taken_Nil: "bm_inv bm \<Longrightarrow> taken bm [] bm"
  by (simp add: taken_def)

lemma good_extent_blocks:
  assumes "bm_inv bm" and "good_extent bm x"
  shows "set (extent_blocks x) = {start_block x..<start_block x + block_count_of x}" and "distinct (extent_blocks x)"
  using assms extent_blocks_upt [of x] by (auto simp: good_extent_def bm_inv_def)

lemma tracks_same: "tracks bm bm' \<Longrightarrow> bm_data_start bm' = bm_data_start bm \<and> bm_total bm' = bm_total bm"
  by (simp add: tracks_def same_layout_def)

lemma good_extent_tracks: "tracks bm bm' \<Longrightarrow> good_extent bm' = good_extent bm"
  using tracks_same by (simp add: good_extent_def fun_eq_iff)

lemma taken_snoc:
  assumes "bm_inv bm" and t: "taken bm exts bm1" and al: "bm_alloc n bm1 = (Inr s, bm2)"
  shows "taken bm (exts @ [\<lparr>start_block = s, block_count_of = n\<rparr>]) bm2"
proof -
  let ?x = "\<lparr>start_block = s, block_count_of = n\<rparr>"
  have inv1: "bm_inv bm1" and tr: "tracks bm bm1" using t by (auto simp: taken_def)
  note a = bm_alloc_Inr [OF inv1 al]
  note r = take_run_result [OF inv1 a(4,2,3,5)]
  have good: "good_extent bm1 ?x" using a by (simp add: good_extent_def)
  note g = good_extent_blocks [OF inv1 good]
  show ?thesis
    using t r g tracks_trans [OF tr r(2)] good good_extent_tracks [OF tr] unfolding taken_def by auto
qed

lemma alloc_try_result:
  assumes "bm_inv bm" and "alloc_try n bm = (r, bm')"
  shows "case r of Some (s, sz) \<Rightarrow> bm_alloc sz bm = (Inr s, bm') | None \<Rightarrow> bm' = bm"
  using assms
proof (induction n bm rule: alloc_try.induct)
  case (1 n bm)
  obtain q bm1 where a: "bm_alloc n bm = (q, bm1)" by fastforce
  show ?case
  proof (cases q)
    case (Inr s)
    with 1(3) a show ?thesis by (subst (asm) alloc_try.simps) auto
  next
    case (Inl e)
    then have bm1: "bm1 = bm" using bm_alloc_Inl(2) [OF 1(2)] a by simp
    show ?thesis
    proof (cases "n > 1")
      case True
      then have t: "alloc_try ((n + 1) div 2) bm1 = (r, bm')" using 1(3) a Inl by (subst (asm) alloc_try.simps) simp
      have "bm_inv bm1" using 1(2) bm1 by simp
      from 1(1) [OF a [symmetric] Inl True this t] show ?thesis unfolding bm1 .
    next
      case False
      with 1(3) a Inl bm1 show ?thesis by (subst (asm) alloc_try.simps) auto
    qed
  qed
qed

lemma free_extents_result:
  assumes "bm_inv bm" and "list_all (good_extent bm) exts"
  shows "bm_inv (free_extents exts bm) \<and> tracks bm (free_extents exts bm) \<and>
    free_blocks (free_extents exts bm) = free_blocks bm \<union> set (all_blocks exts)"
  using assms
proof (induction exts arbitrary: bm)
  case (Cons x exts)
  have g: "good_extent bm x" using Cons.prems(2) by simp
  then have "bm_data_start bm \<le> start_block x" and "start_block x + block_count_of x \<le> bm_total bm" by (simp_all add: good_extent_def)
  note f = bm_free_range_result [OF Cons.prems(1) this refl]
  have "list_all (good_extent (bm_free_range (start_block x) (block_count_of x) bm)) exts"
    using Cons.prems(2) good_extent_tracks [OF f(2)] by simp
  from Cons.IH [OF f(1) this] f(2,3) good_extent_blocks(1) [OF Cons.prems(1) g] show ?case
    by (auto simp: free_extents_def intro: tracks_trans)
qed (simp add: free_extents_def)

lemma alloc_extents_result:
  assumes "bm_inv bm" and "taken bm exts bm1" and "alloc_extents n exts bm1 = (r, bm')"
  shows "case r of
      Inr exts' \<Rightarrow> taken bm exts' bm' \<and> length (all_blocks exts') = length (all_blocks exts) + n
    | Inl e \<Rightarrow> e = DiskFull \<and> bm_inv bm' \<and> tracks bm bm' \<and> free_blocks bm' = free_blocks bm"
  using assms
proof (induction n exts bm1 rule: alloc_extents.induct)
  case (1 n exts bm1)
  have inv1: "bm_inv bm1" using 1(3) by (simp add: taken_def)
  obtain q bm2 where a: "alloc_try n bm1 = (q, bm2)" by fastforce
  note tr = alloc_try_result [OF inv1 a]
  consider "n = 0" | "n \<noteq> 0" "q = None" | s sz where "n \<noteq> 0" "q = Some (s, sz)" by (metis option.exhaust surj_pair)
  then show ?case
  proof cases
    assume "n = 0"
    with 1(3,4) show ?thesis by (subst (asm) alloc_extents.simps) auto
  next
    assume n: "n \<noteq> 0" and q: "q = None"
    then have r: "r = Inl DiskFull" "bm' = free_extents exts bm1"
      using 1(4) a tr by (subst (asm) alloc_extents.simps; simp)+
    have "tracks bm bm1" "list_all (good_extent bm1) exts"
      using 1(3) good_extent_tracks [of bm bm1] by (auto simp: taken_def)
    with free_extents_result [OF inv1] tracks_trans [of bm bm1 bm'] 1(3) r show ?thesis by (auto simp: taken_def)
  next
    fix s sz assume n: "n \<noteq> 0" and q: "q = Some (s, sz)"
    then have r: "alloc_extents (n - sz) (exts @ [\<lparr>start_block = s, block_count_of = sz\<rparr>]) bm2 = (r, bm')"
      using 1(4) a by (subst (asm) alloc_extents.simps) simp
    have "taken bm (exts @ [\<lparr>start_block = s, block_count_of = sz\<rparr>]) bm2" using taken_snoc [OF 1(2,3)] tr q by simp
    from 1(1) [OF n a [symmetric] q refl 1(2) this r] alloc_try_size [of n bm1 s sz bm2] a q n show ?thesis
      by (auto split: sum.splits)
  qed
qed

section \<open>What a failed operation keeps\<close>

text \<open>\<open>keeps chk m m'\<close>: blocks in use in \<open>m\<close> stay in use with their contents, and nothing but free blocks is
  written. Unlike \<open>cow\<close>, blocks may also have been given back.\<close>

definition keeps :: "(bytes \<Rightarrow> bool) \<Rightarrow> 'a alloc_io_scheme \<Rightarrow> 'a alloc_io_scheme \<Rightarrow> bool" where
  "keeps chk m m' \<longleftrightarrow> cache_inv chk m' \<and> bm_inv (bmap m') \<and> tracks (bmap m) (bmap m') \<and>
     free_blocks (bmap m') \<subseteq> free_blocks (bmap m) \<and> alloc_io.more m' = alloc_io.more m \<and>
     (\<forall>b. b \<notin> free_blocks (bmap m) \<longrightarrow> view m' b = view m b) \<and>
     (\<forall>B. free_blocks (bmap m) \<inter> {bm_data_start (bmap m)..} \<subseteq> B \<longrightarrow> calm B m m')"

lemma cow_keeps: "cow chk m m' \<Longrightarrow> keeps chk m m'"
  by (simp add: cow_def keeps_def)

lemma keeps_refl: "cache_inv chk m \<Longrightarrow> bm_inv (bmap m) \<Longrightarrow> keeps chk m m"
  by (simp add: keeps_def)

lemma keeps_trans [trans]: "keeps chk m m' \<Longrightarrow> keeps chk m' m'' \<Longrightarrow> keeps chk m m''"
proof -
  assume a: "keeps chk m m'" and b: "keeps chk m' m''"
  have ds: "bm_data_start (bmap m') = bm_data_start (bmap m)" using a by (simp add: keeps_def tracks_def same_layout_def)
  have sub: "free_blocks (bmap m') \<subseteq> free_blocks (bmap m)" using a by (simp add: keeps_def)
  have "calm B m m''" if "free_blocks (bmap m) \<inter> {bm_data_start (bmap m)..} \<subseteq> B" for B
  proof -
    have "free_blocks (bmap m') \<inter> {bm_data_start (bmap m')..} \<subseteq> B" using that sub unfolding ds by blast
    then have "calm B m m'" "calm B m' m''" using a b that by (simp_all add: keeps_def)
    then show ?thesis by (rule calm_trans)
  qed
  moreover have "view m'' c = view m c" if "c \<notin> free_blocks (bmap m)" for c using a b sub that by (auto simp: keeps_def)
  moreover have "tracks (bmap m) (bmap m'')" using a b tracks_trans by (auto simp: keeps_def)
  moreover have "free_blocks (bmap m'') \<subseteq> free_blocks (bmap m)" using b sub by (auto simp: keeps_def)
  ultimately show ?thesis using a b by (simp add: keeps_def)
qed

text \<open>\<open>gives_back chk F m m'\<close>: blocks of \<open>F\<close> were freed and dropped from the cache.\<close>

definition gives_back :: "(bytes \<Rightarrow> bool) \<Rightarrow> nat set \<Rightarrow> 'a alloc_io_scheme \<Rightarrow> 'a alloc_io_scheme \<Rightarrow> bool" where
  "gives_back chk F m m' \<longleftrightarrow> cache_inv chk m' \<and> bm_inv (bmap m') \<and> tracks (bmap m) (bmap m') \<and>
     free_blocks (bmap m) \<subseteq> free_blocks (bmap m') \<and> free_blocks (bmap m') \<subseteq> free_blocks (bmap m) \<union> F \<and>
     alloc_io.more m' = alloc_io.more m \<and> (\<forall>b. b \<notin> F \<longrightarrow> view m' b = view m b) \<and> (\<forall>B. calm B m m')"

lemma gives_back_refl: "cache_inv chk m \<Longrightarrow> bm_inv (bmap m) \<Longrightarrow> gives_back chk F m m"
  by (simp add: gives_back_def)

lemma gives_back_trans [trans]: "gives_back chk F m m' \<Longrightarrow> gives_back chk F m' m'' \<Longrightarrow> gives_back chk F m m''"
  using tracks_trans calm_trans unfolding gives_back_def by (metis (no_types, lifting) Un_least order_trans sup.cobounded2 sup.mono)

lemma gives_back_mono: "gives_back chk F m m' \<Longrightarrow> F \<subseteq> F' \<Longrightarrow> gives_back chk F' m m'"
  unfolding gives_back_def by blast

lemma reads_gives_back: "reads chk m m' \<Longrightarrow> bm_inv (bmap m) \<Longrightarrow> gives_back chk F m m'"
  using quiet_bmap [of _ m m'] by (auto simp: reads_def gives_back_def quiet_calm)

lemma keeps_gives_back:
  assumes k: "keeps chk m0 m" and g: "gives_back chk F m m'" and f: "F \<subseteq> free_blocks (bmap m0)"
  shows "keeps chk m0 m'"
proof -
  have "calm B m0 m'" if "free_blocks (bmap m0) \<inter> {bm_data_start (bmap m0)..} \<subseteq> B" for B
    using k g that calm_trans [of B m0 m m'] by (auto simp: keeps_def gives_back_def)
  moreover have "view m' c = view m0 c" if "c \<notin> free_blocks (bmap m0)" for c using k g f that by (auto simp: keeps_def gives_back_def)
  moreover have "tracks (bmap m0) (bmap m')" using k g tracks_trans by (auto simp: keeps_def gives_back_def)
  ultimately show ?thesis using k g f unfolding keeps_def gives_back_def by auto
qed

text \<open>Dropping blocks from the cache.\<close>

lemma cmap_invalidate: "cmap (invalidate b m) = (cmap m)(b := None)"
proof (cases "cmap m b")
  case None
  then show ?thesis by (simp add: invalidate_def fun_upd_idem)
next
  case (Some s)
  have "cmap (cache_unlink s (m\<lparr>cmap := (cmap m)(b := None)\<rparr>)) = (cmap m)(b := None)"
    by (simp add: unlink_cmap)
  with Some show ?thesis by (simp add: invalidate_def Let_def)
qed

lemma invalidate_list:
  assumes "cache_inv chk m" and "\<And>b. b \<in> set bs \<Longrightarrow> b < 2 ^ 64"
  shows "cache_inv chk (fold invalidate bs m) \<and> (\<forall>B. quiet B m (fold invalidate bs m)) \<and>
    (\<forall>b. b \<notin> set bs \<longrightarrow> view (fold invalidate bs m) b = view m b) \<and>
    cmap (fold invalidate bs m) = cmap m |` (- set bs) \<and> dev (fold invalidate bs m) = dev m"
  using assms
proof (induction bs arbitrary: m)
  case (Cons b bs)
  let ?m = "invalidate b m" and ?m' = "fold invalidate bs (invalidate b m)"
  have b: "b < 2 ^ 64" using Cons.prems(2) by simp
  note i = invalidate_spec [OF Cons.prems(1)]
  have ih: "cache_inv chk ?m' \<and> (\<forall>B. quiet B ?m ?m') \<and> (\<forall>b. b \<notin> set bs \<longrightarrow> view ?m' b = view ?m b) \<and>
      cmap ?m' = cmap ?m |` (- set bs) \<and> dev ?m' = dev ?m"
    by (rule Cons.IH [OF i(1)]) (use Cons.prems(2) in simp)
  have "quiet B m ?m'" for B using quiet_trans [OF i(2)] ih by blast
  moreover have "cmap ?m' = cmap m |` (- set (b # bs))"
    using ih by (auto simp: cmap_invalidate restrict_map_def fun_eq_iff)
  moreover have "view ?m' c = view m c" if "c \<notin> set (b # bs)" for c using that ih i(4) [OF b] by simp
  ultimately show ?case using ih i(5) by simp
qed (simp add: restrict_map_def)

lemma taken_cow: "cache_inv chk m \<Longrightarrow> taken (bmap m) exts bm \<Longrightarrow> cow chk m (m\<lparr>bmap := bm\<rparr>)"
  by (auto simp: cow_def taken_def)

lemma taken_blocks:
  assumes "bm_inv bm" and "taken bm exts bm'" and "b \<in> set (all_blocks exts)"
  shows "bm_data_start bm \<le> b" and "b < bm_total bm" and "0 < b" and "b < 2 ^ 64"
proof -
  obtain x where "x \<in> set exts" and x: "b \<in> set (extent_blocks x)" using assms(3) by (auto simp: all_blocks_def)
  then have "good_extent bm x" using assms(2) by (auto simp: taken_def list_all_iff)
  with good_extent_blocks(1) [OF assms(1) this] x show "bm_data_start bm \<le> b" and "b < bm_total bm" by (auto simp: good_extent_def)
  then show "0 < b" and "b < 2 ^ 64" using data_start_pos [OF assms(1), of b] assms(1) by (auto simp: bm_inv_def)
qed

lemma put_alloc_spec:
  assumes inv: "cache_inv chk m" "bm_inv (bmap m)"
  shows "wpE (put_alloc n)
    (\<lambda>exts m'. cow chk m m' \<and> taken (bmap m) exts (bmap m') \<and> length (all_blocks exts) = max (div_ceil n BLOCK_SIZE) 1 \<and>
       dev m' = dev m \<and> (\<forall>b \<in> set (all_blocks exts). cmap m' b = None))
    (\<lambda>e m'. e = DiskFull \<and> keeps chk m m') m"
proof -
  let ?n = "max (div_ceil n BLOCK_SIZE) 1"
  obtain r bm where a: "alloc_extents ?n [] (bmap m) = (r, bm)" by fastforce
  note res = alloc_extents_result [OF inv(2) taken_Nil [OF inv(2)] a]
  show ?thesis
  proof (cases r)
    case (Inl e)
    with res have "keeps chk m (m\<lparr>bmap := bm\<rparr>)" "e = DiskFull" using inv by (auto simp: keeps_def)
    then show ?thesis using a Inl by (simp add: wpE_def put_alloc_def div_ceil_def)
  next
    case (Inr exts)
    let ?m = "m\<lparr>bmap := bm\<rparr>"
    have t: "taken (bmap m) exts bm" and len: "length (all_blocks exts) = ?n" using res Inr by auto
    note c = taken_cow [OF inv(1) t]
    have b: "b < 2 ^ 64" if "b \<in> set (all_blocks exts)" for b using taken_blocks(4) [OF inv(2) t that] .
    have i: "cache_inv chk (fold invalidate (all_blocks exts) ?m) \<and> (\<forall>B. quiet B ?m (fold invalidate (all_blocks exts) ?m)) \<and>
      (\<forall>b. b \<notin> set (all_blocks exts) \<longrightarrow> view (fold invalidate (all_blocks exts) ?m) b = view ?m b) \<and>
      cmap (fold invalidate (all_blocks exts) ?m) = cmap ?m |` (- set (all_blocks exts)) \<and> dev (fold invalidate (all_blocks exts) ?m) = dev ?m"
      by (rule invalidate_list) (use inv b in simp_all)
    let ?m' = "fold invalidate (all_blocks exts) ?m"
    have bm': "bmap ?m' = bm" "alloc_io.more ?m' = alloc_io.more m" using quiet_bmap [of _ ?m ?m'] i by auto
    have "cow chk m ?m'"
    proof -
      have "calm B m ?m'" for B using i by (simp add: quiet_calm)
      then show ?thesis using i t bm' by (auto simp: cow_def taken_def)
    qed
    moreover have "\<forall>b \<in> set (all_blocks exts). cmap ?m' b = None" using i by (simp add: restrict_map_def)
    moreover have "put_alloc n m = (Inr exts, ?m')"
      using a Inr by (simp add: put_alloc_def div_ceil_def invalidate_extents_def all_blocks_def)
    ultimately show ?thesis using t len bm' i by (simp add: wpE_def)
  qed
qed

section \<open>Writing data past the cache\<close>

lemma batch_media_other:
  assumes "batch_effect (map (\<lambda>(b, buf). (actual d b, buf)) its) d r d'" and "b < 2 ^ 64" and "b \<notin> fst ` set its"
    and "\<And>c. c \<in> fst ` set its \<Longrightarrow> c < 2 ^ 64"
  shows "media d' (actual d b) = media d (actual d b)"
proof (rule ccontr)
  assume "media d' (actual d b) \<noteq> media d (actual d b)"
  then have "(actual d b, media d' (actual d b)) \<in> set (map (\<lambda>(b, buf). (actual d b, buf)) its)"
    using assms(1) unfolding batch_effect_def by blast
  then obtain c buf where c: "(c, buf) \<in> set its" "actual d b = actual d c" by auto
  then have "c \<in> fst ` set its" by force
  then have "c = b" using actual_inj [OF assms(2) _ c(2)] assms(4) by blast
  with \<open>c \<in> fst ` set its\<close> assms(3) show False by simp
qed

lemma direct_write:
  assumes inv: "cache_inv chk m" and be: "batch_effect (map (\<lambda>(b, buf). (actual (dev m) b, buf)) its) (dev m) r d"
    and its: "\<And>b buf. (b, buf) \<in> set its \<Longrightarrow> b < 2 ^ 64 \<and> length buf = BLOCK_SIZE \<and> cmap m b = None"
  shows "cache_inv chk (m\<lparr>dev := d\<rparr>)" "b \<notin> fst ` set its \<Longrightarrow> view (m\<lparr>dev := d\<rparr>) b = view m b"
    "fst ` set its \<subseteq> B \<Longrightarrow> calm B m (m\<lparr>dev := d\<rparr>)"
    "r = Inr () \<Longrightarrow> distinct (map fst its) \<Longrightarrow> (b, buf) \<in> set its \<Longrightarrow> view (m\<lparr>dev := d\<rparr>) b = buf"
proof -
  obtain xs where rep: "cache_rep chk m xs" using inv by (auto simp: cache_inv_def)
  have sd: "same_disk (dev m) d" using be by (simp add: batch_effect_def)
  note act = same_disk_actual [OF sd]
  have small: "c < 2 ^ 64" if "c \<in> fst ` set its" for c using that its by force
  note other = batch_media_other [OF be _ _ small]
  have sb: "slot_bytes (m\<lparr>dev := d\<rparr>) = slot_bytes m" by (simp add: slot_bytes_def fun_eq_iff)
  have mapped: "s_block (slots m ! s) < 2 ^ 64" "s_block (slots m ! s) \<notin> fst ` set its" if "s \<in> set xs" for s
  proof -
    show "s_block (slots m ! s) < 2 ^ 64" using that by (rule cache_repD(5) [OF rep])
    have "cmap m (s_block (slots m ! s)) = Some s" using that by (simp add: cache_repD(4) [OF rep])
    then show "s_block (slots m ! s) \<notin> fst ` set its" using its by force
  qed
  have "slots_ok (m\<lparr>dev := d\<rparr>) xs" using rep unfolding cache_rep_def slots_ok_def owned_frame_def by simp
  moreover have "lru (m\<lparr>dev := d\<rparr>) xs" using rep by (simp add: cache_rep_def lru_def)
  moreover have "bytes_ok chk (m\<lparr>dev := d\<rparr>) xs"
    using rep other mapped unfolding cache_rep_def bytes_ok_def by (simp add: act sb)
  moreover have "length (media d b) = BLOCK_SIZE" for b
  proof -
    have "media d b = media (dev m) b \<or> (b, media d b) \<in> set (map (\<lambda>(b, buf). (actual (dev m) b, buf)) its)"
      using be unfolding batch_effect_def by blast
    then show ?thesis using its rep by (auto simp: cache_rep_def env_ok_def)
  qed
  then have "env_ok (m\<lparr>dev := d\<rparr>)" using rep by (simp add: cache_rep_def env_ok_def)
  ultimately show "cache_inv chk (m\<lparr>dev := d\<rparr>)" by (auto simp: cache_rep_def cache_inv_def)
  show "view (m\<lparr>dev := d\<rparr>) b = view m b" if "b \<notin> fst ` set its"
    using other [of b] that by (simp add: view_def act sb split: option.split)
  show "calm B m (m\<lparr>dev := d\<rparr>)" if "fst ` set its \<subseteq> B"
  proof -
    from be obtain ws where "unflushed d = unflushed (dev m) @ ws" "fst ` set ws \<subseteq> actual (dev m) ` fst ` set its"
      unfolding batch_effect_def by (force simp: image_image case_prod_beta)
    moreover from this that have "fst ` set ws \<subseteq> actual (dev m) ` B" by blast
    ultimately show ?thesis using sd by (auto simp: calm_def dirty_set_def)
  qed
  show "view (m\<lparr>dev := d\<rparr>) b = buf" if r: "r = Inr ()" "distinct (map fst its)" "(b, buf) \<in> set its"
  proof -
    have "inj_on (actual (dev m)) (fst ` set its)" using small actual_inj by (intro inj_onI) blast
    then have "distinct (map fst (map (\<lambda>(b, buf). (actual (dev m) b, buf)) its))"
      using r(2) by (simp add: comp_def case_prod_beta distinct_map inj_on_def image_image)
    then have "media d (actual (dev m) b) = buf" using be r unfolding batch_effect_def by force
    then show ?thesis using its [OF r(3)] by (simp add: view_def act)
  qed
qed

lemma tryE_comp: "tryE (f \<circ> g) xs = tryE f (map g xs)"
  by (induction xs) (auto simp: fun_eq_iff split: prod.splits sum.splits)

lemma forE_comp: "forE (f \<circ> g) xs = forE f (map g xs)"
  by (induction xs) auto

lemma write_extent_effect:
  assumes "write_extent start n input d = (r, d')"
  shows "batch_effect (map (\<lambda>(b, buf). (actual d b, buf)) (map (\<lambda>i. (start + i, slice (i * BLOCK_SIZE) BLOCK_SIZE input)) [0..<n])) d r d'"
proof -
  let ?g = "\<lambda>i. (actual d (start + i), slice (i * BLOCK_SIZE) BLOCK_SIZE input)"
  have it: "map (\<lambda>(b, buf). (actual d b, buf)) (map (\<lambda>i. (start + i, slice (i * BLOCK_SIZE) BLOCK_SIZE input)) [0..<n]) = map ?g [0..<n]"
    by simp
  have "wrap64 (actual d start + i) = actual d (start + i)" for i
    unfolding actual_def mod_add_left_eq by (simp add: ac_simps)
  then have p: "(\<lambda>i. drv_write (wrap64 (actual d start + i)) (slice (i * BLOCK_SIZE) BLOCK_SIZE input)) = (\<lambda>(b, buf). drv_write b buf) \<circ> ?g"
    by (simp add: fun_eq_iff)
  show ?thesis
  proof (cases "n = 0")
    case True
    then show ?thesis using assms by (simp add: write_extent_def batch_effect_Nil)
  next
    case False
    then show ?thesis using assms tryE_batch [of "map ?g [0..<n]"] forE_batch [of "map ?g [0..<n]"]
      unfolding it by (auto simp: write_extent_def Let_def p tryE_comp forE_comp split: if_splits)
  qed
qed

text \<open>\<open>direct chk bs m m'\<close>: only the device changed, and only at the blocks \<open>bs\<close>, which the cache does not hold.\<close>

definition direct :: "(bytes \<Rightarrow> bool) \<Rightarrow> nat set \<Rightarrow> 'a io_scheme \<Rightarrow> 'a io_scheme \<Rightarrow> bool" where
  "direct chk bs m m' \<longleftrightarrow> (\<exists>d. m' = m\<lparr>dev := d\<rparr>) \<and> cache_inv chk m' \<and> (\<forall>b. b \<notin> bs \<longrightarrow> view m' b = view m b) \<and>
     (\<forall>B. bs \<subseteq> B \<longrightarrow> calm B m m')"

lemma direct_refl: "cache_inv chk m \<Longrightarrow> direct chk bs m m"
  unfolding direct_def by (auto intro: exI [of _ "dev m"])

lemma direct_trans: "direct chk bs m m' \<Longrightarrow> direct chk cs m' m'' \<Longrightarrow> direct chk (bs \<union> cs) m m''"
proof -
  assume a: "direct chk bs m m'" and b: "direct chk cs m' m''"
  have "\<exists>d. m'' = m\<lparr>dev := d\<rparr>" using a b by (auto simp: direct_def)
  moreover have "calm B m m''" if "bs \<union> cs \<subseteq> B" for B using a b that calm_trans [of B m m' m''] by (simp add: direct_def)
  ultimately show ?thesis using a b by (simp add: direct_def)
qed

lemma direct_mono: "direct chk bs m m' \<Longrightarrow> bs \<subseteq> cs \<Longrightarrow> direct chk cs m m'"
  unfolding direct_def by blast

lemma direct_cmap: "direct chk bs m m' \<Longrightarrow> cmap m' = cmap m"
  by (auto simp: direct_def)

lemma on_dev_write_extent:
  assumes inv: "cache_inv chk m" and small: "start + n \<le> 2 ^ 64" and free: "\<And>i. i < n \<Longrightarrow> cmap m (start + i) = None"
    and len: "n * BLOCK_SIZE \<le> length input"
  shows "wpE (on_dev (write_extent start n input))
    (\<lambda>_ m'. direct chk {start..<start + n} m m' \<and> (\<forall>i < n. view m' (start + i) = slice (i * BLOCK_SIZE) BLOCK_SIZE input))
    (\<lambda>e m'. env_error e \<and> direct chk {start..<start + n} m m') m"
proof -
  let ?its = "map (\<lambda>i. (start + i, slice (i * BLOCK_SIZE) BLOCK_SIZE input)) [0..<n]"
  obtain r d where w: "write_extent start n input (dev m) = (r, d)" by fastforce
  note be = write_extent_effect [OF w]
  have its: "b < 2 ^ 64 \<and> length buf = BLOCK_SIZE \<and> cmap m b = None" if mem: "(b, buf) \<in> set ?its" for b buf
  proof -
    obtain i where i: "i < n" "b = start + i" "buf = slice (i * BLOCK_SIZE) BLOCK_SIZE input" using mem by auto
    have "Suc i * BLOCK_SIZE \<le> n * BLOCK_SIZE" using i(1) by (intro mult_le_mono1) simp
    then have "length buf = BLOCK_SIZE" using len i(3) by simp
    with i small free show ?thesis by simp
  qed
  have fs: "fst ` set ?its = {start..<start + n}"
    using image_add_atLeastLessThan [of start 0 n] by (simp add: image_image add.commute)
  note dw = direct_write [OF inv be its, unfolded fs]
  have dir: "direct chk {start..<start + n} m (m\<lparr>dev := d\<rparr>)" using dw(1-3) by (auto simp: direct_def)
  have "distinct (map fst ?its)" by (simp add: comp_def distinct_map inj_on_def)
  then have "\<forall>i < n. view (m\<lparr>dev := d\<rparr>) (start + i) = slice (i * BLOCK_SIZE) BLOCK_SIZE input" if "r = Inr ()"
    using dw(4) that by auto
  then show ?thesis using w dir by (cases r) (auto simp: wpE_def on_dev_def env_error_def)
qed

lemma concat_slices: "concat (map (\<lambda>i. slice (i * n) n xs) [0..<k]) = take (k * n) xs"
proof (induction k)
  case (Suc k)
  have "take (k * n + n) xs = take (k * n) xs @ take n (drop (k * n) xs)" by (rule take_add)
  with Suc show ?case by (simp add: slice_def add.commute)
qed simp

lemma put_extent_spec:
  assumes inv: "cache_inv chk m" and x: "start_block x + block_count_of x \<le> 2 ^ 64" "0 < block_count_of x"
    and free: "\<And>b. b \<in> set (extent_blocks x) \<Longrightarrow> cmap m b = None"
    and len: "(block_count_of x - 1) * BLOCK_SIZE < length (drop consumed data)"
  shows "wpE (put_extent data consumed x)
    (\<lambda>_ m'. direct chk (set (extent_blocks x)) m m' \<and> concat (map (view m') (extent_blocks x)) =
       take (block_count_of x * BLOCK_SIZE) (drop consumed data) @ replicate (block_count_of x * BLOCK_SIZE - length (drop consumed data)) 0)
    (\<lambda>e m'. env_error e \<and> direct chk (set (extent_blocks x)) m m') m"
proof -
  define s n raw whole where defs: "s = start_block x" "n = block_count_of x" "raw = take (n * BLOCK_SIZE) (drop consumed data)"
      "whole = length raw div BLOCK_SIZE"
  have eb: "extent_blocks x = map ((+) s) [0..<n]" using x(1) by (auto simp: extent_blocks_def defs)
  have set_eb: "set (extent_blocks x) = {s..<s + n}" unfolding eb using image_add_atLeastLessThan [of s 0 n] by (simp add: add.commute)
  have raw: "raw = slice consumed (min (length data) (consumed + block_count_of x * BLOCK_SIZE) - consumed) data"
    by (auto simp: defs slice_def min_def)
  have lraw: "length raw \<le> n * BLOCK_SIZE" "(n - 1) * BLOCK_SIZE < length raw"
    using len x(2) by (auto simp: defs min_def) (simp add: BLOCK_SIZE_def)
  have B: "0 < BLOCK_SIZE" by (simp add: BLOCK_SIZE_def)
  have wn: "whole \<le> n" "n - 1 \<le> whole" "whole * BLOCK_SIZE \<le> length raw"
  proof -
    have "length raw div BLOCK_SIZE \<le> n * BLOCK_SIZE div BLOCK_SIZE" by (rule div_le_mono) (rule lraw(1))
    then show "whole \<le> n" using B by (simp add: defs(4))
    show "n - 1 \<le> whole" using lraw(2) B by (simp add: defs(4) less_eq_div_iff_mult_less_eq)
  qed (simp add: defs(4))
  have one: "wpE (on_dev (write_extent s whole (take (whole * BLOCK_SIZE) raw)))
    (\<lambda>_ m'. direct chk {s..<s + whole} m m' \<and> (\<forall>i < whole. view m' (s + i) = slice (i * BLOCK_SIZE) BLOCK_SIZE raw))
    (\<lambda>e m'. env_error e \<and> direct chk {s..<s + whole} m m') m"
  proof (rule wpE_mono [OF on_dev_write_extent [OF inv]])
    show "s + whole \<le> 2 ^ 64" using x(1) wn(1) by (simp add: defs)
    show "cmap m (s + i) = None" if "i < whole" for i using free that wn(1) unfolding set_eb by simp
    show "whole * BLOCK_SIZE \<le> length (take (whole * BLOCK_SIZE) raw)" using wn(3) by simp
    have "slice (i * BLOCK_SIZE) BLOCK_SIZE (take (whole * BLOCK_SIZE) raw) = slice (i * BLOCK_SIZE) BLOCK_SIZE raw" if "i < whole" for i
    proof -
      have "Suc i * BLOCK_SIZE \<le> whole * BLOCK_SIZE" using that by (intro mult_le_mono1) simp
      then show ?thesis by (intro slice_take) simp
    qed
    then show "direct chk {s..<s + whole} m m' \<and> (\<forall>i<whole. view m' (s + i) = slice (i * BLOCK_SIZE) BLOCK_SIZE raw)"
      if "direct chk {s..<s + whole} m m' \<and> (\<forall>i<whole. view m' (s + i) = slice (i * BLOCK_SIZE) BLOCK_SIZE (take (whole * BLOCK_SIZE) raw))" for m'
      using that by simp
  qed
  have pe: "put_extent data consumed x = bindE (on_dev (write_extent s whole (take (whole * BLOCK_SIZE) raw))) (\<lambda>_.
         if whole < n then on_dev (write_extent (wrap64 (s + whole)) 1 (splice 0 (drop (whole * BLOCK_SIZE) raw) (replicate BLOCK_SIZE 0)))
         else retE ())"
    unfolding put_extent_def Let_def raw [symmetric] defs(1,2,4) ..
  have views: "concat (map (view m') (map ((+) s) [0..<whole])) = take (whole * BLOCK_SIZE) raw"
    if "\<forall>i < whole. view m' (s + i) = slice (i * BLOCK_SIZE) BLOCK_SIZE raw" for m'
  proof -
    have "map (view m') (map ((+) s) [0..<whole]) = map (\<lambda>i. slice (i * BLOCK_SIZE) BLOCK_SIZE raw) [0..<whole]" using that by simp
    then show ?thesis by (simp only: concat_slices)
  qed
  show ?thesis
  proof (cases "whole < n")
    case False
    then have w: "whole = n" and full: "length raw = n * BLOCK_SIZE" using wn lraw by auto
    then have "n * BLOCK_SIZE \<le> length (drop consumed data)" by (simp add: defs)
    then show ?thesis
      unfolding pe wpE_bind using w full views
      by (intro wpE_mono [OF one]) (auto simp: wpE_ret set_eb eb defs(2,3) [symmetric] add.commute [of n s] simp del: length_drop)
  next
    case True
    then have n: "n = Suc whole" using wn(2) by simp
    let ?last = "splice 0 (drop (whole * BLOCK_SIZE) raw) (replicate BLOCK_SIZE 0)"
    have short: "length raw < n * BLOCK_SIZE"
      using n B unfolding defs(4) by (metis dividend_less_div_times mult.commute add.commute mult_Suc)
    have all: "raw = drop consumed data" "take (n * BLOCK_SIZE) raw = raw" using short by (auto simp: defs min_def split: if_splits)
    have last: "?last = drop (whole * BLOCK_SIZE) raw @ replicate (n * BLOCK_SIZE - length raw) 0"
      using short n wn(3) by (simp add: splice_def)
    have ll: "length ?last = BLOCK_SIZE" using short n wn(3) by (simp add: last)
    show ?thesis
      unfolding pe wpE_bind
    proof (rule wpE_mono [OF one])
      fix u m1 assume m1: "direct chk {s..<s + whole} m m1 \<and> (\<forall>i < whole. view m1 (s + i) = slice (i * BLOCK_SIZE) BLOCK_SIZE raw)"
      then have inv1: "cache_inv chk m1" by (simp add: direct_def)
      have sw: "wrap64 (s + whole) = s + whole" "s + whole + 1 \<le> 2 ^ 64" using x(1) n by (simp_all add: defs)
      have "cmap m1 (s + whole) = None"
        using direct_cmap [OF conjunct1 [OF m1]] free [of "s + whole"] n unfolding set_eb by simp
      have two: "wpE (on_dev (write_extent (s + whole) 1 ?last))
        (\<lambda>_ m'. direct chk {s + whole..<s + whole + 1} m1 m' \<and> (\<forall>i < 1. view m' (s + whole + i) = slice (i * BLOCK_SIZE) BLOCK_SIZE ?last))
        (\<lambda>e m'. env_error e \<and> direct chk {s + whole..<s + whole + 1} m1 m') m1"
        by (rule on_dev_write_extent [OF inv1 sw(2)]) (use \<open>cmap m1 (s + whole) = None\<close> ll in auto)
      have dir: "direct chk {s..<s + n} m m'" if "direct chk {s + whole..<s + whole + 1} m1 m'" for m'
        by (rule direct_mono [OF direct_trans [OF conjunct1 [OF m1] that]]) (use n in auto)
      have cont: "concat (map (view m') (map ((+) s) [0..<n])) = raw @ replicate (n * BLOCK_SIZE - length raw) 0"
        if d: "direct chk {s + whole..<s + whole + 1} m1 m'" and v: "view m' (s + whole) = slice 0 BLOCK_SIZE ?last" for m'
      proof -
        have "\<forall>i < whole. view m' (s + i) = slice (i * BLOCK_SIZE) BLOCK_SIZE raw" using m1 d by (simp add: direct_def)
        note vw = views [OF this]
        have "view m' (s + whole) = ?last" using v ll by (metis slice_all)
        then have "concat (map (view m') (map ((+) s) [0..<n])) = take (whole * BLOCK_SIZE) raw @ ?last"
          using vw unfolding n by simp
        also have "\<dots> = raw @ replicate (n * BLOCK_SIZE - length raw) 0"
          unfolding last append_assoc [symmetric] append_take_drop_id ..
        finally show ?thesis .
      qed
      show "wpE (if whole < n then on_dev (write_extent (wrap64 (s + whole)) 1 ?last) else retE ())
        (\<lambda>_ m'. direct chk (set (extent_blocks x)) m m' \<and> concat (map (view m') (extent_blocks x)) =
           take (block_count_of x * BLOCK_SIZE) (drop consumed data) @ replicate (block_count_of x * BLOCK_SIZE - length (drop consumed data)) 0)
        (\<lambda>e m'. env_error e \<and> direct chk (set (extent_blocks x)) m m') m1"
        unfolding sw(1) if_P [OF True] set_eb defs(2) [symmetric] all(1) [symmetric] all(2)
        unfolding eb by (rule wpE_mono [OF two]) (use dir cont in auto)
    next
      fix e m1 assume "env_error e \<and> direct chk {s..<s + whole} m m1"
      then show "env_error e \<and> direct chk (set (extent_blocks x)) m m1" unfolding set_eb using n by (auto elim: direct_mono)
    qed
  qed
qed

lemma all_blocks_pos: "\<forall>x \<in> set exts. 0 < block_count_of x \<Longrightarrow> exts \<noteq> [] \<Longrightarrow> 0 < length (all_blocks exts)"
  by (cases exts) auto

lemma put_data_spec:
  assumes "cache_inv chk m" and "\<forall>x \<in> set exts. start_block x + block_count_of x \<le> 2 ^ 64 \<and> 0 < block_count_of x"
    and "distinct (all_blocks exts)" and "\<forall>b \<in> set (all_blocks exts). cmap m b = None"
    and "length (drop consumed data) \<le> length (all_blocks exts) * BLOCK_SIZE"
    and "exts \<noteq> [] \<Longrightarrow> (length (all_blocks exts) - 1) * BLOCK_SIZE < length (drop consumed data)"
  shows "wpE (put_data data consumed exts)
    (\<lambda>_ m'. direct chk (set (all_blocks exts)) m m' \<and> concat (map (view m') (all_blocks exts)) =
       drop consumed data @ replicate (length (all_blocks exts) * BLOCK_SIZE - length (drop consumed data)) 0)
    (\<lambda>e m'. env_error e \<and> direct chk (set (all_blocks exts)) m m') m"
  using assms
proof (induction exts arbitrary: consumed m)
  case Nil
  then show ?case by (simp add: wpE_ret direct_refl)
next
  case (Cons x exts)
  let ?L = "length (drop consumed data)" and ?n = "block_count_of x" and ?d = "drop consumed data"
  have x: "start_block x + ?n \<le> 2 ^ 64" "0 < ?n" using Cons.prems(2) by auto
  have free: "\<And>b. b \<in> set (extent_blocks x) \<Longrightarrow> cmap m b = None" using Cons.prems(4) by simp
  have big: "(?n + length (all_blocks exts) - 1) * BLOCK_SIZE < ?L" using Cons.prems(6) by simp
  have len: "(?n - 1) * BLOCK_SIZE < ?L"
    by (rule le_less_trans [OF _ big]) (intro mult_le_mono1, simp)
  have dist: "distinct (all_blocks exts)" "set (extent_blocks x) \<inter> set (all_blocks exts) = {}" using Cons.prems(3) by auto
  show ?case
    unfolding put_data.simps wpE_bind
  proof (rule wpE_mono [OF put_extent_spec [OF Cons.prems(1) x free len]])
    fix u m1
    assume m1: "direct chk (set (extent_blocks x)) m m1 \<and> concat (map (view m1) (extent_blocks x)) =
       take (?n * BLOCK_SIZE) ?d @ replicate (?n * BLOCK_SIZE - ?L) 0"
    have inv1: "cache_inv chk m1" and cm: "cmap m1 = cmap m" using m1 direct_cmap by (auto simp: direct_def)
    have full: "?n * BLOCK_SIZE < ?L" if "exts \<noteq> []"
    proof (rule le_less_trans [OF _ big], intro mult_le_mono1)
      have "0 < length (all_blocks exts)" using all_blocks_pos [OF _ that] Cons.prems(2) by simp
      then show "?n \<le> ?n + length (all_blocks exts) - 1" by linarith
    qed
    have dd: "drop (consumed + ?n * BLOCK_SIZE) data = drop (?n * BLOCK_SIZE) ?d" by (simp add: add.commute)
    have tail: "wpE (put_data data (consumed + ?n * BLOCK_SIZE) exts)
      (\<lambda>_ m'. direct chk (set (all_blocks exts)) m1 m' \<and> concat (map (view m') (all_blocks exts)) =
         drop (consumed + ?n * BLOCK_SIZE) data @
         replicate (length (all_blocks exts) * BLOCK_SIZE - length (drop (consumed + ?n * BLOCK_SIZE) data)) 0)
      (\<lambda>e m'. env_error e \<and> direct chk (set (all_blocks exts)) m1 m') m1"
    proof (rule Cons.IH [OF inv1 _ dist(1)])
      show "length (drop (consumed + ?n * BLOCK_SIZE) data) \<le> length (all_blocks exts) * BLOCK_SIZE"
        using Cons.prems(5) by (simp add: dd algebra_simps)
      assume ne: "exts \<noteq> []"
      have "0 < length (all_blocks exts)" using all_blocks_pos [OF _ ne] Cons.prems(2) by simp
      then have "(?n + length (all_blocks exts) - 1) * BLOCK_SIZE = ?n * BLOCK_SIZE + (length (all_blocks exts) - 1) * BLOCK_SIZE"
        by (metis add_diff_assoc add_mult_distrib One_nat_def Suc_leI)
      then show "(length (all_blocks exts) - 1) * BLOCK_SIZE < length (drop (consumed + ?n * BLOCK_SIZE) data)"
        using big by (simp add: dd)
    qed (use Cons.prems(2,4) cm in auto)
    have eq: "take (?n * BLOCK_SIZE) ?d @ replicate (?n * BLOCK_SIZE - ?L) 0 @
        (drop (consumed + ?n * BLOCK_SIZE) data @
         replicate (length (all_blocks exts) * BLOCK_SIZE - length (drop (consumed + ?n * BLOCK_SIZE) data)) 0) =
       ?d @ replicate ((?n + length (all_blocks exts)) * BLOCK_SIZE - ?L) 0"
    proof (cases "exts = []")
      case True
      then show ?thesis using Cons.prems(5) by simp
    next
      case False
      then have "replicate (?n * BLOCK_SIZE - ?L) (0 :: u8) = []" using full by simp
      moreover have "length (all_blocks exts) * BLOCK_SIZE - length (drop (consumed + ?n * BLOCK_SIZE) data) =
          (?n + length (all_blocks exts)) * BLOCK_SIZE - ?L" using full [OF False] by (simp add: dd algebra_simps)
      ultimately show ?thesis by (simp only: append_Nil dd append_assoc [symmetric] append_take_drop_id)
    qed
    show "wpE (put_data data (consumed + ?n * BLOCK_SIZE) exts)
      (\<lambda>_ m'. direct chk (set (all_blocks (x # exts))) m m' \<and> concat (map (view m') (all_blocks (x # exts))) =
         ?d @ replicate (length (all_blocks (x # exts)) * BLOCK_SIZE - ?L) 0)
      (\<lambda>e m'. env_error e \<and> direct chk (set (all_blocks (x # exts))) m m') m1"
    proof (rule wpE_mono [OF tail])
      fix v m'
      assume m': "direct chk (set (all_blocks exts)) m1 m' \<and> concat (map (view m') (all_blocks exts)) =
         drop (consumed + ?n * BLOCK_SIZE) data @
         replicate (length (all_blocks exts) * BLOCK_SIZE - length (drop (consumed + ?n * BLOCK_SIZE) data)) 0"
      have same: "map (view m') (extent_blocks x) = map (view m1) (extent_blocks x)"
        using m' dist(2) by (auto simp: direct_def)
      have "concat (map (view m') (all_blocks (x # exts))) =
          concat (map (view m1) (extent_blocks x)) @ concat (map (view m') (all_blocks exts))"
        by (simp only: all_blocks_simps map_append concat_append same)
      then have "concat (map (view m') (all_blocks (x # exts))) = ?d @ replicate (length (all_blocks (x # exts)) * BLOCK_SIZE - ?L) 0"
        using eq by (simp only: m1 [THEN conjunct2] m' [THEN conjunct2] append_assoc length_append all_blocks_simps length_extent_blocks)
      moreover have "direct chk (set (all_blocks (x # exts))) m m'" using direct_trans m1 m' by fastforce
      ultimately show "direct chk (set (all_blocks (x # exts))) m m' \<and> concat (map (view m') (all_blocks (x # exts))) =
         ?d @ replicate (length (all_blocks (x # exts)) * BLOCK_SIZE - ?L) 0" by blast
    next
      fix e m' assume "env_error e \<and> direct chk (set (all_blocks exts)) m1 m'"
      then show "env_error e \<and> direct chk (set (all_blocks (x # exts))) m m'" using direct_trans m1 by fastforce
    qed
  next
    fix e m1 assume "env_error e \<and> direct chk (set (extent_blocks x)) m m1"
    then show "env_error e \<and> direct chk (set (all_blocks (x # exts))) m m1" by (auto elim: direct_mono)
  qed
qed

section \<open>Indirect chains\<close>

abbreviation span_of :: "extent \<Rightarrow> nat \<times> nat" where
  "span_of x \<equiv> (start_block x, block_count_of x)"

lemma extent_bytes_span: "map extent_bytes exts = map free_bytes (map span_of exts)"
  by (simp add: extent_bytes_def free_bytes_def del: to_le_numeral)

lemma length_concat_extents: "length (concat (map extent_bytes exts)) = 16 * length exts"
  by (induction exts) auto

lemma indirect_buf_eq:
  assumes "length exts \<le> EXTENTS_PER_INDIRECT"
  shows "indirect_buf exts next = to_le 4 (length exts) @ to_le 8 next @ concat (map extent_bytes exts) @
      replicate (BLOCK_SIZE - 12 - 16 * length exts) 0"
  using assms length_concat_extents [of exts] by (simp add: indirect_buf_def splice_def add.commute del: to_le_numeral)

lemma length_indirect_buf: "length exts \<le> EXTENTS_PER_INDIRECT \<Longrightarrow> length (indirect_buf exts next) = BLOCK_SIZE"
  using length_concat_extents [of exts]
  by (simp add: indirect_buf_eq EXTENTS_PER_INDIRECT_def BLOCK_SIZE_def del: to_le_numeral)

lemma indirect_buf_fields:
  assumes n: "length exts \<le> EXTENTS_PER_INDIRECT" and "next < 2 ^ 64" and ok: "list_all extent_ok exts"
  shows "chain_next (indirect_buf exts next) = next" and "chain_extents (indirect_buf exts next) = exts"
proof -
  let ?b = "indirect_buf exts next" and ?rest = "replicate (BLOCK_SIZE - 12 - 16 * length exts) (0 :: u8)"
  note eq = indirect_buf_eq [OF n, of "next"]
  show "chain_next ?b = next" using assms(2) by (simp add: eq chain_next_def rd_le_def slices codec del: to_le_numeral)
  have len: "rd_le 4 0 ?b = length exts"
    using n by (simp add: eq rd_le_def slices codec EXTENTS_PER_INDIRECT_def del: to_le_numeral)
  have el: "extent_at (12 + j * 16) ?b = exts ! j" if j: "j < length exts" for j
  proof -
    have "slice (12 + j * 16) 8 ?b = slice (16 * j) 8 (concat (map extent_bytes exts) @ ?rest)"
      "slice (12 + j * 16 + 8) 8 ?b = slice (16 * j + 8) 8 (concat (map extent_bytes exts) @ ?rest)"
      by (simp_all add: eq slices mult.commute add.commute del: to_le_numeral)
    moreover have "start_block (exts ! j) < 2 ^ 64" "block_count_of (exts ! j) < 2 ^ 64"
      using ok j by (auto simp: list_all_length extent_ok_def)
    ultimately show ?thesis
      using slice_free_bytes [of j "map span_of exts" ?rest] j unfolding extent_bytes_span
      by (simp add: extent_at_def rd_le_def codec del: to_le_numeral)
  qed
  have "map (\<lambda>j. extent_at (12 + j * 16) ?b) [0..<length exts] = map ((!) exts) [0..<length exts]"
    by (rule map_cong) (use el in auto)
  then show "chain_extents ?b = exts" using n by (simp add: chain_extents_def len map_nth)
qed

text \<open>\<open>chain_rep v b cs xs\<close>: from block \<open>b\<close> on, the blocks \<open>cs\<close> hold the extents \<open>xs\<close>.\<close>

fun chain_rep :: "(nat \<Rightarrow> bytes) \<Rightarrow> nat \<Rightarrow> nat list \<Rightarrow> extent list \<Rightarrow> bool" where
  "chain_rep v b [] xs \<longleftrightarrow> b = 0 \<and> xs = []"
| "chain_rep v b (c # cs) xs \<longleftrightarrow> b = c \<and> 0 < c \<and> c < 2 ^ 64 \<and>
     (\<exists>ys. xs = chain_extents (v c) @ ys \<and> chain_rep v (chain_next (v c)) cs ys)"

lemma chain_rep_cong: "chain_rep v b cs xs \<Longrightarrow> (\<And>c. c \<in> set cs \<Longrightarrow> v' c = v c) \<Longrightarrow> chain_rep v' b cs xs"
  by (induction v b cs xs rule: chain_rep.induct) auto

lemma chain_rep_zero: "chain_rep v 0 cs xs \<longleftrightarrow> cs = [] \<and> xs = []"
  by (cases cs) auto

lemma read_chain_spec:
  assumes "cache_inv chk m" and "chain_rep (view m) b cs xs" and "distinct (seen @ cs)"
  shows "wpE (read_chain exts seen b) (\<lambda>r m'. r = (exts @ xs, seen @ cs) \<and> reads chk m m')
    (\<lambda>e m'. env_error e \<and> reads chk m m') m"
  using assms
proof (induction cs arbitrary: b xs seen exts m)
  case Nil
  then have "read_chain exts seen b m = (Inr (exts, seen), m)" by (subst read_chain.simps) simp
  with Nil show ?case by (simp add: wpE_def reads_refl)
next
  case (Cons c cs)
  have b: "b = c" "0 < c" "c < 2 ^ 64" using Cons.prems(2) by auto
  from Cons.prems(2) obtain ys where ys: "xs = chain_extents (view m c) @ ys" "chain_rep (view m) (chain_next (view m c)) cs ys" by auto
  obtain r m1 where rd: "cache_read c m = (r, m1)" by fastforce
  note rs = cache_read_reads [OF Cons.prems(1) b(3) rd]
  have c: "c \<notin> set seen" using Cons.prems(3) by simp
  show ?case
  proof (cases r)
    case (Inl e)
    then have "read_chain exts seen b m = (Inl e, m1)" using rd b c by (subst read_chain.simps) simp
    moreover have "env_error e" using cache_error(3) [of c m e m1] rd Inl by (auto simp: env_error_def)
    ultimately show ?thesis using rs by (simp add: wpE_def)
  next
    case (Inr buf)
    have buf: "buf = view m c" using cache_read_spec(4) [OF Cons.prems(1) b(3) rd] Inr by simp
    have eq: "read_chain exts seen b m = read_chain (exts @ chain_extents buf) (seen @ [c]) (chain_next buf) m1"
      using rd b c Inr by (subst read_chain.simps) simp
    have inv1: "cache_inv chk m1" and v1: "view m1 = view m" using readsD [OF rs] by auto
    have "wpE (read_chain (exts @ chain_extents buf) (seen @ [c]) (chain_next buf))
        (\<lambda>r m'. r = ((exts @ chain_extents buf) @ ys, (seen @ [c]) @ cs) \<and> reads chk m1 m')
        (\<lambda>e m'. env_error e \<and> reads chk m1 m') m1"
      by (rule Cons.IH [OF inv1]) (use ys(2) v1 buf Cons.prems(3) in auto)
    then have "wpE (read_chain (exts @ chain_extents buf) (seen @ [c]) (chain_next buf))
        (\<lambda>r m'. r = (exts @ xs, seen @ c # cs) \<and> reads chk m m') (\<lambda>e m'. env_error e \<and> reads chk m m') m1"
      by (rule wpE_mono) (use reads_trans [OF rs] ys(1) buf in auto)
    then show ?thesis unfolding wpE_def eq by simp
  qed
qed

lemma write_as_error:
  assumes "write_as b buf c m = (Inl e, m')"
  shows "env_error e"
proof -
  obtain r m1 where t: "cache_take b m = (r, m1)" by fastforce
  have "cache_take b m = (Inl e, m')" using assms t by (auto simp: write_as_def bindE_def split: sum.splits prod.splits option.splits)
  from cache_error(2) [OF this] show ?thesis by (auto simp: env_error_def)
qed

lemma cache_write_cow:
  assumes c: "cow chk m0 m" and b: "fresh m0 m b" and buf: "length buf = BLOCK_SIZE"
  shows "wpE (cache_write b buf) (\<lambda>_ m'. cow chk m0 m' \<and> bmap m' = bmap m \<and> view m' = (view m)(b := buf))
    (\<lambda>e m'. env_error e \<and> cow chk m0 m') m"
proof -
  obtain r m' where w: "write_as b buf False m = (r, m')" by fastforce
  have b': "b < 2 ^ 64" "b \<notin> free_blocks (bmap m)" "b \<in> free_blocks (bmap m0)" "bm_data_start (bmap m0) \<le> b"
    using b by (auto simp: fresh_def)
  note sp = write_as_spec [OF cowD(1) [OF c] b'(1) buf _ w, simplified]
  have q: "quiet B m m'" if "b \<in> B" for B using sp(4) that .
  have bm: "bmap m' = bmap m" "alloc_io.more m' = alloc_io.more m" using quiet_bmap [OF q [of UNIV]] by auto
  have other: "view m' x = view m x" if "x \<noteq> b" for x using sp(2,3) that by (cases r) auto
  have "cow chk m0 m'"
  proof -
    have "calm B m0 m'" if "free_blocks (bmap m0) \<inter> {bm_data_start (bmap m0)..} \<subseteq> B" for B
    proof (rule calm_trans)
      show "calm B m0 m" using c that by (simp add: cow_def)
      show "calm B m m'" using q [of B] b' that by (auto simp: quiet_calm)
    qed
    then show ?thesis using c sp(1) bm other b'(3) unfolding cow_def by (metis cow_def)
  qed
  then show ?thesis using w sp(2) bm write_as_error [of b buf False m _ m'] by (cases r) (auto simp: wpE_def cache_write_def)
qed

lemma alloc_chain_spec:
  assumes "cow chk m0 m"
  shows "wpE (alloc_chain n) (\<lambda>bs m'. cow chk m0 m' \<and> length bs = n \<and> grown m bs m' \<and> (\<forall>b \<in> set bs. fresh m0 m' b) \<and> view m' = view m)
    (\<lambda>e m'. env_error e \<and> cow chk m0 m') m"
  using assms
proof (induction n arbitrary: m)
  case 0
  then show ?case by (simp add: wpE_ret grown_refl)
next
  case (Suc n)
  show ?case
    unfolding alloc_chain.simps
  proof (rule alloc_wp [OF Suc.prems])
    fix b m1 assume m1: "cow chk m0 m1" "grown m [b] m1" "fresh m0 m1 b" "view m1 = view m"
    show "wpE (bindE (alloc_chain n) (\<lambda>bs. retE (b # bs)))
      (\<lambda>bs m'. cow chk m0 m' \<and> length bs = Suc n \<and> grown m bs m' \<and> (\<forall>b \<in> set bs. fresh m0 m' b) \<and> view m' = view m)
      (\<lambda>e m'. env_error e \<and> cow chk m0 m') m1"
      unfolding wpE_bind wpE_ret
    proof (rule wpE_mono [OF Suc.IH [OF m1(1)]])
      fix bs m2 assume a: "cow chk m0 m2 \<and> length bs = n \<and> grown m1 bs m2 \<and> (\<forall>b \<in> set bs. fresh m0 m2 b) \<and> view m2 = view m1"
      have "fresh m0 m2 b" using m1(3) a by (auto simp: fresh_def grown_def)
      with a m1 grown_trans [OF m1(2), of bs m2]
      show "cow chk m0 m2 \<and> length (b # bs) = Suc n \<and> grown m (b # bs) m2 \<and> (\<forall>b \<in> set (b # bs). fresh m0 m2 b) \<and> view m2 = view m"
        by simp
    qed simp
  qed simp
qed

lemma write_chain_spec:
  assumes "cow chk m0 m" and "distinct bs" and "\<forall>b \<in> set bs. fresh m0 m b" and "list_all extent_ok exts"
    and "length exts \<le> length bs * EXTENTS_PER_INDIRECT"
  shows "wpE (write_chain bs exts)
    (\<lambda>_ m'. cow chk m0 m' \<and> bmap m' = bmap m \<and> chain_rep (view m') (case bs of [] \<Rightarrow> 0 | b # _ \<Rightarrow> b) bs exts \<and>
       (\<forall>b. b \<notin> set bs \<longrightarrow> view m' b = view m b))
    (\<lambda>e m'. env_error e \<and> cow chk m0 m') m"
  using assms
proof (induction bs arbitrary: exts m)
  case Nil
  then show ?case by (simp add: wpE_ret)
next
  case (Cons b bs)
  let ?k = "min (length exts) EXTENTS_PER_INDIRECT" and ?n = "case bs of [] \<Rightarrow> 0 | b' # _ \<Rightarrow> b'"
  have fr: "fresh m0 m b" using Cons.prems(3) by simp
  have lk: "length (take ?k exts) \<le> EXTENTS_PER_INDIRECT" by simp
  have ok: "list_all extent_ok (take ?k exts)" "list_all extent_ok (drop ?k exts)"
    using Cons.prems(4) by (auto simp: list_all_iff dest: in_set_takeD in_set_dropD)
  have n64: "?n < 2 ^ 64" using Cons.prems(3) by (auto simp: fresh_def split: list.split)
  note f = indirect_buf_fields [OF lk n64 ok(1)]
  show ?case
    unfolding write_chain.simps Let_def wpE_bind
  proof (rule wpE_mono [OF cache_write_cow [OF Cons.prems(1) fr length_indirect_buf [OF lk]]])
    fix u m1 assume m1: "cow chk m0 m1 \<and> bmap m1 = bmap m \<and> view m1 = (view m)(b := indirect_buf (take ?k exts) ?n)"
    have "wpE (write_chain bs (drop ?k exts))
      (\<lambda>_ m'. cow chk m0 m' \<and> bmap m' = bmap m1 \<and> chain_rep (view m') ?n bs (drop ?k exts) \<and> (\<forall>b. b \<notin> set bs \<longrightarrow> view m' b = view m1 b))
      (\<lambda>e m'. env_error e \<and> cow chk m0 m') m1"
      by (rule Cons.IH) (use m1 Cons.prems(2,3,5) ok(2) in \<open>auto simp: fresh_def min_def\<close>)
    then show "wpE (write_chain bs (drop ?k exts))
      (\<lambda>_ m'. cow chk m0 m' \<and> bmap m' = bmap m \<and> chain_rep (view m') (case b # bs of [] \<Rightarrow> 0 | b # _ \<Rightarrow> b) (b # bs) exts \<and>
         (\<forall>c. c \<notin> set (b # bs) \<longrightarrow> view m' c = view m c))
      (\<lambda>e m'. env_error e \<and> cow chk m0 m') m1"
    proof (rule wpE_mono)
      fix u m' assume m': "cow chk m0 m' \<and> bmap m' = bmap m1 \<and> chain_rep (view m') ?n bs (drop ?k exts) \<and> (\<forall>b. b \<notin> set bs \<longrightarrow> view m' b = view m1 b)"
      have "view m' b = indirect_buf (take ?k exts) ?n" using m' m1 Cons.prems(2) by simp
      with m' f have "chain_rep (view m') b (b # bs) exts"
        using fr by (auto simp: fresh_def intro!: exI [of _ "drop ?k exts"])
      then show "cow chk m0 m' \<and> bmap m' = bmap m \<and> chain_rep (view m') (case b # bs of [] \<Rightarrow> 0 | b # _ \<Rightarrow> b) (b # bs) exts \<and>
         (\<forall>c. c \<notin> set (b # bs) \<longrightarrow> view m' c = view m c)" using m' m1 by simp
    qed simp
  qed simp
qed

lemma write_indirect_spec:
  assumes c: "cow chk m0 m" and ok: "list_all extent_ok exts" and ne: "exts \<noteq> []"
  shows "wpE (write_indirect_extents exts)
    (\<lambda>b m'. cow chk m0 m' \<and> (\<exists>cs. cs \<noteq> [] \<and> grown m cs m' \<and> (\<forall>c \<in> set cs. fresh m0 m' c) \<and> chain_rep (view m') b cs exts \<and>
       (\<forall>b. b \<notin> set cs \<longrightarrow> view m' b = view m b)))
    (\<lambda>e m'. env_error e \<and> cow chk m0 m') m"
  unfolding write_indirect_extents_def wpE_bind
proof (rule wpE_mono [OF alloc_chain_spec [OF c]])
  fix bs m1
  assume m1: "cow chk m0 m1 \<and> length bs = div_ceil (length exts) EXTENTS_PER_INDIRECT \<and> grown m bs m1 \<and>
      (\<forall>b \<in> set bs. fresh m0 m1 b) \<and> view m1 = view m"
  have "length exts \<le> EXTENTS_PER_INDIRECT * div_ceil (length exts) EXTENTS_PER_INDIRECT"
    by (rule div_ceil_ge) (simp add: EXTENTS_PER_INDIRECT_def)
  then have le: "length exts \<le> length bs * EXTENTS_PER_INDIRECT" using m1 by (simp add: mult.commute)
  then have bs: "bs \<noteq> []" using ne by auto
  have "wpE (write_chain bs exts)
    (\<lambda>_ m'. cow chk m0 m' \<and> bmap m' = bmap m1 \<and> chain_rep (view m') (case bs of [] \<Rightarrow> 0 | b # _ \<Rightarrow> b) bs exts \<and>
       (\<forall>b. b \<notin> set bs \<longrightarrow> view m' b = view m1 b)) (\<lambda>e m'. env_error e \<and> cow chk m0 m') m1"
    by (rule write_chain_spec) (use m1 ok le in \<open>auto simp: grown_def\<close>)
  then show "wpE (write_chain bs exts) (\<lambda>a. wpE (retE (bs ! 0))
    (\<lambda>b m'. cow chk m0 m' \<and> (\<exists>cs. cs \<noteq> [] \<and> grown m cs m' \<and> (\<forall>c \<in> set cs. fresh m0 m' c) \<and> chain_rep (view m') b cs exts \<and>
       (\<forall>b. b \<notin> set cs \<longrightarrow> view m' b = view m b)))
    (\<lambda>e m'. env_error e \<and> cow chk m0 m')) (\<lambda>e m'. env_error e \<and> cow chk m0 m') m1"
    unfolding wpE_ret
  proof (rule wpE_mono)
    fix u m' assume m': "cow chk m0 m' \<and> bmap m' = bmap m1 \<and> chain_rep (view m') (case bs of [] \<Rightarrow> 0 | b # _ \<Rightarrow> b) bs exts \<and>
       (\<forall>b. b \<notin> set bs \<longrightarrow> view m' b = view m1 b)"
    have "chain_rep (view m') (bs ! 0) bs exts" using m' bs by (cases bs) auto
    moreover have "grown m bs m'" and "\<forall>c \<in> set bs. fresh m0 m' c" using m' m1 by (simp_all add: grown_def fresh_def)
    ultimately show "cow chk m0 m' \<and> (\<exists>cs. cs \<noteq> [] \<and> grown m cs m' \<and> (\<forall>c \<in> set cs. fresh m0 m' c) \<and> chain_rep (view m') (bs ! 0) cs exts \<and>
       (\<forall>b. b \<notin> set cs \<longrightarrow> view m' b = view m b))" using m' m1 bs by auto
  qed simp
qed simp

section \<open>Giving blocks back\<close>

text \<open>Freeing runs is exact: \<open>freed chk F m m'\<close> is \<open>gives_back\<close> where all of \<open>F\<close> was freed.\<close>

definition freed_all :: "(bytes \<Rightarrow> bool) \<Rightarrow> nat set \<Rightarrow> 'a alloc_io_scheme \<Rightarrow> 'a alloc_io_scheme \<Rightarrow> bool" where
  "freed_all chk F m m' \<longleftrightarrow> gives_back chk F m m' \<and> free_blocks (bmap m') = free_blocks (bmap m) \<union> F \<and> dev m' = dev m"

lemma freed_all_refl: "cache_inv chk m \<Longrightarrow> bm_inv (bmap m) \<Longrightarrow> freed_all chk {} m m"
  by (simp add: freed_all_def gives_back_refl)

lemma freed_all_trans: "freed_all chk F m m' \<Longrightarrow> freed_all chk G m' m'' \<Longrightarrow> freed_all chk (F \<union> G) m m''"
  unfolding freed_all_def using gives_back_mono [of chk F m m' "F \<union> G"] gives_back_mono [of chk G m' m'' "F \<union> G"] gives_back_trans
  by (metis Un_assoc Un_upper1 Un_upper2)

lemma release_extent_spec:
  assumes inv: "cache_inv chk m" "bm_inv (bmap m)" and x: "good_extent (bmap m) x"
  shows "freed_all chk (set (extent_blocks x)) m (release_extent x m)"
proof -
  let ?bm = "bm_free_range (start_block x) (block_count_of x) (bmap m)"
  let ?m = "m\<lparr>bmap := ?bm\<rparr>" and ?bs = "extent_blocks x"
  have "bm_data_start (bmap m) \<le> start_block x" "start_block x + block_count_of x \<le> bm_total (bmap m)" using x by (auto simp: good_extent_def)
  note f = bm_free_range_result [OF inv(2) this refl]
  have small: "b < 2 ^ 64" if "b \<in> set ?bs" for b
    using that good_extent_blocks(1) [OF inv(2) x] inv(2) x by (auto simp: good_extent_def bm_inv_def)
  have i: "cache_inv chk (fold invalidate ?bs ?m) \<and> (\<forall>B. quiet B ?m (fold invalidate ?bs ?m)) \<and>
      (\<forall>b. b \<notin> set ?bs \<longrightarrow> view (fold invalidate ?bs ?m) b = view ?m b) \<and>
      cmap (fold invalidate ?bs ?m) = cmap ?m |` (- set ?bs) \<and> dev (fold invalidate ?bs ?m) = dev ?m"
    by (rule invalidate_list) (use inv small in simp_all)
  have bm: "bmap (fold invalidate ?bs ?m) = ?bm" "alloc_io.more (fold invalidate ?bs ?m) = alloc_io.more m"
    using quiet_bmap [of _ ?m "fold invalidate ?bs ?m"] i by auto
  have "free_blocks ?bm = free_blocks (bmap m) \<union> set ?bs" using f(3) good_extent_blocks(1) [OF inv(2) x] by simp
  then show ?thesis
    using i bm f(1,2) unfolding freed_all_def gives_back_def release_extent_def by (auto simp: quiet_calm)
qed

lemma good_extent_gives_back: "gives_back chk F m m' \<Longrightarrow> good_extent (bmap m') = good_extent (bmap m)"
  by (rule good_extent_tracks) (simp add: gives_back_def)

lemma release_extents_spec:
  assumes "cache_inv chk m" and "bm_inv (bmap m)" and "list_all (good_extent (bmap m)) exts"
  shows "freed_all chk (set (all_blocks exts)) m (fold release_extent exts m)"
  using assms
proof (induction exts arbitrary: m)
  case (Cons x exts)
  have f: "freed_all chk (set (extent_blocks x)) m (release_extent x m)" using release_extent_spec Cons.prems by auto
  then have "freed_all chk (set (all_blocks exts)) (release_extent x m) (fold release_extent exts (release_extent x m))"
    using Cons.prems(3) good_extent_gives_back [of chk _ m]
    by (intro Cons.IH) (auto simp: freed_all_def gives_back_def good_extent_gives_back)
  from freed_all_trans [OF f this] show ?case by simp
qed (simp add: freed_all_refl)

lemma free_old_block_release: "b < 2 ^ 64 \<Longrightarrow> free_old_block b m = release_extent \<lparr>start_block = b, block_count_of = 1\<rparr> m"
  by (simp add: free_old_block_def release_extent_def extent_blocks_def)

lemma free_old_block_spec:
  assumes inv: "cache_inv chk m" "bm_inv (bmap m)" and b: "bm_data_start (bmap m) \<le> b" "b < bm_total (bmap m)"
  shows "freed_all chk {b} m (free_old_block b m)"
proof -
  have "b < 2 ^ 64" using b(2) inv(2) by (simp add: bm_inv_def)
  with release_extent_spec [OF inv, of "\<lparr>start_block = b, block_count_of = 1\<rparr>"] b show ?thesis
    by (simp add: free_old_block_release good_extent_def extent_blocks_def)
qed

lemma free_old_blocks_spec:
  assumes "cache_inv chk m" and "bm_inv (bmap m)" and "\<forall>b \<in> set bs. bm_data_start (bmap m) \<le> b \<and> b < bm_total (bmap m)"
  shows "freed_all chk (set bs) m (fold free_old_block bs m)"
  using assms
proof (induction bs arbitrary: m)
  case (Cons b bs)
  have f: "freed_all chk {b} m (free_old_block b m)" using free_old_block_spec Cons.prems by auto
  then have "bm_data_start (bmap (free_old_block b m)) = bm_data_start (bmap m) \<and> bm_total (bmap (free_old_block b m)) = bm_total (bmap m)"
    using tracks_same by (auto simp: freed_all_def gives_back_def)
  then have "freed_all chk (set bs) (free_old_block b m) (fold free_old_block bs (free_old_block b m))"
    using Cons.prems(3) f by (intro Cons.IH) (auto simp: freed_all_def gives_back_def)
  from freed_all_trans [OF f this] show ?case by simp
qed (simp add: freed_all_refl)

lemma free_chain_spec:
  assumes "cache_inv chk m" and "bm_inv (bmap m)" and "chain_rep (view m) b cs xs" and "distinct (seen @ cs)"
    and "\<forall>c \<in> set cs. bm_data_start (bmap m) \<le> c \<and> c < bm_total (bmap m)"
  shows "gives_back chk (set cs) m (free_chain seen b m)"
  using assms
proof (induction cs arbitrary: b xs seen m)
  case Nil
  then have "free_chain seen b m = m" by (subst free_chain.simps) simp
  with Nil show ?case by (simp add: gives_back_refl)
next
  case (Cons c cs)
  have b: "b = c" "0 < c" "c < 2 ^ 64" using Cons.prems(3) by auto
  from Cons.prems(3) obtain ys where ys: "chain_rep (view m) (chain_next (view m c)) cs ys" by auto
  obtain r m1 where rd: "cache_read c m = (r, m1)" by fastforce
  note rs = cache_read_reads [OF Cons.prems(1) b(3) rd]
  have c: "c \<notin> set seen" "c \<notin> set cs" using Cons.prems(4) by auto
  note g1 = reads_gives_back [OF rs Cons.prems(2), of "set (c # cs)"]
  show ?case
  proof (cases r)
    case (Inl e)
    then have "free_chain seen b m = m1" using rd b c by (subst free_chain.simps) simp
    then show ?thesis using g1 by simp
  next
    case (Inr buf)
    let ?m = "free_old_block c m1"
    have buf: "buf = view m c" using cache_read_spec(4) [OF Cons.prems(1) b(3) rd] Inr by simp
    have eq: "free_chain seen b m = free_chain (seen @ [c]) (chain_next buf) ?m"
      using rd b c Inr by (subst free_chain.simps) (simp add: free_old_block_def)
    have inv1: "cache_inv chk m1" "bm_inv (bmap m1)" and v1: "view m1 = view m" and bm1: "bmap m1 = bmap m"
      using readsD [OF rs] g1 rs quiet_bmap [of _ m m1] by (auto simp: gives_back_def reads_def)
    have f: "freed_all chk {c} m1 ?m" by (rule free_old_block_spec [OF inv1]) (use Cons.prems(5) bm1 in auto)
    then have lay: "bm_data_start (bmap ?m) = bm_data_start (bmap m)" "bm_total (bmap ?m) = bm_total (bmap m)"
      using tracks_same bm1 by (auto simp: freed_all_def gives_back_def)
    have "chain_rep (view ?m) (chain_next buf) cs ys"
      by (rule chain_rep_cong [OF ys [folded buf]]) (use f v1 c in \<open>auto simp: freed_all_def gives_back_def\<close>)
    then have "gives_back chk (set cs) ?m (free_chain (seen @ [c]) (chain_next buf) ?m)"
      by (rule Cons.IH [rotated 2]) (use f Cons.prems(4,5) lay in \<open>auto simp: freed_all_def gives_back_def\<close>)
    then have "gives_back chk (set (c # cs)) ?m (free_chain seen b m)" unfolding eq by (rule gives_back_mono) auto
    moreover have "gives_back chk (set (c # cs)) m1 ?m" using f gives_back_mono by (fastforce simp: freed_all_def)
    ultimately show ?thesis using g1 gives_back_trans by blast
  qed
qed

lemma rollback_spec:
  assumes inv: "cache_inv chk m" "bm_inv (bmap m)" and good: "list_all (good_extent (bmap m)) exts"
    and ch: "chain_rep (view m) indirect cs xs" "distinct cs" "\<forall>c \<in> set cs. bm_data_start (bmap m) \<le> c \<and> c < bm_total (bmap m)"
    and dj: "set cs \<inter> set (all_blocks exts) = {}"
  shows "gives_back chk (set (all_blocks exts) \<union> set cs) m (rollback_alloc exts indirect m)"
proof -
  let ?F = "set (all_blocks exts) \<union> set cs" and ?m = "fold release_extent exts m"
  have f: "freed_all chk (set (all_blocks exts)) m ?m" by (rule release_extents_spec [OF inv good])
  then have g: "gives_back chk ?F m ?m" by (auto simp: freed_all_def elim: gives_back_mono)
  show ?thesis
  proof (cases "indirect = 0")
    case True
    then show ?thesis using g by (simp add: rollback_alloc_def)
  next
    case False
    have "chain_rep (view ?m) indirect cs xs"
      by (rule chain_rep_cong [OF ch(1)]) (use f dj in \<open>auto simp: freed_all_def gives_back_def\<close>)
    then have "gives_back chk (set cs) ?m (free_chain [] indirect ?m)"
      by (rule free_chain_spec [rotated 2])
        (use f ch(2,3) tracks_same [of "bmap m" "bmap ?m"] in \<open>auto simp: freed_all_def gives_back_def\<close>)
    then have "gives_back chk ?F ?m (free_chain [] indirect ?m)" by (rule gives_back_mono) auto
    with g have "gives_back chk ?F m (free_chain [] indirect ?m)" by (rule gives_back_trans)
    then show ?thesis using False by (simp add: rollback_alloc_def free_indirect_chain_def)
  qed
qed

section \<open>Reading data past the cache\<close>

lemma clean_media:
  assumes "cache_inv chk m" and "b < 2 ^ 64" and "b \<notin> dirty_set m"
  shows "media (dev m) (actual (dev m) b) = view m b"
proof (cases "cmap m b")
  case None
  then show ?thesis using assms(2) by (simp add: view_def)
next
  case (Some s)
  obtain xs where rep: "cache_rep chk m xs" using assms(1) by (auto simp: cache_inv_def)
  have s: "s \<in> set xs" "s_block (slots m ! s) = b" using Some cache_repD(4) [OF rep] by auto
  then have "\<not> s_dirty (slots m ! s)" using assms(3) cache_repD(1) [OF rep s(1)] by (auto simp: dirty_set_def)
  with cache_repD(7) [OF rep s(1)] s(2) show ?thesis using Some assms(2) by (simp add: view_def)
qed

lemma read_list_effect:
  "read_list bs d = (r, d') \<Longrightarrow> same_disk d d' \<and> media d' = media d \<and> unflushed d' = unflushed d \<and>
     (\<forall>xs. r = Inr xs \<longrightarrow> xs = concat (map (media d) bs))"
proof (induction bs arbitrary: d r d')
  case Nil
  then show ?case by (auto simp: retE_def)
next
  case (Cons b bs)
  obtain r1 d1 where one: "drv_read b d = (r1, d1)" by fastforce
  note w = drv_read_cases [OF one]
  obtain r2 d2 where two: "read_list bs d1 = (r2, d2)" by fastforce
  note ih = Cons.IH [OF two]
  show ?case
  proof (cases r1)
    case (Inl e)
    then show ?thesis using Cons.prems one w by (auto simp: bindE_def)
  next
    case (Inr x)
    then have "x = media d b" using w(4) by simp
    with Inr show ?thesis using Cons.prems one two w(1-3) ih
      by (cases r2) (auto simp: bindE_def retE_def same_disk_def)
  qed
qed

lemma read_multi_spec:
  assumes inv: "cache_inv chk m"
  shows "wpE (on_dev (read_multi_extent (map span_of exts)))
    (\<lambda>r m'. r = concat (map (\<lambda>b. media (dev m) (actual (dev m) b)) (all_blocks exts)) \<and> reads chk m m')
    (\<lambda>e m'. env_error e \<and> reads chk m m') m"
proof -
  have "wrap64 (actual (dev m) s + i) = actual (dev m) (wrap64 (s + i))" for s i
    unfolding actual_def mod_add_left_eq by (simp add: ac_simps)
  then have bs: "concat (map (\<lambda>(start, count). map (\<lambda>i. wrap64 (actual (dev m) start + i)) [0..<count]) (map span_of exts)) =
      map (actual (dev m)) (all_blocks exts)"
    by (induction exts) (simp_all add: extent_blocks_def)
  obtain r d where rd: "read_list (map (actual (dev m)) (all_blocks exts)) (dev m) = (r, d)" by fastforce
  note e = read_list_effect [OF rd]
  obtain xs where rep: "cache_rep chk m xs" using inv by (auto simp: cache_inv_def)
  have "reads chk m (m\<lparr>dev := d\<rparr>)"
    using rep_dev_same [OF rep, of d] e by (auto simp: reads_def cache_inv_def)
  moreover have "read_multi_extent (map span_of exts) (dev m) = (r, d)" unfolding read_multi_extent_def bs by (rule rd)
  ultimately show ?thesis using e by (cases r) (auto simp: wpE_def on_dev_def env_error_def comp_def)
qed

end
