(* ===== verification/Object_Map.thy ===== *)
theory Object_Map
  imports Object_Data
begin

text \<open>
  The object store as a finite map from content addresses to payloads. \<open>represents h c n m M\<close> says that the
  mounted state \<open>m\<close> holds the map \<open>M\<close>: the index is a search tree of height at most \<open>n\<close> whose entries are the
  domain of \<open>M\<close>, each entry's extents and chain hold the encryption of its payload, and the blocks of the tree, of
  the objects and of the nodes replaced since the last commit are pairwise distinct, in use and in the data area.
  \<open>get\<close> is lookup in this map and \<open>put\<close> is update; an operation that fails leaves the map as it was.
\<close>

section \<open>The map a state holds\<close>

definition obj :: "ciphers \<Rightarrow> disk_keys option \<Rightarrow> bitmap \<Rightarrow> (nat \<Rightarrow> bytes) \<Rightarrow> nat set \<Rightarrow> btree_entry \<Rightarrow> bytes \<Rightarrow> nat list \<Rightarrow> bool" where
  "obj c ks bm v dirty e p xs \<longleftrightarrow> (\<exists>cs ys key nonce. object_key c ks (e_hash e) = Some (key, nonce) \<and>
     chain_rep v (indirect_block e) cs ys \<and> xs = cs @ all_blocks (direct_extents e @ ys) \<and>
     list_all (good_extent bm) (direct_extents e @ ys) \<and> set (all_blocks (direct_extents e @ ys)) \<inter> dirty = {} \<and>
     length p \<le> AES_LIMIT \<and> plaintext_size e = length p \<and> disk_size e = length p + 16 \<and>
     length (all_blocks (direct_extents e @ ys)) = div_ceil (disk_size e) BLOCK_SIZE \<and>
     take (disk_size e) (concat (map v (all_blocks (direct_extents e @ ys)))) = aead_encrypt_aes c key nonce p)"

fun idx_blocks :: "btree option \<Rightarrow> nat list" where
  "idx_blocks None = []"
| "idx_blocks (Some t) = blocks t"

fun idx_entries :: "btree option \<Rightarrow> btree_entry list" where
  "idx_entries None = []"
| "idx_entries (Some t) = entries t"

fun index :: "(bytes \<Rightarrow> bytes) \<Rightarrow> nat \<Rightarrow> 'a fs_io_scheme \<Rightarrow> btree option \<Rightarrow> bool" where
  "index h n m None \<longleftrightarrow> sb_btree_root (fs_sb m) = 0"
| "index h n m (Some t) \<longleftrightarrow> sb_btree_root (fs_sb m) = root t \<and> root t \<noteq> 0 \<and> stored (verify_node_checksum h) m t \<and>
     search_tree t \<and> height t \<le> n"

definition used_ok :: "bitmap \<Rightarrow> nat list \<Rightarrow> bool" where
  "used_ok bm us \<longleftrightarrow> distinct us \<and> set us \<inter> free_blocks bm = {} \<and> set us \<subseteq> {bm_data_start bm..<bm_total bm}"

definition fs_layout :: "'a fs_io_scheme \<Rightarrow> bool" where
  "fs_layout m \<longleftrightarrow> sb_data_start (fs_sb m) = bm_data_start (bmap m) \<and> sb_total_blocks (fs_sb m) = bm_total (bmap m) \<and>
     META_END \<le> bm_start (bmap m) \<and> free_blocks (bmap m) \<subseteq> {bm_data_start (bmap m)..}"

definition represents :: "(bytes \<Rightarrow> bytes) \<Rightarrow> ciphers \<Rightarrow> nat \<Rightarrow> 'a fs_io_scheme \<Rightarrow> (bytes \<rightharpoonup> bytes) \<Rightarrow> bool" where
  "represents h c n m M \<longleftrightarrow> mounted m \<and> cache_inv (verify_node_checksum h) m \<and> bm_inv (bmap m) \<and> fs_layout m \<and>
     (\<exists>t pl bl. index h n m t \<and>
        (\<forall>e \<in> set (idx_entries t). obj c (disk_key m) (bmap m) (view m) (dirty_set m) e (pl e) (bl e)) \<and>
        used_ok (bmap m) (idx_blocks t @ concat (map bl (idx_entries t)) @ pending_old_blocks m) \<and>
        M = (\<lambda>k. map_option pl (find (\<lambda>e. e_hash e = k) (idx_entries t))))"

lemma fs_of_alloc:
  assumes "alloc_io.more m' = alloc_io.more (m :: 'a fs_io_scheme)"
  shows "fs_sb m' = fs_sb m" "pending_old_blocks m' = pending_old_blocks m" "mounted m' = mounted m" "disk_key m' = disk_key m"
    "jrnl m' = jrnl m" "fs_generation m' = fs_generation m" "commits_since_gc m' = commits_since_gc m"
  using assms by (cases m; cases m'; simp)+

lemma keeps_dirty:
  assumes "keeps chk m m'" and "b \<notin> free_blocks (bmap m)" and "b \<notin> dirty_set m"
  shows "b \<notin> dirty_set m'"
proof -
  have "calm (- {b}) m m'" using assms(1,2) by (auto simp: keeps_def)
  then show ?thesis using assms(3) by (auto simp: calm_def)
qed

lemma obj_keeps:
  assumes k: "keeps chk m m'" and o: "obj c ks (bmap m) (view m) (dirty_set m) e p xs" and x: "set xs \<inter> free_blocks (bmap m) = {}"
  shows "obj c ks (bmap m') (view m') (dirty_set m') e p xs"
proof -
  from o obtain cs ys key nonce where
    o1: "object_key c ks (e_hash e) = Some (key, nonce)" "chain_rep (view m) (indirect_block e) cs ys"
      "xs = cs @ all_blocks (direct_extents e @ ys)" "list_all (good_extent (bmap m)) (direct_extents e @ ys)"
      "set (all_blocks (direct_extents e @ ys)) \<inter> dirty_set m = {}"
    and o2: "length p \<le> AES_LIMIT \<and> plaintext_size e = length p \<and> disk_size e = length p + 16 \<and>
      length (all_blocks (direct_extents e @ ys)) = div_ceil (disk_size e) BLOCK_SIZE"
      "take (disk_size e) (concat (map (view m) (all_blocks (direct_extents e @ ys)))) = aead_encrypt_aes c key nonce p"
    unfolding obj_def by blast
  have v: "view m' b = view m b" if "b \<in> set xs" for b using k x that by (auto simp: keeps_def)
  have "chain_rep (view m') (indirect_block e) cs ys" by (rule chain_rep_cong [OF o1(2)]) (simp add: v o1(3))
  moreover have "good_extent (bmap m') = good_extent (bmap m)" using good_extent_tracks k by (auto simp: keeps_def)
  moreover have "set (all_blocks (direct_extents e @ ys)) \<inter> dirty_set m' = {}" using keeps_dirty [OF k] x o1(3,5) by auto
  moreover have "map (view m') (all_blocks (direct_extents e @ ys)) = map (view m) (all_blocks (direct_extents e @ ys))"
    using v o1(3) by simp
  ultimately show ?thesis using o1 o2 unfolding obj_def by metis
qed

lemma index_keeps:
  assumes "keeps (verify_node_checksum h) m m'" and "index h n m t" and "fs_sb m' = fs_sb m"
  shows "index h n m' t"
proof (cases t)
  case (Some u)
  have "stored (verify_node_checksum h) m' u"
    using assms(1,2) rep_cong [of "verify_node_checksum h" "view m" u "view m'"] by (auto simp: Some stored_def keeps_def)
  with assms(2,3) show ?thesis by (simp add: Some)
qed (use assms in simp)

lemma used_ok_subset: "used_ok bm us \<Longrightarrow> tracks bm bm' \<Longrightarrow> free_blocks bm' \<subseteq> free_blocks bm \<Longrightarrow> used_ok bm' us"
  using tracks_same [of bm bm'] by (auto simp: used_ok_def)

lemma represents_keeps:
  assumes r: "represents h c n m M" and k: "keeps (verify_node_checksum h) m m'"
  shows "represents h c n m' M"
proof -
  from r obtain t pl bl where t: "index h n m t" and
    o: "\<forall>e \<in> set (idx_entries t). obj c (disk_key m) (bmap m) (view m) (dirty_set m) e (pl e) (bl e)" and
    u: "used_ok (bmap m) (idx_blocks t @ concat (map bl (idx_entries t)) @ pending_old_blocks m)" and
    M: "M = (\<lambda>k. map_option pl (find (\<lambda>e. e_hash e = k) (idx_entries t)))"
    unfolding represents_def by blast
  have more: "alloc_io.more m' = alloc_io.more m" and tr: "tracks (bmap m) (bmap m')" and fr: "free_blocks (bmap m') \<subseteq> free_blocks (bmap m)"
    using k by (auto simp: keeps_def)
  note f = fs_of_alloc [OF more]
  have "set (bl e) \<inter> free_blocks (bmap m) = {}" if "e \<in> set (idx_entries t)" for e using u that by (auto simp: used_ok_def)
  then have "\<forall>e \<in> set (idx_entries t). obj c (disk_key m') (bmap m') (view m') (dirty_set m') e (pl e) (bl e)"
    using o obj_keeps [OF k] f(4) by auto
  moreover have "index h n m' t" by (rule index_keeps [OF k t f(1)])
  moreover have "used_ok (bmap m') (idx_blocks t @ concat (map bl (idx_entries t)) @ pending_old_blocks m')"
    using used_ok_subset [OF u tr fr] f(2) by simp
  moreover have "fs_layout m'"
  proof -
    have "fs_layout m" using r by (simp add: represents_def)
    then show ?thesis using tr fr f(1) by (auto simp: fs_layout_def tracks_def same_layout_def)
  qed
  moreover have "mounted m'" "cache_inv (verify_node_checksum h) m'" "bm_inv (bmap m')"
    using r k f(3) by (auto simp: represents_def keeps_def)
  ultimately show ?thesis using M unfolding represents_def by blast
qed

section \<open>Reading is lookup\<close>

lemma represents_need_mounted: "represents h c n m M \<Longrightarrow> wpE (bindE need_mounted k) Q R m = wpE (k ()) Q R m"
  by (simp add: wpE_def bindE_def need_mounted_def represents_def)

lemma wpE_gets [wp]: "wpE (gets f) Q R m = Q (f m) m"
  by (simp add: wpE_def gets_def)

lemma wpE_modify [wp]: "wpE (modify f) Q R m = Q () (f m)"
  by (simp add: wpE_def modify_def)

lemma index_lookup:
  assumes inv: "cache_inv (verify_node_checksum h) m" "bm_inv (bmap m)" and t: "index h n m t" and n: "n \<le> MAX_TREE_DEPTH"
  shows "wpE (btree_lookup h (sb_btree_root (fs_sb m)) key)
    (\<lambda>r m'. r = find (\<lambda>e. e_hash e = key) (idx_entries t) \<and> cow (verify_node_checksum h) m m' \<and> bmap m' = bmap m \<and> view m' = view m)
    (\<lambda>e m'. env_error e \<and> cow (verify_node_checksum h) m m') m"
proof (cases t)
  case None
  then show ?thesis using t by (simp add: btree_lookup_def wpE_ret cow_refl [OF inv])
next
  case (Some u)
  then have "sb_btree_root (fs_sb m) = root u" "root u \<noteq> 0" "stored (verify_node_checksum h) m u" "search_tree u" "height u \<le> MAX_TREE_DEPTH"
    using t n by auto
  with lookup_loop_spec [OF cow_refl [OF inv], of u MAX_TREE_DEPTH key] show ?thesis by (simp add: btree_lookup_def Some)
qed

lemma sum_extents_eq:
  assumes "list_all (\<lambda>(s, k). 0 < k \<and> ds \<le> s \<and> s + k \<le> tot) xs" and "tot < 2 ^ 64" and "acc + sum_list (map snd xs) \<le> tot"
  shows "sum_extents ds tot acc xs = Some (acc + sum_list (map snd xs))"
  using assms(1,3)
proof (induction xs arbitrary: acc)
  case (Cons x xs)
  obtain s k where x: "x = (s, k)" by fastforce
  have "s + k < 2 ^ 64" "acc + k < 2 ^ 64" using Cons.prems assms(2) x by auto
  with Cons x show ?case by simp
qed simp

lemma length_all_blocks: "length (all_blocks exts) = sum_list (map block_count_of exts)"
  by (induction exts) auto

lemma distinct_length_le:
  assumes "distinct us" and "set us \<subseteq> {..<n}"
  shows "length us \<le> n"
  using card_mono [OF _ assms(2)] distinct_card [OF assms(1)] by simp

lemma obj_locate:
  assumes inv: "bm_inv (bmap m)" and lay: "fs_layout m" and o: "list_all (good_extent (bmap m)) exts"
    and u: "distinct (all_blocks exts)"
  shows "checked_extent_blocks (map span_of exts) (sb_data_start (fs_sb m)) (sb_total_blocks (fs_sb m)) = Some (length (all_blocks exts))"
proof -
  have "set (all_blocks exts) \<subseteq> {..<bm_total (bmap m)}"
  proof
    fix b assume "b \<in> set (all_blocks exts)"
    then obtain x where "x \<in> set exts" "b \<in> set (extent_blocks x)" by (auto simp: all_blocks_def)
    then show "b \<in> {..<bm_total (bmap m)}" using o good_extent_blocks(1) [OF inv] by (auto simp: list_all_iff good_extent_def)
  qed
  with u have "length (all_blocks exts) \<le> bm_total (bmap m)" by (rule distinct_length_le)
  moreover have "list_all (\<lambda>(s, k). 0 < k \<and> bm_data_start (bmap m) \<le> s \<and> s + k \<le> bm_total (bmap m)) (map span_of exts)"
    using o by (auto simp: list_all_iff good_extent_def)
  moreover have "map snd (map span_of exts) = map block_count_of exts" by simp
  ultimately show ?thesis
    using sum_extents_eq [of "bm_data_start (bmap m)" "bm_total (bmap m)" "map span_of exts" 0] inv lay
    unfolding checked_extent_blocks_def by (simp add: fs_layout_def bm_inv_def length_all_blocks comp_def)
qed

lemma get_fetch_spec:
  assumes inv: "cache_inv (verify_node_checksum h) m" "bm_inv (bmap m)" and c: "ciphers_ok c"
    and key: "object_key c (disk_key m) hash = Some (key, nonce)" and good: "list_all (good_extent (bmap m)) exts"
    and clean: "set (all_blocks exts) \<inter> dirty_set m = {}"
    and p: "length p \<le> AES_LIMIT" and len: "length (all_blocks exts) = div_ceil (length p + 16) BLOCK_SIZE"
    and data: "take (length p + 16) (concat (map (view m) (all_blocks exts))) = aead_encrypt_aes c key nonce p"
  shows "wpE (get_fetch room c hash (map span_of exts) (length (all_blocks exts)) (length p + 16) (length p))
    (\<lambda>r m'. r = p \<and> reads (verify_node_checksum h) m m')
    (\<lambda>e m'. (env_error e \<or> e = Corrupt \<and> (\<exists>k. \<not> room k)) \<and> reads (verify_node_checksum h) m m') m"
proof -
  have B: "0 < BLOCK_SIZE" by (simp add: BLOCK_SIZE_def)
  have fits: "length p + 16 \<le> length (all_blocks exts) * BLOCK_SIZE"
    using div_ceil_ge [OF B, of "length p + 16"] len by (simp add: mult.commute)
  have "length (all_blocks exts) * BLOCK_SIZE \<le> length p + 16 + BLOCK_SIZE"
    unfolding len div_ceil_def using B by (intro order_trans [OF div_times_less_eq_dividend]) simp
  then have small: "length (all_blocks exts) * BLOCK_SIZE < 2 ^ 64" using p by (simp add: AES_LIMIT_def BLOCK_SIZE_def)
  have "media (dev m) (actual (dev m) b) = view m b" if "b \<in> set (all_blocks exts)" for b
  proof -
    obtain x where "x \<in> set exts" "b \<in> set (extent_blocks x)" using \<open>b \<in> _\<close> by (auto simp: all_blocks_def)
    then have "b < 2 ^ 64" using good good_extent_blocks(1) [OF inv(2)] inv(2) by (auto simp: list_all_iff good_extent_def bm_inv_def)
    then show ?thesis using clean_media [OF inv(1)] clean that by auto
  qed
  then have med: "concat (map (\<lambda>b. media (dev m) (actual (dev m) b)) (all_blocks exts)) = concat (map (view m) (all_blocks exts))"
    by (metis (no_types, lifting) map_cong)
  show ?thesis
  proof (cases "room (length (all_blocks exts) * BLOCK_SIZE)")
    case False
    then show ?thesis using small fits reads_refl [OF inv(1)] by (auto simp: get_fetch_def Let_def wpE_throw)
  next
    case True
    let ?k = "\<lambda>staging. bindE (gets disk_key) (\<lambda>ks. case object_key c ks hash of
        None \<Rightarrow> throwE Locked
      | Some (obj_key, nonce) \<Rightarrow>
          (case aead_decrypt_aes_in_place c obj_key nonce (take (length p + 16) staging) of
             None \<Rightarrow> throwE Corrupt
           | Some plaintext \<Rightarrow> retE plaintext))"
    have eq: "get_fetch room c hash (map span_of exts) (length (all_blocks exts)) (length p + 16) (length p) =
        bindE (on_dev (read_multi_extent (map span_of exts))) ?k"
      using small fits True by (simp add: get_fetch_def Let_def not_le)
    show ?thesis
      unfolding eq wpE_bind
    proof (rule wpE_mono [OF read_multi_spec [OF inv(1)]])
      fix r m1 assume "r = concat (map (\<lambda>b. media (dev m) (actual (dev m) b)) (all_blocks exts)) \<and> reads (verify_node_checksum h) m m1"
      then have r: "take (length p + 16) r = aead_encrypt_aes c key nonce p" and rs: "reads (verify_node_checksum h) m m1"
        using med data by simp_all
      have "disk_key m1 = disk_key m" using fs_of_alloc(4) [of m1 m] rs quiet_bmap [of _ m m1] by (auto simp: reads_def)
      then show "wpE (gets disk_key) (\<lambda>ks. wpE (case object_key c ks hash of
          None \<Rightarrow> throwE Locked
        | Some (obj_key, nonce) \<Rightarrow>
            (case aead_decrypt_aes_in_place c obj_key nonce (take (length p + 16) r) of
               None \<Rightarrow> throwE Corrupt
             | Some plaintext \<Rightarrow> retE plaintext))
          (\<lambda>r m'. r = p \<and> reads (verify_node_checksum h) m m')
          (\<lambda>e m'. (env_error e \<or> e = Corrupt \<and> (\<exists>k. \<not> room k)) \<and> reads (verify_node_checksum h) m m'))
        (\<lambda>e m'. (env_error e \<or> e = Corrupt \<and> (\<exists>k. \<not> room k)) \<and> reads (verify_node_checksum h) m m') m1"
        unfolding wpE_gets r using key rs by (simp add: aes_roundtrip [OF c p] wpE_ret)
    qed simp
  qed
qed

lemma reads_cow: "bm_inv (bmap m) \<Longrightarrow> reads chk m m' \<Longrightarrow> cow chk m m'"
  by (rule cow_quiet) (auto simp: reads_def)

lemma represents_cow: "represents h c n m M \<Longrightarrow> cow (verify_node_checksum h) m m' \<Longrightarrow> represents h c n m' M"
  by (erule represents_keeps) (rule cow_keeps)

lemma obj_fetch:
  assumes inv: "cache_inv (verify_node_checksum h) m" "bm_inv (bmap m)" "fs_layout m" and c: "ciphers_ok c"
    and o: "obj c (disk_key m) (bmap m) (view m) (dirty_set m) e p xs" and d: "distinct xs"
  shows "wpE (bindE (if indirect_block e \<noteq> 0 then read_indirect_extents (indirect_block e) else retE []) (\<lambda>more.
         bindE (gets (\<lambda>m. (sb_data_start (fs_sb m), sb_total_blocks (fs_sb m)))) (\<lambda>(data_start, disk_blocks).
         let extent_list = map (\<lambda>x. (start_block x, block_count_of x)) (direct_extents e @ more)
         in case checked_extent_blocks extent_list data_start disk_blocks of
              None \<Rightarrow> throwE Corrupt
            | Some total_blocks \<Rightarrow> retE (Some (extent_list, total_blocks, disk_size e, plaintext_size e)))))
    (\<lambda>r m'. (\<exists>exts. r = Some (map span_of exts, length (all_blocks exts), length p + 16, length p) \<and>
         wpE (get_fetch room c (e_hash e) (map span_of exts) (length (all_blocks exts)) (length p + 16) (length p))
           (\<lambda>r m''. r = p \<and> cow (verify_node_checksum h) m m'')
           (\<lambda>e m''. (env_error e \<or> e = Corrupt \<and> (\<exists>k. \<not> room k)) \<and> cow (verify_node_checksum h) m m'') m') \<and>
       cow (verify_node_checksum h) m m')
    (\<lambda>e m'. env_error e \<and> cow (verify_node_checksum h) m m') m"
proof -
  from o obtain cs ys key nonce where
    o1: "object_key c (disk_key m) (e_hash e) = Some (key, nonce)" "chain_rep (view m) (indirect_block e) cs ys"
      "xs = cs @ all_blocks (direct_extents e @ ys)" "list_all (good_extent (bmap m)) (direct_extents e @ ys)"
      "set (all_blocks (direct_extents e @ ys)) \<inter> dirty_set m = {}"
    and o2: "length p \<le> AES_LIMIT" "plaintext_size e = length p" "disk_size e = length p + 16"
      "length (all_blocks (direct_extents e @ ys)) = div_ceil (disk_size e) BLOCK_SIZE"
      "take (disk_size e) (concat (map (view m) (all_blocks (direct_extents e @ ys)))) = aead_encrypt_aes c key nonce p"
    unfolding obj_def by blast
  let ?exts = "direct_extents e @ ys" and ?chk = "verify_node_checksum h"
  have dist: "distinct cs" "distinct (all_blocks ?exts)" using d o1(3) by auto
  have chain: "wpE (if indirect_block e \<noteq> 0 then read_indirect_extents (indirect_block e) else retE [])
      (\<lambda>more m'. more = ys \<and> reads ?chk m m') (\<lambda>e m'. env_error e \<and> reads ?chk m m') m"
  proof (cases "indirect_block e = 0")
    case True
    then show ?thesis using o1(2) reads_refl [OF inv(1)] by (simp add: wpE_ret chain_rep_zero)
  next
    case False
    have "wpE (read_chain [] [] (indirect_block e)) (\<lambda>r m'. r = ([] @ ys, [] @ cs) \<and> reads ?chk m m') (\<lambda>e m'. env_error e \<and> reads ?chk m m') m"
      by (rule read_chain_spec [OF inv(1) o1(2)]) (use dist in simp)
    then have "wpE (read_indirect_extents (indirect_block e)) (\<lambda>more m'. more = ys \<and> reads ?chk m m') (\<lambda>e m'. env_error e \<and> reads ?chk m m') m"
      unfolding read_indirect_extents_def read_indirect_chain_def wpE_bind wpE_ret by (rule wpE_mono) auto
    then show ?thesis using False by simp
  qed
  show ?thesis
    unfolding wpE_bind
  proof (rule wpE_mono [OF chain])
    fix more m1 assume "more = ys \<and> reads ?chk m m1"
    then have more: "more = ys" and rs: "reads ?chk m m1" by auto
    note cw = reads_cow [OF inv(2) rs] and f = readsD [OF rs]
    have al: "alloc_io.more m1 = alloc_io.more m" "bmap m1 = bmap m" using quiet_bmap [of _ m m1] rs by (auto simp: reads_def)
    note fs = fs_of_alloc [OF al(1)]
    have loc: "checked_extent_blocks (map span_of ?exts) (sb_data_start (fs_sb m1)) (sb_total_blocks (fs_sb m1)) = Some (length (all_blocks ?exts))"
      unfolding fs(1) by (rule obj_locate [OF inv(2,3) o1(4) dist(2)])
    have clean: "set (all_blocks ?exts) \<inter> dirty_set m1 = {}"
    proof -
      have "quiet (dirty_set m) m m1" using rs by (simp add: reads_def)
      then have "dirty_set m1 \<subseteq> dirty_set m" by (auto simp: quiet_def)
      with o1(5) show ?thesis by auto
    qed
    have step: "cow ?chk m m2" if "reads ?chk m1 m2" for m2
      using cow_trans [OF cw reads_cow [OF _ that]] inv(2) al(2) by simp
    have "wpE (get_fetch room c (e_hash e) (map span_of ?exts) (length (all_blocks ?exts)) (length p + 16) (length p))
           (\<lambda>r m''. r = p \<and> reads ?chk m1 m'')
           (\<lambda>e m''. (env_error e \<or> e = Corrupt \<and> (\<exists>k. \<not> room k)) \<and> reads ?chk m1 m'') m1"
      by (rule get_fetch_spec) (use f al fs o1 o2 c clean inv in auto)
    then have "wpE (get_fetch room c (e_hash e) (map span_of ?exts) (length (all_blocks ?exts)) (length p + 16) (length p))
           (\<lambda>r m''. r = p \<and> cow ?chk m m'')
           (\<lambda>e m''. (env_error e \<or> e = Corrupt \<and> (\<exists>k. \<not> room k)) \<and> cow ?chk m m'') m1"
      by (rule wpE_mono) (use step in auto)
    then show "wpE (gets (\<lambda>m. (sb_data_start (fs_sb m), sb_total_blocks (fs_sb m))))
      (\<lambda>a. wpE (case a of (data_start, disk_blocks) \<Rightarrow>
         let extent_list = map (\<lambda>x. (start_block x, block_count_of x)) (direct_extents e @ more)
         in case checked_extent_blocks extent_list data_start disk_blocks of
              None \<Rightarrow> throwE Corrupt
            | Some total_blocks \<Rightarrow> retE (Some (extent_list, total_blocks, disk_size e, plaintext_size e)))
      (\<lambda>r m'. (\<exists>exts. r = Some (map span_of exts, length (all_blocks exts), length p + 16, length p) \<and>
         wpE (get_fetch room c (e_hash e) (map span_of exts) (length (all_blocks exts)) (length p + 16) (length p))
           (\<lambda>r m''. r = p \<and> cow ?chk m m'')
           (\<lambda>e m''. (env_error e \<or> e = Corrupt \<and> (\<exists>k. \<not> room k)) \<and> cow ?chk m m'') m') \<and> cow ?chk m m')
      (\<lambda>e m'. env_error e \<and> cow ?chk m m')) (\<lambda>e m'. env_error e \<and> cow ?chk m m') m1"
      unfolding wpE_gets prod.case Let_def more loc option.case wpE_ret o2(2,3)
      using cw by (intro conjI exI [of _ ?exts]) simp_all
  next
    fix e m1 assume "env_error e \<and> reads ?chk m m1"
    then show "env_error e \<and> cow ?chk m m1" using reads_cow inv(2) by blast
  qed
qed

lemma get_spec:
  assumes r: "represents h c n m M" and n: "n \<le> MAX_TREE_DEPTH" and c: "ciphers_ok c"
  shows "wpE (fs_get h room c hash) (\<lambda>r m'. r = M hash \<and> represents h c n m' M)
    (\<lambda>e m'. (env_error e \<or> e = Corrupt \<and> (\<exists>k. \<not> room k)) \<and> represents h c n m' M) m"
proof -
  let ?chk = "verify_node_checksum h"
  have inv: "cache_inv ?chk m" "bm_inv (bmap m)" "fs_layout m" using r by (auto simp: represents_def)
  from r obtain t pl bl where t: "index h n m t" and
    o: "\<forall>e \<in> set (idx_entries t). obj c (disk_key m) (bmap m) (view m) (dirty_set m) e (pl e) (bl e)" and
    u: "used_ok (bmap m) (idx_blocks t @ concat (map bl (idx_entries t)) @ pending_old_blocks m)" and
    M: "M = (\<lambda>k. map_option pl (find (\<lambda>e. e_hash e = k) (idx_entries t)))"
    unfolding represents_def by blast
  have rep: "represents h c n m' M" if "cow ?chk m m'" for m' by (rule represents_cow [OF r that])
  show ?thesis
    unfolding fs_get_def get_locate_def wpE_bind represents_need_mounted [OF r, unfolded wpE_bind] wpE_gets
  proof (rule wpE_mono [OF index_lookup [OF inv(1,2) t n]])
    fix found m1
    assume a: "found = find (\<lambda>e. e_hash e = hash) (idx_entries t) \<and> cow ?chk m m1 \<and> bmap m1 = bmap m \<and> view m1 = view m"
    then have cw: "cow ?chk m m1" by simp
    note r1 = rep [OF cw]
    have inv1: "cache_inv ?chk m1" "bm_inv (bmap m1)" "fs_layout m1" using r1 by (auto simp: represents_def)
    show "wpE (case found of None \<Rightarrow> retE None | Some e \<Rightarrow>
         bindE (if indirect_block e \<noteq> 0 then read_indirect_extents (indirect_block e) else retE []) (\<lambda>more.
         bindE (gets (\<lambda>m. (sb_data_start (fs_sb m), sb_total_blocks (fs_sb m)))) (\<lambda>(data_start, disk_blocks).
         let extent_list = map (\<lambda>x. (start_block x, block_count_of x)) (direct_extents e @ more)
         in case checked_extent_blocks extent_list data_start disk_blocks of
              None \<Rightarrow> throwE Corrupt
            | Some total_blocks \<Rightarrow> retE (Some (extent_list, total_blocks, disk_size e, plaintext_size e)))))
       (\<lambda>found. wpE (case found of None \<Rightarrow> retE None
         | Some (extent_list, total_blocks, dsize, psize) \<Rightarrow>
             bindE (get_fetch room c hash extent_list total_blocks dsize psize) (\<lambda>p. retE (Some p)))
         (\<lambda>r m'. r = M hash \<and> represents h c n m' M)
         (\<lambda>e m'. (env_error e \<or> e = Corrupt \<and> (\<exists>k. \<not> room k)) \<and> represents h c n m' M))
       (\<lambda>e m'. (env_error e \<or> e = Corrupt \<and> (\<exists>k. \<not> room k)) \<and> represents h c n m' M) m1"
    proof (cases found)
      case None
      then show ?thesis using a r1 M by (simp add: wpE_ret)
    next
      case (Some e)
      then have e: "e \<in> set (idx_entries t)" "e_hash e = hash" "M hash = Some (pl e)"
        using a M find_Some_iff [of "\<lambda>e. e_hash e = hash" "idx_entries t" e] by auto
      have x: "distinct (bl e)" "set (bl e) \<inter> free_blocks (bmap m) = {}"
        using u e(1) by (auto simp: used_ok_def distinct_concat_iff)
      have "obj c (disk_key m1) (bmap m1) (view m1) (dirty_set m1) e (pl e) (bl e)"
        using obj_keeps [OF cow_keeps [OF cw] bspec [OF o e(1)] x(2)] fs_of_alloc(4) [of m1 m] cw by (simp add: cow_def)
      note f = obj_fetch [OF inv1 c this x(1), of room, unfolded e(2)]
      show ?thesis
        unfolding Some option.case
      proof (rule wpE_mono [OF f])
        fix rr m2
        assume "(\<exists>exts. rr = Some (map span_of exts, length (all_blocks exts), length (pl e) + 16, length (pl e)) \<and>
         wpE (get_fetch room c hash (map span_of exts) (length (all_blocks exts)) (length (pl e) + 16) (length (pl e)))
           (\<lambda>r m''. r = pl e \<and> cow ?chk m1 m'')
           (\<lambda>e m''. (env_error e \<or> e = Corrupt \<and> (\<exists>k. \<not> room k)) \<and> cow ?chk m1 m'') m2) \<and> cow ?chk m1 m2"
        then obtain exts where rr: "rr = Some (map span_of exts, length (all_blocks exts), length (pl e) + 16, length (pl e))"
          and w: "wpE (get_fetch room c hash (map span_of exts) (length (all_blocks exts)) (length (pl e) + 16) (length (pl e)))
           (\<lambda>r m''. r = pl e \<and> cow ?chk m1 m'')
           (\<lambda>e m''. (env_error e \<or> e = Corrupt \<and> (\<exists>k. \<not> room k)) \<and> cow ?chk m1 m'') m2" by blast
        have "wpE (get_fetch room c hash (map span_of exts) (length (all_blocks exts)) (length (pl e) + 16) (length (pl e)))
           (\<lambda>p m'. Some p = M hash \<and> represents h c n m' M)
           (\<lambda>e m'. (env_error e \<or> e = Corrupt \<and> (\<exists>k. \<not> room k)) \<and> represents h c n m' M) m2"
          by (rule wpE_mono [OF w]) (use represents_cow [OF r1] e(3) in auto)
        then show "wpE (case rr of None \<Rightarrow> retE None
         | Some (extent_list, total_blocks, dsize, psize) \<Rightarrow>
             bindE (get_fetch room c hash extent_list total_blocks dsize psize) (\<lambda>p. retE (Some p)))
         (\<lambda>r m'. r = M hash \<and> represents h c n m' M)
         (\<lambda>e m'. (env_error e \<or> e = Corrupt \<and> (\<exists>k. \<not> room k)) \<and> represents h c n m' M) m2"
          unfolding rr option.case prod.case wpE_bind wpE_ret .
      qed (use represents_cow [OF r1] in auto)
    qed
  qed (use rep in auto)
qed

section \<open>Storing is update\<close>

lemma fs_update_io [simp]:
  "cache_inv chk (m\<lparr>fs_sb := x0\<rparr>) = cache_inv chk m" "view (m\<lparr>fs_sb := x0\<rparr>) = view m" "dirty_set (m\<lparr>fs_sb := x0\<rparr>) = dirty_set m"
  "calm B m (m'\<lparr>fs_sb := x0\<rparr>) = calm B m m'" "calm B (m\<lparr>fs_sb := x0\<rparr>) m' = calm B m m'"
  "cache_inv chk (m\<lparr>fs_generation := x1\<rparr>) = cache_inv chk m" "view (m\<lparr>fs_generation := x1\<rparr>) = view m" "dirty_set (m\<lparr>fs_generation := x1\<rparr>) = dirty_set m"
  "calm B m (m'\<lparr>fs_generation := x1\<rparr>) = calm B m m'" "calm B (m\<lparr>fs_generation := x1\<rparr>) m' = calm B m m'"
  "cache_inv chk (m\<lparr>pending_old_blocks := x2\<rparr>) = cache_inv chk m" "view (m\<lparr>pending_old_blocks := x2\<rparr>) = view m" "dirty_set (m\<lparr>pending_old_blocks := x2\<rparr>) = dirty_set m"
  "calm B m (m'\<lparr>pending_old_blocks := x2\<rparr>) = calm B m m'" "calm B (m\<lparr>pending_old_blocks := x2\<rparr>) m' = calm B m m'"
  "cache_inv chk (m\<lparr>commits_since_gc := x3\<rparr>) = cache_inv chk m" "view (m\<lparr>commits_since_gc := x3\<rparr>) = view m" "dirty_set (m\<lparr>commits_since_gc := x3\<rparr>) = dirty_set m"
  "calm B m (m'\<lparr>commits_since_gc := x3\<rparr>) = calm B m m'" "calm B (m\<lparr>commits_since_gc := x3\<rparr>) m' = calm B m m'"
  for m m' :: "'a fs_io_scheme"
  by (simp_all add: io_fields fun_eq_iff split: option.split)

lemma wpE_catch:
  "wpE (\<lambda>m. case f m of (Inl e, m') \<Rightarrow> (Inl e, g m') | (Inr v, m') \<Rightarrow> k v m') Q R m =
   wpE f (\<lambda>v m'. wpE (k v) Q R m') (\<lambda>e m'. R e (g m')) m"
  by (auto simp: wpE_def split: prod.splits sum.splits)

lemma distinct_keys:
  assumes "search_tree t"
  shows "distinct (map e_hash (entries t))"
proof -
  have "sorted_wrt (\<lambda>a b. e_hash a < e_hash b) (entries t)"
  proof -
    have "ordered xs \<Longrightarrow> sorted_wrt (\<lambda>a b. e_hash a < e_hash b) (concat (map (case_sum (\<lambda>_. []) (\<lambda>e. [e])) xs))" for xs
      by (induction xs) (fastforce simp: ordered_def less_prod_def' split: sum.splits)+
    then show ?thesis using assms by (simp add: search_tree_def entries_flat)
  qed
  then have "sorted_wrt (<) (map e_hash (entries t))" by (simp add: sorted_wrt_map)
  then show ?thesis by (simp add: strict_sorted_iff)
qed

lemma find_entry_key:
  assumes "distinct (map e_hash xs)"
  shows "find (\<lambda>e. e_hash e = k) xs = Some x \<longleftrightarrow> x \<in> set xs \<and> e_hash x = k"
  using assms
proof (induction xs)
  case (Cons y xs)
  then show ?case by (auto simp: image_iff)
qed simp

lemma with_new_mset:
  assumes "e_hash e \<notin> e_hash ` set es"
  shows "mset (with_new e es) = add_mset e (mset es)"
proof -
  have "filter (\<lambda>x. e_hash e < e_hash x) es = filter (\<lambda>x. \<not> e_hash x < e_hash e) es"
    using assms by (intro filter_cong) (auto simp: not_less le_less)
  then have "mset (filter (\<lambda>x. e_hash x < e_hash e) es) + mset (filter (\<lambda>x. e_hash e < e_hash x) es) = mset es"
    by (simp add: mset_filter multiset_partition [symmetric])
  then show ?thesis by (simp add: with_new_def)
qed

lemma find_with_new:
  assumes "e_hash e \<notin> e_hash ` set es" and "distinct (map e_hash es)"
  shows "find (\<lambda>x. e_hash x = k) (with_new e es) = (if k = e_hash e then Some e else find (\<lambda>x. e_hash x = k) es)"
proof -
  note ms = with_new_mset [OF assms(1)]
  have st: "set (with_new e es) = insert e (set es)" using arg_cong [OF ms, of set_mset] by simp
  have "mset (map e_hash (with_new e es)) = mset (e_hash e # map e_hash es)" using arg_cong [OF ms, of "image_mset e_hash"] by simp
  then have "distinct (map e_hash (with_new e es))" using assms by (metis distinct.simps(2) list.set_map mset_eq_imp_distinct_iff)
  note fk = find_entry_key [OF this] find_entry_key [OF assms(2)]
  show ?thesis
  proof (cases "find (\<lambda>x. e_hash x = k) (with_new e es)")
    case (Some x)
    then have x: "x = e \<or> x \<in> set es" "e_hash x = k" using fk(1) st by auto
    then show ?thesis
    proof (cases "k = e_hash e")
      case True
      then have "x = e" using x assms(1) by (metis imageI)
      with True Some show ?thesis by simp
    next
      case False
      then have "find (\<lambda>x. e_hash x = k) es = Some x" using x fk(2) by auto
      with False Some show ?thesis by simp
    qed
  next
    case None
    then have "\<forall>x \<in> insert e (set es). e_hash x \<noteq> k" using st by (auto simp: find_None_iff)
    moreover from this have "find (\<lambda>x. e_hash x = k) es = None" by (auto simp: find_None_iff)
    ultimately show ?thesis using None by auto
  qed
qed

lemma used_ok_perm: "mset us = mset us' \<Longrightarrow> used_ok bm us = used_ok bm us'"
  using mset_eq_imp_distinct_iff [of us us'] mset_eq_setD [of us us'] by (simp add: used_ok_def)

lemma used_ok_grow:
  assumes "used_ok bm us" and "tracks bm bm'" and "distinct new" and "set new \<subseteq> free_blocks bm" and "free_blocks bm' = free_blocks bm - set new"
    and "free_blocks bm \<subseteq> {bm_data_start bm..}"
  shows "used_ok bm' (us @ new)"
proof -
  have "free_blocks bm \<subseteq> {..<bm_total bm}" by (auto simp: free_blocks_iff)
  with assms(4,6) have "set new \<subseteq> {bm_data_start bm..<bm_total bm}" by fastforce
  with assms tracks_same [OF assms(2)] show ?thesis unfolding used_ok_def by auto
qed

lemma index_insert:
  assumes inv: "cache_inv (verify_node_checksum h) m" "bm_inv (bmap m)" and t: "index h n m t" and n: "n \<le> MAX_TREE_DEPTH"
    and e: "entry_ok e" and hash: "\<And>b. length (h b) = 32" and new: "e_hash e \<notin> e_hash ` set (idx_entries t)"
  shows "wpE (btree_insert h (sb_btree_root (fs_sb m)) e)
    (\<lambda>(r, frees, was_new) m'. cow (verify_node_checksum h) m m' \<and> was_new \<and>
       (\<exists>t' ns. stored (verify_node_checksum h) m' t' \<and> root t' = r \<and> r \<noteq> 0 \<and> search_tree t' \<and> height t' \<le> Suc n \<and>
          entries t' = with_new e (idx_entries t) \<and> grown m ns m' \<and> mset (blocks t') + mset frees = mset (idx_blocks t) + mset ns))
    (\<lambda>e m'. env_error e \<and> cow (verify_node_checksum h) m m') m"
proof (cases t)
  case None
  show ?thesis
    unfolding None index.simps(1) [THEN iffD1, OF t [unfolded None]]
  proof (rule wpE_mono [OF insert_first_spec [OF inv e hash]], clarsimp)
    fix r m' assume a: "cow (verify_node_checksum h) m m'" "0 < r" "grown m [r] m'" "r < 18446744073709551616"
        "verify_node_checksum h (view m' r)" "is_leaf (view m' r) [e]" "r \<notin> free_blocks (bmap m')"
    then have "stored (verify_node_checksum h) m' (BLeaf r [e])" by simp
    moreover have "search_tree (BLeaf r [e])" by (simp add: search_tree_def ordered_def)
    ultimately show "\<exists>t'. stored (verify_node_checksum h) m' t' \<and> root t' = r \<and> search_tree t' \<and> height t' \<le> Suc n \<and>
        entries t' = with_new e [] \<and> (\<exists>ns. grown m ns m' \<and> mset (blocks t') = mset ns)"
      using a(3) by (intro exI [of _ "BLeaf r [e]"]) (auto simp: with_new_def intro: exI [of _ "[r]"])
  qed simp
next
  case (Some u)
  then have u: "sb_btree_root (fs_sb m) = root u" "root u \<noteq> 0" "stored (verify_node_checksum h) m u" "search_tree u" "height u \<le> n"
    using t by auto
  have "height u \<le> MAX_TREE_DEPTH" using u(5) n by simp
  note sp = btree_insert_spec [OF inv u(3,4) this u(2) e hash]
  show ?thesis
    unfolding Some u(1) idx_entries.simps idx_blocks.simps
  proof (rule wpE_mono [OF sp], goal_cases)
    case (1 a m')
    obtain r frees nw where eq: "a = (r, frees, nw)" by (metis surj_pair)
    have "e_hash e \<notin> e_hash ` set (entries u)" using new Some by simp
    with 1 eq have cw: "cow (verify_node_checksum h) m m'" "nw" and up: "updated (verify_node_checksum h) m u (with_new e (entries u)) r frees m'" by auto
    from up obtain t' ns where t': "stored (verify_node_checksum h) m' t' \<and> root t' = r \<and> 0 < r \<and> search_tree t' \<and>
        entries t' = with_new e (entries u) \<and> height t' \<le> Suc (height u) \<and> grown m ns m' \<and>
        mset (blocks t') + mset frees = mset (blocks u) + mset ns" unfolding updated_def by blast
    then have "height t' \<le> Suc n" using u(5) by simp
    with t' cw show ?case unfolding eq prod.case by blast
  qed simp
qed

text \<open>An object whose data is in place: what \<open>put\<close> has when it takes the lock back.\<close>

definition staged :: "(bytes \<Rightarrow> bytes) \<Rightarrow> ciphers \<Rightarrow> 'a fs_io_scheme \<Rightarrow> extent list \<Rightarrow> bytes \<Rightarrow> bytes \<Rightarrow> 'a fs_io_scheme \<Rightarrow> bool" where
  "staged h c m exts hash p m' \<longleftrightarrow> cow (verify_node_checksum h) m m' \<and> taken (bmap m) exts (bmap m') \<and>
     set (all_blocks exts) \<inter> dirty_set m' = {} \<and> length (all_blocks exts) = div_ceil (length p + 16) BLOCK_SIZE \<and>
     (\<exists>key nonce. object_key c (disk_key m) hash = Some (key, nonce) \<and>
        take (length p + 16) (concat (map (view m') (all_blocks exts))) = aead_encrypt_aes c key nonce p)"

lemma extents_le_blocks: "list_all (good_extent bm) exts \<Longrightarrow> length exts \<le> length (all_blocks exts)"
proof (induction exts)
  case (Cons x exts)
  then have "1 \<le> block_count_of x" by (auto simp: good_extent_def)
  with Cons show ?case by simp
qed simp

lemma put_entry_for_fields:
  assumes bm: "bm_inv bm" and good: "list_all (good_extent bm) exts" and len: "length (all_blocks exts) = div_ceil (length p + 16) BLOCK_SIZE"
    and p: "length p \<le> AES_LIMIT" and h: "length hash = 32" and i: "indirect < 2 ^ 64"
  shows "entry_ok (put_entry_for hash (length p) (length p + 16) exts indirect)"
    and "direct_extents (put_entry_for hash (length p) (length p + 16) exts indirect) = take DIRECT_EXTENTS exts"
    and "list_all extent_ok exts"
proof -
  have "length exts \<le> length (all_blocks exts)" by (rule extents_le_blocks [OF good])
  have "length (all_blocks exts) \<le> (2 ^ 36 + 8192) div BLOCK_SIZE"
    unfolding len div_ceil_def by (rule div_le_mono) (use p in \<open>simp add: AES_LIMIT_def BLOCK_SIZE_def\<close>)
  with \<open>length exts \<le> _\<close> have le: "length exts < 2 ^ 32" by (simp add: BLOCK_SIZE_def)
  show ok: "list_all extent_ok exts" using good bm by (auto simp: list_all_iff good_extent_def extent_ok_def bm_inv_def)
  have "list_all extent_ok (take DIRECT_EXTENTS exts)" using ok by (auto simp: list_all_iff dest: in_set_takeD)
  then show "entry_ok (put_entry_for hash (length p) (length p + 16) exts indirect)"
    using h i p by (auto simp: entry_ok_def put_entry_for_def AES_LIMIT_def list_all_iff ZERO_EXTENT_def extent_ok_def)
  show "direct_extents (put_entry_for hash (length p) (length p + 16) exts indirect) = take DIRECT_EXTENTS exts"
    using le by (simp add: direct_extents_def put_entry_for_def min_def)
qed

lemma put_index_chain:
  assumes st: "staged h c m exts hash p m3" and bm: "bm_inv (bmap m)" and p: "length p \<le> AES_LIMIT"
  shows "wpE (if length exts > DIRECT_EXTENTS then write_indirect_extents (drop DIRECT_EXTENTS exts) else retE 0)
    (\<lambda>i m4. cow (verify_node_checksum h) m3 m4 \<and> (\<exists>cs. grown m3 cs m4 \<and> chain_rep (view m4) i cs (drop DIRECT_EXTENTS exts) \<and> i < 2 ^ 64))
    (\<lambda>e m'. env_error e \<and> cow (verify_node_checksum h) m3 m') m3"
proof -
  have cw: "cow (verify_node_checksum h) m m3" and tk: "taken (bmap m) exts (bmap m3)" using st by (auto simp: staged_def)
  note refl = cow_refl [OF cowD(1,2) [OF cw]]
  show ?thesis
  proof (cases "length exts > DIRECT_EXTENTS")
    case False
    then show ?thesis using refl grown_refl [of m3 m3] by (auto simp: wpE_ret intro!: exI [of _ "[]"])
  next
    case True
    have "list_all extent_ok exts" using tk bm by (auto simp: taken_def list_all_iff good_extent_def extent_ok_def bm_inv_def)
    then have ok: "list_all extent_ok (drop DIRECT_EXTENTS exts)" by (auto simp: list_all_iff dest: in_set_dropD)
    have ne: "drop DIRECT_EXTENTS exts \<noteq> []" using True by simp
    show ?thesis
      unfolding if_P [OF True]
    proof (rule wpE_mono [OF write_indirect_spec [OF refl ok ne]], goal_cases)
      case (1 i m4)
      then obtain cs where cs: "cs \<noteq> []" "grown m3 cs m4" "\<forall>c \<in> set cs. fresh m3 m4 c" "chain_rep (view m4) i cs (drop DIRECT_EXTENTS exts)" by blast
      then have "i < 2 ^ 64" by (cases cs) auto
      with 1 cs show ?case by blast
    qed simp
  qed
qed

lemma represents_insert:
  fixes m :: "'a fs_io_scheme"
  assumes r: "represents h c n m M" and cw: "cow (verify_node_checksum h) m m5" and t: "index h n m t"
    and o: "\<forall>e \<in> set (idx_entries t). obj c (disk_key m) (bmap m) (view m) (dirty_set m) e (pl e) (bl e)"
    and u: "used_ok (bmap m) (idx_blocks t @ concat (map bl (idx_entries t)) @ pending_old_blocks m)"
    and M: "M = (\<lambda>k. map_option pl (find (\<lambda>e. e_hash e = k) (idx_entries t)))"
    and new: "e_hash e \<notin> e_hash ` set (idx_entries t)"
    and oe: "obj c (disk_key m) (bmap m5) (view m5) (dirty_set m5) e p xs"
    and t': "stored (verify_node_checksum h) m5 t'" "root t' \<noteq> 0" "search_tree t'" "height t' \<le> Suc n"
      "entries t' = with_new e (idx_entries t)" "mset (blocks t') + mset frees = mset (idx_blocks t) + mset ns"
    and g: "grown m (xs @ ns) m5"
    and m6: "m6 = m5\<lparr>fs_sb := sb\<lparr>sb_btree_root := root t', sb_object_count := k, sb_free_blocks := f\<rparr>,
        pending_old_blocks := pending_old_blocks m5 @ frees\<rparr>" and sb: "sb = fs_sb m5"
  shows "represents h c (Suc n) m6 (M(e_hash e \<mapsto> p))"
proof -
  let ?chk = "verify_node_checksum h" and ?es = "idx_entries t"
  define bl' where "bl' = bl(e := xs)"
  define pl' where "pl' = pl(e := p)"
  note fs = fs_of_alloc [of m5 m]
  have more: "alloc_io.more m5 = alloc_io.more m" and tr: "tracks (bmap m) (bmap m5)" using cw by (auto simp: cow_def)
  note fs = fs_of_alloc [OF more]
  have ne: "e \<notin> set ?es" using new by blast
  note ms = with_new_mset [OF new]
  have st: "set (entries t') = insert e (set ?es)" using arg_cong [OF ms, of set_mset] t'(5) by simp
  have dk: "distinct (map e_hash ?es)" using t distinct_keys by (cases t) auto
  have lay: "fs_layout m" using r by (simp add: represents_def)
  have "obj c (disk_key m6) (bmap m6) (view m6) (dirty_set m6) x (pl' x) (bl' x)" if "x \<in> set (entries t')" for x
  proof (cases "x = e")
    case True
    then show ?thesis using oe fs(4) by (simp add: m6 pl'_def bl'_def)
  next
    case False
    then have x: "x \<in> set ?es" using that st by simp
    then have "set (bl x) \<inter> free_blocks (bmap m) = {}" using u by (auto simp: used_ok_def)
    from obj_keeps [OF cow_keeps [OF cw] bspec [OF o x] this] False show ?thesis using fs(4) by (simp add: m6 pl'_def bl'_def)
  qed
  moreover have "index h (Suc n) m6 (Some t')" using t' by (simp add: m6 stored_def)
  moreover have "used_ok (bmap m6) (idx_blocks (Some t') @ concat (map bl' (idx_entries (Some t'))) @ pending_old_blocks m6)"
  proof -
    let ?us = "idx_blocks t @ concat (map bl ?es) @ pending_old_blocks m"
    have "used_ok (bmap m5) (?us @ xs @ ns)"
      using used_ok_grow [OF u tr, of "xs @ ns"] g lay by (simp add: grown_def fs_layout_def)
    moreover have "mset (?us @ xs @ ns) = mset (blocks t' @ concat (map bl' (entries t')) @ pending_old_blocks m @ frees)"
    proof -
      have "mset (concat (map bl' (entries t'))) = sum_mset (image_mset (mset \<circ> bl') (mset (entries t')))"
        by (simp add: mset_concat sum_mset_sum_list comp_def flip: mset_map)
      also have "\<dots> = mset xs + sum_mset (image_mset (mset \<circ> bl') (mset ?es))" using ms t'(5) by (simp add: bl'_def)
      also have "image_mset (mset \<circ> bl') (mset ?es) = image_mset (mset \<circ> bl) (mset ?es)"
        using ne by (intro image_mset_cong) (auto simp: bl'_def)
      also have "sum_mset (image_mset (mset \<circ> bl) (mset ?es)) = mset (concat (map bl ?es))"
        by (simp add: mset_concat sum_mset_sum_list comp_def flip: mset_map)
      finally have "mset (concat (map bl' (entries t'))) = mset xs + mset (concat (map bl ?es))" .
      then show ?thesis using t'(6) by (simp add: ac_simps)
    qed
    ultimately have "used_ok (bmap m5) (blocks t' @ concat (map bl' (entries t')) @ pending_old_blocks m @ frees)"
      using used_ok_perm by blast
    then show ?thesis using fs(2) by (simp add: m6)
  qed
  moreover have "M(e_hash e \<mapsto> p) = (\<lambda>k. map_option pl' (find (\<lambda>x. e_hash x = k) (entries t')))"
  proof
    fix k
    have "map_option pl' (find (\<lambda>x. e_hash x = k) ?es) = map_option pl (find (\<lambda>x. e_hash x = k) ?es)"
    proof (cases "find (\<lambda>x. e_hash x = k) ?es")
      case (Some x)
      then have "x \<in> set ?es" using find_entry_key [OF dk] by blast
      with ne have "x \<noteq> e" by blast
      with Some show ?thesis by (simp add: pl'_def)
    qed simp
    then show "(M(e_hash e \<mapsto> p)) k = map_option pl' (find (\<lambda>x. e_hash x = k) (entries t'))"
      using M by (simp add: t'(5) find_with_new [OF new dk] pl'_def)
  qed
  moreover have "fs_layout m6"
    using lay tr cowD(3) [OF cw] by (auto simp: m6 sb fs(1) fs_layout_def tracks_def same_layout_def)
  moreover have "mounted m6" "cache_inv ?chk m6" "bm_inv (bmap m6)" using r cw fs(3) by (auto simp: m6 represents_def cow_def)
  ultimately show ?thesis unfolding represents_def
    by (intro conjI exI [of _ "Some t'"] exI [of _ pl'] exI [of _ bl']) simp_all
qed

lemma staged_rollback:
  assumes bm: "bm_inv (bmap m)" and st: "cow (verify_node_checksum h) m m3" "taken (bmap m) exts (bmap m3)"
    and cw: "cow (verify_node_checksum h) m3 m'" and g: "set cs \<subseteq> free_blocks (bmap m3)" "distinct cs" "free_blocks (bmap m) \<subseteq> {bm_data_start (bmap m)..}"
    and ch: "chain_rep (view m') i cs ys"
  shows "keeps (verify_node_checksum h) m (rollback_alloc exts i m')"
proof -
  let ?chk = "verify_node_checksum h"
  note c = cow_trans [OF st(1) cw]
  have tr: "tracks (bmap m) (bmap m')" using c by (simp add: cow_def)
  have sub: "set cs \<subseteq> free_blocks (bmap m) - set (all_blocks exts)" "set (all_blocks exts) \<subseteq> free_blocks (bmap m)"
    using g st(2) by (auto simp: taken_def)
  have "gives_back ?chk (set (all_blocks exts) \<union> set cs) m' (rollback_alloc exts i m')"
  proof (rule rollback_spec [OF cowD(1,2) [OF cw] _ ch g(2)])
    show "list_all (good_extent (bmap m')) exts" using st(2) good_extent_tracks [OF tr] by (simp add: taken_def)
    show "\<forall>c \<in> set cs. bm_data_start (bmap m') \<le> c \<and> c < bm_total (bmap m')"
      using sub(1) g(3) tracks_same [OF tr] by (auto simp: free_blocks_iff)
    show "set cs \<inter> set (all_blocks exts) = {}" using sub by auto
  qed
  then show ?thesis by (rule keeps_gives_back [OF cow_keeps [OF c]]) (use sub in auto)
qed

text \<open>What a \<open>put\<close> leaves alone, whether or not it succeeds: blocks in use, the journal and every field of the
  superblock but the root of the index, the object count and the free count.\<close>

definition sb_kept :: "superblock \<Rightarrow> superblock \<Rightarrow> bool" where
  "sb_kept sb sb' \<longleftrightarrow> sb'\<lparr>sb_btree_root := sb_btree_root sb, sb_object_count := sb_object_count sb, sb_free_blocks := sb_free_blocks sb\<rparr> = sb \<and>
     (sb_ok sb \<longrightarrow> sb_ok sb')"

definition overlay :: "(bytes \<Rightarrow> bool) \<Rightarrow> 'a fs_io_scheme \<Rightarrow> 'a fs_io_scheme \<Rightarrow> bool" where
  "overlay chk m m' \<longleftrightarrow> tracks (bmap m) (bmap m') \<and> free_blocks (bmap m') \<subseteq> free_blocks (bmap m) \<and>
     (\<forall>b. b \<notin> free_blocks (bmap m) \<longrightarrow> view m' b = view m b) \<and>
     (\<forall>B. free_blocks (bmap m) \<inter> {bm_data_start (bmap m)..} \<subseteq> B \<longrightarrow> calm B m m') \<and>
     jrnl m' = jrnl m \<and> fs_generation m' = fs_generation m \<and> disk_key m' = disk_key m \<and> sb_kept (fs_sb m) (fs_sb m')"

lemma sb_kept_refl [simp]: "sb_kept sb sb"
  by (simp add: sb_kept_def)

lemma sb_kept_trans: "sb_kept a b \<Longrightarrow> sb_kept b c \<Longrightarrow> sb_kept a c"
  by (cases a; cases b; cases c) (auto simp: sb_kept_def)

lemma overlay_keeps: "keeps chk m m' \<Longrightarrow> overlay chk m m'"
  using fs_of_alloc [of m' m] by (simp add: keeps_def overlay_def)

lemma overlay_trans [trans]: "overlay chk m m' \<Longrightarrow> overlay chk m' m'' \<Longrightarrow> overlay chk m m''"
proof -
  assume a: "overlay chk m m'" and b: "overlay chk m' m''"
  have ds: "bm_data_start (bmap m') = bm_data_start (bmap m)" and sub: "free_blocks (bmap m') \<subseteq> free_blocks (bmap m)"
    using a by (auto simp: overlay_def tracks_def same_layout_def)
  have "calm B m m''" if "free_blocks (bmap m) \<inter> {bm_data_start (bmap m)..} \<subseteq> B" for B
  proof -
    have "free_blocks (bmap m') \<inter> {bm_data_start (bmap m')..} \<subseteq> B" using that sub unfolding ds by blast
    then have "calm B m m'" "calm B m' m''" using a b that by (simp_all add: overlay_def)
    then show ?thesis by (rule calm_trans)
  qed
  moreover have "view m'' c = view m c" if "c \<notin> free_blocks (bmap m)" for c using a b sub that by (auto simp: overlay_def)
  moreover have "tracks (bmap m) (bmap m'')"
    by (rule tracks_trans [of _ "bmap m'"]) (use a b in \<open>simp_all add: overlay_def\<close>)
  moreover have "sb_kept (fs_sb m) (fs_sb m'')"
    by (rule sb_kept_trans [of _ "fs_sb m'"]) (use a b in \<open>simp_all add: overlay_def\<close>)
  moreover have "free_blocks (bmap m'') \<subseteq> free_blocks (bmap m)" using b sub by (auto simp: overlay_def)
  ultimately show ?thesis using a b unfolding overlay_def by simp
qed

lemma bm_free_bound: "bm_inv bm \<Longrightarrow> bm_free bm < 2 ^ 64"
proof -
  assume i: "bm_inv bm"
  have "free_blocks bm \<subseteq> {..<bm_total bm}" by (auto simp: free_blocks_iff)
  then have "card (free_blocks bm) \<le> bm_total bm" using card_mono [of "{..<bm_total bm}"] by simp
  then show ?thesis using i by (simp add: bm_inv_def)
qed

lemma represents_overlay:
  "represents h c n m M \<Longrightarrow> keeps (verify_node_checksum h) m m' \<Longrightarrow> represents h c n m' M \<and> overlay (verify_node_checksum h) m m'"
  using represents_keeps overlay_keeps by blast

lemma put_index_spec:
  fixes m :: "'a fs_io_scheme"
  assumes r: "represents h c n m M" and n: "n \<le> MAX_TREE_DEPTH" and hash: "\<And>b. length (h b) = 32" "length hash = 32"
    and p: "length p \<le> AES_LIMIT" and new: "M hash = None" and st: "staged h c m exts hash p m3"
  shows "wpE (put_index h hash (length p) (length p + 16) exts) (\<lambda>_ m'. represents h c (Suc n) m' (M(hash \<mapsto> p)) \<and> overlay (verify_node_checksum h) m m')
    (\<lambda>e m'. env_error e \<and> represents h c n m' M \<and> overlay (verify_node_checksum h) m m') m3"
proof -
  let ?chk = "verify_node_checksum h"
  have bm: "bm_inv (bmap m)" and fl: "free_blocks (bmap m) \<subseteq> {bm_data_start (bmap m)..}" using r by (auto simp: represents_def fs_layout_def)
  from r obtain t pl bl where t: "index h n m t" and
    o: "\<forall>e \<in> set (idx_entries t). obj c (disk_key m) (bmap m) (view m) (dirty_set m) e (pl e) (bl e)" and
    u: "used_ok (bmap m) (idx_blocks t @ concat (map bl (idx_entries t)) @ pending_old_blocks m)" and
    M: "M = (\<lambda>k. map_option pl (find (\<lambda>e. e_hash e = k) (idx_entries t)))"
    unfolding represents_def by blast
  have nw: "hash \<notin> e_hash ` set (idx_entries t)" using new M by (auto simp: find_None_iff)
  have c3: "cow ?chk m m3" and tk: "taken (bmap m) exts (bmap m3)" and clean: "set (all_blocks exts) \<inter> dirty_set m3 = {}"
    and len: "length (all_blocks exts) = div_ceil (length p + 16) BLOCK_SIZE" using st by (auto simp: staged_def)
  from st obtain key nonce where key: "object_key c (disk_key m) hash = Some (key, nonce)"
    "take (length p + 16) (concat (map (view m3) (all_blocks exts))) = aead_encrypt_aes c key nonce p" by (auto simp: staged_def)
  have good: "list_all (good_extent (bmap m)) exts" using tk by (simp add: taken_def)
  show ?thesis
    unfolding put_index_def wpE_bind
  proof (rule wpE_mono [OF put_index_chain [OF st bm p]], goal_cases)
    case (1 i m4)
    then obtain cs where c4: "cow ?chk m3 m4" and cs: "grown m3 cs m4" "chain_rep (view m4) i cs (drop DIRECT_EXTENTS exts)" "i < 2 ^ 64" by blast
    define e where "e = put_entry_for hash (length p) (length p + 16) exts i"
    note ef = put_entry_for_fields [OF bm good len p hash(2) cs(3), folded e_def]
    have eh: "e_hash e = hash" "indirect_block e = i" "plaintext_size e = length p" "disk_size e = length p + 16"
      by (simp_all add: e_def put_entry_for_def)
    have cm4: "cow ?chk m m4" by (rule cow_trans [OF c3 c4])
    note f4 = fs_of_alloc [of m4 m]
    have more4: "alloc_io.more m4 = alloc_io.more m" using cm4 by (simp add: cow_def)
    note f4 = fs_of_alloc [OF more4]
    have t4: "index h n m4 t" by (rule index_keeps [OF cow_keeps [OF cm4] t f4(1)])
    have nw': "e_hash e \<notin> e_hash ` set (idx_entries t)" using nw eh by simp
    have roll: "represents h c n (rollback_alloc exts i m') M \<and> overlay ?chk m (rollback_alloc exts i m')" if "cow ?chk m4 m'" for m'
    proof (rule represents_overlay [OF r staged_rollback [OF bm c3 tk cow_trans [OF c4 that] _ _ fl]])
      show "chain_rep (view m') i cs (drop DIRECT_EXTENTS exts)"
        by (rule chain_rep_cong [OF cs(2)]) (use that cs(1) in \<open>auto simp: grown_def dest: cowD\<close>)
    qed (use cs(1) in \<open>auto simp: grown_def\<close>)
    show ?case
      unfolding wpE_gets e_def [symmetric] wpE_catch
    proof (rule wpE_mono [OF index_insert [OF cowD(1,2) [OF c4] t4 n ef(1) hash(1) nw']], goal_cases)
      case (1 a m5)
      obtain rt frees was_new where a: "a = (rt, frees, was_new)" by (metis surj_pair)
      from 1 obtain t' ns where c5: "cow ?chk m4 m5" and wn: "was_new" and
        t': "stored ?chk m5 t'" "root t' = rt" "rt \<noteq> 0" "search_tree t'" "height t' \<le> Suc n"
          "entries t' = with_new e (idx_entries t)" "grown m4 ns m5" "mset (blocks t') + mset frees = mset (idx_blocks t) + mset ns"
        unfolding a by auto
      have c35: "cow ?chk m3 m5" and cm5: "cow ?chk m m5" using cow_trans c3 c4 c5 by blast+
      have tr: "tracks (bmap m) (bmap m5)" using cm5 by (simp add: cow_def)
      have nf: "set (all_blocks exts) \<inter> free_blocks (bmap m3) = {}" using tk by (auto simp: taken_def)
      have oe: "obj c (disk_key m) (bmap m5) (view m5) (dirty_set m5) e p (cs @ all_blocks exts)"
      proof -
        have "chain_rep (view m5) i cs (drop DIRECT_EXTENTS exts)"
          by (rule chain_rep_cong [OF cs(2)]) (use c5 cs(1) in \<open>auto simp: grown_def dest: cowD\<close>)
        moreover have mv: "map (view m5) (all_blocks exts) = map (view m3) (all_blocks exts)"
          using nf cowD(4) [OF c35] by auto
        have "take (length p + 16) (concat (map (view m5) (all_blocks exts))) = aead_encrypt_aes c key nonce p"
          unfolding mv by (rule key(2))
        moreover have "set (all_blocks exts) \<inter> dirty_set m5 = {}" using keeps_dirty [OF cow_keeps [OF c35]] nf clean by auto
        moreover have "list_all (good_extent (bmap m5)) exts" using good good_extent_tracks [OF tr] by simp
        ultimately have "object_key c (disk_key m) hash = Some (key, nonce) \<and> chain_rep (view m5) i cs (drop DIRECT_EXTENTS exts) \<and>
            cs @ all_blocks exts = cs @ all_blocks (take DIRECT_EXTENTS exts @ drop DIRECT_EXTENTS exts) \<and>
            list_all (good_extent (bmap m5)) (take DIRECT_EXTENTS exts @ drop DIRECT_EXTENTS exts) \<and>
            set (all_blocks (take DIRECT_EXTENTS exts @ drop DIRECT_EXTENTS exts)) \<inter> dirty_set m5 = {} \<and> length p \<le> AES_LIMIT \<and>
            length p = length p \<and> length p + 16 = length p + 16 \<and>
            length (all_blocks (take DIRECT_EXTENTS exts @ drop DIRECT_EXTENTS exts)) = div_ceil (length p + 16) BLOCK_SIZE \<and>
            take (length p + 16) (concat (map (view m5) (all_blocks (take DIRECT_EXTENTS exts @ drop DIRECT_EXTENTS exts)))) = aead_encrypt_aes c key nonce p"
          using key(1) len p unfolding append_take_drop_id by blast
        then show ?thesis unfolding obj_def eh ef(2) by blast
      qed
      have g: "grown m ((cs @ all_blocks exts) @ ns) m5"
        using tk cs(1) t'(7) by (auto simp: grown_def taken_def)
      have root: "root t' \<noteq> 0" using t'(2,3) by simp
      let ?m6 = "m5\<lparr>fs_sb := (fs_sb m5)\<lparr>sb_btree_root := rt, sb_object_count := wrap64 (sb_object_count (fs_sb m5) + 1),
        sb_free_blocks := bm_free (bmap m5)\<rparr>, pending_old_blocks := pending_old_blocks m5 @ frees\<rparr>"
      have "represents h c (Suc n) ?m6 (M(hash \<mapsto> p))"
        by (rule represents_insert [OF r cm5 t o u M nw' oe t'(1) root t'(4,5,6,8) g _ refl, unfolded eh t'(2)]) simp
      moreover have "overlay ?chk m ?m6"
      proof -
        have "rt < 2 ^ 64" using t'(1,2) rep_root by (auto simp: stored_def)
        moreover have "bm_free (bmap m5) < 2 ^ 64" by (rule bm_free_bound) (use cm5 in \<open>simp add: cow_def\<close>)
        ultimately have "sb_kept (fs_sb m5) (fs_sb ?m6)" by (simp add: sb_kept_def sb_ok_def)
        then show ?thesis using overlay_keeps [OF cow_keeps [OF cm5]] sb_kept_trans by (auto simp: overlay_def)
      qed
      ultimately show ?case unfolding a prod.case by (simp add: wpE_def wn)
    qed (use roll in auto)
  qed (use represents_overlay [OF r cow_keeps [OF cow_trans [OF c3]]] in auto)
qed

lemma represents_mono: "represents h c n m M \<Longrightarrow> n \<le> n' \<Longrightarrow> represents h c n' m M"
proof -
  assume r: "represents h c n m M" and n: "n \<le> n'"
  have "index h n m t \<Longrightarrow> index h n' m t" for t using n by (cases t) auto
  with r show ?thesis unfolding represents_def by blast
qed

lemma wpE_resume:
  "wpE (\<lambda>m. case f m of (res, m') \<Rightarrow> k res m') Q R m = wpE f (\<lambda>v. wpE (k (Inr v)) Q R) (\<lambda>e. wpE (k (Inl e)) Q R) m"
  by (auto simp: wpE_def split: prod.splits sum.splits)

lemma dev_update_fs [simp]:
  "bmap (m\<lparr>dev := d\<rparr>) = bmap m" "alloc_io.more (m\<lparr>dev := d\<rparr>) = alloc_io.more m" "dirty_set (m\<lparr>dev := d\<rparr>) = dirty_set m"
  by (simp_all add: dirty_set_def)

lemma direct_cow:
  assumes c: "cow chk m m2" and t: "taken (bmap m) exts (bmap m2)" and bm: "bm_inv (bmap m)" and d: "direct chk (set (all_blocks exts)) m2 m3"
  shows "cow chk m m3" "bmap m3 = bmap m2" "dirty_set m3 = dirty_set m2"
proof -
  from d obtain dv where m3: "m3 = m2\<lparr>dev := dv\<rparr>" by (auto simp: direct_def)
  show bm3: "bmap m3 = bmap m2" and "dirty_set m3 = dirty_set m2" by (simp_all add: m3)
  have sub: "set (all_blocks exts) \<subseteq> free_blocks (bmap m) \<inter> {bm_data_start (bmap m)..}"
    using t taken_blocks(1) [OF bm t] by (auto simp: taken_def)
  have "calm B m m3" if "free_blocks (bmap m) \<inter> {bm_data_start (bmap m)..} \<subseteq> B" for B
  proof (rule calm_trans)
    show "calm B m m2" using c that by (simp add: cow_def)
    have "set (all_blocks exts) \<subseteq> B" using sub that by blast
    then show "calm B m2 m3" using d by (simp add: direct_def)
  qed
  moreover have "view m3 b = view m b" if "b \<notin> free_blocks (bmap m)" for b
    using d sub that cowD(4) [OF c that] by (auto simp: direct_def)
  moreover have "alloc_io.more m3 = alloc_io.more m2" by (simp add: m3)
  ultimately show "cow chk m m3" using c d bm3 unfolding cow_def direct_def by simp
qed

lemma put_blocks_spec:
  assumes r: "represents h c n m M" and n: "n \<le> MAX_TREE_DEPTH" and c: "ciphers_ok c" and hash: "\<And>b. length (h b) = 32" "length hash = 32"
    and p: "length p \<le> AES_LIMIT" and new: "M hash = None" and key: "object_key c (disk_key m) hash = Some (key, nonce)"
    and data: "data = aead_encrypt_aes c key nonce p"
  shows "wpE (bindE (put_alloc (length data)) (\<lambda>exts m. case put_data data 0 exts m of
           (res, m') \<Rightarrow> put_finish h hash (length p) (length data) exts res m'))
    (\<lambda>_ m'. represents h c (Suc n) m' (M(hash \<mapsto> p)) \<and> overlay (verify_node_checksum h) m m')
    (\<lambda>e m'. env_error e \<and> represents h c n m' M \<and> overlay (verify_node_checksum h) m m') m"
proof -
  let ?chk = "verify_node_checksum h"
  have inv: "cache_inv ?chk m" "bm_inv (bmap m)" and fl: "free_blocks (bmap m) \<subseteq> {bm_data_start (bmap m)..}"
    using r by (auto simp: represents_def fs_layout_def)
  have ld: "length data = length p + 16" unfolding data by (rule aes_roundtrip(2) [OF c p])
  have B: "0 < BLOCK_SIZE" by (simp add: BLOCK_SIZE_def)
  have one: "1 \<le> div_ceil (length data) BLOCK_SIZE" unfolding div_ceil_def ld by (simp add: less_eq_div_iff_mult_less_eq B)
  have fits: "length data \<le> div_ceil (length data) BLOCK_SIZE * BLOCK_SIZE" using div_ceil_ge [OF B, of "length data"] by (simp add: mult.commute)
  have tight: "(div_ceil (length data) BLOCK_SIZE - 1) * BLOCK_SIZE < length data"
  proof -
    have "div_ceil (length data) BLOCK_SIZE * BLOCK_SIZE \<le> length data + BLOCK_SIZE - 1" unfolding div_ceil_def by (rule div_times_less_eq_dividend)
    then show ?thesis using one ld by (simp add: diff_mult_distrib)
  qed
  show ?thesis
    unfolding wpE_bind
  proof (rule wpE_mono [OF put_alloc_spec [OF inv]], goal_cases)
    case (1 exts m2)
    then have c2: "cow ?chk m m2" and tk: "taken (bmap m) exts (bmap m2)" and um: "\<forall>b \<in> set (all_blocks exts). cmap m2 b = None"
      and len: "length (all_blocks exts) = div_ceil (length data) BLOCK_SIZE" using one by auto
    have x: "\<forall>x \<in> set exts. start_block x + block_count_of x \<le> 2 ^ 64 \<and> 0 < block_count_of x"
      using tk inv(2) by (auto simp: taken_def list_all_iff good_extent_def bm_inv_def)
    have dist: "distinct (all_blocks exts)" using tk by (simp add: taken_def)
    have wr: "wpE (put_data data 0 exts)
      (\<lambda>_ m3. direct ?chk (set (all_blocks exts)) m2 m3 \<and> concat (map (view m3) (all_blocks exts)) =
         drop 0 data @ replicate (length (all_blocks exts) * BLOCK_SIZE - length (drop 0 data)) 0)
      (\<lambda>e m3. env_error e \<and> direct ?chk (set (all_blocks exts)) m2 m3) m2"
      by (rule put_data_spec [OF cowD(1) [OF c2] x dist um]) (use fits tight len in auto)
    show ?case
      unfolding wpE_resume
    proof (rule wpE_mono [OF wr], goal_cases)
      case (1 v m3)
      note d = direct_cow [OF c2 tk inv(2) conjunct1 [OF 1]]
      have "set (all_blocks exts) \<inter> dirty_set m3 = {}"
        using unmapped_not_dirty [OF cowD(1) [OF c2]] um d(3) by auto
      moreover have "take (length p + 16) (concat (map (view m3) (all_blocks exts))) = aead_encrypt_aes c key nonce p"
        using 1 ld data by simp
      ultimately have st: "staged h c m exts hash p m3"
        unfolding staged_def using d tk len ld key by auto
      show ?case
        unfolding put_finish_def represents_need_mounted [OF represents_cow [OF r d(1)]] sum.case ld
        by (rule put_index_spec [OF r n hash p new st])
    next
      case (2 e m3)
      note d = direct_cow [OF c2 tk inv(2) conjunct2 [OF 2]]
      have "keeps ?chk m (rollback_alloc exts 0 m3)"
        by (rule staged_rollback [OF inv(2) d(1) _ cow_refl [OF cowD(1,2) [OF d(1)]] _ _ fl, of exts "[]" 0 "[]"]) (use d tk in auto)
      then show ?case
        unfolding put_finish_def represents_need_mounted [OF represents_cow [OF r d(1)]] sum.case
        using 2 represents_overlay [OF r] by (simp add: wpE_def)
    qed
  next
    case (2 e m')
    then show ?case using represents_overlay [OF r] by (auto simp: env_error_def)
  qed
qed

lemma put_spec:
  assumes r: "represents h c n m M" and n: "n \<le> MAX_TREE_DEPTH" and c: "ciphers_ok c" and hash: "\<And>b. length (h b) = 32" "length hash = 32"
    and p: "length p \<le> AES_LIMIT"
  shows "wpE (put_inner h c hash p verify)
    (\<lambda>_ m'. represents h c (Suc n) m' (if M hash = None then M(hash \<mapsto> p) else M) \<and> overlay (verify_node_checksum h) m m' \<and>
       (M hash = None \<and> verify \<longrightarrow> object_address c (disk_key m) p = Some hash))
    (\<lambda>e m'. represents h c n m' M \<and> overlay (verify_node_checksum h) m m' \<and> (env_error e \<or> e = Locked \<and> disk_key m = None \<or>
       e = InvalidName \<and> verify \<and> object_address c (disk_key m) p \<noteq> Some hash)) m"
proof -
  let ?chk = "verify_node_checksum h"
  have inv: "cache_inv ?chk m" "bm_inv (bmap m)" using r by (auto simp: represents_def)
  from r obtain t pl where t: "index h n m t" and M: "M = (\<lambda>k. map_option pl (find (\<lambda>e. e_hash e = k) (idx_entries t)))"
    unfolding represents_def by blast
  show ?thesis
    unfolding put_inner_def wpE_bind represents_need_mounted [OF r, unfolded wpE_bind] wpE_gets
  proof (rule wpE_mono [OF index_lookup [OF inv t n]], goal_cases)
    case (1 found m1)
    then have f: "found = find (\<lambda>e. e_hash e = hash) (idx_entries t)" and cw: "cow ?chk m m1" by auto
    note r1 = represents_cow [OF r cw]
    have ov: "overlay ?chk m m1" by (rule overlay_keeps [OF cow_keeps [OF cw]])
    have dk: "disk_key m1 = disk_key m" using fs_of_alloc(4) [of m1 m] cw by (simp add: cow_def)
    show ?case
    proof (cases "found = None")
      case False
      then have "M hash \<noteq> None" using M f by auto
      then show ?thesis using False represents_mono [OF r1, of "Suc n"] ov by (auto simp: wpE_ret)
    next
      case True
      then have new: "M hash = None" using M f by simp
      show ?thesis
      proof (cases "object_key c (disk_key m1) hash")
        case None
        then have "disk_key m = None" using dk by (auto simp: object_key_def)
        then show ?thesis using True None r1 dk ov by (auto simp: wpE_bind wpE_gets wpE_throw object_address_def wp)
      next
        case (Some kn)
        obtain key nonce where kn: "kn = (key, nonce)" by fastforce
        have ok: "object_address c (disk_key m1) p \<noteq> None" using Some by (auto simp: object_key_def object_address_def)
        note b = put_blocks_spec [OF r1 n c hash p new Some [unfolded kn] refl]
        have fin: "wpE (bindE need_mounted (\<lambda>_. bindE (put_alloc (length (aead_encrypt_aes c key nonce p))) (\<lambda>exts m.
             case put_data (aead_encrypt_aes c key nonce p) 0 exts m of
               (res, m') \<Rightarrow> put_finish h hash (length p) (length (aead_encrypt_aes c key nonce p)) exts res m')))
          (\<lambda>_ m'. represents h c (Suc n) m' (M(hash \<mapsto> p)) \<and> overlay ?chk m m')
          (\<lambda>e m'. env_error e \<and> represents h c n m' M \<and> overlay ?chk m m') m1"
          unfolding represents_need_mounted [OF r1] by (rule wpE_mono [OF b]) (use overlay_trans [OF ov] in auto)
        show ?thesis
        proof (cases "verify \<and> object_address c (disk_key m1) p \<noteq> Some hash")
          case True
          then show ?thesis using \<open>found = None\<close> ok r1 dk ov by (auto simp: wpE_bind wpE_gets wpE_throw wp)
        next
          case False
          have "wpE (bindE need_mounted (\<lambda>_. bindE (put_alloc (length (aead_encrypt_aes c key nonce p))) (\<lambda>exts m.
             case put_data (aead_encrypt_aes c key nonce p) 0 exts m of
               (res, m') \<Rightarrow> put_finish h hash (length p) (length (aead_encrypt_aes c key nonce p)) exts res m')))
            (\<lambda>_ m'. represents h c (Suc n) m' (M(hash \<mapsto> p)) \<and> overlay ?chk m m')
            (\<lambda>e m'. represents h c n m' M \<and> overlay ?chk m m' \<and> (env_error e \<or> e = Locked \<and> disk_key m = None \<or>
               e = InvalidName \<and> verify \<and> object_address c (disk_key m) p \<noteq> Some hash)) m1"
            by (rule wpE_mono [OF fin]) auto
          then show ?thesis using \<open>found = None\<close> False Some kn new dk by (auto simp: wpE_gets wpE_bind [of "gets _"] Let_def)
        qed
      qed
    qed
  qed (use represents_overlay [OF r cow_keeps] in auto)
qed

end
