(* ===== verification/Object_Commit.thy ===== *)
theory Object_Commit
  imports Object_Map
begin

text \<open>
  What a loss of power can leave behind. A block is \<open>at_rest\<close> when it is neither dirty in the cache nor among the
  device's unflushed writes, so that every crash image shows it as it reads now. \<open>durable_map h c n m sb M\<close> says that
  every crash image of the device of \<open>m\<close> mounts with the superblock \<open>sb\<close> and holds the map \<open>M\<close>. A \<open>put\<close>, failed or
  not, leaves the durable map alone; \<open>commit_root\<close> makes the map in memory the durable one, and a commit that fails,
  at whatever call of the device, leaves crash images that hold the old map or the new one.
\<close>

section \<open>Blocks at rest\<close>

definition at_rest :: "'a io_scheme \<Rightarrow> nat \<Rightarrow> bool" where
  "at_rest m b \<longleftrightarrow> b < 2 ^ 64 \<and> b \<notin> dirty_set m \<and> actual (dev m) b \<notin> fst ` set (unflushed (dev m)) \<and>
     durable (dev m) (actual (dev m) b) = view m b"

definition sb_area :: "nat set" where
  "sb_area = {SUPERBLOCK_START..<SUPERBLOCK_START + SUPERBLOCK_SLOTS}"

text \<open>The superblock a mount takes, and the map it finds below it.\<close>

definition newest :: "(bytes \<Rightarrow> bytes) \<Rightarrow> (nat \<Rightarrow> bytes) \<Rightarrow> superblock option" where
  "newest h v = fst (best_of h (map v [SUPERBLOCK_START..<SUPERBLOCK_START + SUPERBLOCK_SLOTS]))"

fun tree_at :: "(bytes \<Rightarrow> bytes) \<Rightarrow> nat \<Rightarrow> (nat \<Rightarrow> bytes) \<Rightarrow> nat \<Rightarrow> btree option \<Rightarrow> bool" where
  "tree_at h n v r None \<longleftrightarrow> r = 0"
| "tree_at h n v r (Some t) \<longleftrightarrow> r = root t \<and> r \<noteq> 0 \<and> rep (verify_node_checksum h) v t \<and> search_tree t \<and> height t \<le> n"

definition disk_map :: "(bytes \<Rightarrow> bytes) \<Rightarrow> ciphers \<Rightarrow> nat \<Rightarrow> disk_keys option \<Rightarrow> bitmap \<Rightarrow> (nat \<Rightarrow> bytes) \<Rightarrow> nat \<Rightarrow> nat set \<Rightarrow> (bytes \<rightharpoonup> bytes) \<Rightarrow> bool" where
  "disk_map h c n ks bm v r U M \<longleftrightarrow> (\<exists>t pl bl. tree_at h n v r t \<and>
     (\<forall>e \<in> set (idx_entries t). obj c ks bm v {} e (pl e) (bl e)) \<and>
     U = set (idx_blocks t @ concat (map bl (idx_entries t))) \<and> distinct (idx_blocks t @ concat (map bl (idx_entries t))) \<and>
     M = (\<lambda>k. map_option pl (find (\<lambda>e. e_hash e = k) (idx_entries t))))"

definition recovers :: "(bytes \<Rightarrow> bytes) \<Rightarrow> ciphers \<Rightarrow> nat \<Rightarrow> 'a fs_io_scheme \<Rightarrow> (nat \<Rightarrow> bytes) \<Rightarrow> superblock \<Rightarrow> (bytes \<rightharpoonup> bytes) \<Rightarrow> bool" where
  "recovers h c n m v sb M \<longleftrightarrow> newest h v = Some sb \<and> (\<exists>U. disk_map h c n (disk_key m) (bmap m) v (sb_btree_root sb) U M)"

definition in_use :: "bitmap \<Rightarrow> nat set" where
  "in_use bm = {bm_data_start bm..<bm_total bm} - free_blocks bm"

definition durable_map :: "(bytes \<Rightarrow> bytes) \<Rightarrow> ciphers \<Rightarrow> nat \<Rightarrow> 'a fs_io_scheme \<Rightarrow> superblock \<Rightarrow> (bytes \<rightharpoonup> bytes) \<Rightarrow> bool" where
  "durable_map h c n m sb M \<longleftrightarrow> newest h (view m) = Some sb \<and> (\<forall>b \<in> sb_area. at_rest m b) \<and>
     (\<exists>U. disk_map h c n (disk_key m) (bmap m) (view m) (sb_btree_root sb) U M \<and> U \<subseteq> in_use (bmap m) \<and> (\<forall>b \<in> U. at_rest m b))"

text \<open>The state in which a commit can start.\<close>

definition heads_ok :: "journal \<Rightarrow> bool" where
  "heads_ok j \<longleftrightarrow> j_head j < JOURNAL_BLOCKS \<and> j_seq j < 2 ^ 64 \<and>
     (pending_frees j = [] \<longrightarrow> set (uncommitted_blocks j) \<subseteq> journal_area \<and> distinct (uncommitted_blocks j))"

definition sb_good :: "superblock \<Rightarrow> bool" where
  "sb_good sb \<longleftrightarrow> sb_ok sb \<and> sb_magic sb = DISK_MAGIC \<and> sb_version sb = DISK_VERSION"

definition commit_ready :: "'a fs_io_scheme \<Rightarrow> bool" where
  "commit_ready m \<longleftrightarrow> bm_synced (view m) (bmap m) \<and> sb_good (fs_sb m) \<and> heads_ok (jrnl m)"

lemma settled_image: "at_rest m b \<Longrightarrow> img \<in> crash_images (dev m) \<Longrightarrow> img (actual (dev m) b) = view m b"
proof -
  assume s: "at_rest m b" and i: "img \<in> crash_images (dev m)"
  then have "img (actual (dev m) b) = durable (dev m) (actual (dev m) b) \<or> (actual (dev m) b, img (actual (dev m) b)) \<in> set (unflushed (dev m))"
    by (simp add: crash_images_def)
  moreover have "(actual (dev m) b, x) \<notin> set (unflushed (dev m))" for x
    using s unfolding at_rest_def by (metis fst_conv imageI)
  ultimately show ?thesis using s by (simp add: at_rest_def)
qed

lemma dirty_bound: "cache_inv chk m \<Longrightarrow> dirty_set m \<subseteq> {..<2 ^ 64}"
  by (auto simp: cache_inv_def cache_rep_def slots_ok_def dirty_set_def)

lemma settled_calm:
  assumes inv: "cache_inv chk m" and s: "at_rest m b" and v: "view m' b = view m b"
    and c: "\<And>B. A \<subseteq> B \<Longrightarrow> calm B m m'" and A: "A \<subseteq> {..<2 ^ 64} - {b}"
  shows "at_rest m' b"
proof -
  let ?B = "{..<2 ^ 64} - {b}"
  have d: "dirty_set m \<subseteq> ?B" using dirty_bound [OF inv] s by (auto simp: at_rest_def)
  from c [OF A] d obtain ws where same: "same_disk (dev m) (dev m')" and ds: "dirty_set m' \<subseteq> ?B" and
    ws: "unflushed (dev m') = unflushed (dev m) @ ws" "fst ` set ws \<subseteq> actual (dev m) ` ?B" by (auto simp: calm_def)
  have b: "b < 2 ^ 64" using s by (simp add: at_rest_def)
  have "actual (dev m) b \<notin> actual (dev m) ` ?B"
  proof
    assume "actual (dev m) b \<in> actual (dev m) ` ?B"
    then obtain x where "x \<in> ?B" "actual (dev m) b = actual (dev m) x" by blast
    then show False using actual_inj [of b x "dev m"] b by auto
  qed
  then have "actual (dev m) b \<notin> fst ` set ws" using ws(2) by blast
  moreover have "durable (dev m') = durable (dev m)" using same by (simp add: same_disk_def)
  ultimately show ?thesis using s ds ws(1) v unfolding at_rest_def same_disk_actual [OF same] by auto
qed

lemma obj_cong:
  assumes o: "obj c ks bm v D e p xs" and v: "\<And>b. b \<in> set xs \<Longrightarrow> v' b = v b" and d: "set xs \<inter> D' \<subseteq> D" and g: "good_extent bm' = good_extent bm"
  shows "obj c ks bm' v' D' e p xs"
proof -
  from o obtain cs ys key nonce where
    o1: "object_key c ks (e_hash e) = Some (key, nonce)" "chain_rep v (indirect_block e) cs ys"
      "xs = cs @ all_blocks (direct_extents e @ ys)" "list_all (good_extent bm) (direct_extents e @ ys)"
      "set (all_blocks (direct_extents e @ ys)) \<inter> D = {}"
    and o2: "length p \<le> AES_LIMIT \<and> plaintext_size e = length p \<and> disk_size e = length p + 16 \<and>
      length (all_blocks (direct_extents e @ ys)) = div_ceil (disk_size e) BLOCK_SIZE"
      "take (disk_size e) (concat (map v (all_blocks (direct_extents e @ ys)))) = aead_encrypt_aes c key nonce p"
    unfolding obj_def by blast
  have "chain_rep v' (indirect_block e) cs ys" by (rule chain_rep_cong [OF o1(2)]) (simp add: v o1(3))
  moreover have "set (all_blocks (direct_extents e @ ys)) \<inter> D' = {}" using d o1(3,5) by auto
  moreover have "map v' (all_blocks (direct_extents e @ ys)) = map v (all_blocks (direct_extents e @ ys))" using v o1(3) by simp
  ultimately show ?thesis using o1 o2 g unfolding obj_def by metis
qed

lemma disk_map_cong:
  assumes d: "disk_map h c n ks bm v r U M" and v: "\<And>b. b \<in> U \<Longrightarrow> v' b = v b" and g: "good_extent bm' = good_extent bm"
  shows "disk_map h c n ks bm' v' r U M"
proof -
  from d obtain t pl bl where t: "tree_at h n v r t" and o: "\<forall>e \<in> set (idx_entries t). obj c ks bm v {} e (pl e) (bl e)"
    and U: "U = set (idx_blocks t @ concat (map bl (idx_entries t)))" "distinct (idx_blocks t @ concat (map bl (idx_entries t)))" and M: "M = (\<lambda>k. map_option pl (find (\<lambda>e. e_hash e = k) (idx_entries t)))"
    unfolding disk_map_def by blast
  have "tree_at h n v' r t"
  proof (cases t)
    case (Some u)
    have "rep (verify_node_checksum h) v' u" by (rule rep_cong) (use t v U Some in auto)
    with t Some show ?thesis by simp
  qed (use t in simp)
  moreover have "\<forall>e \<in> set (idx_entries t). obj c ks bm' v' {} e (pl e) (bl e)"
  proof
    fix e assume e: "e \<in> set (idx_entries t)"
    show "obj c ks bm' v' {} e (pl e) (bl e)" by (rule obj_cong [OF bspec [OF o e] _ _ g]) (use e U v in auto)
  qed
  ultimately show ?thesis using U M unfolding disk_map_def by blast
qed

lemma newest_cong: "(\<And>b. b \<in> sb_area \<Longrightarrow> v' b = v b) \<Longrightarrow> newest h v' = newest h v"
  unfolding newest_def by (rule arg_cong [where f = "\<lambda>xs. fst (best_of h xs)"]) (auto simp: sb_area_def)

lemma recovers_cong:
  assumes "newest h v = Some sb" and "disk_map h c n (disk_key m) (bmap m) v (sb_btree_root sb) U M"
    and "\<And>b. b \<in> sb_area \<union> U \<Longrightarrow> v' b = v b" and "disk_key m' = disk_key m" and "good_extent (bmap m') = good_extent (bmap m)"
  shows "recovers h c n m' v' sb M"
proof -
  have "newest h v' = Some sb" using newest_cong [of v' v] assms(1,3) by simp
  moreover have "disk_map h c n (disk_key m') (bmap m') v' (sb_btree_root sb) U M"
    unfolding assms(4) by (rule disk_map_cong [OF assms(2) _ assms(5)]) (use assms(3) in simp)
  ultimately show ?thesis unfolding recovers_def by blast
qed

lemma durable_map_crash:
  assumes d: "durable_map h c n m sb M" and i: "img \<in> crash_images (dev m)"
  shows "recovers h c n m (\<lambda>b. img (actual (dev m) b)) sb M"
proof -
  from d obtain U where U: "newest h (view m) = Some sb" "\<forall>b \<in> sb_area. at_rest m b"
    "disk_map h c n (disk_key m) (bmap m) (view m) (sb_btree_root sb) U M" "\<forall>b \<in> U. at_rest m b" unfolding durable_map_def by blast
  show ?thesis
    by (rule recovers_cong [OF U(1,3) _ refl refl]) (use settled_image [OF _ i] U(2,4) in blast)
qed

lemma durable_map_transfer:
  assumes d: "durable_map h c n m sb M"
    and s: "\<And>b. b \<in> sb_area \<union> in_use (bmap m) \<Longrightarrow> at_rest m b \<Longrightarrow> at_rest m' b \<and> view m' b = view m b"
    and u: "in_use (bmap m) \<subseteq> in_use (bmap m')" and g: "good_extent (bmap m') = good_extent (bmap m)" and k: "disk_key m' = disk_key m"
  shows "durable_map h c n m' sb M"
proof -
  from d obtain U where U: "newest h (view m) = Some sb" "\<forall>b \<in> sb_area. at_rest m b" "U \<subseteq> in_use (bmap m)"
    "disk_map h c n (disk_key m) (bmap m) (view m) (sb_btree_root sb) U M" "\<forall>b \<in> U. at_rest m b" unfolding durable_map_def by blast
  have s1: "\<forall>b \<in> sb_area. at_rest m' b \<and> view m' b = view m b" using s U(2) by blast
  have s2: "\<forall>b \<in> U. at_rest m' b \<and> view m' b = view m b" using s U(3,5) by blast
  have "newest h (view m') = Some sb" using newest_cong [of "view m'" "view m"] s1 U(1) by simp
  moreover have "disk_map h c n (disk_key m') (bmap m') (view m') (sb_btree_root sb) U M"
    unfolding k by (rule disk_map_cong [OF U(4) _ g]) (use s2 in blast)
  moreover have "U \<subseteq> in_use (bmap m')" using U(3) u by blast
  ultimately show ?thesis using s1 s2 unfolding durable_map_def by blast
qed

section \<open>Putting leaves the durable map alone\<close>

lemma sb_area_outside:
  assumes "fs_layout m" and "bm_inv (bmap m)"
  shows "sb_area \<inter> ({bm_data_start (bmap m)..} \<union> journal_area \<union> bm_blocks (bmap m)) = {}"
  using assms by (auto simp: fs_layout_def bm_inv_def sb_area_def journal_area_def bm_blocks_def format_consts)

lemma represents_parts:
  assumes "represents h c n m M"
  shows "mounted m" "cache_inv (verify_node_checksum h) m" "bm_inv (bmap m)" "fs_layout m" "free_blocks (bmap m) \<subseteq> {bm_data_start (bmap m)..}"
  using assms by (auto simp: represents_def fs_layout_def)

lemma overlay_durable:
  assumes r: "represents h c n m M" and d: "durable_map h c n' m sb N" and o: "overlay (verify_node_checksum h) m m'"
  shows "durable_map h c n' m' sb N"
proof -
  note p = represents_parts [OF r]
  have tr: "tracks (bmap m) (bmap m')" and fr: "free_blocks (bmap m') \<subseteq> free_blocks (bmap m)" and k: "disk_key m' = disk_key m"
    and v: "\<And>b. b \<notin> free_blocks (bmap m) \<Longrightarrow> view m' b = view m b"
    and cl: "\<And>B. free_blocks (bmap m) \<subseteq> B \<Longrightarrow> calm B m m'" using o p(5) by (auto simp: overlay_def)
  have free: "free_blocks (bmap m) \<subseteq> {..<2 ^ 64}" using p(3) by (auto simp: free_blocks_iff bm_inv_def)
  show ?thesis
  proof (rule durable_map_transfer [OF d _ _ good_extent_tracks [OF tr] k])
    fix b assume b: "b \<in> sb_area \<union> in_use (bmap m)" and s: "at_rest m b"
    have nf: "b \<notin> free_blocks (bmap m)" using b p(5) sb_area_outside [OF p(4,3)] by (auto simp: in_use_def)
    have "at_rest m' b" by (rule settled_calm [OF p(2) s v [OF nf] cl]) (use free nf in auto)
    then show "at_rest m' b \<and> view m' b = view m b" using v [OF nf] by simp
  qed (use tracks_same [OF tr] fr in \<open>auto simp: in_use_def\<close>)
qed

lemma overlay_ready:
  assumes r: "represents h c n m M" and d: "commit_ready m" and o: "overlay (verify_node_checksum h) m m'"
  shows "commit_ready m'"
proof -
  note p = represents_parts [OF r]
  have tr: "tracks (bmap m) (bmap m')" and v: "\<And>b. b \<notin> free_blocks (bmap m) \<Longrightarrow> view m' b = view m b"
    and j: "jrnl m' = jrnl m" and sb: "sb_kept (fs_sb m) (fs_sb m')" using o by (auto simp: overlay_def)
  have "bm_synced (view m') (bmap m)"
  proof -
    have "view m' (bm_start (bmap m) + i) = view m (bm_start (bmap m) + i)" if "i < bm_count (bmap m)" for i
      by (rule v) (use p(3,5) that in \<open>auto simp: bm_inv_def\<close>)
    then show ?thesis using d by (simp add: commit_ready_def bm_synced_def)
  qed
  then have "bm_synced (view m') (bmap m')" by (rule bm_synced_tracks [OF p(3) tr])
  moreover have "sb_magic (fs_sb m') = sb_magic (fs_sb m)" "sb_version (fs_sb m') = sb_version (fs_sb m)"
    using sb by (cases "fs_sb m", cases "fs_sb m'", simp add: sb_kept_def)+
  ultimately show ?thesis using d j sb by (simp add: commit_ready_def sb_good_def sb_kept_def)
qed

section \<open>The newest superblock\<close>

lemma newest_update:
  assumes old: "newest h v = Some sb0" and val: "sb_ok sb" "is_valid h sb" and gen: "sb_generation sb0 < sb_generation sb" and s: "slot \<in> sb_area"
  shows "newest h (v(slot := sb_bytes sb)) = Some sb"
proof -
  let ?bufs = "\<lambda>v. map v [SUPERBLOCK_START..<SUPERBLOCK_START + SUPERBLOCK_SLOTS]"
  let ?v = "v(slot := sb_bytes sb)"
  have rt: "sb_of_bytes (sb_bytes sb) = sb" by (rule sb_round_trip [OF val(1)])
  have slot: "slot \<in> set [SUPERBLOCK_START..<SUPERBLOCK_START + SUPERBLOCK_SLOTS]" using s by (simp add: sb_area_def)
  have le: "sb_generation (sb_of_bytes (v b)) \<le> sb_generation sb0" if "b \<in> sb_area" "is_valid h (sb_of_bytes (v b))" for b
    using best_of_result [of h "?bufs v"] old that by (auto simp: newest_def sb_area_def)
  have mem: "sb_bytes sb \<in> set (?bufs ?v)" using slot by (auto intro: rev_image_eqI)
  have "fst (best_of h (?bufs ?v)) \<noteq> None"
    using best_of_result [of h "?bufs ?v"] mem val(2) rt by metis
  then obtain sb' where sb': "fst (best_of h (?bufs ?v)) = Some sb'" by blast
  then have r: "is_valid h sb'" "sb' \<in> sb_of_bytes ` set (?bufs ?v)"
    "\<forall>buf \<in> set (?bufs ?v). is_valid h (sb_of_bytes buf) \<longrightarrow> sb_generation (sb_of_bytes buf) \<le> sb_generation sb'"
    using best_of_result [of h "?bufs ?v"] by blast+
  have "sb_generation sb \<le> sb_generation sb'" using r(3) mem rt val(2) by metis
  moreover obtain b where b: "b \<in> sb_area" "sb' = sb_of_bytes (?v b)" using r(2) by (auto simp: sb_area_def)
  ultimately have "b = slot" using le [OF b(1)] r(1) gen by (cases "b = slot") auto
  then show ?thesis using b sb' rt by (simp add: newest_def)
qed


section \<open>The metadata a commit writes\<close>

definition sb_rest :: "superblock \<Rightarrow> superblock" where
  "sb_rest sb = sb\<lparr>sb_journal_seq := 0, sb_journal_head := 0, sb_checksum := []\<rparr>"

definition meta_area :: "bitmap \<Rightarrow> nat set" where
  "meta_area bm = journal_area \<union> bm_blocks bm \<union> sb_area"

definition meta :: "(bytes \<Rightarrow> bool) \<Rightarrow> 'a fs_io_scheme \<Rightarrow> 'a fs_io_scheme \<Rightarrow> bool" where
  "meta chk m m' \<longleftrightarrow> cache_inv chk m' \<and> bm_inv (bmap m') \<and> (\<exists>bs. bmap m' = (bmap m)\<lparr>bm_dirty_blocks := bs\<rparr>) \<and>
     mounted m' = mounted m \<and> disk_key m' = disk_key m \<and> pending_old_blocks m' = pending_old_blocks m \<and>
     fs_generation m' = fs_generation m \<and> sb_rest (fs_sb m') = sb_rest (fs_sb m) \<and>
     (\<forall>b. b \<notin> meta_area (bmap m) \<longrightarrow> view m' b = view m b) \<and> dirty_set m' \<subseteq> dirty_set m \<union> meta_area (bmap m)"

text \<open>Before the barrier nothing outside the journal and the bitmap is written.\<close>

definition stage :: "(bytes \<Rightarrow> bool) \<Rightarrow> 'a fs_io_scheme \<Rightarrow> 'a fs_io_scheme \<Rightarrow> bool" where
  "stage chk m m' \<longleftrightarrow> meta chk m m' \<and> (\<forall>b \<in> sb_area. view m' b = view m b) \<and>
     (\<forall>B. journal_area \<union> bm_blocks (bmap m) \<subseteq> B \<longrightarrow> calm B m m')"

lemma meta_bitmap:
  assumes "bmap m' = (bmap m)\<lparr>bm_dirty_blocks := bs\<rparr>"
  shows "free_blocks (bmap m') = free_blocks (bmap m)" "bm_blocks (bmap m') = bm_blocks (bmap m)" "bm_data_start (bmap m') = bm_data_start (bmap m)"
    "bm_total (bmap m') = bm_total (bmap m)" "bm_start (bmap m') = bm_start (bmap m)" "good_extent (bmap m') = good_extent (bmap m)"
    "in_use (bmap m') = in_use (bmap m)" "meta_area (bmap m') = meta_area (bmap m)"
  by (simp_all add: assms free_blocks_def bm_blocks_def good_extent_def in_use_def meta_area_def fun_eq_iff)

lemma meta_trans: "meta chk m m' \<Longrightarrow> meta chk m' m'' \<Longrightarrow> meta chk m m''"
proof -
  assume a: "meta chk m m'" and b: "meta chk m' m''"
  from a obtain bs where bs: "bmap m' = (bmap m)\<lparr>bm_dirty_blocks := bs\<rparr>" by (auto simp: meta_def)
  note mb = meta_bitmap(8) [OF bs]
  have "\<exists>bs. bmap m'' = (bmap m)\<lparr>bm_dirty_blocks := bs\<rparr>" using b bs by (auto simp: meta_def)
  moreover have "dirty_set m'' \<subseteq> dirty_set m \<union> meta_area (bmap m)" using a b unfolding meta_def mb by blast
  ultimately show ?thesis using a b unfolding meta_def mb by auto
qed

lemma stage_trans: "stage chk m m' \<Longrightarrow> stage chk m' m'' \<Longrightarrow> stage chk m m''"
proof -
  assume a: "stage chk m m'" and b: "stage chk m' m''"
  from a obtain bs where bs: "bmap m' = (bmap m)\<lparr>bm_dirty_blocks := bs\<rparr>" by (auto simp: meta_def stage_def)
  have "calm B m m''" if "journal_area \<union> bm_blocks (bmap m) \<subseteq> B" for B
    by (rule calm_trans [of _ _ m']) (use a b that meta_bitmap(2) [OF bs] in \<open>auto simp: stage_def\<close>)
  then show ?thesis using a b meta_trans [of chk m m' m''] unfolding stage_def by auto
qed

lemma calm_dirty:
  assumes "\<And>B. A \<subseteq> B \<Longrightarrow> calm B m m'"
  shows "dirty_set m' \<subseteq> dirty_set m \<union> A"
  using assms [of "dirty_set m \<union> A"] by (auto simp: calm_def)

lemma stage_I:
  assumes "cache_inv chk m'" "bm_inv (bmap m')" "bmap m' = (bmap m)\<lparr>bm_dirty_blocks := bs\<rparr>" "mounted m' = mounted m"
    "disk_key m' = disk_key m" "pending_old_blocks m' = pending_old_blocks m" "fs_generation m' = fs_generation m"
    "sb_rest (fs_sb m') = sb_rest (fs_sb m)" and v: "\<And>b. b \<notin> journal_area \<union> bm_blocks (bmap m) \<Longrightarrow> view m' b = view m b"
    and c: "\<And>B. journal_area \<union> bm_blocks (bmap m) \<subseteq> B \<Longrightarrow> calm B m m'" and lay: "fs_layout m"
  shows "stage chk m m'"
proof -
  have "sb_area \<inter> (journal_area \<union> bm_blocks (bmap m)) = {}"
  proof -
    have "META_END \<le> bm_start (bmap m)" using lay by (simp add: fs_layout_def)
    then show ?thesis by (auto simp: sb_area_def journal_area_def bm_blocks_def format_consts)
  qed
  then have "\<forall>b \<in> sb_area. view m' b = view m b" using v by blast
  moreover have "dirty_set m' \<subseteq> dirty_set m \<union> meta_area (bmap m)" using calm_dirty [of "journal_area \<union> bm_blocks (bmap m)" m m'] c by (auto simp: meta_area_def)
  ultimately show ?thesis using assms unfolding stage_def meta_def meta_area_def by auto
qed

lemma meta_layout: "fs_layout m \<Longrightarrow> meta chk m m' \<Longrightarrow> fs_layout m' \<and> sb_btree_root (fs_sb m') = sb_btree_root (fs_sb m)"
proof -
  assume l: "fs_layout m" and k: "meta chk m m'"
  from k obtain bs where bs: "bmap m' = (bmap m)\<lparr>bm_dirty_blocks := bs\<rparr>" by (auto simp: meta_def)
  have "sb_data_start (fs_sb m') = sb_data_start (fs_sb m)" "sb_total_blocks (fs_sb m') = sb_total_blocks (fs_sb m)"
    "sb_btree_root (fs_sb m') = sb_btree_root (fs_sb m)"
    using k by (cases "fs_sb m", cases "fs_sb m'", simp add: meta_def sb_rest_def)+
  then show ?thesis using l meta_bitmap [OF bs] by (simp add: fs_layout_def)
qed

lemma represents_meta:
  assumes r: "represents h c n m M" and k: "meta (verify_node_checksum h) m m'"
  shows "represents h c n m' M"
proof -
  note p = represents_parts [OF r]
  from r obtain t pl bl where t: "index h n m t" and
    o: "\<forall>e \<in> set (idx_entries t). obj c (disk_key m) (bmap m) (view m) (dirty_set m) e (pl e) (bl e)" and
    u: "used_ok (bmap m) (idx_blocks t @ concat (map bl (idx_entries t)) @ pending_old_blocks m)" and
    M: "M = (\<lambda>k. map_option pl (find (\<lambda>e. e_hash e = k) (idx_entries t)))"
    unfolding represents_def by blast
  from k obtain bs where bs: "bmap m' = (bmap m)\<lparr>bm_dirty_blocks := bs\<rparr>" by (auto simp: meta_def)
  note b = meta_bitmap [OF bs]
  note sb = meta_layout [OF p(4) k]
  have data: "x \<notin> meta_area (bmap m)" if "x \<ge> bm_data_start (bmap m)" for x
    using that p(3,4) by (auto simp: meta_area_def fs_layout_def bm_inv_def sb_area_def journal_area_def bm_blocks_def format_consts)
  have v: "view m' x = view m x" "x \<in> dirty_set m' \<Longrightarrow> x \<in> dirty_set m" if "x \<ge> bm_data_start (bmap m)" for x
    using k data [OF that] by (auto simp: meta_def)
  have ge: "x \<ge> bm_data_start (bmap m)" if "x \<in> set (idx_blocks t) \<union> (\<Union>e \<in> set (idx_entries t). set (bl e))" for x
    using u that by (auto simp: used_ok_def)
  have "\<forall>e \<in> set (idx_entries t). obj c (disk_key m') (bmap m') (view m') (dirty_set m') e (pl e) (bl e)"
  proof
    fix e assume e: "e \<in> set (idx_entries t)"
    have dk: "disk_key m' = disk_key m" using k by (simp add: meta_def)
    show "obj c (disk_key m') (bmap m') (view m') (dirty_set m') e (pl e) (bl e)"
      unfolding dk by (rule obj_cong [OF bspec [OF o e] _ _ b(6)]) (use e ge v in blast)+
  qed
  moreover have "index h n m' t"
  proof (cases t)
    case (Some w)
    have "rep (verify_node_checksum h) (view m') w"
      by (rule rep_cong [of _ "view m"]) (use t ge v Some in \<open>auto simp: stored_def\<close>)
    then show ?thesis using t Some sb b(1) by (simp add: stored_def)
  qed (use t sb in simp)
  moreover have "used_ok (bmap m') (idx_blocks t @ concat (map bl (idx_entries t)) @ pending_old_blocks m')"
    using u k b by (simp add: used_ok_def meta_def)
  moreover have "fs_layout m'" using sb by simp
  moreover have "mounted m'" "cache_inv (verify_node_checksum h) m'" "bm_inv (bmap m')" using k p(1) by (auto simp: meta_def)
  ultimately show ?thesis using M unfolding represents_def by blast
qed

lemma stage_durable:
  assumes r: "represents h c n m M" and d: "durable_map h c n' m sb N" and s: "stage (verify_node_checksum h) m m'"
  shows "durable_map h c n' m' sb N"
proof -
  note p = represents_parts [OF r]
  let ?A = "journal_area \<union> bm_blocks (bmap m)"
  from s obtain bs where bs: "bmap m' = (bmap m)\<lparr>bm_dirty_blocks := bs\<rparr>" by (auto simp: meta_def stage_def)
  note b = meta_bitmap [OF bs]
  have A: "?A \<subseteq> {..<2 ^ 64}" using p(3) by (auto simp: journal_area_def bm_blocks_def bm_inv_def format_consts)
  show ?thesis
  proof (rule durable_map_transfer [OF d _ _ b(6)])
    fix x assume x: "x \<in> sb_area \<union> in_use (bmap m)" and sx: "at_rest m x"
    have nA: "x \<notin> ?A" using x sb_area_outside [OF p(4,3)] p(3,4)
      by (auto simp: in_use_def journal_area_def bm_blocks_def fs_layout_def bm_inv_def)
    have vx: "view m' x = view m x"
    proof (cases "x \<in> sb_area")
      case False
      then show ?thesis using s nA by (auto simp: stage_def meta_def meta_area_def)
    qed (use s in \<open>simp add: stage_def\<close>)
    have "at_rest m' x" by (rule settled_calm [OF p(2) sx vx, of ?A]) (use s A nA in \<open>auto simp: stage_def\<close>)
    then show "at_rest m' x \<and> view m' x = view m x" using vx by simp
  qed (use b(7) s in \<open>auto simp: stage_def meta_def\<close>)
qed


section \<open>Up to the barrier\<close>

lemma fs_of_jrnl:
  assumes "jrnl_io.more m' = jrnl_io.more (m :: 'a fs_io_scheme)"
  shows "fs_sb m' = fs_sb m" "pending_old_blocks m' = pending_old_blocks m" "mounted m' = mounted m" "disk_key m' = disk_key m"
    "fs_generation m' = fs_generation m" "commits_since_gc m' = commits_since_gc m"
  using assms by (cases m; cases m'; simp)+

lemma jrn_stage:
  assumes s: "jrn_step chk m m'" and i: "bm_inv (bmap m)" and l: "fs_layout m"
  shows "stage chk m m'"
proof -
  have mo: "jrnl_io.more m' = jrnl_io.more m" and bm: "bmap m' = bmap m" using s by (auto simp: jrn_step_def)
  show ?thesis
    by (rule stage_I [where bs = "bm_dirty_blocks (bmap m)"]) (use s i l fs_of_jrnl [OF mo] bm in \<open>auto simp: jrn_step_def\<close>)
qed

lemma sync_stage:
  assumes s: "sync_frame m m'" and i: "bm_inv (bmap m)" and l: "fs_layout m" and c: "cache_inv chk m'"
  shows "stage chk m m'"
proof -
  from s obtain bs where bs: "bmap m' = (bmap m)\<lparr>bm_dirty_blocks := bs\<rparr>" "length bs = length (bm_dirty_blocks (bmap m))"
    "\<forall>i < length bs. bs ! i \<longrightarrow> bm_dirty_blocks (bmap m) ! i" by (auto simp: sync_frame_def)
  have "True \<notin> set bs" if "True \<notin> set (bm_dirty_blocks (bmap m))"
    using bs(2,3) that by (metis (full_types) in_set_conv_nth)
  then have bi: "bm_inv (bmap m')" using i bs(2) meta_bitmap(1) [OF bs(1)] unfolding bm_inv_def bs(1) by auto
  have mo: "alloc_io.more m' = alloc_io.more m" using s by (simp add: sync_frame_def)
  show ?thesis
    by (rule stage_I [OF c bi bs(1)]) (use s l fs_of_alloc [OF mo] in \<open>auto simp: sync_frame_def\<close>)
qed

lemma quiet_stage:
  assumes "cache_inv chk m'" "view m' = view m" "\<And>B. quiet B m m'" "bm_inv (bmap m)" "fs_layout m"
  shows "stage chk m m'" "jrnl m' = jrnl m"
proof -
  have q: "bmap m' = bmap m" "jrnl m' = jrnl m" "jrnl_io.more m' = jrnl_io.more m" using quiet_jrnl [OF assms(3) [of UNIV]] by auto
  show "jrnl m' = jrnl m" by (rule q(2))
  have "jrn_step chk m m'" using assms(1,2,3) q unfolding jrn_step_def quiet_calm by auto
  then show "stage chk m m'" by (rule jrn_stage [OF _ assms(4,5)])
qed

lemma prepare_loop_heads:
  assumes "cache_inv chk m" and "j_head (jrnl m) < JOURNAL_BLOCKS"
  shows "wpE (prepare_loop fs)
    (\<lambda>_ m'. True) (\<lambda>e m'. j_head (jrnl m') < JOURNAL_BLOCKS \<and> j_seq (jrnl m') = j_seq (jrnl m) \<and> pending_frees (jrnl m') = pending_frees (jrnl m)) m"
  using assms
proof (induction fs arbitrary: m rule: prepare_loop.induct)
  case (1 fs)
  show ?case
  proof (cases "fs = []")
    case True
    then show ?thesis by (simp add: prepare_loop.simps wpE_ret)
  next
    case False
    let ?k = "min (length fs) MAX_JOURNAL_ENTRIES" and ?h = "j_head (jrnl m)"
    have area: "JOURNAL_START + ?h \<in> journal_area" using 1(3) by (simp add: journal_area_def META_END_def)
    have len: "length (journal_buf (j_seq (jrnl m)) (take ?k fs)) = BLOCK_SIZE" by (rule length_journal_buf) simp
    have "wpE (push_journal (take ?k fs))
      (\<lambda>_ m1. cache_inv chk m1 \<and> j_head (jrnl m1) < JOURNAL_BLOCKS \<and> j_seq (jrnl m1) = j_seq (jrnl m) \<and> pending_frees (jrnl m1) = pending_frees (jrnl m))
      (\<lambda>e m1. jrnl m1 = jrnl m) m"
      using journal_write [OF 1(2) area len] unfolding push_journal_def Let_def wpE_def bindE_def
      by (auto simp: jrn_step_def JOURNAL_BLOCKS_def split: sum.splits prod.splits)
    then show ?thesis
      unfolding prepare_loop.simps [of fs] using False
      apply (simp add: Let_def wpE_bind)
      apply (erule wpE_mono)
      subgoal for a m1 using 1(1) [OF False refl, of m1] by (auto elim: wpE_mono)
      subgoal using 1(3) by simp
      done
  qed
qed

lemma merge_frees_nonempty: "fs \<noteq> [] \<Longrightarrow> take journal_room (merge_frees fs) \<noteq> []"
proof -
  assume "fs \<noteq> []"
  then obtain x xs where s: "sort fs = x # xs" by (cases "sort fs") (metis length_0_conv length_sort, simp)
  have step: "merge_free x acc \<noteq> []" for x acc by (cases x) (auto simp: merge_free_def)
  have "acc \<noteq> [] \<Longrightarrow> fold merge_free ys acc \<noteq> []" for ys acc by (induction ys arbitrary: acc) (auto simp: step)
  then have "merge_frees fs \<noteq> []" using step by (simp add: merge_frees_def s)
  then show ?thesis by (simp add: journal_room_def JOURNAL_BLOCKS_def MAX_JOURNAL_ENTRIES_val)
qed

lemma distinct_journal_pos: "n \<le> JOURNAL_BLOCKS \<Longrightarrow> distinct (map (journal_pos h) [0..<n])"
  using journal_pos_inj [of _ _ h] by (force simp: distinct_map inj_on_def)

lemma prepare_ready:
  assumes inv: "cache_inv chk m" and h: "heads_ok (jrnl m)"
  shows "wpE prepare (\<lambda>_ m'. jrn_step chk m m' \<and> heads_ok (jrnl m') \<and> pending_frees (jrnl m') = []) (\<lambda>e m'. jrn_step chk m m' \<and> heads_ok (jrnl m')) m"
proof (cases "pending_frees (jrnl m) = []")
  case True
  then show ?thesis using h jrn_step_refl [OF inv] by (simp add: prepare_idle wpE_def)
next
  case False
  let ?fs = "take journal_room (merge_frees (pending_frees (jrnl m)))"
  let ?j = "(jrnl m)\<lparr>j_seq := wrap64 (j_seq (jrnl m) + 1), uncommitted_blocks := [], pending_frees := ?fs\<rparr>"
  have hd: "j_head (jrnl m) < JOURNAL_BLOCKS" using h by (simp add: heads_ok_def)
  have "wpE prepare (\<lambda>_ m'. True) (\<lambda>e m'. heads_ok (jrnl m')) m"
    using prepare_loop_heads [of chk "m\<lparr>jrnl := ?j\<rparr>" ?fs] inv hd merge_frees_nonempty [OF False] False
    unfolding prepare_def Let_def wpE_def bindE_def by (auto simp: heads_ok_def split: sum.splits prod.splits)
  moreover have "distinct (map (journal_pos (j_head (jrnl m))) [0..<length (chunks ?fs)])"
    by (rule distinct_journal_pos) (rule chunks_room, simp)
  ultimately show ?thesis
    using prepare_spec [OF inv hd False refl] unfolding wpE_def
    by (auto simp: heads_ok_def JOURNAL_BLOCKS_def split: sum.splits prod.splits)
qed


definition commit_barrier :: "('a fs_io_scheme, fs_error, unit) op" where
  "commit_barrier =
     bindE prepare (\<lambda>_.
     bindE (modify (\<lambda>m. m\<lparr>fs_sb := (fs_sb m)\<lparr>sb_journal_seq := j_seq (jrnl m), sb_journal_head := j_head (jrnl m)\<rparr>\<rparr>)) (\<lambda>_.
     bindE bm_sync (\<lambda>_.
     bindE cache_flush (\<lambda>_. on_dev flush_device))))"

lemma commit_split:
  "commit h old_blocks = bindE commit_barrier (\<lambda>_. bindE (write_sb h) (\<lambda>_. bindE finalize (\<lambda>_. bindE cache_flush (\<lambda>_.
     modify (fold free_old_block old_blocks)))))"
  unfolding commit_def commit_barrier_def by (rule ext) (simp add: bindE_def split: sum.splits prod.splits)

lemma ready_jrn:
  assumes "commit_ready m" and "jrn_step chk m m'" and "heads_ok (jrnl m')" and l: "fs_layout m"
  shows "commit_ready m'"
proof -
  have mo: "jrnl_io.more m' = jrnl_io.more m" and bm: "bmap m' = bmap m" and v: "\<And>b. b \<notin> journal_area \<Longrightarrow> view m' b = view m b"
    using assms(2) by (auto simp: jrn_step_def)
  have "view m' (bm_start (bmap m) + i) = view m (bm_start (bmap m) + i)" for i
    by (rule v) (use l in \<open>auto simp: fs_layout_def journal_area_def\<close>)
  then show ?thesis using assms(1,3) fs_of_jrnl(1) [OF mo] bm by (simp add: commit_ready_def bm_synced_def)
qed

lemma ready_modify:
  assumes "commit_ready m"
  shows "commit_ready (m\<lparr>fs_sb := (fs_sb m)\<lparr>sb_journal_seq := j_seq (jrnl m), sb_journal_head := j_head (jrnl m)\<rparr>\<rparr>)"
  using assms by (auto simp: commit_ready_def sb_good_def sb_ok_def heads_ok_def JOURNAL_BLOCKS_def)

lemma flush_device_cases:
  "on_dev flush_device m = (r, m') \<Longrightarrow>
     r = Inr () \<and> m' = m\<lparr>dev := (next_call (dev m))\<lparr>durable := media (dev m), unflushed := []\<rparr>\<rparr> \<or> (\<exists>e. r = Inl e \<and> m' = m\<lparr>dev := next_call (dev m)\<rparr>)"
  by (auto simp: on_dev_def flush_device_def drv_flush_def tick_def next_call_def split: outcome.splits)

lemma dev_same_view:
  assumes "media d = media (dev m)" "partition_offset d = partition_offset (dev m)"
  shows "view (m\<lparr>dev := d\<rparr>) = view m" "cache_inv chk (m\<lparr>dev := d\<rparr>) = cache_inv chk m"
  using assms by (simp_all add: io_fields fun_eq_iff actual_def split: option.split)

lemma next_call_more [simp]:
  "partition_size (next_call d) = partition_size d" "nvme_available (next_call d) = nvme_available d" "drv_block_count (next_call d) = drv_block_count d"
  "actual (next_call d) = actual d"
  by (simp_all add: next_call_def actual_def fun_eq_iff)

lemma calm_next_call [simp]: "calm B m (m\<lparr>dev := next_call (dev m)\<rparr>)"
  by (auto simp: calm_def same_disk_def)

definition cleared :: "(bytes \<Rightarrow> bool) \<Rightarrow> 'a fs_io_scheme \<Rightarrow> 'a fs_io_scheme \<Rightarrow> bool" where
  "cleared chk m m' \<longleftrightarrow> meta chk m m' \<and> (\<forall>b \<in> sb_area. view m' b = view m b) \<and> commit_ready m' \<and> pending_frees (jrnl m') = [] \<and>
     dirty_set m' = {} \<and> unflushed (dev m') = [] \<and> (\<forall>b < 2 ^ 64. durable (dev m') (actual (dev m') b) = view m' b)"

lemma flush_stage:
  assumes c: "cache_inv chk m" and s: "stage chk m0 m" and r: "commit_ready m" and b: "bm_inv (bmap m)" and l: "fs_layout m"
  shows "wpE cache_flush (\<lambda>_ m'. stage chk m0 m' \<and> commit_ready m' \<and> jrnl m' = jrnl m \<and> dirty_set m' = {} \<and>
       (\<forall>b < 2 ^ 64. media (dev m') (actual (dev m') b) = view m' b))
    (\<lambda>e m'. stage chk m0 m' \<and> commit_ready m') m"
proof -
  have "stage chk m0 m' \<and> commit_ready m' \<and> jrnl m' = jrnl m" if f: "cache_flush m = (x, m')" for x m'
  proof -
    note sp = cache_flush_spec [OF c f]
    note q = quiet_stage [OF sp(1,2,3) b l]
    have "jrn_step chk m m'" using sp quiet_jrnl [OF sp(3) [of UNIV]] unfolding jrn_step_def quiet_calm by auto
    then show ?thesis using ready_jrn [OF r _ _ l] q stage_trans [OF s] r by (auto simp: commit_ready_def)
  qed
  then show ?thesis using cache_flush_spec [OF c] by (intro wpE_I) (auto simp: split: prod.splits)
qed

lemma barrier_flush:
  assumes c: "cache_inv chk m" and s: "stage chk m0 m" and r: "commit_ready m" and j: "pending_frees (jrnl m) = []" and b: "bm_inv (bmap m)" and l: "fs_layout m"
    and l0: "fs_layout m0"
  shows "wpE (bindE cache_flush (\<lambda>_. on_dev flush_device)) (\<lambda>_ m'. cleared chk m0 m') (\<lambda>e m'. stage chk m0 m' \<and> commit_ready m') m"
  unfolding wpE_bind
proof (rule wpE_mono [OF flush_stage [OF c s r b l]], goal_cases)
  case (1 u m1)
  show ?case
  proof (rule wpE_I, goal_cases)
    case f: (1 a m')
    have d: "m' = m1\<lparr>dev := (next_call (dev m1))\<lparr>durable := media (dev m1), unflushed := []\<rparr>\<rparr>" using flush_device_cases [OF f] by auto
    have v: "view m' = view m1" "cache_inv chk m' = cache_inv chk m1" unfolding d by (rule dev_same_view; simp)+
    have "meta chk m0 m'" using 1 v unfolding stage_def meta_def by (simp add: d)
    moreover have "commit_ready m'" using 1 v by (auto simp: d commit_ready_def)
    ultimately show ?case using 1 v j unfolding cleared_def by (auto simp: d stage_def actual_def)
  next
    case f: (2 e m')
    have d: "m' = m1\<lparr>dev := next_call (dev m1)\<rparr>" using flush_device_cases [OF f] by auto
    have v: "view m' = view m1" "cache_inv chk m' = cache_inv chk m1" unfolding d by (rule dev_same_view; simp)+
    have "stage chk m1 m'"
      by (rule stage_I [where bs = "bm_dirty_blocks (bmap m1)"]) (use 1 v meta_layout [OF l0, of chk m1] in \<open>auto simp: stage_def meta_def d\<close>)
    moreover have "commit_ready m'" using 1 v by (auto simp: d commit_ready_def)
    ultimately show ?case using 1 stage_trans by blast
  qed
qed simp

lemma barrier_spec:
  assumes r: "represents h c n m M" and cr: "commit_ready m"
  shows "wpE commit_barrier (\<lambda>_ m'. cleared (verify_node_checksum h) m m') (\<lambda>e m'. stage (verify_node_checksum h) m m' \<and> commit_ready m') m"
proof -
  let ?chk = "verify_node_checksum h"
  note p = represents_parts [OF r]
  have hk: "heads_ok (jrnl m)" using cr by (simp add: commit_ready_def)
  show ?thesis
    unfolding commit_barrier_def wpE_bind wpE_modify
  proof (rule wpE_mono [OF prepare_ready [OF p(2) hk]], goal_cases)
    case (1 u m1)
    then have j: "jrn_step ?chk m m1" "heads_ok (jrnl m1)" "pending_frees (jrnl m1) = []" by auto
    define m2 where "m2 = m1\<lparr>fs_sb := (fs_sb m1)\<lparr>sb_journal_seq := j_seq (jrnl m1), sb_journal_head := j_head (jrnl m1)\<rparr>\<rparr>"
    have cr2: "commit_ready m2" unfolding m2_def by (rule ready_modify [OF ready_jrn [OF cr j(1,2) p(4)]])
    have s1: "stage ?chk m m1" by (rule jrn_stage [OF j(1) p(3,4)])
    then have s2: "stage ?chk m m2" by (auto simp: m2_def stage_def meta_def sb_rest_def)
    then have p2: "cache_inv ?chk m2" "bm_inv (bmap m2)" "fs_layout m2" using meta_layout [OF p(4)] by (auto simp: stage_def meta_def)
    have sy: "bm_synced (view m2) (bmap m2)" using cr2 by (simp add: commit_ready_def)
    have keep: "stage ?chk m m3 \<and> commit_ready m3 \<and> pending_frees (jrnl m3) = [] \<and> cache_inv ?chk m3 \<and> bm_inv (bmap m3) \<and> fs_layout m3"
      if c: "cache_inv ?chk m3" and f: "sync_frame m2 m3" and y: "bm_synced (view m3) (bmap m3)" for m3
    proof -
      have s3: "stage ?chk m m3" by (rule stage_trans [OF s2 sync_stage [OF f p2(2,3) c]])
      have mo: "alloc_io.more m3 = alloc_io.more m2" using f by (simp add: sync_frame_def)
      have j3: "pending_frees (jrnl m2) = []" using j(3) by (simp add: m2_def)
      have "fs_layout m3" "bm_inv (bmap m3)" using s3 meta_layout [OF p(4)] by (auto simp: stage_def meta_def)
      then show ?thesis using s3 y c cr2 j3 fs_of_alloc [OF mo] by (simp add: commit_ready_def)
    qed
    show ?case
      unfolding m2_def [symmetric]
    proof (rule wpE_mono [OF bm_sync_spec [OF p2(1,2) sy]], goal_cases)
      case (1 u m3)
      then have "bm_synced (view m3) (bmap m3)" by (simp add: bm_on_disk_def bm_synced_def)
      then have k: "stage ?chk m m3 \<and> commit_ready m3 \<and> pending_frees (jrnl m3) = [] \<and> cache_inv ?chk m3 \<and> bm_inv (bmap m3) \<and> fs_layout m3"
        using keep 1 by blast
      from barrier_flush [of ?chk m3 m] k p(4) show ?case by (simp add: wpE_bind)
    qed (use keep in blast)
  qed (use jrn_stage [OF _ p(3,4)] ready_jrn [OF cr _ _ p(4)] in blast)
qed


section \<open>The superblock write\<close>

lemma represents_disk:
  assumes r: "represents h c n m M"
  shows "\<exists>U. disk_map h c n (disk_key m) (bmap m) (view m) (sb_btree_root (fs_sb m)) U M \<and> U \<subseteq> in_use (bmap m)"
proof -
  from r obtain t pl bl where t: "index h n m t" and
    o: "\<forall>e \<in> set (idx_entries t). obj c (disk_key m) (bmap m) (view m) (dirty_set m) e (pl e) (bl e)" and
    u: "used_ok (bmap m) (idx_blocks t @ concat (map bl (idx_entries t)) @ pending_old_blocks m)" and
    M: "M = (\<lambda>k. map_option pl (find (\<lambda>e. e_hash e = k) (idx_entries t)))"
    unfolding represents_def by blast
  have "\<forall>e \<in> set (idx_entries t). obj c (disk_key m) (bmap m) (view m) {} e (pl e) (bl e)"
    using o obj_cong [of c "disk_key m" "bmap m" "view m" "dirty_set m" _ _ _ "view m" "{}"] by auto
  moreover have "tree_at h n (view m) (sb_btree_root (fs_sb m)) t" using t by (cases t) (auto simp: stored_def)
  moreover have "set (idx_blocks t @ concat (map bl (idx_entries t))) \<subseteq> in_use (bmap m)" using u by (auto simp: used_ok_def in_use_def)
  moreover have "distinct (idx_blocks t @ concat (map bl (idx_entries t)))" using u by (auto simp: used_ok_def)
  ultimately show ?thesis using M unfolding disk_map_def by blast
qed

lemma represents_durable:
  assumes r: "represents h c n m M" and s: "\<forall>b \<in> sb_area \<union> in_use (bmap m). at_rest m b" and nw: "newest h (view m) = Some (fs_sb m)"
  shows "durable_map h c n m (fs_sb m) M"
  using represents_disk [OF r] s nw unfolding durable_map_def by blast

lemma in_use_bound: "bm_inv bm \<Longrightarrow> in_use bm \<subseteq> {..<2 ^ 64}"
  by (auto simp: in_use_def bm_inv_def)

lemma sb_area_bound: "sb_area \<subseteq> {..<2 ^ 64}"
  by (auto simp: sb_area_def format_consts)

lemma cleared_settled: "cleared chk m m' \<Longrightarrow> b < 2 ^ 64 \<Longrightarrow> at_rest m' b"
  by (simp add: cleared_def at_rest_def)

lemma data_outside:
  assumes "fs_layout m" and "bm_inv (bmap m)" and "bm_data_start (bmap m) \<le> b"
  shows "b \<notin> meta_area (bmap m)"
  using assms by (auto simp: meta_area_def fs_layout_def bm_inv_def sb_area_def journal_area_def bm_blocks_def format_consts)

lemma cleared_durable:
  assumes r: "represents h c n m M" and d: "durable_map h c n' m sb N" and s: "cleared (verify_node_checksum h) m m'"
  shows "durable_map h c n' m' sb N"
proof -
  note p = represents_parts [OF r]
  have k: "meta (verify_node_checksum h) m m'" using s by (simp add: cleared_def)
  then obtain bs where bs: "bmap m' = (bmap m)\<lparr>bm_dirty_blocks := bs\<rparr>" by (auto simp: meta_def)
  show ?thesis
  proof (rule durable_map_transfer [OF d _ _ meta_bitmap(6) [OF bs]])
    fix b assume b: "b \<in> sb_area \<union> in_use (bmap m)"
    have "at_rest m' b" by (rule cleared_settled [OF s]) (use b sb_area_bound in_use_bound [OF p(3)] in auto)
    moreover have "view m' b = view m b"
    proof (cases "b \<in> sb_area")
      case False
      then show ?thesis using b k data_outside [OF p(4,3)] by (auto simp: in_use_def meta_def)
    qed (use s in \<open>simp add: cleared_def\<close>)
    ultimately show "at_rest m' b \<and> view m' b = view m b" by simp
  qed (use k meta_bitmap(7) [OF bs] in \<open>auto simp: meta_def\<close>)
qed

text \<open>The two things a crash can show after a superblock write that failed.\<close>

definition old_or_new :: "(bytes \<Rightarrow> bytes) \<Rightarrow> ciphers \<Rightarrow> nat \<Rightarrow> nat \<Rightarrow> 'a fs_io_scheme \<Rightarrow> superblock \<Rightarrow> (bytes \<rightharpoonup> bytes) \<Rightarrow> (bytes \<rightharpoonup> bytes) \<Rightarrow> bool" where
  "old_or_new h c n n' m sb N M \<longleftrightarrow> (\<forall>img \<in> crash_images (dev m).
     recovers h c n' m (\<lambda>b. img (actual (dev m) b)) sb N \<or> recovers h c n m (\<lambda>b. img (actual (dev m) b)) (fs_sb m) M)"

lemma durable_old: "durable_map h c n' m sb N \<Longrightarrow> old_or_new h c n n' m sb N M"
  using durable_map_crash unfolding old_or_new_def by blast

lemma durable_new: "durable_map h c n m (fs_sb m) M \<Longrightarrow> old_or_new h c n n' m sb N M"
  using durable_map_crash unfolding old_or_new_def by blast

lemma set_checksum_idem:
  assumes "sb_ok sb" and "\<And>b. length (h b) = 32"
  shows "set_checksum h (set_checksum h sb) = set_checksum h sb"
  using set_checksum_ok(2) [OF assms] by (cases sb) (simp add: set_checksum_def)

lemma torn_superblock:
  fixes m :: "'a fs_io_scheme"
  assumes d: "durable_map h c n' m sb N" and U: "disk_map h c n (disk_key m) (bmap m) (view m) (sb_btree_root sb') U M" "U \<subseteq> {..<2 ^ 64} - sb_area"
    and s: "\<And>b. b < 2 ^ 64 \<Longrightarrow> at_rest m b" and u: "unflushed (dev m) = []" and slot: "slot \<in> sb_area" and nw: "newest h ((view m)(slot := buf)) = Some sb'"
    and m': "dev m' = put_media (actual (dev m) slot) buf (next_call (dev m))" "fs_sb m' = sb'" "disk_key m' = disk_key m" "bmap m' = bmap m"
  shows "old_or_new h c n n' m' sb N M"
  unfolding old_or_new_def
proof (intro ballI)
  fix img assume "img \<in> crash_images (dev m')"
  then have i: "img b = durable (dev m) b \<or> b = actual (dev m) slot \<and> img b = buf" for b
    using u by (simp add: crash_images_def m'(1) put_media_def)
  have act: "actual (dev m') = actual (dev m)" by (simp add: m'(1) put_media_def actual_def next_call_def fun_eq_iff)
  have dv: "durable (dev m) (actual (dev m) b) = view m b" if "b < 2 ^ 64" for b using s [OF that] by (simp add: at_rest_def)
  have slot64: "slot < 2 ^ 64" using slot sb_area_bound by auto
  from d obtain U0 where U0: "newest h (view m) = Some sb" "disk_map h c n' (disk_key m) (bmap m) (view m) (sb_btree_root sb) U0 N"
    "\<forall>b \<in> U0. at_rest m b" unfolding durable_map_def by blast
  show "recovers h c n' m' (\<lambda>b. img (actual (dev m') b)) sb N \<or> recovers h c n m' (\<lambda>b. img (actual (dev m') b)) (fs_sb m') M"
  proof (cases "img (actual (dev m) slot) = durable (dev m) (actual (dev m) slot)")
    case True
    then have "img x = durable (dev m) x" for x using i [of x] by auto
    then have "recovers h c n' m' (\<lambda>b. img (actual (dev m') b)) sb N"
      unfolding act by (intro recovers_cong [OF U0(1,2) _ m'(3)]) (use U0(3) sb_area_bound dv m'(4) in \<open>auto simp: at_rest_def\<close>)
    then show ?thesis ..
  next
    case False
    have "img (actual (dev m) b) = ((view m)(slot := buf)) b" if b: "b < 2 ^ 64" for b
      using i [of "actual (dev m) b"] actual_inj [OF b slot64, of "dev m"] dv [OF b] False by (auto split: if_splits)
    moreover have "disk_map h c n (disk_key m) (bmap m) ((view m)(slot := buf)) (sb_btree_root sb') U M"
      by (rule disk_map_cong [OF U(1) _ refl]) (use U(2) slot in auto)
    ultimately have "recovers h c n m' (\<lambda>b. img (actual (dev m') b)) sb' M"
      unfolding act by (intro recovers_cong [OF nw _ _ m'(3)]) (use U(2) sb_area_bound m'(4) in auto)
    then show ?thesis unfolding m'(2) ..
  qed
qed


lemma fs_of_io:
  assumes "io.more m' = io.more (m :: 'a fs_io_scheme)"
  shows "bmap m' = bmap m" "jrnl m' = jrnl m" "fs_sb m' = fs_sb m" "disk_key m' = disk_key m" "mounted m' = mounted m"
    "pending_old_blocks m' = pending_old_blocks m" "fs_generation m' = fs_generation m"
  using assms by (cases m; cases m'; simp)+

lemma in_use_data: "in_use bm \<subseteq> {bm_data_start bm..}"
  by (auto simp: in_use_def)

lemma write_sb_spec:
  assumes r: "represents h c n m0 M" and d: "durable_map h c n' m0 sb0 N" and cl: "cleared (verify_node_checksum h) m0 m"
    and h: "\<And>b. length (h b) = 32" and gen: "sb_generation sb0 < sb_generation (fs_sb m)"
  shows "wpE (write_sb h)
    (\<lambda>_ m'. meta (verify_node_checksum h) m0 m' \<and> commit_ready m' \<and> pending_frees (jrnl m') = [] \<and> (\<forall>b < 2 ^ 64. at_rest m' b) \<and> newest h (view m') = Some (fs_sb m') \<and>
       (\<forall>b. b \<notin> sb_area \<longrightarrow> view m' b = view m b) \<and> bmap m' = bmap m \<and> jrnl m' = jrnl m \<and> fs_sb m' = set_checksum h (fs_sb m))
    (\<lambda>e m'. meta (verify_node_checksum h) m0 m' \<and> commit_ready m' \<and> old_or_new h c n n' m' sb0 N M) m"
proof -
  let ?chk = "verify_node_checksum h" and ?sb = "set_checksum h (fs_sb m)"
  let ?m = "m\<lparr>fs_sb := ?sb\<rparr>" and ?slot = "SUPERBLOCK_START + sb_generation ?sb mod SUPERBLOCK_SLOTS"
  have mt: "meta ?chk m0 m" and cr: "commit_ready m" and dirty: "dirty_set m = {}" and uf: "unflushed (dev m) = []"
    and pf: "pending_frees (jrnl m) = []" using cl by (auto simp: cleared_def)
  note rm = represents_meta [OF r mt]
  note p = represents_parts [OF rm]
  have ok: "sb_ok (fs_sb m)" "sb_ok ?sb" using cr set_checksum_ok(1) [OF _ h] by (auto simp: commit_ready_def sb_good_def)
  have good: "sb_good ?sb" using cr ok(2) by (simp add: commit_ready_def sb_good_def set_checksum_def)
  have valid: "is_valid h ?sb" using good set_checksum_ok(2) [OF ok(1) h] by (simp add: is_valid_def sb_good_def)
  have idem: "set_checksum h ?sb = ?sb" by (rule set_checksum_idem [OF ok(1) h])
  have slot: "?slot \<in> sb_area" "?slot < 2 ^ 64" by (simp_all add: sb_area_def format_consts)
  have dm: "durable_map h c n' m sb0 N" by (rule cleared_durable [OF r d cl])
  then have "newest h (view m) = Some sb0" by (simp add: durable_map_def)
  then have nw: "newest h ((view m)(?slot := sb_bytes ?sb)) = Some ?sb"
    by (rule newest_update [OF _ ok(2) valid _ slot(1)]) (use gen in \<open>simp add: set_checksum_def\<close>)
  have clean: "view ?m ?slot = media (dev ?m) (actual (dev ?m) ?slot)" using clean_media [OF p(2), of ?slot] dirty slot(2) by simp
  have at_rest: "at_rest m b" if "b < 2 ^ 64" for b by (rule cleared_settled [OF cl that])
  from represents_disk [OF rm] obtain U where U: "disk_map h c n (disk_key m) (bmap m) (view m) (sb_btree_root (fs_sb m)) U M" "U \<subseteq> in_use (bmap m)" by blast
  have Us: "U \<subseteq> {..<2 ^ 64} - sb_area" using U(2) in_use_bound [OF p(3)] sb_area_outside [OF p(4,3)] in_use_data [of "bmap m"] by blast
  have rt: "sb_btree_root ?sb = sb_btree_root (fs_sb m)" by (simp add: set_checksum_def)
  have out: "\<exists>x m'. write_next_durable h ?sb ?m = (x, m') \<and> write_sb h m = (case x of Inl e \<Rightarrow> Inl e | Inr _ \<Rightarrow> Inr (), m')"
    by (cases "write_next_durable h ?sb ?m") (auto simp: write_sb_def bindE_def upd_sb_def modify_def gets_def retE_def split: sum.splits)
  then obtain x m' where w: "write_next_durable h ?sb ?m = (x, m')" "write_sb h m = (case x of Inl e \<Rightarrow> Inl e | Inr _ \<Rightarrow> Inr (), m')" by blast
  have res: "cache_inv ?chk m' \<and> io.more m' = io.more ?m \<and> dirty_set m' \<subseteq> dirty_set ?m \<and>
    ((\<exists>sb'. x = Inr (?slot, sb') \<and> sb' = ?sb \<and> view m' = (view m)(?slot := sb_bytes sb') \<and>
        dev m' = put_durable (actual (dev m) ?slot) (sb_bytes sb') (next_call (dev m))) \<or>
     (\<exists>e. x = Inl e \<and> view m' = view m \<and> dev m' = next_call (dev m)) \<or>
     (\<exists>e. x = Inl e \<and> view m' = (view m)(?slot := sb_bytes ?sb) \<and>
        dev m' = put_media (actual (dev m) ?slot) (sb_bytes ?sb) (next_call (dev m))))"
    using write_next_durable_result [OF _ ok(2) h w(1) refl clean] p(2) idem by simp
  then have mo: "io.more m' = io.more ?m" and ci: "cache_inv ?chk m'" and dr: "dirty_set m' \<subseteq> dirty_set m" by simp_all
  have f: "bmap m' = bmap m" "jrnl m' = jrnl m" "fs_sb m' = ?sb" "disk_key m' = disk_key m" "mounted m' = mounted m"
    "pending_old_blocks m' = pending_old_blocks m" "fs_generation m' = fs_generation m" "dirty_set m' = {}" "cache_inv ?chk m'"
    using fs_of_io [OF mo] ci dr dirty by simp_all
  have v: "view m' b = view m b" if "b \<noteq> ?slot" for b using res that by auto
  have va: "view m' b = view m b" if "b \<notin> sb_area" for b by (rule v) (use that slot(1) in blast)
  have "meta ?chk m m'"
    unfolding meta_def using f p(3) va by (auto simp: meta_area_def set_checksum_def sb_rest_def intro: exI [of _ "bm_dirty_blocks (bmap m)"])
  then have mt': "meta ?chk m0 m'" by (rule meta_trans [OF mt])
  have "bm_synced (view m') (bmap m')"
  proof -
    have "view m' (bm_start (bmap m) + i) = view m (bm_start (bmap m) + i)" for i
      by (rule v) (use p(4) in \<open>auto simp: fs_layout_def format_consts\<close>)
    then show ?thesis using cr f(1) by (simp add: commit_ready_def bm_synced_def)
  qed
  then have cr': "commit_ready m'" using cr f good by (simp add: commit_ready_def)
  consider (wrote) "x = Inr (?slot, ?sb)" "view m' = (view m)(?slot := sb_bytes ?sb)" "dev m' = put_durable (actual (dev m) ?slot) (sb_bytes ?sb) (next_call (dev m))"
    | (lost) e where "x = Inl e" "view m' = view m" "dev m' = next_call (dev m)"
    | (torn) e where "x = Inl e" "dev m' = put_media (actual (dev m) ?slot) (sb_bytes ?sb) (next_call (dev m))"
    using res by blast
  then show ?thesis
  proof cases
    case wrote
    have "at_rest m' b" if "b < 2 ^ 64" for b
      using at_rest [OF that] wrote f(8) uf actual_inj [OF that slot(2), of "dev m"]
      by (auto simp: at_rest_def put_durable_def actual_def next_call_def)
    then show ?thesis using w(2) wrote mt' cr' pf f(1,2,3) nw va by (simp add: wpE_def)
  next
    case lost
    have st: "at_rest m' b" if "at_rest m b" for b using that lost(2,3) f(8) uf by (simp add: at_rest_def)
    have "durable_map h c n' m' sb0 N"
      by (rule durable_map_transfer [OF dm]) (use st lost(2) f in simp_all)
    then show ?thesis using w(2) lost(1) mt' cr' durable_old by (auto simp: wpE_def)
  next
    case torn
    have "old_or_new h c n n' m' sb0 N M"
      by (rule torn_superblock [OF dm U(1) [folded rt] Us at_rest uf slot(1) nw torn(2) f(3,4,1)])
    then show ?thesis using w(2) torn(1) mt' cr' by (simp add: wpE_def)
  qed
qed


section \<open>After the superblock\<close>

definition published :: "(bytes \<Rightarrow> bytes) \<Rightarrow> 'a fs_io_scheme \<Rightarrow> 'a fs_io_scheme \<Rightarrow> bool" where
  "published h m0 m \<longleftrightarrow> meta (verify_node_checksum h) m0 m \<and> commit_ready m \<and>
     (\<forall>b < 2 ^ 64. b \<notin> journal_area \<longrightarrow> at_rest m b) \<and> newest h (view m) = Some (fs_sb m)"

lemma journal_outside: "sb_area \<inter> journal_area = {}" "journal_area \<subseteq> {..<2 ^ 64}"
  by (auto simp: sb_area_def journal_area_def format_consts)

lemma published_jrn:
  assumes r: "represents h c n m0 M" and q: "published h m0 m" and j: "jrn_step (verify_node_checksum h) m m'" and k: "heads_ok (jrnl m')"
  shows "published h m0 m'" "fs_sb m' = fs_sb m"
proof -
  note p = represents_parts [OF represents_meta [OF r]]
  have mt: "meta (verify_node_checksum h) m0 m" and cr: "commit_ready m" using q by (auto simp: published_def)
  note p = represents_parts [OF represents_meta [OF r mt]]
  have mo: "jrnl_io.more m' = jrnl_io.more m" and v: "\<And>b. b \<notin> journal_area \<Longrightarrow> view m' b = view m b"
    and cl: "\<And>B. journal_area \<subseteq> B \<Longrightarrow> calm B m m'" using j by (auto simp: jrn_step_def)
  show sb: "fs_sb m' = fs_sb m" by (rule fs_of_jrnl(1) [OF mo])
  have "meta (verify_node_checksum h) m0 m'" using meta_trans [OF mt] jrn_stage [OF j p(3,4)] by (simp add: stage_def)
  moreover have "at_rest m' b" if "b < 2 ^ 64" "b \<notin> journal_area" for b
    by (rule settled_calm [OF p(2) _ v [OF that(2)] cl]) (use that q journal_outside(2) in \<open>auto simp: published_def\<close>)
  moreover have "newest h (view m') = newest h (view m)" by (rule newest_cong, rule v) (use journal_outside(1) in blast)
  ultimately show "published h m0 m'" using ready_jrn [OF cr j k p(4)] q sb by (simp add: published_def)
qed

lemma published_settled:
  assumes "published h m0 m" and p: "fs_layout m" "bm_inv (bmap m)" and b: "b \<in> sb_area \<union> in_use (bmap m)"
  shows "at_rest m b"
proof -
  have "b < 2 ^ 64 \<and> b \<notin> journal_area"
    using b sb_area_bound in_use_bound [OF p(2)] journal_outside(1) data_outside [OF p] in_use_data [of "bmap m"]
    by (auto simp: meta_area_def)
  then show ?thesis using assms(1) by (simp add: published_def)
qed

lemma published_durable:
  assumes r: "represents h c n m0 M" and q: "published h m0 m"
  shows "represents h c n m M" "durable_map h c n m (fs_sb m) M"
proof -
  have mt: "meta (verify_node_checksum h) m0 m" using q by (auto simp: published_def)
  show rm: "represents h c n m M" by (rule represents_meta [OF r mt])
  note p = represents_parts [OF rm]
  show "durable_map h c n m (fs_sb m) M"
    by (rule represents_durable [OF rm]) (use published_settled [OF q p(4,3)] q in \<open>auto simp: published_def\<close>)
qed

lemma meta_pending: "meta chk m m' \<Longrightarrow> meta chk (m\<lparr>pending_old_blocks := ps\<rparr>) (m'\<lparr>pending_old_blocks := ps\<rparr>)"
  by (auto simp: meta_def)

lemma represents_freed:
  assumes r: "represents h c n (m\<lparr>pending_old_blocks := ps\<rparr>) M" and e: "pending_old_blocks m = []"
    and f: "freed_all (verify_node_checksum h) (set ps) m m'"
  shows "represents h c n m' M"
proof -
  note p = represents_parts [OF r]
  from r obtain t pl bl where t: "index h n (m\<lparr>pending_old_blocks := ps\<rparr>) t" and
    o: "\<forall>e \<in> set (idx_entries t). obj c (disk_key m) (bmap m) (view m) (dirty_set m) e (pl e) (bl e)" and
    u: "used_ok (bmap m) (idx_blocks t @ concat (map bl (idx_entries t)) @ ps)" and
    M: "M = (\<lambda>k. map_option pl (find (\<lambda>e. e_hash e = k) (idx_entries t)))"
    unfolding represents_def by auto
  have tr: "tracks (bmap m) (bmap m')" and mo: "alloc_io.more m' = alloc_io.more m" and fr: "free_blocks (bmap m') = free_blocks (bmap m) \<union> set ps"
    and v: "\<And>b. b \<notin> set ps \<Longrightarrow> view m' b = view m b" and ci: "cache_inv (verify_node_checksum h) m'" "bm_inv (bmap m')" and cl: "\<And>B. calm B m m'"
    using f by (auto simp: freed_all_def gives_back_def)
  note fs = fs_of_alloc [OF mo]
  have dt: "dirty_set m' \<subseteq> dirty_set m" using cl [of "dirty_set m"] by (simp add: calm_def)
  have np: "b \<notin> set ps" if "b \<in> set (idx_blocks t) \<union> (\<Union>e \<in> set (idx_entries t). set (bl e))" for b
    using u that by (auto simp: used_ok_def)
  have "\<forall>e \<in> set (idx_entries t). obj c (disk_key m') (bmap m') (view m') (dirty_set m') e (pl e) (bl e)"
  proof
    fix e assume e: "e \<in> set (idx_entries t)"
    show "obj c (disk_key m') (bmap m') (view m') (dirty_set m') e (pl e) (bl e)"
      unfolding fs(4) by (rule obj_cong [OF bspec [OF o e] _ _ good_extent_tracks [OF tr]]) (use e np v dt in blast)+
  qed
  moreover have "index h n m' t"
  proof (cases t)
    case (Some w)
    have "rep (verify_node_checksum h) (view m') w"
      by (rule rep_cong [of _ "view m"]) (use t np v Some in \<open>auto simp: stored_def\<close>)
    then show ?thesis using t np Some fr fs(1) by (auto simp: stored_def)
  qed (use t fs(1) in simp)
  moreover have "used_ok (bmap m') (idx_blocks t @ concat (map bl (idx_entries t)) @ pending_old_blocks m')"
    using u fs(2) e fr tracks_same [OF tr] by (auto simp: used_ok_def)
  moreover have "fs_layout m'"
  proof -
    have "bm_start (bmap m') = bm_start (bmap m)" using tr by (simp add: tracks_def same_layout_def)
    moreover have "set ps \<subseteq> {bm_data_start (bmap m)..}" using u by (auto simp: used_ok_def)
    ultimately show ?thesis using p(4) fs(1) fr tracks_same [OF tr] by (auto simp: fs_layout_def)
  qed
  moreover have "mounted m'" using p(1) fs(3) by simp
  ultimately show ?thesis using M ci unfolding represents_def by blast
qed

lemma published_freed:
  assumes r: "represents h c n (m0\<lparr>pending_old_blocks := ps\<rparr>) M" and e: "pending_old_blocks m0 = []" and q: "published h m0 m"
  shows "represents h c n (fold free_old_block ps m) M" "durable_map h c n (fold free_old_block ps m) (fs_sb m) M"
    "commit_ready (fold free_old_block ps m)" "set ps \<subseteq> free_blocks (bmap (fold free_old_block ps m))" "fs_sb (fold free_old_block ps m) = fs_sb m"
proof -
  let ?chk = "verify_node_checksum h" and ?m = "fold free_old_block ps m"
  have mt: "meta ?chk m0 m" and cr: "commit_ready m" using q by (auto simp: published_def)
  have rm: "represents h c n (m\<lparr>pending_old_blocks := ps\<rparr>) M" by (rule represents_meta [OF r meta_pending [OF mt]])
  have em: "pending_old_blocks m = []" using mt e by (simp add: meta_def)
  note p = represents_parts [OF rm, simplified]
  have lay: "fs_layout m" using p(4) by (simp add: fs_layout_def)
  have ps: "\<forall>b \<in> set ps. bm_data_start (bmap m) \<le> b \<and> b < bm_total (bmap m)" using rm by (auto simp: represents_def used_ok_def)
  have f: "freed_all ?chk (set ps) m ?m" by (rule free_old_blocks_spec [OF p(2,3) ps])
  show rf: "represents h c n ?m M" by (rule represents_freed [OF rm em f])
  have tr: "tracks (bmap m) (bmap ?m)" and mo: "alloc_io.more ?m = alloc_io.more m" and fr: "free_blocks (bmap ?m) = free_blocks (bmap m) \<union> set ps"
    and v: "\<And>b. b \<notin> set ps \<Longrightarrow> view ?m b = view m b" and cl: "\<And>B. calm B m ?m"
    using f by (auto simp: freed_all_def gives_back_def)
  note fs = fs_of_alloc [OF mo]
  show "set ps \<subseteq> free_blocks (bmap ?m)" using fr by blast
  show sb: "fs_sb ?m = fs_sb m" by (rule fs(1))
  have low: "b \<notin> set ps" if "b \<in> meta_area (bmap m)" for b using that ps data_outside [OF lay p(3)] by blast
  have "bm_synced (view ?m) (bmap m)"
  proof -
    have "view ?m (bm_start (bmap m) + i) = view m (bm_start (bmap m) + i)" if "i < bm_count (bmap m)" for i
      by (rule v, rule low) (use that in \<open>simp add: meta_area_def bm_blocks_def\<close>)
    then show ?thesis using cr by (simp add: commit_ready_def bm_synced_def)
  qed
  then have "bm_synced (view ?m) (bmap ?m)" by (rule bm_synced_tracks [OF p(3) tr])
  then show "commit_ready ?m" using cr fs by (simp add: commit_ready_def)
  have "at_rest ?m b" if "b \<in> sb_area \<union> in_use (bmap ?m)" for b
  proof -
    have iu: "in_use (bmap ?m) \<subseteq> in_use (bmap m)" "in_use (bmap ?m) \<inter> set ps = {}" using fr tracks_same [OF tr] by (auto simp: in_use_def)
    have "b \<notin> set ps" using that iu(2) low by (auto simp: meta_area_def)
    moreover have "at_rest m b" by (rule published_settled [OF q lay p(3)]) (use that iu(1) in blast)
    ultimately show ?thesis using settled_calm [OF p(2) _ v cl, of b "{}"] by auto
  qed
  moreover have "newest h (view ?m) = Some (fs_sb ?m)"
    using newest_cong [of "view ?m" "view m" h] v low q sb by (auto simp: published_def meta_area_def)
  ultimately show "durable_map h c n ?m (fs_sb m) M" using represents_durable [OF rf] sb by metis
qed


lemma commit_spec:
  assumes r: "represents h c n (m\<lparr>pending_old_blocks := ps\<rparr>) M" and e: "pending_old_blocks m = []" and r0: "represents h c n m M"
    and cr: "commit_ready m" and d: "durable_map h c n' m sb0 N"
    and h: "\<And>b. length (h b) = 32" and gen: "sb_generation sb0 < sb_generation (fs_sb m)"
  shows "wpE (commit h ps)
    (\<lambda>_ m'. represents h c n m' M \<and> durable_map h c n m' (fs_sb m') M \<and> commit_ready m' \<and> set ps \<subseteq> free_blocks (bmap m') \<and> sb_rest (fs_sb m') = sb_rest (fs_sb m) \<and> fs_generation m' = fs_generation m)
    (\<lambda>e m'. represents h c n m' M \<and> commit_ready m' \<and> old_or_new h c n n' m' sb0 N M) m"
proof -
  let ?chk = "verify_node_checksum h"
  have tail: "wpE (bindE finalize (\<lambda>_. bindE cache_flush (\<lambda>_. modify (fold free_old_block ps))))
      (\<lambda>_ m'. represents h c n m' M \<and> durable_map h c n m' (fs_sb m') M \<and> commit_ready m' \<and> set ps \<subseteq> free_blocks (bmap m') \<and> sb_rest (fs_sb m') = sb_rest (fs_sb m) \<and> fs_generation m' = fs_generation m)
      (\<lambda>e m'. represents h c n m' M \<and> commit_ready m' \<and> old_or_new h c n n' m' sb0 N M) m4"
    if q: "published h m m4" and pf: "pending_frees (jrnl m4) = []" for m4
  proof -
    have mt: "meta ?chk m m4" and hk: "heads_ok (jrnl m4)" using q by (auto simp: published_def commit_ready_def)
    note p = represents_parts [OF represents_meta [OF r0 mt]]
    have fail: "represents h c n m' M \<and> commit_ready m' \<and> old_or_new h c n n' m' sb0 N M" if "published h m m'" for m'
      using published_durable [OF r0 that] durable_new that by (auto simp: published_def)
    have ub: "set (uncommitted_blocks (jrnl m4)) \<subseteq> journal_area" "distinct (uncommitted_blocks (jrnl m4))"
      using hk pf by (auto simp: heads_ok_def)
    show ?thesis
      unfolding wpE_bind wpE_modify
    proof (rule wpE_mono [OF finalize_spec [OF p(2) ub]], goal_cases)
      case (1 u m5)
      have hk5: "heads_ok (jrnl m5)" using 1 hk by (simp add: heads_ok_def)
      have q5: "published h m m5" by (rule published_jrn [OF r0 q _ hk5]) (use 1 in simp)
      have mt5: "meta ?chk m m5" using q5 by (simp add: published_def)
      note p5 = represents_parts [OF represents_meta [OF r0 mt5]]
      have q6: "published h m m6" if f: "cache_flush m5 = (x, m6)" for x m6
      proof -
        note sp = cache_flush_spec [OF p5(2) f]
        have j: "jrn_step ?chk m5 m6" using sp quiet_jrnl [OF sp(3) [of UNIV]] unfolding jrn_step_def quiet_calm by auto
        show ?thesis by (rule published_jrn [OF r0 q5 j]) (use hk5 quiet_jrnl [OF sp(3) [of UNIV]] in simp)
      qed
      show ?case
      proof (rule wpE_I, goal_cases)
        case (1 a m6)
        note q = q6 [OF 1]
        have g6: "fs_generation m6 = fs_generation m" "sb_rest (fs_sb m6) = sb_rest (fs_sb m)" using q by (auto simp: published_def meta_def)
        have "alloc_io.more (fold free_old_block ps m6) = alloc_io.more m6"
        proof -
          have "meta ?chk m m6" using q by (simp add: published_def)
          note rm = represents_meta [OF r meta_pending [OF this, of ps]]
          have "freed_all ?chk (set ps) m6 (fold free_old_block ps m6)"
            by (rule free_old_blocks_spec) (use rm in \<open>auto simp: represents_def used_ok_def\<close>)
          then show ?thesis by (simp add: freed_all_def gives_back_def)
        qed
        then have "fs_generation (fold free_old_block ps m6) = fs_generation m6" by (rule fs_of_alloc(6))
        then show ?case using published_freed [OF r e q] g6 by simp
      next
        case (2 e m6)
        then show ?case using fail q6 by blast
      qed
    next
      case (2 e m5)
      then show ?case using fail published_jrn(1) [OF r0 q] hk by simp
    qed
  qed
  show ?thesis
    unfolding commit_split wpE_bind [of commit_barrier]
  proof (rule wpE_mono [OF barrier_spec [OF r0 cr]], goal_cases)
    case (1 u m3)
    have "sb_rest (fs_sb m3) = sb_rest (fs_sb m)" using 1 by (simp add: cleared_def meta_def)
    then have g3: "sb_generation (fs_sb m3) = sb_generation (fs_sb m)" by (cases "fs_sb m", cases "fs_sb m3") (simp add: sb_rest_def)
    show ?case
      unfolding wpE_bind [of "write_sb h"]
    proof (rule wpE_mono [OF write_sb_spec [OF r0 d 1 h]], goal_cases)
      case 1
      show ?case using gen g3 by simp
    next
      case (2 u m4)
      then show ?case by (intro tail) (auto simp: published_def)
    qed (use represents_meta [OF r0] in blast)
  next
    case (2 e m3)
    then have s: "stage ?chk m m3" "commit_ready m3" by auto
    have "meta ?chk m m3" using s(1) by (simp add: stage_def)
    then show ?case using represents_meta [OF r0] s(2) durable_old [OF stage_durable [OF r0 d s(1)]] by blast
  qed
qed


section \<open>Committing a root\<close>

lemma index_cong: "sb_btree_root (fs_sb m') = sb_btree_root (fs_sb m) \<Longrightarrow> view m' = view m \<Longrightarrow> bmap m' = bmap m \<Longrightarrow> index h n m' t = index h n m t"
  by (cases t) (simp_all add: stored_def)

lemma represents_cong:
  assumes "view m' = view m" "dirty_set m' = dirty_set m" "bmap m' = bmap m" "disk_key m' = disk_key m" "mounted m' = mounted m"
    "pending_old_blocks m' = pending_old_blocks m" "cache_inv (verify_node_checksum h) m' = cache_inv (verify_node_checksum h) m"
    "sb_btree_root (fs_sb m') = sb_btree_root (fs_sb m)" "sb_data_start (fs_sb m') = sb_data_start (fs_sb m)"
    "sb_total_blocks (fs_sb m') = sb_total_blocks (fs_sb m)"
  shows "represents h c n m' M = represents h c n m M"
  using assms index_cong [OF assms(8,1,3)] by (simp add: represents_def fs_layout_def)

lemma represents_no_pending:
  assumes "represents h c n m M"
  shows "represents h c n (m\<lparr>pending_old_blocks := []\<rparr>) M"
proof -
  have "index h n (m\<lparr>pending_old_blocks := []\<rparr>) t = index h n m t" for t by (rule index_cong) simp_all
  moreover have "used_ok bm (xs @ ys @ zs) \<Longrightarrow> used_ok bm (xs @ ys)" for bm xs ys zs by (auto simp: used_ok_def)
  ultimately show ?thesis using assms unfolding represents_def fs_layout_def by simp blast
qed

lemma durable_map_cong:
  assumes "view m' = view m" "dirty_set m' = dirty_set m" "bmap m' = bmap m" "disk_key m' = disk_key m" "dev m' = dev m"
  shows "durable_map h c n m' sb M = durable_map h c n m sb M"
  using assms by (simp add: durable_map_def at_rest_def)

lemma record_frees: "pending_frees (fold (\<lambda>b. record_free b 1) ps j) = pending_frees j @ map (\<lambda>b. (b, 1)) ps"
    "j_head (fold (\<lambda>b. record_free b 1) ps j) = j_head j" "j_seq (fold (\<lambda>b. record_free b 1) ps j) = j_seq j"
    "uncommitted_blocks (fold (\<lambda>b. record_free b 1) ps j) = uncommitted_blocks j"
  by (induction ps arbitrary: j) (auto simp: record_free_def)

lemma dirty_jrnl [simp]: "dirty_set (m\<lparr>jrnl := x\<rparr>) = dirty_set m"
  by (simp add: dirty_set_def)

definition commit_root_state :: "bytes \<Rightarrow> 'a fs_io_scheme \<Rightarrow> 'a fs_io_scheme" where
  "commit_root_state new_root m = m\<lparr>pending_old_blocks := [], fs_generation := fs_generation m + 1,
     fs_sb := (fs_sb m)\<lparr>sb_root_tree_hash := new_root, sb_generation := fs_generation m + 1, sb_free_blocks := bm_free (bmap m)\<rparr>,
     jrnl := fold (\<lambda>b. record_free b 1) (pending_old_blocks m) (jrnl m)\<rparr>"

lemma commit_root_start:
  fixes m :: "'a fs_io_scheme"
  assumes r: "represents h c n m M" and cr: "commit_ready m" and d: "durable_map h c n' m sb0 N"
    and nr: "length new_root = 32" and gen: "sb_generation sb0 \<le> fs_generation m" "fs_generation m + 1 < 2 ^ 64"
    and new: "sb_root_tree_hash (fs_sb m) \<noteq> new_root \<or> pending_old_blocks m \<noteq> []" and m1: "m1 = commit_root_state new_root m"
  shows "commit_root h new_root m = bindE (commit h (pending_old_blocks m)) (\<lambda>_. note_commit) m1"
    "represents h c n m1 M" "represents h c n (m1\<lparr>pending_old_blocks := pending_old_blocks m\<rparr>) M" "pending_old_blocks m1 = []"
    "durable_map h c n' m1 sb0 N" "commit_ready m1" "sb_generation sb0 < sb_generation (fs_sb m1)" "view m1 = view m" "bmap m1 = bmap m"
proof -
  let ?ps = "pending_old_blocks m" and ?g = "fs_generation m + 1"
  define sb where "sb = (fs_sb m)\<lparr>sb_root_tree_hash := new_root, sb_generation := ?g, sb_free_blocks := bm_free (bmap m)\<rparr>"
  have m1_def: "m1 = m\<lparr>pending_old_blocks := [], fs_generation := ?g, fs_sb := sb, jrnl := fold (\<lambda>b. record_free b 1) ?ps (jrnl m)\<rparr>"
    by (simp add: m1 commit_root_state_def sb_def)
  note p = represents_parts [OF r]
  show "commit_root h new_root m = bindE (commit h ?ps) (\<lambda>_. note_commit) m1"
    using p(1) new gen(2) by (auto simp: commit_root_def m1_def sb_def bindE_def need_mounted_def gets_def modify_def next_generation_def upd_sb_def retE_def)
  show "represents h c n m1 M"
    using represents_no_pending [OF r] represents_cong [of m1 "m\<lparr>pending_old_blocks := []\<rparr>"] by (simp add: m1_def sb_def)
  show "represents h c n (m1\<lparr>pending_old_blocks := ?ps\<rparr>) M"
    using r represents_cong [of "m1\<lparr>pending_old_blocks := ?ps\<rparr>" m] by (simp add: m1_def sb_def)
  show "pending_old_blocks m1 = []" "view m1 = view m" "bmap m1 = bmap m" by (simp_all add: m1_def)
  show "durable_map h c n' m1 sb0 N" using d durable_map_cong [of m1 m] by (simp add: m1_def)
  have "sb_ok (fs_sb m)" using cr by (simp add: commit_ready_def sb_good_def)
  then have "sb_ok sb" using nr gen(2) bm_free_bound [OF p(3)] by (simp add: sb_def sb_ok_def)
  then have "sb_good sb" using cr by (simp add: sb_def commit_ready_def sb_good_def)
  moreover have "heads_ok (jrnl m1)" using cr by (auto simp: m1_def commit_ready_def heads_ok_def record_frees [unfolded One_nat_def])
  ultimately show "commit_ready m1" using cr by (simp add: m1_def commit_ready_def)
  show "sb_generation sb0 < sb_generation (fs_sb m1)" using gen(1) by (simp add: m1_def sb_def)
qed

lemma note_commit_keeps:
  "wpE note_commit (\<lambda>_ m'. (represents h c n m' M \<longleftrightarrow> represents h c n m M) \<and> (durable_map h c n m' sb M \<longleftrightarrow> durable_map h c n m sb M) \<and>
     (commit_ready m' \<longleftrightarrow> commit_ready m) \<and> bmap m' = bmap m \<and> fs_sb m' = fs_sb m \<and> fs_generation m' = fs_generation m \<and> view m' = view m \<and>
     dirty_set m' = dirty_set m \<and> dev m' = dev m \<and> disk_key m' = disk_key m \<and> jrnl m' = jrnl m \<and> (cache_inv chk m' \<longleftrightarrow> cache_inv chk m)) R m"
  for m :: "'a fs_io_scheme"
proof -
  let ?m = "m\<lparr>commits_since_gc := wrap64 (commits_since_gc m + 1)\<rparr>"
  have "represents h c n ?m M = represents h c n m M" by (rule represents_cong) simp_all
  moreover have "durable_map h c n ?m sb M = durable_map h c n m sb M" by (rule durable_map_cong) simp_all
  ultimately show ?thesis by (simp add: note_commit_def wpE_modify commit_ready_def)
qed

lemma commit_root_spec:
  fixes m :: "'a fs_io_scheme"
  assumes r: "represents h c n m M" and cr: "commit_ready m" and d: "durable_map h c n' m sb0 N"
    and h: "\<And>b. length (h b) = 32" and nr: "length new_root = 32" and gen: "sb_generation sb0 \<le> fs_generation m" "fs_generation m + 1 < 2 ^ 64"
    and new: "sb_root_tree_hash (fs_sb m) \<noteq> new_root \<or> pending_old_blocks m \<noteq> []"
  shows "wpE (commit_root h new_root)
    (\<lambda>_ m'. represents h c n m' M \<and> durable_map h c n m' (fs_sb m') M \<and> commit_ready m' \<and> set (pending_old_blocks m) \<subseteq> free_blocks (bmap m') \<and>
       sb_root_tree_hash (fs_sb m') = new_root \<and> sb_generation (fs_sb m') = fs_generation m + 1 \<and> fs_generation m' = fs_generation m + 1)
    (\<lambda>e m'. represents h c n m' M \<and> commit_ready m' \<and> old_or_new h c n n' m' sb0 N M) m"
proof -
  define m1 where "m1 = commit_root_state new_root m"
  note st = commit_root_start [OF r cr d nr gen new m1_def]
  have "wpE (bindE (commit h (pending_old_blocks m)) (\<lambda>_. note_commit))
    (\<lambda>_ m'. represents h c n m' M \<and> durable_map h c n m' (fs_sb m') M \<and> commit_ready m' \<and> set (pending_old_blocks m) \<subseteq> free_blocks (bmap m') \<and>
       sb_root_tree_hash (fs_sb m') = new_root \<and> sb_generation (fs_sb m') = fs_generation m + 1 \<and> fs_generation m' = fs_generation m + 1)
    (\<lambda>e m'. represents h c n m' M \<and> commit_ready m' \<and> old_or_new h c n n' m' sb0 N M) m1"
    unfolding wpE_bind
  proof (rule wpE_mono [OF commit_spec [OF st(3,4,2,6,5) h st(7)]], goal_cases)
    case (1 u m')
    have sb: "sb_rest (fs_sb m') = sb_rest (fs_sb m1)" using 1 by simp
    have "sb_root_tree_hash (fs_sb m') = sb_root_tree_hash (fs_sb m1)" "sb_generation (fs_sb m') = sb_generation (fs_sb m1)"
      using sb by (cases "fs_sb m'", cases "fs_sb m1", simp add: sb_rest_def)+
    then show ?case
      by (intro wpE_mono [OF note_commit_keeps [where M = M and sb = "fs_sb m'" and h = h and c = c and n = n]])
        (use 1 in \<open>auto simp: m1_def commit_root_state_def\<close>)
  qed simp
  then show ?thesis unfolding wpE_def st(1) .
qed

end
