(* ===== verification/Object_Mount.thy ===== *)
theory Object_Mount
  imports Object_Commit
begin

text \<open>
  From the bytes of a disk to a mounted store. \<open>mountable h c n ks v sb M\<close> describes block contents \<open>v\<close> from which
  \<open>mount\<close> gets back the map \<open>M\<close>: \<open>sb\<close> is the newest valid superblock, the bitmap below it marks every block of the
  index and of the objects as used, and what the journal frees again is none of them. A fresh file system is
  mountable with the empty map.
\<close>

section \<open>Contents that can be mounted\<close>

definition replayed :: "(nat \<Rightarrow> bytes) \<Rightarrow> superblock \<Rightarrow> (nat \<times> nat) list" where
  "replayed v sb = replay_pure v (sb_journal_head sb) (sb_journal_seq sb) [0..<JOURNAL_BLOCKS]"

definition same_geometry :: "superblock \<Rightarrow> bitmap \<Rightarrow> bool" where
  "same_geometry sb bm \<longleftrightarrow> sb_total_blocks sb = bm_total bm \<and> sb_bitmap_start sb = bm_start bm \<and> sb_bitmap_count sb = bm_count bm \<and>
     sb_data_start sb = bm_data_start bm \<and> META_END \<le> bm_start bm \<and> bm_total bm < 2 ^ 64 - 1"

definition frees_safe :: "bitmap \<Rightarrow> nat set \<Rightarrow> (nat \<times> nat) list \<Rightarrow> bool" where
  "frees_safe bm U fs \<longleftrightarrow> (\<forall>(s, k) \<in> set fs. bm_data_start bm \<le> s \<and> s + k \<le> bm_total bm) \<and> cover fs \<inter> U = {}"

definition mounts_with :: "(bytes \<Rightarrow> bytes) \<Rightarrow> ciphers \<Rightarrow> nat \<Rightarrow> disk_keys option \<Rightarrow> (nat \<Rightarrow> bytes) \<Rightarrow> superblock \<Rightarrow> (bytes \<rightharpoonup> bytes) \<Rightarrow> bitmap \<Rightarrow> nat set \<Rightarrow> bool" where
  "mounts_with h c n ks v sb M bm U \<longleftrightarrow> newest h v = Some sb \<and> sb_good sb \<and> sb_journal_head sb < JOURNAL_BLOCKS \<and>
     bm_inv bm \<and> bm_on_disk v bm \<and> same_geometry sb bm \<and> free_blocks bm \<subseteq> {bm_data_start bm..} \<and>
     disk_map h c n ks bm v (sb_btree_root sb) U M \<and> U \<subseteq> in_use bm \<and> frees_safe bm U (replayed v sb) \<and>
     (\<forall>b \<in> journal_area. stale (sb_journal_seq sb + 1) (v b))"

definition mountable :: "(bytes \<Rightarrow> bytes) \<Rightarrow> ciphers \<Rightarrow> nat \<Rightarrow> disk_keys option \<Rightarrow> (nat \<Rightarrow> bytes) \<Rightarrow> superblock \<Rightarrow> (bytes \<rightharpoonup> bytes) \<Rightarrow> bool" where
  "mountable h c n ks v sb M \<longleftrightarrow> (\<exists>bm U. mounts_with h c n ks v sb M bm U)"

text \<open>The state after a mount or a commit: the superblock's geometry is the bitmap's, and nothing in the journal is
  newer than its sequence number.\<close>

definition journal_idle :: "'a fs_io_scheme \<Rightarrow> bool" where
  "journal_idle m \<longleftrightarrow> pending_frees (jrnl m) = [] \<and> j_seq (jrnl m) + 1 < 2 ^ 64 \<and> same_geometry (fs_sb m) (bmap m) \<and>
     (\<forall>b \<in> journal_area. stale (j_seq (jrnl m) + 1) (view m b))"

section \<open>Mounting\<close>

lemma wpE_lift: "wpE (lift_fs f) Q R m = wpE f Q (\<lambda>e. R (Fs e)) m"
  by (simp add: wpE_def lift_fs_def split: prod.splits sum.splits)

lemma free_ranges_result:
  assumes "bm_inv bm" and "\<forall>(s, k) \<in> set fs. bm_data_start bm \<le> s \<and> s + k \<le> bm_total bm"
  shows "bm_inv (fold (\<lambda>(start, count). bm_free_range start count) fs bm)" "tracks bm (fold (\<lambda>(start, count). bm_free_range start count) fs bm)"
    "free_blocks (fold (\<lambda>(start, count). bm_free_range start count) fs bm) = free_blocks bm \<union> cover fs"
proof -
  have "bm_inv (fold (\<lambda>(start, count). bm_free_range start count) fs bm) \<and> tracks bm (fold (\<lambda>(start, count). bm_free_range start count) fs bm) \<and>
    free_blocks (fold (\<lambda>(start, count). bm_free_range start count) fs bm) = free_blocks bm \<union> cover fs"
    using assms
  proof (induction fs arbitrary: bm)
    case (Cons x fs)
    obtain s k where x: "x = (s, k)" by fastforce
    note f = bm_free_range_result [OF Cons.prems(1) _ _ refl, of s k]
    have sk: "bm_data_start bm \<le> s" "s + k \<le> bm_total bm" using Cons.prems(2) by (auto simp: x)
    let ?b = "bm_free_range s k bm"
    have "bm_inv (fold (\<lambda>(start, count). bm_free_range start count) fs ?b) \<and> tracks ?b (fold (\<lambda>(start, count). bm_free_range start count) fs ?b) \<and>
      free_blocks (fold (\<lambda>(start, count). bm_free_range start count) fs ?b) = free_blocks ?b \<union> cover fs"
      by (rule Cons.IH [OF f(1) [OF sk]]) (use Cons.prems(2) tracks_same [OF f(2) [OF sk]] in auto)
    then show ?case using f(3) [OF sk] tracks_trans [OF f(2) [OF sk]] by (auto simp: x cover_def)
  qed (simp add: cover_def)
  then show "bm_inv (fold (\<lambda>(start, count). bm_free_range start count) fs bm)" "tracks bm (fold (\<lambda>(start, count). bm_free_range start count) fs bm)"
    "free_blocks (fold (\<lambda>(start, count). bm_free_range start count) fs bm) = free_blocks bm \<union> cover fs" by auto
qed

text \<open>The state when the bitmap is in memory: nothing but the bitmap's blocks may differ from the disk.\<close>

definition loaded :: "(bytes \<Rightarrow> bool) \<Rightarrow> bitmap \<Rightarrow> (nat \<times> nat) list \<Rightarrow> 'a fs_io_scheme \<Rightarrow> 'a fs_io_scheme \<Rightarrow> bool" where
  "loaded chk bm fs m m' \<longleftrightarrow> cache_inv chk m' \<and> bm_inv (bmap m') \<and> bm_synced (view m') (bmap m') \<and>
     same_layout bm (bmap m') \<and> free_blocks (bmap m') = free_blocks bm \<union> cover fs \<and> alloc_io.more m' = alloc_io.more m \<and>
     (\<forall>b. b \<notin> bm_blocks bm \<longrightarrow> view m' b = view m b) \<and> (\<forall>B. bm_blocks bm \<subseteq> B \<longrightarrow> calm B m m')"

lemma bm_eq_free: "bm_data bm' = bm_data bm \<Longrightarrow> bm_total bm' = bm_total bm \<Longrightarrow> free_blocks bm' = free_blocks bm"
  by (simp add: free_blocks_def)

lemma load_bitmap:
  assumes inv: "cache_inv chk m" and bm: "bm_inv bm" "bm_on_disk (view m) bm" and g: "same_geometry sb bm" and fs: "\<forall>(s, k) \<in> set fs. bm_data_start bm \<le> s \<and> s + k \<le> bm_total bm"
  shows "wpE (bindE (lift_fs (load_args (sb_total_blocks sb) (sb_bitmap_start sb) (sb_bitmap_count sb) (sb_data_start sb))) (\<lambda>bm.
      bindE (modify (\<lambda>m. m\<lparr>bmap := fold (\<lambda>(start, count). bm_free_range start count) fs bm\<rparr>)) (\<lambda>_.
      bindE (if fs \<noteq> [] then bindE (lift_fs bm_sync) (\<lambda>_. lift_fs cache_flush) else retE ()) (\<lambda>_. retE sb))))
    (\<lambda>sb' m'. sb' = sb \<and> loaded chk bm fs m m') (\<lambda>_ _. True) m"
proof -
  have geo: "sb_total_blocks sb = bm_total bm" "sb_bitmap_start sb = bm_start bm" "sb_bitmap_count sb = bm_count bm"
    "sb_data_start sb = bm_data_start bm" "bm_total bm < 2 ^ 64 - 1" using g by (auto simp: same_geometry_def)
  have lb: "\<And>b. length (view m b) = BLOCK_SIZE" using length_view [OF inv] by blast
  show ?thesis
    unfolding wpE_bind wpE_lift wpE_modify geo
  proof (rule wpE_mono [OF load_args_spec [OF inv geo(5)]], goal_cases)
    case (1 bm1 m1)
    let ?bm = "fold (\<lambda>(start, count). bm_free_range start count) fs bm1" and ?m = "m1\<lparr>bmap := fold (\<lambda>(start, count). bm_free_range start count) fs bm1\<rparr>"
    have data: "bm_data bm1 = bm_data bm" using 1 load_after_sync [OF bm lb] by simp
    then have fb: "free_blocks bm1 = free_blocks bm" using 1 by (intro bm_eq_free) auto
    have lay: "same_layout bm bm1" using 1 data bm(1) by (auto simp: same_layout_def bm_inv_def)
    have q: "alloc_io.more m1 = alloc_io.more m" "\<And>B. calm B m m1" using 1 quiet_bmap [of UNIV m m1] by (auto simp: quiet_calm)
    note f = free_ranges_result [of bm1 fs]
    have bi: "bm_inv bm1" and fs1: "\<forall>(s, k) \<in> set fs. bm_data_start bm1 \<le> s \<and> s + k \<le> bm_total bm1" using 1 fs by auto
    note f = free_ranges_result [OF bi fs1]
    have lay2: "same_layout bm ?bm" using lay f(2) by (auto simp: tracks_def same_layout_def)
    have "bm_synced (view m1) bm1" using 1 by (auto simp: bm_on_disk_def bm_synced_def)
    then have sy: "bm_synced (view ?m) (bmap ?m)" using bm_synced_tracks [OF bi f(2)] by simp
    have ld: "loaded chk bm fs m ?m" unfolding loaded_def using 1 f fb lay2 sy q by simp
    have bb: "bm_blocks (bmap ?m) = bm_blocks bm" using lay2 by (simp add: bm_blocks_def same_layout_def)
    have synced: "loaded chk bm fs m m2" if c: "cache_inv chk m2" and s: "sync_frame ?m m2" and y: "bm_synced (view m2) (bmap m2)" for m2
    proof -
      from s obtain bs where bs: "bmap m2 = ?bm\<lparr>bm_dirty_blocks := bs\<rparr>" "length bs = length (bm_dirty_blocks ?bm)"
        "\<forall>i < length bs. bs ! i \<longrightarrow> bm_dirty_blocks ?bm ! i" by (auto simp: sync_frame_def)
      have "True \<notin> set bs" if "True \<notin> set (bm_dirty_blocks ?bm)" using bs(2,3) that by (metis (full_types) in_set_conv_nth)
      moreover have fb2: "free_blocks (?bm\<lparr>bm_dirty_blocks := bs\<rparr>) = free_blocks ?bm" by (simp add: free_blocks_def)
      ultimately have "bm_inv (bmap m2)" using f(1) bs(2) unfolding bm_inv_def bs(1) fb2 by auto
      moreover have "free_blocks (bmap m2) = free_blocks ?bm" by (simp add: bs(1) fb2)
      moreover have "same_layout bm (bmap m2)" using lay2 bs(2) by (simp add: bs(1) same_layout_def)
      moreover have "calm B m m2" if "bm_blocks bm \<subseteq> B" for B
        by (rule calm_trans [of _ _ m1]) (use q s that bb in \<open>auto simp: sync_frame_def\<close>)
      moreover have "view m2 b = view m b" if "b \<notin> bm_blocks bm" for b using s that bb 1 by (auto simp: sync_frame_def)
      moreover have "alloc_io.more m2 = alloc_io.more m" using s q by (simp add: sync_frame_def)
      ultimately show ?thesis using c y f(3) fb by (simp add: loaded_def)
    qed
    show ?case
    proof (cases "fs = []")
      case True
      then show ?thesis using ld by (simp add: wp)
    next
      case False
      have ci: "cache_inv chk ?m" "bm_inv (bmap ?m)" using 1 f(1) by simp_all
      show ?thesis
        unfolding if_P [OF False] wpE_bind wpE_lift wpE_ret
      proof (rule wpE_mono [OF bm_sync_spec [OF ci sy]], goal_cases)
        case (1 u m2)
        then have "bm_synced (view m2) (bmap m2)" by (simp add: bm_on_disk_def bm_synced_def)
        then have l2: "loaded chk bm fs m m2" using synced 1 by blast
        then have c2: "cache_inv chk m2" by (simp add: loaded_def)
        show ?case
        proof (rule wpE_I, goal_cases)
          case (1 u m3)
          note sp = cache_flush_spec [OF c2 1]
          have q3: "bmap m3 = bmap m2" "alloc_io.more m3 = alloc_io.more m2" "\<And>B. calm B m2 m3"
            using quiet_bmap [OF sp(3) [of UNIV]] sp(3) by (auto simp: quiet_calm)
          have "calm B m m3" if "bm_blocks bm \<subseteq> B" for B
            by (rule calm_trans [OF _ q3(3)]) (use l2 that in \<open>simp add: loaded_def\<close>)
          then show ?case using l2 sp(1,2) q3(1,2) by (simp add: loaded_def)
        qed simp
      qed simp
    qed
  qed simp
qed


definition mount_rest :: "superblock \<Rightarrow> ('a fs_io_scheme, fs_stop, superblock) op" where
  "mount_rest sb =
     bindE (gets (\<lambda>m. block_count (dev m))) (\<lambda>disk.
     case disk of
       None \<Rightarrow> throwE (Fs (Disk NotInitialized))
     | Some disk_blocks \<Rightarrow>
         if sb_total_blocks sb > disk_blocks then throwE (Fs Corrupt)
         else if sb_journal_head sb \<ge> JOURNAL_BLOCKS then throwE (Fs Corrupt)
         else
         bindE (lift_fs (replay (sb_journal_head sb) (sb_journal_seq sb))) (\<lambda>frees.
         bindE (lift_fs (load_args (sb_total_blocks sb) (sb_bitmap_start sb) (sb_bitmap_count sb) (sb_data_start sb))) (\<lambda>bm.
         bindE (modify (\<lambda>m. m\<lparr>bmap := fold (\<lambda>(start, count). bm_free_range start count) frees bm\<rparr>)) (\<lambda>_.
         bindE (if frees \<noteq> [] then bindE (lift_fs bm_sync) (\<lambda>_. lift_fs cache_flush) else retE ()) (\<lambda>_.
           retE sb)))))"

lemma mount_rest_returns: "wpE (mount_rest sb) (\<lambda>a _. a = sb) (\<lambda>_ _. True) m"
  unfolding mount_rest_def wpE_def bindE_def retE_def throwE_def gets_def
  by (auto split: option.splits sum.splits prod.splits if_splits)

lemma mount_rest_spec:
  assumes inv: "cache_inv chk m" and w: "mounts_with h c n ks (view m) sb M bm U"
  shows "wpE (mount_rest sb) (\<lambda>_. loaded chk bm (replayed (view m) sb) m) (\<lambda>_ _. True) m"
proof -
  have hd: "sb_journal_head sb < JOURNAL_BLOCKS" and bm: "bm_inv bm" "bm_on_disk (view m) bm" and g: "same_geometry sb bm"
    and fs: "\<forall>(s, k) \<in> set (replayed (view m) sb). bm_data_start bm \<le> s \<and> s + k \<le> bm_total bm"
    using w by (auto simp: mounts_with_def frees_safe_def)
  have rs: "wpE (replay (sb_journal_head sb) (sb_journal_seq sb))
    (\<lambda>r m'. r = replayed (view m) sb \<and> cache_inv chk m' \<and> view m' = view m \<and> (\<forall>B. quiet B m m')) (\<lambda>_ _. True) m"
    unfolding replay_def by (rule wpE_mono [OF replay_scan_spec [OF inv hd]]) (auto simp: replayed_def)
  show ?thesis
  proof (cases "block_count (dev m)")
    case None
    then show ?thesis by (simp add: mount_rest_def wpE_bind wpE_gets wpE_throw)
  next
    case (Some d)
    show ?thesis
    proof (cases "sb_total_blocks sb > d")
      case True
      then show ?thesis by (simp add: mount_rest_def wpE_bind wpE_gets wpE_throw Some)
    next
      case False
      have j: "\<not> sb_journal_head sb \<ge> JOURNAL_BLOCKS" using hd by simp
      show ?thesis
        unfolding mount_rest_def wpE_bind [of "gets _"] wpE_gets Some option.case if_not_P [OF False] if_not_P [OF j]
          wpE_bind [of "lift_fs (replay _ _)"] wpE_lift [of "replay _ _"]
      proof (rule wpE_mono [OF rs], goal_cases)
        case (1 r m1)
        then have c1: "cache_inv chk m1" and v1: "view m1 = view m" and q: "\<And>B. quiet B m m1" and r: "r = replayed (view m) sb" by auto
        have cl: "\<And>B. calm B m m1" "alloc_io.more m1 = alloc_io.more m" using q quiet_bmap by (auto simp: quiet_calm)
        have bd: "bm_on_disk (view m1) bm" using bm(2) v1 by simp
        show ?case
          unfolding r
        proof (rule wpE_mono [OF load_bitmap [OF c1 bm(1) bd g fs]], goal_cases)
          case (1 a m')
          have "calm B m m'" if "bm_blocks bm \<subseteq> B" for B
            by (rule calm_trans [OF cl(1)]) (use 1 that in \<open>simp add: loaded_def\<close>)
          then show ?case using 1 v1 cl(2) by (simp add: loaded_def)
        qed simp
      qed simp
    qed
  qed
qed

lemma mount_body_spec:
  assumes inv: "cache_inv chk m" and w: "mounts_with h c n ks (view m) sb M bm U"
  shows "wpE (mount_body h) (\<lambda>sb' m'. sb' = sb \<longrightarrow> loaded chk bm (replayed (view m) sb) m m') (\<lambda>_ _. True) m"
proof -
  have eq: "mount_body h = bindE (mount_choose h) mount_rest" 
    unfolding mount_body_def by (rule arg_cong [where f = "bindE (mount_choose h)"]) (rule ext, simp only: mount_rest_def)
  obtain r m1 where rb: "read_best h m = (r, m1)" by fastforce
  from read_best_result [OF inv rb] obtain best where b: "r = Inr best" "cache_inv chk m1" "view m1 = view m" "\<forall>B. quiet B m m1" by blast
  show ?thesis
  proof (cases best)
    case None
    then have "\<exists>e m2. mount_choose h m = (Inl e, m2)"
      using rb b(1) by (auto simp: mount_choose_def bindE_def lift_fs_def split: prod.splits option.splits)
    then show ?thesis by (auto simp: eq wpE_def bindE_def)
  next
    case (Some sb')
    then have ch: "mount_choose h m = (Inr sb', m1)" using rb b(1) by (simp add: mount_choose_def bindE_def lift_fs_def retE_def)
    have cl: "\<And>B. calm B m m1" "alloc_io.more m1 = alloc_io.more m" using b(4) quiet_bmap by (auto simp: quiet_calm)
    have run: "wpE (mount_body h) Q R m = wpE (mount_rest sb') Q R m1" for Q R by (simp add: eq wpE_def bindE_def ch)
    show ?thesis
    proof (cases "sb' = sb")
      case False
      then show ?thesis unfolding run by (intro wpE_mono [OF mount_rest_returns]) auto
    next
      case True
      have w1: "mounts_with h c n ks (view m1) sb M bm U" using w b(3) by simp
      show ?thesis
        unfolding run True
      proof (rule wpE_mono [OF mount_rest_spec [OF b(2) w1]], goal_cases)
        case (1 a m')
        have "calm B m m'" if "bm_blocks bm \<subseteq> B" for B
          by (rule calm_trans [OF cl(1)]) (use 1 that in \<open>simp add: loaded_def\<close>)
        then show ?case using 1 b(3) cl(2) by (simp add: loaded_def)
      qed simp
    qed
  qed
qed


lemma loaded_represents:
  fixes m m1 :: "'a fs_io_scheme"
  assumes w: "mounts_with h c n ks (view m) sb M bm U" and l: "loaded (verify_node_checksum h) bm (replayed (view m) sb) m m1"
    and clean: "dirty_set m = {}"
    and m': "m' = m1\<lparr>fs_sb := sb, jrnl := fs_journal_new (sb_journal_head sb) (sb_journal_seq sb), fs_generation := sb_generation sb,
      pending_old_blocks := [], mounted := True\<rparr>" and ks: "disk_key m1 = ks"
  shows "represents h c n m' M" "commit_ready m'" "sb_journal_seq sb + 1 < 2 ^ 64 \<Longrightarrow> journal_idle m'"
proof -
  let ?chk = "verify_node_checksum h" and ?fs = "replayed (view m) sb"
  have bm: "bm_inv bm" "same_geometry sb bm" "free_blocks bm \<subseteq> {bm_data_start bm..}" "U \<subseteq> in_use bm" and fs: "frees_safe bm U ?fs"
    and d: "disk_map h c n ks bm (view m) (sb_btree_root sb) U M" and sb: "sb_good sb" "sb_journal_head sb < JOURNAL_BLOCKS"
    using w by (auto simp: mounts_with_def)
  have ci: "cache_inv ?chk m1" "bm_inv (bmap m1)" "bm_synced (view m1) (bmap m1)" and lay: "same_layout bm (bmap m1)"
    and free: "free_blocks (bmap m1) = free_blocks bm \<union> cover ?fs" and v: "\<And>b. b \<notin> bm_blocks bm \<Longrightarrow> view m1 b = view m b"
    and cl: "\<And>B. bm_blocks bm \<subseteq> B \<Longrightarrow> calm B m m1" using l by (auto simp: loaded_def)
  have io: "view m' = view m1" "dirty_set m' = dirty_set m1" "cache_inv chk m' = cache_inv chk m1" "bmap m' = bmap m1" "disk_key m' = ks" for chk
    unfolding m' using ks by (simp_all add: io_fields fun_eq_iff split: option.split)
  have dirty: "dirty_set m1 \<subseteq> bm_blocks bm" using calm_dirty [of "bm_blocks bm" m m1] cl clean by simp
  have low: "b \<notin> bm_blocks bm" if "b \<in> U" for b using that bm(1,4) by (auto simp: bm_blocks_def bm_inv_def in_use_def)
  have g: "good_extent (bmap m1) = good_extent bm" using lay by (simp add: good_extent_def same_layout_def fun_eq_iff)
  from d obtain t pl bl where t: "tree_at h n (view m) (sb_btree_root sb) t" and o: "\<forall>e \<in> set (idx_entries t). obj c ks bm (view m) {} e (pl e) (bl e)"
    and U: "U = set (idx_blocks t @ concat (map bl (idx_entries t)))" "distinct (idx_blocks t @ concat (map bl (idx_entries t)))"
    and M: "M = (\<lambda>k. map_option pl (find (\<lambda>e. e_hash e = k) (idx_entries t)))" unfolding disk_map_def by blast
  have "\<forall>e \<in> set (idx_entries t). obj c (disk_key m') (bmap m') (view m') (dirty_set m') e (pl e) (bl e)"
  proof
    fix e assume e: "e \<in> set (idx_entries t)"
    have sub: "set (bl e) \<subseteq> U" using e U(1) by auto
    show "obj c (disk_key m') (bmap m') (view m') (dirty_set m') e (pl e) (bl e)"
      unfolding io by (rule obj_cong [OF bspec [OF o e] _ _ g]) (use sub low v dirty in blast)+
  qed
  moreover have nf: "U \<inter> free_blocks (bmap m1) = {}" using bm(4) free fs by (auto simp: in_use_def frees_safe_def)
  moreover have "index h n m' t"
  proof (cases t)
    case (Some u)
    have "rep ?chk (view m1) u" by (rule rep_cong [of _ "view m"]) (use t Some U(1) low v in auto)
    moreover have "set (blocks u) \<inter> free_blocks (bmap m1) = {}" using nf U(1) Some by auto
    ultimately show ?thesis using t Some io by (simp add: m' stored_def)
  qed (use t in \<open>simp add: m'\<close>)
  moreover have "used_ok (bmap m') (idx_blocks t @ concat (map bl (idx_entries t)) @ pending_old_blocks m')"
    unfolding io used_ok_def using U nf bm(4) lay by (auto simp: m' in_use_def same_layout_def)
  moreover have "fs_layout m'"
  proof -
    have "cover ?fs \<subseteq> {bm_data_start bm..}" using fs by (fastforce simp: frees_safe_def cover_def)
    then show ?thesis using bm(2,3) lay free unfolding fs_layout_def io by (auto simp: m' same_geometry_def same_layout_def)
  qed
  ultimately show "represents h c n m' M" using ci M io unfolding represents_def by (auto simp: m')
  have "heads_ok (jrnl m')" using sb by (simp add: m' heads_ok_def fs_journal_new_def sb_good_def sb_ok_def)
  then show "commit_ready m'" using ci(3) io sb(1) by (simp add: commit_ready_def m')
  assume sq: "sb_journal_seq sb + 1 < 2 ^ 64"
  have "view m' b = view m b" if "b \<in> journal_area" for b
    unfolding io by (rule v) (use that bm(2) in \<open>auto simp: journal_area_def same_geometry_def bm_blocks_def\<close>)
  moreover have "same_geometry (fs_sb m') (bmap m')" using bm(2) lay unfolding io by (simp add: m' same_geometry_def same_layout_def)
  ultimately show "journal_idle m'" using w sq by (simp add: journal_idle_def m' fs_journal_new_def mounts_with_def)
qed

lemma cache_new_fields:
  "dirty_set (cache_new m) = {}" "disk_key (cache_new m) = disk_key m" "dev (cache_new m) = dev m" "mounted (cache_new m) = mounted m"
  "view (cache_new m) b = (if b < 2 ^ 64 then media (dev m) (actual (dev m) b) else replicate BLOCK_SIZE 0)"
  for m :: "'a fs_io_scheme"
  by (simp_all add: cache_new_def dirty_set_def view_def)

lemma mount_spec:
  fixes m :: "'a fs_io_scheme"
  assumes env: "env_ok (cache_new m)" and nm: "\<not> mounted m" and mt: "mountable h c n (disk_key m) (view (cache_new m)) sb M"
  shows "wpE (mount h) (\<lambda>_ m'. fs_sb m' = sb \<longrightarrow> represents h c n m' M \<and> commit_ready m' \<and> fs_generation m' = sb_generation sb \<and>
       pending_old_blocks m' = [] \<and> (sb_journal_seq sb + 1 < 2 ^ 64 \<longrightarrow> journal_idle m') \<and>
       ((\<forall>b < 2 ^ 64. at_rest (cache_new m) b) \<longrightarrow> durable_map h c n m' sb M)) (\<lambda>_ _. True) m"
proof -
  let ?chk = "verify_node_checksum h" and ?m = "cache_new m"
  have inv: "cache_inv ?chk ?m" by (rule cache_new_spec [OF env])
  from mt obtain bm U where w: "mounts_with h c n (disk_key m) (view ?m) sb M bm U" by (auto simp: mountable_def)
  note body = mount_body_spec [OF inv w]
  show ?thesis
  proof (rule wpE_I, goal_cases)
    case (1 u m')
    then obtain sb' m1 where b: "mount_body h ?m = (Inr sb', m1)" and
      m': "m' = m1\<lparr>fs_sb := sb', jrnl := fs_journal_new (sb_journal_head sb') (sb_journal_seq sb'), fs_generation := sb_generation sb',
        pending_old_blocks := [], mounted := True\<rparr>"
      using nm by (auto simp: mount_def Let_def split: prod.splits sum.splits)
    show ?case
    proof
      assume "fs_sb m' = sb"
      then have sb: "sb' = sb" by (simp add: m')
      have l: "loaded ?chk bm (replayed (view ?m) sb) ?m m1" using wpE_InrD [OF body b] sb by blast
      have mo: "alloc_io.more m1 = alloc_io.more ?m" using l by (simp add: loaded_def)
      have ks: "disk_key m1 = disk_key m" using fs_of_alloc(4) [OF mo] by (simp add: cache_new_fields)
      note r = loaded_represents [OF w l cache_new_fields(1) m' [unfolded sb] ks]
      note p = represents_parts [OF r(1)]
      have "durable_map h c n m' sb M" if s: "\<forall>b < 2 ^ 64. at_rest ?m b"
      proof -
        have eq: "view m' = view m1" "dirty_set m' = dirty_set m1" "dev m' = dev m1" "bmap m' = bmap m1"
          by (simp_all add: m' io_fields fun_eq_iff split: option.split)
        have lay: "same_layout bm (bmap m')" and v: "\<And>b. b \<notin> bm_blocks bm \<Longrightarrow> view m' b = view ?m b"
          and cl: "\<And>B. bm_blocks bm \<subseteq> B \<Longrightarrow> calm B ?m m1" using l unfolding loaded_def eq by blast+
        have bb: "bm_blocks (bmap m') = bm_blocks bm" using lay by (simp add: bm_blocks_def same_layout_def)
        have st: "at_rest m' b" if "b < 2 ^ 64" "b \<notin> bm_blocks bm" for b
        proof -
          have b64: "bm_blocks bm \<subseteq> {..<2 ^ 64}" using w by (auto simp: mounts_with_def bm_inv_def bm_blocks_def)
          have "at_rest m1 b" by (rule settled_calm [OF inv _ _ cl]) (use s that v [unfolded eq] b64 in auto)
          then show ?thesis by (simp add: at_rest_def eq)
        qed
        have ou: "b < 2 ^ 64 \<and> b \<notin> bm_blocks bm" if "b \<in> sb_area \<union> in_use (bmap m')" for b
          using that sb_area_bound in_use_bound [OF p(3)] sb_area_outside [OF p(4,3)] data_outside [OF p(4,3)] in_use_data [of "bmap m'"]
          unfolding bb [symmetric] meta_area_def by blast
        have "newest h (view m') = Some sb"
          using newest_cong [of "view m'" "view ?m" h] v ou w by (auto simp: mounts_with_def)
        then show ?thesis using represents_durable [OF r(1)] st ou by (simp add: m' sb)
      qed
      then show "represents h c n m' M \<and> commit_ready m' \<and> fs_generation m' = sb_generation sb \<and> pending_old_blocks m' = [] \<and>
          (sb_journal_seq sb + 1 < 2 ^ 64 \<longrightarrow> journal_idle m') \<and> ((\<forall>b < 2 ^ 64. at_rest ?m b) \<longrightarrow> durable_map h c n m' sb M)"
        using r by (simp add: m' sb)
    qed
  qed simp
qed


section \<open>A fresh file system\<close>

lemma mkfs_counts:
  assumes "META_END + 16 \<le> n"
  shows "(n + BLOCK_SIZE * 8 - 1) div (BLOCK_SIZE * 8) = div_ceil (div_ceil n 8) BLOCK_SIZE"
    "META_END + (n + BLOCK_SIZE * 8 - 1) div (BLOCK_SIZE * 8) \<le> n"
proof -
  show "(n + BLOCK_SIZE * 8 - 1) div (BLOCK_SIZE * 8) = div_ceil (div_ceil n 8) BLOCK_SIZE"
    using assms by (simp add: div_ceil_def BLOCK_SIZE_def)
  show "META_END + (n + BLOCK_SIZE * 8 - 1) div (BLOCK_SIZE * 8) \<le> n"
    using assms by (simp add: BLOCK_SIZE_def format_consts)
qed

lemma journal_zeroed:
  assumes inv: "cache_inv chk m"
  shows "wpE (forE (\<lambda>i. cache_write (JOURNAL_START + i) (replicate BLOCK_SIZE 0)) [0..<JOURNAL_BLOCKS])
    (\<lambda>_ m'. cache_inv chk m' \<and> (\<forall>b \<in> journal_area. view m' b = replicate BLOCK_SIZE 0)) (\<lambda>_ _. True) m"
proof (rule wpE_mono [OF wpE_forE [where I = "\<lambda>ys m'. cache_inv chk m' \<and> (\<forall>i < length ys. view m' (JOURNAL_START + i) = replicate BLOCK_SIZE 0)"
    and R = "\<lambda>_ _. True"]], goal_cases)
  case (2 ys x zs m1)
  have "length ys < length [0..<JOURNAL_BLOCKS]" "[0..<JOURNAL_BLOCKS] ! length ys = x" unfolding 2(1) by simp_all
  then have x: "x = length ys" "JOURNAL_START + x < 2 ^ 64" by (auto simp: format_consts)
  show ?case by (rule cache_store.wr_wp [OF _ x(2)]) (use 2(2) x(1) less_Suc_eq in auto)
qed (use inv in \<open>auto simp: journal_area_def META_END_def dest!: le_Suc_ex\<close>)

lemma zeros_no_journal: "take 8 (replicate BLOCK_SIZE (0 :: u8)) \<noteq> JOURNAL_MAGIC"
  by (simp add: JOURNAL_MAGIC_def BLOCK_SIZE_def replicate_numeral)

lemma mkfs_sb_ok:
  assumes "n < 2 ^ 64" "f < 2 ^ 64" "st < 2 ^ 64" "cnt < 2 ^ 64" "ds < 2 ^ 64" "16 \<le> length salt"
  shows "sb_good (mkfs_superblock n f st cnt ds salt)"
  using assms by (simp add: sb_good_def sb_ok_def mkfs_superblock_def DISK_MAGIC_def DISK_VERSION_def list_all_iff)

lemma newest_all_same:
  assumes "sb_ok sb" and "is_valid h sb" and "\<And>b. b \<in> sb_area \<Longrightarrow> v b = sb_bytes sb"
  shows "newest h v = Some sb"
proof -
  let ?bufs = "map v [SUPERBLOCK_START..<SUPERBLOCK_START + SUPERBLOCK_SLOTS]"
  have s: "set ?bufs = {sb_bytes sb}" using assms(3) by (force simp: sb_area_def format_consts)
  have rt: "sb_of_bytes (sb_bytes sb) = sb" by (rule sb_round_trip [OF assms(1)])
  have "sb_bytes sb \<in> set ?bufs" unfolding s by simp
  then have "fst (best_of h ?bufs) \<noteq> None" using best_of_result [of h ?bufs] assms(2) rt by metis
  then obtain sb' where "fst (best_of h ?bufs) = Some sb'" by blast
  with best_of_result [of h ?bufs] show ?thesis unfolding newest_def s by (auto simp: rt)
qed

lemma mkfs_mounts:
  assumes h: "\<And>b. length (h b) = 32" and n: "META_END + 16 \<le> n" "n < 2 ^ 64 - 1" and salt: "16 \<le> length salt"
    and bm: "bm = new_for_mkfs n META_END cnt ds" and cnt: "cnt = (n + BLOCK_SIZE * 8 - 1) div (BLOCK_SIZE * 8)" "ds = META_END + cnt"
    and sb: "sb = set_checksum h (mkfs_superblock n (bm_free bm) META_END cnt ds salt)"
    and bd: "bm_on_disk v bm'" "bm' = bm\<lparr>bm_dirty_blocks := bs\<rparr>" and j: "\<forall>b \<in> journal_area. v b = replicate BLOCK_SIZE 0"
    and s: "\<And>b. b \<in> sb_area \<Longrightarrow> v b = sb_bytes sb"
  shows "mountable h c 0 ks v sb Map.empty"
proof -
  note c = mkfs_counts [OF n(1), folded cnt(1)]
  have b: "bm_inv bm" "free_blocks bm = {ds..<n}"
    unfolding bm by (rule new_for_mkfs_result; use n c cnt(2) in simp)+
  have f: "bm_start bm = META_END" "bm_count bm = cnt" "bm_data_start bm = ds" "bm_total bm = n" by (simp_all add: bm new_for_mkfs_def Let_def)
  have ok: "sb_good (mkfs_superblock n (bm_free bm) META_END cnt ds salt)"
    by (rule mkfs_sb_ok) (use n c(2) cnt(2) salt bm_free_bound [OF b(1)] in \<open>auto simp: format_consts\<close>)
  then have good: "sb_good sb" using set_checksum_ok(1) [OF _ h] by (simp add: sb sb_good_def set_checksum_def)
  have val: "is_valid h sb" using good set_checksum_ok(2) [OF _ h, of "mkfs_superblock n (bm_free bm) META_END cnt ds salt"] ok
    by (simp add: is_valid_def sb_good_def sb)
  have nw: "newest h v = Some sb" by (rule newest_all_same [OF _ val s]) (use good in \<open>simp add: sb_good_def\<close>)
  have fl: "sb_btree_root sb = 0" "sb_journal_head sb = 0" "sb_total_blocks sb = n" "sb_bitmap_start sb = META_END" "sb_bitmap_count sb = cnt" "sb_data_start sb = ds"
    by (simp_all add: sb set_checksum_def mkfs_superblock_def)
  have "replayed v sb = []"
    unfolding replayed_def
  proof (rule replay_stale)
    fix i assume "i \<in> set [0..<JOURNAL_BLOCKS]"
    then have "replay_pos (sb_journal_head sb) i < JOURNAL_BLOCKS" using replay_pos_less [of "sb_journal_head sb" i] fl(2) by (simp add: JOURNAL_BLOCKS_def)
    then have "v (JOURNAL_START + replay_pos (sb_journal_head sb) i) = replicate BLOCK_SIZE 0" using j by (simp add: journal_area_def META_END_def)
    then show "stale (sb_journal_seq sb) (v (JOURNAL_START + replay_pos (sb_journal_head sb) i))"
      using zeros_no_journal by (simp add: stale_def)
  qed
  moreover have "disk_map h c 0 ks bm v (sb_btree_root sb) {} Map.empty"
    unfolding disk_map_def fl by (intro exI [of _ None]) simp
  moreover have "bm_on_disk v bm" using bd(1) unfolding bd(2) bm_on_disk_def by simp
  moreover have "same_geometry sb bm" using n fl f by (simp add: same_geometry_def)
  ultimately have "mounts_with h c 0 ks v sb Map.empty bm {}"
    using nw good b f fl j zeros_no_journal by (auto simp: mounts_with_def frees_safe_def cover_def JOURNAL_BLOCKS_def stale_def)
  then show ?thesis unfolding mountable_def by blast
qed


lemma mkfs_body_spec:
  fixes m :: "'a fs_io_scheme"
  assumes inv: "cache_inv chk m" and h: "\<And>b. length (h b) = 32" and n: "META_END + 16 \<le> n" "n < 2 ^ 64 - 1" and salt: "16 \<le> length salt"
  shows "wpE (mkfs_body h salt n) (\<lambda>_ m'. \<exists>sb v. mountable h c 0 ks v sb Map.empty \<and> sb_generation sb = 1 \<and>
      (\<forall>b < 2 ^ 64. media (dev m') (actual (dev m') b) = v b) \<and> (\<forall>b. 2 ^ 64 \<le> b \<longrightarrow> v b = replicate BLOCK_SIZE 0)) (\<lambda>_ _. True) m"
proof -
  define cnt where cnt: "cnt = (n + BLOCK_SIZE * 8 - 1) div (BLOCK_SIZE * 8)"
  define ds where ds: "ds = META_END + cnt"
  define bm where bm: "bm = new_for_mkfs n META_END cnt ds"
  define sb where sb: "sb = mkfs_superblock n (bm_free bm) META_END cnt ds salt"
  note c = mkfs_counts [OF n(1), folded cnt]
  have bi: "bm_inv bm" unfolding bm by (rule new_for_mkfs_result) (use n c ds in simp_all)
  have f: "bm_start bm = META_END" "bm_dirty_blocks bm = replicate cnt True" "bm_count bm = cnt" by (simp_all add: bm new_for_mkfs_def Let_def)
  have ok: "sb_ok sb"
    using mkfs_sb_ok [of n "bm_free bm" META_END cnt ds salt] n c(2) ds salt bm_free_bound [OF bi]
    unfolding sb by (simp add: sb_good_def format_consts)
  have gen: "sb_generation (set_checksum h sb) = 1" by (simp add: sb set_checksum_def mkfs_superblock_def)
  show ?thesis
    unfolding mkfs_body_def Let_def cnt [symmetric] ds [symmetric] bm [symmetric] sb [symmetric] wpE_bind wpE_modify
  proof (rule wpE_mono [OF journal_zeroed [OF inv]], goal_cases)
    case (1 u m1)
    let ?m = "m1\<lparr>bmap := bm\<rparr>"
    have c1: "cache_inv chk ?m" "bm_inv (bmap ?m)" "view ?m = view m1" using 1 bi by simp_all
    have sy: "bm_synced (view ?m) (bmap ?m)" using f by (simp add: bm_synced_def)
    show ?case
    proof (rule wpE_mono [OF bm_sync_spec [OF c1(1,2) sy]], goal_cases)
      case (1 u m2)
      then have c2: "cache_inv chk m2" and od: "bm_on_disk (view m2) (bmap m2)" and sf: "sync_frame ?m m2" by auto
      then obtain bs where bs: "bmap m2 = bm\<lparr>bm_dirty_blocks := bs\<rparr>" by (auto simp: sync_frame_def)
      have j2: "\<forall>b \<in> journal_area. view m2 b = replicate BLOCK_SIZE 0"
      proof
        fix b assume b: "b \<in> journal_area"
        then have "b \<notin> bm_blocks (bmap ?m)" using f(1) by (auto simp: bm_blocks_def journal_area_def)
        then have "view m2 b = view m1 b" using sf by (simp add: sync_frame_def)
        then show "view m2 b = replicate BLOCK_SIZE 0" using \<open>cache_inv chk m1 \<and> _\<close> b by simp
      qed
      show ?case
      proof (rule wpE_mono [OF write_all_result [OF c2 ok h]], goal_cases)
        case (1 sb' m3)
        then have c3: "cache_inv chk m3" and v3: "\<And>b. b \<notin> {SUPERBLOCK_START..<JOURNAL_START} \<Longrightarrow> view m3 b = view m2 b"
          and s3: "\<And>s. s < SUPERBLOCK_SLOTS \<Longrightarrow> view m3 (SUPERBLOCK_START + s) = sb_bytes (set_checksum h sb)" by auto
        have "mountable h c 0 ks (view m3) (set_checksum h sb) Map.empty"
        proof (rule mkfs_mounts [OF h n salt bm cnt ds])
          show "set_checksum h sb = set_checksum h (mkfs_superblock n (bm_free bm) META_END cnt ds salt)" by (simp add: sb)
          show "bmap m2 = bm\<lparr>bm_dirty_blocks := bs\<rparr>" by (rule bs)
          have "view m3 (bm_start (bmap m2) + i) = view m2 (bm_start (bmap m2) + i)" for i
            by (rule v3) (use bs f(1) in \<open>simp add: format_consts\<close>)
          then show "bm_on_disk (view m3) (bmap m2)" using od by (simp add: bm_on_disk_def)
          show "\<forall>b \<in> journal_area. view m3 b = replicate BLOCK_SIZE 0" using v3 j2 by (auto simp: journal_area_def)
          show "view m3 b = sb_bytes (set_checksum h sb)" if "b \<in> sb_area" for b
            using s3 [of "b - SUPERBLOCK_START"] that by (auto simp: sb_area_def)
        qed
        then show ?case
          using cache_flush_spec(5) [OF c3] gen by (intro wpE_I) (auto simp: view_def intro!: exI [of _ "set_checksum h sb"] exI [of _ "view m3"])
      qed simp
    qed simp
  qed simp
qed

lemma mkfs_spec:
  fixes m :: "'a fs_io_scheme"
  assumes env: "env_ok (cache_new m)" and h: "\<And>b. length (h b) = 32" and n: "\<And>n. block_count (dev m) = Some n \<Longrightarrow> n < 2 ^ 64 - 1"
    and salt: "16 \<le> length salt"
  shows "wpE (mkfs h salt) (\<lambda>_ m'. \<exists>sb. mountable h c 0 ks (view (cache_new m')) sb Map.empty \<and> sb_generation sb = 1) (\<lambda>_ _. True) m"
proof (cases "block_count (dev m)")
  case None
  then show ?thesis by (simp add: mkfs_def wpE_def)
next
  case (Some d)
  show ?thesis
  proof (cases "d < META_END + 16")
    case True
    then show ?thesis by (simp add: mkfs_def wpE_def Some)
  next
    case False
    note b = mkfs_body_spec [OF cache_new_spec [OF env, of "\<lambda>_. True"] h _ n [OF Some] salt, where c = c and ks = ks]
    show ?thesis
    proof (rule wpE_I, goal_cases)
      case (1 a m')
      then obtain m1 where m1: "mkfs_body h salt d (cache_new m) = (Inr a, m1)" "m' = restore_local m (cache_drop m1)"
        using Some False by (auto simp: mkfs_def with_local_def split: prod.splits)
      from wpE_InrD [OF b m1(1)] False obtain sb v where v: "mountable h c 0 ks v sb Map.empty" "sb_generation sb = 1"
        "\<forall>b < 2 ^ 64. media (dev m1) (actual (dev m1) b) = v b" "\<forall>b. 2 ^ 64 \<le> b \<longrightarrow> v b = replicate BLOCK_SIZE 0" by auto
      have "dev m' = dev m1" by (simp add: m1(2) restore_local_def cache_drop_def)
      then have "view (cache_new m') = v" using v(3,4) by (auto simp: cache_new_fields fun_eq_iff)
      with v show ?case by blast
    qed simp
  qed
qed


section \<open>What a commit leaves on the disk\<close>

text \<open>\<open>journalled j m0 m\<close>: the journal holds the frees of \<open>j\<close> and the superblock in memory points past them.\<close>

definition due :: "journal \<Rightarrow> (nat \<times> nat) list" where
  "due j = take journal_room (merge_frees (pending_frees j))"

definition due_blocks :: "journal \<Rightarrow> nat list" where
  "due_blocks j = map (journal_pos (j_head j)) [0..<length (chunks (due j))]"

definition journalled :: "journal \<Rightarrow> 'a fs_io_scheme \<Rightarrow> 'a fs_io_scheme \<Rightarrow> (nat \<Rightarrow> bytes) \<Rightarrow> bool" where
  "journalled j m0 m v1 \<longleftrightarrow> written (j_head j) (wrap64 (j_seq j + 1)) (chunks (due j)) (view m0) v1 \<and>
     sb_journal_head (fs_sb m) = (j_head j + length (chunks (due j))) mod JOURNAL_BLOCKS \<and> sb_journal_seq (fs_sb m) = wrap64 (j_seq j + 1) \<and>
     bm_on_disk (view m) (bmap m)"

lemma cache_flush_keeps:
  assumes c: "cache_inv chk m"
  shows "wpE cache_flush (\<lambda>_ m'. cache_inv chk m' \<and> view m' = view m \<and> dirty_set m' = {} \<and> io.more m' = io.more m) (\<lambda>_ _. True) m"
  using cache_flush_spec [OF c] by (intro wpE_I) (auto simp: quiet_def)

lemma barrier_content:
  fixes m :: "'a fs_io_scheme"
  assumes r: "represents h c n m M" and cr: "commit_ready m" and ne: "pending_frees (jrnl m) \<noteq> []"
  shows "wpE commit_barrier (\<lambda>_ m'. \<exists>v1. journalled (jrnl m) m m' v1 \<and> (\<forall>b \<in> journal_area. view m' b = v1 b) \<and>
     uncommitted_blocks (jrnl m') = due_blocks (jrnl m)) (\<lambda>_ _. True) m"
proof -
  let ?chk = "verify_node_checksum h"
  note p = represents_parts [OF r]
  have hd: "j_head (jrnl m) < JOURNAL_BLOCKS" using cr by (simp add: commit_ready_def heads_ok_def)
  show ?thesis
    unfolding commit_barrier_def wpE_bind wpE_modify
  proof (rule wpE_mono [OF prepare_spec [OF p(2) hd ne refl]], goal_cases)
    case (1 u m1)
    then have j: "jrn_step ?chk m m1" and w: "written (j_head (jrnl m)) (wrap64 (j_seq (jrnl m) + 1)) (chunks (due (jrnl m))) (view m) (view m1)"
      and jm: "j_head (jrnl m1) = (j_head (jrnl m) + length (chunks (due (jrnl m)))) mod JOURNAL_BLOCKS" "j_seq (jrnl m1) = wrap64 (j_seq (jrnl m) + 1)"
        "uncommitted_blocks (jrnl m1) = due_blocks (jrnl m)" by (auto simp: due_def due_blocks_def)
    define m2 where "m2 = m1\<lparr>fs_sb := (fs_sb m1)\<lparr>sb_journal_seq := j_seq (jrnl m1), sb_journal_head := j_head (jrnl m1)\<rparr>\<rparr>"
    have bm: "bmap m2 = bmap m" using j by (simp add: m2_def jrn_step_def)
    have v1: "\<And>b. b \<notin> journal_area \<Longrightarrow> view m1 b = view m b" using j by (simp add: jrn_step_def)
    have "view m1 (bm_start (bmap m) + i) = view m (bm_start (bmap m) + i)" for i
      by (rule v1) (use p(4) in \<open>auto simp: fs_layout_def journal_area_def\<close>)
    then have sy: "bm_synced (view m2) (bmap m2)" using cr unfolding bm by (simp add: m2_def commit_ready_def bm_synced_def)
    have c2: "cache_inv ?chk m2" "bm_inv (bmap m2)" using j p(3) bm by (simp_all add: m2_def jrn_step_def)
    show ?case
      unfolding m2_def [symmetric]
    proof (rule wpE_mono [OF bm_sync_spec [OF c2 sy]], goal_cases)
      case (1 u m3)
      then have c3: "cache_inv ?chk m3" and sf: "sync_frame m2 m3" and od: "bm_on_disk (view m3) (bmap m3)" by auto
      have j3: "\<forall>b \<in> journal_area. view m3 b = view m1 b"
        using sf p(4) bm by (auto simp: sync_frame_def fs_layout_def bm_blocks_def journal_area_def m2_def)
      have mo: "alloc_io.more m3 = alloc_io.more m2" using sf by (simp add: sync_frame_def)
      note f3 = fs_of_alloc [OF mo]
      show ?case
      proof (rule wpE_mono [OF cache_flush_keeps [OF c3]], goal_cases)
        case (1 u m4)
        note f4 = fs_of_io [of m4 m3]
        show ?case
        proof (rule wpE_I, goal_cases)
          case f: (1 u m')
          have d: "m' = m4\<lparr>dev := (next_call (dev m4))\<lparr>durable := media (dev m4), unflushed := []\<rparr>\<rparr>" using flush_device_cases [OF f] by auto
          have v: "view m' = view m4" unfolding d by (rule dev_same_view; simp)
          have "journalled (jrnl m) m m' (view m1)"
            unfolding journalled_def using w jm 1 f4 f3 v od by (simp add: d m2_def)
          moreover have "\<forall>b \<in> journal_area. view m' b = view m1 b" using j3 1 v by simp
          moreover have "uncommitted_blocks (jrnl m') = due_blocks (jrnl m)" using jm(3) 1 f4 f3 by (simp add: d m2_def)
          ultimately show ?case by blast
        qed simp
      qed simp
    qed simp
  qed simp
qed

text \<open>The contents after a commit that succeeded.\<close>

lemma commit_content:
  fixes m :: "'a fs_io_scheme"
  assumes r: "represents h c n (m\<lparr>pending_old_blocks := ps\<rparr>) M" and r0: "represents h c n m M"
    and cr: "commit_ready m" and d: "durable_map h c n' m sb0 N" and ne: "pending_frees (jrnl m) \<noteq> []"
    and h: "\<And>b. length (h b) = 32" and gen: "sb_generation sb0 < sb_generation (fs_sb m)"
  shows "wpE (commit h ps)
    (\<lambda>_ m'. \<exists>v1 bm. written (j_head (jrnl m)) (wrap64 (j_seq (jrnl m) + 1)) (chunks (due (jrnl m))) (view m) v1 \<and>
       sb_journal_head (fs_sb m') = (j_head (jrnl m) + length (chunks (due (jrnl m)))) mod JOURNAL_BLOCKS \<and>
       sb_journal_seq (fs_sb m') = wrap64 (j_seq (jrnl m) + 1) \<and> (\<forall>b \<in> journal_area. view m' b = committed_view (due_blocks (jrnl m)) v1 b) \<and>
       bm_on_disk (view m') bm \<and> bm_inv bm \<and> (\<exists>bs. bm = (bmap m)\<lparr>bm_dirty_blocks := bs\<rparr>) \<and> dirty_set m' = {} \<and>
       same_layout bm (bmap m') \<and> free_blocks (bmap m') = free_blocks bm \<union> set ps) (\<lambda>_ _. True) m"
proof -
  let ?chk = "verify_node_checksum h"
  note p0 = represents_parts [OF r0]
  have ps: "\<forall>b \<in> set ps. bm_data_start (bmap m) \<le> b \<and> b < bm_total (bmap m)" using r by (auto simp: represents_def used_ok_def)
  have bar: "wpE commit_barrier (\<lambda>_ m'. cleared ?chk m m' \<and> (\<exists>v1. journalled (jrnl m) m m' v1 \<and> (\<forall>b \<in> journal_area. view m' b = v1 b) \<and>
     uncommitted_blocks (jrnl m') = due_blocks (jrnl m))) (\<lambda>_ _. True) m"
    by (rule wpE_mono [OF wpE_conj [OF barrier_spec [OF r0 cr] barrier_content [OF r0 cr ne]]]) auto
  show ?thesis
    unfolding commit_split wpE_bind [of commit_barrier]
  proof (rule wpE_mono [OF bar], goal_cases)
    case (1 u m3)
    then obtain v1 where cl: "cleared ?chk m m3" and jl: "journalled (jrnl m) m m3 v1" and jv: "\<forall>b \<in> journal_area. view m3 b = v1 b"
      and ub: "uncommitted_blocks (jrnl m3) = due_blocks (jrnl m)" by auto
    have mt: "meta ?chk m m3" using cl by (simp add: cleared_def)
    then obtain bs where bs: "bmap m3 = (bmap m)\<lparr>bm_dirty_blocks := bs\<rparr>" and bi: "bm_inv (bmap m3)" by (auto simp: meta_def)
    have "sb_rest (fs_sb m3) = sb_rest (fs_sb m)" using mt by (simp add: meta_def)
    then have g3: "sb_generation sb0 < sb_generation (fs_sb m3)" using gen by (cases "fs_sb m", cases "fs_sb m3") (simp add: sb_rest_def)
    show ?case
      unfolding wpE_bind [of "write_sb h"]
    proof (rule wpE_mono [OF write_sb_spec [OF r0 d cl h g3]], goal_cases)
      case (1 u m4)
      then have mt4: "meta ?chk m m4" and v4: "\<And>b. b \<notin> sb_area \<Longrightarrow> view m4 b = view m3 b" and f4: "bmap m4 = bmap m3" "jrnl m4 = jrnl m3" "fs_sb m4 = set_checksum h (fs_sb m3)"
        and cr4: "commit_ready m4" and pf4: "pending_frees (jrnl m4) = []" by auto
      note p4 = represents_parts [OF represents_meta [OF r0 mt4]]
      have area: "set (uncommitted_blocks (jrnl m4)) \<subseteq> journal_area" "distinct (uncommitted_blocks (jrnl m4))"
        using cr4 pf4 by (auto simp: commit_ready_def heads_ok_def)
      show ?case
        unfolding wpE_bind wpE_modify
      proof (rule wpE_mono [OF finalize_spec [OF p4(2) area]], goal_cases)
        case (1 u m5)
        then have c5: "cache_inv ?chk m5" and j5: "jrnl_io.more m5 = jrnl_io.more m4" and v5: "view m5 = committed_view (due_blocks (jrnl m)) (view m4)"
          and b5: "bmap m5 = bmap m4" using f4(2) ub by (auto simp: jrn_step_def)
        show ?case
        proof (rule wpE_mono [OF cache_flush_keeps [OF c5]], goal_cases)
          case (1 u m6)
          note f6 = fs_of_io [OF conjunct2 [OF conjunct2 [OF conjunct2 [OF 1]]]]
          have c6: "cache_inv ?chk m6" "bm_inv (bmap m6)" using 1 f6 b5 f4(1) bi by simp_all
          have ps6: "\<forall>b \<in> set ps. bm_data_start (bmap m6) \<le> b \<and> b < bm_total (bmap m6)" using ps f6 b5 f4(1) bs by simp
          note fr = free_old_blocks_spec [OF c6 ps6]
          let ?m = "fold free_old_block ps m6"
          have mo: "alloc_io.more ?m = alloc_io.more m6" and vf: "\<And>b. b \<notin> set ps \<Longrightarrow> view ?m b = view m6 b"
            using fr by (auto simp: freed_all_def gives_back_def)
          have sb: "fs_sb ?m = set_checksum h (fs_sb m3)" using fs_of_alloc(1) [OF mo] f6(3) fs_of_jrnl(1) [OF j5] f4(3) by simp
          have low: "view ?m b = view m5 b" if "b \<in> meta_area (bmap m)" for b
          proof -
            have "b \<notin> set ps" using that ps data_outside [OF p0(4,3)] by blast
            then show ?thesis using vf 1 by simp
          qed
          have jn: "view ?m b = committed_view (due_blocks (jrnl m)) v1 b" if "b \<in> journal_area" for b
          proof -
            have "b \<notin> sb_area" using that journal_outside(1) by blast
            then have "view m4 b = v1 b" using v4 jv that by simp
            then show ?thesis using low that v5 by (simp add: meta_area_def committed_view_def)
          qed
          have "bm_on_disk (view ?m) (bmap m3)"
          proof -
            have "view ?m (bm_start (bmap m3) + i) = view m3 (bm_start (bmap m3) + i)" if i: "i < bm_count (bmap m3)" for i
            proof -
              have st: "META_END \<le> bm_start (bmap m3)" using p0(4) bs by (simp add: fs_layout_def)
              have out: "bm_start (bmap m3) + i \<notin> sb_area" "bm_start (bmap m3) + i \<notin> journal_area"
                using st by (auto simp: sb_area_def journal_area_def format_consts)
              have "bm_start (bmap m3) + i \<in> meta_area (bmap m)" using i bs by (simp add: meta_area_def bm_blocks_def)
              moreover have "bm_start (bmap m3) + i \<notin> set (due_blocks (jrnl m))" using out(2) area f4(2) ub by auto
              ultimately show ?thesis using low v5 v4 [OF out(1)] by (simp add: committed_view_def)
            qed
            then show ?thesis using jl by (simp add: journalled_def bm_on_disk_def)
          qed
          moreover have "dirty_set ?m = {}" using fr 1 by (auto simp: freed_all_def gives_back_def calm_def)
          moreover have "same_layout (bmap m3) (bmap ?m)" "free_blocks (bmap ?m) = free_blocks (bmap m3) \<union> set ps"
            using fr f6(1) b5 f4(1) by (auto simp: freed_all_def gives_back_def tracks_def)
          ultimately show ?case using jl jn bi bs sb by (auto simp: journalled_def set_checksum_def)
        qed simp
      qed simp
    qed simp
  qed simp
qed

lemma replay_pure_cong:
  "(\<And>i. i \<in> set is \<Longrightarrow> v' (JOURNAL_START + replay_pos head i) = v (JOURNAL_START + replay_pos head i)) \<Longrightarrow> replay_pure v' head seq is = replay_pure v head seq is"
  by (induction "is") (auto simp: Let_def)

lemma due_frees:
  assumes "pending_frees j = map (\<lambda>b. (b, 1)) ps" and "\<forall>b \<in> set ps. 0 < b \<and> b + 1 < 2 ^ 64"
  shows "cover (due j) \<subseteq> set ps" "list_all free_ok (due j)"
proof -
  have ok: "list_all free_ok (pending_frees j)" "\<And>s n. (s, n) \<in> set (pending_frees j) \<Longrightarrow> s + n < 2 ^ 64"
    using assms by (auto simp: list_all_iff free_ok_def)
  note m = merge_frees_cover [OF ok(2,1)]
  have "set (due j) \<subseteq> set (merge_frees (pending_frees j))" by (auto simp: due_def dest: in_set_takeD)
  then have "cover (due j) \<subseteq> cover (merge_frees (pending_frees j))" "list_all free_ok (due j)"
    using m(2) unfolding cover_def list_all_iff by blast+
  moreover have "cover (pending_frees j) = set ps" by (auto simp: assms(1) cover_def)
  ultimately show "cover (due j) \<subseteq> set ps" "list_all free_ok (due j)" using m(1) by auto
qed

lemma run_inside:
  assumes "free_ok (s, k)" and "{s..<s + k} \<subseteq> {a..<b}"
  shows "a \<le> s \<and> s + k \<le> (b :: nat)"
proof -
  have "0 < k" using assms(1) by (simp add: free_ok_def)
  then have "s \<in> {s..<s + k}" "s + k - 1 \<in> {s..<s + k}" by auto
  with assms(2) have "s \<in> {a..<b}" "s + k - 1 \<in> {a..<b}" by blast+
  then show ?thesis using \<open>0 < k\<close> by auto
qed

lemma committed_frees:
  assumes w: "written (j_head j) (wrap64 (j_seq j + 1)) (chunks (due j)) v0 v1" and hd: "j_head j < JOURNAL_BLOCKS" and sq: "j_seq j + 1 < 2 ^ 64"
    and sb: "sb_journal_head sb = (j_head j + length (chunks (due j))) mod JOURNAL_BLOCKS" "sb_journal_seq sb = wrap64 (j_seq j + 1)"
    and jv: "\<forall>b \<in> journal_area. v b = committed_view (due_blocks j) v1 b" and old: "\<forall>b \<in> journal_area. stale (j_seq j + 1) (v0 b)"
    and pf: "pending_frees j = map (\<lambda>b. (b, 1)) ps" and ps: "\<forall>b \<in> set ps. 0 < b \<and> b + 1 < 2 ^ 64 \<and> bm_data_start bm \<le> b \<and> b < bm_total bm"
    and U: "U \<inter> set ps = {}"
  shows "frees_safe bm U (replayed v sb)"
proof -
  have d: "cover (due j) \<subseteq> set ps" "list_all free_ok (due j)" using due_frees [OF pf] ps by auto
  have len: "length (chunks (due j)) \<le> JOURNAL_BLOCKS" by (rule chunks_room) (simp add: due_def)
  have w64: "wrap64 (j_seq j + 1) = j_seq j + 1" "j_seq j + 1 < 2 ^ 64" using sq by simp_all
  have "replayed v sb = replay_pure (committed_view (due_blocks j) v1) (sb_journal_head sb) (sb_journal_seq sb) [0..<JOURNAL_BLOCKS]"
    unfolding replayed_def
  proof (rule replay_pure_cong)
    fix i assume "i \<in> set [0..<JOURNAL_BLOCKS]"
    moreover have "sb_journal_head sb < JOURNAL_BLOCKS" by (simp add: sb JOURNAL_BLOCKS_def)
    ultimately have "JOURNAL_START + replay_pos (sb_journal_head sb) i \<in> journal_area"
      using replay_pos_less by (simp add: journal_area_def META_END_def)
    then show "v (JOURNAL_START + replay_pos (sb_journal_head sb) i) = committed_view (due_blocks j) v1 (JOURNAL_START + replay_pos (sb_journal_head sb) i)"
      using jv by blast
  qed
  also have "\<dots> = concat (rev (chunks (due j)))"
    unfolding sb due_blocks_def w64(1)
    by (rule journal_round_trip [OF hd w64(2) w [unfolded w64(1)] len d(2)]) (use old in blast)
  finally have "set (replayed v sb) = set (concat (chunks (due j)))" by simp
  then have st: "set (replayed v sb) = set (due j)" unfolding chunks_concat .
  then have cv: "cover (replayed v sb) = cover (due j)" by (simp add: cover_def)
  have "bm_data_start bm \<le> s \<and> s + k \<le> bm_total bm" if "(s, k) \<in> set (due j)" for s k
  proof (rule run_inside)
    show "free_ok (s, k)" using d(2) that by (auto simp: list_all_iff)
    have "{s..<s + k} \<subseteq> cover (due j)" using that by (auto simp: cover_def)
    then show "{s..<s + k} \<subseteq> {bm_data_start bm..<bm_total bm}" using d(1) ps by fastforce
  qed
  then show ?thesis using st cv d(1) U by (auto simp: frees_safe_def)
qed


section \<open>Committed, cut off and mounted again\<close>

definition disk_image :: "'a io_scheme \<Rightarrow> (nat \<Rightarrow> bytes) \<Rightarrow> nat \<Rightarrow> bytes" where
  "disk_image m img b = (if b < 2 ^ 64 then img (actual (dev m) b) else replicate BLOCK_SIZE 0)"

lemma geometry_rest: "sb_rest sb' = sb_rest sb \<Longrightarrow> same_geometry sb' bm = same_geometry sb bm"
  by (cases sb; cases sb') (simp add: sb_rest_def same_geometry_def)

lemma committed_stale:
  assumes w: "written (j_head j) s (chunks (due j)) v0 v1" and s: "s < 2 ^ 64" and old: "\<forall>b \<in> journal_area. stale s (v0 b)" and b: "b \<in> journal_area"
  shows "stale (s + 1) (committed_view (due_blocks j) v1 b)"
proof (cases "b \<in> set (due_blocks j)")
  case True
  then obtain i where i: "i < length (chunks (due j))" "b = journal_pos (j_head j) i" by (auto simp: due_blocks_def)
  have "committed_view (due_blocks j) v1 b = committed_buf s (chunks (due j) ! i)"
    using True w i by (simp add: committed_view_def written_def committed_buf_def)
  moreover have "length (chunks (due j) ! i) \<le> MAX_JOURNAL_ENTRIES" using i(1) chunks_small nth_mem by blast
  ultimately show ?thesis using committed_buf_fields(2) [OF _ s] by (simp add: stale_def)
next
  case False
  then have "committed_view (due_blocks j) v1 b = v0 b" using w by (auto simp: committed_view_def written_def due_blocks_def atLeast0LessThan)
  then show ?thesis using old b by (auto simp: stale_def)
qed

lemma commit_mountable:
  fixes m :: "'a fs_io_scheme"
  assumes dm: "durable_map h c n m' (fs_sb m') M" and cr: "commit_ready m'" and clean: "dirty_set m' = {}"
    and lay: "same_layout bm (bmap m')" and free: "free_blocks (bmap m') = free_blocks bm \<union> set ps" "free_blocks bm \<subseteq> {bm_data_start bm..}"
    and bm: "bm_inv bm" "bm_on_disk (view m') bm" and geo: "same_geometry (fs_sb m') bm"
    and fr: "\<And>U. U \<inter> set ps = {} \<Longrightarrow> frees_safe bm U (replayed (view m') (fs_sb m'))" and hd: "sb_journal_head (fs_sb m') < JOURNAL_BLOCKS"
    and jr: "\<forall>b \<in> journal_area. stale (sb_journal_seq (fs_sb m') + 1) (view m' b)"
  shows "mountable h c n (disk_key m') (view m') (fs_sb m') M"
proof -
  from dm obtain U where U: "newest h (view m') = Some (fs_sb m')" "disk_map h c n (disk_key m') (bmap m') (view m') (sb_btree_root (fs_sb m')) U M"
    "U \<subseteq> in_use (bmap m')" unfolding durable_map_def by blast
  have g: "good_extent bm = good_extent (bmap m')" using lay by (simp add: good_extent_def same_layout_def fun_eq_iff)
  have "disk_map h c n (disk_key m') bm (view m') (sb_btree_root (fs_sb m')) U M" by (rule disk_map_cong [OF U(2) refl g])
  moreover have "U \<subseteq> in_use bm" "U \<inter> set ps = {}" using U(3) free lay by (auto simp: in_use_def same_layout_def)
  ultimately have "mounts_with h c n (disk_key m') (view m') (fs_sb m') M bm U"
    using U(1) cr hd bm geo free(2) fr jr by (simp add: mounts_with_def commit_ready_def)
  then show ?thesis unfolding mountable_def by blast
qed

lemma commit_root_mountable:
  fixes m :: "'a fs_io_scheme"
  assumes r: "represents h c n m M" and cr: "commit_ready m" and d: "durable_map h c n' m sb0 N" and ji: "journal_idle m"
    and h: "\<And>b. length (h b) = 32" and nr: "length new_root = 32" and gen: "sb_generation sb0 \<le> fs_generation m" "fs_generation m + 1 < 2 ^ 64"
    and new: "pending_old_blocks m \<noteq> []"
  shows "wpE (bindE (commit_root h new_root) (\<lambda>_. on_dev flush_device))
    (\<lambda>_ m'. \<forall>img \<in> crash_images (dev m'). mountable h c n (disk_key m') (disk_image m' img) (fs_sb m') M) (\<lambda>_ _. True) m"
proof -
  let ?chk = "verify_node_checksum h" and ?ps = "pending_old_blocks m"
  define m1 where "m1 = commit_root_state new_root m"
  note p = represents_parts [OF r]
  have new': "sb_root_tree_hash (fs_sb m) \<noteq> new_root \<or> ?ps \<noteq> []" using new by simp
  note st = commit_root_start [OF r cr d nr gen new' m1_def]
  have pf: "pending_frees (jrnl m1) = map (\<lambda>b. (b, 1)) ?ps" "j_head (jrnl m1) = j_head (jrnl m)" "j_seq (jrnl m1) = j_seq (jrnl m)"
    using ji record_frees [of ?ps "jrnl m"] by (simp_all add: m1_def commit_root_state_def journal_idle_def)
  then have ne: "pending_frees (jrnl m1) \<noteq> []" using new by simp
  have hd: "j_head (jrnl m1) < JOURNAL_BLOCKS" using cr pf(2) by (simp add: commit_ready_def heads_ok_def)
  have geo: "same_geometry (fs_sb m1) (bmap m)" and sq: "j_seq (jrnl m1) + 1 < 2 ^ 64" and old: "\<forall>b \<in> journal_area. stale (j_seq (jrnl m1) + 1) (view m1 b)"
    using ji pf(3) st(8) by (auto simp: journal_idle_def m1_def commit_root_state_def same_geometry_def)
  have psd: "\<forall>b \<in> set ?ps. 0 < b \<and> b + 1 < 2 ^ 64 \<and> bm_data_start (bmap m) \<le> b \<and> b < bm_total (bmap m)"
  proof
    fix b assume b: "b \<in> set ?ps"
    have "bm_data_start (bmap m) \<le> b \<and> b < bm_total (bmap m)" using r b by (auto simp: represents_def used_ok_def)
    moreover have "0 < bm_data_start (bmap m)" "bm_total (bmap m) < 2 ^ 64 - 1"
      using p(3,4) ji by (auto simp: fs_layout_def bm_inv_def format_consts journal_idle_def same_geometry_def)
    ultimately show "0 < b \<and> b + 1 < 2 ^ 64 \<and> bm_data_start (bmap m) \<le> b \<and> b < bm_total (bmap m)" by simp
  qed
  have "wpE (bindE (commit h ?ps) (\<lambda>_. note_commit))
    (\<lambda>_ m'. mountable h c n (disk_key m') (view m') (fs_sb m') M \<and> dirty_set m' = {} \<and> cache_inv ?chk m') (\<lambda>_ _. True) m1"
    unfolding wpE_bind
  proof (rule wpE_mono [OF wpE_conj [OF commit_spec [OF st(3,4,2,6,5) h st(7)] commit_content [OF st(3,2,6,5) ne h st(7)]]], goal_cases)
    case (1 u m')
    then obtain v1 bm bs where dm: "durable_map h c n m' (fs_sb m') M" and rp: "represents h c n m' M" and cr': "commit_ready m'" and rest: "sb_rest (fs_sb m') = sb_rest (fs_sb m1)"
      and w: "written (j_head (jrnl m1)) (wrap64 (j_seq (jrnl m1) + 1)) (chunks (due (jrnl m1))) (view m1) v1"
      and sb: "sb_journal_head (fs_sb m') = (j_head (jrnl m1) + length (chunks (due (jrnl m1)))) mod JOURNAL_BLOCKS" "sb_journal_seq (fs_sb m') = wrap64 (j_seq (jrnl m1) + 1)"
      and jv: "\<forall>b \<in> journal_area. view m' b = committed_view (due_blocks (jrnl m1)) v1 b"
      and bm: "bm_on_disk (view m') bm" "bm_inv bm" "bm = (bmap m1)\<lparr>bm_dirty_blocks := bs\<rparr>" and clean: "dirty_set m' = {}"
      and lay: "same_layout bm (bmap m')" "free_blocks (bmap m') = free_blocks bm \<union> set ?ps" by (elim conjE exE) (rule that, assumption+)
    have bmf: "bm_data_start bm = bm_data_start (bmap m)" "bm_total bm = bm_total (bmap m)" "free_blocks bm = free_blocks (bmap m)" "same_geometry sb bm = same_geometry sb (bmap m)" for sb
      using bm(3) st(9) by (simp_all add: free_blocks_def same_geometry_def)
    have "mountable h c n (disk_key m') (view m') (fs_sb m') M"
    proof (rule commit_mountable [OF dm cr' clean lay _ bm(2,1)])
      show "free_blocks bm \<subseteq> {bm_data_start bm..}" using p(5) bmf by simp
      show "same_geometry (fs_sb m') bm" using geo geometry_rest [OF rest] bmf(4) by simp
      show "sb_journal_head (fs_sb m') < JOURNAL_BLOCKS" by (simp add: sb JOURNAL_BLOCKS_def)
      show "\<forall>b \<in> journal_area. stale (sb_journal_seq (fs_sb m') + 1) (view m' b)"
        using committed_stale [OF w, of _] sq old jv sb(2) by simp
      show "frees_safe bm U (replayed (view m') (fs_sb m'))" if "U \<inter> set ?ps = {}" for U
        by (rule committed_frees [OF w hd sq sb jv old pf(1) _ that]) (use psd bmf in simp)
    qed
    then show ?case
      by (intro wpE_mono [OF note_commit_keeps [where M = M and sb = "fs_sb m'" and h = h and c = c and n = n and chk = ?chk]])
        (use clean represents_parts(2) [OF rp] in auto)
  qed simp
  then have run: "wpE (commit_root h new_root) (\<lambda>_ m'. mountable h c n (disk_key m') (view m') (fs_sb m') M \<and> dirty_set m' = {} \<and> cache_inv ?chk m') (\<lambda>_ _. True) m"
    unfolding wpE_def st(1) .
  show ?thesis
    unfolding wpE_bind
  proof (rule wpE_mono [OF run], goal_cases)
    case (1 u m2)
    show ?case
    proof (rule wpE_I, goal_cases)
      case f: (1 u m')
      have dv: "m' = m2\<lparr>dev := (next_call (dev m2))\<lparr>durable := media (dev m2), unflushed := []\<rparr>\<rparr>" using flush_device_cases [OF f] by auto
      have act: "actual (dev m') = actual (dev m2)" by (simp add: dv actual_def fun_eq_iff)
      show ?case
      proof
        fix img assume "img \<in> crash_images (dev m')"
        then have "img = media (dev m2)" by (auto simp: crash_images_def dv fun_eq_iff)
        then have "disk_image m' img = view m2"
          using clean_media [of ?chk m2] 1 unfolding disk_image_def act by (auto simp: fun_eq_iff view_def)
        then show "mountable h c n (disk_key m') (disk_image m' img) (fs_sb m') M" using 1 by (simp add: dv)
      qed
    qed simp
  qed simp
qed

end
