(* ===== verification/Fsck.thy ===== *)
theory Fsck
  imports Object_Storage
begin

text \<open>
  The read-only self-check of \<open>kernel/src/storage/npkfs/storage.rs\<close> (\<open>fsck_mark\<close>, \<open>self_check\<close>): two bit
  vectors of \<open>u64\<close> words mark the blocks seen once and seen again. The counters of the report are natural numbers:
  a run marks fewer than \<open>2 ^ 64\<close> blocks. The lemmas relate the report to the list of blocks that were marked.
\<close>

section \<open>Definitions\<close>

record fsck_report =
  rep_total_blocks :: nat
  rep_objects :: nat
  rep_btree_nodes :: nat
  rep_referenced :: nat
  rep_double_alloc :: nat
  rep_out_of_range :: nat
  rep_free_but_referenced :: nat
  rep_first_dup_block :: nat
  rep_first_oor_ptr :: nat
  rep_bad_nodes :: nat
  rep_first_bad_node :: "(nat \<times> string) option"

type_synonym fsck = "u64 list \<times> u64 list \<times> fsck_report"

definition fsck_mark :: "nat \<Rightarrow> fsck \<Rightarrow> fsck" where
  "fsck_mark block = (\<lambda>(seen, dup, rep).
     if block \<ge> rep_total_blocks rep
     then (seen, dup, rep\<lparr>rep_out_of_range := rep_out_of_range rep + 1,
                          rep_first_oor_ptr := if rep_first_oor_ptr rep = 0 then block else rep_first_oor_ptr rep\<rparr>)
     else let w = block div 64; b = push_bit (block mod 64) 1 in
       if seen ! w AND b \<noteq> 0
       then (seen, dup[w := dup ! w OR b],
             if dup ! w AND b = 0
             then rep\<lparr>rep_double_alloc := rep_double_alloc rep + 1,
                      rep_first_dup_block := if rep_first_dup_block rep = 0 then block else rep_first_dup_block rep\<rparr>
             else rep)
       else (seen[w := seen ! w OR b], dup, rep\<lparr>rep_referenced := rep_referenced rep + 1\<rparr>))"

definition fsck_extents :: "nat \<Rightarrow> nat \<Rightarrow> extent list \<Rightarrow> fsck \<Rightarrow> fsck" where
  "fsck_extents data_start disk_blocks =
     fold (\<lambda>x f. if \<not> extent_in_data_area x data_start disk_blocks then f else fold fsck_mark (extent_blocks x) f)"

definition fsck_entry :: "nat \<Rightarrow> nat \<Rightarrow> btree_entry \<Rightarrow> fsck \<times> 'a fs_io_scheme \<Rightarrow> fsck \<times> 'a fs_io_scheme" where
  "fsck_entry data_start disk_blocks e = (\<lambda>(f, m).
     let f1 = fsck_extents data_start disk_blocks (direct_extents e) f
     in if indirect_block e = 0 then (f1, m)
        else case read_indirect_chain (indirect_block e) m of
               (Inl _, m') \<Rightarrow> (f1, m')
             | (Inr (exts, chain), m') \<Rightarrow> (fsck_extents data_start disk_blocks exts (fold fsck_mark chain f1), m'))"

text \<open>\<open>u64::trailing_zeros\<close> of a word that is not zero, and the loop over the set bits of a word.\<close>

definition trailing_zeros :: "u64 \<Rightarrow> nat" where
  "trailing_zeros w = (case position (bit w) [0..<64] of Some i \<Rightarrow> i | None \<Rightarrow> 64)"

function word_bits :: "u64 \<Rightarrow> nat list" where
  "word_bits w = (if w = 0 then [] else trailing_zeros w # word_bits (w AND (w - 1)))"
  by pat_completeness auto
termination
proof (relation "measure unat")
  fix w :: u64
  assume "w \<noteq> 0"
  have "w AND (w - 1) \<le> w - 1" by (rule word_and_le1)
  then have "unat (w AND (w - 1)) \<le> unat (w - 1)" by (simp add: word_le_nat_alt)
  also have "\<dots> < unat w" using \<open>w \<noteq> 0\<close> by (rule measure_unat)
  finally show "(w AND (w - 1), w) \<in> measure unat" by simp
qed simp

declare word_bits.simps [simp del]

definition seen_blocks :: "u64 list \<Rightarrow> nat list" where
  "seen_blocks seen = concat (map (\<lambda>w. map (\<lambda>b. w * 64 + b) (word_bits (seen ! w))) [0..<length seen])"

definition fsck_start :: "nat \<Rightarrow> nat list \<Rightarrow> btree_entry list \<Rightarrow> (nat \<times> string) list \<Rightarrow> fsck" where
  "fsck_start total_blocks nodes es bad =
     (let words = (total_blocks + 63) div 64
      in (replicate words 0, replicate words 0,
          \<lparr>rep_total_blocks = total_blocks, rep_objects = length es, rep_btree_nodes = length nodes, rep_referenced = 0,
           rep_double_alloc = 0, rep_out_of_range = 0, rep_free_but_referenced = 0, rep_first_dup_block = 0,
           rep_first_oor_ptr = 0, rep_bad_nodes = length bad,
           rep_first_bad_node = (case bad of [] \<Rightarrow> None | b # _ \<Rightarrow> Some b)\<rparr>))"

definition fsck_finish :: "bitmap \<Rightarrow> fsck \<Rightarrow> fsck_report" where
  "fsck_finish bm = (\<lambda>(seen, dup, rep).
     rep\<lparr>rep_free_but_referenced := length (filter (\<lambda>b. \<not> is_allocated b bm) (seen_blocks seen))\<rparr>)"

definition self_check :: "(bytes \<Rightarrow> bytes) \<Rightarrow> ('a fs_io_scheme, fs_error, fsck_report) op" where
  "self_check h = bindE need_mounted (\<lambda>_ m.
     case collect_for_fsck h (sb_btree_root (fs_sb m)) m of
       ((nodes, es, bad), m1) \<Rightarrow>
         let f = fold fsck_mark nodes (fsck_start (bm_total (bmap m)) nodes es bad);
             (f', m2) = fold (fsck_entry (sb_data_start (fs_sb m)) (sb_total_blocks (fs_sb m))) es (f, m1)
         in (Inr (fsck_finish (bmap m2) f'), m2))"

section \<open>The report counts the marked blocks\<close>

lemma trailing_zeros_bits:
  assumes "w \<noteq> 0"
  shows "trailing_zeros w < 64" and "bit w (trailing_zeros w)" and "i < trailing_zeros w \<Longrightarrow> \<not> bit w i"
proof -
  have "\<exists>i. bit w i" using assms by (metis bit_eq_iff bit_0_eq bot_apply bot_bool_def)
  then obtain k where "bit w k" by blast
  moreover from bit_imp_le_length [OF this] have "k \<in> set [0..<64]" by simp
  ultimately obtain j where j: "position (bit w) [0..<64] = Some j"
    by (meson option.exhaust position_None_iff)
  note p = position_SomeD [OF j]
  have t: "trailing_zeros w = j" by (simp add: trailing_zeros_def j)
  show "trailing_zeros w < 64" and "bit w (trailing_zeros w)" and "i < trailing_zeros w \<Longrightarrow> \<not> bit w i"
    using p t by auto
qed

lemma clear_lowest_bit:
  assumes "w \<noteq> 0"
  shows "bit (w AND (w - 1)) i \<longleftrightarrow> bit w i \<and> i \<noteq> trailing_zeros w"
proof -
  let ?b = "trailing_zeros w"
  note t = trailing_zeros_bits [OF assms]
  define w' where "w' = unset_bit ?b w"
  have w: "w = w' OR push_bit ?b 1"
    using t by (intro bit_word_eqI) (auto simp: bit_simps w'_def)
  have plus: "w = w' + push_bit ?b 1"
    by (subst w, rule disjunctive_add_eq_or [symmetric], rule bit_word_eqI) (auto simp: bit_simps w'_def)
  have "w - 1 = w' + mask ?b"
    by (subst plus) (simp add: mask_eq_exp_minus_1 push_bit_eq_mult)
  also have "\<dots> = w' OR mask ?b"
    using t(3) by (intro disjunctive_add_eq_or bit_word_eqI) (auto simp: bit_simps w'_def)
  finally have m: "w - 1 = w' OR mask ?b" .
  show ?thesis
    using t unfolding m by (auto simp: bit_simps w'_def)
qed

lemma word_bits_filter: "word_bits w = filter (bit w) [0..<64]"
proof (induction w rule: word_bits.induct)
  case (1 w)
  show ?case
  proof (cases "w = 0")
    case True
    then show ?thesis by (simp add: word_bits.simps [of 0])
  next
    case False
    let ?b = "trailing_zeros w"
    note t = trailing_zeros_bits [OF False]
    have s: "[0..<64] = [0..<?b] @ ?b # [Suc ?b..<64]"
      using t(1) by (metis le0 less_imp_le_nat upt_add_eq_append upt_conv_Cons le_add_diff_inverse)
    have "word_bits w = ?b # filter (bit (w AND (w - 1))) [0..<64]"
      using False 1 by (simp add: word_bits.simps [of w])
    also have "filter (bit (w AND (w - 1))) [0..<64] = filter (bit w) [Suc ?b..<64]"
    proof -
      have "filter (bit (w AND (w - 1))) [0..<?b] = []" using t(3) False by (simp add: clear_lowest_bit filter_empty_conv)
      moreover have "filter (bit (w AND (w - 1))) [Suc ?b..<64] = filter (bit w) [Suc ?b..<64]"
        by (rule filter_cong) (auto simp: clear_lowest_bit False)
      ultimately show ?thesis unfolding s by (simp add: clear_lowest_bit False)
    qed
    also have "?b # filter (bit w) [Suc ?b..<64] = filter (bit w) [0..<64]"
    proof -
      have "filter (bit w) [0..<?b] = []" using t(3) by (simp add: filter_empty_conv)
      then show ?thesis unfolding s using t(2) by simp
    qed
    finally show ?thesis .
  qed
qed

definition wbit :: "u64 list \<Rightarrow> nat \<Rightarrow> bool" where
  "wbit ws b \<longleftrightarrow> bit (ws ! (b div 64)) (b mod 64)"

lemma and_push_bit_iff: "(w :: u64) AND push_bit n 1 \<noteq> 0 \<longleftrightarrow> n < 64 \<and> bit w n"
proof -
  have "bit (w AND push_bit n 1) i \<longleftrightarrow> n < 64 \<and> bit w n \<and> i = n" for i by (auto simp: bit_simps)
  then show ?thesis using bit_eq_iff [of "w AND push_bit n 1" 0] by auto
qed

lemma wbit_update:
  assumes "b div 64 < length ws"
  shows "wbit (ws[b div 64 := ws ! (b div 64) OR push_bit (b mod 64) 1]) c \<longleftrightarrow> wbit ws c \<or> c = b"
proof (cases "c div 64 = b div 64")
  case True
  then have "c mod 64 = b mod 64 \<longleftrightarrow> c = b" by (metis div_mult_mod_eq)
  with True assms show ?thesis by (auto simp: wbit_def bit_simps)
next
  case False
  then show ?thesis by (auto simp: wbit_def)
qed

lemma upt_shift: "[0..<n + k] = [0..<n] @ map ((+) n) [0..<k]"
  by (induction k) simp_all

lemma seen_blocks_filter: "seen_blocks ws = filter (wbit ws) [0..<64 * length ws]"
proof (induction ws rule: rev_induct)
  case (snoc w ws)
  have old: "map (\<lambda>i. map (\<lambda>b. i * 64 + b) (word_bits ((ws @ [w]) ! i))) [0..<length ws] =
      map (\<lambda>i. map (\<lambda>b. i * 64 + b) (word_bits (ws ! i))) [0..<length ws]"
    by (rule map_cong) (simp_all add: nth_append)
  have low: "filter (wbit (ws @ [w])) [0..<64 * length ws] = filter (wbit ws) [0..<64 * length ws]"
    by (rule filter_cong) (auto simp: wbit_def nth_append)
  have high: "filter (wbit (ws @ [w])) (map (\<lambda>b. length ws * 64 + b) [0..<64]) =
      map (\<lambda>b. length ws * 64 + b) (filter (bit w) [0..<64])"
    unfolding filter_map by (rule arg_cong [where f = "map _"], rule filter_cong) (auto simp: wbit_def)
  have split: "[0..<64 * length (ws @ [w])] = [0..<64 * length ws] @ map (\<lambda>b. length ws * 64 + b) [0..<64]"
    using upt_shift [of "64 * length ws" 64] by (simp only: length_append list.size distrib_left mult.commute [of _ 64]) simp
  show ?case
    unfolding split filter_append low high
    unfolding snoc [symmetric] seen_blocks_def length_append_singleton upt_Suc_append [OF zero_le] map_append concat_append old
    by (simp add: word_bits_filter del: upt_Suc)
qed (simp add: seen_blocks_def)

text \<open>\<open>marked bs f\<close>: what the vectors and counters of \<open>f\<close> say after the blocks \<open>bs\<close> were marked in this order.\<close>

definition marked :: "nat \<Rightarrow> nat list \<Rightarrow> fsck \<Rightarrow> bool" where
  "marked total_blocks bs = (\<lambda>(seen, dup, rep).
     rep_total_blocks rep = total_blocks \<and> length seen = (total_blocks + 63) div 64 \<and> length dup = length seen \<and>
     (\<forall>b < 64 * length seen. wbit seen b = (b \<in> set bs \<and> b < total_blocks)) \<and>
     (\<forall>b < 64 * length seen. wbit dup b = (2 \<le> count_list bs b \<and> b < total_blocks)) \<and>
     rep_referenced rep = card {b \<in> set bs. b < total_blocks} \<and>
     rep_double_alloc rep = card {b. 2 \<le> count_list bs b \<and> b < total_blocks} \<and>
     rep_out_of_range rep = length (filter (\<lambda>b. total_blocks \<le> b) bs))"

lemma fsck_start_marked: "marked t [] (fsck_start t nodes es bad)"
  by (auto simp: marked_def fsck_start_def Let_def wbit_def)

lemma fsck_mark_marked:
  assumes "marked t bs f"
  shows "marked t (bs @ [b]) (fsck_mark b f)"
proof -
  obtain seen dup rep where f: "f = (seen, dup, rep)" by (cases f)
  note inv = assms [unfolded f marked_def prod.case]
  have cl: "count_list (bs @ [b]) c = count_list bs c + (if c = b then 1 else 0)" for c by simp
  show ?thesis
  proof (cases "t \<le> b")
    case True
    have "{c. 2 \<le> count_list (bs @ [b]) c \<and> c < t} = {c. 2 \<le> count_list bs c \<and> c < t}"
      and "{c \<in> set (bs @ [b]). c < t} = {c \<in> set bs. c < t}" using True by (auto simp: cl split: if_splits)
    with True inv show ?thesis
      by (auto simp: f fsck_mark_def marked_def)
  next
    case False
    then have w: "b div 64 < length seen" "b div 64 < length dup" and b64: "b < 64 * length seen" using inv by simp_all
    have sb: "seen ! (b div 64) AND push_bit (b mod 64) 1 \<noteq> 0 \<longleftrightarrow> b \<in> set bs"
      and db: "dup ! (b div 64) AND push_bit (b mod 64) 1 \<noteq> 0 \<longleftrightarrow> 2 \<le> count_list bs b"
      unfolding and_push_bit_iff using inv b64 False by (simp_all flip: wbit_def)
    show ?thesis
    proof (cases "b \<in> set bs")
      case True
      then have "1 \<le> count_list bs b" by (metis One_nat_def Suc_leI count_list_0_iff neq0_conv)
      then have c2: "2 \<le> count_list (bs @ [b]) c \<longleftrightarrow> 2 \<le> count_list bs c \<or> c = b" for c by (auto simp: cl)
      have "{c. 2 \<le> count_list (bs @ [b]) c \<and> c < t} = insert b {c. 2 \<le> count_list bs c \<and> c < t}"
        unfolding c2 using False by auto
      moreover have "finite {c. 2 \<le> count_list bs c \<and> c < t}" by simp
      ultimately have card: "card {c. 2 \<le> count_list (bs @ [b]) c \<and> c < t} =
          card {c. 2 \<le> count_list bs c \<and> c < t} + (if 2 \<le> count_list bs b then 0 else 1)"
        using False by (simp add: card_insert_if)
      have "{c \<in> set (bs @ [b]). c < t} = {c \<in> set bs. c < t}" using True by auto
      with True False inv sb db card c2 w show ?thesis
        by (simp add: f fsck_mark_def marked_def Let_def wbit_update del: push_bit_of_1, fastforce?)
    next
      case new: False
      then have "count_list bs b = 0" by simp
      then have c2: "2 \<le> count_list (bs @ [b]) c \<longleftrightarrow> 2 \<le> count_list bs c" for c by (auto simp: cl)
      have "{c \<in> set (bs @ [b]). c < t} = insert b {c \<in> set bs. c < t}" using False by auto
      then have "card {c \<in> set (bs @ [b]). c < t} = card {c \<in> set bs. c < t} + 1" using new by simp
      with new False inv sb db c2 w show ?thesis
        by (simp add: f fsck_mark_def marked_def Let_def wbit_update del: push_bit_of_1, fastforce?)
    qed
  qed
qed

lemma fsck_marks_marked: "marked t bs f \<Longrightarrow> marked t (bs @ cs) (fold fsck_mark cs f)"
proof (induction cs arbitrary: bs f)
  case (Cons c cs)
  from Cons.IH [OF fsck_mark_marked [OF Cons.prems]] show ?case by simp
qed simp

text \<open>What the scan refers to, without bit vectors: the nodes of the tree, and of each entry the blocks of its
  extents in the data area and its chain blocks, in the order of the scan.\<close>

definition sound_blocks :: "nat \<Rightarrow> nat \<Rightarrow> extent list \<Rightarrow> nat list" where
  "sound_blocks data_start disk_blocks exts =
     concat (map extent_blocks (filter (\<lambda>x. extent_in_data_area x data_start disk_blocks) exts))"

definition entry_marks :: "nat \<Rightarrow> nat \<Rightarrow> btree_entry \<Rightarrow> nat list \<times> 'a fs_io_scheme \<Rightarrow> nat list \<times> 'a fs_io_scheme" where
  "entry_marks data_start disk_blocks e = (\<lambda>(bs, m).
     let bs1 = bs @ sound_blocks data_start disk_blocks (direct_extents e)
     in if indirect_block e = 0 then (bs1, m)
        else case read_indirect_chain (indirect_block e) m of
               (Inl _, m') \<Rightarrow> (bs1, m')
             | (Inr (exts, chain), m') \<Rightarrow> (bs1 @ chain @ sound_blocks data_start disk_blocks exts, m'))"

definition fsck_references :: "(bytes \<Rightarrow> bytes) \<Rightarrow> 'a fs_io_scheme \<Rightarrow> nat list \<times> 'a fs_io_scheme" where
  "fsck_references h m =
     (case collect_for_fsck h (sb_btree_root (fs_sb m)) m of
        ((nodes, es, bad), m1) \<Rightarrow>
          fold (entry_marks (sb_data_start (fs_sb m)) (sb_total_blocks (fs_sb m))) es (nodes, m1))"

text \<open>The node and chain pointers among them, without the blocks of the extents.\<close>

definition entry_pointers :: "btree_entry \<Rightarrow> nat list \<times> 'a fs_io_scheme \<Rightarrow> nat list \<times> 'a fs_io_scheme" where
  "entry_pointers e = (\<lambda>(bs, m).
     if indirect_block e = 0 then (bs, m)
     else case read_indirect_chain (indirect_block e) m of
            (Inl _, m') \<Rightarrow> (bs, m')
          | (Inr (exts, chain), m') \<Rightarrow> (bs @ chain, m'))"

definition fsck_pointers :: "(bytes \<Rightarrow> bytes) \<Rightarrow> 'a fs_io_scheme \<Rightarrow> nat list" where
  "fsck_pointers h m =
     (case collect_for_fsck h (sb_btree_root (fs_sb m)) m of
        ((nodes, es, bad), m1) \<Rightarrow> fst (fold entry_pointers es (nodes, m1)))"

lemma sound_blocks_in_range: "n \<le> t \<Longrightarrow> filter (\<lambda>b. t \<le> b) (sound_blocks ds n exts) = []"
  by (auto simp: sound_blocks_def filter_empty_conv extent_in_data_area_def extent_blocks_def split: if_splits)

lemma entry_marks_pointers:
  assumes "n \<le> t" and "filter (\<lambda>b. t \<le> b) bs = filter (\<lambda>b. t \<le> b) ps"
    and "entry_marks ds n e (bs, m) = (bs', m1)" and "entry_pointers e (ps, m) = (ps', m2)"
  shows "filter (\<lambda>b. t \<le> b) bs' = filter (\<lambda>b. t \<le> b) ps' \<and> m2 = m1"
  using assms(2-4)
  by (auto simp: entry_marks_def entry_pointers_def Let_def sound_blocks_in_range [OF assms(1)]
      split: if_splits prod.splits sum.splits)

lemma entries_marks_pointers:
  "n \<le> t \<Longrightarrow> filter (\<lambda>b. t \<le> b) bs = filter (\<lambda>b. t \<le> b) ps \<Longrightarrow>
   filter (\<lambda>b. t \<le> b) (fst (fold (entry_marks ds n) es (bs, m))) = filter (\<lambda>b. t \<le> b) (fst (fold entry_pointers es (ps, m)))"
proof (induction es arbitrary: bs ps m)
  case (Cons e es)
  obtain b1 m1 where b: "entry_marks ds n e (bs, m) = (b1, m1)" by fastforce
  obtain p1 m2 where p: "entry_pointers e (ps, m) = (p1, m2)" by fastforce
  from entry_marks_pointers [OF Cons.prems b p] Cons.IH [of b1 p1 m1] Cons.prems(1) b p show ?case by simp
qed simp

lemma fsck_pointers_out_of_range:
  assumes "fsck_references h m = (bs, m')" and "sb_total_blocks (fs_sb m) \<le> t"
  shows "filter (\<lambda>b. t \<le> b) bs = filter (\<lambda>b. t \<le> b) (fsck_pointers h m)"
proof -
  obtain nodes es bad m1 where c: "collect_for_fsck h (sb_btree_root (fs_sb m)) m = ((nodes, es, bad), m1)"
    by (metis surj_pair)
  have "bs = fst (fold (entry_marks (sb_data_start (fs_sb m)) (sb_total_blocks (fs_sb m))) es (nodes, m1))"
    using assms(1) c by (simp add: fsck_references_def)
  then show ?thesis using entries_marks_pointers [OF assms(2) refl] c by (simp add: fsck_pointers_def)
qed

lemma fsck_extents_marks:
  "fsck_extents ds n exts f = fold fsck_mark (sound_blocks ds n exts) f"
  by (induction exts arbitrary: f) (simp_all add: fsck_extents_def sound_blocks_def)

lemma fsck_entry_marked:
  assumes "marked t bs f" and "fsck_entry ds n e (f, m) = (f', m1)" and "entry_marks ds n e (bs, m) = (bs', m2)"
  shows "marked t bs' f' \<and> m2 = m1"
proof -
  let ?d = "sound_blocks ds n (direct_extents e)"
  have one: "marked t (bs @ ?d) (fold fsck_mark ?d f)" by (rule fsck_marks_marked [OF assms(1)])
  show ?thesis
  proof (cases "indirect_block e = 0")
    case True
    with assms(2,3) one show ?thesis by (simp add: fsck_entry_def entry_marks_def Let_def fsck_extents_marks)
  next
    case False
    obtain r k where r: "read_indirect_chain (indirect_block e) m = (r, k)" by fastforce
    show ?thesis
    proof (cases r)
      case (Inl err)
      with False r assms(2,3) one show ?thesis by (simp add: fsck_entry_def entry_marks_def Let_def fsck_extents_marks)
    next
      case (Inr p)
      obtain exts chain where p: "p = (exts, chain)" by fastforce
      have "marked t ((bs @ ?d) @ chain @ sound_blocks ds n exts) (fold fsck_mark (chain @ sound_blocks ds n exts) (fold fsck_mark ?d f))"
        by (rule fsck_marks_marked [OF one])
      with Inr p False r assms(2,3) show ?thesis by (simp add: fsck_entry_def entry_marks_def Let_def fsck_extents_marks)
    qed
  qed
qed

lemma fsck_entries_marked:
  "marked t bs f \<Longrightarrow> fold (fsck_entry ds n) es (f, m) = (f', m1) \<Longrightarrow> fold (entry_marks ds n) es (bs, m) = (bs', m2) \<Longrightarrow>
   marked t bs' f' \<and> m2 = m1"
proof (induction es arbitrary: bs f m)
  case (Cons e es)
  obtain f1 k1 where f: "fsck_entry ds n e (f, m) = (f1, k1)" by fastforce
  obtain b1 k2 where b: "entry_marks ds n e (bs, m) = (b1, k2)" by fastforce
  from fsck_entry_marked [OF Cons.prems(1) f b] have "marked t b1 f1" and "k2 = k1" by simp_all
  with Cons.IH [of b1 f1 k1] Cons.prems(2,3) f b show ?case by simp
qed simp

lemma fsck_finish_counts:
  assumes "marked t bs f" and "bm_total bm = t"
  shows "rep_free_but_referenced (fsck_finish bm f) = card {b \<in> set bs. b < t \<and> \<not> is_allocated b bm}"
proof -
  obtain seen dup rep where f: "f = (seen, dup, rep)" by (cases f)
  note inv = assms(1) [unfolded f marked_def prod.case]
  have "length (filter (\<lambda>b. \<not> is_allocated b bm) (seen_blocks seen)) =
      card (set (filter (\<lambda>b. \<not> is_allocated b bm) (filter (wbit seen) [0..<64 * length seen])))"
    unfolding seen_blocks_filter by (rule distinct_card [symmetric]) simp
  also have "set (filter (\<lambda>b. \<not> is_allocated b bm) (filter (wbit seen) [0..<64 * length seen])) =
      {b \<in> set bs. b < t \<and> \<not> is_allocated b bm}"
    using inv by auto
  finally show ?thesis by (simp add: f fsck_finish_def)
qed

section \<open>The scan writes nothing\<close>

lemma leaf_entry_indirect: "indirect_block (leaf_entry buf i) < 2 ^ 64"
  using rd_le_less [of 8] by (simp add: leaf_entry_def entry_of_bytes_def Let_def)

lemma walk_loop_indirect:
  "Entry e \<in> set (fst (walk_loop h todo seen m)) \<Longrightarrow> indirect_block e < 2 ^ 64"
proof (induction h todo seen m rule: walk_loop.induct)
  case (2 h block depth todo seen m)
  obtain r m1 where rd: "read_node h block m = (r, m1)" by fastforce
  show ?case
  proof (cases r)
    case (Inl err)
    with 2 rd show ?thesis by (auto simp: walk_loop.simps(2) [of h block] split: if_splits)
  next
    case (Inr buf)
    note ih = 2(4-7) [OF _ _ rd [symmetric] Inr refl]
    show ?thesis
      using 2(1,2,8) ih Inr rd leaf_entry_indirect
      by (auto simp: walk_loop.simps(2) [of h block] Let_def split: if_splits)
  qed
qed (simp add: walk_loop.simps)

lemma collect_for_fsck_indirect:
  assumes "collect_for_fsck h rt m = ((nodes, es, bad), m')" and "e \<in> set es"
  shows "indirect_block e < 2 ^ 64"
  using assms walk_loop_indirect [of e h "[(rt, 0)]" "{}" m]
  by (auto simp: collect_for_fsck_def walk_from_def List.map_filter_def split: if_splits prod.splits walk.splits)

lemma entry_marks_reads:
  assumes "cache_inv chk m" and "indirect_block e < 2 ^ 64" and "entry_marks ds n e (bs, m) = (bs', m')"
  shows "reads chk m m'"
  using assms reads_refl [OF assms(1)] read_chain_reads [OF assms(1,2)]
  by (auto simp: entry_marks_def read_indirect_chain_def Let_def split: if_splits prod.splits sum.splits)

lemma entries_marks_reads:
  "cache_inv chk m \<Longrightarrow> \<forall>e \<in> set es. indirect_block e < 2 ^ 64 \<Longrightarrow> fold (entry_marks ds n) es (bs, m) = (bs', m') \<Longrightarrow>
   reads chk m m'"
proof (induction es arbitrary: bs m)
  case (Cons e es)
  obtain b1 m1 where e: "entry_marks ds n e (bs, m) = (b1, m1)" by fastforce
  have r: "reads chk m m1" using entry_marks_reads [OF Cons.prems(1) _ e] Cons.prems(2) by simp
  with Cons.IH [of m1 b1] Cons.prems(2,3) e readsD [OF r] have "reads chk m1 m'" by simp
  with r show ?case by (rule reads_trans)
qed (simp add: reads_refl)

lemma fsck_references_reads:
  assumes "cache_inv (verify_node_checksum h) m" and "sb_btree_root (fs_sb m) < 2 ^ 64" and "fsck_references h m = (bs, m')"
  shows "reads (verify_node_checksum h) m m'"
proof -
  obtain nodes es bad m1 where c: "collect_for_fsck h (sb_btree_root (fs_sb m)) m = ((nodes, es, bad), m1)"
    by (metis surj_pair)
  note r = collect_for_fsck_reads [OF assms(1,2) c]
  have "reads (verify_node_checksum h) m1 m'"
    by (rule entries_marks_reads [of _ m1 es]) (use readsD [OF r] collect_for_fsck_indirect [OF c] assms(3) c in \<open>auto simp: fsck_references_def\<close>)
  with r show ?thesis by (rule reads_trans)
qed

lemma self_check_counts:
  assumes "mounted m" and "fsck_references h m = (bs, m')" and "t = bm_total (bmap m)" and "bmap m' = bmap m"
  obtains r where "self_check h m = (Inr r, m')"
    and "rep_referenced r = card {b \<in> set bs. b < t}"
    and "rep_double_alloc r = card {b. 2 \<le> count_list bs b \<and> b < t}"
    and "rep_out_of_range r = length (filter (\<lambda>b. t \<le> b) bs)"
    and "rep_free_but_referenced r = card {b \<in> set bs. b < t \<and> \<not> is_allocated b (bmap m)}"
proof -
  obtain nodes es bad m1 where c: "collect_for_fsck h (sb_btree_root (fs_sb m)) m = ((nodes, es, bad), m1)"
    by (metis surj_pair)
  have start: "marked t nodes (fold fsck_mark nodes (fsck_start t nodes es bad))"
    using fsck_marks_marked [OF fsck_start_marked [of t nodes es bad], of nodes] by simp
  obtain f m2 where f: "fold (fsck_entry (sb_data_start (fs_sb m)) (sb_total_blocks (fs_sb m))) es
      (fold fsck_mark nodes (fsck_start t nodes es bad), m1) = (f, m2)" by fastforce
  have "fold (entry_marks (sb_data_start (fs_sb m)) (sb_total_blocks (fs_sb m))) es (nodes, m1) = (bs, m')"
    using assms(2) c by (simp add: fsck_references_def)
  from fsck_entries_marked [OF start f this] have mk: "marked t bs f" and m2: "m' = m2" by simp_all
  have run: "self_check h m = (Inr (fsck_finish (bmap m') f), m')"
    using assms(1) c f m2 by (simp add: self_check_def bindE_def need_mounted_def Let_def assms(3))
  show thesis
  proof (rule that [OF run])
    show "rep_free_but_referenced (fsck_finish (bmap m') f) = card {b \<in> set bs. b < t \<and> \<not> is_allocated b (bmap m)}"
      using fsck_finish_counts [OF mk] assms(3,4) by simp
  qed (use mk in \<open>auto simp: fsck_finish_def marked_def split: prod.splits\<close>)
qed


end
