(* ===== verification/Storage_Properties.thy ===== *)
theory Storage_Properties
  imports Object_Mount Fsck Memory_Properties
begin

text \<open>
  The properties of the storage stack, from the block cache to the object store, each at the interface its callers
  use. An operation is described by \<open>wpE f Q R m\<close>: started in \<open>m\<close>, \<open>f\<close> returns a value and a state with \<open>Q\<close>, or an
  error and a state with \<open>R\<close>; nothing is assumed about the device, whose calls may fail at any point. The witnesses run on \<open>wit_fs\<close>, a small store just formatted, with a
  hash and ciphers simple enough to compute.
\<close>

section \<open>A store to run the properties on\<close>

definition wit_h :: "bytes \<Rightarrow> bytes" where
  "wit_h b = replicate 32 0"

definition wit_ciphers :: ciphers where
  "wit_ciphers = \<lparr>blake_derive = (\<lambda>_ _. replicate 32 1), blake_keyed = (\<lambda>_ _. replicate 32 2),
     aes_seal = (\<lambda>_ _ m. Some (m @ replicate 16 3)), aes_open = (\<lambda>_ _ m tag. if tag = replicate 16 3 then Some m else None)\<rparr>"

definition wit_blocks :: nat where "wit_blocks = 512"

definition wit_bm :: bitmap where
  "wit_bm = new_for_mkfs wit_blocks META_END 1 (META_END + 1)"

definition wit_sb :: superblock where
  "wit_sb = set_checksum wit_h (mkfs_superblock wit_blocks (bm_free wit_bm) META_END 1 (META_END + 1) (replicate 16 7))"

definition wit_media :: "nat \<Rightarrow> bytes" where
  "wit_media b = (if b \<in> sb_area then sb_bytes wit_sb else replicate BLOCK_SIZE 0)"

definition wit_dev :: block_device where
  "wit_dev = \<lparr>nvme_available = True, virtio_available = False, partition_offset = 0, partition_size = 0,
     drv_block_count = Some wit_blocks, media = wit_media, durable = wit_media, unflushed = [], discarded = [],
     outcomes = (\<lambda>_. Done), calls = 0\<rparr>"

definition wit_keys :: "disk_keys option" where
  "wit_keys = set_disk_key wit_ciphers (replicate 32 9)"

definition wit_fs :: fs_io where
  "wit_fs = \<lparr>slots = [], cmap = Map.empty, lru_head = NIL, lru_tail = NIL, idle = [], spare = [], dirty_list = [],
     dev = wit_dev, frames = wit_fa, pages = (\<lambda>_. replicate BLOCK_SIZE 0), usable_frames = 12,
     shrinkers = (\<lambda>_ fa. (0, fa)), cache_hits = 0, cache_misses = 0, bmap = wit_bm, jrnl = fs_journal_new 0 0,
     fs_sb = wit_sb, fs_generation = 1, pending_old_blocks = [], mounted = True, disk_key = wit_keys, commits_since_gc = 0\<rparr>"

lemma wit_h_length: "\<forall>b. length (wit_h b) = 32"
  by (simp add: wit_h_def)

lemma wit_ciphers_ok: "ciphers_ok wit_ciphers"
  by (auto simp: ciphers_ok_def wit_ciphers_def)

lemma wit_bm_facts: "bm_inv wit_bm" "free_blocks wit_bm = {266..<512}" "bm_start wit_bm = 265" "bm_data_start wit_bm = 266" "bm_total wit_bm = 512" "bm_count wit_bm = 1"
    "bm_dirty_blocks wit_bm = [True]" "trim_pending wit_bm = []"
proof -
  have "bm_inv wit_bm \<and> free_blocks wit_bm = {META_END + 1..<wit_blocks}"
    unfolding wit_bm_def by (intro conjI new_for_mkfs_result) (simp_all add: wit_blocks_def format_consts div_ceil_def)
  then show "bm_inv wit_bm" "free_blocks wit_bm = {266..<512}" by (simp_all add: format_consts wit_blocks_def)
  show "bm_start wit_bm = 265" "bm_data_start wit_bm = 266" "bm_total wit_bm = 512" "bm_count wit_bm = 1" "bm_dirty_blocks wit_bm = [True]" "trim_pending wit_bm = []"
    by (simp_all add: wit_bm_def new_for_mkfs_def Let_def format_consts wit_blocks_def)
qed

lemma wit_sb_facts: "sb_good wit_sb" "is_valid wit_h wit_sb" "length (sb_bytes wit_sb) = BLOCK_SIZE" "sb_btree_root wit_sb = 0" "sb_generation wit_sb = 1"
    "sb_data_start wit_sb = 266" "sb_total_blocks wit_sb = 512" "sb_bitmap_start wit_sb = 265" "sb_bitmap_count wit_sb = 1" "sb_journal_head wit_sb = 0" "sb_journal_seq wit_sb = 0"
    "sb_root_tree_hash wit_sb = replicate 32 0"
proof -
  let ?sb = "mkfs_superblock wit_blocks (bm_free wit_bm) META_END 1 (META_END + 1) (replicate 16 7)"
  have h: "length (wit_h b) = 32" for b by (simp add: wit_h_def)
  have ok: "sb_good ?sb" by (rule mkfs_sb_ok) (use bm_free_bound [OF wit_bm_facts(1)] in \<open>simp_all add: wit_blocks_def format_consts\<close>)
  then have o: "sb_ok ?sb" by (simp add: sb_good_def)
  show g: "sb_good wit_sb" using ok set_checksum_ok(1) [OF o h] by (simp add: wit_sb_def sb_good_def set_checksum_def)
  show "is_valid wit_h wit_sb" using g set_checksum_ok(2) [OF o h] by (simp add: is_valid_def sb_good_def wit_sb_def)
  show "length (sb_bytes wit_sb) = BLOCK_SIZE" by (rule length_sb_bytes) (use g in \<open>simp add: sb_good_def\<close>)
  show "sb_btree_root wit_sb = 0" "sb_generation wit_sb = 1" "sb_data_start wit_sb = 266" "sb_total_blocks wit_sb = 512" "sb_bitmap_start wit_sb = 265"
    "sb_bitmap_count wit_sb = 1" "sb_journal_head wit_sb = 0" "sb_journal_seq wit_sb = 0" "sb_root_tree_hash wit_sb = replicate 32 0"
    by (simp_all add: wit_sb_def set_checksum_def mkfs_superblock_def format_consts wit_blocks_def)
qed

lemma wit_fs_fields: "bmap wit_fs = wit_bm" "fs_sb wit_fs = wit_sb" "dev wit_fs = wit_dev" "disk_key wit_fs = wit_keys" "mounted wit_fs" "pending_old_blocks wit_fs = []"
    "jrnl wit_fs = fs_journal_new 0 0" "fs_generation wit_fs = 1" "cache_new wit_fs = wit_fs" "dirty_set wit_fs = {}" "idle wit_fs = []" "cmap wit_fs = Map.empty" "slots wit_fs = []"
  by (simp_all add: wit_fs_def cache_new_def dirty_set_def)

lemma wit_dev_fields: "actual wit_dev b = b mod 2 ^ 64" "durable wit_dev = wit_media" "media wit_dev = wit_media" "unflushed wit_dev = []"
  by (simp_all add: wit_dev_def actual_def)

lemma wit_env: "env_ok wit_fs"
  using wit_fa_inv wit_sb_facts(3) by (simp add: env_ok_def wit_fs_fields wit_dev_fields wit_media_def) (simp add: wit_fs_def NIL_def wit_fa_def fa_frames_def)

lemma wit_cache: "cache_inv chk wit_fs"
  using cache_new_spec [of wit_fs chk] wit_env by (simp add: wit_fs_fields)

lemma wit_view: "view wit_fs b = wit_media b"
  by (auto simp: view_def wit_fs_fields wit_dev_fields wit_media_def sb_area_def format_consts)

lemma wit_settled: "b < 2 ^ 64 \<Longrightarrow> at_rest wit_fs b"
  by (simp add: at_rest_def wit_fs_fields wit_dev_fields wit_view)

lemma wit_represents: "represents wit_h wit_ciphers 0 wit_fs Map.empty"
proof -
  have "fs_layout wit_fs" using wit_bm_facts wit_sb_facts by (auto simp: fs_layout_def wit_fs_fields format_consts)
  moreover have "index wit_h 0 wit_fs None" using wit_sb_facts by (simp add: wit_fs_fields)
  ultimately show ?thesis
    using wit_cache wit_bm_facts(1) wit_fs_fields unfolding represents_def
    by (intro conjI exI [of _ None] exI [of _ "\<lambda>_. []"]) (simp_all add: used_ok_def)
qed

lemma wit_newest: "newest wit_h (view wit_fs) = Some wit_sb"
  by (rule newest_all_same) (use wit_sb_facts in \<open>simp_all add: wit_view wit_media_def sb_good_def\<close>)

lemma wit_durable: "durable_map wit_h wit_ciphers 0 wit_fs wit_sb Map.empty"
  using represents_durable [OF wit_represents] wit_newest wit_settled sb_area_bound in_use_bound [of "bmap wit_fs"] wit_bm_facts(1)
  by (auto simp: wit_fs_fields)

lemma wit_ready: "commit_ready wit_fs"
  using wit_bm_facts wit_sb_facts(1) by (simp add: commit_ready_def wit_fs_fields bm_synced_def heads_ok_def fs_journal_new_def JOURNAL_BLOCKS_def)


section \<open>The object store is a map\<close>

text \<open>C3. Storing an object refines the update of a finite map. In a state that holds the map \<open>M\<close>, \<open>put\<close> of a payload
  under its content address leads to a state that holds \<open>M\<close> with the address bound to the payload, and to \<open>M\<close> itself
  when the address is bound already; it accepts a new object only under the address its payload hashes to. A \<open>put\<close>
  that fails, for lack of space or memory, because of the disk, because the disk is locked or because the address is
  wrong, leaves the map as it was.\<close>

theorem put_refines_map:
  assumes "represents h c n m M" and "n \<le> MAX_TREE_DEPTH" and "ciphers_ok c" and "\<forall>b. length (h b) = 32"
    and "length hash = 32" and "length p \<le> AES_LIMIT"
  shows "wpE (fs_put h c hash p)
    (\<lambda>_ m'. represents h c (Suc n) m' (if M hash = None then M(hash \<mapsto> p) else M) \<and>
       (M hash = None \<longrightarrow> object_address c (disk_key m) p = Some hash))
    (\<lambda>e m'. represents h c n m' M \<and> (env_error e \<or> e = Locked \<and> disk_key m = None \<or>
       e = InvalidName \<and> object_address c (disk_key m) p \<noteq> Some hash)) m"
  unfolding fs_put_def by (rule wpE_mono [OF put_spec [OF assms(1-3) _ assms(5,6)]]) (use assms(4) in auto)

lemma wit_put_len: "length [1, 2, 3 :: u8] \<le> AES_LIMIT"
  by (simp add: AES_LIMIT_def)

lemma wit_hash_len: "length (replicate 32 (2 :: u8)) = 32"
  by simp

theorem put_refines_map_witness:
  "wpE (fs_put wit_h wit_ciphers (replicate 32 2) [1, 2, 3])
     (\<lambda>_ m'. represents wit_h wit_ciphers 1 m' [replicate 32 2 \<mapsto> [1, 2, 3]])
     (\<lambda>e m'. represents wit_h wit_ciphers 0 m' Map.empty) wit_fs"
  by (rule wpE_mono [OF put_refines_map [OF wit_represents _ wit_ciphers_ok wit_h_length wit_hash_len wit_put_len]])
    (simp_all add: MAX_TREE_DEPTH_def)

text \<open>C5. Reading refines lookup: in a state that holds \<open>M\<close>, \<open>get\<close> returns the payload bound to the address, or nothing
  when the address is not bound, and never another payload. It fails only because of the disk or for lack of memory,
  and the state holds \<open>M\<close> afterwards in either case.\<close>

theorem get_refines_map:
  assumes "represents h c n m M" and "n \<le> MAX_TREE_DEPTH" and "ciphers_ok c"
  shows "wpE (fs_get h room c hash) (\<lambda>r m'. r = M hash \<and> represents h c n m' M)
    (\<lambda>e m'. (env_error e \<or> e = Corrupt \<and> (\<exists>k. \<not> room k)) \<and> represents h c n m' M) m"
  by (rule get_spec [OF assms])

theorem get_refines_map_witness:
  "wpE (fs_get wit_h (\<lambda>_. True) wit_ciphers (replicate 32 2)) (\<lambda>r m'. r = None) (\<lambda>e m'. env_error e) wit_fs"
  by (rule wpE_mono [OF get_refines_map [OF wit_represents _ wit_ciphers_ok]]) (simp_all add: MAX_TREE_DEPTH_def)

text \<open>C13. What was put comes back: a \<open>put\<close> followed by a \<open>get\<close> of the same address returns the payload when the
  address was new, and the payload stored before when it was not.\<close>

theorem put_then_get:
  assumes r: "represents h c n m M" and n: "n < MAX_TREE_DEPTH" and c: "ciphers_ok c" and h: "\<forall>b. length (h b) = 32"
    and l: "length hash = 32" "length p \<le> AES_LIMIT"
  shows "wpE (bindE (fs_put h c hash p) (\<lambda>_. fs_get h room c hash))
    (\<lambda>got m'. got = (if M hash = None then Some p else M hash) \<and> represents h c (Suc n) m' (if M hash = None then M(hash \<mapsto> p) else M))
    (\<lambda>e m'. represents h c n m' M \<or> represents h c (Suc n) m' (if M hash = None then M(hash \<mapsto> p) else M)) m"
  unfolding wpE_bind fs_put_def
proof (rule wpE_mono [OF put_spec [OF r less_imp_le [OF n] c _ l]], goal_cases)
  case (2 u m1)
  let ?M = "if M hash = None then M(hash \<mapsto> p) else M"
  have r1: "represents h c (Suc n) m1 ?M" using 2 by blast
  have "?M hash = (if M hash = None then Some p else M hash)" by simp
  then show ?case by (intro wpE_mono [OF get_spec [OF r1 _ c, of room hash]]) (use n in auto)
qed (use h in auto)

theorem put_then_get_witness:
  "wpE (bindE (fs_put wit_h wit_ciphers (replicate 32 2) [1, 2, 3]) (\<lambda>_. fs_get wit_h (\<lambda>_. True) wit_ciphers (replicate 32 2)))
     (\<lambda>got m'. got = Some [1, 2, 3]) (\<lambda>_ _. True) wit_fs"
  by (rule wpE_mono [OF put_then_get [OF wit_represents _ wit_ciphers_ok wit_h_length wit_hash_len wit_put_len]])
    (simp_all add: MAX_TREE_DEPTH_def)

section \<open>What a loss of power leaves\<close>

text \<open>C2. A commit is atomic. After \<open>commit_root\<close> has succeeded, whatever the device has kept of its unflushed writes,
  the newest superblock is the one just written and the disk below it holds the map that was in memory. When it fails,
  at any of its device calls, each image a loss of power can leave holds the map of the last commit under its
  superblock or the new map under the new one, never a mixture, and the map in memory is unchanged.\<close>

theorem commit_root_atomic:
  assumes "represents h c n m M" and "commit_ready m" and "durable_map h c n' m sb0 N" and h: "\<forall>b. length (h b) = 32"
    and "length new_root = 32" and "sb_generation sb0 \<le> fs_generation m" and "fs_generation m + 1 < 2 ^ 64"
    and "sb_root_tree_hash (fs_sb m) \<noteq> new_root \<or> pending_old_blocks m \<noteq> []"
  shows "wpE (commit_root h new_root)
    (\<lambda>_ m'. represents h c n m' M \<and> sb_root_tree_hash (fs_sb m') = new_root \<and> commit_ready m' \<and> durable_map h c n m' (fs_sb m') M \<and>
       (\<forall>img \<in> crash_images (dev m'). recovers h c n m' (\<lambda>b. img (actual (dev m') b)) (fs_sb m') M))
    (\<lambda>e m'. represents h c n m' M \<and> commit_ready m' \<and> (\<forall>img \<in> crash_images (dev m').
       recovers h c n' m' (\<lambda>b. img (actual (dev m') b)) sb0 N \<or> recovers h c n m' (\<lambda>b. img (actual (dev m') b)) (fs_sb m') M)) m"
  by (rule wpE_mono [OF commit_root_spec [OF assms(1-3) _ assms(5-8)]]) (use h durable_map_crash in \<open>auto simp: old_or_new_def\<close>)

theorem commit_root_atomic_witness:
  "wpE (commit_root wit_h (replicate 32 5)) (\<lambda>_ m'. represents wit_h wit_ciphers 0 m' Map.empty \<and> durable_map wit_h wit_ciphers 0 m' (fs_sb m') Map.empty)
     (\<lambda>e m'. represents wit_h wit_ciphers 0 m' Map.empty) wit_fs"
proof -
  have a: "length (replicate 32 (5 :: u8)) = 32" "sb_generation wit_sb \<le> fs_generation wit_fs" "fs_generation wit_fs + 1 < 2 ^ 64"
    "sb_root_tree_hash (fs_sb wit_fs) \<noteq> replicate 32 5 \<or> pending_old_blocks wit_fs \<noteq> []"
    using wit_sb_facts by (simp_all add: wit_fs_fields)
  show ?thesis by (rule wpE_mono [OF commit_root_atomic [OF wit_represents wit_ready wit_durable wit_h_length a]]) auto
qed

text \<open>C10. Until the next commit the last one stays recoverable: a \<open>put\<close>, whether it succeeds or fails and whatever it
  has written by then, writes no block that the durable tree uses, so every image a loss of power can leave still has
  the superblock of the last commit and the map below it.\<close>

theorem put_keeps_committed:
  assumes r: "represents h c n m M" and "n \<le> MAX_TREE_DEPTH" and "ciphers_ok c" and h: "\<forall>b. length (h b) = 32"
    and "length hash = 32" and "length p \<le> AES_LIMIT" and d: "durable_map h c n' m sb N"
  shows "wpE (fs_put h c hash p)
    (\<lambda>_ m'. durable_map h c n' m' sb N \<and> (\<forall>img \<in> crash_images (dev m'). recovers h c n' m' (\<lambda>b. img (actual (dev m') b)) sb N))
    (\<lambda>_ m'. durable_map h c n' m' sb N \<and> (\<forall>img \<in> crash_images (dev m'). recovers h c n' m' (\<lambda>b. img (actual (dev m') b)) sb N)) m"
  unfolding fs_put_def
  by (rule wpE_mono [OF put_spec [OF assms(1-3) _ assms(5,6)]]) (use h overlay_durable [OF r d] durable_map_crash in blast)+

theorem put_keeps_committed_witness:
  "wpE (fs_put wit_h wit_ciphers (replicate 32 2) [1, 2, 3]) (\<lambda>_ m'. durable_map wit_h wit_ciphers 0 m' wit_sb Map.empty)
     (\<lambda>_ m'. durable_map wit_h wit_ciphers 0 m' wit_sb Map.empty) wit_fs"
  by (rule wpE_mono [OF put_keeps_committed [OF wit_represents _ wit_ciphers_ok wit_h_length wit_hash_len wit_put_len wit_durable]])
    (simp_all add: MAX_TREE_DEPTH_def)


text \<open>C6. A committed map survives to the next mount. When blocks were replaced since the last commit, \<open>commit_root\<close>
  followed by a flush of the device, as \<open>sync\<close> does before a reboot, leaves only images from which \<open>mount\<close> gets the
  same map back: the newest superblock is the committed one, the bitmap on disk marks every block of the map as used,
  and the blocks the journal frees again at the mount are none of them.\<close>

theorem sync_survives_power_loss:
  assumes "represents h c n m M" and "commit_ready m" and "durable_map h c n' m sb0 N" and "journal_idle m" and h: "\<forall>b. length (h b) = 32"
    and "length new_root = 32" and "sb_generation sb0 \<le> fs_generation m" and "fs_generation m + 1 < 2 ^ 64" and "pending_old_blocks m \<noteq> []"
  shows "wpE (bindE (commit_root h new_root) (\<lambda>_. on_dev flush_device))
    (\<lambda>_ m'. \<forall>img \<in> crash_images (dev m'). mountable h c n (disk_key m') (disk_image m' img) (fs_sb m') M) (\<lambda>_ _. True) m"
  by (rule commit_root_mountable [OF assms(1-4) _ assms(6-9)]) (use h in blast)

definition wit_used :: fs_io where
  "wit_used = wit_fs\<lparr>bmap := take_run 266 1 wit_bm, pending_old_blocks := [266]\<rparr>"

lemma wit_run: "bm_inv (take_run 266 1 wit_bm)" "tracks wit_bm (take_run 266 1 wit_bm)" "free_blocks (take_run 266 1 wit_bm) = {267..<512}"
proof -
  have run: "run_at (bm_data wit_bm) 266 1"
    using wit_bm_facts(2) free_blocks_iff [of 266 wit_bm] by (simp add: run_at_def)
  note t = take_run_result [OF wit_bm_facts(1) run _ _ refl]
  show "bm_inv (take_run 266 1 wit_bm)" "tracks wit_bm (take_run 266 1 wit_bm)" by (rule t; simp add: wit_bm_facts)+
  have "free_blocks (take_run 266 1 wit_bm) = {266..<512} - {266..<266 + 1}" using t(3) by (simp add: wit_bm_facts)
  also have "\<dots> = {267..<512}" by auto
  finally show "free_blocks (take_run 266 1 wit_bm) = {267..<512}" .
qed

lemma wit_used_same: "view wit_used = view wit_fs" "dirty_set wit_used = {}" "dev wit_used = wit_dev" "cache_inv chk wit_used" "fs_sb wit_used = wit_sb"
    "jrnl wit_used = fs_journal_new 0 0" "fs_generation wit_used = 1" "pending_old_blocks wit_used = [266]" "mounted wit_used" "disk_key wit_used = wit_keys"
    "bmap wit_used = take_run 266 1 wit_bm"
  using wit_cache [of chk] wit_fs_fields by (simp_all add: wit_used_def dirty_set_def)

lemma wit_used_layout: "bm_start (take_run 266 1 wit_bm) = 265" "bm_data_start (take_run 266 1 wit_bm) = 266" "bm_total (take_run 266 1 wit_bm) = 512" "bm_count (take_run 266 1 wit_bm) = 1"
  using wit_run(2) wit_bm_facts by (simp_all add: tracks_def same_layout_def)

lemma wit_used_represents: "represents wit_h wit_ciphers 0 wit_used Map.empty"
proof -
  have "fs_layout wit_used" using wit_run wit_used_layout wit_sb_facts by (auto simp: fs_layout_def wit_used_same format_consts)
  moreover have "index wit_h 0 wit_used None" using wit_sb_facts by (simp add: wit_used_same)
  moreover have "used_ok (bmap wit_used) [266]" using wit_run(3) wit_used_layout by (simp add: used_ok_def wit_used_same)
  ultimately show ?thesis
    using wit_run(1) wit_used_same unfolding represents_def by (intro conjI exI [of _ None] exI [of _ "\<lambda>_. []"]) simp_all
qed

lemma wit_used_durable: "durable_map wit_h wit_ciphers 0 wit_used wit_sb Map.empty"
proof -
  have s: "at_rest wit_used b" if "b < 2 ^ 64" for b using wit_settled [OF that] by (simp add: at_rest_def wit_used_same wit_fs_fields)
  have i: "in_use (bmap wit_used) \<subseteq> {..<2 ^ 64}" by (rule in_use_bound) (use wit_run(1) wit_used_same in simp)
  have "\<forall>b \<in> sb_area \<union> in_use (bmap wit_used). at_rest wit_used b" using s sb_area_bound i by blast
  then show ?thesis using represents_durable [OF wit_used_represents] wit_newest wit_used_same by simp
qed

lemma wit_used_ready: "commit_ready wit_used"
proof -
  have "bm_synced (view wit_fs) wit_bm" using wit_ready by (simp add: commit_ready_def wit_fs_fields)
  then have "bm_synced (view wit_fs) (take_run 266 1 wit_bm)" by (rule bm_synced_tracks [OF wit_bm_facts(1) wit_run(2)])
  then show ?thesis using wit_ready by (simp add: commit_ready_def wit_used_same wit_fs_fields)
qed

lemma wit_journal_zero: "b \<in> journal_area \<Longrightarrow> wit_media b = replicate BLOCK_SIZE 0"
  using journal_outside(1) by (auto simp: wit_media_def)

lemma wit_used_idle: "journal_idle wit_used"
  using wit_used_layout wit_sb_facts zeros_no_journal wit_journal_zero
  by (simp add: journal_idle_def wit_used_same fs_journal_new_def same_geometry_def wit_view stale_def format_consts)

theorem sync_survives_power_loss_witness:
  "wpE (bindE (commit_root wit_h (replicate 32 5)) (\<lambda>_. on_dev flush_device))
     (\<lambda>_ m'. mountable wit_h wit_ciphers 0 (disk_key m') (disk_image m' (durable (dev m'))) (fs_sb m') Map.empty) (\<lambda>_ _. True) wit_used"
proof -
  have a: "length (replicate 32 (5 :: u8)) = 32" "sb_generation wit_sb \<le> fs_generation wit_used" "fs_generation wit_used + 1 < 2 ^ 64" "pending_old_blocks wit_used \<noteq> []"
    using wit_sb_facts by (simp_all add: wit_used_same)
  show ?thesis
    by (rule wpE_mono [OF sync_survives_power_loss [OF wit_used_represents wit_used_ready wit_used_durable wit_used_idle wit_h_length a]])
      (auto simp: crash_images_def)
qed

text \<open>C8. Mounting such a disk gives the map back. When \<open>mount\<close> succeeds with the newest superblock of a mountable
  disk, the mounted state holds exactly the map the disk holds, is ready to commit, and continues the generation count
  and the journal of the disk; if nothing was pending on the device, the map is durable.\<close>

theorem mount_recovers_map:
  assumes "env_ok (cache_new m)" and "\<not> mounted m" and "mountable h c n (disk_key m) (view (cache_new m)) sb M"
  shows "wpE (mount h) (\<lambda>_ m'. fs_sb m' = sb \<longrightarrow> represents h c n m' M \<and> commit_ready m' \<and> fs_generation m' = sb_generation sb \<and>
       pending_old_blocks m' = [] \<and> (sb_journal_seq sb + 1 < 2 ^ 64 \<longrightarrow> journal_idle m') \<and>
       ((\<forall>b < 2 ^ 64. at_rest (cache_new m) b) \<longrightarrow> durable_map h c n m' sb M)) (\<lambda>_ _. True) m"
  by (rule mount_spec [OF assms])

definition wit_disk :: "nat \<Rightarrow> bytes" where
  "wit_disk b = (if b = 265 then bm_image wit_bm 0 else wit_media b)"

definition wit_off :: fs_io where
  "wit_off = wit_fs\<lparr>mounted := False, dev := wit_dev\<lparr>media := wit_disk, durable := wit_disk\<rparr>\<rparr>"

lemma wit_off_env: "env_ok (cache_new wit_off)" "\<not> mounted wit_off" "disk_key wit_off = wit_keys"
  using wit_env by (simp_all add: wit_off_def env_ok_def cache_new_def wit_fs_fields wit_disk_def wit_dev_def)

lemma wit_off_view: "view (cache_new wit_off) = wit_disk"
  by (auto simp: wit_off_def cache_new_fields wit_dev_def actual_def wit_disk_def wit_media_def sb_area_def format_consts)

lemma wit_mountable: "mountable wit_h wit_ciphers 0 ks wit_disk wit_sb Map.empty"
proof (rule mkfs_mounts [of wit_h wit_blocks "replicate 16 7" wit_bm 1 "META_END + 1" wit_sb wit_disk wit_bm "[True]"])
  show "bm_on_disk wit_disk wit_bm"
    using length_bm_slice [of wit_bm 0] by (simp add: bm_on_disk_def wit_bm_facts wit_disk_def bm_image_def splice_def)
  show "wit_bm = wit_bm\<lparr>bm_dirty_blocks := [True]\<rparr>" using wit_bm_facts(7) by (cases wit_bm) simp
  show "\<forall>b \<in> journal_area. wit_disk b = replicate BLOCK_SIZE 0"
    using wit_journal_zero by (auto simp: wit_disk_def journal_area_def format_consts)
  show "wit_disk b = sb_bytes wit_sb" if "b \<in> sb_area" for b using that by (auto simp: wit_disk_def wit_media_def sb_area_def format_consts)
qed (simp_all add: wit_h_def wit_blocks_def format_consts wit_bm_def wit_sb_def)

theorem mount_recovers_map_witness:
  "wpE (mount wit_h) (\<lambda>_ m'. if fs_sb m' = wit_sb then represents wit_h wit_ciphers 0 m' Map.empty else True) (\<lambda>_ _. True) wit_off"
proof -
  have "mountable wit_h wit_ciphers 0 (disk_key wit_off) (view (cache_new wit_off)) wit_sb Map.empty"
    unfolding wit_off_view by (rule wit_mountable)
  from mount_recovers_map [OF wit_off_env(1,2) this] show ?thesis by (rule wpE_mono) auto
qed


text \<open>C37. A fresh file system mounts empty: when \<open>mkfs\<close> succeeds, the blocks on the medium are mountable with the
  empty map, under a superblock of generation 1.\<close>

theorem mkfs_mounts_empty:
  assumes "env_ok (cache_new m)" and "\<forall>b. length (h b) = 32" and "\<forall>n. block_count (dev m) = Some n \<longrightarrow> n < 2 ^ 64 - 1"
    and "16 \<le> length salt"
  shows "wpE (mkfs h salt) (\<lambda>_ m'. \<exists>sb. mountable h c 0 ks (view (cache_new m')) sb Map.empty \<and> sb_generation sb = 1) (\<lambda>_ _. True) m"
  by (rule mkfs_spec [OF assms(1) _ _ assms(4)]) (use assms(2,3) in blast)+

theorem mkfs_mounts_empty_witness:
  "wpE (mkfs wit_h (replicate 16 7)) (\<lambda>_ m'. \<exists>sb. mountable wit_h wit_ciphers 0 wit_keys (view (cache_new m')) sb Map.empty \<and> sb_generation sb = 1)
     (\<lambda>_ _. True) wit_off"
  by (rule mkfs_mounts_empty [OF wit_off_env(1) wit_h_length])
    (auto simp: wit_off_def wit_dev_def block_count_def wit_blocks_def)

section \<open>The cache is an array of blocks\<close>

datatype cache_op = Rd nat | Wr nat bytes

fun op_ok :: "cache_op \<Rightarrow> bool" where
  "op_ok (Rd b) \<longleftrightarrow> b < 2 ^ 64"
| "op_ok (Wr b buf) \<longleftrightarrow> b < 2 ^ 64 \<and> length buf = BLOCK_SIZE"

fun run_cache :: "cache_op list \<Rightarrow> ('a io_scheme, fs_error, bytes list) op" where
  "run_cache [] = retE []"
| "run_cache (Rd b # ops) = bindE (cache_read b) (\<lambda>x. bindE (run_cache ops) (\<lambda>xs. retE (x # xs)))"
| "run_cache (Wr b buf # ops) = bindE (cache_write b buf) (\<lambda>_. run_cache ops)"

fun run_array :: "cache_op list \<Rightarrow> (nat \<Rightarrow> bytes) \<Rightarrow> bytes list \<times> (nat \<Rightarrow> bytes)" where
  "run_array [] v = ([], v)"
| "run_array (Rd b # ops) v = (case run_array ops v of (xs, v') \<Rightarrow> (v b # xs, v'))"
| "run_array (Wr b buf # ops) v = run_array ops (v(b := buf))"

text \<open>C9. The cache cannot be told from an array. Any sequence of reads and writes through the cache, whatever it
  evicts, writes back and fetches meanwhile, reads what the same sequence reads from an array of blocks that starts
  with the cache's contents, and ends with that array's contents. When it stops on an error, its contents are those of
  the array after some part of the sequence.\<close>

theorem cache_is_array:
  fixes m :: "'a io_scheme"
  assumes "cache_inv chk m" and "list_all op_ok ops"
  shows "wpE (run_cache ops) (\<lambda>xs m'. (xs, view m') = run_array ops (view m) \<and> cache_inv chk m')
    (\<lambda>e m'. cache_inv chk m' \<and> (\<exists>k \<le> length ops. view m' = snd (run_array (take k ops) (view m)))) m"
  using assms
proof (induction ops arbitrary: m)
  case Nil
  then show ?case by (simp add: wp)
next
  case (Cons x ops)
  show ?case
  proof (cases x)
    case (Rd b)
    show ?thesis
      unfolding Rd run_cache.simps wpE_bind
    proof (rule cache_store.rd_wp [OF Cons.prems(1)])
      show "b < 2 ^ 64" using Cons.prems(2) Rd by simp
      fix m1 :: "'a io_scheme" assume m1: "cache_inv chk m1" "view m1 = view m"
      show "wpE (run_cache ops) (\<lambda>xs. wpE (retE (view m b # xs)) (\<lambda>xs m'. (xs, view m') = run_array (Rd b # ops) (view m) \<and> cache_inv chk m')
          (\<lambda>e m'. cache_inv chk m' \<and> (\<exists>k \<le> length (Rd b # ops). view m' = snd (run_array (take k (Rd b # ops)) (view m)))))
        (\<lambda>e m'. cache_inv chk m' \<and> (\<exists>k \<le> length (Rd b # ops). view m' = snd (run_array (take k (Rd b # ops)) (view m)))) m1"
      proof (rule wpE_mono [OF Cons.IH [OF m1(1)]], goal_cases)
        case (3 e m')
        then obtain k where "k \<le> length ops" "view m' = snd (run_array (take k ops) (view m))" "cache_inv chk m'" using m1(2) by auto
        then show ?case by (intro conjI exI [of _ "Suc k"]) (auto split: prod.splits)
      qed (use Cons.prems(2) m1(2) in \<open>auto simp: wpE_ret split: prod.splits\<close>)
    next
      fix e and m1 :: "'a io_scheme" assume "cache_inv chk m1" "view m1 = view m"
      then show "cache_inv chk m1 \<and> (\<exists>k \<le> length (Rd b # ops). view m1 = snd (run_array (take k (Rd b # ops)) (view m)))"
        by (intro conjI exI [of _ 0]) simp_all
    qed
  next
    case (Wr b buf)
    show ?thesis
      unfolding Wr run_cache.simps wpE_bind
    proof (rule cache_store.wr_wp [OF Cons.prems(1)])
      show "b < 2 ^ 64" "length buf = BLOCK_SIZE" using Cons.prems(2) Wr by simp_all
      fix m1 :: "'a io_scheme" assume m1: "cache_inv chk m1" "view m1 = (view m)(b := buf)"
      show "wpE (run_cache ops) (\<lambda>xs m'. (xs, view m') = run_array (Wr b buf # ops) (view m) \<and> cache_inv chk m')
        (\<lambda>e m'. cache_inv chk m' \<and> (\<exists>k \<le> length (Wr b buf # ops). view m' = snd (run_array (take k (Wr b buf # ops)) (view m)))) m1"
      proof (rule wpE_mono [OF Cons.IH [OF m1(1), unfolded m1(2)]], goal_cases)
        case (3 e m')
        then obtain k where "k \<le> length ops" "view m' = snd (run_array (take k ops) ((view m)(b := buf)))" "cache_inv chk m'" by blast
        then show ?case by (intro conjI exI [of _ "Suc k"]) auto
      qed (use Cons.prems(2) in \<open>simp_all only: run_array.simps list.pred_inject\<close>)
    next
      fix e and m1 :: "'a io_scheme" assume "cache_inv chk m1" "view m1 = view m"
      then show "cache_inv chk m1 \<and> (\<exists>k \<le> length (Wr b buf # ops). view m1 = snd (run_array (take k (Wr b buf # ops)) (view m)))"
        by (intro conjI exI [of _ 0]) simp_all
    qed
  qed
qed

theorem cache_is_array_witness:
  "wpE (run_cache [Wr 400 (replicate BLOCK_SIZE 1), Rd 400, Rd 300]) (\<lambda>xs m'. xs = [replicate BLOCK_SIZE 1, replicate BLOCK_SIZE 0]) (\<lambda>_ _. True) wit_fs"
proof -
  have ok: "list_all op_ok [Wr 400 (replicate BLOCK_SIZE 1), Rd 400, Rd 300]" by simp
  show ?thesis
    by (rule wpE_mono [OF cache_is_array [OF wit_cache [of "\<lambda>_. True"] ok]]) (simp_all add: wit_view wit_media_def sb_area_def format_consts)
qed

text \<open>C38. Emptying the cache ends. \<open>drop_all\<close> returns on every state of the cache, however its lists are linked and
  whatever the device does; it changes no contents, and when it succeeds the cache is empty and every block on the
  medium is the one the cache showed.\<close>

theorem drop_all_ends:
  assumes "cache_inv chk m"
  shows "\<exists>r m'. drop_all m = Some (r, m') \<and> cache_inv chk m' \<and> view m' = view m \<and>
    (r = Inr () \<longrightarrow> cmap m' = Map.empty \<and> (\<forall>b < 2 ^ 64. media (dev m') (actual (dev m') b) = view m b))"
  using drop_all_spec [OF assms, of UNIV] by blast

theorem drop_all_ends_witness: "\<exists>r m'. drop_all wit_fs = Some (r, m') \<and> view m' = view wit_fs"
  using drop_all_ends [OF wit_cache [of "\<lambda>_. True"]] by blast


section \<open>The bitmap\<close>

text \<open>C16. The allocator keeps its books. From a bitmap whose free count, geometry and dirty marks agree, an allocation
  that succeeds returns a run of the requested length in the data area, all of it free before, marks exactly that run
  used and keeps the agreement; giving the run back restores the set of free blocks. An allocation that fails reports a
  full disk, changes nothing, and every free run it could have returned straddles the allocation cursor.\<close>

theorem bm_alloc_exact:
  assumes inv: "bm_inv bm"
  shows "case bm_alloc n bm of
      (Inr r, bm') \<Rightarrow> bm_inv bm' \<and> 0 < n \<and> bm_data_start bm \<le> r \<and> r + n \<le> bm_total bm \<and> {r..<r + n} \<subseteq> free_blocks bm \<and>
        free_blocks bm' = free_blocks bm - {r..<r + n} \<and> bm_inv (bm_free_range r n bm') \<and> free_blocks (bm_free_range r n bm') = free_blocks bm
    | (Inl e, bm') \<Rightarrow> e = DiskFull \<and> bm' = bm \<and>
        (\<forall>r. 0 < n \<longrightarrow> bm_data_start bm \<le> r \<longrightarrow> r + n \<le> bm_total bm \<longrightarrow> {r..<r + n} \<subseteq> free_blocks bm \<longrightarrow>
           r < alloc_cursor bm \<and> alloc_cursor bm < r + n)"
proof (cases "bm_alloc n bm")
  case (Pair x bm')
  show ?thesis
  proof (cases x)
    case (Inl e)
    note a = bm_alloc_Inl [OF inv, of n e bm']
    have "run_at (bm_data bm) r n" if "{r..<r + n} \<subseteq> free_blocks bm" for r
      using that by (auto simp: run_at_def free_blocks_iff subset_iff)
    then show ?thesis using a Pair Inl by auto
  next
    case (Inr r)
    note a = bm_alloc_Inr [OF inv, of n r bm'] Pair Inr
    have al: "bm_alloc n bm = (Inr r, bm')" using Pair Inr by simp
    note a = bm_alloc_Inr [OF inv al]
    note t = take_run_result [OF inv a(4,2,3,5)]
    have lay: "bm_data_start bm' \<le> r" "r + n \<le> bm_total bm'" using tracks_same [OF t(2)] a(2,3) by auto
    note f = bm_free_range_result [OF t(1) lay refl]
    have "free_blocks (bm_free_range r n bm') = free_blocks bm" using f(3) t(3,4) by blast
    then show ?thesis using al a t f(1) by simp
  qed
qed

theorem bm_alloc_exact_witness: "bm_inv (snd (bm_alloc 3 wit_bm))"
  using bm_alloc_exact [OF wit_bm_facts(1), of 3] by (auto simp: wit_bm_facts split: prod.splits sum.splits)

text \<open>C39. A trim discards what is free and nothing else: when no two pending ranges overlap, the ranges handed to the
  device cover exactly the blocks that were freed and are still free. A block that was allocated again in the meantime is not
  discarded.\<close>

theorem trim_discards_free:
  assumes "bm_inv bm" and "disjoint_trims bm"
  shows "cover (trim_ranges bm) = cover (trim_pending bm) \<inter> free_blocks bm"
  by (rule trim_ranges_cover [OF assms])

definition wit_trim :: bitmap where
  "wit_trim = wit_bm\<lparr>trim_pending := [(300, 4), (280, 2)]\<rparr>"

theorem trim_discards_free_witness: "cover (trim_ranges wit_trim) = {300..<304} \<union> {280..<282}"
proof -
  have i: "bm_inv wit_trim" and f: "free_blocks wit_trim = {266..<512}"
    using wit_bm_facts(1,2,4,5) by (auto simp: wit_trim_def bm_inv_def free_blocks_def)
  have d: "disjoint_trims wit_trim" by (simp add: disjoint_trims_def wit_trim_def)
  have "cover (trim_ranges wit_trim) = cover (trim_pending wit_trim) \<inter> free_blocks wit_trim" by (rule trim_discards_free [OF i d])
  also have "\<dots> = {300..<304} \<union> {280..<282}" unfolding f by (auto simp: wit_trim_def cover_def)
  finally show ?thesis .
qed

text \<open>When ranges overlap, because a block was freed twice with an allocation between, the subtraction that extends the
  last range wraps: with blocks 10, 11 and 15 to 19 free, and 10 to 19 freed before 10 and 11 were freed again, the
  range from 15 gets a length that covers every later block of the disk, block 20 among them, which is in use.\<close>

definition overlap_bm :: bitmap where
  "overlap_bm = \<lparr>bm_data = [0xFF, 0x73, 0xF0, 0xFF], bm_start = 1, bm_count = 1, bm_data_start = 2, bm_total = 32, bm_free = 7,
     bm_dirty = True, bm_dirty_blocks = [True], trim_pending = [(10, 10), (10, 2)], alloc_cursor = 2\<rparr>"

lemma overlapping_trims_discard_used:
  "bm_inv overlap_bm" "trim_ranges overlap_bm = [(10, 2), (15, 2 ^ 64 - 3)]" "is_allocated 20 overlap_bm" "20 \<in> cover (trim_ranges overlap_bm)"
proof -
  have "free_blocks overlap_bm = set (filter (bv_clear (bm_data overlap_bm)) [0..<32])"
    by (auto simp: free_blocks_def clear_bits_def overlap_bm_def)
  also have "filter (bv_clear (bm_data overlap_bm)) [0..<32] = [10, 11, 15, 16, 17, 18, 19]" by code_simp
  finally have "card (free_blocks overlap_bm) = 7" by simp
  then show "bm_inv overlap_bm" unfolding bm_inv_def by (simp add: overlap_bm_def div_ceil_def BLOCK_SIZE_def)
  show r: "trim_ranges overlap_bm = [(10, 2), (15, 2 ^ 64 - 3)]"
    by (simp add: trim_ranges_def overlap_bm_def trim_range.simps run_end.simps merge_run_def bv_clear_def)
  show "is_allocated 20 overlap_bm" by code_simp
  show "20 \<in> cover (trim_ranges overlap_bm)" unfolding r by (simp add: cover_def)
qed

section \<open>Damaged disks\<close>

text \<open>C40. The self-check changes nothing on the disk and reports exactly what it counts. The references it reads are the
  nodes of the index, the blocks of each chain it can follow, and the blocks of the extents that lie in the data
  area; an extent that does not lie in the data area, such as one that points past the end of the device, is
  skipped and counted nowhere. Of these references it reports the distinct blocks inside the disk, the ones
  referenced more than once, the references outside the disk, and the referenced blocks the bitmap has as free. With
  a bitmap that covers the disk, the count of references outside it therefore comes from node and chain
  pointers alone.\<close>

theorem self_check_exact:
  assumes mt: "mounted m" and inv: "cache_inv (verify_node_checksum h) m" and root: "sb_btree_root (fs_sb m) < 2 ^ 64"
  shows "\<exists>bs r m'. fsck_references h m = (bs, m') \<and> self_check h m = (Inr r, m') \<and> view m' = view m \<and> bmap m' = bmap m \<and>
    rep_referenced r = card {b \<in> set bs. b < bm_total (bmap m)} \<and>
    rep_double_alloc r = card {b. 2 \<le> count_list bs b \<and> b < bm_total (bmap m)} \<and>
    rep_out_of_range r = length (filter (\<lambda>b. bm_total (bmap m) \<le> b) bs) \<and>
    (sb_total_blocks (fs_sb m) \<le> bm_total (bmap m) \<longrightarrow>
       rep_out_of_range r = length (filter (\<lambda>b. bm_total (bmap m) \<le> b) (fsck_pointers h m))) \<and>
    rep_free_but_referenced r = card {b \<in> set bs. b < bm_total (bmap m) \<and> \<not> is_allocated b (bmap m)}"
proof -
  obtain bs m' where f: "fsck_references h m = (bs, m')" by fastforce
  note rd = readsD [OF fsck_references_reads [OF inv root f]]
  have bm: "bmap m' = bmap m" using rd fs_of_io(1) by blast
  obtain r where "self_check h m = (Inr r, m')" "rep_referenced r = card {b \<in> set bs. b < bm_total (bmap m)}"
    "rep_double_alloc r = card {b. 2 \<le> count_list bs b \<and> b < bm_total (bmap m)}"
    "rep_out_of_range r = length (filter (\<lambda>b. bm_total (bmap m) \<le> b) bs)"
    "rep_free_but_referenced r = card {b \<in> set bs. b < bm_total (bmap m) \<and> \<not> is_allocated b (bmap m)}"
    by (rule self_check_counts [OF mt f refl bm])
  then show ?thesis
    using f rd bm fsck_pointers_out_of_range [OF f]
    by (intro exI [of _ bs] exI [of _ r] exI [of _ m'] conjI) simp_all
qed

theorem self_check_exact_witness: "\<exists>r m'. self_check wit_h wit_fs = (Inr r, m') \<and> view m' = view wit_fs"
  using self_check_exact [OF wit_fs_fields(5) wit_cache [of "verify_node_checksum wit_h"]] wit_sb_facts(4) by (force simp: wit_fs_fields)

lemma read_chain_exact:
  fixes m :: "'a io_scheme"
  assumes "cache_inv chk m" and "block < 2 ^ 64" and "distinct seen"
  shows "wpE (read_chain exts seen block)
    (\<lambda>(xs, bs) m'. \<exists>cs ys. xs = exts @ ys \<and> bs = seen @ cs \<and> distinct bs \<and> chain_rep (view m) block cs ys \<and> reads chk m m')
    (\<lambda>e m'. reads chk m m' \<and> (env_error e \<or> e = Corrupt \<and> (\<nexists>cs ys. chain_rep (view m) block cs ys \<and> distinct (seen @ cs)))) m"
  using assms
proof (induction exts seen block m rule: read_chain.induct)
  case (1 exts seen block m)
  show ?case
  proof (cases "block = 0 \<or> block \<in> set seen")
    case True
    have "distinct (seen @ cs) \<Longrightarrow> chain_rep (view m) block cs ys \<Longrightarrow> block = 0" for cs ys using True by (cases cs) auto
    then show ?thesis using True 1(2,4) by (subst wpE_def, subst read_chain.simps) (auto simp: reads_refl)
  next
    case False
    obtain r1 m1 where rd: "cache_read block m = (r1, m1)" by fastforce
    note rs = cache_read_reads [OF 1(2,3) rd]
    show ?thesis
    proof (cases r1)
      case (Inl e)
      then have "read_chain exts seen block m = (Inl e, m1)" using rd False by (subst read_chain.simps) simp
      moreover have "env_error e" using cache_error(3) [of block m e m1] rd Inl by (auto simp: env_error_def)
      ultimately show ?thesis using rs by (simp add: wpE_def)
    next
      case (Inr buf)
      have buf: "buf = view m block" using cache_read_spec(4) [OF 1(2,3) rd] Inr by simp
      have eq: "read_chain exts seen block m = read_chain (exts @ chain_extents buf) (seen @ [block]) (chain_next buf) m1"
        using rd False Inr by (subst read_chain.simps) simp
      have m1: "cache_inv chk m1" "view m1 = view m" using readsD [OF rs] by auto
      have st: "chain_rep (view m) block cs ys \<longleftrightarrow> (\<exists>ds zs. cs = block # ds \<and> ys = chain_extents buf @ zs \<and> chain_rep (view m) (chain_next buf) ds zs)" for cs ys
        using False 1(3) buf by (cases cs) auto
      have d: "distinct (seen @ [block])" using False 1(4) by simp
      note ih = 1(1) [OF _ _ rd [symmetric] Inr m1(1) chain_next_less d]
      have run: "wpE (read_chain exts seen block) Q R m = wpE (read_chain (exts @ chain_extents buf) (seen @ [block]) (chain_next buf)) Q R m1" for Q R
        by (simp add: wpE_def eq)
      show ?thesis
        unfolding run
      proof (rule wpE_mono [OF ih], goal_cases)
        case (3 a m')
        then show ?case using reads_trans [OF rs] unfolding m1(2) st by (cases a) (auto 4 4)
      next
        case (4 e m')
        have "chain_rep (view m) (chain_next buf) ds zs \<and> distinct ((seen @ [block]) @ ds)"
          if "cs = block # ds" "chain_rep (view m) (chain_next buf) ds zs" "distinct (seen @ cs)" for cs ds zs using that by simp
        with 4 show ?case using reads_trans [OF rs] unfolding m1(2) st by blast
      qed (use False in auto)
    qed
  qed
qed

text \<open>C17. A chain of extent blocks is read safely from any disk. Whatever the blocks contain, reading a chain ends; it
  returns an answer exactly when the chain from the first block ends without coming back to a block, and then the
  blocks visited in order, each once, and the extents they hold; a chain that runs in a circle is reported as
  corrupt. Nothing on the disk is changed.\<close>

theorem read_indirect_chain_exact:
  fixes m :: "'a io_scheme"
  assumes "cache_inv chk m" and "block < 2 ^ 64"
  shows "wpE (read_indirect_chain block)
    (\<lambda>(xs, bs) m'. chain_rep (view m) block bs xs \<and> distinct bs \<and> view m' = view m)
    (\<lambda>e m'. view m' = view m \<and> (env_error e \<or> e = Corrupt \<and> (\<nexists>bs xs. chain_rep (view m) block bs xs \<and> distinct bs))) m"
  unfolding read_indirect_chain_def
  by (rule wpE_mono [OF read_chain_exact [OF assms, of "[]" "[]"]]) (auto dest: readsD)

definition loop_block :: bytes where
  "loop_block = to_le 4 0 @ to_le 8 400 @ replicate (BLOCK_SIZE - 12) 0"

definition wit_loop :: fs_io where
  "wit_loop = wit_fs\<lparr>dev := wit_dev\<lparr>media := wit_media(400 := loop_block)\<rparr>\<rparr>"

lemma wit_loop_facts: "cache_inv chk wit_loop" "view wit_loop 400 = loop_block" "chain_next loop_block = 400"
proof -
  have "length loop_block = BLOCK_SIZE" by (simp add: loop_block_def BLOCK_SIZE_def del: to_le_numeral)
  then have "env_ok wit_loop" using wit_env by (simp add: wit_loop_def env_ok_def wit_fs_fields wit_dev_def)
  moreover have "cache_new wit_loop = wit_loop" using wit_fs_fields(9) by (simp add: wit_loop_def cache_new_def wit_fs_def)
  ultimately show "cache_inv chk wit_loop" using cache_new_spec [of wit_loop chk] by simp
  show "view wit_loop 400 = loop_block" by (simp add: view_def wit_loop_def wit_fs_fields actual_def wit_dev_def)
  show "chain_next loop_block = 400"
    by (simp add: chain_next_def rd_le_def loop_block_def slices codec from_to_le del: to_le_numeral)
qed

lemma no_chain_in_loop: "chain_next (v b) = b \<Longrightarrow> 0 < b \<Longrightarrow> \<not> chain_rep v b bs xs"
  by (induction bs arbitrary: xs) auto

theorem read_indirect_chain_exact_witness:
  "wpE (read_indirect_chain 400) (\<lambda>_ _. False) (\<lambda>e m'. env_error e \<or> e = Corrupt) wit_loop"
proof -
  have b: "(400 :: nat) < 2 ^ 64" by simp
  have no: "\<not> chain_rep (view wit_loop) 400 bs xs" for bs xs by (rule no_chain_in_loop) (simp_all add: wit_loop_facts)
  show ?thesis by (rule wpE_mono [OF read_indirect_chain_exact [OF wit_loop_facts(1) [of "\<lambda>_. True"] b]]) (use no in auto)
qed

end
