(* ===== verification/Spec2Isabelle.thy ===== *)
theory Spec2Isabelle
  imports Security_Properties Memory_Properties Crypto_Properties Storage_Properties
begin

text \<open>
  A verification development for nopeekOS, a capability-based operating system in Rust (paths below are
  relative to \<^verbatim>\<open>src/kernel/src\<close>).

  \<^bold>\<open>The program.\<close> Every module of the system acts through a token of the capability vault, and what it does with
  the token is written to the audit journal. Its data is kept in npkFS, an encrypted, content-addressed object
  store: objects are cut into extents of a block device, found through a copy-on-write B-tree whose root is in a
  ring of superblocks, and read and written through a block cache; a bitmap has the free blocks, and a journal has
  the blocks the next mount may free. The disk key is wrapped in keyslots under a passphrase, and the secrets of
  modules are in a vault object of their own. Below all of it is the physical memory manager, from which the cache
  and the key derivation take frames, and which decides with the PCI tables what a driver module may map.

  \<^bold>\<open>Conventions\<close> (\<open>Prelude\<close>). Machine words are words where their width matters, other \<open>u64\<close> values are natural
  numbers with the wrap-around or saturation of the source written out. An operation that may fail is a function
  from a state to an error or a value, and a state: \<open>retE\<close>, \<open>throwE\<close>, \<open>bindE\<close>, \<open>forE\<close> and \<open>tryE\<close> compose them as
  \<open>return\<close>, \<open>?\<close> and loops do, and \<open>wpE f Q R s\<close> says that \<open>f\<close> from \<open>s\<close> ends in a value and state with \<open>Q\<close> or in an
  error and state with \<open>R\<close>. A state is a record; the storage stack extends one record from the device to the
  mounted file system, so each layer works on the state of the layers below it.

  \<^bold>\<open>Security.\<close>
  \<^item> \<open>Rights\<close>: the \<open>Rights\<close> bits and the declared rights of a WASM module with its LEB128 and section walk
    (\<^verbatim>\<open>security/capability.rs\<close>).
  \<^item> \<open>Audit_Journal\<close>: the journal of \<^verbatim>\<open>security/audit.rs\<close>, with 64-bit sequence numbers that wrap, folding of repeats
    and the holders. The locale \<open>audit_sink\<close> is what the vault relies on; it is interpreted on these definitions.
  \<^item> \<open>Capability\<close>: the vault (\<open>vault_create\<close>, \<open>vault_check\<close>, \<open>vault_revoke\<close>, \<open>vault_release\<close> for the methods of \<open>Vault\<close>,
    \<open>require\<close>, \<open>holds\<close>, \<open>check_pci_device\<close>, the path grants). \<open>sec_step\<close> has one rule for each call that changes the
    vault, the grants or the journal, the entries written for host calls and guests included, with clock readings that do not go
    back and fresh token ids; \<open>sec_reachable\<close> are the states from boot. The lemmas show the invariant \<open>vault_inv\<close>
    (unique ids, no active token below a revoked one, every token in force backed by its parent) and what a passed check means.
  \<^item> \<open>Security_Properties\<close>: authority comes from ancestors, revocation and release are exact, new tokens add none, the root ends in one
    way only, refusals are journalled, the journal is consecutive, grants stay where they were given.

  \<^bold>\<open>Memory.\<close>
  \<^item> \<open>Bit_Vector\<close>, \<open>Frames\<close>: the frame allocator of \<^verbatim>\<open>mm/memory.rs\<close>, its set-up and searches, and the questions asked of
    the firmware map. Shrinkers are an argument.
  \<^item> \<open>Device_Windows\<close>: \<open>npk_mmio_map_phys\<close> and \<open>mmio_refusal\<close> of \<^verbatim>\<open>wasm/host_core.rs\<close> with the driver state, and the owner and
    BAR tables of \<^verbatim>\<open>drivers/pci.rs\<close>. Page tables are an argument of any behaviour.
  \<^item> \<open>Memory_Properties\<close>: allocation and the contiguous searches are exact, only usable RAM becomes free, a mapping by
    physical address reaches no RAM, kernel image, interrupt controller or platform register. Its hypotheses are what UEFI
    says of memory maps: page-aligned, non-empty regions that do not overlap.

  \<^bold>\<open>Cryptography.\<close>
  \<^item> \<open>Aead\<close>: ChaCha20, Poly1305 with its limbs, and the cipher of \<^verbatim>\<open>crypto/aead.rs\<close>; the locale
    \<open>authenticated_cipher\<close> gives its laws and is interpreted on them.
  \<^item> \<open>Csprng\<close> (\<^verbatim>\<open>security/csprng.rs\<close>), \<open>Keyslot\<close> (\<^verbatim>\<open>crypto/keyslot.rs\<close>), \<open>Keyvault\<close> (\<^verbatim>\<open>security/keyvault.rs\<close>), \<open>Disk_Keys\<close>
    (the derived keys of \<^verbatim>\<open>crypto/aead.rs\<close>). AES-256-GCM, BLAKE3 and Argon2 are external crates and fields of
    records; the predicates \<open>gcm_correct\<close> and \<open>ciphers_ok\<close> name the laws used, \<open>kdf_memory\<close> that a derivation gets its memory.
  \<^item> \<open>Crypto_Properties\<close>: Poly1305 is RFC 8439's, decryption accepts exactly what encryption made, slots and
    vault entries open again, the vault format reads back exactly the well-formed vaults, key derivation leaves nothing in memory.

  \<^bold>\<open>Storage.\<close>
  \<^item> \<open>Block_Device\<close> (\<^verbatim>\<open>drivers/blkdev.rs\<close>): the drivers are an arbitrary sequence of outcomes, and writes that were not
    flushed are kept apart; in a crash image each block has its durable contents or one of its writes since the flush.
  \<^item> \<open>Block_Cache\<close> (\<^verbatim>\<open>storage/npkfs/cache.rs\<close>): slots, LRU links, frames, write-back and shrinker. \<open>Block_Store\<close> has the
    contract of its clients as the locale \<open>block_store\<close>, a flat array \<open>view\<close>, interpreted on the cache.
  \<^item> \<open>Block_Bitmap\<close>, \<open>Disk_Format\<close>, \<open>Superblock_Ring\<close>, \<open>Fs_Journal\<close>: \<^verbatim>\<open>bitmap.rs\<close>, \<^verbatim>\<open>format.rs\<close> and \<^verbatim>\<open>types.rs\<close>,
    \<^verbatim>\<open>sb_io.rs\<close> and \<^verbatim>\<open>journal.rs\<close> of \<^verbatim>\<open>storage/npkfs\<close>.
  \<^item> \<open>Btree_Node\<close>, \<open>Btree\<close>, \<open>Btree_Trees\<close>: \<^verbatim>\<open>btree.rs\<close>, as blocks of bytes and then as trees of lists.
  \<^item> \<open>Object_Storage\<close>, \<open>Fsck\<close>: \<^verbatim>\<open>storage.rs\<close>. \<open>Object_Data\<close>, \<open>Object_Map\<close>, \<open>Object_Commit\<close>, \<open>Object_Mount\<close> build its
    specification: \<open>represents h c n m M\<close>, the mounted store \<open>m\<close> holds the finite map \<open>M\<close>; \<open>durable_map\<close>, every crash image
    does; \<open>mountable\<close>, a mount finds it.
  \<^item> \<open>Storage_Properties\<close>: put and get refine the map, a commit is atomic under loss of power, mount recovers
    the map, the cache is an array, the bitmap and extent chains are exact on any disk contents, and the self-check
    counts what it reads.

  \<^bold>\<open>Bounds and termination.\<close> Loops are structural or come with a measure: the walk of the tree stops at depth 64 and
  at blocks it has seen, extent chains at blocks they have visited, the descent at \<open>MAX_TREE_DEPTH\<close> = 8 as in the source.
  The refinement of put asks for a tree of at most that height and payloads of at most \<open>AES_LIMIT\<close> = \<open>2 ^ 36 - 32\<close>
  bytes, the limit of AES-GCM. \<open>drop_all\<close> and \<open>shrink\<close> follow links and are \<open>while_option\<close>s; both are shown to return
  under the cache invariant. The draws that reject zero are partial functions, shown to return once a draw is not
  zero.

  \<^bold>\<open>Not modelled.\<close> Locks: an operation is one step, and \<open>put\<close>, whose lock is released while it writes data, is the
  sequence of its parts with no other operation between. Allocation of vectors on the heap is taken to succeed.
  \<open>remove_many\<close> is modelled and not related to the map. The path layer of npkFS rests on an external
  encoding; the other file systems, TLS, the network stack, the WASM engines and most host calls, the intents, the
  desktop, the hypervisor, drivers, page tables, scheduling and start-up work on devices, assembly or external
  crates and are outside the model. Mapping a BAR reads and writes configuration space and is left out.
\<close>

end
